(* ===== verification/Prelude.thy ===== *)
theory Prelude
  imports Main "HOL-Library.Word"
begin

text \<open>
  The shared vocabulary of the development: machine integers, byte buffers, the result type of
  fallible Rust code, and the lemmas on them that every component uses.

  \<^item> Bytes are \<^typ>\<open>8 word\<close>, the fixed-width integers of the source are words of their width, and
    \<open>usize\<close> (offsets, lengths, counts) is \<^typ>\<open>nat\<close>: every quantity of that type in the source is
    bounded by a page, a file or a collection length.
  \<^item> \<open>('e, 'a) result\<close>, with the crate's error type \<open>'a res\<close>, is what a Rust call gives: a value, an error value, or a panic (slice out of range,
    \<open>unwrap\<close> on \<open>None\<close>, arithmetic overflow). \<open>res_bind\<close> is sequencing, with \<open>?\<close> for errors and
    unwinding for panics.
  \<^item> \<open>to_le\<close>/\<open>from_le\<close> are the \<open>to_le_bytes\<close>/\<open>from_le_bytes\<close> families; \<open>get_slice\<close> and
    \<open>copy_at\<close> are slice indexing and \<open>copy_from_slice\<close> on a mutable buffer, with their range
    checks; \<open>read_u16\<close> to \<open>write_u64\<close> combine the two.
  \<^item> The collection \<open>buf_simps\<close> holds the rewrite rules on buffers: what a read gives after a write
    at the same place and at a disjoint place.
\<close>

named_theorems buf_simps "reading and writing byte buffers"

declare One_nat_def [simp del]

section \<open>Types\<close>

type_synonym byte = "8 word"
type_synonym bytes = "8 word list"
type_synonym u16 = "16 word"
type_synonym u32 = "32 word"
type_synonym u64 = "64 word"

text \<open>The kinds of \<open>std::io::Error\<close> that the source tells apart; the remaining kinds are
  \<open>OtherKind\<close>.\<close>

datatype io_kind =
    InvalidInputKind | InvalidData | AlreadyExists | NotFound | WouldBlock | TimedOut | Interrupted
  | BrokenPipe | ConnectionRefused | ConnectionReset | ConnectionAborted | NotConnected
  | AddrInUse | AddrNotAvailable | NetworkDown | NetworkUnreachable | HostUnreachable
  | UnexpectedEof | OtherKind

datatype error =
    Io io_kind string
  | Capnp string
  | InvalidPageSize nat nat
  | InvalidValueSize nat nat
  | InvalidKeySize nat nat
  | InMemoryPageMissing u64
  | TxnTimeout

datatype ('e, 'a) result = Ok 'a | Err 'e | Panic

type_synonym 'a res = "(error, 'a) result"

section \<open>Definitions\<close>

fun res_bind :: "('e, 'a) result \<Rightarrow> ('a \<Rightarrow> ('e, 'b) result) \<Rightarrow> ('e, 'b) result" where
  "res_bind (Ok x) f = f x"
| "res_bind (Err e) f = Err e"
| "res_bind Panic f = Panic"

definition res_map :: "('a \<Rightarrow> 'b) \<Rightarrow> ('e, 'a) result \<Rightarrow> ('e, 'b) result" where
  "res_map f r = res_bind r (\<lambda>x. Ok (f x))"

definition no_panic :: "('e, 'a) result \<Rightarrow> bool" where
  "no_panic r \<longleftrightarrow> r \<noteq> Panic"

definition invalid_input :: "string \<Rightarrow> 'a res" where
  "invalid_input msg = Err (Io InvalidInputKind msg)"

definition invalid_data :: "string \<Rightarrow> 'a res" where
  "invalid_data msg = Err (Io InvalidData msg)"

text \<open>Little-endian byte strings of naturals, least significant byte first.\<close>

fun nat_le :: "nat \<Rightarrow> nat \<Rightarrow> bytes" where
  "nat_le 0 n = []"
| "nat_le (Suc k) n = word_of_nat (n mod 256) # nat_le k (n div 256)"

fun le_nat :: "bytes \<Rightarrow> nat" where
  "le_nat [] = 0"
| "le_nat (b # bs) = unat b + 256 * le_nat bs"

definition to_le :: "nat \<Rightarrow> 'a::len word \<Rightarrow> bytes" where
  "to_le k w = nat_le k (unat w)"

definition from_le :: "bytes \<Rightarrow> 'a::len word" where
  "from_le bs = word_of_nat (le_nat bs)"

text \<open>Sub-buffers: \<open>get_at p off n\<close> are the \<open>n\<close> bytes at \<open>off\<close>, \<open>put_at p off xs\<close> overwrites the bytes
  at \<open>off\<close> with \<open>xs\<close> and never grows the buffer, so that its length lemma has no side condition.
  \<open>copy_at\<close>, the operation of the source, uses it in range only.\<close>

definition get_at :: "'a list \<Rightarrow> nat \<Rightarrow> nat \<Rightarrow> 'a list" where
  "get_at p off n = take n (drop off p)"

definition put_at :: "'a list \<Rightarrow> nat \<Rightarrow> 'a list \<Rightarrow> 'a list" where
  "put_at p off xs = take off p @ take (length p - off) xs @ drop (off + length xs) p"

definition get_slice :: "'a list \<Rightarrow> nat \<Rightarrow> nat \<Rightarrow> ('e, 'a list) result" where
  "get_slice p a b = (if a \<le> b \<and> b \<le> length p then Ok (get_at p a (b - a)) else Panic)"

definition copy_at :: "'a list \<Rightarrow> nat \<Rightarrow> 'a list \<Rightarrow> 'a list res" where
  "copy_at p off xs = (if off + length xs \<le> length p then Ok (put_at p off xs) else Panic)"

definition read_u16 :: "bytes \<Rightarrow> nat \<Rightarrow> ('e, u16) result" where
  "read_u16 p off = res_bind (get_slice p off (off + 2)) (\<lambda>bs. Ok (from_le bs))"

definition read_u32 :: "bytes \<Rightarrow> nat \<Rightarrow> ('e, u32) result" where
  "read_u32 p off = res_bind (get_slice p off (off + 4)) (\<lambda>bs. Ok (from_le bs))"

definition read_u64 :: "bytes \<Rightarrow> nat \<Rightarrow> ('e, u64) result" where
  "read_u64 p off = res_bind (get_slice p off (off + 8)) (\<lambda>bs. Ok (from_le bs))"

definition write_u16 :: "bytes \<Rightarrow> nat \<Rightarrow> u16 \<Rightarrow> bytes res" where
  "write_u16 p off v = copy_at p off (to_le 2 v)"

definition write_u32 :: "bytes \<Rightarrow> nat \<Rightarrow> u32 \<Rightarrow> bytes res" where
  "write_u32 p off v = copy_at p off (to_le 4 v)"

definition write_u64 :: "bytes \<Rightarrow> nat \<Rightarrow> u64 \<Rightarrow> bytes res" where
  "write_u64 p off v = copy_at p off (to_le 8 v)"

definition read_u8 :: "bytes \<Rightarrow> nat \<Rightarrow> ('e, byte) result" where
  "read_u8 p off = (if off < length p then Ok (p ! off) else Panic)"

definition write_u8 :: "bytes \<Rightarrow> nat \<Rightarrow> byte \<Rightarrow> bytes res" where
  "write_u8 p off v = (if off < length p then Ok (p[off := v]) else Panic)"

text \<open>A run of \<open>copy_from_slice\<close> writes into one buffer, in order.\<close>

fun write_fields :: "'a list \<Rightarrow> (nat \<times> 'a list) list \<Rightarrow> 'a list res" where
  "write_fields p [] = Ok p"
| "write_fields p ((off, xs) # ws) = res_bind (copy_at p off xs) (\<lambda>p'. write_fields p' ws)"

fun put_fields :: "'a list \<Rightarrow> (nat \<times> 'a list) list \<Rightarrow> 'a list" where
  "put_fields p [] = p"
| "put_fields p ((off, xs) # ws) = put_fields (put_at p off xs) ws"

text \<open>The writes of \<open>off += len\<close> code: each field where the previous one ends.\<close>

fun field_run :: "nat \<Rightarrow> 'a list list \<Rightarrow> (nat \<times> 'a list) list" where
  "field_run off [] = []"
| "field_run off (xs # xss) = (off, xs) # field_run (off + length xs) xss"

text \<open>Decimal digits, for the numbers in error messages.\<close>

fun show_digits :: "nat \<Rightarrow> nat \<Rightarrow> string" where
  "show_digits 0 n = []"
| "show_digits (Suc fuel) n =
     (if n < 10 then [char_of (48 + n)] else show_digits fuel (n div 10) @ [char_of (48 + n mod 10)])"

definition show_nat :: "nat \<Rightarrow> string" where
  "show_nat n = show_digits (Suc n) n"

text \<open>Saturating arithmetic on words (\<open>saturating_add\<close>, \<open>saturating_sub\<close>).\<close>

definition sat_sub :: "'a::len word \<Rightarrow> 'a word \<Rightarrow> 'a word" where
  "sat_sub a b = (if b \<le> a then a - b else 0)"

definition sat_add :: "'a::len word \<Rightarrow> 'a word \<Rightarrow> 'a word" where
  "sat_add a b = (if unat a + unat b < 2 ^ LENGTH('a) then a + b else - 1)"

text \<open>Checked addition: overflow is a panic.\<close>

definition chk_add :: "'a::len word \<Rightarrow> 'a word \<Rightarrow> 'a word res" where
  "chk_add a b = (if unat a + unat b < 2 ^ LENGTH('a) then Ok (a + b) else Panic)"

definition chk_sub :: "'a::len word \<Rightarrow> 'a word \<Rightarrow> 'a word res" where
  "chk_sub a b = (if b \<le> a then Ok (a - b) else Panic)"

section \<open>Results\<close>

lemma res_bind_Ok_iff: "res_bind r f = Ok y \<longleftrightarrow> (\<exists>x. r = Ok x \<and> f x = Ok y)"
  by (cases r) auto

lemma res_bind_assoc: "res_bind (res_bind r f) g = res_bind r (\<lambda>x. res_bind (f x) g)"
  by (cases r) auto

lemma res_map_simps [simp]:
  "res_map f (Ok x) = Ok (f x)" "res_map f (Err e) = Err e" "res_map f Panic = Panic"
  by (simp_all add: res_map_def)

lemma res_map_Ok_iff: "res_map f r = Ok y \<longleftrightarrow> (\<exists>x. r = Ok x \<and> y = f x)"
  by (cases r) auto

text \<open>Absence of panics is proved along the structure of the code.\<close>

named_theorems safe_intros "rules for the absence of panics"

lemma no_panic_simps [simp]: "no_panic (Ok x)" "no_panic (Err e)" "\<not> no_panic Panic"
    "no_panic (invalid_input msg)" "no_panic (invalid_data msg)"
  by (simp_all add: no_panic_def invalid_input_def invalid_data_def)

lemma no_panic_bind [safe_intros]:
  "no_panic r \<Longrightarrow> (\<And>x. r = Ok x \<Longrightarrow> no_panic (f x)) \<Longrightarrow> no_panic (res_bind r f)"
  by (cases r) auto

lemma no_panic_map [safe_intros]: "no_panic r \<Longrightarrow> no_panic (res_map f r)"
  by (cases r) auto

lemma no_panic_if [safe_intros]:
  "(b \<Longrightarrow> no_panic r) \<Longrightarrow> (\<not> b \<Longrightarrow> no_panic s) \<Longrightarrow> no_panic (if b then r else s)"
  by simp

lemma no_panic_prod [safe_intros]:
  "(\<And>a b. x = (a, b) \<Longrightarrow> no_panic (f a b)) \<Longrightarrow> no_panic (case x of (a, b) \<Rightarrow> f a b)"
  by (cases x) auto

lemma no_panic_option [safe_intros]:
  "no_panic r \<Longrightarrow> (\<And>y. x = Some y \<Longrightarrow> no_panic (f y)) \<Longrightarrow> no_panic (case x of None \<Rightarrow> r | Some y \<Rightarrow> f y)"
  by (cases x) auto

lemma upt_plus1 [simp]: "i \<le> j \<Longrightarrow> [i..<j + 1] = [i..<j] @ [j]"
  by (simp flip: Suc_eq_plus1)

section \<open>Little-endian codec\<close>

lemma length_nat_le [simp]: "length (nat_le k n) = k"
  by (induction k arbitrary: n) auto

lemma le_nat_nat_le: "le_nat (nat_le k n) = n mod 256 ^ k"
proof (induction k arbitrary: n)
  case (Suc k)
  have "unat (word_of_nat (n mod 256) :: byte) = n mod 256"
    by (simp add: unat_of_nat)
  then show ?case
    using Suc [of "n div 256"] mod_mult2_eq [of n 256 "256 ^ k"] by simp
qed simp

lemma le_nat_bound: "le_nat bs < 256 ^ length bs"
proof (induction bs)
  case (Cons b bs)
  have "unat b < 256" using unsigned_less [where 'a = nat, of b] by simp
  then show ?case using Cons by simp
qed simp

lemma nat_le_le_nat: "nat_le (length bs) (le_nat bs) = bs"
proof (induction bs)
  case (Cons b bs)
  have "unat b < 256" using unsigned_less [where 'a = nat, of b] by simp
  then show ?case using Cons by simp
qed simp

lemma length_to_le [simp]: "length (to_le k w) = k"
  by (simp add: to_le_def)

lemma from_to_le:
  fixes w :: "'a::len word"
  assumes "LENGTH('a) \<le> 8 * k"
  shows "(from_le (to_le k w) :: 'a word) = w"
proof -
  have "(2::nat) ^ LENGTH('a) \<le> 2 ^ (8 * k)"
    using assms by (intro power_increasing) auto
  also have "\<dots> = 256 ^ k" by (simp add: power_mult)
  finally have "unat w < 256 ^ k"
    by (rule order.strict_trans2 [OF unsigned_less])
  then show ?thesis by (simp add: from_le_def to_le_def le_nat_nat_le)
qed

lemma from_to_le_words [simp, buf_simps]:
  "(from_le (to_le 2 v16) :: u16) = v16" "(from_le (to_le 4 v32) :: u32) = v32"
  "(from_le (to_le 8 v64) :: u64) = v64" "(from_le (to_le 1 v8) :: byte) = v8"
  by (simp_all add: from_to_le)

lemma to_from_le:
  assumes "length bs = k" and "8 * k \<le> LENGTH('a)"
  shows "to_le k (from_le bs :: 'a::len word) = bs"
proof -
  have "(256::nat) ^ k = 2 ^ (8 * k)" by (simp add: power_mult)
  also have "\<dots> \<le> 2 ^ LENGTH('a)" using assms by (intro power_increasing) auto
  finally have "le_nat bs < 2 ^ LENGTH('a)"
    using le_nat_bound [of bs] unfolding assms(1) by (rule order.strict_trans2 [rotated])
  then have "unat (from_le bs :: 'a word) = le_nat bs"
    by (simp add: from_le_def unat_of_nat)
  then show ?thesis using assms nat_le_le_nat [of bs] by (simp add: to_le_def)
qed

lemma to_le_inj:
  fixes v w :: "'a::len word"
  assumes "LENGTH('a) \<le> 8 * k" and "to_le k v = to_le k w"
  shows "v = w"
  by (metis assms from_to_le)

lemma from_le_zeros [simp]: "(from_le (replicate n 0) :: 'a::len word) = 0"
proof -
  have "le_nat (replicate n 0) = 0" by (induction n) auto
  then show ?thesis by (simp add: from_le_def)
qed

section \<open>Buffers\<close>

lemma length_get_at [buf_simps]: "off + n \<le> length p \<Longrightarrow> length (get_at p off n) = n"
  by (simp add: get_at_def)

lemma length_put_at [simp, buf_simps]: "length (put_at p off xs) = length p"
  by (auto simp: put_at_def)

lemma put_at_in_range: "off + length xs \<le> length p \<Longrightarrow> put_at p off xs = take off p @ xs @ drop (off + length xs) p"
  by (simp add: put_at_def)

lemma get_at_put_at_same [buf_simps]:
  "off + length xs \<le> length p \<Longrightarrow> n = length xs \<Longrightarrow> get_at (put_at p off xs) off n = xs"
  by (simp add: get_at_def put_at_in_range)

lemma get_at_put_at_before [buf_simps]: "a + n \<le> off \<Longrightarrow> get_at (put_at p off xs) a n = get_at p a n"
  by (cases "off \<le> length p") (simp_all add: get_at_def put_at_def drop_take min_absorb1)

lemma get_at_put_at_after [buf_simps]:
  assumes "off + length xs \<le> a"
  shows "get_at (put_at p off xs) a n = get_at p a n"
proof -
  have "drop a (put_at p off xs) = drop a p"
    using assms by (cases "off + length xs \<le> length p") (simp_all add: put_at_def)
  then show ?thesis by (simp add: get_at_def)
qed

lemma get_at_put_at_disjoint:
  "a + n \<le> off \<or> off + length xs \<le> a \<Longrightarrow> get_at (put_at p off xs) a n = get_at p a n"
  using get_at_put_at_before get_at_put_at_after by metis

lemma get_at_get_at: "a + n \<le> m \<Longrightarrow> get_at (get_at p off m) a n = get_at p (off + a) n"
  by (simp add: get_at_def drop_take add.commute min_def)

lemma get_at_put_at_inside:
  assumes "d + length xs \<le> n" and "off + n \<le> length p"
  shows "get_at (put_at p (off + d) xs) off n = put_at (get_at p off n) d xs"
proof -
  obtain a b c where p: "p = a @ b @ c" and l: "length a = off" "length b = n"
  proof (rule that)
    show "p = take off p @ take n (drop off p) @ drop n (drop off p)" by (simp only: append_take_drop_id)
  qed (use assms in auto)
  have "put_at p (off + d) xs = a @ put_at b d xs @ c"
    using assms l by (simp add: p put_at_def)
  then show ?thesis using l by (simp add: get_at_def p)
qed

lemma get_at_replicate [buf_simps]:
  "off + n \<le> m \<Longrightarrow> get_at (replicate m x) off n = replicate n x"
  by (simp add: get_at_def)

lemma get_at_whole [simp]: "length p = n \<Longrightarrow> get_at p 0 n = p"
  by (simp add: get_at_def)

lemma put_at_put_at_same: "length xs = length ys \<Longrightarrow> off + length xs \<le> length p \<Longrightarrow>
  put_at (put_at p off xs) off ys = put_at p off ys"
  by (simp add: put_at_in_range)

lemma put_at_get_at_id: "off + n \<le> length p \<Longrightarrow> put_at p off (get_at p off n) = p"
proof -
  assume "off + n \<le> length p"
  then have "put_at p off (get_at p off n) = take off p @ take n (drop off p) @ drop n (drop off p)"
    by (simp add: put_at_in_range get_at_def add.commute)
  then show ?thesis by (simp only: append_take_drop_id)
qed

lemma get_slice_Ok [buf_simps]: "a \<le> b \<Longrightarrow> b \<le> length p \<Longrightarrow> get_slice p a b = Ok (get_at p a (b - a))"
  by (simp add: get_slice_def)

lemma copy_at_Ok [buf_simps]: "off + length xs \<le> length p \<Longrightarrow> copy_at p off xs = Ok (put_at p off xs)"
  by (simp add: copy_at_def)

lemma read_words_Ok [buf_simps]:
  "off + 2 \<le> length p \<Longrightarrow> read_u16 p off = Ok (from_le (get_at p off 2))"
  "off + 4 \<le> length p \<Longrightarrow> read_u32 p off = Ok (from_le (get_at p off 4))"
  "off + 8 \<le> length p \<Longrightarrow> read_u64 p off = Ok (from_le (get_at p off 8))"
  by (simp_all add: read_u16_def read_u32_def read_u64_def get_slice_Ok)

lemma write_words_Ok [buf_simps]:
  "off + 2 \<le> length p \<Longrightarrow> write_u16 p off v16 = Ok (put_at p off (to_le 2 v16))"
  "off + 4 \<le> length p \<Longrightarrow> write_u32 p off v32 = Ok (put_at p off (to_le 4 v32))"
  "off + 8 \<le> length p \<Longrightarrow> write_u64 p off v64 = Ok (put_at p off (to_le 8 v64))"
  by (simp_all add: write_u16_def write_u32_def write_u64_def copy_at_Ok)

lemma nth_get_at: "off < length p \<Longrightarrow> p ! off = hd (get_at p off 1)"
  by (simp add: get_at_def hd_drop_conv_nth)

lemma read_u8_Ok [buf_simps]: "off < length p \<Longrightarrow> read_u8 p off = Ok (hd (get_at p off 1))"
  by (simp add: read_u8_def nth_get_at)

lemma write_u8_Ok [buf_simps]: "off < length p \<Longrightarrow> write_u8 p off v = Ok (put_at p off [v])"
  by (simp add: write_u8_def put_at_def upd_conv_take_nth_drop)

lemma put_fields_snoc: "put_fields p (ws @ [(off, xs)]) = put_at (put_fields p ws) off xs"
  by (induction p ws rule: put_fields.induct) auto

lemma put_fields_append: "put_fields p (ws @ vs) = put_fields (put_fields p ws) vs"
  by (induction p ws rule: put_fields.induct) auto

lemma length_put_fields [simp, buf_simps]: "length (put_fields p ws) = length p"
  by (induction p ws rule: put_fields.induct) auto

lemma write_fields_Ok [buf_simps]:
  "(\<forall>(off, xs) \<in> set ws. off + length xs \<le> length p) \<Longrightarrow> write_fields p ws = Ok (put_fields p ws)"
  by (induction p ws rule: put_fields.induct) (auto simp: copy_at_Ok)

lemma put_at_append: "off + length xs + length ys \<le> length p \<Longrightarrow> put_at (put_at p off xs) (off + length xs) ys = put_at p off (xs @ ys)"
  by (simp add: put_at_in_range add.commute add.left_commute)

lemma put_field_run: "off + length (concat xss) \<le> length p \<Longrightarrow> put_fields p (field_run off xss) = put_at p off (concat xss)"
proof (induction xss arbitrary: off p)
  case Nil
  then show ?case by (simp add: put_at_def)
next
  case (Cons xs xss)
  then show ?case using Cons.IH [of "off + length xs" "put_at p off xs"] by (simp add: put_at_append)
qed

lemma field_run_in_range: "off + length (concat xss) \<le> n \<Longrightarrow> \<forall>(a, xs) \<in> set (field_run off xss). a + length xs \<le> n"
proof (induction xss arbitrary: off)
  case (Cons xs xss)
  then show ?case using Cons.IH [of "off + length xs"] by (auto simp: add.assoc)
qed simp

lemma write_field_run: "off + length (concat xss) \<le> length p \<Longrightarrow> write_fields p (field_run off xss) = Ok (put_at p off (concat xss))"
  using write_fields_Ok [OF field_run_in_range] put_field_run by metis

lemma get_at_split:
  "get_at p off (length xs + n) = xs @ ys \<Longrightarrow> off + length xs + n \<le> length p \<Longrightarrow> get_at p off (length xs) = xs \<and> get_at p (off + length xs) n = ys"
proof -
  assume a: "get_at p off (length xs + n) = xs @ ys" "off + length xs + n \<le> length p"
  have "get_at p off (length xs + n) = get_at p off (length xs) @ get_at p (off + length xs) n"
    unfolding get_at_def take_add drop_drop by (simp only: add.commute)
  moreover have "length (get_at p off (length xs)) = length xs" using a(2) by (simp add: length_get_at)
  ultimately show ?thesis using a(1) by simp
qed

lemma get_at_put_fields_disjoint:
  "(\<forall>(off, xs) \<in> set ws. a + n \<le> off \<or> off + length xs \<le> a) \<Longrightarrow>
   get_at (put_fields p ws) a n = get_at p a n"
  by (induction p ws rule: put_fields.induct) (auto simp: get_at_put_at_disjoint)

text \<open>Reading one field of a run of writes: the fields after it do not overlap it.\<close>

lemma get_at_put_fields_nth:
  assumes "k < length ws" and "ws ! k = (a, xs)"
    and "\<forall>(off, ys) \<in> set ws. off + length ys \<le> length p"
    and "\<forall>(off, ys) \<in> set (drop (Suc k) ws). a + length xs \<le> off \<or> off + length ys \<le> a"
  shows "get_at (put_fields p ws) a (length xs) = xs"
  using assms
proof (induction p ws arbitrary: k rule: put_fields.induct)
  case (2 p off ys ws)
  show ?case
  proof (cases k)
    case 0
    have "get_at (put_fields (put_at p off ys) ws) a (length xs) = get_at (put_at p off ys) a (length xs)"
      using 2 0 by (intro get_at_put_fields_disjoint) auto
    then show ?thesis using 2 0 by (simp add: get_at_put_at_same)
  next
    case (Suc j)
    then show ?thesis using 2 by auto
  qed
qed simp

lemma get_at_put_fields_sorted:
  assumes "sorted_wrt (\<lambda>(off, xs) (off', ys). off + length xs \<le> off') ws" and "(a, xs) \<in> set ws"
    and "\<forall>(off, ys) \<in> set ws. off + length ys \<le> length p"
  shows "get_at (put_fields p ws) a (length xs) = xs"
  using assms
proof (induction p ws rule: put_fields.induct)
  case (2 p off ys ws)
  show ?case
  proof (cases "(a, xs) = (off, ys)")
    case True
    have "get_at (put_fields (put_at p off ys) ws) a (length xs) = get_at (put_at p off ys) a (length xs)"
      using 2(2) True by (intro get_at_put_fields_disjoint) auto
    then show ?thesis using 2(4) True by (simp add: get_at_put_at_same)
  next
    case False
    then show ?thesis using 2 by auto
  qed
qed simp

lemma no_panic_buf [safe_intros]:
  "a \<le> b \<Longrightarrow> b \<le> length p \<Longrightarrow> no_panic (get_slice p a b)"
  "off + 2 \<le> length bs \<Longrightarrow> no_panic (read_u16 bs off)" "off + 4 \<le> length bs \<Longrightarrow> no_panic (read_u32 bs off)"
  "off + 8 \<le> length bs \<Longrightarrow> no_panic (read_u64 bs off)" "off < length bs \<Longrightarrow> no_panic (read_u8 bs off)"
  by (simp_all add: buf_simps)

section \<open>Words\<close>

lemma unat_sat_sub: "unat (sat_sub a b) = unat a - unat b"
  by (auto simp: sat_sub_def unat_sub word_le_nat_alt)

lemma unat_sat_add: "unat (sat_add (a :: 'a::len word) b) = min (unat a + unat b) (2 ^ LENGTH('a) - 1)"
proof (cases "unat a + unat b < 2 ^ LENGTH('a)")
  case True
  then show ?thesis by (simp add: sat_add_def unat_word_ariths)
next
  case False
  then show ?thesis by (simp add: sat_add_def unsigned_minus_1_eq_mask mask_eq_exp_minus_1)
qed

lemma chk_add_Ok: "unat (a :: 'a::len word) + unat b < 2 ^ LENGTH('a) \<Longrightarrow> chk_add a b = Ok (a + b)"
  by (simp add: chk_add_def)

lemma unat_plus_bounded:
  "unat (a :: 'a::len word) + unat b < 2 ^ LENGTH('a) \<Longrightarrow> unat (a + b) = unat a + unat b"
  by (simp add: unat_word_ariths)

lemma unat_minus_one: "unat (- 1 :: 'a::len word) = 2 ^ LENGTH('a) - 1"
  by (simp add: unsigned_minus_1_eq_mask mask_eq_exp_minus_1)

lemma unat_plus_one: "n \<noteq> - 1 \<Longrightarrow> unat (n + 1 :: 'a::len word) = unat n + 1"
proof -
  assume n: "n \<noteq> - 1"
  have "unat n < 2 ^ LENGTH('a)" by (rule unsigned_less)
  moreover have "unat n \<noteq> 2 ^ LENGTH('a) - 1" using n by (metis unat_minus_one word_unat_eq_iff)
  ultimately have "unat n + 1 < 2 ^ LENGTH('a)" by linarith
  then show ?thesis by (simp add: unat_word_ariths)
qed

lemma unat_word_of_nat_small: "n < 2 ^ LENGTH('a) \<Longrightarrow> unat (word_of_nat n :: 'a::len word) = n"
  by (simp add: unat_of_nat)

end
