(* ===== verification/Common.thy ===== *)
theory Common
  imports Prelude
begin

text \<open>
  The crate's shared constants and its error classification (\<open>common.rs\<close>). The error type itself is
  \<^typ>\<open>error\<close> of the prelude; \<open>category\<close> groups the errors and \<open>is_retryable\<close> says which of them a
  caller may retry.
\<close>

abbreviation (input) PAGE_SIZE :: nat where "PAGE_SIZE \<equiv> 16384"
abbreviation (input) KEY_SIZE :: nat where "KEY_SIZE \<equiv> 16"
abbreviation (input) VALUE_SIZE :: nat where "VALUE_SIZE \<equiv> 1024"

datatype error_category = InvalidInput | Conflict | Timeout | Backpressure | Unavailable | Internal

fun io_category :: "io_kind \<Rightarrow> error_category" where
  "io_category InvalidInputKind = InvalidInput"
| "io_category AlreadyExists = InvalidInput"
| "io_category NotFound = InvalidInput"
| "io_category WouldBlock = Backpressure"
| "io_category TimedOut = Timeout"
| "io_category Interrupted = Unavailable"
| "io_category BrokenPipe = Unavailable"
| "io_category ConnectionRefused = Unavailable"
| "io_category ConnectionReset = Unavailable"
| "io_category ConnectionAborted = Unavailable"
| "io_category NotConnected = Unavailable"
| "io_category AddrInUse = Unavailable"
| "io_category AddrNotAvailable = Unavailable"
| "io_category NetworkDown = Unavailable"
| "io_category NetworkUnreachable = Unavailable"
| "io_category HostUnreachable = Unavailable"
| "io_category _ = Internal"

fun category :: "error \<Rightarrow> error_category" where
  "category (InvalidPageSize _ _) = InvalidInput"
| "category (InvalidValueSize _ _) = InvalidInput"
| "category (InvalidKeySize _ _) = InvalidInput"
| "category TxnTimeout = Timeout"
| "category (InMemoryPageMissing _) = Internal"
| "category (Capnp _) = Unavailable"
| "category (Io kind _) = io_category kind"

definition is_retryable :: "error \<Rightarrow> bool" where
  "is_retryable e = (category e \<in> {Timeout, Backpressure, Unavailable})"

text \<open>The text of an error, as \<open>to_string\<close> gives it.\<close>

definition error_text :: "error \<Rightarrow> string" where
  "error_text e =
    (case e of
       Io _ msg \<Rightarrow> ''io error: '' @ msg
     | Capnp msg \<Rightarrow> ''capnp error: '' @ msg
     | InvalidPageSize a b \<Rightarrow> ''invalid page size: '' @ show_nat a @ '' (expected '' @ show_nat b @ '')''
     | InvalidValueSize a b \<Rightarrow> ''invalid value size: '' @ show_nat a @ '' (max '' @ show_nat b @ '')''
     | InvalidKeySize a b \<Rightarrow> ''invalid key size: '' @ show_nat a @ '' (expected '' @ show_nat b @ '')''
     | InMemoryPageMissing p \<Rightarrow> ''in-memory page missing for page_id '' @ show_nat (unat p)
     | TxnTimeout \<Rightarrow> ''transaction timed out'')"

text \<open>The classification never reports a conflict, so a retryable error is exactly one that is neither
  the caller's fault nor internal.\<close>

lemma category_not_conflict: "category e \<noteq> Conflict"
proof (cases e)
  case (Io kind msg)
  then show ?thesis by (cases kind) auto
qed auto

lemma is_retryable_iff: "is_retryable e \<longleftrightarrow> category e \<noteq> InvalidInput \<and> category e \<noteq> Internal"
  using category_not_conflict [of e] by (cases "category e") (auto simp: is_retryable_def)

end
