(* ===== verification/Undo_Page.thy ===== *)
theory Undo_Page
  imports Common
begin

text \<open>
  Undo pages (\<open>undo_pg.rs\<close>): a header, a directory of record offsets that grows upwards, and undo
  records that are packed from the end of the page downwards. A page is either a plain undo page or the
  head page of a transaction's undo segment, which carries the segment header as well.

  The abstraction of a page is the list of its records, \<open>undo_records\<close>; \<open>undo_wf\<close> is its invariant. The
  lemmas show that \<open>append_record\<close> appends to that list or reports a full page, that a page holds exactly
  fifteen records, that records read back as written, and that the header operations keep the records.
\<close>

section \<open>Data\<close>

abbreviation (input) UNDO_PAGE_TYPE :: byte where "UNDO_PAGE_TYPE \<equiv> 1"
abbreviation (input) UNDO_SEGMENT_PAGE_TYPE :: byte where "UNDO_SEGMENT_PAGE_TYPE \<equiv> 2"
abbreviation (input) SEGMENT_STATE_IN_PROGRESS :: byte where "SEGMENT_STATE_IN_PROGRESS \<equiv> 0"
abbreviation (input) SEGMENT_STATE_COMMITTED :: byte where "SEGMENT_STATE_COMMITTED \<equiv> 1"
abbreviation (input) SEGMENT_STATE_ABORTED :: byte where "SEGMENT_STATE_ABORTED \<equiv> 2"
abbreviation (input) SEGMENT_STATE_PURGED :: byte where "SEGMENT_STATE_PURGED \<equiv> 3"
abbreviation (input) UNDO_RECORD_SIZE :: nat where "UNDO_RECORD_SIZE \<equiv> 1080"

record undo_ptr =
  up_page_id :: u64
  up_slot_id :: u16

record undo_record =
  ur_data_page_id :: u64
  ur_data_slot_id :: u16
  ur_prev :: "undo_ptr option"
  ur_txn_id :: u64
  ur_txn_next :: "undo_ptr option"
  ur_old_commit_lsn :: u64
  ur_old_flags :: u16
  ur_old_value :: bytes

record undo_segment_header =
  seg_txn_id :: u64
  seg_begin_lsn :: u64
  seg_commit_lsn :: u64
  seg_state :: byte
  seg_first_page_id :: u64
  seg_last_page_id :: u64
  seg_record_count :: u32
  seg_history_prev :: u64
  seg_history_next :: u64

abbreviation (input) OFF_PAGE_TYPE :: nat where "OFF_PAGE_TYPE \<equiv> 0"
abbreviation (input) OFF_FREE_END :: nat where "OFF_FREE_END \<equiv> 2"
abbreviation (input) OFF_COUNT :: nat where "OFF_COUNT \<equiv> 4"
abbreviation (input) OFF_PAGE_NEXT :: nat where "OFF_PAGE_NEXT \<equiv> 8"
abbreviation (input) BASE_HDR_SIZE :: nat where "BASE_HDR_SIZE \<equiv> 16"
abbreviation (input) OFF_SEG_TXN_ID :: nat where "OFF_SEG_TXN_ID \<equiv> 16"
abbreviation (input) OFF_SEG_BEGIN_LSN :: nat where "OFF_SEG_BEGIN_LSN \<equiv> 24"
abbreviation (input) OFF_SEG_COMMIT_LSN :: nat where "OFF_SEG_COMMIT_LSN \<equiv> 32"
abbreviation (input) OFF_SEG_STATE :: nat where "OFF_SEG_STATE \<equiv> 40"
abbreviation (input) OFF_SEG_FIRST_PAGE_ID :: nat where "OFF_SEG_FIRST_PAGE_ID \<equiv> 48"
abbreviation (input) OFF_SEG_LAST_PAGE_ID :: nat where "OFF_SEG_LAST_PAGE_ID \<equiv> 56"
abbreviation (input) OFF_SEG_RECORD_COUNT :: nat where "OFF_SEG_RECORD_COUNT \<equiv> 64"
abbreviation (input) OFF_SEG_HISTORY_PREV :: nat where "OFF_SEG_HISTORY_PREV \<equiv> 72"
abbreviation (input) OFF_SEG_HISTORY_NEXT :: nat where "OFF_SEG_HISTORY_NEXT \<equiv> 80"
abbreviation (input) SEG_PAGE_HDR_SIZE :: nat where "SEG_PAGE_HDR_SIZE \<equiv> 88"

section \<open>Operations\<close>

definition page_hdr_size :: "bytes \<Rightarrow> nat res" where
  "page_hdr_size page =
    (if length page \<noteq> PAGE_SIZE then Err (InvalidPageSize (length page) PAGE_SIZE)
     else res_bind (read_u8 page OFF_PAGE_TYPE) (\<lambda>t.
       if t = UNDO_PAGE_TYPE then Ok BASE_HDR_SIZE
       else if t = UNDO_SEGMENT_PAGE_TYPE then Ok SEG_PAGE_HDR_SIZE
       else invalid_input ''not an undo page''))"

definition new_undo_page :: bytes where
  "new_undo_page = put_fields (replicate PAGE_SIZE 0)
    [(OFF_PAGE_TYPE, [UNDO_PAGE_TYPE]),
     (OFF_FREE_END, to_le 2 (word_of_nat PAGE_SIZE :: u16)),
     (OFF_COUNT, to_le 2 (0 :: u16)),
     (OFF_PAGE_NEXT, to_le 8 (0 :: u64))]"

definition new_undo_segment_page :: "u64 \<Rightarrow> u64 \<Rightarrow> bytes" where
  "new_undo_segment_page txn page_id = put_fields (replicate PAGE_SIZE 0)
    [(OFF_PAGE_TYPE, [UNDO_SEGMENT_PAGE_TYPE]),
     (OFF_FREE_END, to_le 2 (word_of_nat PAGE_SIZE :: u16)),
     (OFF_COUNT, to_le 2 (0 :: u16)),
     (OFF_PAGE_NEXT, to_le 8 (0 :: u64)),
     (OFF_SEG_TXN_ID, to_le 8 txn),
     (OFF_SEG_BEGIN_LSN, to_le 8 (0 :: u64)),
     (OFF_SEG_COMMIT_LSN, to_le 8 (0 :: u64)),
     (OFF_SEG_STATE, [SEGMENT_STATE_IN_PROGRESS]),
     (OFF_SEG_FIRST_PAGE_ID, to_le 8 page_id),
     (OFF_SEG_LAST_PAGE_ID, to_le 8 page_id),
     (OFF_SEG_RECORD_COUNT, to_le 4 (0 :: u32)),
     (OFF_SEG_HISTORY_PREV, to_le 8 (0 :: u64)),
     (OFF_SEG_HISTORY_NEXT, to_le 8 (0 :: u64))]"

definition undo_count :: "bytes \<Rightarrow> u16 res" where
  "undo_count page = (if length page \<noteq> PAGE_SIZE then Ok 0 else read_u16 page OFF_COUNT)"

definition page_next_id :: "bytes \<Rightarrow> u64 res" where
  "page_next_id page =
    (if length page \<noteq> PAGE_SIZE then Err (InvalidPageSize (length page) PAGE_SIZE)
     else res_bind (read_u8 page OFF_PAGE_TYPE) (\<lambda>t.
       if t \<noteq> UNDO_PAGE_TYPE \<and> t \<noteq> UNDO_SEGMENT_PAGE_TYPE then invalid_input ''not an undo page''
       else read_u64 page OFF_PAGE_NEXT))"

definition set_page_next_id :: "bytes \<Rightarrow> u64 \<Rightarrow> bytes res" where
  "set_page_next_id page next =
    res_bind (page_hdr_size page) (\<lambda>_. write_u64 page OFF_PAGE_NEXT next)"

definition read_segment_header :: "bytes \<Rightarrow> undo_segment_header res" where
  "read_segment_header page =
    (if length page \<noteq> PAGE_SIZE then Err (InvalidPageSize (length page) PAGE_SIZE)
     else res_bind (read_u8 page OFF_PAGE_TYPE) (\<lambda>t.
       if t \<noteq> UNDO_SEGMENT_PAGE_TYPE then invalid_input ''not a segment-head undo page''
       else
         res_bind (read_u64 page OFF_SEG_TXN_ID) (\<lambda>txn.
         res_bind (read_u64 page OFF_SEG_BEGIN_LSN) (\<lambda>blsn.
         res_bind (read_u64 page OFF_SEG_COMMIT_LSN) (\<lambda>clsn.
         res_bind (read_u8 page OFF_SEG_STATE) (\<lambda>st.
         res_bind (read_u64 page OFF_SEG_FIRST_PAGE_ID) (\<lambda>fpid.
         res_bind (read_u64 page OFF_SEG_LAST_PAGE_ID) (\<lambda>lpid.
         res_bind (read_u32 page OFF_SEG_RECORD_COUNT) (\<lambda>rc.
         res_bind (read_u64 page OFF_SEG_HISTORY_PREV) (\<lambda>hp.
         res_bind (read_u64 page OFF_SEG_HISTORY_NEXT) (\<lambda>hn.
           Ok \<lparr>seg_txn_id = txn, seg_begin_lsn = blsn, seg_commit_lsn = clsn, seg_state = st,
               seg_first_page_id = fpid, seg_last_page_id = lpid, seg_record_count = rc,
               seg_history_prev = hp, seg_history_next = hn\<rparr>)))))))))))"

definition segment_header_fields :: "undo_segment_header \<Rightarrow> (nat \<times> bytes) list" where
  "segment_header_fields hdr =
    [(OFF_SEG_TXN_ID, to_le 8 (seg_txn_id hdr)),
     (OFF_SEG_BEGIN_LSN, to_le 8 (seg_begin_lsn hdr)),
     (OFF_SEG_COMMIT_LSN, to_le 8 (seg_commit_lsn hdr)),
     (OFF_SEG_STATE, [seg_state hdr]),
     (OFF_SEG_FIRST_PAGE_ID, to_le 8 (seg_first_page_id hdr)),
     (OFF_SEG_LAST_PAGE_ID, to_le 8 (seg_last_page_id hdr)),
     (OFF_SEG_RECORD_COUNT, to_le 4 (seg_record_count hdr)),
     (OFF_SEG_HISTORY_PREV, to_le 8 (seg_history_prev hdr)),
     (OFF_SEG_HISTORY_NEXT, to_le 8 (seg_history_next hdr))]"

definition write_segment_header :: "bytes \<Rightarrow> undo_segment_header \<Rightarrow> bytes res" where
  "write_segment_header page hdr =
    (if length page \<noteq> PAGE_SIZE then Err (InvalidPageSize (length page) PAGE_SIZE)
     else res_bind (read_u8 page OFF_PAGE_TYPE) (\<lambda>t.
       if t \<noteq> UNDO_SEGMENT_PAGE_TYPE then invalid_input ''not a segment-head undo page''
       else write_fields page (segment_header_fields hdr)))"

text \<open>\<open>rec.prev.map(..).unwrap_or((0, 0))\<close>, and its inverse on the reading side, where page id 0 is the
  absent pointer.\<close>

fun ptr_parts :: "undo_ptr option \<Rightarrow> u64 \<times> u16" where
  "ptr_parts None = (0, 0)"
| "ptr_parts (Some u) = (up_page_id u, up_slot_id u)"

definition ptr_of_parts :: "u64 \<Rightarrow> u16 \<Rightarrow> undo_ptr option" where
  "ptr_of_parts pid sid = (if pid = 0 then None else Some \<lparr>up_page_id = pid, up_slot_id = sid\<rparr>)"

definition undo_record_fields :: "nat \<Rightarrow> undo_record \<Rightarrow> (nat \<times> bytes) list" where
  "undo_record_fields off r =
    [(off, to_le 8 (ur_data_page_id r)),
     (off + 8, to_le 2 (ur_data_slot_id r)),
     (off + 10, to_le 2 (0 :: u16)),
     (off + 12, to_le 8 (fst (ptr_parts (ur_prev r)))),
     (off + 20, to_le 2 (snd (ptr_parts (ur_prev r)))),
     (off + 22, to_le 2 (0 :: u16)),
     (off + 24, to_le 8 (ur_txn_id r)),
     (off + 32, to_le 8 (fst (ptr_parts (ur_txn_next r)))),
     (off + 40, to_le 2 (snd (ptr_parts (ur_txn_next r)))),
     (off + 42, to_le 2 (0 :: u16)),
     (off + 44, to_le 8 (ur_old_commit_lsn r)),
     (off + 52, to_le 2 (ur_old_flags r)),
     (off + 54, to_le 2 (0 :: u16)),
     (off + 56, ur_old_value r)]"

definition append_record :: "bytes \<Rightarrow> undo_record \<Rightarrow> (bytes \<times> u16) res" where
  "append_record page r =
    res_bind (page_hdr_size page) (\<lambda>hdr_size.
    res_bind (read_u16 page OFF_FREE_END) (\<lambda>fe.
    res_bind (read_u16 page OFF_COUNT) (\<lambda>count.
      let free_end = unat fe; dir_bytes = hdr_size + (unat count + 1) * 2 in
      if free_end < dir_bytes + UNDO_RECORD_SIZE then Err (Io OtherKind ''undo page full'')
      else let off = free_end - UNDO_RECORD_SIZE in
        res_bind (write_fields page (undo_record_fields off r)) (\<lambda>p1.
        res_bind (write_u16 p1 (hdr_size + unat count * 2) (word_of_nat off)) (\<lambda>p2.
        res_bind (chk_add count 1) (\<lambda>count'.
        res_bind (write_u16 p2 OFF_FREE_END (word_of_nat off)) (\<lambda>p3.
        res_bind (write_u16 p3 OFF_COUNT count') (\<lambda>p4.
          Ok (p4, count' - 1)))))))))"

text \<open>The fields of the record at byte offset \<open>off\<close>, as both readers decode them.\<close>

definition read_record_body :: "bytes \<Rightarrow> nat \<Rightarrow> undo_record res" where
  "read_record_body page off =
    res_bind (read_u64 page off) (\<lambda>dpid.
    res_bind (read_u16 page (off + 8)) (\<lambda>dsid.
    res_bind (read_u64 page (off + 12)) (\<lambda>ppid.
    res_bind (read_u16 page (off + 20)) (\<lambda>psid.
    res_bind (read_u64 page (off + 24)) (\<lambda>txn.
    res_bind (read_u64 page (off + 32)) (\<lambda>npid.
    res_bind (read_u16 page (off + 40)) (\<lambda>nsid.
    res_bind (read_u64 page (off + 44)) (\<lambda>lsn.
    res_bind (read_u16 page (off + 52)) (\<lambda>flags.
    res_bind (get_slice page (off + 56) (off + 56 + VALUE_SIZE)) (\<lambda>v.
      Ok \<lparr>ur_data_page_id = dpid, ur_data_slot_id = dsid, ur_prev = ptr_of_parts ppid psid,
          ur_txn_id = txn, ur_txn_next = ptr_of_parts npid nsid,
          ur_old_commit_lsn = lsn, ur_old_flags = flags, ur_old_value = v\<rparr>))))))))))"

definition read_record :: "bytes \<Rightarrow> u16 \<Rightarrow> undo_record res" where
  "read_record page slot_id =
    res_bind (page_hdr_size page) (\<lambda>hdr_size.
    res_bind (read_u16 page OFF_COUNT) (\<lambda>count.
      if slot_id \<ge> count then invalid_input ''undo slot out of range''
      else res_bind (read_u16 page (hdr_size + unat slot_id * 2)) (\<lambda>o16.
        let off = unat o16 in
        if off + UNDO_RECORD_SIZE > PAGE_SIZE
        then Err (InvalidPageSize (off + UNDO_RECORD_SIZE) PAGE_SIZE)
        else read_record_body page off)))"

text \<open>\<open>read_record_ref\<close> decodes the same fields; its \<open>ur_old_value\<close> is a view of the page's bytes, whose
  contents are those of the copy.\<close>

definition read_record_ref :: "bytes \<Rightarrow> u16 \<Rightarrow> undo_record res" where
  "read_record_ref page slot_id =
    res_bind (page_hdr_size page) (\<lambda>hdr_size.
    res_bind (read_u16 page OFF_COUNT) (\<lambda>count.
      if slot_id \<ge> count then invalid_input ''undo slot out of range''
      else res_bind (read_u16 page (hdr_size + unat slot_id * 2)) (\<lambda>o16.
        let off = unat o16 in
        if off + UNDO_RECORD_SIZE > PAGE_SIZE
        then Err (InvalidPageSize (off + UNDO_RECORD_SIZE) PAGE_SIZE)
        else read_record_body page off)))"

section \<open>Abstraction and invariant\<close>

text \<open>The record stored at byte offset \<open>off\<close>; a record as the page can hold it (a pointer with page id
  0 reads back as no pointer); the offset of the \<open>i\<close>-th record.\<close>

definition undo_record_at :: "bytes \<Rightarrow> nat \<Rightarrow> undo_record" where
  "undo_record_at p off =
    \<lparr>ur_data_page_id = from_le (get_at p off 8), ur_data_slot_id = from_le (get_at p (off + 8) 2),
     ur_prev = ptr_of_parts (from_le (get_at p (off + 12) 8)) (from_le (get_at p (off + 20) 2)),
     ur_txn_id = from_le (get_at p (off + 24) 8),
     ur_txn_next = ptr_of_parts (from_le (get_at p (off + 32) 8)) (from_le (get_at p (off + 40) 2)),
     ur_old_commit_lsn = from_le (get_at p (off + 44) 8), ur_old_flags = from_le (get_at p (off + 52) 2),
     ur_old_value = get_at p (off + 56) VALUE_SIZE\<rparr>"

definition undo_norm :: "undo_record \<Rightarrow> undo_record" where
  "undo_norm r = r\<lparr>ur_prev := case_prod ptr_of_parts (ptr_parts (ur_prev r)),
                  ur_txn_next := case_prod ptr_of_parts (ptr_parts (ur_txn_next r))\<rparr>"

definition undo_off :: "nat \<Rightarrow> nat" where
  "undo_off i = PAGE_SIZE - UNDO_RECORD_SIZE * (i + 1)"

definition undo_count_of :: "bytes \<Rightarrow> nat" where
  "undo_count_of p = unat (from_le (get_at p OFF_COUNT 2) :: u16)"

definition undo_hdr_of :: "bytes \<Rightarrow> nat" where
  "undo_hdr_of p = (if hd (get_at p OFF_PAGE_TYPE 1) = UNDO_PAGE_TYPE then BASE_HDR_SIZE else SEG_PAGE_HDR_SIZE)"

definition undo_wf :: "bytes \<Rightarrow> bool" where
  "undo_wf p \<longleftrightarrow> length p = PAGE_SIZE
     \<and> hd (get_at p OFF_PAGE_TYPE 1) \<in> {UNDO_PAGE_TYPE, UNDO_SEGMENT_PAGE_TYPE}
     \<and> undo_count_of p \<le> 15
     \<and> unat (from_le (get_at p OFF_FREE_END 2) :: u16) = PAGE_SIZE - UNDO_RECORD_SIZE * undo_count_of p
     \<and> (\<forall>i<undo_count_of p. unat (from_le (get_at p (undo_hdr_of p + i * 2) 2) :: u16) = undo_off i)"

definition undo_records :: "bytes \<Rightarrow> undo_record list" where
  "undo_records p = map (\<lambda>i. undo_record_at p (undo_off i)) [0..<undo_count_of p]"

section \<open>Records\<close>

lemma read_record_body_at:
  "off + UNDO_RECORD_SIZE \<le> length p \<Longrightarrow> read_record_body p off = Ok (undo_record_at p off)"
  by (simp add: read_record_body_def undo_record_at_def buf_simps)

lemma undo_record_at_fields:
  assumes "off + UNDO_RECORD_SIZE \<le> length p" and "length (ur_old_value r) = VALUE_SIZE"
  shows "undo_record_at (put_fields p (undo_record_fields off r)) off = undo_norm r"
  using assms
  by (simp add: undo_record_at_def undo_record_fields_def undo_norm_def buf_simps split_beta)

lemma undo_record_at_cong:
  assumes "get_at p off UNDO_RECORD_SIZE = get_at q off UNDO_RECORD_SIZE"
  shows "undo_record_at p off = undo_record_at q off"
proof -
  have "get_at p (off + a) n = get_at q (off + a) n" if "a + n \<le> UNDO_RECORD_SIZE" for a n
    using assms get_at_get_at [OF that] by metis
  from this [of 0 8] this show ?thesis by (simp add: undo_record_at_def)
qed


lemma undo_off_range: "i < 15 \<Longrightarrow> undo_off i + UNDO_RECORD_SIZE \<le> PAGE_SIZE" "i < 15 \<Longrightarrow> 184 \<le> undo_off i"
  by (auto simp: undo_off_def)

lemma undo_wf_hdr: "undo_wf p \<Longrightarrow> page_hdr_size p = Ok (undo_hdr_of p)"
  by (auto simp: undo_wf_def page_hdr_size_def undo_hdr_of_def buf_simps)

lemma undo_hdr_bounds: "16 \<le> undo_hdr_of p" "undo_hdr_of p \<le> 88"
  by (simp_all add: undo_hdr_of_def)

lemma length_undo_records [simp]: "length (undo_records p) = undo_count_of p"
  by (simp add: undo_records_def)

lemma read_record_nth:
  assumes "undo_wf p" and "unat slot < undo_count_of p"
  shows "read_record p slot = Ok (undo_records p ! unat slot)"
proof -
  have len: "length p = PAGE_SIZE" and n: "undo_count_of p \<le> 15" using assms by (auto simp: undo_wf_def)
  have s: "unat slot < 15" using assms n by simp
  have dir: "unat (from_le (get_at p (undo_hdr_of p + unat slot * 2) 2) :: u16) = undo_off (unat slot)"
    using assms by (simp add: undo_wf_def)
  have "slot < from_le (get_at p OFF_COUNT 2)"
    using assms by (simp add: word_less_nat_alt undo_count_of_def)
  then show ?thesis
    using undo_off_range [OF s] undo_hdr_bounds [of p] len s assms(2)
    by (auto simp: read_record_def undo_wf_hdr [OF assms(1)] buf_simps dir Let_def
      read_record_body_at undo_records_def not_le)
qed

lemma append_record_full:
  assumes "undo_wf p" and "undo_count_of p = 15"
  shows "append_record p r = Err (Io OtherKind ''undo page full'')"
proof -
  have len: "length p = PAGE_SIZE"
    and fe: "unat (from_le (get_at p OFF_FREE_END 2) :: u16) = PAGE_SIZE - UNDO_RECORD_SIZE * 15"
    using assms by (auto simp: undo_wf_def)
  show ?thesis
    using assms(2) undo_hdr_bounds [of p]
    by (auto simp: append_record_def undo_wf_hdr [OF assms(1)] buf_simps len fe Let_def undo_count_of_def)
qed

lemma append_record_ok:
  assumes wf: "undo_wf p" and n: "undo_count_of p < 15" and v: "length (ur_old_value r) = VALUE_SIZE"
  shows "\<exists>p'. append_record p r = Ok (p', word_of_nat (undo_count_of p)) \<and> undo_wf p'
    \<and> undo_records p' = undo_records p @ [undo_norm r] \<and> get_at p' 0 1 = get_at p 0 1"
proof -
  define c h off where "c = undo_count_of p" and "h = undo_hdr_of p" and "off = undo_off c"
  define p1 where "p1 = put_fields p (undo_record_fields off r)"
  define p2 where "p2 = put_at p1 (h + c * 2) (to_le 2 (word_of_nat off :: u16))"
  define p3 where "p3 = put_at p2 OFF_FREE_END (to_le 2 (word_of_nat off :: u16))"
  define p4 where "p4 = put_at p3 OFF_COUNT (to_le 2 (word_of_nat c + 1 :: u16))"
  have len: "length p = PAGE_SIZE" using wf by (simp add: undo_wf_def)
  have h: "16 \<le> h" "h \<le> 88" unfolding h_def by (rule undo_hdr_bounds)+
  have c: "c < 15" using n by (simp add: c_def)
  have cw: "(from_le (get_at p OFF_COUNT 2) :: u16) = word_of_nat c"
    by (simp add: c_def undo_count_of_def)
  have fe: "unat (from_le (get_at p OFF_FREE_END 2) :: u16) = off + UNDO_RECORD_SIZE"
    using wf c by (simp add: undo_wf_def off_def undo_off_def flip: c_def)
  have off: "off + UNDO_RECORD_SIZE \<le> PAGE_SIZE" "184 \<le> off"
    using undo_off_range [OF c] by (auto simp: off_def)
  have offu: "unat (word_of_nat off :: u16) = off" using off by (intro unat_word_of_nat_small) simp
  have cu: "unat (word_of_nat c :: u16) = c" using c by (intro unat_word_of_nat_small) simp
  have c1: "chk_add (word_of_nat c :: u16) 1 = Ok (word_of_nat c + 1)" "unat (word_of_nat c + 1 :: u16) = c + 1"
    using c by (simp_all add: chk_add_def unat_plus_bounded cu)
  have fits: "\<not> off + UNDO_RECORD_SIZE < h + (c + 1) * 2 + UNDO_RECORD_SIZE"
    using h c off by auto
  have rf: "write_fields p (undo_record_fields off r) = Ok p1"
    unfolding p1_def by (rule write_fields_Ok) (use off v len in \<open>simp add: undo_record_fields_def\<close>)
  have app: "append_record p r = Ok (p4, word_of_nat c)"
    using h c off fits
    by (simp add: append_record_def undo_wf_hdr [OF wf] buf_simps len fe cw cu Let_def c1 rf
        p2_def p3_def p4_def p1_def flip: h_def)
  have low: "get_at p1 a n = get_at p a n" if "a + n \<le> off \<or> off + UNDO_RECORD_SIZE \<le> a" for a n
    unfolding p1_def using that v by (intro get_at_put_fields_disjoint) (auto simp: undo_record_fields_def)
  have high: "get_at p4 a n = get_at p1 a n" if "h + c * 2 + 2 \<le> a" for a n
    using that h by (simp add: p4_def p3_def p2_def buf_simps)
  have hdr: "get_at p4 0 1 = get_at p 0 1" 
    using h off by (simp add: p4_def p3_def p2_def buf_simps low del: One_nat_def)
  then have h4: "undo_hdr_of p4 = h" by (simp add: undo_hdr_of_def h_def)
  have cnt: "undo_count_of p4 = c + 1"
    by (simp add: undo_count_of_def p4_def p3_def p2_def p1_def buf_simps len c1)
  have fe4: "unat (from_le (get_at p4 OFF_FREE_END 2) :: u16) = off"
    using h by (simp add: p4_def p3_def p2_def p1_def buf_simps len offu)
  have dir: "unat (from_le (get_at p4 (h + i * 2) 2) :: u16) = undo_off i" if "i < c + 1" for i
  proof (cases "i = c")
    case True
    then show ?thesis
      using h c by (simp add: p4_def p3_def p2_def p1_def buf_simps len offu off_def [symmetric])
  next
    case False
    then have "get_at p4 (h + i * 2) 2 = get_at p (h + i * 2) 2"
      using that h c off by (simp add: p4_def p3_def p2_def buf_simps low)
    then show ?thesis using wf False that by (simp add: undo_wf_def flip: h_def c_def)
  qed
  have len4: "length p4 = PAGE_SIZE" by (simp add: p4_def p3_def p2_def p1_def len)
  have "undo_wf p4"
    using wf c by (simp add: undo_wf_def h4 cnt fe4 dir len4 hdr) (simp add: off_def undo_off_def)
  moreover have "undo_records p4 = undo_records p @ [undo_norm r]"
  proof -
    have "undo_record_at p4 (undo_off i) = undo_record_at p (undo_off i)" if "i < c" for i
    proof (rule undo_record_at_cong)
      have "off + UNDO_RECORD_SIZE \<le> undo_off i" using that c by (simp add: off_def undo_off_def)
      then show "get_at p4 (undo_off i) UNDO_RECORD_SIZE = get_at p (undo_off i) UNDO_RECORD_SIZE"
        using h c off by (simp add: high low)
    qed
    moreover have "undo_record_at p4 off = undo_norm r"
    proof -
      have "undo_record_at p4 off = undo_record_at p1 off"
        using h c off by (intro undo_record_at_cong high) simp
      then show ?thesis using off len v by (simp add: p1_def undo_record_at_fields)
    qed
    ultimately show ?thesis by (simp add: undo_records_def cnt off_def flip: c_def)
  qed
  ultimately show ?thesis using app hdr by (auto simp: c_def)
qed

lemma undo_wf_frame:
  assumes "undo_wf p" and "length q = length p"
    and "get_at q 0 8 = get_at p 0 8"
    and "\<And>a n. undo_hdr_of p \<le> a \<Longrightarrow> get_at q a n = get_at p a n"
  shows "undo_wf q \<and> undo_records q = undo_records p \<and> undo_hdr_of q = undo_hdr_of p"
proof -
  have low: "get_at q a n = get_at p a n" if "a + n \<le> 8" for a n
    using assms(3) get_at_get_at [OF that] by (metis add_0)
  have h: "undo_hdr_of q = undo_hdr_of p" and c: "undo_count_of q = undo_count_of p"
    by (simp_all add: undo_hdr_of_def undo_count_of_def low)
  have "undo_record_at q (undo_off i) = undo_record_at p (undo_off i)" if "i < undo_count_of p" for i
  proof -
    have "i < 15" using that assms(1) by (simp add: undo_wf_def)
    then show ?thesis
      using undo_off_range(2) [of i] undo_hdr_bounds(2) [of p] by (intro undo_record_at_cong assms(4)) simp
  qed
  moreover have "undo_wf q" using assms by (simp add: undo_wf_def h c low)
  ultimately show ?thesis by (simp add: undo_records_def h c)
qed

lemma new_undo_page_wf: "undo_wf new_undo_page" "undo_records new_undo_page = []"
  by (simp_all add: undo_wf_def undo_records_def new_undo_page_def undo_count_of_def buf_simps unat_word_of_nat_small)

lemma new_undo_segment_page_wf:
  "undo_wf (new_undo_segment_page t pid)" "undo_records (new_undo_segment_page t pid) = []"
  by (simp_all add: undo_wf_def undo_records_def new_undo_segment_page_def undo_count_of_def buf_simps unat_word_of_nat_small)

lemma new_undo_segment_page_type:
  "hd (get_at (new_undo_segment_page t pid) OFF_PAGE_TYPE 1) = UNDO_SEGMENT_PAGE_TYPE"
  by (simp add: new_undo_segment_page_def buf_simps)

lemma new_undo_segment_page_header:
  "read_segment_header (new_undo_segment_page t pid) = Ok
    \<lparr>seg_txn_id = t, seg_begin_lsn = 0, seg_commit_lsn = 0, seg_state = SEGMENT_STATE_IN_PROGRESS,
     seg_first_page_id = pid, seg_last_page_id = pid, seg_record_count = 0, seg_history_prev = 0, seg_history_next = 0\<rparr>"
  by (simp add: read_segment_header_def new_undo_segment_page_def buf_simps)

lemma set_page_next_id_ok:
  assumes wf: "undo_wf p"
  shows "\<exists>q. set_page_next_id p n = Ok q \<and> page_next_id q = Ok n \<and> undo_wf q \<and> undo_records q = undo_records p"
proof -
  have len: "length p = PAGE_SIZE" and ty: "hd (get_at p 0 1) \<in> {1, 2}"
    using wf by (auto simp: undo_wf_def)
  let ?q = "put_at p OFF_PAGE_NEXT (to_le 8 n)"
  have "set_page_next_id p n = Ok ?q"
    by (simp add: set_page_next_id_def undo_wf_hdr [OF wf] buf_simps len)
  moreover have "page_next_id ?q = Ok n"
    using ty by (auto simp: page_next_id_def buf_simps len)
  moreover have "undo_wf ?q \<and> undo_records ?q = undo_records p \<and> undo_hdr_of ?q = undo_hdr_of p"
    using undo_hdr_bounds [of p] by (intro undo_wf_frame [OF wf]) (simp_all add: buf_simps)
  ultimately show ?thesis by auto
qed

lemma write_segment_header_ok:
  assumes wf: "undo_wf p" and ty: "hd (get_at p OFF_PAGE_TYPE 1) = UNDO_SEGMENT_PAGE_TYPE"
  shows "\<exists>q. write_segment_header p hdr = Ok q \<and> read_segment_header q = Ok hdr
    \<and> undo_wf q \<and> undo_records q = undo_records p \<and> page_next_id q = page_next_id p"
proof -
  have len: "length p = PAGE_SIZE" using wf by (auto simp: undo_wf_def)
  have h: "undo_hdr_of p = 88" using ty by (simp add: undo_hdr_of_def)
  define q where "q = put_fields p (segment_header_fields hdr)"
  have q: "length q = length p" "get_at q 0 8 = get_at p 0 8" "get_at q 0 1 = get_at p 0 1"
      "get_at q 8 8 = get_at p 8 8" "\<And>a n. 88 \<le> a \<Longrightarrow> get_at q a n = get_at p a n"
    by (simp_all add: q_def segment_header_fields_def buf_simps)
  have "write_segment_header p hdr = Ok q"
    using ty by (simp add: write_segment_header_def q_def segment_header_fields_def buf_simps len)
  moreover have "read_segment_header q = Ok hdr"
    using ty q by (simp add: read_segment_header_def buf_simps len)
      (simp add: q_def segment_header_fields_def buf_simps len)
  moreover have "undo_wf q \<and> undo_records q = undo_records p \<and> undo_hdr_of q = undo_hdr_of p"
    using q by (intro undo_wf_frame [OF wf]) (simp_all add: h)
  moreover have "page_next_id q = page_next_id p"
    using q by (simp add: page_next_id_def buf_simps len)
  ultimately show ?thesis by auto
qed

section \<open>Properties\<close>

text \<open>C26: Appending to a well-formed undo page refines appending to its list of records. While the page
  has fewer than fifteen records the call succeeds, returns the index of the new record, keeps the page
  well-formed and adds the record at the end; the sixteenth append is refused as a full page.\<close>

theorem undo_append_refines:
  assumes "undo_wf p" and "length (ur_old_value r) = VALUE_SIZE"
  shows "(if length (undo_records p) < 15
          then \<exists>p'. append_record p r = Ok (p', word_of_nat (length (undo_records p))) \<and> undo_wf p'
                 \<and> undo_records p' = undo_records p @ [undo_norm r]
                 \<and> read_record p' (word_of_nat (length (undo_records p))) = Ok (undo_norm r)
          else append_record p r = Err (Io OtherKind ''undo page full''))"
proof (cases "undo_count_of p < 15")
  case True
  then obtain p' where p': "append_record p r = Ok (p', word_of_nat (undo_count_of p))" "undo_wf p'"
      "undo_records p' = undo_records p @ [undo_norm r]"
    using append_record_ok [OF assms(1) True assms(2)] by blast
  have n: "unat (word_of_nat (undo_count_of p) :: u16) = undo_count_of p"
    using True by (simp add: unat_word_of_nat_small)
  have "undo_count_of p' = undo_count_of p + 1"
    using arg_cong [OF p'(3), of length] by simp
  then have "read_record p' (word_of_nat (undo_count_of p)) = Ok (undo_norm r)"
    using read_record_nth [OF p'(2), of "word_of_nat (undo_count_of p)"] by (simp add: n p'(3) nth_append)
  then show ?thesis using True p' by auto
next
  case False
  then have "undo_count_of p = 15" using assms(1) by (simp add: undo_wf_def)
  then show ?thesis using append_record_full [OF assms(1)] by simp
qed

theorem undo_append_refines_witness:
  "let r = \<lparr>ur_data_page_id = 7, ur_data_slot_id = 3, ur_prev = None, ur_txn_id = 9,
            ur_txn_next = Some \<lparr>up_page_id = 5, up_slot_id = 1\<rparr>, ur_old_commit_lsn = 42, ur_old_flags = 1,
            ur_old_value = replicate VALUE_SIZE 0\<rparr>
   in \<exists>p'. append_record new_undo_page r = Ok (p', 0) \<and> undo_records p' = [r]"
  using undo_append_refines [OF new_undo_page_wf(1), of "\<lparr>ur_data_page_id = 7, ur_data_slot_id = 3, ur_prev = None,
     ur_txn_id = 9, ur_txn_next = Some \<lparr>up_page_id = 5, up_slot_id = 1\<rparr>, ur_old_commit_lsn = 42,
     ur_old_flags = 1, ur_old_value = replicate VALUE_SIZE 0\<rparr>"]
  by (auto simp: new_undo_page_wf(2) undo_norm_def ptr_of_parts_def Let_def)

text \<open>A segment header written to a segment-head page reads back unchanged, and writing it keeps the
  page well-formed, its undo records and its next-page link.\<close>

theorem segment_header_roundtrip:
  assumes "undo_wf p" and "hd (get_at p OFF_PAGE_TYPE 1) = UNDO_SEGMENT_PAGE_TYPE"
  shows "\<exists>q. write_segment_header p hdr = Ok q \<and> read_segment_header q = Ok hdr
    \<and> undo_wf q \<and> undo_records q = undo_records p \<and> page_next_id q = page_next_id p"
  by (rule write_segment_header_ok [OF assms])

theorem segment_header_roundtrip_witness:
  "\<exists>q. write_segment_header (new_undo_segment_page 4 9)
         \<lparr>seg_txn_id = 4, seg_begin_lsn = 1, seg_commit_lsn = 6, seg_state = SEGMENT_STATE_COMMITTED, seg_first_page_id = 9,
          seg_last_page_id = 9, seg_record_count = 2, seg_history_prev = 0, seg_history_next = 3\<rparr> = Ok q
     \<and> res_map seg_commit_lsn (read_segment_header q) = Ok 6 \<and> undo_records q = []"
  using segment_header_roundtrip [OF new_undo_segment_page_wf(1) new_undo_segment_page_type, of 4 9
      "\<lparr>seg_txn_id = 4, seg_begin_lsn = 1, seg_commit_lsn = 6, seg_state = SEGMENT_STATE_COMMITTED, seg_first_page_id = 9,
        seg_last_page_id = 9, seg_record_count = 2, seg_history_prev = 0, seg_history_next = 3\<rparr>"]
  by (auto simp: new_undo_segment_page_wf(2))

end
