(* ===== verification/Slotted_Page.thy ===== *)
theory Slotted_Page
  imports Undo_Page
begin

text \<open>
  Slotted data pages (\<open>slotted_page.rs\<close>): a six-byte header, a slot directory that grows upwards and
  fixed-size row payloads (key, value, multi-version header) that are placed from the end downwards.

  The abstraction of a page is the partial map \<open>slot_row\<close> from slot ids to rows; \<open>slotted_wf\<close> is the page
  invariant. The lemmas show that every operation keeps the invariant, that insertion, overwriting and the
  header writers are map updates, that the readers return the stored fields, and that defragmentation
  changes no row and leaves the largest possible free area.
\<close>

section \<open>Operations\<close>

abbreviation (input) PAGE_HEADER_SIZE :: nat where "PAGE_HEADER_SIZE \<equiv> 6"
abbreviation (input) SLOT_ENTRY_SIZE :: nat where "SLOT_ENTRY_SIZE \<equiv> 4"
abbreviation (input) MVCC_HEADER_SIZE :: nat where "MVCC_HEADER_SIZE \<equiv> 20"
abbreviation (input) FLAG_TOMBSTONE :: u16 where "FLAG_TOMBSTONE \<equiv> 1"

unbundle bit_operations_syntax

definition read_header :: "bytes \<Rightarrow> (u16 \<times> u16 \<times> u16) res" where
  "read_header page =
    res_bind (read_u16 page 0) (\<lambda>slots.
    res_bind (read_u16 page 2) (\<lambda>free_start.
    res_bind (read_u16 page 4) (\<lambda>free_end. Ok (slots, free_start, free_end))))"

definition write_header :: "bytes \<Rightarrow> u16 \<Rightarrow> u16 \<Rightarrow> u16 \<Rightarrow> bytes res" where
  "write_header page slots free_start free_end =
    res_bind (write_u16 page 0 slots) (\<lambda>p1.
    res_bind (write_u16 p1 2 free_start) (\<lambda>p2. write_u16 p2 4 free_end))"

definition slot_offset :: "u16 \<Rightarrow> nat" where
  "slot_offset slot_id = PAGE_HEADER_SIZE + SLOT_ENTRY_SIZE * unat slot_id"

definition read_slot :: "bytes \<Rightarrow> u16 \<Rightarrow> (u16 \<times> u16) res" where
  "read_slot page slot_id =
    res_bind (read_u16 page (slot_offset slot_id)) (\<lambda>pos.
    res_bind (read_u16 page (slot_offset slot_id + 2)) (\<lambda>len. Ok (pos, len)))"

definition write_slot :: "bytes \<Rightarrow> u16 \<Rightarrow> u16 \<Rightarrow> u16 \<Rightarrow> bytes res" where
  "write_slot page slot_id offset len =
    res_bind (write_u16 page (slot_offset slot_id) offset) (\<lambda>p1.
      write_u16 p1 (slot_offset slot_id + 2) len)"

text \<open>The loop of \<open>find_free_slot\<close> from slot \<open>i\<close> on, with \<open>k\<close> slots left.\<close>

fun find_free_from :: "bytes \<Rightarrow> nat \<Rightarrow> nat \<Rightarrow> u16 option res" where
  "find_free_from page i 0 = Ok None"
| "find_free_from page i (Suc k) =
    res_bind (read_slot page (word_of_nat i)) (\<lambda>(_, len).
      if len = 0 then Ok (Some (word_of_nat i)) else find_free_from page (Suc i) k)"

definition find_free_slot :: "bytes \<Rightarrow> u16 \<Rightarrow> u16 option res" where
  "find_free_slot page slots = find_free_from page 0 (unat slots)"

definition payload_len :: nat where
  "payload_len = KEY_SIZE + VALUE_SIZE + MVCC_HEADER_SIZE"

definition slot_payload_offset :: "bytes \<Rightarrow> u16 \<Rightarrow> nat option res" where
  "slot_payload_offset page slot_id =
    (if length page \<noteq> PAGE_SIZE then Ok None
     else res_bind (read_slot page slot_id) (\<lambda>(pos, len).
       if unat len \<noteq> payload_len then Ok None
       else if unat pos + payload_len > PAGE_SIZE then Ok None
       else Ok (Some (unat pos))))"

definition slotted_new_page :: bytes where
  "slotted_new_page = put_fields (replicate PAGE_SIZE 0)
    [(0, to_le 2 (0 :: u16)),
     (2, to_le 2 (word_of_nat PAGE_HEADER_SIZE :: u16)),
     (4, to_le 2 (word_of_nat PAGE_SIZE :: u16))]"

definition page_free_space :: "bytes \<Rightarrow> nat res" where
  "page_free_space page =
    (if length page \<noteq> PAGE_SIZE then Ok 0
     else res_bind (read_header page) (\<lambda>(_, free_start, free_end). Ok (unat (sat_sub free_end free_start))))"

definition slot_count :: "bytes \<Rightarrow> u16 res" where
  "slot_count page =
    (if length page \<noteq> PAGE_SIZE then Ok 0
     else res_bind (read_header page) (\<lambda>(slots, _, _). Ok slots))"

definition clear_slot :: "bytes \<Rightarrow> u16 \<Rightarrow> bytes res" where
  "clear_slot page slot_id =
    (if length page \<noteq> PAGE_SIZE then Ok page else write_slot page slot_id 0 0)"

text \<open>The two loops of \<open>defragment\<close>: collecting the live payloads, and packing them from the end.\<close>

fun collect_live :: "bytes \<Rightarrow> nat \<Rightarrow> nat \<Rightarrow> (u16 \<times> bytes) list res" where
  "collect_live page i 0 = Ok []"
| "collect_live page i (Suc k) =
    res_bind (read_slot page (word_of_nat i)) (\<lambda>(pos, len).
      if len = 0 then collect_live page (Suc i) k
      else if unat pos + unat len > PAGE_SIZE
      then Err (InvalidPageSize (unat pos + unat len) PAGE_SIZE)
      else res_bind (get_slice page (unat pos) (unat pos + unat len)) (\<lambda>payload.
        res_map (\<lambda>live. (word_of_nat i, payload) # live) (collect_live page (Suc i) k)))"

fun pack_live :: "bytes \<Rightarrow> u16 \<Rightarrow> (u16 \<times> bytes) list \<Rightarrow> (bytes \<times> u16) res" where
  "pack_live page free_end [] = Ok (page, free_end)"
| "pack_live page free_end ((slot_id, payload) # live) =
    (let len = word_of_nat (length payload) in
     res_bind (chk_sub free_end len) (\<lambda>new_pos.
     res_bind (copy_at page (unat new_pos) payload) (\<lambda>p1.
     res_bind (write_slot p1 slot_id new_pos len) (\<lambda>p2. pack_live p2 new_pos live))))"

definition defragment :: "bytes \<Rightarrow> bytes res" where
  "defragment page =
    (if length page \<noteq> PAGE_SIZE then Err (InvalidPageSize (length page) PAGE_SIZE)
     else res_bind (read_header page) (\<lambda>(slots, free_start, _).
       res_bind (collect_live page 0 (unat slots)) (\<lambda>live.
       res_bind (pack_live page (word_of_nat PAGE_SIZE) live) (\<lambda>(p', free_end).
         write_header p' slots free_start free_end))))"

definition read_key :: "bytes \<Rightarrow> u16 \<Rightarrow> bytes option res" where
  "read_key page slot_id =
    (if length page \<noteq> PAGE_SIZE then Ok None
     else res_bind (read_slot page slot_id) (\<lambda>(pos, len).
       if unat len \<noteq> payload_len then Ok None
       else if unat pos + KEY_SIZE > PAGE_SIZE then Ok None
       else res_map Some (get_slice page (unat pos) (unat pos + KEY_SIZE))))"

definition debug_slot :: "bytes \<Rightarrow> u16 \<Rightarrow> (u16 \<times> u16) option res" where
  "debug_slot page slot_id =
    (if length page \<noteq> PAGE_SIZE then Ok None
     else res_bind (read_header page) (\<lambda>(slots, _, _).
       if slot_id \<ge> slots then Ok None else res_map Some (read_slot page slot_id)))"

text \<open>The guard shared by the field readers: the payload offset of a slot whose key is \<open>key\<close>.\<close>

definition keyed_offset :: "bytes \<Rightarrow> u16 \<Rightarrow> bytes \<Rightarrow> nat option res" where
  "keyed_offset page slot_id key =
    (if length page \<noteq> PAGE_SIZE \<or> length key \<noteq> KEY_SIZE then Ok None
     else res_bind (slot_payload_offset page slot_id) (\<lambda>ofs.
       case ofs of None \<Rightarrow> Ok None
       | Some pos \<Rightarrow> res_bind (get_slice page pos (pos + KEY_SIZE)) (\<lambda>k.
           if k \<noteq> key then Ok None else Ok (Some pos))))"

definition read_value :: "bytes \<Rightarrow> u16 \<Rightarrow> bytes \<Rightarrow> bytes option res" where
  "read_value page slot_id key =
    res_bind (keyed_offset page slot_id key) (\<lambda>ofs.
      case ofs of None \<Rightarrow> Ok None
      | Some pos \<Rightarrow>
        (let v0 = pos + KEY_SIZE; v1 = pos + (KEY_SIZE + VALUE_SIZE);
             flags_off = pos + (KEY_SIZE + VALUE_SIZE + 8 + 8 + 2) in
         res_bind (read_u16 page flags_off) (\<lambda>flags.
           if flags AND FLAG_TOMBSTONE \<noteq> 0 then Ok None
           else res_map Some (get_slice page v0 v1))))"

definition overwrite_value :: "bytes \<Rightarrow> u16 \<Rightarrow> bytes \<Rightarrow> bytes \<Rightarrow> bytes res" where
  "overwrite_value page slot_id key value =
    (if length page \<noteq> PAGE_SIZE then Err (InvalidPageSize (length page) PAGE_SIZE)
     else if length key \<noteq> KEY_SIZE then Err (InvalidKeySize (length key) KEY_SIZE)
     else if length value \<noteq> VALUE_SIZE then Err (InvalidValueSize (length value) VALUE_SIZE)
     else res_bind (read_slot page slot_id) (\<lambda>(pos16, len).
       let pos = unat pos16 in
       if unat len \<noteq> payload_len then invalid_input ''slot empty or wrong length''
       else if pos + payload_len > PAGE_SIZE then Err (InvalidPageSize (pos + payload_len) PAGE_SIZE)
       else res_bind (get_slice page pos (pos + KEY_SIZE)) (\<lambda>k.
         if k \<noteq> key then invalid_input ''slot key mismatch''
         else copy_at page (pos + KEY_SIZE) value)))"

definition read_commit_lsn :: "bytes \<Rightarrow> u16 \<Rightarrow> bytes \<Rightarrow> u64 option res" where
  "read_commit_lsn page slot_id key =
    res_bind (keyed_offset page slot_id key) (\<lambda>ofs.
      case ofs of None \<Rightarrow> Ok None
      | Some pos \<Rightarrow> res_map Some (read_u64 page (pos + (KEY_SIZE + VALUE_SIZE))))"

text \<open>The header writers change a slot only when it holds a payload.\<close>

definition at_payload :: "bytes \<Rightarrow> u16 \<Rightarrow> (nat \<Rightarrow> bytes res) \<Rightarrow> bytes res" where
  "at_payload page slot_id f =
    res_bind (slot_payload_offset page slot_id) (\<lambda>ofs. case ofs of None \<Rightarrow> Ok page | Some pos \<Rightarrow> f pos)"

definition write_commit_lsn :: "bytes \<Rightarrow> u16 \<Rightarrow> u64 \<Rightarrow> bytes res" where
  "write_commit_lsn page slot_id lsn =
    at_payload page slot_id (\<lambda>pos. copy_at page (pos + (KEY_SIZE + VALUE_SIZE)) (to_le 8 lsn))"

definition read_undo_ptr :: "bytes \<Rightarrow> u16 \<Rightarrow> bytes \<Rightarrow> undo_ptr option res" where
  "read_undo_ptr page slot_id key =
    res_bind (keyed_offset page slot_id key) (\<lambda>ofs.
      case ofs of None \<Rightarrow> Ok None
      | Some pos \<Rightarrow>
        (let off = pos + (KEY_SIZE + VALUE_SIZE + 8); sid_off = pos + (KEY_SIZE + VALUE_SIZE + 8 + 8) in
         res_bind (read_u64 page off) (\<lambda>pid.
           if pid = 0 then Ok None
           else res_bind (read_u16 page sid_off) (\<lambda>sid.
             Ok (Some \<lparr>up_page_id = pid, up_slot_id = sid\<rparr>)))))"

definition write_undo_ptr :: "bytes \<Rightarrow> u16 \<Rightarrow> undo_ptr option \<Rightarrow> bytes res" where
  "write_undo_ptr page slot_id undo =
    at_payload page slot_id (\<lambda>pos.
      let (pid, sid) = ptr_parts undo in
      write_fields page [(pos + (KEY_SIZE + VALUE_SIZE + 8), to_le 8 pid),
                         (pos + (KEY_SIZE + VALUE_SIZE + 8 + 8), to_le 2 sid)])"

definition read_flags :: "bytes \<Rightarrow> u16 \<Rightarrow> bytes \<Rightarrow> u16 option res" where
  "read_flags page slot_id key =
    res_bind (keyed_offset page slot_id key) (\<lambda>ofs.
      case ofs of None \<Rightarrow> Ok None
      | Some pos \<Rightarrow> res_map Some (read_u16 page (pos + (KEY_SIZE + VALUE_SIZE + 8 + 8 + 2))))"

definition write_flags :: "bytes \<Rightarrow> u16 \<Rightarrow> u16 \<Rightarrow> bytes res" where
  "write_flags page slot_id flags =
    at_payload page slot_id (\<lambda>pos. copy_at page (pos + (KEY_SIZE + VALUE_SIZE + 8 + 8 + 2)) (to_le 2 flags))"

definition mark_tombstone :: "bytes \<Rightarrow> u16 \<Rightarrow> bytes res" where
  "mark_tombstone page slot_id =
    at_payload page slot_id (\<lambda>pos.
      let off = pos + (KEY_SIZE + VALUE_SIZE + 8 + 8 + 2) in
      res_bind (read_u16 page off) (\<lambda>flags. copy_at page off (to_le 2 (flags OR FLAG_TOMBSTONE))))"

definition row_fields :: "nat \<Rightarrow> bytes \<Rightarrow> bytes \<Rightarrow> (nat \<times> bytes) list" where
  "row_fields cursor key value =
    [(cursor, key),
     (cursor + KEY_SIZE, value),
     (cursor + (KEY_SIZE + VALUE_SIZE), to_le 8 (0 :: u64)),
     (cursor + (KEY_SIZE + VALUE_SIZE + 8), to_le 8 (0 :: u64)),
     (cursor + (KEY_SIZE + VALUE_SIZE + 8 + 8), to_le 2 (0 :: u16)),
     (cursor + (KEY_SIZE + VALUE_SIZE + 8 + 8 + 2), to_le 2 (0 :: u16))]"

definition insert_record :: "bytes \<Rightarrow> bytes \<Rightarrow> bytes \<Rightarrow> (bytes \<times> u16) res" where
  "insert_record page key value =
    (if length page \<noteq> PAGE_SIZE then Err (InvalidPageSize (length page) PAGE_SIZE)
     else if length key \<noteq> KEY_SIZE then Err (InvalidKeySize (length key) KEY_SIZE)
     else if length value \<noteq> VALUE_SIZE then Err (InvalidValueSize (length value) VALUE_SIZE)
     else res_bind (read_header page) (\<lambda>(slots, free_start, free_end).
       res_bind (find_free_slot page slots) (\<lambda>free_slot.
         let needed = payload_len + (if free_slot = None then SLOT_ENTRY_SIZE else 0);
             free_bytes = unat (sat_sub free_end free_start) in
         if free_bytes < needed then Err (InvalidValueSize needed free_bytes)
         else
           let slot_id = (case free_slot of Some s \<Rightarrow> s | None \<Rightarrow> slots);
               free_start' = (if free_slot = None then sat_add free_start (word_of_nat SLOT_ENTRY_SIZE) else free_start);
               slots' = (if free_slot = None then sat_add slots 1 else slots);
               payload_offset = (word_of_nat (unat free_end - payload_len) :: u16) in
           res_bind (write_fields page (row_fields (unat payload_offset) key value)) (\<lambda>p1.
           res_bind (write_slot p1 slot_id payload_offset (word_of_nat payload_len)) (\<lambda>p2.
           res_bind (write_header p2 slots' free_start' payload_offset) (\<lambda>p3.
             Ok (p3, slot_id)))))))"

definition insert_record_at_slot_checked :: "bytes \<Rightarrow> u16 \<Rightarrow> bytes \<Rightarrow> bytes \<Rightarrow> bytes res" where
  "insert_record_at_slot_checked page slot_id key value =
    (if length page \<noteq> PAGE_SIZE then Err (InvalidPageSize (length page) PAGE_SIZE)
     else if length key \<noteq> KEY_SIZE then Err (InvalidKeySize (length key) KEY_SIZE)
     else if length value \<noteq> VALUE_SIZE then Err (InvalidValueSize (length value) VALUE_SIZE)
     else res_bind (read_header page) (\<lambda>(slots, _, _).
       let fallback = res_map fst (insert_record page key value) in
       if slot_id < slots then
         res_bind (read_value page slot_id key) (\<lambda>existing.
           if existing \<noteq> None then overwrite_value page slot_id key value
           else res_bind (read_slot page slot_id) (\<lambda>(_, len).
             if len \<noteq> 0 then invalid_input ''wal slot key mismatch'' else fallback))
       else fallback))"

definition fixed_key_bytes :: "bytes \<Rightarrow> bytes" where
  "fixed_key_bytes inp = take KEY_SIZE inp @ replicate (KEY_SIZE - length inp) 0"

section \<open>Abstraction and invariant\<close>

text \<open>The header words and directory entries of a page as numbers; a slot is live when the directory
  covers it and its length is not 0.\<close>

definition sp_slots :: "bytes \<Rightarrow> nat" where "sp_slots p = unat (from_le (get_at p 0 2) :: u16)"

definition sp_free_start :: "bytes \<Rightarrow> nat" where "sp_free_start p = unat (from_le (get_at p 2 2) :: u16)"

definition sp_free_end :: "bytes \<Rightarrow> nat" where "sp_free_end p = unat (from_le (get_at p 4 2) :: u16)"

definition slot_pos :: "bytes \<Rightarrow> nat \<Rightarrow> nat" where "slot_pos p i = unat (from_le (get_at p (6 + 4 * i) 2) :: u16)"

definition slot_len :: "bytes \<Rightarrow> nat \<Rightarrow> nat" where "slot_len p i = unat (from_le (get_at p (6 + 4 * i + 2) 2) :: u16)"

definition slot_live :: "bytes \<Rightarrow> nat \<Rightarrow> bool" where "slot_live p i \<longleftrightarrow> i < sp_slots p \<and> slot_len p i \<noteq> 0"

definition slot_payload :: "bytes \<Rightarrow> nat \<Rightarrow> bytes" where "slot_payload p i = get_at p (slot_pos p i) payload_len"

record row =
  row_key :: bytes
  row_value :: bytes
  row_commit_lsn :: u64
  row_undo :: "undo_ptr option"
  row_flags :: u16

definition decode_row :: "bytes \<Rightarrow> row" where
  "decode_row bs = \<lparr>row_key = get_at bs 0 16, row_value = get_at bs 16 1024,
     row_commit_lsn = from_le (get_at bs 1040 8),
     row_undo = ptr_of_parts (from_le (get_at bs 1048 8)) (from_le (get_at bs 1056 2)),
     row_flags = from_le (get_at bs 1058 2)\<rparr>"

definition slot_row :: "bytes \<Rightarrow> nat \<Rightarrow> row option" where
  "slot_row p i = (if slot_live p i then Some (decode_row (slot_payload p i)) else None)"

definition slots_ok :: "bytes \<Rightarrow> bool" where
  "slots_ok p \<longleftrightarrow> (\<forall>i< sp_slots p. slot_len p i = 0 \<or>
     slot_len p i = payload_len \<and> sp_free_end p \<le> slot_pos p i \<and> slot_pos p i + payload_len \<le> PAGE_SIZE)"

definition slots_apart :: "bytes \<Rightarrow> bool" where
  "slots_apart p \<longleftrightarrow> (\<forall>i< sp_slots p. \<forall>j< sp_slots p. i \<noteq> j \<longrightarrow> slot_len p i \<noteq> 0 \<longrightarrow> slot_len p j \<noteq> 0 \<longrightarrow>
     slot_pos p i + payload_len \<le> slot_pos p j \<or> slot_pos p j + payload_len \<le> slot_pos p i)"

definition slotted_wf :: "bytes \<Rightarrow> bool" where
  "slotted_wf p \<longleftrightarrow> length p = PAGE_SIZE \<and> sp_free_start p = 6 + 4 * sp_slots p
     \<and> sp_free_start p \<le> sp_free_end p \<and> sp_free_end p \<le> PAGE_SIZE \<and> slots_ok p \<and> slots_apart p"

definition row_for :: "bytes \<Rightarrow> u16 \<Rightarrow> bytes \<Rightarrow> row option" where
  "row_for p s key = (case slot_row p (unat s) of Some r \<Rightarrow> if row_key r = key then Some r else None | None \<Rightarrow> None)"

text \<open>The result of a write into one slot: a well-formed page with that row changed.\<close>

definition row_updated :: "bytes \<Rightarrow> nat \<Rightarrow> (row \<Rightarrow> row) \<Rightarrow> bytes \<Rightarrow> bool" where
  "row_updated p i f q \<longleftrightarrow> slotted_wf q \<and> sp_slots q = sp_slots p \<and> sp_free_end q = sp_free_end p
     \<and> slot_row q = (slot_row p)(i := map_option f (slot_row p i))"

definition fresh_row :: "bytes \<Rightarrow> bytes \<Rightarrow> row" where
  "fresh_row key v = \<lparr>row_key = key, row_value = v, row_commit_lsn = 0, row_undo = None, row_flags = 0\<rparr>"

text \<open>The slot an insertion uses: the first empty one, else a new one.\<close>

definition insert_slot :: "bytes \<Rightarrow> nat" where
  "insert_slot p = (case List.find (\<lambda>j. slot_len p j = 0) [0..<sp_slots p] of Some j \<Rightarrow> j | None \<Rightarrow> sp_slots p)"

definition insert_needed :: "bytes \<Rightarrow> nat" where
  "insert_needed p = (if insert_slot p = sp_slots p then 1064 else 1060)"

text \<open>The page that \<open>insert_record\<close> builds once the slot is chosen.\<close>

definition installed :: "bytes \<Rightarrow> nat \<Rightarrow> u16 \<Rightarrow> u16 \<Rightarrow> bytes \<Rightarrow> bytes \<Rightarrow> bytes" where
  "installed p i n' fs' key v = (let off = sp_free_end p - 1060 in
     put_fields p (row_fields off key v @
       [(6 + 4 * i, to_le 2 (word_of_nat off :: u16)), (6 + 4 * i + 2, to_le 2 (1060 :: u16)),
        (0, to_le 2 n'), (2, to_le 2 fs'), (4, to_le 2 (word_of_nat off :: u16))]))"

definition live_slots :: "bytes \<Rightarrow> nat list" where
  "live_slots p = filter (\<lambda>j. slot_len p j \<noteq> 0) [0..<sp_slots p]"

text \<open>The page after packing the payloads \<open>js\<close> below \<open>fe\<close>, in order.\<close>

definition packed :: "nat \<Rightarrow> bytes \<Rightarrow> nat \<Rightarrow> (nat \<times> bytes) list \<Rightarrow> bytes \<Rightarrow> bool" where
  "packed n p fe js q \<longleftrightarrow> length q = 16384
     \<and> (\<forall>a k. a + k \<le> 6 \<or> fe \<le> a \<longrightarrow> get_at q a k = get_at p a k)
     \<and> (\<forall>j < n. j \<notin> fst ` set js \<longrightarrow> slot_pos q j = slot_pos p j \<and> slot_len q j = slot_len p j)
     \<and> (\<forall>m < length js. slot_pos q (fst (js ! m)) = fe - 1060 * (m + 1) \<and> slot_len q (fst (js ! m)) = 1060
          \<and> get_at q (fe - 1060 * (m + 1)) 1060 = snd (js ! m))"

definition slotted_fits :: "bytes \<Rightarrow> bool" where
  "slotted_fits p \<longleftrightarrow> insert_needed p \<le> sp_free_end p - sp_free_start p"

section \<open>Reading a well-formed page\<close>

lemma payload_len_eq [simp]: "payload_len = 1060"
  by (simp add: payload_len_def)

lemma slotted_wfD:
  assumes "slotted_wf p"
  shows "length p = 16384" "sp_free_start p = 6 + 4 * sp_slots p" "6 + 4 * sp_slots p \<le> sp_free_end p"
    "sp_free_end p \<le> 16384" "sp_slots p < 4096"
  using assms by (auto simp: slotted_wf_def)

lemma slot_liveD:
  assumes "slotted_wf p" and "slot_live p i"
  shows "i < sp_slots p" "slot_len p i = 1060" "sp_free_end p \<le> slot_pos p i" "slot_pos p i + 1060 \<le> 16384"
  using assms by (auto simp: slotted_wf_def slots_ok_def slot_live_def)

lemma slot_live_apart:
  assumes "slotted_wf p" and "slot_live p i" and "slot_live p j" and "i \<noteq> j"
  shows "slot_pos p i + 1060 \<le> slot_pos p j \<or> slot_pos p j + 1060 \<le> slot_pos p i"
  using assms by (auto simp: slotted_wf_def slots_apart_def slot_live_def)

lemma read_header_eq:
  "length p = 16384 \<Longrightarrow> read_header p = Ok (from_le (get_at p 0 2), from_le (get_at p 2 2), from_le (get_at p 4 2))"
  by (simp add: read_header_def buf_simps)

lemma read_slot_eq:
  assumes "length p = 16384" and "unat s < 4094"
  shows "read_slot p s = Ok (word_of_nat (slot_pos p (unat s)), word_of_nat (slot_len p (unat s)))"
  using assms by (simp add: read_slot_def slot_offset_def slot_pos_def slot_len_def buf_simps)

lemma slot_pos_len_less: "slot_pos p i < 65536" "slot_len p i < 65536"
  using unsigned_less [where 'a = nat, of "from_le (get_at p (6 + 4 * i) 2) :: u16"]
    unsigned_less [where 'a = nat, of "from_le (get_at p (6 + 4 * i + 2) 2) :: u16"]
  by (simp_all add: slot_pos_def slot_len_def)

lemma unat_slot [simp]:
  "unat (word_of_nat (slot_pos p i) :: u16) = slot_pos p i" "unat (word_of_nat (slot_len p i) :: u16) = slot_len p i"
  using slot_pos_len_less by (auto intro!: unat_word_of_nat_small)

lemma slot_len_word_0 [simp]: "(word_of_nat (slot_len p i) :: u16) = 0 \<longleftrightarrow> slot_len p i = 0"
proof
  assume z: "(word_of_nat (slot_len p i) :: u16) = 0"
  have "slot_len p i = unat (word_of_nat (slot_len p i) :: u16)" by simp
  also have "\<dots> = 0" by (simp only: z unsigned_0)
  finally show "slot_len p i = 0" .
qed simp

lemma slotted_wf_cong:
  assumes "slotted_wf p" and "length q = length p" and "sp_slots q = sp_slots p"
    and "sp_free_start q = sp_free_start p" and "sp_free_end q = sp_free_end p"
    and "\<And>j. j < sp_slots p \<Longrightarrow> slot_pos q j = slot_pos p j"
    and "\<And>j. j < sp_slots p \<Longrightarrow> slot_len q j = slot_len p j"
  shows "slotted_wf q"
  using assms by (simp add: slotted_wf_def slots_ok_def slots_apart_def)

text \<open>Writing inside the payload of one live slot changes that slot's row and nothing else.\<close>

lemma slotted_payload_write:
  assumes wf: "slotted_wf p" and i: "slot_live p i" and d: "d + length xs \<le> 1060"
    and q: "q = put_at p (slot_pos p i + d) xs"
  shows "slotted_wf q" "slot_row q = (slot_row p)(i \<mapsto> decode_row (put_at (slot_payload p i) d xs))"
    "sp_free_end q = sp_free_end p" "sp_slots q = sp_slots p" "slot_live q = slot_live p"
    "slot_payload q i = put_at (slot_payload p i) d xs" "slot_pos q i = slot_pos p i"
proof -
  note w = slotted_wfD [OF wf] and iD = slot_liveD [OF wf i]
  have low: "get_at q a n = get_at p a n" if "a + n \<le> sp_free_end p" for a n
    using that iD unfolding q by (simp add: buf_simps)
  have hdr: "sp_slots q = sp_slots p" "sp_free_start q = sp_free_start p" "sp_free_end q = sp_free_end p"
    using w by (auto simp: sp_slots_def sp_free_start_def sp_free_end_def low)
  have len: "length q = length p" by (simp add: q)
  have dir: "slot_pos q j = slot_pos p j" "slot_len q j = slot_len p j" if "j < sp_slots p" for j
    using that w by (auto simp: slot_pos_def slot_len_def low)
  show live: "slot_live q = slot_live p"
    using dir by (auto simp: slot_live_def hdr fun_eq_iff)
  show "slotted_wf q"
    by (rule slotted_wf_cong [OF wf len hdr dir])
  show pay: "slot_payload q i = put_at (slot_payload p i) d xs"
    using get_at_put_at_inside [of d xs 1060 "slot_pos p i" p] d iD w
    by (simp add: slot_payload_def dir flip: q)
  moreover have "slot_payload q j = slot_payload p j" if "slot_live p j" "j \<noteq> i" for j
  proof -
    have "get_at q (slot_pos p j) 1060 = get_at p (slot_pos p j) 1060"
      using slot_live_apart [OF wf i that(1)] that d unfolding q by (intro get_at_put_at_disjoint) auto
    then show ?thesis using slot_liveD(1) [OF wf that(1)] by (simp add: slot_payload_def dir)
  qed
  ultimately show "slot_row q = (slot_row p)(i \<mapsto> decode_row (put_at (slot_payload p i) d xs))"
    using i by (auto simp: slot_row_def live fun_eq_iff)
  show "sp_free_end q = sp_free_end p" "sp_slots q = sp_slots p" by (rule hdr)+
  show "slot_pos q i = slot_pos p i" using dir iD by simp
qed

lemma decode_row_put:
  assumes "length bs = 1060"
  shows "length v = 1024 \<Longrightarrow> decode_row (put_at bs 16 v) = (decode_row bs)\<lparr>row_value := v\<rparr>"
    "decode_row (put_at bs 1040 (to_le 8 (lsn :: u64))) = (decode_row bs)\<lparr>row_commit_lsn := lsn\<rparr>"
    "decode_row (put_at (put_at bs 1048 (to_le 8 (pid :: u64))) 1056 (to_le 2 (sid :: u16)))
       = (decode_row bs)\<lparr>row_undo := ptr_of_parts pid sid\<rparr>"
    "decode_row (put_at bs 1058 (to_le 2 (fl :: u16))) = (decode_row bs)\<lparr>row_flags := fl\<rparr>"
  using assms by (simp_all add: decode_row_def buf_simps)

lemma length_slot_payload: "slotted_wf p \<Longrightarrow> slot_live p i \<Longrightarrow> length (slot_payload p i) = 1060"
  using slot_liveD slotted_wfD(1) by (simp add: slot_payload_def buf_simps)

lemma slot_payload_offset_eq:
  assumes wf: "slotted_wf p" and s: "unat s < sp_slots p"
  shows "slot_payload_offset p s = Ok (if slot_live p (unat s) then Some (slot_pos p (unat s)) else None)"
proof (cases "slot_live p (unat s)")
  case True
  then show ?thesis
    using slot_liveD [OF wf True] slotted_wfD [OF wf] s by (simp add: slot_payload_offset_def read_slot_eq)
next
  case False
  then have "slot_len p (unat s) = 0" using s by (simp add: slot_live_def)
  then show ?thesis
    using False slotted_wfD [OF wf] s by (simp add: slot_payload_offset_def read_slot_eq)
qed

lemma decode_slot_fields:
  assumes "slotted_wf p" and "slot_live p i"
  shows "decode_row (slot_payload p i) =
    \<lparr>row_key = get_at p (slot_pos p i) 16, row_value = get_at p (slot_pos p i + 16) 1024,
     row_commit_lsn = from_le (get_at p (slot_pos p i + 1040) 8),
     row_undo = ptr_of_parts (from_le (get_at p (slot_pos p i + 1048) 8)) (from_le (get_at p (slot_pos p i + 1056) 2)),
     row_flags = from_le (get_at p (slot_pos p i + 1058) 2)\<rparr>"
  using assms by (simp add: decode_row_def slot_payload_def get_at_get_at)

lemma keyed_offset_eq:
  assumes wf: "slotted_wf p" and s: "unat s < sp_slots p"
  shows "keyed_offset p s key = Ok (map_option (\<lambda>_. slot_pos p (unat s)) (row_for p s key))"
proof (cases "slot_live p (unat s)")
  case True
  note D = slot_liveD [OF wf True] and w = slotted_wfD [OF wf]
  have len: "length (get_at p (slot_pos p (unat s)) 16) = 16" using D w by (simp add: buf_simps)
  then show ?thesis
    using D w True
    by (auto simp: keyed_offset_def slot_payload_offset_eq [OF wf s] buf_simps row_for_def slot_row_def
        decode_slot_fields [OF wf True])
next
  case False
  then show ?thesis
    using slotted_wfD [OF wf]
    by (simp add: keyed_offset_def slot_payload_offset_eq [OF wf s] row_for_def slot_row_def)
qed

lemma row_for_SomeD:
  assumes wf: "slotted_wf p" and r: "row_for p s key = Some r"
  shows "slot_live p (unat s)" "r = decode_row (slot_payload p (unat s))" "row_key r = key" "slot_row p (unat s) = Some r"
  using r by (auto simp: row_for_def slot_row_def split: option.splits if_splits)

lemma read_field_eqs:
  assumes wf: "slotted_wf p" and s: "unat s < sp_slots p"
  shows "read_value p s key = Ok (Option.bind (row_for p s key)
           (\<lambda>r. if row_flags r AND FLAG_TOMBSTONE \<noteq> 0 then None else Some (row_value r)))"
    and "read_commit_lsn p s key = Ok (map_option row_commit_lsn (row_for p s key))"
    and "read_undo_ptr p s key = Ok (Option.bind (row_for p s key) row_undo)"
    and "read_flags p s key = Ok (map_option row_flags (row_for p s key))"
proof -
  note k = keyed_offset_eq [OF wf s] and w = slotted_wfD [OF wf]
  consider "row_for p s key = None"
    | r where "row_for p s key = Some r" "slot_live p (unat s)" "r = decode_row (slot_payload p (unat s))"
    using row_for_SomeD [OF wf] by (cases "row_for p s key") auto
  then have "read_value p s key = Ok (Option.bind (row_for p s key)
           (\<lambda>r. if row_flags r AND FLAG_TOMBSTONE \<noteq> 0 then None else Some (row_value r)))
    \<and> read_commit_lsn p s key = Ok (map_option row_commit_lsn (row_for p s key))
    \<and> read_undo_ptr p s key = Ok (Option.bind (row_for p s key) row_undo)
    \<and> read_flags p s key = Ok (map_option row_flags (row_for p s key))"
  proof cases
    case 1
    then show ?thesis by (simp add: read_value_def read_commit_lsn_def read_undo_ptr_def read_flags_def k)
  next
    case 2
    note D = slot_liveD [OF wf 2(2)]
    show ?thesis
      using D w by (simp add: read_value_def read_commit_lsn_def read_undo_ptr_def read_flags_def k 2(1)
          buf_simps 2(3) decode_slot_fields [OF wf 2(2)] ptr_of_parts_def Let_def)
  qed
  then show "read_value p s key = Ok (Option.bind (row_for p s key)
           (\<lambda>r. if row_flags r AND FLAG_TOMBSTONE \<noteq> 0 then None else Some (row_value r)))"
    and "read_commit_lsn p s key = Ok (map_option row_commit_lsn (row_for p s key))"
    and "read_undo_ptr p s key = Ok (Option.bind (row_for p s key) row_undo)"
    and "read_flags p s key = Ok (map_option row_flags (row_for p s key))"
    by blast+
qed

lemma row_updated_write:
  assumes wf: "slotted_wf p" and i: "slot_live p i" and d: "d + length xs \<le> 1060"
    and f: "decode_row (put_at (slot_payload p i) d xs) = f (decode_row (slot_payload p i))"
  shows "row_updated p i f (put_at p (slot_pos p i + d) xs)"
  using slotted_payload_write [OF wf i d refl] i f by (simp add: row_updated_def slot_row_def fun_eq_iff)

lemma row_updated_dead: "slotted_wf p \<Longrightarrow> \<not> slot_live p i \<Longrightarrow> row_updated p i f p"
  by (auto simp: row_updated_def slot_row_def fun_eq_iff)

lemma row_updated_trans:
  "row_updated p i f q \<Longrightarrow> row_updated q i g r \<Longrightarrow> row_updated p i (g \<circ> f) r"
  by (auto simp: row_updated_def option.map_comp)

lemma at_payload_updates:
  assumes wf: "slotted_wf p" and s: "unat s < sp_slots p"
    and live: "slot_live p (unat s) \<Longrightarrow> \<exists>q. g (slot_pos p (unat s)) = Ok q \<and> row_updated p (unat s) f q"
  shows "\<exists>q. at_payload p s g = Ok q \<and> row_updated p (unat s) f q"
  using live row_updated_dead [OF wf]
  by (cases "slot_live p (unat s)") (auto simp: at_payload_def slot_payload_offset_eq [OF wf s])

lemma write_commit_lsn_ok:
  assumes wf: "slotted_wf p" and s: "unat s < sp_slots p"
  shows "\<exists>q. write_commit_lsn p s lsn = Ok q \<and> row_updated p (unat s) (\<lambda>r. r\<lparr>row_commit_lsn := lsn\<rparr>) q"
  unfolding write_commit_lsn_def
proof (rule at_payload_updates [OF wf s])
  assume l: "slot_live p (unat s)"
  note D = slot_liveD [OF wf l] and w = slotted_wfD [OF wf]
  have "row_updated p (unat s) (\<lambda>r. r\<lparr>row_commit_lsn := lsn\<rparr>) (put_at p (slot_pos p (unat s) + 1040) (to_le 8 lsn))"
    by (rule row_updated_write [OF wf l]) (simp_all add: decode_row_put length_slot_payload wf l)
  then show "\<exists>q. copy_at p (slot_pos p (unat s) + (KEY_SIZE + VALUE_SIZE)) (to_le 8 lsn) = Ok q
      \<and> row_updated p (unat s) (\<lambda>r. r\<lparr>row_commit_lsn := lsn\<rparr>) q"
    using D w by (simp add: copy_at_Ok)
qed

lemma write_flags_ok:
  assumes wf: "slotted_wf p" and s: "unat s < sp_slots p"
  shows "\<exists>q. write_flags p s fl = Ok q \<and> row_updated p (unat s) (\<lambda>r. r\<lparr>row_flags := fl\<rparr>) q"
  unfolding write_flags_def
proof (rule at_payload_updates [OF wf s])
  assume l: "slot_live p (unat s)"
  note D = slot_liveD [OF wf l] and w = slotted_wfD [OF wf]
  have "row_updated p (unat s) (\<lambda>r. r\<lparr>row_flags := fl\<rparr>) (put_at p (slot_pos p (unat s) + 1058) (to_le 2 fl))"
    by (rule row_updated_write [OF wf l]) (simp_all add: decode_row_put length_slot_payload wf l)
  then show "\<exists>q. copy_at p (slot_pos p (unat s) + (KEY_SIZE + VALUE_SIZE + 8 + 8 + 2)) (to_le 2 fl) = Ok q
      \<and> row_updated p (unat s) (\<lambda>r. r\<lparr>row_flags := fl\<rparr>) q"
    using D w by (simp add: copy_at_Ok)
qed

lemma mark_tombstone_ok:
  assumes wf: "slotted_wf p" and s: "unat s < sp_slots p"
  shows "\<exists>q. mark_tombstone p s = Ok q
    \<and> row_updated p (unat s) (\<lambda>r. r\<lparr>row_flags := row_flags r OR FLAG_TOMBSTONE\<rparr>) q"
  unfolding mark_tombstone_def
proof (rule at_payload_updates [OF wf s])
  assume l: "slot_live p (unat s)"
  note D = slot_liveD [OF wf l] and w = slotted_wfD [OF wf]
  let ?fl = "from_le (get_at p (slot_pos p (unat s) + 1058) 2) :: u16"
  have "row_flags (decode_row (slot_payload p (unat s))) = ?fl"
    by (simp add: decode_slot_fields [OF wf l])
  then have "row_updated p (unat s) (\<lambda>r. r\<lparr>row_flags := row_flags r OR FLAG_TOMBSTONE\<rparr>)
      (put_at p (slot_pos p (unat s) + 1058) (to_le 2 (?fl OR FLAG_TOMBSTONE)))"
    by (intro row_updated_write [OF wf l]) (simp_all add: decode_row_put length_slot_payload wf l)
  then show "\<exists>q. (let off = slot_pos p (unat s) + (KEY_SIZE + VALUE_SIZE + 8 + 8 + 2) in
      res_bind (read_u16 p off) (\<lambda>flags. copy_at p off (to_le 2 (flags OR FLAG_TOMBSTONE)))) = Ok q
      \<and> row_updated p (unat s) (\<lambda>r. r\<lparr>row_flags := row_flags r OR FLAG_TOMBSTONE\<rparr>) q"
    using D w by (simp add: copy_at_Ok buf_simps Let_def)
qed

lemma ptr_of_ptr_parts:
  "case_prod ptr_of_parts (ptr_parts u) = (case u of Some x \<Rightarrow> if up_page_id x = 0 then None else u | None \<Rightarrow> None)"
  by (auto simp: ptr_of_parts_def split: option.splits)

lemma write_undo_ptr_ok:
  assumes wf: "slotted_wf p" and s: "unat s < sp_slots p"
  shows "\<exists>q. write_undo_ptr p s u = Ok q
    \<and> row_updated p (unat s) (\<lambda>r. r\<lparr>row_undo := case_prod ptr_of_parts (ptr_parts u)\<rparr>) q"
  unfolding write_undo_ptr_def
proof (rule at_payload_updates [OF wf s])
  assume l: "slot_live p (unat s)"
  note D = slot_liveD [OF wf l] and w = slotted_wfD [OF wf]
  obtain pid sid where u: "ptr_parts u = (pid, sid)" by (cases "ptr_parts u")
  let ?p1 = "put_at p (slot_pos p (unat s) + 1048) (to_le 8 pid)"
  let ?p2 = "put_at ?p1 (slot_pos p (unat s) + 1056) (to_le 2 sid)"
  note w1 = slotted_payload_write [OF wf l _ refl, of 1048 "to_le 8 pid", simplified]
  note w2 = slotted_payload_write [OF w1(1) _ _ refl, of "unat s" 1056 "to_le 2 sid", simplified w1 l, simplified]
  have "row_updated p (unat s) (\<lambda>r. r\<lparr>row_undo := ptr_of_parts pid sid\<rparr>) ?p2"
    using w1 w2 l by (simp add: row_updated_def decode_row_put length_slot_payload wf slot_row_def fun_eq_iff)
  then show "\<exists>q. (let (pid, sid) = ptr_parts u in
      write_fields p [(slot_pos p (unat s) + (KEY_SIZE + VALUE_SIZE + 8), to_le 8 pid),
                      (slot_pos p (unat s) + (KEY_SIZE + VALUE_SIZE + 8 + 8), to_le 2 sid)]) = Ok q
      \<and> row_updated p (unat s) (\<lambda>r. r\<lparr>row_undo := case_prod ptr_of_parts (ptr_parts u)\<rparr>) q"
    using D w by (simp add: copy_at_Ok buf_simps Let_def u)
qed

lemma overwrite_value_ok:
  assumes wf: "slotted_wf p" and s: "unat s < sp_slots p" and k: "length key = KEY_SIZE" and v: "length v = VALUE_SIZE"
  shows "case slot_row p (unat s) of
      None \<Rightarrow> overwrite_value p s key v = invalid_input ''slot empty or wrong length''
    | Some r \<Rightarrow> if row_key r = key
        then \<exists>q. overwrite_value p s key v = Ok q \<and> row_updated p (unat s) (\<lambda>r. r\<lparr>row_value := v\<rparr>) q
        else overwrite_value p s key v = invalid_input ''slot key mismatch''"
proof (cases "slot_live p (unat s)")
  case True
  note D = slot_liveD [OF wf True] and w = slotted_wfD [OF wf]
  have "row_updated p (unat s) (\<lambda>r. r\<lparr>row_value := v\<rparr>) (put_at p (slot_pos p (unat s) + 16) v)"
    by (rule row_updated_write [OF wf True]) (use v in \<open>simp_all add: decode_row_put length_slot_payload wf True\<close>)
  then show ?thesis
    using True D w k v
    by (simp add: slot_row_def overwrite_value_def read_slot_eq buf_simps decode_slot_fields [OF wf True] Let_def)
next
  case False
  then have "slot_len p (unat s) = 0" using s by (simp add: slot_live_def)
  then show ?thesis
    using False slotted_wfD [OF wf] s k v by (simp add: slot_row_def overwrite_value_def read_slot_eq)
qed

lemma clear_slot_ok:
  assumes wf: "slotted_wf p" and s: "unat s < sp_slots p"
  shows "\<exists>q. clear_slot p s = Ok q \<and> slotted_wf q \<and> slot_row q = (slot_row p)(unat s := None)
    \<and> sp_slots q = sp_slots p \<and> sp_free_end q = sp_free_end p"
proof -
  note w = slotted_wfD [OF wf]
  define i where "i = unat s"
  define q where "q = put_at (put_at p (6 + 4 * i) (to_le 2 (0 :: u16))) (6 + 4 * i + 2) (to_le 2 (0 :: u16))"
  have i: "i < sp_slots p" using s by (simp add: i_def)
  have q: "clear_slot p s = Ok q"
    using w i by (simp add: clear_slot_def write_slot_def slot_offset_def q_def i_def buf_simps)
  have fr: "get_at q a n = get_at p a n" if "a + n \<le> 6 + 4 * i \<or> 6 + 4 * i + 4 \<le> a" for a n
    using that by (auto simp: q_def buf_simps)
  have hdr: "sp_slots q = sp_slots p" "sp_free_start q = sp_free_start p" "sp_free_end q = sp_free_end p"
    by (auto simp: sp_slots_def sp_free_start_def sp_free_end_def fr)
  have dir: "slot_pos q j = slot_pos p j" "slot_len q j = slot_len p j" if "j \<noteq> i" for j
  proof -
    have "j + 1 \<le> i \<or> i + 1 \<le> j" using that by linarith
    then have "get_at q (6 + 4 * j) 2 = get_at p (6 + 4 * j) 2" "get_at q (6 + 4 * j + 2) 2 = get_at p (6 + 4 * j + 2) 2"
      by (auto intro!: fr)
    then show "slot_pos q j = slot_pos p j" "slot_len q j = slot_len p j"
      by (simp_all only: slot_pos_def slot_len_def)
  qed
  have z: "slot_len q i = 0"
    using w i by (simp add: slot_len_def q_def buf_simps)
  have "slotted_wf q"
  proof -
    have len: "length q = length p" by (simp add: q_def)
    have "slots_ok q"
      using wf z unfolding slots_ok_def slotted_wf_def hdr by (metis dir)
    moreover have "slots_apart q"
      using wf z unfolding slots_apart_def slotted_wf_def hdr by (metis dir)
    ultimately show ?thesis using wf by (simp add: slotted_wf_def hdr len)
  qed
  moreover have "slot_row q j = ((slot_row p)(i := None)) j" for j
  proof (cases "j = i")
    case False
    then have l: "slot_live q j = slot_live p j" by (simp add: slot_live_def hdr dir)
    have "slot_payload q j = slot_payload p j" if "slot_live p j"
      using slot_liveD [OF wf that] w i False by (simp add: slot_payload_def dir fr)
    then show ?thesis using False l by (simp add: slot_row_def)
  qed (simp add: slot_row_def slot_live_def z)
  ultimately show ?thesis using q hdr by (auto simp: i_def fun_eq_iff)
qed

section \<open>Insertion and defragmentation\<close>

lemma find_free_from_eq:
  "length p = 16384 \<Longrightarrow> i + k \<le> 4094 \<Longrightarrow>
   find_free_from p i k = Ok (map_option word_of_nat (List.find (\<lambda>j. slot_len p j = 0) [i..<i + k]))"
proof (induction k arbitrary: i)
  case (Suc k)
  have "unat (word_of_nat i :: u16) = i" using Suc.prems by (intro unat_word_of_nat_small) simp
  moreover have "[i..<i + Suc k] = i # [Suc i..<Suc i + k]" by (simp add: upt_conv_Cons)
  ultimately show ?case using Suc by (simp add: read_slot_eq)
qed simp

text \<open>Placing a new payload just below the free end and pointing slot \<open>i\<close> at it.\<close>

lemma slotted_install:
  assumes wf: "slotted_wf p" and dead: "i < sp_slots p \<Longrightarrow> slot_len p i = 0"
    and m: "i < m" "sp_slots p \<le> m" "\<And>j. j < m \<Longrightarrow> j \<noteq> i \<Longrightarrow> j < sp_slots p"
    and room: "6 + 4 * m + 1060 \<le> sp_free_end p"
    and q: "length q = 16384" "sp_slots q = m" "sp_free_start q = 6 + 4 * sp_slots q"
      "sp_free_end q = sp_free_end p - 1060" "slot_pos q i = sp_free_end p - 1060" "slot_len q i = 1060"
    and dir: "\<And>j. j \<noteq> i \<Longrightarrow> j < sp_slots p \<Longrightarrow> slot_pos q j = slot_pos p j \<and> slot_len q j = slot_len p j"
    and high: "\<And>a n. sp_free_end p \<le> a \<Longrightarrow> get_at q a n = get_at p a n"
  shows "slotted_wf q" "slot_row q = (slot_row p)(i \<mapsto> decode_row (slot_payload q i))"
proof -
  note w = slotted_wfD [OF wf]
  have ok: "slot_len p j = 0 \<or> slot_len p j = 1060 \<and> sp_free_end p \<le> slot_pos p j \<and> slot_pos p j + 1060 \<le> 16384"
    if "j < sp_slots p" for j
    using wf that by (auto simp: slotted_wf_def slots_ok_def)
  have old: "j < sp_slots p" if "j < sp_slots q" "j \<noteq> i" for j
    using that q m by auto
  have "slots_ok q"
    unfolding slots_ok_def payload_len_eq
  proof (intro allI impI)
    fix j assume j: "j < sp_slots q"
    show "slot_len q j = 0 \<or> slot_len q j = 1060 \<and> sp_free_end q \<le> slot_pos q j \<and> slot_pos q j + 1060 \<le> 16384"
    proof (cases "j = i")
      case True
      then show ?thesis using q w room by simp
    next
      case False
      then show ?thesis using ok [OF old [OF j False]] dir [OF False old [OF j False]] q by auto
    qed
  qed
  moreover have "slots_apart q"
    unfolding slots_apart_def payload_len_eq
  proof (intro allI impI)
    fix j k assume jk: "j < sp_slots q" "k < sp_slots q" "j \<noteq> k" "slot_len q j \<noteq> 0" "slot_len q k \<noteq> 0"
    have new: "sp_free_end p \<le> slot_pos q l" if "l < sp_slots q" "l \<noteq> i" "slot_len q l \<noteq> 0" for l
      using ok [OF old [OF that(1,2)]] dir [OF that(2) old [OF that(1,2)]] that(3) by auto
    show "slot_pos q j + 1060 \<le> slot_pos q k \<or> slot_pos q k + 1060 \<le> slot_pos q j"
    proof (cases "j = i \<or> k = i")
      case True
      then show ?thesis using new [of j] new [of k] jk q room by auto
    next
      case False
      then show ?thesis
        using jk wf old [of j] old [of k] dir [of j] dir [of k]
        by (auto simp: slotted_wf_def slots_apart_def)
    qed
  qed
  ultimately show "slotted_wf q"
    using q(1-4) room w(4) by (auto simp: slotted_wf_def)
  have "slot_row q j = ((slot_row p)(i \<mapsto> decode_row (slot_payload q i))) j" for j
  proof (cases "j = i")
    case True
    then show ?thesis using q m by (simp add: slot_row_def slot_live_def)
  next
    case False
    have l: "slot_live q j = slot_live p j"
      using False old [of j] dir [of j] q m(2) by (auto simp: slot_live_def)
    have "slot_payload q j = slot_payload p j" if "slot_live p j"
      using slot_liveD [OF wf that] dir [OF False] high by (simp add: slot_payload_def)
    then show ?thesis using False l by (simp add: slot_row_def)
  qed
  then show "slot_row q = (slot_row p)(i \<mapsto> decode_row (slot_payload q i))" by auto
qed

lemma insert_slot_cases:
  obtains (free) j where "List.find (\<lambda>j. slot_len p j = 0) [0..<sp_slots p] = Some j"
      "j < sp_slots p" "slot_len p j = 0" "insert_slot p = j"
  | (append) "List.find (\<lambda>j. slot_len p j = 0) [0..<sp_slots p] = None" "insert_slot p = sp_slots p"
  by (cases "List.find (\<lambda>j. slot_len p j = 0) [0..<sp_slots p]")
    (auto simp: insert_slot_def find_Some_iff)

lemma write_slot_eq:
  "6 + 4 * unat s + 4 \<le> length p \<Longrightarrow> write_slot p s a b =
     Ok (put_at (put_at p (6 + 4 * unat s) (to_le 2 a)) (6 + 4 * unat s + 2) (to_le 2 b))"
  by (simp add: write_slot_def slot_offset_def buf_simps)

lemma write_header_eq:
  "6 \<le> length p \<Longrightarrow> write_header p a b c =
     Ok (put_at (put_at (put_at p 0 (to_le 2 a)) 2 (to_le 2 b)) 4 (to_le 2 c))"
  by (simp add: write_header_def buf_simps)

lemma installed_ok:
  assumes wf: "slotted_wf p" and dead: "i < sp_slots p \<Longrightarrow> slot_len p i = 0"
    and m: "i < m" "sp_slots p \<le> m" "\<And>j. j < m \<Longrightarrow> j \<noteq> i \<Longrightarrow> j < sp_slots p"
    and room: "6 + 4 * m + 1060 \<le> sp_free_end p"
    and n': "unat n' = m" and fs': "unat fs' = 6 + 4 * unat n'"
    and kv: "length key = 16" "length v = 1024"
  shows "slotted_wf (installed p i n' fs' key v)"
    "slot_row (installed p i n' fs' key v) = (slot_row p)(i \<mapsto> fresh_row key v)"
    "sp_slots (installed p i n' fs' key v) = m"
proof -
  note w = slotted_wfD [OF wf]
  define off where "off = sp_free_end p - 1060"
  define q where "q = installed p i n' fs' key v"
  have offr: "off + 1060 = sp_free_end p" "6 + 4 * m \<le> off" "off < 65536"
    using room w by (auto simp: off_def)
  have i4: "6 + 4 * i + 4 \<le> off" using offr(2) m(1) by linarith
  have offu: "unat (word_of_nat off :: u16) = off" using offr by (intro unat_word_of_nat_small) simp
  have Qeq: "q = put_fields p (row_fields off key v @
      [(6 + 4 * i, to_le 2 (word_of_nat off :: u16)), (6 + 4 * i + 2, to_le 2 (1060 :: u16)),
       (0, to_le 2 n'), (2, to_le 2 fs'), (4, to_le 2 (word_of_nat off :: u16))])"
    by (simp only: q_def installed_def Let_def off_def)
  note Q = Qeq row_fields_def buf_simps w(1) kv
  have len: "length q = 16384" by (simp add: Q)
  have hdr: "sp_slots q = unat n'" "sp_free_start q = unat fs'" "sp_free_end q = off"
    using i4 by (simp_all add: sp_slots_def sp_free_start_def sp_free_end_def Q offu)
  have dir_i: "slot_pos q i = off" "slot_len q i = 1060"
    using i4 offr w by (simp_all add: slot_pos_def slot_len_def Q offu)
  have fr: "get_at q a n = get_at p a n"
    if "6 \<le> a" "a + n \<le> 6 + 4 * i \<or> 6 + 4 * i + 4 \<le> a" "a + n \<le> off \<or> sp_free_end p \<le> a" for a n
  proof -
    have d: "a + n \<le> off \<or> off + 1060 \<le> a" using that offr by simp
    show ?thesis
      unfolding q_def installed_def Let_def off_def [symmetric]
      by (rule get_at_put_fields_disjoint) (use that d kv in \<open>auto simp: row_fields_def\<close>)
  qed
  have dir: "slot_pos q j = slot_pos p j \<and> slot_len q j = slot_len p j" if "j \<noteq> i" "j < sp_slots p" for j
  proof -
    have d: "j + 1 \<le> i \<or> i + 1 \<le> j" using that(1) by linarith
    have "6 + 4 * j + 4 \<le> off" using offr(2) that(2) m(2) by linarith
    then have "get_at q (6 + 4 * j) 2 = get_at p (6 + 4 * j) 2" "get_at q (6 + 4 * j + 2) 2 = get_at p (6 + 4 * j + 2) 2"
      using d by (auto intro!: fr)
    then show ?thesis by (simp only: slot_pos_def slot_len_def)
  qed
  have pay: "decode_row (slot_payload q i) = fresh_row key v"
    using i4 offr w
    by (simp add: decode_row_def slot_payload_def get_at_get_at dir_i fresh_row_def ptr_of_parts_def)
      (simp add: Q)
  have high: "get_at q a n = get_at p a n" if "sp_free_end p \<le> a" for a n
    using that i4 offr by (intro fr) auto
  have hdr': "sp_slots q = m" "sp_free_start q = 6 + 4 * sp_slots q"
     "sp_free_end q = sp_free_end p - 1060" "slot_pos q i = sp_free_end p - 1060"
    using hdr n' fs' dir_i by (auto simp: off_def)
  note inst = slotted_install [OF wf dead m room len hdr' dir_i(2) dir high]
  show "slotted_wf (installed p i n' fs' key v)"
    "slot_row (installed p i n' fs' key v) = (slot_row p)(i \<mapsto> fresh_row key v)"
    "sp_slots (installed p i n' fs' key v) = m"
    using inst pay hdr' by (auto simp: q_def)
qed

lemma insert_record_space:
  assumes wf: "slotted_wf p"
  shows "unat (sat_sub (from_le (get_at p 4 2)) (from_le (get_at p 2 2)) :: u16) = sp_free_end p - sp_free_start p"
  by (simp add: unat_sat_sub sp_free_end_def sp_free_start_def)

lemma insert_record_full:
  assumes wf: "slotted_wf p" and kv: "length key = KEY_SIZE" "length v = VALUE_SIZE"
    and full: "sp_free_end p - sp_free_start p < insert_needed p"
  shows "insert_record p key v = Err (InvalidValueSize (insert_needed p) (sp_free_end p - sp_free_start p))"
proof -
  note w = slotted_wfD [OF wf]
  have ff: "find_free_slot p (from_le (get_at p 0 2)) = Ok (map_option word_of_nat (List.find (\<lambda>j. slot_len p j = 0) [0..<sp_slots p]))"
    using w by (simp add: find_free_slot_def find_free_from_eq flip: sp_slots_def)
  show ?thesis
    by (cases p rule: insert_slot_cases)
      (use full kv w in \<open>auto simp: insert_record_def read_header_eq ff insert_record_space [OF wf] insert_needed_def Let_def\<close>)
qed

lemma insert_record_installed:
  assumes wf: "slotted_wf p" and kv: "length key = KEY_SIZE" "length v = VALUE_SIZE"
    and room: "insert_needed p \<le> sp_free_end p - sp_free_start p"
  shows "\<exists>q. insert_record p key v = Ok (q, word_of_nat (insert_slot p)) \<and> slotted_wf q
    \<and> slot_row q = (slot_row p)(insert_slot p \<mapsto> fresh_row key v) \<and> slot_row p (insert_slot p) = None
    \<and> sp_slots q = (if insert_slot p = sp_slots p then sp_slots p + 1 else sp_slots p)"
proof -
  note w = slotted_wfD [OF wf]
  define i where "i = insert_slot p"
  define ap where "ap \<longleftrightarrow> i = sp_slots p"
  define n' :: u16 where "n' = (if ap then sat_add (from_le (get_at p 0 2)) 1 else from_le (get_at p 0 2))"
  define fs' :: u16 where "fs' = (if ap then sat_add (from_le (get_at p 2 2)) 4 else from_le (get_at p 2 2))"
  define m where "m = (if ap then sp_slots p + 1 else sp_slots p)"
  have nfs: "unat n' = m" "unat fs' = 6 + 4 * m"
    using w by (auto simp: n'_def fs'_def m_def unat_sat_add sp_slots_def sp_free_start_def)
  have ff: "find_free_slot p (from_le (get_at p 0 2)) = Ok (if ap then None else Some (word_of_nat i))"
    and dead: "i < sp_slots p \<Longrightarrow> slot_len p i = 0" and i: "i < m" "sp_slots p \<le> m"
    using w by (cases p rule: insert_slot_cases;
      auto simp: find_free_slot_def find_free_from_eq i_def ap_def m_def simp flip: sp_slots_def)+
  have m: "j < sp_slots p" if "j < m" "j \<noteq> i" for j
    using that by (auto simp: m_def ap_def split: if_splits)
  have r: "6 + 4 * m + 1060 \<le> sp_free_end p" and nf: "\<not> sp_free_end p - sp_free_start p < insert_needed p"
    using room w by (auto simp: insert_needed_def m_def ap_def i_def split: if_splits)
  have iu: "unat (word_of_nat i :: u16) = i" using i w(5) by (intro unat_word_of_nat_small) (simp add: m_def split: if_splits)
  have off: "unat (word_of_nat (sp_free_end p - 1060) :: u16) = sp_free_end p - 1060"
    using w by (intro unat_word_of_nat_small) simp
  have slot: "(if ap then from_le (get_at p 0 2) else word_of_nat i :: u16) = word_of_nat i"
    by (simp add: ap_def sp_slots_def)
  have rf: "write_fields p (row_fields (sp_free_end p - 1060) key v) = Ok (put_fields p (row_fields (sp_free_end p - 1060) key v))"
    by (rule write_fields_Ok) (use w r kv in \<open>auto simp: row_fields_def\<close>)
  have i4: "6 + 4 * i + 4 \<le> 16384" using i r w by linarith
  have free: "\<not> sp_free_end p - sp_free_start p < payload_len + (if ap then 4 else 0)"
    using nf by (simp add: insert_needed_def ap_def i_def split: if_splits)
  have "insert_record p key v = Ok (installed p i n' fs' key v, word_of_nat i)"
    using w kv i4 free off slot
    by (simp add: insert_record_def read_header_eq ff insert_record_space [OF wf] Let_def rf iu
        write_slot_eq write_header_eq installed_def put_fields_append n'_def fs'_def
        split: if_splits flip: sp_free_end_def)
  then show ?thesis
    using installed_ok [OF wf dead i m r nfs(1)] nfs kv dead
    by (auto simp: i_def [symmetric] m_def ap_def slot_row_def slot_live_def)
qed

lemma live_slots_iff: "j \<in> set (live_slots p) \<longleftrightarrow> slot_live p j"
  by (auto simp: live_slots_def slot_live_def)

lemma distinct_live_slots: "distinct (live_slots p)"
  by (simp add: live_slots_def)

lemma collect_live_eq:
  assumes wf: "slotted_wf p"
  shows "i + k \<le> sp_slots p \<Longrightarrow> collect_live p i k =
    Ok (map (\<lambda>j. (word_of_nat j, slot_payload p j)) (filter (\<lambda>j. slot_len p j \<noteq> 0) [i..<i + k]))"
proof (induction k arbitrary: i)
  case (Suc k)
  note w = slotted_wfD [OF wf]
  have iu: "unat (word_of_nat i :: u16) = i" using Suc.prems w(5) by (intro unat_word_of_nat_small) simp
  have up: "[i..<i + Suc k] = i # [Suc i..<Suc i + k]" by (simp add: upt_conv_Cons)
  have rs: "read_slot p (word_of_nat i) = Ok (word_of_nat (slot_pos p i), word_of_nat (slot_len p i))"
    using Suc.prems w by (simp add: read_slot_eq iu)
  have IH: "collect_live p (Suc i) k = Ok (map (\<lambda>j. (word_of_nat j, slot_payload p j)) (filter (\<lambda>j. slot_len p j \<noteq> 0) [Suc i..<Suc i + k]))"
    using Suc.prems by (intro Suc.IH) simp
  show ?case
  proof (cases "slot_len p i = 0")
    case True
    then show ?thesis by (simp only: up) (simp add: rs IH)
  next
    case False
    then have "slot_live p i" using Suc.prems by (simp add: slot_live_def)
    note D = slot_liveD [OF wf this]
    show ?thesis using D w by (simp only: up) (simp add: rs IH buf_simps slot_payload_def)
  qed
qed simp

lemma pack_live_ok:
  assumes "length p = 16384" and "distinct (map fst js)" and "\<forall>(j, bs) \<in> set js. j < n \<and> length bs = 1060"
    and "fe \<le> 16384" and "6 + 4 * n + 1060 * length js \<le> fe"
  shows "\<exists>q. pack_live p (word_of_nat fe) (map (\<lambda>(j, bs). (word_of_nat j, bs)) js)
      = Ok (q, word_of_nat (fe - 1060 * length js)) \<and> packed n p fe js q"
  using assms
proof (induction js arbitrary: p fe)
  case Nil
  then show ?case by (auto simp: packed_def)
next
  case (Cons x js)
  obtain j bs where x: "x = (j, bs)" by (cases x)
  have j: "j < n" and bs: "length bs = 1060" using Cons.prems x by auto
  define np where "np = fe - 1060"
  have np: "np + 1060 = fe" "6 + 4 * n + 1060 * length js \<le> np" "np \<le> 16384"
    using Cons.prems by (auto simp: np_def)
  have j4: "6 + 4 * j + 4 \<le> np" using np(2) j by linarith
  have feu: "unat (word_of_nat fe :: u16) = fe" and ju: "unat (word_of_nat j :: u16) = j"
    and npu: "unat (word_of_nat np :: u16) = np"
    using Cons.prems(4) np j4 by (auto intro!: unat_word_of_nat_small)
  define p1 where "p1 = put_at p np bs"
  define p2 where "p2 = put_at (put_at p1 (6 + 4 * j) (to_le 2 (word_of_nat np :: u16))) (6 + 4 * j + 2) (to_le 2 (1060 :: u16))"
  have sub: "chk_sub (word_of_nat fe :: u16) (word_of_nat 1060) = Ok (word_of_nat np)"
    using np by (simp add: chk_sub_def word_le_nat_alt feu np_def of_nat_diff)
  have step: "pack_live p (word_of_nat fe) (map (\<lambda>(j, bs). (word_of_nat j, bs)) (x # js))
      = pack_live p2 (word_of_nat np) (map (\<lambda>(j, bs). (word_of_nat j, bs)) js)"
    using Cons.prems(1,4) np j4 sub
    by (simp add: x bs npu buf_simps write_slot_eq ju p2_def p1_def)
  have len2: "length p2 = 16384" using Cons.prems(1) by (simp add: p2_def p1_def)
  obtain q where q: "pack_live p2 (word_of_nat np) (map (\<lambda>(j, bs). (word_of_nat j, bs)) js)
      = Ok (q, word_of_nat (np - 1060 * length js))" and pk: "packed n p2 np js q"
    using Cons.IH [OF len2 _ _ np(3,2)] Cons.prems by auto
  have dir2: "slot_pos p2 j = np" "slot_len p2 j = 1060" "get_at p2 np 1060 = bs"
    using Cons.prems(1,4) np j4 bs by (simp_all add: slot_pos_def slot_len_def p2_def p1_def buf_simps npu)
  have fr2: "get_at p2 a k = get_at p a k"
    if "a + k \<le> 6 + 4 * j \<or> 6 + 4 * j + 4 \<le> a" "a + k \<le> np \<or> fe \<le> a" for a k
  proof -
    have "p2 = put_fields p [(np, bs), (6 + 4 * j, to_le 2 (word_of_nat np :: u16)), (6 + 4 * j + 2, to_le 2 (1060 :: u16))]"
      by (simp add: p2_def p1_def)
    moreover have "a + k \<le> np \<or> np + 1060 \<le> a" using that(2) np(1) by simp
    ultimately show ?thesis
      using that(1) bs by (simp only:) (rule get_at_put_fields_disjoint, auto)
  qed
  have oth2: "slot_pos p2 i = slot_pos p i \<and> slot_len p2 i = slot_len p i" if "i < n" "i \<noteq> j" for i
  proof -
    have d: "i + 1 \<le> j \<or> j + 1 \<le> i" "6 + 4 * i + 4 \<le> np" using that np(2) by linarith+
    then have "get_at p2 (6 + 4 * i) 2 = get_at p (6 + 4 * i) 2" "get_at p2 (6 + 4 * i + 2) 2 = get_at p (6 + 4 * i + 2) 2"
      by (auto intro!: fr2)
    then show ?thesis by (simp only: slot_pos_def slot_len_def)
  qed
  have jn: "j \<notin> fst ` set js" using Cons.prems(2) x by force
  have "packed n p fe (x # js) q"
    unfolding packed_def
  proof (intro conjI allI impI)
    show "length q = 16384" using pk by (simp add: packed_def)
  next
    fix a k :: nat assume "a + k \<le> 6 \<or> fe \<le> a"
    moreover from this have "get_at q a k = get_at p2 a k" using pk np by (auto simp: packed_def)
    ultimately show "get_at q a k = get_at p a k" using fr2 [of a k] j4 np by auto
  next
    fix i assume "i < n" "i \<notin> fst ` set (x # js)"
    then show "slot_pos q i = slot_pos p i" "slot_len q i = slot_len p i"
      using pk oth2 [of i] by (auto simp: packed_def x)
  next
    fix m assume m: "m < length (x # js)"
    have *: "slot_pos q (fst ((x # js) ! m)) = fe - 1060 * (m + 1) \<and> slot_len q (fst ((x # js) ! m)) = 1060
      \<and> get_at q (fe - 1060 * (m + 1)) 1060 = snd ((x # js) ! m)"
    proof (cases m)
      case 0
      then show ?thesis using pk dir2 jn j np by (auto simp: packed_def x np_def)
    next
      case (Suc m')
      then show ?thesis using pk m by (auto simp: packed_def np_def)
    qed
    then show "slot_pos q (fst ((x # js) ! m)) = fe - 1060 * (m + 1)" "slot_len q (fst ((x # js) ! m)) = 1060"
      "get_at q (fe - 1060 * (m + 1)) 1060 = snd ((x # js) ! m)" by blast+
  qed
  then show ?case using step q np by (auto simp: np_def)
qed

text \<open>Counting: disjoint payloads above the free end.\<close>

lemma live_slots_fit:
  assumes wf: "slotted_wf p"
  shows "1060 * length (live_slots p) \<le> 16384 - sp_free_end p"
proof -
  let ?I = "\<lambda>j. {slot_pos p j ..< slot_pos p j + 1060}" and ?L = "set (live_slots p)"
  have "card (\<Union>j\<in>?L. ?I j) = (\<Sum>j\<in>?L. card (?I j))"
  proof (rule card_UN_disjoint)
    show "\<forall>i\<in>?L. \<forall>j\<in>?L. i \<noteq> j \<longrightarrow> ?I i \<inter> ?I j = {}"
    proof (intro ballI impI)
      fix i j assume "i \<in> ?L" "j \<in> ?L" "i \<noteq> j"
      then have "slot_pos p i + 1060 \<le> slot_pos p j \<or> slot_pos p j + 1060 \<le> slot_pos p i"
        using slot_live_apart [OF wf] by (simp add: live_slots_iff)
      then show "?I i \<inter> ?I j = {}" by auto
    qed
  qed auto
  also have "\<dots> = 1060 * length (live_slots p)"
    by (simp add: distinct_card distinct_live_slots)
  finally have "1060 * length (live_slots p) = card (\<Union>j\<in>?L. ?I j)" ..
  also have "\<dots> \<le> card {sp_free_end p ..< 16384}"
    by (rule card_mono) (use slot_liveD [OF wf] in \<open>force simp: live_slots_iff\<close>)+
  finally show ?thesis by simp
qed

lemma packed_page_ok:
  assumes wf: "slotted_wf p" and pk: "packed (sp_slots p) p 16384 (map (\<lambda>j. (j, slot_payload p j)) (live_slots p)) q"
    and r: "length r = 16384" "sp_slots r = sp_slots p" "sp_free_start r = sp_free_start p"
      "sp_free_end r = 16384 - 1060 * length (live_slots p)" "\<And>a k. 6 \<le> a \<Longrightarrow> get_at r a k = get_at q a k"
  shows "slotted_wf r" "slot_row r = slot_row p"
proof -
  note w = slotted_wfD [OF wf] and fit = live_slots_fit [OF wf]
  define L where "L = live_slots p"
  have dir: "slot_pos r j = slot_pos q j" "slot_len r j = slot_len q j" for j
    by (simp_all add: slot_pos_def slot_len_def r(5))
  have dead: "slot_len r j = 0" if "j < sp_slots p" "\<not> slot_live p j" for j
    using pk that by (auto simp: packed_def dir live_slots_iff image_iff slot_live_def)
  have live: "\<exists>m < length L. L ! m = j \<and> slot_pos r j = 16384 - 1060 * (m + 1) \<and> slot_len r j = 1060
      \<and> slot_payload r j = slot_payload p j" if l: "slot_live p j" for j
  proof -
    obtain m where m: "m < length L" "L ! m = j"
      using l by (metis in_set_conv_nth live_slots_iff L_def)
    have pos: "slot_pos q j = 16384 - 1060 * (m + 1)" "slot_len q j = 1060"
        "get_at q (16384 - 1060 * (m + 1)) 1060 = slot_payload p j"
      using pk m by (auto simp: packed_def L_def)
    have "1060 * (m + 1) \<le> 1060 * length L" using m by simp
    also have "\<dots> \<le> 16384 - 6" using fit w by (simp add: L_def)
    finally have "6 \<le> slot_pos q j" using pos by simp
    then have "slot_payload r j = slot_payload p j" using r(5) pos by (simp add: slot_payload_def dir)
    then show ?thesis using m pos by (auto simp: dir)
  qed
  have live_eq: "slot_live r j = slot_live p j" for j
  proof (cases "slot_live p j")
    case True
    then show ?thesis using live [OF True] slot_liveD(1) [OF wf True] r(2) by (auto simp: slot_live_def)
  next
    case False
    then show ?thesis using dead [of j] r(2) by (auto simp: slot_live_def)
  qed
  have inj: "m = m'" if "m < length L" "m' < length L" "L ! m = L ! m'" for m m'
    using that distinct_live_slots [of p] by (simp add: L_def nth_eq_iff_index_eq)
  have le: "1060 * (m + 1) \<le> 1060 * length L" "1060 * length L \<le> 16384" if "m < length L" for m
    using that fit by (auto simp: L_def)
  have "slots_ok r"
    unfolding slots_ok_def payload_len_eq
  proof (intro allI impI)
    fix j assume j: "j < sp_slots r"
    show "slot_len r j = 0 \<or> slot_len r j = 1060 \<and> sp_free_end r \<le> slot_pos r j \<and> slot_pos r j + 1060 \<le> 16384"
    proof (cases "slot_live p j")
      case True
      from live [OF this] obtain m where "m < length L" "slot_pos r j = 16384 - 1060 * (m + 1)" "slot_len r j = 1060"
        by blast
      then show ?thesis using le [of m] r(4) by (auto simp: L_def)
    next
      case False
      then show ?thesis using dead j r(2) by simp
    qed
  qed
  moreover have "slots_apart r"
    unfolding slots_apart_def payload_len_eq
  proof (intro allI impI)
    fix i j assume ij: "i < sp_slots r" "j < sp_slots r" "i \<noteq> j" "slot_len r i \<noteq> 0" "slot_len r j \<noteq> 0"
    have "slot_live p i" "slot_live p j" using ij live_eq by (auto simp: slot_live_def)
    from live [OF this(1)] live [OF this(2)] obtain m m' where
      m: "m < length L" "L ! m = i" "slot_pos r i = 16384 - 1060 * (m + 1)" and
      m': "m' < length L" "L ! m' = j" "slot_pos r j = 16384 - 1060 * (m' + 1)" by blast
    have "m + 1 \<le> m' \<or> m' + 1 \<le> m" using ij(3) m m' by (metis Suc_eq_plus1 linorder_neqE_nat Suc_leI)
    then show "slot_pos r i + 1060 \<le> slot_pos r j \<or> slot_pos r j + 1060 \<le> slot_pos r i"
      using m m' le [of m] le [of m'] by auto
  qed
  ultimately show "slotted_wf r"
    using r(1-4) w fit by (auto simp: slotted_wf_def)
  show "slot_row r = slot_row p"
  proof
    fix j
    show "slot_row r j = slot_row p j" using live [of j] by (auto simp: slot_row_def live_eq)
  qed
qed

lemma defragment_ok:
  assumes wf: "slotted_wf p"
  shows "\<exists>r. defragment p = Ok r \<and> slotted_wf r \<and> slot_row r = slot_row p \<and> sp_slots r = sp_slots p
    \<and> sp_free_end r = 16384 - 1060 * length (live_slots p)"
proof -
  note w = slotted_wfD [OF wf] and fit = live_slots_fit [OF wf]
  define js where "js = map (\<lambda>j. (j, slot_payload p j)) (live_slots p)"
  define fe where "fe = 16384 - 1060 * length (live_slots p)"
  have cl: "collect_live p 0 (sp_slots p) = Ok (map (\<lambda>(j, bs). (word_of_nat j, bs)) js)"
    using collect_live_eq [OF wf, of 0 "sp_slots p"] by (simp add: live_slots_def js_def o_def)
  have lens: "\<forall>(j, bs) \<in> set js. j < sp_slots p \<and> length bs = 1060"
    using slot_liveD(1) [OF wf] length_slot_payload [OF wf] by (auto simp: js_def live_slots_iff)
  have dj: "distinct (map fst js)" by (simp add: js_def o_def distinct_live_slots)
  have "6 + 4 * sp_slots p + 1060 * length js \<le> 16384" using w fit by (simp add: js_def)
  moreover have "fe = 16384 - 1060 * length js" by (simp add: fe_def js_def)
  ultimately obtain q
    where q: "pack_live p (word_of_nat 16384) (map (\<lambda>(j, bs). (word_of_nat j, bs)) js) = Ok (q, word_of_nat fe)"
      and pk: "packed (sp_slots p) p 16384 js q"
    using pack_live_ok [OF w(1) dj lens order.refl] by blast
  define r where "r = put_at (put_at (put_at q 0 (to_le 2 (from_le (get_at p 0 2) :: u16))) 2
      (to_le 2 (from_le (get_at p 2 2) :: u16))) 4 (to_le 2 (word_of_nat fe :: u16))"
  have feu: "unat (word_of_nat fe :: u16) = fe" by (rule unat_word_of_nat_small) (simp add: fe_def)
  have lq: "length q = 16384" using pk by (simp add: packed_def)
  have "defragment p = Ok r"
    using w q [simplified] by (simp add: defragment_def read_header_eq cl [unfolded sp_slots_def] write_header_eq lq r_def)
  moreover have r: "length r = 16384" "sp_slots r = sp_slots p" "sp_free_start r = sp_free_start p"
      "sp_free_end r = 16384 - 1060 * length (live_slots p)"
      "\<And>a k. 6 \<le> a \<Longrightarrow> get_at r a k = get_at q a k"
    using feu by (simp_all add: r_def lq buf_simps sp_slots_def sp_free_start_def sp_free_end_def fe_def [symmetric])
  ultimately show ?thesis
    using packed_page_ok [OF wf pk [unfolded js_def] r] by auto
qed

section \<open>The row store contract\<close>

text \<open>What the callers of a data page rely on: inserting binds a fresh row to a slot that was empty,
  updating replaces the value of a row with the given key, and both keep every other row.\<close>

locale row_store =
  fixes inv :: "'p \<Rightarrow> bool" and rows :: "'p \<Rightarrow> nat \<Rightarrow> row option" and fits :: "'p \<Rightarrow> bool"
    and ins :: "'p \<Rightarrow> bytes \<Rightarrow> bytes \<Rightarrow> ('p \<times> u16) res"
    and upd :: "'p \<Rightarrow> u16 \<Rightarrow> bytes \<Rightarrow> bytes \<Rightarrow> 'p res"
    and get :: "'p \<Rightarrow> u16 \<Rightarrow> bytes \<Rightarrow> bytes option res"
  assumes ins_ok: "inv p \<Longrightarrow> fits p \<Longrightarrow> length k = KEY_SIZE \<Longrightarrow> length v = VALUE_SIZE \<Longrightarrow>
      \<exists>q s. ins p k v = Ok (q, s) \<and> inv q \<and> rows p (unat s) = None \<and> rows q = (rows p)(unat s \<mapsto> fresh_row k v)"
    and upd_ok: "inv p \<Longrightarrow> rows p (unat s) = Some r \<Longrightarrow> row_key r = k \<Longrightarrow> length k = KEY_SIZE \<Longrightarrow>
      length v = VALUE_SIZE \<Longrightarrow>
      \<exists>q. upd p s k v = Ok q \<and> inv q \<and> rows q = (rows p)(unat s \<mapsto> r\<lparr>row_value := v\<rparr>)"
    and get_ok: "inv p \<Longrightarrow> rows p (unat s) = Some r \<Longrightarrow>
      get p s k = Ok (if row_key r = k \<and> row_flags r AND FLAG_TOMBSTONE = 0 then Some (row_value r) else None)"
begin

lemma get_after_ins:
  assumes "inv p" and "fits p" and "length k = KEY_SIZE" and "length v = VALUE_SIZE"
  shows "\<exists>q s. ins p k v = Ok (q, s) \<and> inv q \<and> rows p (unat s) = None
    \<and> rows q = (rows p)(unat s \<mapsto> fresh_row k v) \<and> get q s k = Ok (Some v)"
proof -
  obtain q s where q: "ins p k v = Ok (q, s)" "inv q" "rows p (unat s) = None" "rows q = (rows p)(unat s \<mapsto> fresh_row k v)"
    using ins_ok [OF assms] by blast
  then have "get q s k = Ok (Some v)" using get_ok [of q s "fresh_row k v" k] by (simp add: fresh_row_def)
  then show ?thesis using q by blast
qed

lemma get_after_upd:
  assumes "inv p" and "get p s k = Ok (Some v0)" and "rows p (unat s) \<noteq> None"
    and "length k = KEY_SIZE" and "length v = VALUE_SIZE"
  shows "\<exists>q. upd p s k v = Ok q \<and> inv q \<and> get q s k = Ok (Some v)
    \<and> (\<forall>t k'. unat t \<noteq> unat s \<longrightarrow> rows p (unat t) \<noteq> None \<longrightarrow> get q t k' = get p t k')"
proof -
  obtain r where r: "rows p (unat s) = Some r" using assms(3) by blast
  then have k: "row_key r = k" and fl: "row_flags r AND FLAG_TOMBSTONE = 0"
    using assms(2) get_ok [OF assms(1) r, of k] by (auto split: if_splits)
  obtain q where q: "upd p s k v = Ok q" "inv q" "rows q = (rows p)(unat s \<mapsto> r\<lparr>row_value := v\<rparr>)"
    using upd_ok [OF assms(1) r k assms(4,5)] by blast
  have "get q t k' = get p t k'" if "unat t \<noteq> unat s" "rows p (unat t) \<noteq> None" for t k'
    using that q get_ok [OF assms(1), of t] get_ok [OF q(2), of t] by auto
  moreover have "get q s k = Ok (Some v)"
    using get_ok [OF q(2), of s "r\<lparr>row_value := v\<rparr>" k] q(3) k fl by simp
  ultimately show ?thesis using q by blast
qed

end

lemma unat_insert_slot: "slotted_wf p \<Longrightarrow> unat (word_of_nat (insert_slot p) :: u16) = insert_slot p"
  using slotted_wfD(5) [of p] by (cases p rule: insert_slot_cases) (auto intro!: unat_word_of_nat_small)

lemma slot_row_SomeD: "slot_row p i = Some r \<Longrightarrow> i < sp_slots p"
  by (auto simp: slot_row_def slot_live_def split: if_splits)

interpretation sp: row_store slotted_wf slot_row slotted_fits insert_record overwrite_value read_value
proof unfold_locales
  fix p k v :: bytes assume p: "slotted_wf p" "slotted_fits p" "length k = KEY_SIZE" "length v = VALUE_SIZE"
  show "\<exists>q s. insert_record p k v = Ok (q, s) \<and> slotted_wf q \<and> slot_row p (unat s) = None
      \<and> slot_row q = (slot_row p)(unat s \<mapsto> fresh_row k v)"
    using insert_record_installed [OF p(1,3,4)] p(2) unat_insert_slot [OF p(1)]
    by (auto simp: slotted_fits_def)
next
  fix p :: bytes and s :: u16 and r k and v :: bytes assume p: "slotted_wf p" "slot_row p (unat s) = Some r" "row_key r = k" "length k = KEY_SIZE" "length v = VALUE_SIZE"
  show "\<exists>q. overwrite_value p s k v = Ok q \<and> slotted_wf q \<and> slot_row q = (slot_row p)(unat s \<mapsto> r\<lparr>row_value := v\<rparr>)"
    using overwrite_value_ok [OF p(1) slot_row_SomeD [OF p(2)] p(4,5)] p(2,3) by (auto simp: row_updated_def)
next
  fix p and s :: u16 and r k assume p: "slotted_wf p" "slot_row p (unat s) = Some r"
  show "read_value p s k = Ok (if row_key r = k \<and> row_flags r AND FLAG_TOMBSTONE = 0 then Some (row_value r) else None)"
    using read_field_eqs(1) [OF p(1) slot_row_SomeD [OF p(2)]] p(2) by (simp add: row_for_def)
qed

lemma page_free_space_eq: "slotted_wf p \<Longrightarrow> page_free_space p = Ok (sp_free_end p - sp_free_start p)"
  using slotted_wfD(1) [of p] by (simp add: page_free_space_def read_header_eq insert_record_space)

lemma slotted_new_page_wf: "slotted_wf slotted_new_page" "slot_row slotted_new_page = (\<lambda>_. None)"
    "slotted_fits slotted_new_page" "sp_slots slotted_new_page = 0"
proof -
  have h: "sp_slots slotted_new_page = 0" "sp_free_start slotted_new_page = 6" "sp_free_end slotted_new_page = 16384"
    by (simp_all add: sp_slots_def sp_free_start_def sp_free_end_def slotted_new_page_def buf_simps unat_word_of_nat_small)
  then show "slotted_wf slotted_new_page" "sp_slots slotted_new_page = 0"
    by (simp_all add: slotted_wf_def slots_ok_def slots_apart_def) (simp add: slotted_new_page_def)
  show "slot_row slotted_new_page = (\<lambda>_. None)" by (simp add: slot_row_def slot_live_def h fun_eq_iff)
  show "slotted_fits slotted_new_page" by (simp add: slotted_fits_def insert_needed_def h)
qed

section \<open>Properties\<close>

text \<open>C15: Inserting a record into a well-formed page with room for it succeeds, returns a slot that held
  no row, keeps the page well-formed and binds exactly that slot to the new row (commit LSN 0, no undo
  pointer, no flags), so that reading the slot back gives the value; without room the call reports the
  space it needs and the space there is.\<close>

theorem slotted_insert_refines:
  assumes "slotted_wf p" and "length key = KEY_SIZE" and "length v = VALUE_SIZE"
  shows "if slotted_fits p
     then \<exists>q s. insert_record p key v = Ok (q, s) \<and> slotted_wf q \<and> slot_row p (unat s) = None
            \<and> slot_row q = (slot_row p)(unat s \<mapsto> fresh_row key v) \<and> read_value q s key = Ok (Some v)
     else \<exists>free. page_free_space p = Ok free \<and> free < insert_needed p
            \<and> insert_record p key v = Err (InvalidValueSize (insert_needed p) free)"
proof (cases "slotted_fits p")
  case True
  then show ?thesis using sp.get_after_ins [OF assms(1) True assms(2,3)] by simp
next
  case False
  then show ?thesis
    using insert_record_full [OF assms] page_free_space_eq [OF assms(1)] by (simp add: slotted_fits_def)
qed

theorem slotted_insert_refines_witness:
  "\<exists>q s. insert_record slotted_new_page (replicate KEY_SIZE 7) (replicate VALUE_SIZE 9) = Ok (q, s)
     \<and> read_value q s (replicate KEY_SIZE 7) = Ok (Some (replicate VALUE_SIZE 9))"
  using slotted_insert_refines [OF slotted_new_page_wf(1), of "replicate KEY_SIZE 7" "replicate VALUE_SIZE 9"]
    slotted_new_page_wf(3) by auto

text \<open>C25: Defragmenting a well-formed page succeeds, keeps it well-formed, changes no row and no slot id,
  and leaves all space that live rows and the slot directory do not use free.\<close>

theorem defragment_preserves_rows:
  assumes "slotted_wf p"
  shows "\<exists>q. defragment p = Ok q \<and> slotted_wf q \<and> slot_row q = slot_row p \<and> slot_count q = slot_count p
    \<and> page_free_space q = Ok (PAGE_SIZE - PAGE_HEADER_SIZE - SLOT_ENTRY_SIZE * sp_slots p
        - payload_len * card (dom (slot_row p)))"
proof -
  obtain q where q: "defragment p = Ok q" "slotted_wf q" "slot_row q = slot_row p" "sp_slots q = sp_slots p"
      "sp_free_end q = 16384 - 1060 * length (live_slots p)"
    using defragment_ok [OF assms] by blast
  have "dom (slot_row p) = set (live_slots p)" by (auto simp: dom_def slot_row_def live_slots_iff)
  then have c: "card (dom (slot_row p)) = length (live_slots p)" by (simp add: distinct_card distinct_live_slots)
  have "page_free_space q = Ok (16384 - 6 - 4 * sp_slots p - 1060 * length (live_slots p))"
    using page_free_space_eq [OF q(2)] slotted_wfD(2) [OF q(2)] q(4,5) by simp
  moreover have "slot_count q = slot_count p"
    using slotted_wfD(1) [OF q(2)] slotted_wfD(1) [OF assms] q(4)
    by (simp add: slot_count_def read_header_eq sp_slots_def word_unat_eq_iff)
  ultimately show ?thesis using q c by auto
qed

theorem defragment_preserves_rows_witness:
  "\<exists>q. defragment slotted_new_page = Ok q \<and> page_free_space q = Ok 16378"
  using defragment_preserves_rows [OF slotted_new_page_wf(1)] by (auto simp: slotted_new_page_wf)

text \<open>The write-ahead-log put at a given slot of a well-formed page: a visible row with the same key
  gets the new value and keeps its multi-version header, a row with another key or a tombstone is refused
  as a mismatch, and an empty or new slot becomes an insertion. In every successful case the page stays
  well-formed.\<close>

theorem slot_checked_put:
  assumes wf: "slotted_wf p" and k: "length key = KEY_SIZE" and v: "length v = VALUE_SIZE"
  shows "case slot_row p (unat s) of
      Some r \<Rightarrow>
        if row_key r = key \<and> row_flags r AND FLAG_TOMBSTONE = 0
        then \<exists>q. insert_record_at_slot_checked p s key v = Ok q \<and> slotted_wf q
               \<and> slot_row q = (slot_row p)(unat s \<mapsto> r\<lparr>row_value := v\<rparr>)
        else insert_record_at_slot_checked p s key v = invalid_input ''wal slot key mismatch''
    | None \<Rightarrow> insert_record_at_slot_checked p s key v = res_map fst (insert_record p key v)"
proof -
  note w = slotted_wfD [OF wf]
  have lt: "s < from_le (get_at p 0 2) \<longleftrightarrow> unat s < sp_slots p" by (simp add: word_less_nat_alt sp_slots_def)
  have live: "slot_live p (unat s) \<longleftrightarrow> unat s < sp_slots p \<and> slot_len p (unat s) \<noteq> 0" by (simp add: slot_live_def)
  show ?thesis
  proof (cases "slot_row p (unat s)")
    case None
    then show ?thesis
      using k v w read_field_eqs(1) [OF wf, of s key]
      by (auto simp: insert_record_at_slot_checked_def read_header_eq lt read_slot_eq row_for_def Let_def
          slot_row_def live split: if_splits)
  next
    case (Some r)
    note i = slot_row_SomeD [OF Some]
    have "slot_len p (unat s) \<noteq> 0" using Some by (auto simp: slot_row_def live split: if_splits)
    then show ?thesis
      using k v w sp.get_ok [OF wf Some, of key] sp.upd_ok [OF wf Some _ k v] i Some
      by (auto simp: insert_record_at_slot_checked_def read_header_eq lt read_slot_eq Let_def)
  qed
qed

theorem slot_checked_put_witness:
  "\<exists>q. insert_record_at_slot_checked slotted_new_page 5 (replicate KEY_SIZE 7) (replicate VALUE_SIZE 9) = Ok q
     \<and> (\<exists>i. slot_row q i = Some (fresh_row (replicate KEY_SIZE 7) (replicate VALUE_SIZE 9)))"
  using slot_checked_put [OF slotted_new_page_wf(1), of "replicate KEY_SIZE 7" "replicate VALUE_SIZE 9" 5]
    sp.get_after_ins [OF slotted_new_page_wf(1,3), of "replicate KEY_SIZE 7" "replicate VALUE_SIZE 9"]
  by (auto simp: slotted_new_page_wf(2) res_map_def)

text \<open>Marking a row as a tombstone hides its value, sets exactly the tombstone bit of its flags and
  keeps its commit LSN, its undo pointer and every other row of the page.\<close>

theorem tombstone_hides_value:
  assumes "slotted_wf p" and "slot_row p (unat s) = Some r"
  shows "\<exists>q. mark_tombstone p s = Ok q \<and> slotted_wf q
    \<and> read_value q s (row_key r) = Ok None
    \<and> read_flags q s (row_key r) = Ok (Some (row_flags r OR FLAG_TOMBSTONE))
    \<and> read_commit_lsn q s (row_key r) = read_commit_lsn p s (row_key r)
    \<and> read_undo_ptr q s (row_key r) = read_undo_ptr p s (row_key r)
    \<and> (\<forall>i. i \<noteq> unat s \<longrightarrow> slot_row q i = slot_row p i)"
proof -
  note i = slot_row_SomeD [OF assms(2)]
  obtain q where q: "mark_tombstone p s = Ok q" and u: "row_updated p (unat s) (\<lambda>r. r\<lparr>row_flags := row_flags r OR FLAG_TOMBSTONE\<rparr>) q"
    using mark_tombstone_ok [OF assms(1) i] by blast
  have wq: "slotted_wf q" and iq: "unat s < sp_slots q"
    and row: "row_for q s (row_key r) = Some (r\<lparr>row_flags := row_flags r OR FLAG_TOMBSTONE\<rparr>)"
    and oth: "\<forall>i. i \<noteq> unat s \<longrightarrow> slot_row q i = slot_row p i"
    using u i assms(2) by (auto simp: row_updated_def row_for_def)
  have rp: "row_for p s (row_key r) = Some r" using assms(2) by (simp add: row_for_def)
  have "(row_flags r OR 1) AND 1 = (1 :: u16)"
    by (rule bit_word_eqI) (auto simp: bit_simps)
  then show ?thesis
    using q wq oth by (simp add: read_field_eqs [OF wq iq] read_field_eqs [OF assms(1) i] row rp)
qed

theorem tombstone_hides_value_witness:
  "\<exists>p s q. slotted_wf p \<and> mark_tombstone p s = Ok q \<and> read_value p s (replicate KEY_SIZE 7) = Ok (Some (replicate VALUE_SIZE 9))
     \<and> read_value q s (replicate KEY_SIZE 7) = Ok None"
proof -
  obtain p and s :: u16 where p: "slotted_wf p" "slot_row p (unat s) = Some (fresh_row (replicate KEY_SIZE 7) (replicate VALUE_SIZE 9))"
      "read_value p s (replicate KEY_SIZE 7) = Ok (Some (replicate VALUE_SIZE 9))"
    using sp.get_after_ins [OF slotted_new_page_wf(1,3), of "replicate KEY_SIZE 7" "replicate VALUE_SIZE 9"]
    by (metis fun_upd_same length_replicate)
  show ?thesis
    using tombstone_hides_value [OF p(1,2)] p by (auto simp: fresh_row_def)
qed

end
