(* ===== verification/Meta_Pages.thy ===== *)
theory Meta_Pages
  imports Common
begin

text \<open>
  The two bootstrap pages: the engine's meta page (\<open>meta_page.rs\<close>: allocation counters, free undo pages
  and the undo history list) and the B+-tree meta page (\<open>btree_meta.rs\<close>: the root page id). The lemmas are
  the encode/decode round trips, the rejection of foreign pages, and the stack behaviour of the free list.
\<close>

section \<open>Meta page\<close>

abbreviation (input) UNDO_FREE_CAP :: nat where "UNDO_FREE_CAP \<equiv> 1024"
abbreviation (input) OFF_UNDO_FREE_LEN :: nat where "OFF_UNDO_FREE_LEN \<equiv> 44"
abbreviation (input) OFF_UNDO_FREE_IDS :: nat where "OFF_UNDO_FREE_IDS \<equiv> 48"
abbreviation (input) OFF_UNDO_HISTORY_HEAD :: nat where "OFF_UNDO_HISTORY_HEAD \<equiv> 8240"
abbreviation (input) OFF_UNDO_HISTORY_TAIL :: nat where "OFF_UNDO_HISTORY_TAIL \<equiv> 8248"

record meta_page =
  mp_root_page_id :: u64
  mp_next_bptree_page_id :: u64
  mp_next_data_page_id :: u64
  mp_next_undo_page_id :: u64
  mp_undo_free :: "u64 list"
  mp_undo_history_head :: u64
  mp_undo_history_tail :: u64

text \<open>The magic \<open>SKVMETA\<close> followed by a zero byte.\<close>

definition meta_magic :: bytes where
  "meta_magic = [83, 75, 86, 77, 69, 84, 65, 0]"

text \<open>The loop that stores the free page ids one after the other from \<open>off\<close> on.\<close>

fun id_fields :: "nat \<Rightarrow> u64 list \<Rightarrow> (nat \<times> bytes) list" where
  "id_fields off [] = []"
| "id_fields off (pid # pids) = (off, to_le 8 pid) # id_fields (off + 8) pids"

definition meta_fields :: "meta_page \<Rightarrow> (nat \<times> bytes) list" where
  "meta_fields m =
    [(0, meta_magic), (8, to_le 4 (3 :: u32)),
     (12, to_le 8 (mp_root_page_id m)), (20, to_le 8 (mp_next_bptree_page_id m)),
     (28, to_le 8 (mp_next_data_page_id m)), (36, to_le 8 (mp_next_undo_page_id m)),
     (OFF_UNDO_FREE_LEN, to_le 4 (word_of_nat (min (length (mp_undo_free m)) UNDO_FREE_CAP) :: u32))]
    @ id_fields OFF_UNDO_FREE_IDS (take UNDO_FREE_CAP (mp_undo_free m))
    @ [(OFF_UNDO_HISTORY_HEAD, to_le 8 (mp_undo_history_head m)),
       (OFF_UNDO_HISTORY_TAIL, to_le 8 (mp_undo_history_tail m))]"

definition meta_encode :: "meta_page \<Rightarrow> bytes res" where
  "meta_encode m = write_fields (replicate PAGE_SIZE 0) (meta_fields m)"

fun read_free_ids :: "bytes \<Rightarrow> nat \<Rightarrow> nat \<Rightarrow> u64 list res" where
  "read_free_ids page off 0 = Ok []"
| "read_free_ids page off (Suc n) =
    res_bind (read_u64 page off) (\<lambda>pid.
      res_map (\<lambda>pids. if pid \<noteq> 0 then pid # pids else pids) (read_free_ids page (off + 8) n))"

definition meta_decode :: "bytes \<Rightarrow> meta_page res" where
  "meta_decode page =
    (if length page \<noteq> PAGE_SIZE then Err (InvalidPageSize (length page) PAGE_SIZE)
     else res_bind (get_slice page 0 8) (\<lambda>mg.
       if mg \<noteq> meta_magic then invalid_data ''invalid meta page magic''
       else res_bind (read_u32 page 8) (\<lambda>ver.
         if ver \<noteq> 3 then invalid_data (''unsupported meta version: '' @ show_nat (unat ver))
         else
           res_bind (read_u64 page 12) (\<lambda>root.
           res_bind (read_u64 page 20) (\<lambda>nb.
           res_bind (read_u64 page 28) (\<lambda>nd.
           res_bind (read_u64 page 36) (\<lambda>nu.
           res_bind (read_u32 page OFF_UNDO_FREE_LEN) (\<lambda>n.
           res_bind (read_free_ids page OFF_UNDO_FREE_IDS (min (unat n) UNDO_FREE_CAP)) (\<lambda>ids.
           res_bind (read_u64 page OFF_UNDO_HISTORY_HEAD) (\<lambda>hh.
           res_bind (read_u64 page OFF_UNDO_HISTORY_TAIL) (\<lambda>ht.
             Ok \<lparr>mp_root_page_id = root, mp_next_bptree_page_id = nb, mp_next_data_page_id = nd,
                 mp_next_undo_page_id = nu, mp_undo_free = ids, mp_undo_history_head = hh,
                 mp_undo_history_tail = ht\<rparr>)))))))))))"

text \<open>\<open>Vec::pop\<close> and a bounded \<open>Vec::push\<close> on the free list.\<close>

definition pop_free_undo :: "meta_page \<Rightarrow> u64 option \<times> meta_page" where
  "pop_free_undo m = (if mp_undo_free m = [] then (None, m)
     else (Some (last (mp_undo_free m)), m\<lparr>mp_undo_free := butlast (mp_undo_free m)\<rparr>))"

definition push_free_undo :: "meta_page \<Rightarrow> u64 \<Rightarrow> meta_page" where
  "push_free_undo m pid = (if length (mp_undo_free m) < UNDO_FREE_CAP
     then m\<lparr>mp_undo_free := mp_undo_free m @ [pid]\<rparr> else m)"

section \<open>B+-tree meta page\<close>

record btree_meta =
  bm_root_page_id :: u64

definition btree_magic :: bytes where
  "btree_magic = [83, 75, 66, 84, 82, 69, 69, 0]"

definition btree_meta_encode :: "btree_meta \<Rightarrow> bytes res" where
  "btree_meta_encode m = write_fields (replicate PAGE_SIZE 0)
    [(0, btree_magic), (8, to_le 4 (1 :: u32)), (12, to_le 8 (bm_root_page_id m))]"

definition btree_meta_decode :: "bytes \<Rightarrow> btree_meta res" where
  "btree_meta_decode page =
    (if length page \<noteq> PAGE_SIZE then Err (InvalidPageSize (length page) PAGE_SIZE)
     else res_bind (get_slice page 0 8) (\<lambda>mg.
       if mg \<noteq> btree_magic then invalid_data ''invalid btree meta magic''
       else res_bind (read_u32 page 8) (\<lambda>ver.
         if ver \<noteq> 1 then invalid_data (''unsupported btree meta version: '' @ show_nat (unat ver))
         else res_bind (read_u64 page 12) (\<lambda>root. Ok \<lparr>bm_root_page_id = root\<rparr>))))"

section \<open>Lemmas\<close>

lemma magic_lengths [simp]: "length meta_magic = 8" "length btree_magic = 8"
  by (simp_all add: meta_magic_def btree_magic_def)

lemma id_fields_mem:
  "(a, xs) \<in> set (id_fields off pids) \<Longrightarrow> off \<le> a \<and> a + 8 \<le> off + 8 * length pids \<and> length xs = 8"
  by (induction off pids rule: id_fields.induct) auto

lemma get_at_id_fields_out:
  "a + n \<le> off \<or> off + 8 * length pids \<le> a \<Longrightarrow> get_at (put_fields p (id_fields off pids)) a n = get_at p a n"
  by (intro get_at_put_fields_disjoint) (auto dest!: id_fields_mem)

lemma read_free_ids_cong:
  "length p = length q \<Longrightarrow> off + 8 * n \<le> length p \<Longrightarrow>
   (\<And>a. off \<le> a \<Longrightarrow> a + 8 \<le> off + 8 * n \<Longrightarrow> get_at p a 8 = get_at q a 8) \<Longrightarrow>
   read_free_ids p off n = read_free_ids q off n"
  by (induction n arbitrary: off) (simp_all add: buf_simps)

lemma read_free_ids_fields:
  "off + 8 * length pids \<le> length p \<Longrightarrow>
   read_free_ids (put_fields p (id_fields off pids)) off (length pids) = Ok (filter (\<lambda>pid. pid \<noteq> 0) pids)"
proof (induction pids arbitrary: off p)
  case (Cons pid pids)
  have "get_at (put_fields (put_at p off (to_le 8 pid)) (id_fields (off + 8) pids)) off 8 = to_le 8 pid"
    using Cons.prems by (simp add: get_at_id_fields_out buf_simps)
  then show ?case using Cons by (simp add: buf_simps)
qed simp

lemma meta_fields_range: "\<forall>(off, xs) \<in> set (meta_fields m). off + length xs \<le> PAGE_SIZE"
proof -
  have "a + length xs \<le> 8240" if "(a, xs) \<in> set (id_fields OFF_UNDO_FREE_IDS (take UNDO_FREE_CAP (mp_undo_free m)))" for a xs
    using id_fields_mem [OF that] by auto
  then show ?thesis by (fastforce simp: meta_fields_def)
qed

lemma meta_page_parts:
  fixes m
  defines "page \<equiv> put_fields (replicate PAGE_SIZE 0) (meta_fields m)"
  shows "get_at page 0 8 = meta_magic" "get_at page 8 4 = to_le 4 (3 :: u32)"
    "get_at page 12 8 = to_le 8 (mp_root_page_id m)" "get_at page 20 8 = to_le 8 (mp_next_bptree_page_id m)"
    "get_at page 28 8 = to_le 8 (mp_next_data_page_id m)" "get_at page 36 8 = to_le 8 (mp_next_undo_page_id m)"
    "get_at page 44 4 = to_le 4 (word_of_nat (min (length (mp_undo_free m)) UNDO_FREE_CAP) :: u32)"
    "get_at page 8240 8 = to_le 8 (mp_undo_history_head m)" "get_at page 8248 8 = to_le 8 (mp_undo_history_tail m)"
  by (simp_all add: page_def meta_fields_def put_fields_append get_at_id_fields_out buf_simps)

lemma meta_page_ids:
  "read_free_ids (put_fields (replicate PAGE_SIZE 0) (meta_fields m)) OFF_UNDO_FREE_IDS (min (length (mp_undo_free m)) UNDO_FREE_CAP)
    = Ok (filter (\<lambda>pid. pid \<noteq> 0) (take UNDO_FREE_CAP (mp_undo_free m)))"
proof -
  let ?ids = "take UNDO_FREE_CAP (mp_undo_free m)"
  define p where "p = put_fields (replicate PAGE_SIZE 0)
    [(0, meta_magic), (8, to_le 4 (3 :: u32)),
     (12, to_le 8 (mp_root_page_id m)), (20, to_le 8 (mp_next_bptree_page_id m)),
     (28, to_le 8 (mp_next_data_page_id m)), (36, to_le 8 (mp_next_undo_page_id m)),
     (OFF_UNDO_FREE_LEN, to_le 4 (word_of_nat (min (length (mp_undo_free m)) UNDO_FREE_CAP) :: u32))]"
  have len: "length p = PAGE_SIZE" by (simp add: p_def)
  have "read_free_ids (put_fields (put_fields p (id_fields OFF_UNDO_FREE_IDS ?ids))
      [(OFF_UNDO_HISTORY_HEAD, to_le 8 (mp_undo_history_head m)), (OFF_UNDO_HISTORY_TAIL, to_le 8 (mp_undo_history_tail m))])
      OFF_UNDO_FREE_IDS (length ?ids)
    = read_free_ids (put_fields p (id_fields OFF_UNDO_FREE_IDS ?ids)) OFF_UNDO_FREE_IDS (length ?ids)"
    by (rule read_free_ids_cong) (simp_all add: len buf_simps)
  also have "\<dots> = Ok (filter (\<lambda>pid. pid \<noteq> 0) ?ids)"
    by (rule read_free_ids_fields) (simp add: len)
  finally show ?thesis
    by (simp only: meta_fields_def put_fields_append p_def length_take)
qed

lemma meta_decode_encode:
  "res_bind (meta_encode m) meta_decode
    = Ok (m\<lparr>mp_undo_free := filter (\<lambda>pid. pid \<noteq> 0) (take UNDO_FREE_CAP (mp_undo_free m))\<rparr>)"
proof -
  have e: "meta_encode m = Ok (put_fields (replicate PAGE_SIZE 0) (meta_fields m))"
    unfolding meta_encode_def by (rule write_fields_Ok) (use meta_fields_range [of m] in simp)
  have n: "unat (word_of_nat (min (length (mp_undo_free m)) UNDO_FREE_CAP) :: u32) = min (length (mp_undo_free m)) UNDO_FREE_CAP"
    by (rule unat_word_of_nat_small) simp
  show ?thesis
    by (simp add: e meta_decode_def get_slice_Ok read_words_Ok meta_page_parts n meta_page_ids)
qed

lemma btree_meta_decode_encode: "res_bind (btree_meta_encode m) btree_meta_decode = Ok m"
  by (simp add: btree_meta_encode_def btree_meta_decode_def buf_simps)

lemma pop_push_free_undo:
  "length (mp_undo_free m) < UNDO_FREE_CAP \<Longrightarrow> pop_free_undo (push_free_undo m pid) = (Some pid, m)"
  by (simp add: pop_free_undo_def push_free_undo_def)

lemma push_free_undo_bounded:
  "length (mp_undo_free m) \<le> UNDO_FREE_CAP \<Longrightarrow> length (mp_undo_free (push_free_undo m pid)) \<le> UNDO_FREE_CAP"
  by (simp add: push_free_undo_def)

section \<open>Properties\<close>

text \<open>The meta page reads back as it was written whenever its free list obeys the invariant of the
  engine: at most 1024 ids, none of them 0. The B+-tree meta page reads back unconditionally.\<close>

theorem meta_page_roundtrip:
  assumes "length (mp_undo_free m) \<le> UNDO_FREE_CAP" and "0 \<notin> set (mp_undo_free m)"
  shows "res_bind (meta_encode m) meta_decode = Ok m \<and> res_bind (btree_meta_encode b) btree_meta_decode = Ok b"
proof -
  have "filter (\<lambda>pid. pid \<noteq> 0) (take UNDO_FREE_CAP (mp_undo_free m)) = mp_undo_free m"
    using assms by (metis (mono_tags, lifting) filter_True take_all)
  then show ?thesis by (simp add: meta_decode_encode btree_meta_decode_encode)
qed

theorem meta_page_roundtrip_witness:
  "let m = \<lparr>mp_root_page_id = 8, mp_next_bptree_page_id = 9, mp_next_data_page_id = 100, mp_next_undo_page_id = 200,
            mp_undo_free = [5, 6], mp_undo_history_head = 1, mp_undo_history_tail = 2\<rparr>
   in res_bind (meta_encode m) meta_decode = Ok m"
  using meta_page_roundtrip [of "\<lparr>mp_root_page_id = 8, mp_next_bptree_page_id = 9, mp_next_data_page_id = 100,
      mp_next_undo_page_id = 200, mp_undo_free = [5, 6], mp_undo_history_head = 1, mp_undo_history_tail = 2\<rparr>"
      "\<lparr>bm_root_page_id = 3\<rparr>"] by (simp add: Let_def)

end
