(* ===== verification/Frames.thy ===== *)
theory Frames
  imports Common
begin

text \<open>
  Cursor-based parsing and append-only logs, shared by the log and snapshot formats.

  A parser state is a buffer and a cursor; \<open>at buf c xs\<close> says that the unread part of the buffer is
  \<open>xs\<close>, which turns parsing proofs into peeling the fields of the unread part one by one. A log is the
  concatenation of encoded frames; \<open>read_frames\<close> is the loop that reads frames until the end, an error or
  a stop, and the locale \<open>frame_codec\<close> has its properties for any codec whose decoder undoes its encoder.
\<close>

section \<open>Cursors\<close>

definition at_cursor :: "bytes \<Rightarrow> nat \<Rightarrow> bytes \<Rightarrow> bool" where
  "at_cursor buf c xs \<longleftrightarrow> c \<le> length buf \<and> drop c buf = xs"

named_theorems parse_simps "one parsing step at a known cursor"

lemma at_cursor_0: "at_cursor buf 0 buf"
  by (simp add: at_cursor_def)

lemma at_cursor_append: "at_cursor buf c (xs @ ys) \<Longrightarrow> at_cursor buf (c + length xs) ys"
  unfolding at_cursor_def
proof
  assume a: "c \<le> length buf \<and> drop c buf = xs @ ys"
  then have "length buf - c = length xs + length ys" by (metis length_append length_drop)
  then show "c + length xs \<le> length buf" using a by linarith
  have "drop (c + length xs) buf = drop (length xs) (drop c buf)" by (simp add: add.commute)
  then show "drop (c + length xs) buf = ys" using a by simp
qed

lemma at_cursor_length: "at_cursor buf c xs \<Longrightarrow> length buf = c + length xs"
  unfolding at_cursor_def by (metis le_add_diff_inverse length_drop)

lemma at_cursor_get: "at_cursor buf c (xs @ ys) \<Longrightarrow> n = length xs \<Longrightarrow> get_at buf c n = xs"
  by (simp add: at_cursor_def get_at_def)

lemma at_cursor_get_slice:
  "at_cursor buf c (xs @ ys) \<Longrightarrow> d = c + length xs \<Longrightarrow> get_slice buf c d = Ok xs"
  using at_cursor_length [of buf c "xs @ ys"] at_cursor_get [of buf c xs ys] by (simp add: get_slice_def)

lemma at_cursor_words:
  "at_cursor buf c (to_le 2 v16 @ ys) \<Longrightarrow> read_u16 buf c = Ok v16"
  "at_cursor buf c (to_le 4 v32 @ ys) \<Longrightarrow> read_u32 buf c = Ok v32"
  "at_cursor buf c (to_le 8 v64 @ ys) \<Longrightarrow> read_u64 buf c = Ok v64"
  "at_cursor buf c (b # ys) \<Longrightarrow> read_u8 buf c = Ok b"
proof -
  show "read_u16 buf c = Ok v16" if "at_cursor buf c (to_le 2 v16 @ ys)"
    by (simp add: read_u16_def at_cursor_get_slice [OF that])
  show "read_u32 buf c = Ok v32" if "at_cursor buf c (to_le 4 v32 @ ys)"
    by (simp add: read_u32_def at_cursor_get_slice [OF that])
  show "read_u64 buf c = Ok v64" if "at_cursor buf c (to_le 8 v64 @ ys)"
    by (simp add: read_u64_def at_cursor_get_slice [OF that])
  show "read_u8 buf c = Ok b" if "at_cursor buf c (b # ys)"
    using that nth_via_drop [of c buf b ys] by (cases "c < length buf") (auto simp: read_u8_def at_cursor_def)
qed

lemma at_cursor_steps:
  "at_cursor buf c (to_le 2 v16 @ ys) \<Longrightarrow> at_cursor buf (c + 2) ys"
  "at_cursor buf c (to_le 4 v32 @ ys) \<Longrightarrow> at_cursor buf (c + 4) ys"
  "at_cursor buf c (to_le 8 v64 @ ys) \<Longrightarrow> at_cursor buf (c + 8) ys"
  "at_cursor buf c (b # ys) \<Longrightarrow> at_cursor buf (c + 1) ys"
  using at_cursor_append [of buf c "to_le 2 v16" ys] at_cursor_append [of buf c "to_le 4 v32" ys]
    at_cursor_append [of buf c "to_le 8 v64" ys] at_cursor_append [of buf c "[b]" ys]
  by (simp_all flip: Suc_eq_plus1)

section \<open>Logs of frames\<close>

text \<open>The reading loop: frames are read until the decoder reports the end (\<open>None\<close>), fails, or panics.
  The result has the frames read and how the loop ended. Every frame takes at least one byte, so a fuel of
  the length of the log plus one is enough (\<open>read_log\<close>).\<close>

datatype log_end = AtEof | AtError error | AtPanic | OutOfFuel

fun read_frames :: "(bytes \<Rightarrow> ('a option \<times> bytes) res) \<Rightarrow> nat \<Rightarrow> bytes \<Rightarrow> 'a list \<times> log_end" where
  "read_frames dec 0 bs = ([], OutOfFuel)"
| "read_frames dec (Suc n) bs =
    (case dec bs of
       Ok (Some x, rest) \<Rightarrow> (let (xs, e) = read_frames dec n rest in (x # xs, e))
     | Ok (None, _) \<Rightarrow> ([], AtEof)
     | Err e \<Rightarrow> ([], AtError e)
     | Panic \<Rightarrow> ([], AtPanic))"

definition read_log :: "(bytes \<Rightarrow> ('a option \<times> bytes) res) \<Rightarrow> bytes \<Rightarrow> 'a list \<times> log_end" where
  "read_log dec bs = read_frames dec (Suc (length bs)) bs"

locale frame_codec =
  fixes enc :: "'a \<Rightarrow> bytes" and dec :: "bytes \<Rightarrow> ('a option \<times> bytes) res" and ok :: "'a \<Rightarrow> bool"
  assumes dec_enc: "ok x \<Longrightarrow> dec (enc x @ rest) = Ok (Some x, rest)"
    and dec_shorter: "dec bs = Ok (Some x, rest) \<Longrightarrow> length rest < length bs"
    and dec_nil: "\<exists>rest. dec [] = Ok (None, rest)"
    and enc_nonempty: "enc x \<noteq> []"
begin

lemma read_frames_enough:
  "length bs < n \<Longrightarrow> length bs < k \<Longrightarrow> read_frames dec n bs = read_frames dec k bs"
proof (induction n arbitrary: k bs)
  case (Suc n)
  obtain k' where k: "k = Suc k'" using Suc.prems by (cases k) auto
  have "read_frames dec n rest = read_frames dec k' rest" if "dec bs = Ok (Some x, rest)" for x rest
    using dec_shorter [OF that] Suc.prems k by (intro Suc.IH) auto
  then show ?case by (auto simp: k split: result.splits option.splits prod.splits)
qed simp

lemma read_log_unfold:
  "read_log dec bs = (case dec bs of
       Ok (Some x, rest) \<Rightarrow> (let (xs, e) = read_log dec rest in (x # xs, e))
     | Ok (None, _) \<Rightarrow> ([], AtEof) | Err e \<Rightarrow> ([], AtError e) | Panic \<Rightarrow> ([], AtPanic))"
proof -
  have "read_frames dec (length bs) rest = read_log dec rest" if "dec bs = Ok (Some x, rest)" for x rest
    unfolding read_log_def using dec_shorter [OF that] by (intro read_frames_enough) simp_all
  then show ?thesis
    by (auto simp: read_log_def [of dec bs] split: result.splits option.splits prod.splits)
qed

lemma read_log_never_out_of_fuel: "snd (read_log dec bs) \<noteq> OutOfFuel"
proof (induction "length bs" arbitrary: bs rule: less_induct)
  case less
  show ?case
    using less [OF dec_shorter]
    by (subst read_log_unfold) (auto split: result.splits option.splits prod.splits)
qed

text \<open>A log of encoded frames reads back as the frames, whatever follows them.\<close>

lemma read_log_concat:
  "(\<And>x. x \<in> set xs \<Longrightarrow> ok x) \<Longrightarrow>
   read_log dec (concat (map enc xs) @ rest) = (xs @ fst (read_log dec rest), snd (read_log dec rest))"
proof (induction xs)
  case (Cons x xs)
  then show ?case
    by (subst read_log_unfold) (auto simp: dec_enc split: prod.splits)
qed simp

lemma read_log_encoded:
  "(\<And>x. x \<in> set xs \<Longrightarrow> ok x) \<Longrightarrow> read_log dec (concat (map enc xs)) = (xs, AtEof)"
  using read_log_concat [of xs "[]"] dec_nil by (subst (asm) (2 3) read_log_unfold) auto

text \<open>Appending one more frame to a log that reads to its end adds the frame to what is read.\<close>

lemma read_log_snoc:
  assumes "\<And>x. x \<in> set xs \<Longrightarrow> ok x" and "ok y"
  shows "read_log dec (concat (map enc xs) @ enc y) = (xs @ [y], AtEof)"
  using read_log_encoded [of "xs @ [y]"] assms by auto

end

end
