(* ===== verification/Wal_Codec.thy ===== *)
theory Wal_Codec
  imports Frames
begin

text \<open>
  The frame format of the storage node's write-ahead log (\<open>node_wal_codec.rs\<close>): a length word and a
  batch of records. The lemmas show the round trip for every batch the reader's size limit admits, the
  exact encoded length, that the reader is total (it returns a batch, the end of the log or an error, and
  never panics), and that it rejects what the size limit excludes although the writer produces it. The
  codec is an instance of \<open>frame_codec\<close>.
\<close>

section \<open>Data\<close>

record wal_record =
  wr_lsn :: u64
  wr_op :: byte
  wr_page_id :: u64
  wr_slot_id :: u16
  wr_key :: bytes
  wr_value :: bytes

record wal_batch =
  wb_request_id :: u64
  wb_start_lsn :: u64
  wb_end_lsn :: u64
  wb_records :: "wal_record list"

abbreviation (input) WAL_OP_PAGE_IMAGE :: byte where "WAL_OP_PAGE_IMAGE \<equiv> 1"
abbreviation (input) WAL_OP_PAGE_PUT :: byte where "WAL_OP_PAGE_PUT \<equiv> 11"
abbreviation (input) WAL_OP_PAGE_DEL :: byte where "WAL_OP_PAGE_DEL \<equiv> 12"
abbreviation (input) WAL_OP_TXN_PUT :: byte where "WAL_OP_TXN_PUT \<equiv> 21"
abbreviation (input) WAL_OP_TXN_DEL :: byte where "WAL_OP_TXN_DEL \<equiv> 22"
abbreviation (input) WAL_OP_TXN_COMMIT :: byte where "WAL_OP_TXN_COMMIT \<equiv> 23"
abbreviation (input) MAX_WAL_FRAME_LEN :: nat where "MAX_WAL_FRAME_LEN \<equiv> 16777216"

section \<open>Encoding\<close>

definition encode_record :: "wal_record \<Rightarrow> bytes" where
  "encode_record r =
    to_le 8 (wr_lsn r) @ [wr_op r] @ to_le 8 (wr_page_id r) @ to_le 2 (wr_slot_id r)
    @ to_le 4 (word_of_nat (length (wr_key r)) :: u32) @ to_le 4 (word_of_nat (length (wr_value r)) :: u32)
    @ wr_key r @ wr_value r"

definition encode_body :: "wal_batch \<Rightarrow> bytes" where
  "encode_body b =
    to_le 8 (wb_request_id b) @ to_le 8 (wb_start_lsn b) @ to_le 8 (wb_end_lsn b)
    @ to_le 4 (word_of_nat (length (wb_records b)) :: u32) @ concat (map encode_record (wb_records b))"

definition encode_wal_batch :: "wal_batch \<Rightarrow> bytes \<Rightarrow> bytes res" where
  "encode_wal_batch b out =
    (if length (encode_body b) \<ge> 2 ^ 32 then invalid_data ''wal frame too large to encode into u32 length''
     else Ok (out @ to_le 4 (word_of_nat (length (encode_body b)) :: u32) @ encode_body b))"

fun add_record_lens :: "u64 \<Rightarrow> wal_record list \<Rightarrow> u64 res" where
  "add_record_lens len [] = Ok len"
| "add_record_lens len (r # rs) =
    res_bind (chk_add len 27) (\<lambda>l1.
    res_bind (chk_add (word_of_nat (length (wr_key r))) (word_of_nat (length (wr_value r)))) (\<lambda>kv.
    res_bind (chk_add l1 kv) (\<lambda>l2. add_record_lens l2 rs)))"

definition wal_batch_encoded_len :: "wal_batch \<Rightarrow> u64 res" where
  "wal_batch_encoded_len b = add_record_lens 32 (wb_records b)"

section \<open>Decoding\<close>

definition truncated :: "'a res" where
  "truncated = Err (Io UnexpectedEof ''wal batch truncated'')"

definition read_u64_from :: "bytes \<Rightarrow> nat \<Rightarrow> (u64 \<times> nat) res" where
  "read_u64_from buf c = (if c + 8 > length buf then truncated
     else res_bind (read_u64 buf c) (\<lambda>v. Ok (v, c + 8)))"

definition read_u32_from :: "bytes \<Rightarrow> nat \<Rightarrow> (u32 \<times> nat) res" where
  "read_u32_from buf c = (if c + 4 > length buf then truncated
     else res_bind (read_u32 buf c) (\<lambda>v. Ok (v, c + 4)))"

definition read_u16_from :: "bytes \<Rightarrow> nat \<Rightarrow> (u16 \<times> nat) res" where
  "read_u16_from buf c = (if c + 2 > length buf then truncated
     else res_bind (read_u16 buf c) (\<lambda>v. Ok (v, c + 2)))"

definition read_u8_from :: "bytes \<Rightarrow> nat \<Rightarrow> (byte \<times> nat) res" where
  "read_u8_from buf c = (if c + 1 > length buf then truncated
     else res_bind (read_u8 buf c) (\<lambda>v. Ok (v, c + 1)))"

definition read_wal_record :: "bytes \<Rightarrow> nat \<Rightarrow> (wal_record \<times> nat) res" where
  "read_wal_record buf c0 =
    res_bind (read_u64_from buf c0) (\<lambda>(l, c1).
    res_bind (read_u8_from buf c1) (\<lambda>(o8, c2).
    res_bind (read_u64_from buf c2) (\<lambda>(pid, c3).
    res_bind (read_u16_from buf c3) (\<lambda>(sid, c4).
    res_bind (read_u32_from buf c4) (\<lambda>(kl, c5).
    res_bind (read_u32_from buf c5) (\<lambda>(vl, c6).
      if c6 + unat kl + unat vl > length buf then invalid_data ''wal record truncated''
      else
        res_bind (get_slice buf c6 (c6 + unat kl)) (\<lambda>k.
        res_bind (get_slice buf (c6 + unat kl) (c6 + unat kl + unat vl)) (\<lambda>v.
          Ok (\<lparr>wr_lsn = l, wr_op = o8, wr_page_id = pid, wr_slot_id = sid, wr_key = k, wr_value = v\<rparr>,
              c6 + unat kl + unat vl)))))))))"

fun read_wal_records :: "bytes \<Rightarrow> nat \<Rightarrow> nat \<Rightarrow> wal_record list res" where
  "read_wal_records buf c 0 = Ok []"
| "read_wal_records buf c (Suc n) =
    res_bind (read_wal_record buf c) (\<lambda>(r, c'). res_map (\<lambda>rs. r # rs) (read_wal_records buf c' n))"

definition decode_body :: "bytes \<Rightarrow> wal_batch res" where
  "decode_body buf =
    res_bind (read_u64_from buf 0) (\<lambda>(rid, c1).
    res_bind (read_u64_from buf c1) (\<lambda>(sl, c2).
    res_bind (read_u64_from buf c2) (\<lambda>(el, c3).
    res_bind (read_u32_from buf c3) (\<lambda>(count, c4).
    res_bind (read_wal_records buf c4 (unat count)) (\<lambda>rs.
      Ok \<lparr>wb_request_id = rid, wb_start_lsn = sl, wb_end_lsn = el, wb_records = rs\<rparr>)))))"

text \<open>The file is the part of the segment that is not read yet. \<open>read_exact\<close> on a file with too few
  bytes left reports an unexpected end: at the length word this is the end of the log, inside a frame it
  is an error.\<close>

definition read_wal_batch :: "bytes \<Rightarrow> (wal_batch option \<times> bytes) res" where
  "read_wal_batch file =
    (if length file < 4 then Ok (None, [])
     else let total_len = unat (from_le (take 4 file) :: u32); rest = drop 4 file in
       if total_len = 0 then invalid_data ''wal frame is empty''
       else if total_len > MAX_WAL_FRAME_LEN
       then invalid_data (''wal frame too large: '' @ show_nat total_len @ '' > 16777216 bytes'')
       else if length rest < total_len then Err (Io UnexpectedEof ''early eof'')
       else res_map (\<lambda>b. (Some b, drop total_len rest)) (decode_body (take total_len rest)))"

definition wal_frame :: "wal_batch \<Rightarrow> bytes" where
  "wal_frame b = to_le 4 (word_of_nat (length (encode_body b)) :: u32) @ encode_body b"

definition wal_frame_ok :: "wal_batch \<Rightarrow> bool" where
  "wal_frame_ok b \<longleftrightarrow> length (encode_body b) \<le> MAX_WAL_FRAME_LEN"

definition sample_batch :: wal_batch where
  "sample_batch = \<lparr>wb_request_id = 1, wb_start_lsn = 4, wb_end_lsn = 6, wb_records =
     [\<lparr>wr_lsn = 5, wr_op = WAL_OP_TXN_PUT, wr_page_id = 0, wr_slot_id = 0, wr_key = [1, 2], wr_value = [3]\<rparr>,
      \<lparr>wr_lsn = 6, wr_op = WAL_OP_TXN_COMMIT, wr_page_id = 0, wr_slot_id = 0, wr_key = [], wr_value = []\<rparr>]\<rparr>"

definition big_batch :: wal_batch where
  "big_batch = \<lparr>wb_request_id = 1, wb_start_lsn = 0, wb_end_lsn = 1, wb_records =
     [\<lparr>wr_lsn = 1, wr_op = WAL_OP_PAGE_IMAGE, wr_page_id = 0, wr_slot_id = 0, wr_key = [], wr_value = replicate 16777216 0\<rparr>]\<rparr>"

section \<open>Round trip\<close>

lemma length_encode_record: "length (encode_record r) = 27 + length (wr_key r) + length (wr_value r)"
  by (simp add: encode_record_def)

lemma length_encode_body:
  "length (encode_body b) = 28 + (\<Sum>r\<leftarrow>wb_records b. 27 + length (wr_key r) + length (wr_value r))"
  by (simp add: encode_body_def length_concat o_def length_encode_record)

lemma read_from_steps:
  "at_cursor buf c (to_le 8 v64 @ ys) \<Longrightarrow> \<exists>c'. read_u64_from buf c = Ok (v64, c') \<and> at_cursor buf c' ys"
  "at_cursor buf c (to_le 4 v32 @ ys) \<Longrightarrow> \<exists>c'. read_u32_from buf c = Ok (v32, c') \<and> at_cursor buf c' ys"
  "at_cursor buf c (to_le 2 v16 @ ys) \<Longrightarrow> \<exists>c'. read_u16_from buf c = Ok (v16, c') \<and> at_cursor buf c' ys"
  "at_cursor buf c (b # ys) \<Longrightarrow> \<exists>c'. read_u8_from buf c = Ok (b, c') \<and> at_cursor buf c' ys"
  using at_cursor_length [of buf c "to_le 8 v64 @ ys"] at_cursor_length [of buf c "to_le 4 v32 @ ys"]
    at_cursor_length [of buf c "to_le 2 v16 @ ys"] at_cursor_length [of buf c "b # ys"]
  by (auto simp: read_u64_from_def read_u32_from_def read_u16_from_def read_u8_from_def at_cursor_words
      dest: at_cursor_steps)

lemma read_wal_record_encoded:
  assumes at0: "at_cursor buf c (encode_record r @ ys)"
    and kl: "length (wr_key r) < 2 ^ 32" and vl: "length (wr_value r) < 2 ^ 32"
  shows "\<exists>c'. read_wal_record buf c = Ok (r, c') \<and> at_cursor buf c' ys"
proof -
  let ?kl = "word_of_nat (length (wr_key r)) :: u32" and ?vl = "word_of_nat (length (wr_value r)) :: u32"
  have a0: "at_cursor buf c (to_le 8 (wr_lsn r) @ wr_op r # to_le 8 (wr_page_id r) @ to_le 2 (wr_slot_id r)
      @ to_le 4 ?kl @ to_le 4 ?vl @ wr_key r @ wr_value r @ ys)"
    using at0 by (simp add: encode_record_def)
  obtain c1 where r1: "read_u64_from buf c = Ok (wr_lsn r, c1)"
    and a1: "at_cursor buf c1 (wr_op r # to_le 8 (wr_page_id r) @ to_le 2 (wr_slot_id r) @ to_le 4 ?kl @ to_le 4 ?vl @ wr_key r @ wr_value r @ ys)"
    using read_from_steps(1) [OF a0] by blast
  obtain c2 where r2: "read_u8_from buf c1 = Ok (wr_op r, c2)"
    and a2: "at_cursor buf c2 (to_le 8 (wr_page_id r) @ to_le 2 (wr_slot_id r) @ to_le 4 ?kl @ to_le 4 ?vl @ wr_key r @ wr_value r @ ys)"
    using read_from_steps(4) [OF a1] by blast
  obtain c3 where r3: "read_u64_from buf c2 = Ok (wr_page_id r, c3)"
    and a3: "at_cursor buf c3 (to_le 2 (wr_slot_id r) @ to_le 4 ?kl @ to_le 4 ?vl @ wr_key r @ wr_value r @ ys)"
    using read_from_steps(1) [OF a2] by blast
  obtain c4 where r4: "read_u16_from buf c3 = Ok (wr_slot_id r, c4)"
    and a4: "at_cursor buf c4 (to_le 4 ?kl @ to_le 4 ?vl @ wr_key r @ wr_value r @ ys)"
    using read_from_steps(3) [OF a3] by blast
  obtain c5 where r5: "read_u32_from buf c4 = Ok (?kl, c5)" and a5: "at_cursor buf c5 (to_le 4 ?vl @ wr_key r @ wr_value r @ ys)"
    using read_from_steps(2) [OF a4] by blast
  obtain c6 where r6: "read_u32_from buf c5 = Ok (?vl, c6)" and a6: "at_cursor buf c6 (wr_key r @ wr_value r @ ys)"
    using read_from_steps(2) [OF a5] by blast
  have a7: "at_cursor buf (c6 + length (wr_key r)) (wr_value r @ ys)" by (rule at_cursor_append [OF a6])
  have l: "unat ?kl = length (wr_key r)" "unat ?vl = length (wr_value r)"
    using kl vl by (auto intro!: unat_word_of_nat_small)
  have "read_wal_record buf c = Ok (r, c6 + length (wr_key r) + length (wr_value r))"
    using at_cursor_length [OF a6]
    by (simp add: read_wal_record_def r1 r2 r3 r4 r5 r6 l at_cursor_get_slice [OF a6] at_cursor_get_slice [OF a7])
  then show ?thesis using at_cursor_append [OF a7] by blast
qed

lemma read_wal_records_encoded:
  "at_cursor buf c (concat (map encode_record rs) @ ys) \<Longrightarrow>
   (\<And>r. r \<in> set rs \<Longrightarrow> length (wr_key r) < 2 ^ 32 \<and> length (wr_value r) < 2 ^ 32) \<Longrightarrow>
   read_wal_records buf c (length rs) = Ok rs"
proof (induction rs arbitrary: c)
  case (Cons r rs)
  have "at_cursor buf c (encode_record r @ concat (map encode_record rs) @ ys)" using Cons.prems by simp
  from read_wal_record_encoded [OF this] obtain c' where "read_wal_record buf c = Ok (r, c')"
      "at_cursor buf c' (concat (map encode_record rs) @ ys)"
    using Cons.prems by auto
  then show ?case using Cons by simp
qed simp

lemma record_lengths_bounded:
  assumes "length (encode_body b) < 2 ^ 32"
  shows "r \<in> set (wb_records b) \<Longrightarrow> length (wr_key r) < 2 ^ 32 \<and> length (wr_value r) < 2 ^ 32"
    and "length (wb_records b) < 2 ^ 32"
proof -
  let ?f = "\<lambda>r. 27 + length (wr_key r) + length (wr_value r)"
  assume "r \<in> set (wb_records b)"
  then have "?f r \<le> (\<Sum>r\<leftarrow>wb_records b. ?f r)" by (intro member_le_sum_list) auto
  then show "length (wr_key r) < 2 ^ 32 \<and> length (wr_value r) < 2 ^ 32"
    using assms by (simp add: length_encode_body)
next
  have "length rs \<le> (\<Sum>r\<leftarrow>rs. 27 + length (wr_key r) + length (wr_value r))" for rs :: "wal_record list"
    by (induction rs) auto
  from this [of "wb_records b"] show "length (wb_records b) < 2 ^ 32"
    using assms by (simp add: length_encode_body)
qed

lemma decode_body_encoded:
  assumes "length (encode_body b) < 2 ^ 32"
  shows "decode_body (encode_body b) = Ok b"
proof -
  let ?n = "word_of_nat (length (wb_records b)) :: u32" and ?rs = "concat (map encode_record (wb_records b))"
  let ?buf = "encode_body b"
  have a0: "at_cursor ?buf 0 (to_le 8 (wb_request_id b) @ to_le 8 (wb_start_lsn b) @ to_le 8 (wb_end_lsn b) @ to_le 4 ?n @ ?rs @ [])"
    using at_cursor_0 [of ?buf] by (simp add: encode_body_def)
  obtain c1 where r1: "read_u64_from ?buf 0 = Ok (wb_request_id b, c1)"
    and a1: "at_cursor ?buf c1 (to_le 8 (wb_start_lsn b) @ to_le 8 (wb_end_lsn b) @ to_le 4 ?n @ ?rs @ [])"
    using read_from_steps(1) [OF a0] by blast
  obtain c2 where r2: "read_u64_from ?buf c1 = Ok (wb_start_lsn b, c2)"
    and a2: "at_cursor ?buf c2 (to_le 8 (wb_end_lsn b) @ to_le 4 ?n @ ?rs @ [])"
    using read_from_steps(1) [OF a1] by blast
  obtain c3 where r3: "read_u64_from ?buf c2 = Ok (wb_end_lsn b, c3)" and a3: "at_cursor ?buf c3 (to_le 4 ?n @ ?rs @ [])"
    using read_from_steps(1) [OF a2] by blast
  obtain c4 where r4: "read_u32_from ?buf c3 = Ok (?n, c4)" and a4: "at_cursor ?buf c4 (?rs @ [])"
    using read_from_steps(2) [OF a3] by blast
  have n: "unat ?n = length (wb_records b)"
    using record_lengths_bounded(2) [OF assms] by (auto intro!: unat_word_of_nat_small)
  show ?thesis
    using read_wal_records_encoded [OF a4 record_lengths_bounded(1) [OF assms]]
    by (simp add: decode_body_def r1 r2 r3 r4 n)
qed

lemma encode_wal_batch_frame:
  "length (encode_body b) < 2 ^ 32 \<Longrightarrow> encode_wal_batch b out = Ok (out @ wal_frame b)"
  by (simp add: encode_wal_batch_def wal_frame_def)

lemma wal_frame_len_word:
  "length (encode_body b) < 2 ^ 32 \<Longrightarrow> unat (from_le (take 4 (wal_frame b @ rest)) :: u32) = length (encode_body b)"
  by (simp add: wal_frame_def unat_word_of_nat_small)

lemma read_wal_batch_frame:
  assumes "wal_frame_ok b"
  shows "read_wal_batch (wal_frame b @ rest) = Ok (Some b, rest)"
proof -
  have l: "length (encode_body b) < 2 ^ 32" using assms by (simp add: wal_frame_ok_def)
  have pos: "length (encode_body b) \<noteq> 0" by (simp add: length_encode_body)
  have d: "drop 4 (wal_frame b @ rest) = encode_body b @ rest" and n: "\<not> length (wal_frame b @ rest) < 4"
    by (simp_all add: wal_frame_def)
  show ?thesis
    using assms pos
    by (simp only: read_wal_batch_def n if_False Let_def wal_frame_len_word [OF l] d)
      (simp add: wal_frame_ok_def decode_body_encoded [OF l])
qed

lemma read_wal_batch_oversized:
  assumes "MAX_WAL_FRAME_LEN < length (encode_body b)" and "length (encode_body b) < 2 ^ 32"
  shows "\<exists>msg. read_wal_batch (wal_frame b @ rest) = invalid_data msg"
proof -
  have n: "\<not> length (wal_frame b @ rest) < 4" by (simp add: wal_frame_def)
  show ?thesis
    using assms(1) by (simp only: read_wal_batch_def n if_False Let_def wal_frame_len_word [OF assms(2)]) auto
qed

lemma read_wal_batch_shorter:
  "read_wal_batch bs = Ok (Some b, rest) \<Longrightarrow> length rest < length bs"
  by (auto simp: read_wal_batch_def Let_def res_map_Ok_iff invalid_data_def split: if_splits)

interpretation wal: frame_codec wal_frame read_wal_batch wal_frame_ok
proof unfold_locales
  show "\<exists>rest. read_wal_batch [] = Ok (None, rest)" by (simp add: read_wal_batch_def)
  show "wal_frame x \<noteq> []" for x by (metis Nil_is_append_conv length_to_le list.size(3) wal_frame_def zero_neq_numeral)
qed (auto simp: read_wal_batch_frame read_wal_batch_shorter)

lemma read_from_no_panic [safe_intros]:
  "no_panic (read_u64_from buf c)" "no_panic (read_u32_from buf c)" "no_panic (read_u16_from buf c)"
  "no_panic (read_u8_from buf c)"
  by (simp_all add: read_u64_from_def read_u32_from_def read_u16_from_def read_u8_from_def truncated_def buf_simps)

lemma read_wal_record_no_panic [safe_intros]: "no_panic (read_wal_record buf c)"
  unfolding read_wal_record_def by (intro safe_intros) auto

lemma read_wal_records_no_panic [safe_intros]: "no_panic (read_wal_records buf c n)"
  by (induction buf c n rule: read_wal_records.induct) (simp, simp, intro safe_intros, auto)

lemma decode_body_no_panic [safe_intros]: "no_panic (decode_body buf)"
  unfolding decode_body_def by (intro safe_intros) auto

lemma read_wal_batch_no_panic: "no_panic (read_wal_batch bs)"
  unfolding read_wal_batch_def Let_def by (intro safe_intros) auto

lemma add_record_lens_eq:
  "n + (\<Sum>r\<leftarrow>rs. 27 + length (wr_key r) + length (wr_value r)) < 2 ^ 64 \<Longrightarrow>
   add_record_lens (word_of_nat n) rs = Ok (word_of_nat (n + (\<Sum>r\<leftarrow>rs. 27 + length (wr_key r) + length (wr_value r))))"
proof (induction rs arbitrary: n)
  case (Cons r rs)
  let ?k = "length (wr_key r)" and ?v = "length (wr_value r)"
  have "chk_add (word_of_nat a :: u64) (word_of_nat b) = Ok (word_of_nat (a + b))" if "a + b < 2 ^ 64" for a b
    using that by (simp add: chk_add_def unat_word_of_nat_small)
  note add = this
  have "chk_add (word_of_nat n :: u64) 27 = Ok (word_of_nat (n + 27))"
    using add [of n 27] Cons.prems by simp
  moreover have "chk_add (word_of_nat ?k :: u64) (word_of_nat ?v) = Ok (word_of_nat (?k + ?v))"
    using Cons.prems by (intro add) simp
  moreover have "chk_add (word_of_nat (n + 27) :: u64) (word_of_nat (?k + ?v)) = Ok (word_of_nat (n + 27 + (?k + ?v)))"
    using Cons.prems by (intro add) simp
  ultimately have "add_record_lens (word_of_nat n) (r # rs) = add_record_lens (word_of_nat (n + 27 + (?k + ?v))) rs"
    by simp
  also have "\<dots> = Ok (word_of_nat (n + 27 + (?k + ?v) + (\<Sum>r\<leftarrow>rs. 27 + length (wr_key r) + length (wr_value r))))"
    using Cons.prems by (intro Cons.IH) simp
  finally show ?case by (simp add: ac_simps)
qed simp

section \<open>Properties\<close>

text \<open>C31: A log of batches whose frames are within the reader's limit reads back as exactly those batches,
  ending at the end of the file, and a torn length word after them changes nothing.\<close>

theorem wal_log_roundtrip:
  assumes "\<And>b. b \<in> set bs \<Longrightarrow> length (encode_body b) \<le> MAX_WAL_FRAME_LEN" and "length torn < 4"
  shows "read_log read_wal_batch (concat (map (\<lambda>b. case encode_wal_batch b [] of Ok f \<Rightarrow> f | _ \<Rightarrow> []) bs) @ torn) = (bs, AtEof)"
proof -
  have e: "(case encode_wal_batch b [] of Ok f \<Rightarrow> f | _ \<Rightarrow> []) = wal_frame b" if "b \<in> set bs" for b
    using assms(1) [OF that] by (simp add: encode_wal_batch_frame)
  have "read_wal_batch torn = Ok (None, [])" using assms(2) by (simp add: read_wal_batch_def)
  then have "read_log read_wal_batch torn = ([], AtEof)" by (subst wal.read_log_unfold) simp
  then have "read_log read_wal_batch (concat (map wal_frame bs) @ torn) = (bs, AtEof)"
    using wal.read_log_concat [of bs torn] assms(1) by (simp add: wal_frame_ok_def)
  then show ?thesis using e by (simp cong: map_cong)
qed

lemma sample_batch_length: "length (encode_body sample_batch) = 85"
  by (simp add: length_encode_body sample_batch_def)

theorem wal_log_roundtrip_witness:
  "read_log read_wal_batch (concat (map (\<lambda>b. case encode_wal_batch b [] of Ok f \<Rightarrow> f | _ \<Rightarrow> []) [sample_batch, sample_batch]) @ [7, 7])
     = ([sample_batch, sample_batch], AtEof)"
  by (rule wal_log_roundtrip) (auto simp: sample_batch_length)

text \<open>The reader is total: on every byte string it returns a batch, the end of the log or an error,
  and the loop over a segment ends at the end of the file or at an error, never in a panic.\<close>

theorem wal_reader_total: "no_panic (read_wal_batch bs) \<and> (\<exists>bs' e. read_log read_wal_batch bs = (bs', e) \<and> e \<noteq> OutOfFuel \<and> e \<noteq> AtPanic)"
proof -
  have "snd (read_log read_wal_batch bs) \<noteq> AtPanic"
  proof (induction "length bs" arbitrary: bs rule: less_induct)
    case less
    show ?case
      using less [OF read_wal_batch_shorter] read_wal_batch_no_panic [of bs]
      by (subst wal.read_log_unfold) (auto split: result.splits option.splits prod.splits)
  qed
  then show ?thesis
    using wal.read_log_never_out_of_fuel [of bs] read_wal_batch_no_panic
    by (cases "read_log read_wal_batch bs") auto
qed

text \<open>C34: The size that admission control computes for a batch is the number of bytes its frame takes in
  the log.\<close>

theorem wal_encoded_len_exact:
  assumes "encode_wal_batch b [] = Ok frame"
  shows "wal_batch_encoded_len b = Ok (word_of_nat (length frame)) \<and> length frame < 2 ^ 32 + 4"
proof -
  have l: "length (encode_body b) < 2 ^ 32"
    using assms by (auto simp: encode_wal_batch_def invalid_data_def split: if_splits)
  then have f: "frame = wal_frame b" using assms by (simp add: encode_wal_batch_frame)
  have len: "length frame = length (encode_body b) + 4" by (simp add: f wal_frame_def)
  then have sum: "32 + (\<Sum>r\<leftarrow>wb_records b. 27 + length (wr_key r) + length (wr_value r)) = length frame"
    by (simp add: length_encode_body)
  have "add_record_lens (word_of_nat 32) (wb_records b) = Ok (word_of_nat (length frame))"
    using add_record_lens_eq [of 32 "wb_records b"] l len unfolding sum by simp
  then show ?thesis using l len by (simp add: wal_batch_encoded_len_def)
qed

theorem wal_encoded_len_exact_witness: "wal_batch_encoded_len sample_batch = Ok 89"
proof -
  have "encode_wal_batch sample_batch [] = Ok (wal_frame sample_batch)"
    by (simp add: encode_wal_batch_frame sample_batch_length)
  from wal_encoded_len_exact [OF this] show ?thesis by (simp add: wal_frame_def sample_batch_length)
qed

text \<open>The writer has no counterpart of the reader's frame limit: a batch whose body exceeds 16 MiB (and
  fits the 32-bit length word) is encoded, and the log then fails to read at that frame, so that all
  later batches are lost to the reader.\<close>

theorem wal_oversized_frame_unreadable:
  assumes "MAX_WAL_FRAME_LEN < length (encode_body b)" and "length (encode_body b) < 2 ^ 32"
  shows "\<exists>frame e. encode_wal_batch b [] = Ok frame \<and> read_log read_wal_batch (frame @ rest) = ([], AtError e)"
proof -
  obtain msg where "read_wal_batch (wal_frame b @ rest) = invalid_data msg"
    using read_wal_batch_oversized [OF assms] by blast
  then have "read_log read_wal_batch (wal_frame b @ rest) = ([], AtError (Io InvalidData msg))"
    by (subst wal.read_log_unfold) (simp add: invalid_data_def)
  then show ?thesis using encode_wal_batch_frame [OF assms(2), of "[]"] by auto
qed

lemma big_batch_length: "length (encode_body big_batch) = 16777271"
  by (simp add: length_encode_body big_batch_def)

theorem wal_oversized_frame_unreadable_witness:
  "\<exists>frame e. encode_wal_batch big_batch [] = Ok frame \<and> read_log read_wal_batch (frame @ wal_frame sample_batch) = ([], AtError e)"
  by (rule wal_oversized_frame_unreadable) (simp_all add: big_batch_length)

end
