(* ===== verification/Ordered_Map.thy ===== *)
theory Ordered_Map
  imports Main "HOL-Library.List_Lexorder" Prelude
begin

text \<open>
  \<open>std::collections::BTreeMap\<close> as the sources use it: an association list in strictly ascending key order,
  so that iteration order is that of the map. \<open>om_entry\<close> is \<open>entry(k).or_default()\<close> followed by a change
  of the value, \<open>om_range\<close> iteration over an inclusive-exclusive key range. The locale \<open>map_spec\<close> states
  the laws callers rely on; it is interpreted on these operations.
\<close>

type_synonym ('k, 'v) omap = "('k \<times> 'v) list"

section \<open>Operations\<close>

definition om_wf :: "('k::linorder, 'v) omap \<Rightarrow> bool" where
  "om_wf m \<longleftrightarrow> sorted_wrt (<) (map fst m)"

fun om_insert :: "'k::linorder \<Rightarrow> 'v \<Rightarrow> ('k, 'v) omap \<Rightarrow> ('k, 'v) omap" where
  "om_insert k v [] = [(k, v)]"
| "om_insert k v ((k', v') # m) =
    (if k < k' then (k, v) # (k', v') # m
     else if k = k' then (k, v) # m
     else (k', v') # om_insert k v m)"

definition om_remove :: "'k::linorder \<Rightarrow> ('k, 'v) omap \<Rightarrow> ('k, 'v) omap" where
  "om_remove k m = filter (\<lambda>(k', _). k' \<noteq> k) m"

definition om_lookup :: "('k::linorder, 'v) omap \<Rightarrow> 'k \<Rightarrow> 'v option" where
  "om_lookup m k = map_of m k"

definition om_entry :: "'k::linorder \<Rightarrow> 'v \<Rightarrow> ('v \<Rightarrow> 'v) \<Rightarrow> ('k, 'v) omap \<Rightarrow> ('k, 'v) omap" where
  "om_entry k dflt f m = om_insert k (f (case om_lookup m k of Some v \<Rightarrow> v | None \<Rightarrow> dflt)) m"

definition om_range :: "'k::linorder \<Rightarrow> 'k \<Rightarrow> ('k, 'v) omap \<Rightarrow> ('k, 'v) omap" where
  "om_range lo hi m = filter (\<lambda>(k, _). lo \<le> k \<and> k < hi) m"

definition om_map_values :: "('v \<Rightarrow> 'w) \<Rightarrow> ('k, 'v) omap \<Rightarrow> ('k, 'w) omap" where
  "om_map_values f m = map (\<lambda>(k, v). (k, f v)) m"

section \<open>Laws\<close>

lemma om_wf_Nil [simp]: "om_wf []"
  by (simp add: om_wf_def)

lemma om_lookup_Nil [simp]: "om_lookup [] k = None"
  by (simp add: om_lookup_def)

lemma fst_set_om_insert: "fst ` set (om_insert k v m) = insert k (fst ` set m)"
  by (induction k v m rule: om_insert.induct) auto

lemma om_wf_insert: "om_wf m \<Longrightarrow> om_wf (om_insert k v m)"
  unfolding om_wf_def
proof (induction k v m rule: om_insert.induct)
  case (2 k v k' v' m)
  have lo: "\<forall>x \<in> fst ` set m. k' < x" and m: "sorted_wrt (<) (map fst m)" using 2(2) by auto
  consider "k < k'" | "k = k'" | "k' < k" by force
  then show ?case
  proof cases
    case 1
    then show ?thesis using lo m by fastforce
  next
    case 2
    then show ?thesis using lo m by simp
  next
    case 3
    then have "\<forall>x \<in> fst ` set (om_insert k v m). k' < x" using lo by (simp add: fst_set_om_insert)
    then show ?thesis using 3 2(1) m by (auto simp: not_less_iff_gr_or_eq)
  qed
qed simp

lemma om_lookup_insert: "om_lookup (om_insert k v m) = (om_lookup m)(k \<mapsto> v)"
  unfolding om_lookup_def by (induction k v m rule: om_insert.induct) (auto simp: fun_eq_iff)

lemma om_wf_remove: "om_wf m \<Longrightarrow> om_wf (om_remove k m)"
  unfolding om_wf_def om_remove_def by (induction m) auto

lemma fst_set_om_remove: "fst ` set (om_remove k m) = fst ` set m - {k}"
  by (force simp: om_remove_def)

lemma om_lookup_remove: "om_lookup (om_remove k m) = (om_lookup m)(k := None)"
  unfolding om_lookup_def om_remove_def by (induction m) (auto simp: fun_eq_iff)

lemma om_wf_entry: "om_wf m \<Longrightarrow> om_wf (om_entry k d f m)"
  by (simp add: om_entry_def om_wf_insert)

lemma om_lookup_entry:
  "om_lookup (om_entry k d f m) k' =
    (if k' = k then Some (f (case om_lookup m k of Some v \<Rightarrow> v | None \<Rightarrow> d)) else om_lookup m k')"
  by (simp add: om_entry_def om_lookup_insert)

lemma om_lookup_iff: "om_wf m \<Longrightarrow> om_lookup m k = Some v \<longleftrightarrow> (k, v) \<in> set m"
proof -
  assume "om_wf m"
  then have "distinct (map fst m)" by (simp add: om_wf_def strict_sorted_iff)
  then show ?thesis by (simp add: om_lookup_def)
qed

lemma om_lookup_range: "om_lookup (om_range lo hi m) k = (if lo \<le> k \<and> k < hi then om_lookup m k else None)"
  unfolding om_lookup_def om_range_def by (induction m) auto

lemma om_wf_range: "om_wf m \<Longrightarrow> om_wf (om_range lo hi m)"
  unfolding om_wf_def om_range_def by (induction m) auto

lemma om_lookup_map_values: "om_lookup (om_map_values f m) k = map_option f (om_lookup m k)"
  unfolding om_lookup_def om_map_values_def by (induction m) auto

lemma om_wf_map_values [simp]: "om_wf (om_map_values f m) = om_wf m"
  unfolding om_wf_def om_map_values_def by (simp add: split_beta o_def)

lemma om_insert_set: "om_wf m \<Longrightarrow> set (om_insert k v m) = insert (k, v) (set (om_remove k m))"
proof -
  assume m: "om_wf m"
  have "(a, b) \<in> set (om_insert k v m) \<longleftrightarrow> (a, b) \<in> insert (k, v) (set (om_remove k m))" for a b
    using om_lookup_iff [OF om_wf_insert [OF m], of k v a b] om_lookup_iff [OF m, of a b]
    by (auto simp: om_lookup_insert om_remove_def split: if_splits)
  then show ?thesis by auto
qed

lemma om_ext: "om_wf m \<Longrightarrow> om_wf n \<Longrightarrow> om_lookup m = om_lookup n \<Longrightarrow> m = n"
proof -
  assume a: "om_wf m" "om_wf n" "om_lookup m = om_lookup n"
  then have "set m = set n" using om_lookup_iff by (metis subrelI subset_antisym surj_pair)
  moreover have "sorted (map fst m)" "sorted (map fst n)" "distinct (map fst m)" "distinct (map fst n)"
    using a by (simp_all add: om_wf_def strict_sorted_iff)
  ultimately show ?thesis
    by (intro map_sorted_distinct_set_unique [of fst]) (simp_all add: distinct_map)
qed

section \<open>The map contract\<close>

locale map_spec =
  fixes wf :: "'m \<Rightarrow> bool" and lookup :: "'m \<Rightarrow> 'k \<Rightarrow> 'v option"
    and insert :: "'k \<Rightarrow> 'v \<Rightarrow> 'm \<Rightarrow> 'm" and remove :: "'k \<Rightarrow> 'm \<Rightarrow> 'm"
  assumes wf_insert: "wf m \<Longrightarrow> wf (insert k v m)" and wf_remove: "wf m \<Longrightarrow> wf (remove k m)"
    and lookup_insert: "wf m \<Longrightarrow> lookup (insert k v m) = (lookup m)(k \<mapsto> v)"
    and lookup_remove: "wf m \<Longrightarrow> lookup (remove k m) = (lookup m)(k := None)"
begin

lemma remove_insert: "wf m \<Longrightarrow> lookup m k = None \<Longrightarrow> lookup (remove k (insert k v m)) = lookup m"
  by (simp add: lookup_remove wf_insert lookup_insert fun_eq_iff)

lemma fold_insert_lookup:
  "wf m \<Longrightarrow> wf (fold (\<lambda>(k, v). insert k v) kvs m) \<and> lookup (fold (\<lambda>(k, v). insert k v) kvs m) = lookup m ++ map_of (rev kvs)"
proof (induction kvs arbitrary: m)
  case (Cons kv kvs)
  obtain k v where "kv = (k, v)" by (cases kv)
  then show ?case using Cons.IH [OF wf_insert [OF Cons.prems]] Cons.prems
    by (auto simp: lookup_insert map_add_def fun_eq_iff split: option.splits)
qed simp

end

interpretation om: map_spec om_wf om_lookup om_insert om_remove
  by unfold_locales (simp_all add: om_wf_insert om_wf_remove om_lookup_insert om_lookup_remove)

end
