(* ===== verification/Page_Store.thy ===== *)
theory Page_Store
  imports Ordered_Map Common
begin

text \<open>
  The page store (\<open>page_store.rs\<close>): a buffer pool over the page file, with checkpoints and eviction.

  The page file is its byte string, grown by zeros as \<open>set_len\<close> does; the checkpoint state file is its
  contents, if it exists. The buffer pool is an ordered map (the hash map's iteration order matters only
  between pages with the same access time). \<open>Instant::now()\<close> is the argument \<open>now\<close>. Locks are held for
  the duration of a block only, so \<open>checkpoint\<close> and \<open>evict_cold_pages\<close> are given by their steps
  between which other calls may run, and as the composition of the steps.

  \<open>ps_view\<close> is what a read returns. The lemmas show that reads see the last put, that a checkpoint makes
  the dirty pages durable and clean, that eviction keeps the view of every page that is not all zero, and
  what a crash leaves.
\<close>

section \<open>State\<close>

record checkpoint_config =
  cc_interval :: nat
  cc_max_dirty_pages :: nat
  cc_max_dirty_bytes :: nat

record buffer_pool_config =
  bc_max_pages :: nat
  bc_eviction_batch_size :: nat

record buffer_page =
  bp_data :: bytes
  bp_dirty :: bool
  bp_lsn :: u64
  bp_last_accessed :: nat

record buffer_stats =
  bs_total_pages :: nat
  bs_dirty_count :: nat
  bs_dirty_bytes :: nat
  bs_max_lsn :: u64

record page_store =
  ps_pool :: "(u64, buffer_page) omap"
  ps_file :: bytes
  ps_state_file :: "bytes option"
  ps_checkpoint_lsn :: u64
  ps_max_page_id :: u64
  ps_hits :: u64
  ps_misses :: u64
  ps_last_checkpoint :: nat
  ps_shutdown :: bool

section \<open>Page file\<close>

definition default_checkpoint_config :: checkpoint_config where
  "default_checkpoint_config = \<lparr>cc_interval = 60000, cc_max_dirty_pages = 1000, cc_max_dirty_bytes = 67108864\<rparr>"

definition default_buffer_pool_config :: buffer_pool_config where
  "default_buffer_pool_config = \<lparr>bc_max_pages = 10000, bc_eviction_batch_size = 100\<rparr>"

definition bp_from_slice :: "bytes \<Rightarrow> bool \<Rightarrow> u64 \<Rightarrow> nat \<Rightarrow> buffer_page res" where
  "bp_from_slice data dirty l now =
    (if length data \<noteq> PAGE_SIZE then Err (InvalidPageSize (length data) PAGE_SIZE)
     else Ok \<lparr>bp_data = data, bp_dirty = dirty, bp_lsn = l, bp_last_accessed = now\<rparr>)"

text \<open>\<open>page_id * PAGE_SIZE + PAGE_SIZE\<close> must fit 64 bits.\<close>

definition page_ok :: "u64 \<Rightarrow> bool" where
  "page_ok pid \<longleftrightarrow> unat pid * PAGE_SIZE + PAGE_SIZE < 2 ^ 64"

definition pf_read_page :: "bytes \<Rightarrow> u64 \<Rightarrow> bytes option res" where
  "pf_read_page file pid =
    (if \<not> page_ok pid then Panic
     else let offset = unat pid * PAGE_SIZE in
       if offset + PAGE_SIZE > length file then Ok None
       else let buf = get_at file offset PAGE_SIZE in
         if list_all (\<lambda>b. b = 0) buf then Ok None else Ok (Some buf))"

definition pf_write_page :: "bytes \<Rightarrow> u64 \<Rightarrow> bytes \<Rightarrow> bytes res" where
  "pf_write_page file pid data =
    (if length data \<noteq> PAGE_SIZE then Err (InvalidPageSize (length data) PAGE_SIZE)
     else if \<not> page_ok pid then Panic
     else let offset = unat pid * PAGE_SIZE; required = offset + PAGE_SIZE;
              file' = (if required > length file then file @ replicate (required - length file) 0 else file) in
       Ok (put_at file' offset data))"

fun pf_write_pages :: "bytes \<Rightarrow> (u64 \<times> bytes) list \<Rightarrow> bytes res" where
  "pf_write_pages file [] = Ok file"
| "pf_write_pages file ((pid, data) # ws) = res_bind (pf_write_page file pid data) (\<lambda>f. pf_write_pages f ws)"

definition read_checkpoint_state :: "bytes option \<Rightarrow> u64 res" where
  "read_checkpoint_state f =
    (case f of None \<Rightarrow> Ok 0
     | Some bs \<Rightarrow> if length bs < 8 then Err (Io UnexpectedEof ''early eof'') else Ok (from_le (take 8 bs)))"

definition write_checkpoint_state :: "u64 \<Rightarrow> bytes option" where
  "write_checkpoint_state l = Some (to_le 8 l)"

section \<open>Operations\<close>

text \<open>Opening a store on the files of a directory: the pool is empty, and an unreadable checkpoint state
  counts as 0.\<close>

definition ps_open :: "bytes \<Rightarrow> bytes option \<Rightarrow> nat \<Rightarrow> page_store" where
  "ps_open file state now =
    \<lparr>ps_pool = [], ps_file = file, ps_state_file = state,
     ps_checkpoint_lsn = (case read_checkpoint_state state of Ok l \<Rightarrow> l | _ \<Rightarrow> 0),
     ps_max_page_id = (if length file > 0 then word_of_nat (length file div PAGE_SIZE - 1) else 0),
     ps_hits = 0, ps_misses = 0, ps_last_checkpoint = now, ps_shutdown = False\<rparr>"

definition ps_get_with_lsn :: "nat \<Rightarrow> u64 \<Rightarrow> page_store \<Rightarrow> ((bytes \<times> u64) option \<times> page_store) res" where
  "ps_get_with_lsn now pid ps =
    (case om_lookup (ps_pool ps) pid of
       Some bp \<Rightarrow> Ok (Some (bp_data bp, bp_lsn bp),
          ps\<lparr>ps_pool := om_insert pid (bp\<lparr>bp_last_accessed := now\<rparr>) (ps_pool ps), ps_hits := ps_hits ps + 1\<rparr>)
     | None \<Rightarrow>
         (case pf_read_page (ps_file ps) pid of
            Ok (Some data) \<Rightarrow> Ok (Some (data, 0), ps\<lparr>ps_misses := ps_misses ps + 1\<rparr>)
          | Ok None \<Rightarrow> Ok (None, ps\<lparr>ps_misses := ps_misses ps + 1\<rparr>)
          | Err _ \<Rightarrow> Ok (None, ps\<lparr>ps_misses := ps_misses ps + 1\<rparr>)
          | Panic \<Rightarrow> Panic))"

definition ps_get :: "nat \<Rightarrow> u64 \<Rightarrow> page_store \<Rightarrow> (bytes option \<times> page_store) res" where
  "ps_get now pid ps = res_bind (ps_get_with_lsn now pid ps) (\<lambda>(r, ps'). Ok (map_option fst r, ps'))"

text \<open>The loop over \<open>start..=max_id\<close>: \<open>n\<close> page ids are left from \<open>pid\<close> on.\<close>

fun scan_from :: "nat \<Rightarrow> nat \<Rightarrow> nat \<Rightarrow> nat \<Rightarrow> page_store \<Rightarrow> ((u64 \<times> u64 \<times> bytes) list \<times> page_store) res" where
  "scan_from now 0 pid limit ps = Ok ([], ps)"
| "scan_from now (Suc n) pid limit ps =
    res_bind (ps_get_with_lsn now (word_of_nat pid) ps) (\<lambda>(r, ps').
      case r of
        None \<Rightarrow> scan_from now n (Suc pid) limit ps'
      | Some (page, l) \<Rightarrow>
          if limit \<le> 1 then Ok ([(word_of_nat pid, l, page)], ps')
          else res_bind (scan_from now n (Suc pid) (limit - 1) ps') (\<lambda>(out, ps'').
            Ok ((word_of_nat pid, l, page) # out, ps'')))"

definition scan_pages_with_lsn :: "nat \<Rightarrow> u64 \<Rightarrow> nat \<Rightarrow> page_store \<Rightarrow> ((u64 \<times> u64 \<times> bytes) list \<times> page_store) res" where
  "scan_pages_with_lsn now start limit ps =
    (if limit = 0 then Ok ([], ps)
     else scan_from now (unat (ps_max_page_id ps) + 1 - unat start) (unat start) limit ps)"

definition ps_put :: "nat \<Rightarrow> u64 \<Rightarrow> bytes \<Rightarrow> u64 \<Rightarrow> page_store \<Rightarrow> page_store res" where
  "ps_put now pid data l ps =
    res_bind (bp_from_slice data True l now) (\<lambda>bp.
      Ok (ps\<lparr>ps_pool := om_insert pid bp (ps_pool ps), ps_max_page_id := max (ps_max_page_id ps) pid\<rparr>))"

definition ps_put_direct :: "nat \<Rightarrow> u64 \<Rightarrow> bytes \<Rightarrow> page_store \<Rightarrow> page_store res" where
  "ps_put_direct now pid data ps = ps_put now pid data 0 ps"

definition ps_delete :: "u64 \<Rightarrow> page_store \<Rightarrow> page_store" where
  "ps_delete pid ps = ps\<lparr>ps_pool := om_remove pid (ps_pool ps)\<rparr>"

definition ps_contains :: "nat \<Rightarrow> u64 \<Rightarrow> page_store \<Rightarrow> (bool \<times> page_store) res" where
  "ps_contains now pid ps = res_bind (ps_get now pid ps) (\<lambda>(r, ps'). Ok (r \<noteq> None, ps'))"

definition ps_buffer_stats :: "page_store \<Rightarrow> buffer_stats" where
  "ps_buffer_stats ps = fold (\<lambda>(_, bp) st.
      let st' = (if bp_dirty bp
                 then st\<lparr>bs_dirty_count := bs_dirty_count st + 1, bs_dirty_bytes := bs_dirty_bytes st + PAGE_SIZE\<rparr>
                 else st) in
      if bp_lsn bp > bs_max_lsn st' then st'\<lparr>bs_max_lsn := bp_lsn bp\<rparr> else st')
    (ps_pool ps) \<lparr>bs_total_pages = length (ps_pool ps), bs_dirty_count = 0, bs_dirty_bytes = 0, bs_max_lsn = 0\<rparr>"

subsection \<open>Checkpoint\<close>

text \<open>The three blocks of \<open>checkpoint\<close>: collecting the dirty pages in page order, writing and syncing the
  page file, and marking the collected ids clean and publishing the checkpoint LSN. \<open>sync_ok\<close> says
  whether the sync succeeds; when it fails, the call returns with the pool untouched.\<close>

definition cp_collect :: "page_store \<Rightarrow> (u64 \<times> bytes \<times> u64) list" where
  "cp_collect ps = map (\<lambda>(pid, bp). (pid, bp_data bp, bp_lsn bp)) (filter (\<lambda>(_, bp). bp_dirty bp) (ps_pool ps))"

definition cp_max_lsn :: "(u64 \<times> bytes \<times> u64) list \<Rightarrow> u64" where
  "cp_max_lsn dirty = fold (\<lambda>(_, _, l) m. if l > m then l else m) dirty 0"

definition cp_write :: "(u64 \<times> bytes \<times> u64) list \<Rightarrow> page_store \<Rightarrow> page_store res" where
  "cp_write dirty ps =
    res_bind (pf_write_pages (ps_file ps) (map (\<lambda>(pid, data, _). (pid, data)) dirty)) (\<lambda>f. Ok (ps\<lparr>ps_file := f\<rparr>))"

definition mark_clean :: "u64 \<Rightarrow> (u64, buffer_page) omap \<Rightarrow> (u64, buffer_page) omap" where
  "mark_clean pid pool =
    (case om_lookup pool pid of Some bp \<Rightarrow> om_insert pid (bp\<lparr>bp_dirty := False\<rparr>) pool | None \<Rightarrow> pool)"

definition cp_finish :: "nat \<Rightarrow> (u64 \<times> bytes \<times> u64) list \<Rightarrow> page_store \<Rightarrow> page_store" where
  "cp_finish now dirty ps =
    (let ps1 = ps\<lparr>ps_pool := fold (\<lambda>(pid, _, _). mark_clean pid) dirty (ps_pool ps)\<rparr>;
         m = cp_max_lsn dirty;
         ps2 = (if m > ps_checkpoint_lsn ps1
                then ps1\<lparr>ps_checkpoint_lsn := m, ps_state_file := write_checkpoint_state m\<rparr> else ps1) in
     ps2\<lparr>ps_last_checkpoint := now\<rparr>)"

definition ps_checkpoint :: "nat \<Rightarrow> bool \<Rightarrow> page_store \<Rightarrow> (page_store \<times> bool) res" where
  "ps_checkpoint now sync_ok ps =
    (let dirty = cp_collect ps in
     if dirty = [] then Ok (ps, True)
     else res_bind (cp_write dirty ps) (\<lambda>ps1.
       if \<not> sync_ok then Ok (ps1, False) else Ok (cp_finish now dirty ps1, True)))"

definition should_checkpoint :: "nat \<Rightarrow> checkpoint_config \<Rightarrow> page_store \<Rightarrow> bool" where
  "should_checkpoint now cfg ps =
    (let st = ps_buffer_stats ps in
     bs_dirty_count st > cc_max_dirty_pages cfg \<or> bs_dirty_bytes st > cc_max_dirty_bytes cfg
     \<or> now - ps_last_checkpoint ps > cc_interval cfg)"

definition maybe_checkpoint :: "nat \<Rightarrow> bool \<Rightarrow> checkpoint_config \<Rightarrow> page_store \<Rightarrow> (page_store \<times> bool) res" where
  "maybe_checkpoint now sync_ok cfg ps =
    (if should_checkpoint now cfg ps then ps_checkpoint now sync_ok ps else Ok (ps, False))"

subsection \<open>Eviction\<close>

text \<open>The blocks of \<open>evict_cold_pages\<close>: choosing the coldest pages, flushing the dirty ones among them,
  and removing them from the pool.\<close>

definition ev_choose :: "buffer_pool_config \<Rightarrow> page_store \<Rightarrow> (u64 \<times> bool) list" where
  "ev_choose cfg ps =
    (let n = length (ps_pool ps); to_evict = n - bc_max_pages cfg + bc_eviction_batch_size cfg in
     map (\<lambda>(pid, bp). (pid, bp_dirty bp))
       (take to_evict (sort_key (\<lambda>(_, bp). bp_last_accessed bp) (ps_pool ps))))"

definition ev_flush :: "(u64 \<times> bool) list \<Rightarrow> page_store \<Rightarrow> page_store res" where
  "ev_flush victims ps =
    res_bind (pf_write_pages (ps_file ps)
      (List.map_filter (\<lambda>(pid, dirty). if dirty
          then map_option (\<lambda>bp. (pid, bp_data bp)) (om_lookup (ps_pool ps) pid) else None) victims))
      (\<lambda>f. Ok (ps\<lparr>ps_file := f\<rparr>))"

definition ev_remove :: "(u64 \<times> bool) list \<Rightarrow> page_store \<Rightarrow> nat \<times> page_store" where
  "ev_remove victims ps =
    fold (\<lambda>(pid, _) (n, s). if om_lookup (ps_pool s) pid \<noteq> None
        then (n + 1, s\<lparr>ps_pool := om_remove pid (ps_pool s)\<rparr>) else (n, s)) victims (0, ps)"

definition evict_cold_pages :: "buffer_pool_config \<Rightarrow> page_store \<Rightarrow> (nat \<times> page_store) res" where
  "evict_cold_pages cfg ps =
    (if length (ps_pool ps) \<le> bc_max_pages cfg then Ok (0, ps)
     else let victims = ev_choose cfg ps in
       res_bind (ev_flush victims ps) (\<lambda>ps1. Ok (ev_remove victims ps1)))"

definition maybe_evict :: "buffer_pool_config \<Rightarrow> page_store \<Rightarrow> (nat \<times> page_store) res" where
  "maybe_evict cfg ps = (if length (ps_pool ps) > bc_max_pages cfg then evict_cold_pages cfg ps else Ok (0, ps))"

text \<open>One round of the background task, and a crash: the pool is lost, the files stay.\<close>

definition background_round :: "nat \<Rightarrow> bool \<Rightarrow> checkpoint_config \<Rightarrow> buffer_pool_config \<Rightarrow> page_store \<Rightarrow> page_store res" where
  "background_round now sync_ok cc bc ps =
    (if ps_shutdown ps then res_bind (ps_checkpoint now sync_ok ps) (\<lambda>(ps', _). Ok ps')
     else res_bind (maybe_checkpoint now sync_ok cc ps) (\<lambda>(ps1, _).
       res_bind (maybe_evict bc ps1) (\<lambda>(_, ps2). Ok ps2)))"

definition ps_crash :: "nat \<Rightarrow> page_store \<Rightarrow> page_store" where
  "ps_crash now ps = ps_open (ps_file ps) (ps_state_file ps) now"

definition zero_page :: bytes where "zero_page = replicate PAGE_SIZE 0"

definition file_page :: "bytes \<Rightarrow> u64 \<Rightarrow> bytes" where
  "file_page file pid = (if unat pid * PAGE_SIZE + PAGE_SIZE \<le> length file
     then get_at file (unat pid * PAGE_SIZE) PAGE_SIZE else zero_page)"

definition nonzero :: "bytes \<Rightarrow> bytes option" where
  "nonzero d = (if d = zero_page then None else Some d)"

definition ps_view :: "page_store \<Rightarrow> u64 \<Rightarrow> bytes option" where
  "ps_view ps pid = (case om_lookup (ps_pool ps) pid of Some bp \<Rightarrow> Some (bp_data bp) | None \<Rightarrow> nonzero (file_page (ps_file ps) pid))"

definition pool_ok :: "bytes \<Rightarrow> (u64, buffer_page) omap \<Rightarrow> bool" where
  "pool_ok file pool \<longleftrightarrow> om_wf pool \<and> (\<forall>pid bp. om_lookup pool pid = Some bp \<longrightarrow>
     length (bp_data bp) = PAGE_SIZE \<and> page_ok pid \<and> (\<not> bp_dirty bp \<longrightarrow> file_page file pid = bp_data bp))"

definition file_ok :: "bytes \<Rightarrow> bool" where
  "file_ok f \<longleftrightarrow> PAGE_SIZE dvd length f \<and> length f < 2 ^ 64"

definition ps_wf :: "page_store \<Rightarrow> bool" where
  "ps_wf ps \<longleftrightarrow> file_ok (ps_file ps) \<and> pool_ok (ps_file ps) (ps_pool ps) \<and> page_ok (ps_max_page_id ps)"

lemma length_zero_page [simp]: "length zero_page = PAGE_SIZE"
  by (simp add: zero_page_def)

lemma all_zero_iff: "length d = PAGE_SIZE \<Longrightarrow> list_all (\<lambda>b. b = 0) d \<longleftrightarrow> d = zero_page"
  by (auto simp: zero_page_def list_all_iff intro!: replicate_eqI)

lemma length_file_page [simp]: "length (file_page file pid) = PAGE_SIZE"
  by (simp add: file_page_def length_get_at)

lemma pf_read_page_eq: "page_ok pid \<Longrightarrow> pf_read_page file pid = Ok (nonzero (file_page file pid))"
  by (auto simp: pf_read_page_def Let_def nonzero_def file_page_def all_zero_iff length_get_at)

lemma pages_apart:
  assumes "pid \<noteq> (pid' :: u64)"
  shows "unat pid * PAGE_SIZE + PAGE_SIZE \<le> unat pid' * PAGE_SIZE \<or> unat pid' * PAGE_SIZE + PAGE_SIZE \<le> unat pid * PAGE_SIZE"
proof -
  have "unat pid \<noteq> unat pid'" using assms by (simp add: word_unat_eq_iff)
  then have "unat pid + 1 \<le> unat pid' \<or> unat pid' + 1 \<le> unat pid" by linarith
  then show ?thesis by linarith
qed

lemma file_page_extend:
  assumes "PAGE_SIZE dvd length file"
  shows "file_page (file @ replicate n 0) pid = file_page file pid"
proof (cases "unat pid * PAGE_SIZE + PAGE_SIZE \<le> length file")
  case True
  then show ?thesis by (simp add: file_page_def get_at_def)
next
  case False
  obtain k where k: "length file = PAGE_SIZE * k" using assms by blast
  then have "k \<le> unat pid" using False by (metis add.commute linorder_not_le mult.commute mult_Suc mult_le_mono1 not_less_eq_eq)
  then have "length file \<le> unat pid * PAGE_SIZE" using k by simp
  then show ?thesis using False by (auto simp: file_page_def get_at_def zero_page_def min_def)
qed

lemma pf_write_page_ok:
  assumes dvd: "file_ok file" and pid: "page_ok pid" and d: "length data = PAGE_SIZE"
  shows "\<exists>f. pf_write_page file pid data = Ok f \<and> file_ok f \<and> file_page f = (file_page file)(pid := data)"
proof -
  define req where "req = unat pid * PAGE_SIZE + PAGE_SIZE"
  define file' where "file' = (if req > length file then file @ replicate (req - length file) 0 else file)"
  have len: "length file' = max req (length file)" by (auto simp: file'_def)
  have dvd': "file_ok file'" using dvd pid by (auto simp: file_ok_def page_ok_def len max_def req_def)
  have same: "file_page file' = file_page file" using file_page_extend dvd by (auto simp: file_ok_def file'_def)
  define f where "f = put_at file' (unat pid * PAGE_SIZE) data"
  have "pf_write_page file pid data = Ok f"
    using pid d by (simp add: pf_write_page_def Let_def f_def file'_def req_def)
  moreover have "file_page f p = ((file_page file')(pid := data)) p" for p
  proof (cases "p = pid")
    case True
    then show ?thesis using d len by (simp add: file_page_def f_def get_at_put_at_same req_def)
  next
    case False
    have "get_at f (unat p * PAGE_SIZE) PAGE_SIZE = get_at file' (unat p * PAGE_SIZE) PAGE_SIZE"
      using pages_apart [OF False] d unfolding f_def by (intro get_at_put_at_disjoint) auto
    then show ?thesis using False by (simp add: file_page_def f_def)
  qed
  ultimately show ?thesis using dvd' same by (auto simp: f_def file_ok_def)
qed

lemma pf_write_pages_ok:
  assumes "file_ok f0" and "\<forall>(pid, data) \<in> set ws. page_ok pid \<and> length data = PAGE_SIZE"
  shows "\<exists>f. pf_write_pages f0 ws = Ok f \<and> file_ok f
    \<and> (\<forall>p. file_page f p = (case map_of (rev ws) p of Some d \<Rightarrow> d | None \<Rightarrow> file_page f0 p))"
  using assms
proof (induction ws arbitrary: f0)
  case (Cons w ws)
  obtain pid data where w: "w = (pid, data)" by (cases w)
  obtain f1 where f1: "pf_write_page f0 pid data = Ok f1" "file_ok f1" "file_page f1 = (file_page f0)(pid := data)"
    using pf_write_page_ok [of f0 pid data] Cons.prems w by auto
  obtain f where f: "pf_write_pages f1 ws = Ok f" "file_ok f"
      "\<And>p. file_page f p = (case map_of (rev ws) p of Some d \<Rightarrow> d | None \<Rightarrow> file_page f1 p)"
    using Cons.IH [OF f1(2)] Cons.prems by auto
  then show ?case using f1 w by (auto simp: map_add_def split: option.splits)
qed simp

lemma pool_okD:
  assumes "pool_ok file pool" and "om_lookup pool pid = Some bp"
  shows "length (bp_data bp) = PAGE_SIZE" "page_ok pid" "\<not> bp_dirty bp \<Longrightarrow> file_page file pid = bp_data bp"
  using assms by (auto simp: pool_ok_def)

lemma ps_get_view:
  assumes wf: "ps_wf ps" and pid: "page_ok pid"
  shows "\<exists>ps'. ps_get now pid ps = Ok (ps_view ps pid, ps') \<and> ps_wf ps' \<and> ps_view ps' = ps_view ps \<and> ps_file ps' = ps_file ps
    \<and> ps_state_file ps' = ps_state_file ps \<and> ps_checkpoint_lsn ps' = ps_checkpoint_lsn ps \<and> ps_max_page_id ps' = ps_max_page_id ps"
proof (cases "om_lookup (ps_pool ps) pid")
  case None
  then show ?thesis
    using wf by (auto simp: ps_get_def ps_get_with_lsn_def pf_read_page_eq [OF pid] ps_view_def ps_wf_def nonzero_def fun_eq_iff split: option.splits)
next
  case (Some bp)
  let ?ps = "ps\<lparr>ps_pool := om_insert pid (bp\<lparr>bp_last_accessed := now\<rparr>) (ps_pool ps), ps_hits := ps_hits ps + 1\<rparr>"
  have "ps_wf ?ps" using wf Some by (auto simp: ps_wf_def pool_ok_def om_wf_insert om_lookup_insert)
  moreover have "ps_view ?ps = ps_view ps" using Some by (auto simp: ps_view_def om_lookup_insert fun_eq_iff split: option.splits)
  ultimately show ?thesis using Some by (auto simp: ps_get_def ps_get_with_lsn_def ps_view_def)
qed

lemma ps_view_length: "ps_wf ps \<Longrightarrow> ps_view ps pid = Some p \<Longrightarrow> length p = PAGE_SIZE"
  by (auto simp: ps_view_def ps_wf_def pool_ok_def nonzero_def split: option.splits if_splits)

lemma ps_put_ok:
  assumes wf: "ps_wf ps" and pid: "page_ok pid" and d: "length data = PAGE_SIZE"
  shows "\<exists>ps'. ps_put now pid data l ps = Ok ps' \<and> ps_wf ps' \<and> ps_view ps' = (ps_view ps)(pid \<mapsto> data)
    \<and> om_lookup (ps_pool ps') = (om_lookup (ps_pool ps))(pid \<mapsto> \<lparr>bp_data = data, bp_dirty = True, bp_lsn = l, bp_last_accessed = now\<rparr>)
    \<and> ps_file ps' = ps_file ps \<and> ps_state_file ps' = ps_state_file ps \<and> ps_checkpoint_lsn ps' = ps_checkpoint_lsn ps
    \<and> ps_max_page_id ps' = max (ps_max_page_id ps) pid"
  using assms
  by (auto simp: ps_put_def bp_from_slice_def ps_wf_def pool_ok_def om_wf_insert om_lookup_insert ps_view_def fun_eq_iff max_def split: option.splits)

lemma mark_clean_lookup:
  "om_lookup (mark_clean pid pool) p = (if p = pid then map_option (\<lambda>bp. bp\<lparr>bp_dirty := False\<rparr>) (om_lookup pool pid) else om_lookup pool p)"
  by (auto simp: mark_clean_def om_lookup_insert split: option.splits)

lemma mark_clean_wf: "om_wf pool \<Longrightarrow> om_wf (mark_clean pid pool)"
  by (auto simp: mark_clean_def om_wf_insert split: option.splits)

lemma fold_mark_clean:
  "om_wf pool \<Longrightarrow> om_wf (fold (\<lambda>(pid, _, _). mark_clean pid) dirty pool)"
  "om_lookup (fold (\<lambda>(pid, _, _). mark_clean pid) dirty pool) p =
    (if p \<in> fst ` set dirty then map_option (\<lambda>bp. bp\<lparr>bp_dirty := False\<rparr>) (om_lookup pool p) else om_lookup pool p)"
  by (induction dirty arbitrary: pool) (auto simp: mark_clean_wf mark_clean_lookup option.map_comp o_def split: prod.splits)

lemma cp_collect_iff:
  assumes "om_wf (ps_pool ps)"
  shows "(pid, d, l) \<in> set (cp_collect ps) \<longleftrightarrow>
    (\<exists>bp. om_lookup (ps_pool ps) pid = Some bp \<and> bp_dirty bp \<and> d = bp_data bp \<and> l = bp_lsn bp)"
  using om_lookup_iff [OF assms] by (auto simp: cp_collect_def image_iff)

lemma distinct_collect:
  assumes "om_wf (ps_pool ps)"
  shows "distinct (map fst (cp_collect ps))"
proof -
  have "distinct (map fst (ps_pool ps))" using assms by (simp add: om_wf_def strict_sorted_iff)
  then have "distinct (map fst (filter (\<lambda>(_, bp). bp_dirty bp) (ps_pool ps)))" by (rule distinct_map_filter)
  moreover have "map fst (cp_collect ps) = map fst (filter (\<lambda>(_, bp). bp_dirty bp) (ps_pool ps))"
    by (auto simp: cp_collect_def)
  ultimately show ?thesis by simp
qed

text \<open>Writing out what a wf store has dirty.\<close>

lemma cp_write_ok:
  assumes wf: "ps_wf ps"
  shows "\<exists>f. cp_write (cp_collect ps) ps = Ok (ps\<lparr>ps_file := f\<rparr>) \<and> file_ok f
    \<and> (\<forall>p. file_page f p = (case om_lookup (ps_pool ps) p of
          Some bp \<Rightarrow> bp_data bp | None \<Rightarrow> file_page (ps_file ps) p))"
proof -
  let ?ws = "map (\<lambda>(pid, data, _). (pid, data)) (cp_collect ps)"
  have pool: "om_wf (ps_pool ps)" and dvd: "file_ok (ps_file ps)" and ok: "pool_ok (ps_file ps) (ps_pool ps)"
    using wf by (auto simp: ps_wf_def pool_ok_def)
  have "\<forall>(pid, data) \<in> set ?ws. page_ok pid \<and> length data = PAGE_SIZE"
    using pool_okD [OF ok] cp_collect_iff [OF pool] by fastforce
  from pf_write_pages_ok [OF dvd this] obtain f where f: "pf_write_pages (ps_file ps) ?ws = Ok f" "file_ok f"
      "\<And>p. file_page f p = (case map_of (rev ?ws) p of Some d \<Rightarrow> d | None \<Rightarrow> file_page (ps_file ps) p)"
    by blast
  have fst_ws: "map fst ?ws = map fst (cp_collect ps)" by auto
  then have dist: "distinct (map fst ?ws)" using distinct_collect [OF pool] by (simp only: fst_ws)
  have "file_page f p = (case om_lookup (ps_pool ps) p of Some bp \<Rightarrow> bp_data bp | None \<Rightarrow> file_page (ps_file ps) p)" for p
  proof (cases "\<exists>bp. om_lookup (ps_pool ps) p = Some bp \<and> bp_dirty bp")
    case True
    then obtain bp where bp: "om_lookup (ps_pool ps) p = Some bp" "bp_dirty bp" by blast
    then have "(p, bp_data bp) \<in> set ?ws" using cp_collect_iff [OF pool] by force
    then have "map_of (rev ?ws) p = Some (bp_data bp)"
      using dist by (simp add: map_of_is_SomeI rev_map [symmetric])
    then show ?thesis using bp f by simp
  next
    case False
    then have "map_of (rev ?ws) p = None"
      using cp_collect_iff [OF pool] by (force simp: map_of_eq_None_iff)
    then show ?thesis using False f pool_okD(3) [OF ok] by (auto split: option.splits)
  qed
  then show ?thesis using f by (auto simp: cp_write_def)
qed

definition all_clean :: "page_store \<Rightarrow> bool" where
  "all_clean ps \<longleftrightarrow> (\<forall>pid bp. om_lookup (ps_pool ps) pid = Some bp \<longrightarrow> \<not> bp_dirty bp)"

lemma cp_finish_fields:
  "ps_file (cp_finish now dirty ps) = ps_file ps"
  "ps_pool (cp_finish now dirty ps) = fold (\<lambda>(pid, _, _). mark_clean pid) dirty (ps_pool ps)"
  "ps_checkpoint_lsn (cp_finish now dirty ps) = max (ps_checkpoint_lsn ps) (cp_max_lsn dirty)"
  "ps_state_file (cp_finish now dirty ps) = (if cp_max_lsn dirty > ps_checkpoint_lsn ps
     then Some (to_le 8 (cp_max_lsn dirty)) else ps_state_file ps)"
  "ps_max_page_id (cp_finish now dirty ps) = ps_max_page_id ps"
  by (auto simp: cp_finish_def Let_def write_checkpoint_state_def max_def)

lemma cp_max_lsn_ge: "(pid, d, l) \<in> set dirty \<Longrightarrow> l \<le> cp_max_lsn dirty"
proof -
  have *: "m \<le> fold (\<lambda>(_, _, l) m. if l > m then l else m) xs m
      \<and> (\<forall>(pid, d, l) \<in> set xs. l \<le> fold (\<lambda>(_, _, l) m. if l > m then l else m) xs m)" for xs :: "(u64 \<times> bytes \<times> u64) list" and m
  proof (induction xs arbitrary: m)
    case (Cons x xs)
    obtain a b c where x: "x = (a, b, c)" by (cases x)
    show ?case using Cons.IH [of "if c > m then c else m"] by (auto simp: x split: if_splits intro: order.trans)
  qed simp
  show "(pid, d, l) \<in> set dirty \<Longrightarrow> l \<le> cp_max_lsn dirty"
    using * [of 0 dirty] by (auto simp: cp_max_lsn_def)
qed

lemma ps_checkpoint_ok:
  assumes wf: "ps_wf ps"
  shows "\<exists>ps'. ps_checkpoint now True ps = Ok (ps', True) \<and> ps_wf ps' \<and> all_clean ps' \<and> ps_view ps' = ps_view ps
    \<and> ps_checkpoint_lsn ps' = max (ps_checkpoint_lsn ps) (cp_max_lsn (cp_collect ps))
    \<and> ps_max_page_id ps' = ps_max_page_id ps"
proof -
  have pool: "om_wf (ps_pool ps)" and ok: "pool_ok (ps_file ps) (ps_pool ps)"
    using wf by (auto simp: ps_wf_def pool_ok_def)
  show ?thesis
  proof (cases "cp_collect ps = []")
    case True
    then have "all_clean ps" using cp_collect_iff [OF pool] by (auto simp: all_clean_def)
    then show ?thesis using True wf by (simp add: ps_checkpoint_def cp_max_lsn_def)
  next
    case False
    obtain file' where p1: "cp_write (cp_collect ps) ps = Ok (ps\<lparr>ps_file := file'\<rparr>)" "file_ok file'"
      and f: "\<And>p. file_page file' p = (case om_lookup (ps_pool ps) p of
          Some bp \<Rightarrow> bp_data bp | None \<Rightarrow> file_page (ps_file ps) p)"
      using cp_write_ok [OF wf] by blast
    define ps2 where "ps2 = cp_finish now (cp_collect ps) (ps\<lparr>ps_file := file'\<rparr>)"
    have look: "om_lookup (ps_pool ps2) p = map_option (\<lambda>bp. bp\<lparr>bp_dirty := False\<rparr>) (om_lookup (ps_pool ps) p)" for p
    proof -
      have "p \<in> fst ` set (cp_collect ps) \<longleftrightarrow> (\<exists>bp. om_lookup (ps_pool ps) p = Some bp \<and> bp_dirty bp)"
        using cp_collect_iff [OF pool] by force
      then show ?thesis
        by (cases "om_lookup (ps_pool ps) p") (auto simp: ps2_def cp_finish_fields fold_mark_clean(2))
    qed
    have file2: "ps_file ps2 = file'" and wf2: "om_wf (ps_pool ps2)" and max2: "page_ok (ps_max_page_id ps2)"
      using wf by (simp_all add: ps2_def cp_finish_fields fold_mark_clean(1) pool ps_wf_def)
    have "ps_wf ps2"
      using p1(2) f ok by (auto simp: ps_wf_def pool_ok_def look file2 wf2 max2)
    moreover have "ps_view ps2 = ps_view ps"
      using f by (auto simp: ps_view_def look fun_eq_iff file2 split: option.splits)
    moreover have "all_clean ps2" by (auto simp: all_clean_def look)
    moreover have "ps_checkpoint now True ps = Ok (ps2, True)"
      using False p1(1) by (simp add: ps_checkpoint_def Let_def ps2_def)
    ultimately show ?thesis by (auto simp: ps2_def cp_finish_fields)
  qed
qed

lemma crash_view:
  assumes "ps_wf ps" and "all_clean ps"
  shows "ps_view (ps_crash now ps) p = Option.bind (ps_view ps p) nonzero"
  using assms pool_okD(3) [of "ps_file ps" "ps_pool ps" p]
  by (cases "om_lookup (ps_pool ps) p")
    (auto simp: ps_view_def ps_crash_def ps_open_def all_clean_def ps_wf_def nonzero_def)

section \<open>Eviction\<close>

lemma ev_remove_ok:
  "\<exists>n pool. ev_remove victims ps = (n, ps\<lparr>ps_pool := pool\<rparr>) \<and> (om_wf (ps_pool ps) \<longrightarrow> om_wf pool)
   \<and> (\<forall>p. om_lookup pool p = (if p \<in> fst ` set victims then None else om_lookup (ps_pool ps) p))"
proof -
  let ?f = "\<lambda>(pid, _ :: bool) (n, s). if om_lookup (ps_pool s) pid \<noteq> None
        then (n + 1, s\<lparr>ps_pool := om_remove pid (ps_pool s)\<rparr>) else (n, s)"
  have "\<exists>k pool. fold ?f vs (n, s) = (k, s\<lparr>ps_pool := pool\<rparr>) \<and> (om_wf (ps_pool s) \<longrightarrow> om_wf pool)
     \<and> (\<forall>p. om_lookup pool p = (if p \<in> fst ` set vs then None else om_lookup (ps_pool s) p))"
    for vs and n :: nat and s
  proof (induction vs arbitrary: n s)
    case Nil
    show ?case by (rule exI [of _ n], rule exI [of _ "ps_pool s"]) simp
  next
    case (Cons v vs)
    obtain pid b where v: "v = (pid, b)" by (cases v)
    show ?case
    proof (cases "om_lookup (ps_pool s) pid")
      case None
      then show ?thesis using Cons.IH [of n s] by (fastforce simp: v)
    next
      case (Some bp)
      let ?s = "s\<lparr>ps_pool := om_remove pid (ps_pool s)\<rparr>"
      have "fold ?f (v # vs) (n, s) = fold ?f vs (n + 1, ?s)" using Some by (simp add: v)
      moreover obtain k pool where "fold ?f vs (n + 1, ?s) = (k, ?s\<lparr>ps_pool := pool\<rparr>)"
          "om_wf (ps_pool ?s) \<longrightarrow> om_wf pool"
          "\<forall>p. om_lookup pool p = (if p \<in> fst ` set vs then None else om_lookup (ps_pool ?s) p)"
        using Cons.IH [of "n + 1" ?s] by blast
      ultimately show ?thesis by (intro exI [of _ k] exI [of _ pool]) (auto simp: v om_wf_remove om_lookup_remove)
    qed
  qed
  from this [of victims 0 ps] show ?thesis by (simp add: ev_remove_def)
qed

lemma ev_choose_mem:
  assumes "om_wf (ps_pool ps)" and "(pid, b) \<in> set (ev_choose cfg ps)"
  shows "\<exists>bp. om_lookup (ps_pool ps) pid = Some bp \<and> b = bp_dirty bp"
proof -
  obtain bp where "(pid, bp) \<in> set (ps_pool ps)" "b = bp_dirty bp"
    using assms(2) by (auto simp: ev_choose_def Let_def dest!: in_set_takeD)
  then show ?thesis using om_lookup_iff [OF assms(1)] by auto
qed

lemma ev_flush_ok:
  assumes wf: "ps_wf ps" and victims: "\<And>pid b. (pid, b) \<in> set victims \<Longrightarrow> \<exists>bp. om_lookup (ps_pool ps) pid = Some bp \<and> b = bp_dirty bp"
  shows "\<exists>f. ev_flush victims ps = Ok (ps\<lparr>ps_file := f\<rparr>) \<and> file_ok f
    \<and> (\<forall>p. file_page f p = (if p \<in> fst ` set victims then bp_data (the (om_lookup (ps_pool ps) p)) else file_page (ps_file ps) p))"
proof -
  let ?ws = "List.map_filter (\<lambda>(pid, dirty). if dirty
          then map_option (\<lambda>bp. (pid, bp_data bp)) (om_lookup (ps_pool ps) pid) else None) victims"
  have dvd: "file_ok (ps_file ps)" and ok: "pool_ok (ps_file ps) (ps_pool ps)"
    using wf by (auto simp: ps_wf_def)
  have mem: "(p, d) \<in> set ?ws \<longleftrightarrow> (p, True) \<in> set victims \<and> map_option bp_data (om_lookup (ps_pool ps) p) = Some d" for p d
    by (force simp: map_filter_def image_iff)
  have "\<forall>(pid, data) \<in> set ?ws. page_ok pid \<and> length data = PAGE_SIZE"
    using pool_okD(1,2) [OF ok] by (auto simp: mem)
  from pf_write_pages_ok [OF dvd this] obtain f where f: "pf_write_pages (ps_file ps) ?ws = Ok f" "file_ok f"
      "\<And>p. file_page f p = (case map_of (rev ?ws) p of Some d \<Rightarrow> d | None \<Rightarrow> file_page (ps_file ps) p)"
    by blast
  have "file_page f p = (if p \<in> fst ` set victims then bp_data (the (om_lookup (ps_pool ps) p)) else file_page (ps_file ps) p)" for p
  proof (cases "map_of (rev ?ws) p")
    case None
    then have none: "(p, d) \<notin> set ?ws" for d by (force simp: map_of_eq_None_iff)
    have "\<not> bp_dirty bp" if "p \<in> fst ` set victims" "om_lookup (ps_pool ps) p = Some bp" for bp
      using that none [of "bp_data bp"] victims [of p True] victims [of p False] unfolding mem
      by (auto, metis (full_types))
    moreover have "\<exists>bp. om_lookup (ps_pool ps) p = Some bp" if "p \<in> fst ` set victims" using that victims [of p True] victims [of p False] by (auto, metis (full_types))
    ultimately show ?thesis using None f(3) [of p] pool_okD(3) [OF ok, of p] by auto
  next
    case (Some d)
    then have "(p, d) \<in> set ?ws" using map_of_SomeD [OF Some] by simp
    then have "(p, True) \<in> set victims" "map_option bp_data (om_lookup (ps_pool ps) p) = Some d" unfolding mem by auto
    then show ?thesis using Some f(3) [of p] by force
  qed
  then show ?thesis using f(1,2) by (intro exI [of _ f]) (simp add: ev_flush_def)
qed

lemma evict_ok:
  assumes wf: "ps_wf ps"
  shows "\<exists>n ps'. evict_cold_pages cfg ps = Ok (n, ps') \<and> ps_wf ps'
    \<and> (\<forall>p. ps_view ps' p = ps_view ps p \<or> ps_view ps' p = Option.bind (ps_view ps p) nonzero)"
proof (cases "length (ps_pool ps) \<le> bc_max_pages cfg")
  case True
  then show ?thesis using wf by (auto simp: evict_cold_pages_def)
next
  case False
  have pool: "om_wf (ps_pool ps)" and ok: "pool_ok (ps_file ps) (ps_pool ps)" using wf by (auto simp: ps_wf_def pool_ok_def)
  let ?v = "ev_choose cfg ps"
  obtain f where f: "ev_flush ?v ps = Ok (ps\<lparr>ps_file := f\<rparr>)" "file_ok f"
    "\<And>p. file_page f p = (if p \<in> fst ` set ?v then bp_data (the (om_lookup (ps_pool ps) p)) else file_page (ps_file ps) p)"
    using ev_flush_ok [of ps ?v, OF wf ev_choose_mem [OF pool, of _ _ cfg]] by blast
  obtain n pool' where r: "ev_remove ?v (ps\<lparr>ps_file := f\<rparr>) = (n, ps\<lparr>ps_file := f, ps_pool := pool'\<rparr>)" "om_wf pool'"
    "\<And>p. om_lookup pool' p = (if p \<in> fst ` set ?v then None else om_lookup (ps_pool ps) p)"
    using ev_remove_ok [of ?v "ps\<lparr>ps_file := f\<rparr>"] pool by auto
  let ?ps = "ps\<lparr>ps_file := f, ps_pool := pool'\<rparr>"
  have "ps_wf ?ps" using f(2,3) r ok wf by (auto simp: ps_wf_def pool_ok_def)
  moreover have "ps_view ?ps p = ps_view ps p \<or> ps_view ?ps p = Option.bind (ps_view ps p) nonzero" for p
  proof (cases "p \<in> fst ` set ?v")
    case True
    then obtain bp where "om_lookup (ps_pool ps) p = Some bp" using ev_choose_mem [OF pool] by force
    then show ?thesis using True by (simp add: ps_view_def r f)
  qed (simp add: ps_view_def r f split: option.splits)
  ultimately show ?thesis using False f(1) r(1) by (simp add: evict_cold_pages_def Let_def)
qed

section \<open>Properties\<close>

text \<open>C27: The page store behaves as a map from page ids to page images: on a well formed store a put of a
  16384 byte image at an addressable page id succeeds, keeps the invariant, and every later read of any page
  returns what the map updated at that id holds, reads from the pool and reads from the page file alike.\<close>

theorem page_store_put_get:
  assumes "ps_wf ps" and "page_ok pid" and "length data = PAGE_SIZE"
  shows "\<exists>ps'. ps_put now pid data l ps = Ok ps' \<and> ps_wf ps'
    \<and> (\<forall>p now'. page_ok p \<longrightarrow> (\<exists>ps''. ps_get now' p ps' = Ok (((ps_view ps)(pid \<mapsto> data)) p, ps'') \<and> ps_wf ps''
         \<and> ps_view ps'' = (ps_view ps)(pid \<mapsto> data)))"
  using ps_put_ok [OF assms, of now l] by (metis ps_get_view)

lemma ps_open_wf:
  assumes "file_ok f"
  shows "ps_wf (ps_open f st now)"
proof -
  obtain k where k: "length f = PAGE_SIZE * k" using assms by (auto simp: file_ok_def)
  have "page_ok (word_of_nat (k - 1))" if "k > 0"
  proof -
    have "unat (word_of_nat (k - 1) :: u64) = k - 1" using k assms by (intro unat_word_of_nat_small) (simp add: file_ok_def)
    moreover have "(k - 1) * PAGE_SIZE + PAGE_SIZE = PAGE_SIZE * k" using that by (cases k) auto
    ultimately show ?thesis using k assms by (simp only: page_ok_def file_ok_def)
  qed
  then show ?thesis using assms k by (auto simp: ps_wf_def ps_open_def pool_ok_def om_wf_def page_ok_def)
qed

lemma file_ok_simple: "file_ok []" "file_ok (replicate PAGE_SIZE 1)"
  by (simp_all add: file_ok_def)

lemma page_ok_le: "page_ok q \<Longrightarrow> p \<le> q \<Longrightarrow> page_ok p"
  by (simp add: page_ok_def word_le_nat_alt)

theorem page_store_put_get_witness:
  "\<exists>ps'. ps_put 1 7 (replicate PAGE_SIZE 1) 5 (ps_open [] None 0) = Ok ps'
    \<and> (\<exists>ps''. ps_get 2 7 ps' = Ok (Some (replicate PAGE_SIZE 1), ps''))"
proof -
  have "page_ok 7" by (simp add: page_ok_def)
  then show ?thesis
    using page_store_put_get [of "ps_open [] None 0" 7 "replicate PAGE_SIZE 1" 1 5] ps_open_wf [of "[]"] file_ok_simple(1) by fastforce
qed

text \<open>C19: A checkpoint is durable: on a well formed store a checkpoint whose sync succeeds returns, leaves no
  dirty page and the same contents, and records the largest LSN among the pages written; after a crash that
  loses the buffer pool, reopening from the two files gives back every page except that a page whose image is
  all zero bytes reads as absent.\<close>

theorem checkpoint_durable:
  assumes "ps_wf ps"
  shows "\<exists>ps'. ps_checkpoint now True ps = Ok (ps', True) \<and> ps_wf ps' \<and> cp_collect ps' = [] \<and> ps_view ps' = ps_view ps
    \<and> (\<forall>p bp. om_lookup (ps_pool ps) p = Some bp \<and> bp_dirty bp \<longrightarrow> bp_lsn bp \<le> ps_checkpoint_lsn ps')
    \<and> ps_view (ps_crash now' ps') = (\<lambda>p. Option.bind (ps_view ps p) nonzero)"
proof -
  obtain ps' where ps': "ps_checkpoint now True ps = Ok (ps', True)" "ps_wf ps'" "all_clean ps'" "ps_view ps' = ps_view ps"
      "ps_checkpoint_lsn ps' = max (ps_checkpoint_lsn ps) (cp_max_lsn (cp_collect ps))"
    using ps_checkpoint_ok [OF assms] by blast
  have pool: "om_wf (ps_pool ps)" "om_wf (ps_pool ps')" using assms ps'(2) by (auto simp: ps_wf_def pool_ok_def)
  have "cp_collect ps' = []" using ps'(3) om_lookup_iff [OF pool(2)] by (auto simp: cp_collect_def filter_empty_conv all_clean_def)
  moreover have "om_lookup (ps_pool ps) p = Some bp \<and> bp_dirty bp \<longrightarrow> bp_lsn bp \<le> ps_checkpoint_lsn ps'" for p bp
    using cp_max_lsn_ge [of p "bp_data bp" "bp_lsn bp" "cp_collect ps"] cp_collect_iff [OF pool(1)] ps'(5)
    by (auto simp: le_max_iff_disj)
  ultimately show ?thesis using ps' crash_view [OF ps'(2,3)] by (auto simp: fun_eq_iff)
qed

theorem checkpoint_durable_witness:
  "\<exists>ps'. ps_checkpoint 3 True (ps_open (replicate PAGE_SIZE 1) None 0) = Ok (ps', True)
     \<and> ps_view (ps_crash 4 ps') 0 = Some (replicate PAGE_SIZE 1)"
proof -
  have "hd (replicate PAGE_SIZE (1 :: 8 word)) \<noteq> hd zero_page" unfolding zero_page_def by (simp only: hd_replicate) simp
  then have nz: "replicate PAGE_SIZE 1 \<noteq> zero_page" by metis
  have "ps_view (ps_open (replicate PAGE_SIZE 1) None 0) 0 = Some (replicate PAGE_SIZE 1)"
    using nz by (simp add: ps_view_def ps_open_def file_page_def nonzero_def get_at_def)
  then show ?thesis
    using checkpoint_durable [of "ps_open (replicate PAGE_SIZE 1) None 0" 3 4] ps_open_wf [of "replicate PAGE_SIZE 1"] file_ok_simple(2) nz
    by (fastforce simp: nonzero_def)
qed

text \<open>C28: Eviction loses no data: on a well formed store \<open>evict_cold_pages\<close> succeeds for every pool
  configuration, keeps the invariant, and leaves the contents of every page whose image is not all zero bytes
  as they were, whether the page was evicted clean, evicted dirty or kept.\<close>

theorem eviction_preserves_pages:
  assumes "ps_wf ps" and "ps_view ps p \<noteq> Some zero_page"
  shows "\<exists>n ps'. evict_cold_pages cfg ps = Ok (n, ps') \<and> ps_wf ps' \<and> ps_view ps' p = ps_view ps p"
proof -
  have "Option.bind (ps_view ps p) nonzero = ps_view ps p"
    using assms(2) by (cases "ps_view ps p") (auto simp: nonzero_def)
  then show ?thesis using evict_ok [OF assms(1), of cfg] by metis
qed

theorem eviction_preserves_pages_witness:
  "\<exists>n ps'. evict_cold_pages \<lparr>bc_max_pages = 0, bc_eviction_batch_size = 1\<rparr>
      (ps_open (replicate PAGE_SIZE 1) None 0) = Ok (n, ps') \<and> ps_view ps' 1 = None"
proof -
  have "ps_view (ps_open (replicate PAGE_SIZE 1) None 0) 1 = None"
    by (simp add: ps_view_def ps_open_def file_page_def nonzero_def)
  then show ?thesis
    using eviction_preserves_pages [of "ps_open (replicate PAGE_SIZE 1) None 0" 1] ps_open_wf [of "replicate PAGE_SIZE 1"] file_ok_simple(2)
    by fastforce
qed

text \<open>A put that lands between the collect and the finish block of a checkpoint is marked clean although
  its image was never written: the pool still serves the new image, but no later checkpoint collects the page,
  and after a crash the store serves the image that was replaced.\<close>

theorem checkpoint_race_loses_put:
  assumes "ps_wf ps" and "om_lookup (ps_pool ps) pid = Some bp" and "bp_dirty bp" and "length data = PAGE_SIZE"
  shows "\<exists>ps1 ps2. ps_put now pid data l ps = Ok ps1 \<and> cp_write (cp_collect ps) ps1 = Ok ps2
    \<and> ps_view (cp_finish now (cp_collect ps) ps2) pid = Some data
    \<and> pid \<notin> fst ` set (cp_collect (cp_finish now (cp_collect ps) ps2))
    \<and> ps_view (ps_crash now' (cp_finish now (cp_collect ps) ps2)) pid = nonzero (bp_data bp)"
proof -
  have pid: "page_ok pid" and pool: "om_wf (ps_pool ps)" using assms by (auto simp: ps_wf_def pool_ok_def)
  let ?bp = "\<lparr>bp_data = data, bp_dirty = True, bp_lsn = l, bp_last_accessed = now\<rparr>"
  obtain ps1 where ps1: "ps_put now pid data l ps = Ok ps1" "om_lookup (ps_pool ps1) = (om_lookup (ps_pool ps))(pid \<mapsto> ?bp)"
      "ps_file ps1 = ps_file ps" "ps_wf ps1"
    using ps_put_ok [OF assms(1) pid assms(4), of now l] by blast
  obtain f where f: "cp_write (cp_collect ps) ps = Ok (ps\<lparr>ps_file := f\<rparr>)" "file_page f pid = bp_data bp"
    using cp_write_ok [OF assms(1)] assms(2) by auto
  define ps2 where "ps2 = ps1\<lparr>ps_file := f\<rparr>"
  define ps3 where "ps3 = cp_finish now (cp_collect ps) ps2"
  have w: "cp_write (cp_collect ps) ps1 = Ok ps2"
    using f(1) ps1(3) by (cases "pf_write_pages (ps_file ps) (map (\<lambda>(pid, data, _). (pid, data)) (cp_collect ps))")
      (auto simp: cp_write_def ps2_def dest!: arg_cong [where f = ps_file])
  have "pid \<in> fst ` set (cp_collect ps)" using cp_collect_iff [OF pool] assms(2,3) by force
  then have look: "om_lookup (ps_pool ps3) pid = Some (?bp\<lparr>bp_dirty := False\<rparr>)"
    by (simp add: ps3_def cp_finish_fields fold_mark_clean(2) ps2_def ps1(2))
  have wf3: "om_wf (ps_pool ps3)" "ps_file ps3 = f"
    using ps1(4) by (simp_all add: ps3_def cp_finish_fields fold_mark_clean(1) ps2_def ps_wf_def pool_ok_def)
  have "pid \<notin> fst ` set (cp_collect ps3)" using cp_collect_iff [OF wf3(1)] look by force
  moreover have "ps_view ps3 pid = Some data" "ps_view (ps_crash now' ps3) pid = nonzero (bp_data bp)"
    by (simp_all add: ps_view_def look ps_crash_def ps_open_def wf3(2) f(2))
  ultimately show ?thesis using ps1(1) w by (auto simp: ps3_def)
qed

theorem checkpoint_race_loses_put_witness:
  "\<exists>ps ps1 ps2. ps_put 1 0 (replicate PAGE_SIZE 1) 1 (ps_open [] None 0) = Ok ps
    \<and> ps_put 2 0 (replicate PAGE_SIZE 2) 2 ps = Ok ps1 \<and> cp_write (cp_collect ps) ps1 = Ok ps2
    \<and> ps_view (cp_finish 2 (cp_collect ps) ps2) 0 = Some (replicate PAGE_SIZE 2)
    \<and> ps_view (ps_crash 3 (cp_finish 2 (cp_collect ps) ps2)) 0 = nonzero (replicate PAGE_SIZE 1)"
proof -
  have "page_ok 0" by (simp add: page_ok_def)
  then obtain ps where ps: "ps_put 1 0 (replicate PAGE_SIZE 1) 1 (ps_open [] None 0) = Ok ps" "ps_wf ps"
      "om_lookup (ps_pool ps) 0 = Some \<lparr>bp_data = replicate PAGE_SIZE 1, bp_dirty = True, bp_lsn = 1, bp_last_accessed = 1\<rparr>"
    using ps_put_ok [of "ps_open [] None 0" 0 "replicate PAGE_SIZE 1" 1 1] ps_open_wf [of "[]"] file_ok_simple(1) by fastforce
  from checkpoint_race_loses_put [OF ps(2,3), of "replicate PAGE_SIZE 2" 2 2 3] ps(1) show ?thesis by fastforce
qed

end
