(* ===== verification/Wal_Files.thy ===== *)
theory Wal_Files
  imports Wal_Codec Page_Store "HOL-Library.Sublist"
begin

text \<open>
  The WAL directory (\<open>node_wal_files.rs\<close>) and the WAL writer task (\<open>node_wal_writer.rs\<close>).

  The directory is an ordered map from segment ids to the bytes of the segment file; the names of the files
  are built and parsed as the sources do. The writer appends encoded batches to the last segment and starts
  a new one when the segment is full. Files grow without I/O errors except for \<open>sync_data\<close>, whose outcome
  is an argument; a batch that cannot be encoded is an error of the model.

  \<open>dir_log\<close> is the abstract value of a directory, the sequence of batches in it: appending a batch appends
  it to the log across rotations, and truncation at a checkpoint only drops batches the checkpoint covers.
\<close>

section \<open>Configuration\<close>

record maintenance_config =
  mc_checkpoint :: checkpoint_config
  mc_truncate_wal :: bool
  mc_max_wal_bytes :: u64
  mc_max_wal_segments :: nat
  mc_mvcc_gc_every_wal_batches :: nat
  mc_wal_group_commit_max_batches :: nat
  mc_wal_group_commit_wait_us :: u64

definition default_maintenance_config :: maintenance_config where
  "default_maintenance_config =
    \<lparr>mc_checkpoint = default_checkpoint_config, mc_truncate_wal = True, mc_max_wal_bytes = 536870912,
     mc_max_wal_segments = 64, mc_mvcc_gc_every_wal_batches = 128, mc_wal_group_commit_max_batches = 64,
     mc_wal_group_commit_wait_us = 200\<rparr>"

definition validate_config :: "maintenance_config \<Rightarrow> unit res" where
  "validate_config c =
    (if cc_interval (mc_checkpoint c) = 0 then invalid_input ''checkpoint.interval must be > 0''
     else if cc_max_dirty_pages (mc_checkpoint c) = 0 then invalid_input ''checkpoint.max_dirty_pages must be > 0''
     else if cc_max_dirty_bytes (mc_checkpoint c) = 0 then invalid_input ''checkpoint.max_dirty_bytes must be > 0''
     else if mc_max_wal_bytes c = 0 then invalid_input ''max_wal_bytes must be > 0''
     else if mc_max_wal_segments c = 0 then invalid_input ''max_wal_segments must be > 0''
     else if mc_mvcc_gc_every_wal_batches c = 0 then invalid_input ''mvcc_gc_every_wal_batches must be > 0''
     else if mc_wal_group_commit_max_batches c = 0 then invalid_input ''wal_group_commit_max_batches must be > 0''
     else Ok ())"

section \<open>Segment files\<close>

text \<open>\<open>{:020}\<close> pads with zeros to twenty digits, which every 64 bit number fits.\<close>

definition wal_segment_path :: "u64 \<Rightarrow> string" where
  "wal_segment_path file_id =
    (let s = show_nat (unat file_id) in ''wal-'' @ replicate (20 - length s) CHR ''0'' @ s @ ''.log'')"

definition strip_prefix :: "string \<Rightarrow> string \<Rightarrow> string option" where
  "strip_prefix p s = (if take (length p) s = p then Some (drop (length p) s) else None)"

definition strip_suffix :: "string \<Rightarrow> string \<Rightarrow> string option" where
  "strip_suffix p s = (if length p \<le> length s \<and> drop (length s - length p) s = p
     then Some (take (length s - length p) s) else None)"

text \<open>\<open>str::parse::<u64>\<close>: an optional plus sign, then at least one digit, and no overflow.\<close>

fun parse_digits :: "nat \<Rightarrow> string \<Rightarrow> nat option" where
  "parse_digits acc [] = Some acc"
| "parse_digits acc (c # cs) =
    (let n = (of_char c :: nat) in
     if n < 48 \<or> n > 57 then None
     else let acc' = acc * 10 + (n - 48) in if acc' < 2 ^ 64 then parse_digits acc' cs else None)"

definition parse_u64 :: "string \<Rightarrow> u64 option" where
  "parse_u64 s = map_option word_of_nat
    (case s of [] \<Rightarrow> None
     | c # cs \<Rightarrow> if c = CHR ''+'' then (if cs = [] then None else parse_digits 0 cs) else parse_digits 0 s)"

definition segment_id :: "string \<Rightarrow> u64 option" where
  "segment_id name =
    (case strip_prefix ''wal-'' name of None \<Rightarrow> None
     | Some rest \<Rightarrow> (case strip_suffix ''.log'' rest of None \<Rightarrow> None | Some id_part \<Rightarrow> parse_u64 id_part))"

type_synonym wal_dir = "(u64, bytes) omap"

text \<open>The names \<open>read_dir\<close> finds: the segments, and the other files the storage node keeps there.\<close>

definition dir_names :: "wal_dir \<Rightarrow> string list" where
  "dir_names d = [''pages.dat'', ''checkpoint_state'', ''wal_state'', ''wal_state.tmp''] @ map (\<lambda>(i, _). wal_segment_path i) d"

definition list_wal_segments :: "wal_dir \<Rightarrow> u64 list" where
  "list_wal_segments d = sort (List.map_filter segment_id (dir_names d))"

definition open_segment :: "wal_dir \<Rightarrow> u64 \<Rightarrow> bytes res" where
  "open_segment d i = (case om_lookup d i of Some bs \<Rightarrow> Ok bs | None \<Rightarrow> Err (Io NotFound ''No such file or directory''))"

fun sum_lens :: "wal_dir \<Rightarrow> u64 \<Rightarrow> u64 list \<Rightarrow> u64 res" where
  "sum_lens d acc [] = Ok acc"
| "sum_lens d acc (i # is) =
    res_bind (open_segment d i) (\<lambda>bs. sum_lens d (sat_add acc (word_of_nat (length bs))) is)"

definition wal_usage :: "wal_dir \<Rightarrow> (nat \<times> u64) res" where
  "wal_usage d = (let segments = list_wal_segments d in
     res_map (\<lambda>total. (length segments, total)) (sum_lens d 0 segments))"

definition wal_usage_exceeds_limits :: "wal_dir \<Rightarrow> maintenance_config \<Rightarrow> u64 \<Rightarrow> (nat \<times> u64) option res" where
  "wal_usage_exceeds_limits d cfg incoming =
    res_bind (wal_usage d) (\<lambda>(segments, total).
      if sat_add total incoming > mc_max_wal_bytes cfg \<or> segments > mc_max_wal_segments cfg
      then Ok (Some (segments, total)) else Ok None)"

text \<open>The loop reads batches up to the end of the file or the first error.\<close>

definition get_wal_segment_max_lsn :: "wal_dir \<Rightarrow> u64 \<Rightarrow> u64 res" where
  "get_wal_segment_max_lsn d i =
    res_map (\<lambda>bs. fold (\<lambda>b m. if wb_end_lsn b > m then wb_end_lsn b else m) (fst (read_log read_wal_batch bs)) 0)
      (open_segment d i)"

fun truncate_loop :: "u64 \<Rightarrow> u64 list \<Rightarrow> nat \<Rightarrow> wal_dir \<Rightarrow> nat \<times> wal_dir" where
  "truncate_loop c [] deleted d = (deleted, d)"
| "truncate_loop c (i # is) deleted d =
    (let max_lsn = (case get_wal_segment_max_lsn d i of Ok l \<Rightarrow> l | _ \<Rightarrow> 0) in
     if max_lsn > 0 \<and> max_lsn \<le> c then truncate_loop c is (deleted + 1) (om_remove i d)
     else truncate_loop c is deleted d)"

definition truncate_wal_segments :: "wal_dir \<Rightarrow> u64 \<Rightarrow> nat \<times> wal_dir" where
  "truncate_wal_segments d c =
    (let segments = list_wal_segments d in
     if length segments \<le> 1 then (0, d) else truncate_loop c (butlast segments) 0 d)"

section \<open>The writer\<close>

abbreviation (input) MAX_SEGMENT_SIZE :: u64 where "MAX_SEGMENT_SIZE \<equiv> 67108864"

record wal_writer =
  ww_file_id :: u64
  ww_size :: u64

record wal_write_request =
  wq_batch :: wal_batch
  wq_ack :: bool

type_synonym writer_state = "wal_writer \<times> wal_dir"

definition create_wal_segment :: "wal_dir \<Rightarrow> u64 \<Rightarrow> wal_dir" where
  "create_wal_segment d i = om_insert i [] d"

definition writer_open :: "wal_dir \<Rightarrow> writer_state res" where
  "writer_open d =
    (let segments = list_wal_segments d in
     if segments = [] then Ok (\<lparr>ww_file_id = 1, ww_size = 0\<rparr>, create_wal_segment d 1)
     else let i = last segments in
       res_bind (open_segment d i) (\<lambda>bs. Ok (\<lparr>ww_file_id = i, ww_size = word_of_nat (length bs)\<rparr>, d)))"

definition rotate_if_needed :: "writer_state \<Rightarrow> writer_state res" where
  "rotate_if_needed st =
    (let (w, d) = st in
     if ww_size w < MAX_SEGMENT_SIZE then Ok (w, d)
     else res_bind (chk_add (ww_file_id w) 1) (\<lambda>i. Ok (\<lparr>ww_file_id = i, ww_size = 0\<rparr>, create_wal_segment d i)))"

text \<open>\<open>append_batch\<close> gives the state also when it fails, since the rotation stays. A file that was
  unlinked takes no bytes.\<close>

definition append_batch :: "wal_batch \<Rightarrow> writer_state \<Rightarrow> (writer_state \<times> error option) res" where
  "append_batch b st =
    res_bind (rotate_if_needed st) (\<lambda>(w, d).
      case encode_wal_batch b [] of
        Err e \<Rightarrow> Ok ((w, d), Some e)
      | Panic \<Rightarrow> Panic
      | Ok buf \<Rightarrow>
          let d' = (case om_lookup d (ww_file_id w) of Some bs \<Rightarrow> om_insert (ww_file_id w) (bs @ buf) d | None \<Rightarrow> d) in
          res_bind (chk_add (ww_size w) (word_of_nat (length buf))) (\<lambda>s. Ok ((w\<lparr>ww_size := s\<rparr>, d'), None)))"

fun append_group :: "wal_write_request list \<Rightarrow> writer_state \<Rightarrow> nat \<Rightarrow> u64 \<Rightarrow> (writer_state \<times> nat \<times> u64 \<times> error option) res" where
  "append_group [] st n m = Ok (st, n, m, None)"
| "append_group (q # qs) st n m =
    res_bind (append_batch (wq_batch q) st) (\<lambda>(st', err).
      case err of
        Some e \<Rightarrow> Ok (st', n, m, Some e)
      | None \<Rightarrow> append_group qs st' (n + 1) (max m (wb_end_lsn (wq_batch q))))"

text \<open>What one round of \<open>wal_writer_loop\<close> does with a group: the new state and durable LSN, the answers to
  the requests (\<open>None\<close> where no answer is wanted), and the batches passed on to the replay task. A round
  that gets past the error check has appended the whole group.\<close>

record round_result =
  rr_writer :: writer_state
  rr_durable :: u64
  rr_acks :: "u64 res option list"
  rr_forwarded :: "wal_batch list"

definition writer_round :: "bool \<Rightarrow> wal_write_request list \<Rightarrow> writer_state \<Rightarrow> u64 \<Rightarrow> round_result res" where
  "writer_round sync_ok pending st durable =
    res_bind (append_group pending st 0 0) (\<lambda>(st', appended_count, max_end_lsn, err).
      let append_err = (case err of Some e \<Rightarrow> Some e | None \<Rightarrow> if sync_ok then None else Some (Io OtherKind ''sync failed'')) in
      case append_err of
        Some e \<Rightarrow> Ok \<lparr>rr_writer = st', rr_durable = durable,
          rr_acks = map (\<lambda>q. if wq_ack q then Some (Err (Io OtherKind (error_text e))) else None) pending, rr_forwarded = []\<rparr>
      | None \<Rightarrow> Ok \<lparr>rr_writer = st', rr_durable = max_end_lsn,
          rr_acks = map (\<lambda>(idx, q). if \<not> wq_ack q then None else Some (if idx < appended_count then Ok (wb_end_lsn (wq_batch q))
             else Err (Io OtherKind ''wal append aborted before batch was written''))) (enumerate 0 pending),
          rr_forwarded = map wq_batch (take appended_count pending)\<rparr>)"

text \<open>The loop over a queue of requests that are all there: a group is the first request and those after
  it up to the group size. \<open>sync\<close> gives the outcome of the sync of each round.\<close>

fun writer_loop :: "nat \<Rightarrow> (nat \<Rightarrow> bool) \<Rightarrow> nat \<Rightarrow> wal_write_request list \<Rightarrow> writer_state \<Rightarrow> u64 \<Rightarrow> round_result res" where
  "writer_loop max_group sync k [] st durable = Ok \<lparr>rr_writer = st, rr_durable = durable, rr_acks = [], rr_forwarded = []\<rparr>"
| "writer_loop max_group sync k (q # qs) st durable =
    res_bind (writer_round (sync k) (q # take (max_group - 1) qs) st durable) (\<lambda>r.
    res_bind (writer_loop max_group sync (Suc k) (drop (max_group - 1) qs) (rr_writer r) (rr_durable r)) (\<lambda>r'.
      Ok (r'\<lparr>rr_acks := rr_acks r @ rr_acks r', rr_forwarded := rr_forwarded r @ rr_forwarded r'\<rparr>)))"

section \<open>The log of a directory\<close>

definition dir_log :: "wal_dir \<Rightarrow> wal_batch list" where
  "dir_log d = concat (map (\<lambda>(_, bs). fst (read_log read_wal_batch bs)) d)"

definition segment_clean :: "bytes \<Rightarrow> bool" where
  "segment_clean bs \<longleftrightarrow> (\<exists>xs. bs = concat (map wal_frame xs) \<and> list_all wal_frame_ok xs)"

definition dir_clean :: "wal_dir \<Rightarrow> bool" where
  "dir_clean d \<longleftrightarrow> om_wf d \<and> list_all (\<lambda>(_, bs). segment_clean bs) d"

text \<open>The writer's position: the last segment, whose size it tracks.\<close>

definition writer_ok :: "writer_state \<Rightarrow> bool" where
  "writer_ok st \<longleftrightarrow> (let (w, d) = st in dir_clean d \<and> d \<noteq> [] \<and> ww_file_id w = fst (last d)
     \<and> unat (ww_size w) = length (snd (last d)) \<and> length (snd (last d)) < 2 ^ 26 + 2 ^ 25)"

definition fresh_writer :: writer_state where
  "fresh_writer = (\<lparr>ww_file_id = 1, ww_size = 0\<rparr>, [(1, [])])"

definition sample_request :: wal_write_request where
  "sample_request = \<lparr>wq_batch = sample_batch, wq_ack = True\<rparr>"

section \<open>Segment names\<close>

lemma of_char_digit: "d < 10 \<Longrightarrow> (of_char (char_of (48 + d) :: char) :: nat) = 48 + d"
  by (simp add: of_char_of)

lemma parse_show_digits:
  "n < fuel \<Longrightarrow> n < 2 ^ 64 \<Longrightarrow> parse_digits 0 (show_digits fuel n @ rest) = parse_digits n rest"
proof (induction fuel arbitrary: n rest)
  case (Suc fuel)
  show ?case
  proof (cases "n < 10")
    case True
    then show ?thesis by (simp add: of_char_digit Let_def)
  next
    case False
    have "n div 10 * 10 + n mod 10 = n" "n mod 10 \<le> 9" by auto
    then show ?thesis using False Suc by (simp add: of_char_digit Let_def)
  qed
qed simp

lemma parse_zeros: "parse_digits 0 (replicate k CHR ''0'' @ s) = parse_digits 0 s"
  by (induction k) auto

lemma parse_u64_padded: "parse_u64 (replicate k CHR ''0'' @ show_nat (unat (i :: u64))) = Some i"
proof -
  let ?s = "replicate k CHR ''0'' @ show_nat (unat i)"
  have "unat i < 2 ^ 64" using unsigned_less [where 'a = nat, of i] by simp
  then have p: "parse_digits 0 ?s = Some (unat i)"
    using parse_show_digits [of "unat i" "Suc (unat i)" "[]"] by (simp add: parse_zeros show_nat_def)
  have "show_nat (unat i) \<noteq> []" by (simp add: show_nat_def)
  then obtain c cs where s: "?s = c # cs" by (cases ?s) auto
  have "c \<noteq> CHR ''+''" using p unfolding s by auto
  then show ?thesis using p unfolding s parse_u64_def by simp
qed

lemma segment_id_path: "segment_id (wal_segment_path i) = Some i"
proof -
  have strip: "strip_suffix ''.log'' (x @ y @ ''.log'') = Some (x @ y)" for x y
    by (simp add: strip_suffix_def)
  show ?thesis
    by (simp add: segment_id_def wal_segment_path_def Let_def strip_prefix_def strip parse_u64_padded)
qed

lemma map_fst_pairs: "map (\<lambda>(i, _). f i) d = map f (map fst d)"
  by auto

lemma list_wal_segments_keys:
  assumes "om_wf d"
  shows "list_wal_segments d = map fst d"
proof -
  have others: "segment_id ''pages.dat'' = None" "segment_id ''checkpoint_state'' = None" "segment_id ''wal_state'' = None"
      "segment_id ''wal_state.tmp'' = None"
    by (simp_all add: segment_id_def strip_prefix_def strip_suffix_def)
  have "List.map_filter segment_id (map wal_segment_path is) = is" for "is"
    by (induction "is") (auto simp: List.map_filter_simps segment_id_path)
  then have "List.map_filter segment_id (dir_names d) = map fst d"
    by (simp only: dir_names_def append.simps List.map_filter_simps others option.case map_fst_pairs)
  moreover have "sorted (map fst d)" using assms by (simp add: om_wf_def strict_sorted_iff)
  ultimately show ?thesis by (simp add: list_wal_segments_def sorted_sort_id)
qed

section \<open>Segments as logs\<close>

lemma segment_clean_Nil [simp]: "segment_clean []"
  by (auto simp: segment_clean_def intro: exI [of _ "[]"])

lemma segment_clean_log: "segment_clean bs \<Longrightarrow> bs = concat (map wal_frame (fst (read_log read_wal_batch bs)))"
  using wal.read_log_encoded by (fastforce simp: segment_clean_def list_all_iff)

lemma segment_append:
  assumes "segment_clean bs" and "wal_frame_ok b"
  shows "segment_clean (bs @ wal_frame b)"
    and "fst (read_log read_wal_batch (bs @ wal_frame b)) = fst (read_log read_wal_batch bs) @ [b]"
proof -
  obtain xs where xs: "bs = concat (map wal_frame xs)" "list_all wal_frame_ok xs" using assms(1) by (auto simp: segment_clean_def)
  then have "bs @ wal_frame b = concat (map wal_frame (xs @ [b]))" "list_all wal_frame_ok (xs @ [b])"
    using assms(2) by auto
  then show "segment_clean (bs @ wal_frame b)" unfolding segment_clean_def by blast
  show "fst (read_log read_wal_batch (bs @ wal_frame b)) = fst (read_log read_wal_batch bs) @ [b]"
    using xs assms(2) wal.read_log_encoded [of xs] wal.read_log_snoc [of xs b] by (simp add: list_all_iff)
qed

lemma read_log_Nil [simp]: "read_log read_wal_batch [] = ([], AtEof)"
  using wal.read_log_encoded [of "[]"] by simp

lemma om_insert_last: "om_wf (d @ [(k, v)]) \<Longrightarrow> om_insert k v' (d @ [(k, v)]) = d @ [(k, v')]"
  by (induction d) (auto simp: om_wf_def)

lemma om_insert_beyond: "(\<And>k'. k' \<in> fst ` set d \<Longrightarrow> k' < k) \<Longrightarrow> om_insert k v d = d @ [(k, v)]"
  by (induction d) (auto simp: not_less_iff_gr_or_eq, (metis less_asym order_less_imp_not_eq)+)

lemma om_wf_snoc: "om_wf (d @ [(k, v)]) \<longleftrightarrow> om_wf d \<and> (\<forall>k' \<in> fst ` set d. k' < k)"
  by (auto simp: om_wf_def sorted_wrt_append)

lemma om_lookup_last: "om_wf (d @ [(k, v)]) \<Longrightarrow> om_lookup (d @ [(k, v)]) k = Some v"
  by (subst om_lookup_iff) auto

section \<open>The writer\<close>

lemma dir_log_append [simp]: "dir_log (d @ d') = dir_log d @ dir_log d'"
  by (simp add: dir_log_def)

lemma dir_log_Cons [simp]: "dir_log ((i, bs) # d) = fst (read_log read_wal_batch bs) @ dir_log d"
  by (simp add: dir_log_def)

lemma dir_log_Nil [simp]: "dir_log [] = []"
  by (simp add: dir_log_def)

lemma dir_clean_snoc:
  "dir_clean (d @ [(k, v)]) \<longleftrightarrow> dir_clean d \<and> (\<forall>k' \<in> fst ` set d. k' < k) \<and> segment_clean v"
  by (auto simp: dir_clean_def om_wf_snoc)

lemma writer_ok_snoc:
  "writer_ok (w, d @ [(k, v)]) \<longleftrightarrow> dir_clean (d @ [(k, v)]) \<and> ww_file_id w = k \<and> unat (ww_size w) = length v
     \<and> length v < 2 ^ 26 + 2 ^ 25"
  by (simp add: writer_ok_def)

lemma writer_okE:
  assumes "writer_ok st"
  obtains w d k v where "st = (w, d @ [(k, v)])"
  using assms by (cases st, cases "snd st" rule: rev_cases) (auto simp: writer_ok_def)

text \<open>Rotation starts an empty segment after the last one and leaves room for a frame.\<close>

lemma rotate_ok:
  assumes ok: "writer_ok st" and room: "ww_file_id (fst st) \<noteq> - 1"
  shows "\<exists>w d k v. rotate_if_needed st = Ok (w, d @ [(k, v)]) \<and> writer_ok (w, d @ [(k, v)]) \<and> length v < 2 ^ 26
    \<and> dir_log (d @ [(k, v)]) = dir_log (snd st) \<and> k \<le> ww_file_id (fst st) + 1"
proof -
  obtain w d k v where st: "st = (w, d @ [(k, v)])" using writer_okE [OF ok] by blast
  have k: "ww_file_id w = k" and sz: "unat (ww_size w) = length v" using ok by (auto simp: st writer_ok_snoc)
  have lt: "k < k + 1" using room unat_plus_one [of k] by (simp add: st k word_less_nat_alt)
  show ?thesis
  proof (cases "ww_size w < MAX_SEGMENT_SIZE")
    case True
    then have "length v < 2 ^ 26" using sz by (simp add: word_less_nat_alt)
    then show ?thesis
      using True ok k lt by (intro exI [of _ w] exI [of _ d] exI [of _ k] exI [of _ v]) (simp add: st rotate_if_needed_def)
  next
    case False
    have "unat k + 1 < 2 ^ 64" using room k unat_plus_one [of k] unsigned_less [where 'a = nat, of "k + 1"] by (simp add: st)
    then have add: "chk_add (ww_file_id w) 1 = Ok (k + 1)" by (simp add: chk_add_def k)
    have new: "create_wal_segment (d @ [(k, v)]) (k + 1) = (d @ [(k, v)]) @ [(k + 1, [])]"
      unfolding create_wal_segment_def
      using ok lt by (intro om_insert_beyond) (auto simp: st writer_ok_snoc dir_clean_snoc)
    have "writer_ok (\<lparr>ww_file_id = k + 1, ww_size = 0\<rparr>, (d @ [(k, v)]) @ [(k + 1, [])])"
      using ok lt by (subst writer_ok_snoc, subst dir_clean_snoc) (auto simp: st writer_ok_snoc dir_clean_snoc)
    then show ?thesis
      using False add new k
      by (intro exI [of _ "\<lparr>ww_file_id = k + 1, ww_size = 0\<rparr>"] exI [of _ "d @ [(k, v)]"] exI [of _ "k + 1"] exI [of _ "[]"])
        (simp add: st rotate_if_needed_def)
  qed
qed

lemma append_batch_ok:
  assumes ok: "writer_ok st" and room: "ww_file_id (fst st) \<noteq> - 1" and b: "wal_frame_ok b"
  shows "\<exists>st'. append_batch b st = Ok (st', None) \<and> writer_ok st' \<and> dir_log (snd st') = dir_log (snd st) @ [b]
    \<and> ww_file_id (fst st') \<le> ww_file_id (fst st) + 1"
proof -
  obtain w d k v where r: "rotate_if_needed st = Ok (w, d @ [(k, v)])" and ok': "writer_ok (w, d @ [(k, v)])"
    and v: "length v < 2 ^ 26" and log: "dir_log (d @ [(k, v)]) = dir_log (snd st)" and le: "k \<le> ww_file_id (fst st) + 1"
    using rotate_ok [OF ok room] by blast
  have k: "ww_file_id w = k" and sz: "unat (ww_size w) = length v" and clean: "dir_clean (d @ [(k, v)])"
    using ok' by (auto simp: writer_ok_snoc)
  then have wf: "om_wf (d @ [(k, v)])" and seg: "segment_clean v" by (auto simp: dir_clean_def)
  have len: "length (wal_frame b) \<le> 2 ^ 24 + 4" using b by (simp add: wal_frame_def wal_frame_ok_def)
  have enc: "encode_wal_batch b [] = Ok (wal_frame b)" using b encode_wal_batch_frame [of b "[]"] by (simp add: wal_frame_ok_def)
  define s where "s = ww_size w + word_of_nat (length (wal_frame b))"
  have small: "unat (word_of_nat (length (wal_frame b)) :: u64) = length (wal_frame b)"
    using len by (intro unat_word_of_nat_small) simp
  have fits: "unat (ww_size w) + unat (word_of_nat (length (wal_frame b)) :: u64) < 2 ^ LENGTH(64)"
    using small sz v len by simp
  have s: "unat s = length v + length (wal_frame b)" using unat_plus_bounded [OF fits] small sz by (simp add: s_def)
  let ?st = "(w\<lparr>ww_size := s\<rparr>, d @ [(k, v @ wal_frame b)])"
  have "append_batch b st = Ok (?st, None)"
    using fits by (simp add: append_batch_def r enc k om_lookup_last [OF wf] om_insert_last [OF wf] chk_add_Ok s_def)
  moreover have "writer_ok ?st"
    using clean seg s v len k segment_append(1) [OF seg b] by (simp add: writer_ok_snoc dir_clean_snoc)
  moreover have "dir_log (snd ?st) = dir_log (snd st) @ [b]"
    using log segment_append(2) [OF seg b] by simp
  ultimately show ?thesis using le k by (intro exI [of _ ?st]) simp
qed

lemma append_group_ok:
  assumes "writer_ok st" and "unat (ww_file_id (fst st)) + length qs < 2 ^ 64 - 1" and "\<forall>q \<in> set qs. wal_frame_ok (wq_batch q)"
  shows "\<exists>st'. append_group qs st n m = Ok (st', n + length qs, fold max (map (\<lambda>q. wb_end_lsn (wq_batch q)) qs) m, None)
    \<and> writer_ok st' \<and> dir_log (snd st') = dir_log (snd st) @ map wq_batch qs
    \<and> unat (ww_file_id (fst st')) \<le> unat (ww_file_id (fst st)) + length qs"
  using assms
proof (induction qs arbitrary: st n m)
  case (Cons q qs)
  have room: "ww_file_id (fst st) \<noteq> - 1" using Cons.prems(2) by (auto simp: unat_minus_one)
  obtain st1 where st1: "append_batch (wq_batch q) st = Ok (st1, None)" "writer_ok st1"
      "dir_log (snd st1) = dir_log (snd st) @ [wq_batch q]" "ww_file_id (fst st1) \<le> ww_file_id (fst st) + 1"
    using append_batch_ok [OF Cons.prems(1) room, of "wq_batch q"] Cons.prems(3) by auto
  have id1: "unat (ww_file_id (fst st1)) \<le> unat (ww_file_id (fst st)) + 1"
    using st1(4) unat_plus_one [OF room] by (simp add: word_le_nat_alt)
  then have "\<exists>st'. append_group qs st1 (n + 1) (max m (wb_end_lsn (wq_batch q)))
      = Ok (st', n + 1 + length qs, fold max (map (\<lambda>q. wb_end_lsn (wq_batch q)) qs) (max m (wb_end_lsn (wq_batch q))), None)
    \<and> writer_ok st' \<and> dir_log (snd st') = dir_log (snd st1) @ map wq_batch qs
    \<and> unat (ww_file_id (fst st')) \<le> unat (ww_file_id (fst st1)) + length qs"
    using Cons.prems st1 by (intro Cons.IH) auto
  then show ?case using st1 id1 by (auto simp: max.commute)
qed simp

section \<open>Truncation\<close>

lemma fold_max_end:
  "m \<le> fold (\<lambda>b m. if wb_end_lsn b > m then wb_end_lsn b else m) bs m
   \<and> (\<forall>b \<in> set bs. wb_end_lsn b \<le> fold (\<lambda>b m. if wb_end_lsn b > m then wb_end_lsn b else m) bs m)"
proof (induction bs arbitrary: m)
  case (Cons b bs)
  show ?case using Cons.IH [of "if wb_end_lsn b > m then wb_end_lsn b else m"] by (auto split: if_splits intro: order.trans)
qed simp

lemma segment_max_lsn_ge:
  "get_wal_segment_max_lsn d i = Ok l \<Longrightarrow> om_lookup d i = Some bs \<Longrightarrow> b \<in> set (fst (read_log read_wal_batch bs)) \<Longrightarrow> wb_end_lsn b \<le> l"
  using fold_max_end [where bs = "fst (read_log read_wal_batch bs)" and m = 0]
  by (auto simp: get_wal_segment_max_lsn_def open_segment_def)

definition live_batches :: "u64 \<Rightarrow> wal_dir \<Rightarrow> wal_batch list" where
  "live_batches c d = filter (\<lambda>b. wb_end_lsn b > c) (dir_log d)"

lemma om_remove_split:
  assumes "om_wf (d1 @ (i, bs) # d2)"
  shows "om_remove i (d1 @ (i, bs) # d2) = d1 @ d2"
proof -
  have "\<forall>k \<in> fst ` set d1. k \<noteq> i" "\<forall>k \<in> fst ` set d2. k \<noteq> i"
    using assms by (auto simp: om_wf_def sorted_wrt_append)
  then have "filter (\<lambda>(k', _). k' \<noteq> i) d1 = d1" "filter (\<lambda>(k', _). k' \<noteq> i) d2 = d2"
    by (auto intro!: filter_True)
  then show ?thesis by (simp add: om_remove_def)
qed

lemma remove_segment_live:
  assumes "om_wf d" and "om_lookup d i = Some bs" and "\<And>b. b \<in> set (fst (read_log read_wal_batch bs)) \<Longrightarrow> wb_end_lsn b \<le> c"
  shows "live_batches c (om_remove i d) = live_batches c d"
proof -
  have "(i, bs) \<in> set d" using om_lookup_iff [OF assms(1)] assms(2) by simp
  from split_list [OF this] obtain d1 d2 where d: "d = d1 @ (i, bs) # d2" by blast
  have "filter (\<lambda>b. wb_end_lsn b > c) (fst (read_log read_wal_batch bs)) = []"
    using assms(3) by (simp add: filter_empty_conv not_less)
  then show ?thesis using om_remove_split [of d1 i bs d2] assms(1) by (simp add: d live_batches_def)
qed

lemma truncate_loop_live:
  assumes "om_wf d" and "set is \<subseteq> fst ` set d" and "distinct is"
  shows "live_batches c (snd (truncate_loop c is n d)) = live_batches c d \<and> om_wf (snd (truncate_loop c is n d))
    \<and> set (snd (truncate_loop c is n d)) \<subseteq> set d
    \<and> (\<forall>k v. (k, v) \<in> set d \<and> k \<notin> set is \<longrightarrow> (k, v) \<in> set (snd (truncate_loop c is n d)))"
  using assms
proof (induction "is" arbitrary: n d)
  case (Cons i "is")
  obtain bs where bs: "om_lookup d i = Some bs" using Cons.prems om_lookup_iff by fastforce
  then obtain l where l: "get_wal_segment_max_lsn d i = Ok l" by (simp add: get_wal_segment_max_lsn_def open_segment_def)
  show ?case
  proof (cases "l > 0 \<and> l \<le> c")
    case True
    let ?d = "om_remove i d"
    have "live_batches c ?d = live_batches c d"
      using Cons.prems(1) bs segment_max_lsn_ge [OF l bs] True by (intro remove_segment_live) (auto intro: order.trans)
    moreover have "om_wf ?d" by (rule om_wf_remove [OF Cons.prems(1)])
    moreover have "set is \<subseteq> fst ` set ?d" using Cons.prems by (auto simp: fst_set_om_remove)
    moreover have "truncate_loop c (i # is) n d = truncate_loop c is (n + 1) ?d" using True l by simp
    moreover have sub: "set ?d \<subseteq> set d" and keep: "\<And>k v. (k, v) \<in> set d \<Longrightarrow> k \<noteq> i \<Longrightarrow> (k, v) \<in> set ?d" by (auto simp: om_remove_def)
    ultimately have ih: "live_batches c (snd (truncate_loop c (i # is) n d)) = live_batches c d"
        "om_wf (snd (truncate_loop c (i # is) n d))" "set (snd (truncate_loop c (i # is) n d)) \<subseteq> set ?d"
        "\<And>k v. (k, v) \<in> set ?d \<Longrightarrow> k \<notin> set is \<Longrightarrow> (k, v) \<in> set (snd (truncate_loop c (i # is) n d))"
      using Cons.IH [of ?d "n + 1"] Cons.prems(3) by simp_all
    show ?thesis using ih(1,2) order.trans [OF ih(3) sub] ih(4) [OF keep] by (simp del: truncate_loop.simps)
  next
    case False
    then have "truncate_loop c (i # is) n d = truncate_loop c is n d" using l by auto
    then show ?thesis using Cons.IH [of d n] Cons.prems by (simp del: truncate_loop.simps)
  qed
qed simp

lemma truncate_ok:
  assumes wf: "om_wf (d @ [(k, v)])"
  shows "\<exists>n d'. truncate_wal_segments (d @ [(k, v)]) c = (n, d' @ [(k, v)]) \<and> om_wf (d' @ [(k, v)]) \<and> set d' \<subseteq> set d
    \<and> live_batches c (d' @ [(k, v)]) = live_batches c (d @ [(k, v)])"
proof (cases "d = []")
  case True
  then show ?thesis by (intro exI [of _ 0] exI [of _ "[]"]) (simp add: truncate_wal_segments_def list_wal_segments_keys om_wf_def Let_def)
next
  case False
  let ?all = "d @ [(k, v)]" and ?t = "truncate_loop c (map fst d) 0 (d @ [(k, v)])"
  have dist: "distinct (map fst d)" and knot: "k \<notin> fst ` set d" and lt: "\<And>k'. k' \<in> fst ` set d \<Longrightarrow> k' < k"
    using wf unfolding om_wf_snoc by (auto simp: om_wf_def strict_sorted_iff)
  have t: "live_batches c (snd ?t) = live_batches c ?all" "om_wf (snd ?t)" "set (snd ?t) \<subseteq> set ?all" "(k, v) \<in> set (snd ?t)"
    using truncate_loop_live [OF wf, of "map fst d" c 0] dist knot by auto
  obtain d1 d2 where d12: "snd ?t = d1 @ (k, v) # d2" using t(4) by (meson split_list)
  have "d2 = []"
  proof (rule ccontr)
    assume "d2 \<noteq> []"
    then obtain k' v' d3 where d2: "d2 = (k', v') # d3" by (cases d2) auto
    then have "k < k'" "(k', v') \<in> set ?all" using t(2,3) by (auto simp: d12 om_wf_def sorted_wrt_append)
    then show False using lt [of k'] by force
  qed
  moreover have "set d1 \<subseteq> set d"
  proof
    fix x assume "x \<in> set d1"
    then have "x \<in> set ?all" "fst x < k" using t(2,3) by (auto simp: d12 om_wf_def sorted_wrt_append)
    then show "x \<in> set d" by auto
  qed
  moreover have "truncate_wal_segments ?all c = ?t"
    using False wf by (simp add: truncate_wal_segments_def list_wal_segments_keys butlast_append)
  ultimately show ?thesis using t d12 by (intro exI [of _ "fst ?t"] exI [of _ d1]) (simp add: prod_eq_iff)
qed

section \<open>Properties\<close>

lemma fold_max_eq: "fold max xs (m :: u64) = Max (insert m (set xs))"
  using Max.set_eq_fold [of m xs] by simp

lemma writer_round_cases:
  assumes "writer_ok st" and "unat (ww_file_id (fst st)) + length qs < 2 ^ 64 - 1" and "\<forall>q \<in> set qs. wal_frame_ok (wq_batch q)"
  shows "\<exists>r. writer_round sync_ok qs st durable = Ok r \<and> writer_ok (rr_writer r)
    \<and> dir_log (snd (rr_writer r)) = dir_log (snd st) @ map wq_batch qs
    \<and> (if sync_ok then rr_durable r = fold max (map (\<lambda>q. wb_end_lsn (wq_batch q)) qs) 0 \<and> rr_forwarded r = map wq_batch qs
         \<and> rr_acks r = map (\<lambda>q. if wq_ack q then Some (Ok (wb_end_lsn (wq_batch q))) else None) qs
       else rr_durable r = durable \<and> rr_forwarded r = []
         \<and> (\<forall>q \<in> set (rr_acks r). q = None \<or> (\<exists>e. q = Some (Err e))) \<and> length (rr_acks r) = length qs)"
proof -
  obtain st' where st': "append_group qs st 0 0 = Ok (st', length qs, fold max (map (\<lambda>q. wb_end_lsn (wq_batch q)) qs) 0, None)"
      "writer_ok st'" "dir_log (snd st') = dir_log (snd st) @ map wq_batch qs"
    using append_group_ok [OF assms, of 0 0] by auto
  have acks: "map (\<lambda>(idx, q). if \<not> wq_ack q then None else Some (if idx < length qs then Ok (wb_end_lsn (wq_batch q))
             else Err e)) (enumerate 0 qs) = map (\<lambda>q. if wq_ack q then Some (Ok (wb_end_lsn (wq_batch q))) else None) qs" for e
    by (rule nth_equalityI) (auto simp: nth_enumerate_eq)
  show ?thesis using st' by (cases sync_ok) (auto simp: writer_round_def acks)
qed

text \<open>C21: Group commit: a round of the WAL writer whose sync succeeds appends the batches of the group to the
  log in order, across segment rotations, answers every request that wants an answer with its end LSN, sets
  the durable LSN to the largest end LSN of the group and passes exactly the group on to replay.\<close>

theorem group_commit_appends:
  assumes "writer_ok st" and "unat (ww_file_id (fst st)) + length qs < 2 ^ 64 - 1"
    and "\<forall>q \<in> set qs. length (encode_body (wq_batch q)) \<le> MAX_WAL_FRAME_LEN" and "qs \<noteq> []"
  shows "\<exists>r. writer_round True qs st durable = Ok r \<and> writer_ok (rr_writer r)
    \<and> dir_log (snd (rr_writer r)) = dir_log (snd st) @ map wq_batch qs
    \<and> rr_durable r = Max (set (map (\<lambda>q. wb_end_lsn (wq_batch q)) qs)) \<and> rr_forwarded r = map wq_batch qs
    \<and> rr_acks r = map (\<lambda>q. if wq_ack q then Some (Ok (wb_end_lsn (wq_batch q))) else None) qs"
proof -
  have "Max (insert 0 (set (map (\<lambda>q. wb_end_lsn (wq_batch q)) qs))) = Max (set (map (\<lambda>q. wb_end_lsn (wq_batch q)) qs))"
    using assms(4) by (subst Max_insert) (auto simp: max_def)
  then show ?thesis
    using writer_round_cases [OF assms(1,2), of True durable] assms(3) by (simp add: fold_max_eq wal_frame_ok_def)
qed

lemma fresh_writer_ok: "writer_ok fresh_writer" "ww_file_id (fst fresh_writer) = 1"
  by (simp_all add: fresh_writer_def writer_ok_def dir_clean_def om_wf_def)

theorem group_commit_appends_witness:
  "\<exists>r. writer_round True [sample_request, sample_request] fresh_writer 3 = Ok r
    \<and> dir_log (snd (rr_writer r)) = [sample_batch, sample_batch] \<and> rr_durable r = 6"
  using group_commit_appends [OF fresh_writer_ok(1), of "[sample_request, sample_request]" 3] fresh_writer_ok(2)
  by (auto simp: sample_request_def sample_batch_length) (auto simp: sample_batch_def fresh_writer_def)

text \<open>When the sync of a group fails, every request is answered with an error and the durable LSN stays,
  so the same LSN range is free for the next batch; but the batches of the failed group stay in the log,
  before whatever is appended next.\<close>

theorem failed_sync_keeps_batches:
  assumes "writer_ok st" and "unat (ww_file_id (fst st)) + 2 < 2 ^ 64 - 1"
    and "length (encode_body (wq_batch q)) \<le> MAX_WAL_FRAME_LEN" and "length (encode_body (wq_batch q')) \<le> MAX_WAL_FRAME_LEN"
    and "wq_ack q" and "wq_ack q'"
  shows "\<exists>r r' e. writer_round False [q] st durable = Ok r \<and> rr_acks r = [Some (Err e)] \<and> rr_durable r = durable
    \<and> writer_round True [q'] (rr_writer r) (rr_durable r) = Ok r' \<and> rr_acks r' = [Some (Ok (wb_end_lsn (wq_batch q')))]
    \<and> dir_log (snd (rr_writer r')) = dir_log (snd st) @ [wq_batch q, wq_batch q']"
proof -
  obtain st1 where st1: "append_group [q] st 0 0 = Ok (st1, 1, max 0 (wb_end_lsn (wq_batch q)), None)" "writer_ok st1"
      "dir_log (snd st1) = dir_log (snd st) @ [wq_batch q]" "unat (ww_file_id (fst st1)) \<le> unat (ww_file_id (fst st)) + 1"
    using append_group_ok [OF assms(1), of "[q]" 0 0] assms(2,3) by (auto simp: wal_frame_ok_def max.commute)
  let ?e = "Io OtherKind (error_text (Io OtherKind ''sync failed''))"
  have r: "writer_round False [q] st durable = Ok \<lparr>rr_writer = st1, rr_durable = durable, rr_acks = [Some (Err ?e)], rr_forwarded = []\<rparr>"
    using st1(1) assms(5) by (simp add: writer_round_def)
  obtain r' where r': "writer_round True [q'] st1 durable = Ok r'" "rr_acks r' = [Some (Ok (wb_end_lsn (wq_batch q')))]"
      "dir_log (snd (rr_writer r')) = dir_log (snd st1) @ [wq_batch q']"
    using writer_round_cases [OF st1(2), of "[q']" True durable] st1(4) assms(2,4,6) by (auto simp: wal_frame_ok_def)
  show ?thesis using r r' st1(3) by auto
qed

theorem failed_sync_keeps_batches_witness:
  "\<exists>r r' e. writer_round False [sample_request] fresh_writer 3 = Ok r \<and> rr_acks r = [Some (Err e)]
    \<and> writer_round True [sample_request] (rr_writer r) 3 = Ok r' \<and> dir_log (snd (rr_writer r')) = [sample_batch, sample_batch]"
  using failed_sync_keeps_batches [OF fresh_writer_ok(1), of sample_request sample_request 3] fresh_writer_ok(2)
  by (auto simp: sample_request_def sample_batch_length fresh_writer_def)

text \<open>C16: Truncation is safe: it keeps the last segment and every batch whose end LSN is past the checkpoint, in
  order, removes only whole segments, and leaves a well formed directory.\<close>

theorem truncation_keeps_live_batches:
  assumes "om_wf d" and "d \<noteq> []"
  shows "\<exists>n d'. truncate_wal_segments d c = (n, d') \<and> om_wf d' \<and> d' \<noteq> [] \<and> last d' = last d \<and> set d' \<subseteq> set d
    \<and> filter (\<lambda>b. wb_end_lsn b > c) (dir_log d') = filter (\<lambda>b. wb_end_lsn b > c) (dir_log d)"
proof -
  obtain d0 k v where d: "d = d0 @ [(k, v)]" using assms(2) by (cases d rule: rev_cases) auto
  show ?thesis using truncate_ok [of d0 k v c] assms(1) by (auto simp: d live_batches_def)
qed

theorem truncation_keeps_live_batches_witness:
  "\<exists>n d'. truncate_wal_segments [(1, wal_frame sample_batch), (2, wal_frame sample_batch)] 9 = (n, d') \<and> last d' = (2, wal_frame sample_batch)"
  using truncation_keeps_live_batches [of "[(1, wal_frame sample_batch), (2, wal_frame sample_batch)]" 9]
  by (auto simp: om_wf_def)

lemma take_nat_le: "k \<le> j \<Longrightarrow> take k (nat_le j n) = nat_le k n"
proof (induction k arbitrary: j n)
  case (Suc k)
  then show ?case by (cases j) auto
qed simp

lemma read_shifted_frame:
  assumes "length (encode_body b) < MAX_WAL_FRAME_LEN"
  shows "\<exists>e. read_wal_batch (t # wal_frame b) = Err e"
proof -
  let ?n = "length (encode_body b)"
  have n: "28 \<le> ?n" by (simp add: length_encode_body)
  have "unat (word_of_nat ?n :: u32) = ?n" using assms by (intro unat_word_of_nat_small) simp
  then have "take 3 (to_le 4 (word_of_nat ?n :: u32)) = nat_le 3 ?n" by (simp add: to_le_def take_nat_le)
  then have tk: "take 4 (t # wal_frame b) = t # nat_le 3 ?n" by (simp add: wal_frame_def take_Cons')
  have "unat t < 256" using unsigned_less [where 'a = nat, of t] by simp
  moreover have v: "le_nat (t # nat_le 3 ?n) = unat t + 256 * ?n" using assms by (simp add: le_nat_nat_le)
  ultimately have len: "unat (from_le (take 4 (t # wal_frame b)) :: u32) = unat t + 256 * ?n"
    using assms by (simp only: tk from_le_def v) (subst unat_word_of_nat_small, simp_all)
  have "length (drop 4 (t # wal_frame b)) = ?n + 1" "\<not> length (t # wal_frame b) < 4" by (simp_all add: wal_frame_def)
  then show ?thesis using n by (simp only: read_wal_batch_def Let_def len) (auto simp: invalid_data_def)
qed

text \<open>A segment that ends in one byte of a torn length word reads as complete, but the writer reopens it in
  append mode without cutting the byte off: a batch appended after it is acknowledged and cannot be read back.\<close>

theorem torn_byte_hides_append:
  assumes "segment_clean bs" and "length bs < 2 ^ 26 - 1" and "length (encode_body b) < MAX_WAL_FRAME_LEN"
  shows "\<exists>st st'. writer_open [(i, bs @ [t])] = Ok st \<and> snd (read_log read_wal_batch (bs @ [t])) = AtEof
    \<and> append_batch b st = Ok (st', None) \<and> dir_log (snd st') = dir_log [(i, bs)]"
proof -
  let ?d = "[(i, bs @ [t])]" and ?w = "\<lparr>ww_file_id = i, ww_size = word_of_nat (length bs + 1)\<rparr>"
  let ?d' = "[(i, bs @ t # wal_frame b)]"
  have sz: "unat (word_of_nat (length bs + 1) :: u64) = length bs + 1"
    using assms(2) by (intro unat_word_of_nat_small) simp
  have "list_wal_segments ?d = [i]" by (subst list_wal_segments_keys) (simp_all add: om_wf_def)
  then have "writer_open ?d = Ok (?w, ?d)"
    by (simp add: writer_open_def open_segment_def om_lookup_def flip: Suc_eq_plus1)
  moreover have "rotate_if_needed (?w, ?d) = Ok (?w, ?d)"
    using assms(2) sz by (simp add: rotate_if_needed_def word_less_nat_alt)
  moreover have "encode_wal_batch b [] = Ok (wal_frame b)" using assms(3) encode_wal_batch_frame [of b "[]"] by simp
  moreover have "unat (word_of_nat (length (wal_frame b)) :: u64) = length (wal_frame b)"
    using assms(3) by (intro unat_word_of_nat_small) (simp add: wal_frame_def)
  ultimately have "\<exists>s. append_batch b (?w, ?d) = Ok ((?w\<lparr>ww_size := s\<rparr>, ?d'), None)"
    using assms(2,3) sz by (simp add: append_batch_def chk_add_def om_lookup_def wal_frame_def)
  moreover obtain xs where xs: "bs = concat (map wal_frame xs)" "list_all wal_frame_ok xs"
    using assms(1) by (auto simp: segment_clean_def)
  obtain e where "read_wal_batch (t # wal_frame b) = Err e" using read_shifted_frame [OF assms(3)] by blast
  then have "read_log read_wal_batch (t # wal_frame b) = ([], AtError e)" by (subst wal.read_log_unfold) simp
  then have "dir_log ?d' = dir_log [(i, bs)]"
    using wal.read_log_concat [of xs "t # wal_frame b"] wal.read_log_encoded [of xs] xs by (simp add: list_all_iff)
  moreover have "read_wal_batch [t] = Ok (None, [])" by (simp add: read_wal_batch_def)
  then have "read_log read_wal_batch [t] = ([], AtEof)" by (subst wal.read_log_unfold) simp
  then have "snd (read_log read_wal_batch (bs @ [t])) = AtEof"
    using wal.read_log_concat [of xs "[t]"] xs by (simp add: list_all_iff)
  moreover have "writer_open ?d = Ok (?w, ?d)" by fact
  ultimately show ?thesis by (metis snd_conv)
qed

theorem torn_byte_hides_append_witness:
  "\<exists>st st'. writer_open [(1, [5])] = Ok st \<and> append_batch sample_batch st = Ok (st', None) \<and> dir_log (snd st') = []"
  using torn_byte_hides_append [of "[]" sample_batch 1 5] by (auto simp: sample_batch_length)

end
