(* ===== verification/Active_Reads.thy ===== *)
theory Active_Reads
  imports Ordered_Map Common
begin

text \<open>
  The registry of active read snapshots (\<open>active_reads.rs\<close>), from which garbage collection takes its
  watermark. The state is the id counter and the ordered map from ids to snapshot LSNs; every operation
  holds the mutex for its whole body, so each is one atomic step. The guard of \<open>register\<close> is the returned
  id: dropping it is \<open>unregister\<close>.
\<close>

section \<open>Operations\<close>

record active_reads =
  ar_next_id :: u64
  ar_map :: "(u64, u64) omap"

definition active_reads_new :: active_reads where
  "active_reads_new = \<lparr>ar_next_id = 1, ar_map = []\<rparr>"

text \<open>\<open>fetch_add\<close> wraps around.\<close>

definition register :: "u64 \<Rightarrow> active_reads \<Rightarrow> u64 \<times> active_reads" where
  "register read_lsn ar = (let i = ar_next_id ar in
     (i, ar\<lparr>ar_next_id := i + 1, ar_map := om_insert i read_lsn (ar_map ar)\<rparr>))"

definition unregister :: "u64 \<Rightarrow> active_reads \<Rightarrow> active_reads" where
  "unregister i ar = ar\<lparr>ar_map := om_remove i (ar_map ar)\<rparr>"

definition ar_contains :: "active_reads \<Rightarrow> u64 \<Rightarrow> bool" where
  "ar_contains ar i \<longleftrightarrow> om_lookup (ar_map ar) i \<noteq> None"

definition ar_abort :: "u64 \<Rightarrow> active_reads \<Rightarrow> bool \<times> active_reads" where
  "ar_abort i ar = (om_lookup (ar_map ar) i \<noteq> None, ar\<lparr>ar_map := om_remove i (ar_map ar)\<rparr>)"

definition ar_list :: "active_reads \<Rightarrow> u64 list" where
  "ar_list ar = map fst (ar_map ar)"

fun min_opt :: "'a::linorder list \<Rightarrow> 'a option" where
  "min_opt [] = None"
| "min_opt (x # xs) = (case min_opt xs of None \<Rightarrow> Some x | Some y \<Rightarrow> Some (min x y))"

definition min_read_lsn :: "active_reads \<Rightarrow> u64 option" where
  "min_read_lsn ar = min_opt (map snd (ar_map ar))"

definition ar_len :: "active_reads \<Rightarrow> nat" where
  "ar_len ar = length (ar_map ar)"

definition ar_is_empty :: "active_reads \<Rightarrow> bool" where
  "ar_is_empty ar \<longleftrightarrow> ar_map ar = []"

text \<open>The garbage-collection watermark that \<open>wal_replay_loop\<close> computes.\<close>

definition gc_watermark :: "active_reads \<Rightarrow> u64 \<Rightarrow> u64" where
  "gc_watermark ar durable = min (case min_read_lsn ar of Some l \<Rightarrow> l | None \<Rightarrow> durable) durable"

section \<open>Lemmas\<close>

definition ar_wf :: "active_reads \<Rightarrow> bool" where
  "ar_wf ar \<longleftrightarrow> om_wf (ar_map ar) \<and> (\<forall>i \<in> fst ` set (ar_map ar). i < ar_next_id ar)"

lemma min_opt_None [simp]: "min_opt xs = None \<longleftrightarrow> xs = []"
  by (cases xs) (auto split: option.splits)

lemma min_opt_eq: "xs \<noteq> [] \<Longrightarrow> min_opt xs = Some (Min (set xs))"
proof (induction xs)
  case (Cons x xs)
  then show ?case by (cases "xs = []") auto
qed simp

lemma min_opt_le: "x \<in> set xs \<Longrightarrow> min_opt xs = Some y \<Longrightarrow> y \<le> x"
  using min_opt_eq [of xs] by (cases "xs = []") auto

lemma ar_wf_new: "ar_wf active_reads_new"
  by (simp add: ar_wf_def active_reads_new_def)

lemma ar_wf_register:
  assumes "ar_wf ar" and "ar_next_id ar \<noteq> - 1"
  shows "ar_wf (snd (register l ar))"
proof -
  have "i < ar_next_id ar + 1" if "i < ar_next_id ar \<or> i = ar_next_id ar" for i
    using that unat_plus_one [OF assms(2)] by (auto simp: word_less_nat_alt)
  then show ?thesis
    using assms(1) by (auto simp: ar_wf_def register_def Let_def om_wf_insert fst_set_om_insert)
qed

lemma ar_wf_unregister: "ar_wf ar \<Longrightarrow> ar_wf (unregister i ar)"
  by (simp add: ar_wf_def unregister_def om_wf_remove fst_set_om_remove) blast

lemma ar_wf_abort: "ar_wf ar \<Longrightarrow> ar_wf (snd (ar_abort i ar))"
  by (simp add: ar_wf_def ar_abort_def om_wf_remove fst_set_om_remove) blast

text \<open>A fresh id never collides, so registering keeps every other snapshot.\<close>

lemma register_fresh:
  assumes "ar_wf ar"
  shows "om_lookup (ar_map ar) (fst (register l ar)) = None"
proof -
  have "ar_next_id ar \<notin> fst ` set (ar_map ar)" using assms by (auto simp: ar_wf_def)
  then show ?thesis by (simp add: register_def Let_def om_lookup_def map_of_eq_None_iff)
qed

lemma register_lookup:
  "om_lookup (ar_map (snd (register l ar))) = (om_lookup (ar_map ar))(fst (register l ar) \<mapsto> l)"
  by (simp add: register_def Let_def om_lookup_insert)

lemma gc_watermark_le_read:
  assumes "ar_wf ar" and "om_lookup (ar_map ar) i = Some l"
  shows "gc_watermark ar durable \<le> l"
proof -
  have "l \<in> set (map snd (ar_map ar))"
    using assms om_lookup_iff [of "ar_map ar"] by (force simp: ar_wf_def)
  then show ?thesis
    using min_opt_le [of l "map snd (ar_map ar)"]
    by (cases "min_read_lsn ar") (auto simp: gc_watermark_def min_read_lsn_def min.coboundedI1)
qed

lemma gc_watermark_le_durable: "gc_watermark ar durable \<le> durable"
  by (simp add: gc_watermark_def)

end
