(* ===== verification/Node_Mvcc.thy ===== *)
theory Node_Mvcc
  imports Active_Reads Wal_Codec
begin

text \<open>
  The storage node's multi-version store (\<open>node_mvcc.rs\<close>): each key has its versions in commit order,
  a committed batch pushes one version per write, a snapshot read takes the last version at or below its
  LSN, and garbage collection drops the versions that no snapshot at or above a watermark can see.

  The lemmas show what a read gives after a batch and after a collection. With the registry of active
  reads this gives the safety of collection: no registered snapshot loses a version it can read.
\<close>

section \<open>Operations\<close>

record mvcc_version =
  mv_commit_lsn :: u64
  mv_value :: "bytes option"

type_synonym mvcc_store = "(bytes, mvcc_version list) omap"

definition push_version :: "bytes \<Rightarrow> mvcc_version \<Rightarrow> mvcc_store \<Rightarrow> mvcc_store" where
  "push_version k v store = om_entry k [] (\<lambda>vs. vs @ [v]) store"

definition apply_txn_record :: "u64 \<Rightarrow> wal_record \<Rightarrow> mvcc_store \<Rightarrow> mvcc_store" where
  "apply_txn_record commit_lsn r store =
    (if wr_op r = WAL_OP_TXN_PUT
     then push_version (wr_key r) \<lparr>mv_commit_lsn = commit_lsn, mv_value = Some (wr_value r)\<rparr> store
     else if wr_op r = WAL_OP_TXN_DEL
     then push_version (wr_key r) \<lparr>mv_commit_lsn = commit_lsn, mv_value = None\<rparr> store
     else store)"

definition apply_txn_batch_to_mvcc :: "mvcc_store \<Rightarrow> wal_batch \<Rightarrow> mvcc_store" where
  "apply_txn_batch_to_mvcc store batch =
    (if wb_records batch = [] then store
     else if wr_op (last (wb_records batch)) \<noteq> WAL_OP_TXN_COMMIT then store
     else fold (apply_txn_record (wb_end_lsn batch)) (wb_records batch) store)"

definition mvcc_get_at :: "mvcc_store \<Rightarrow> bytes \<Rightarrow> u64 \<Rightarrow> bytes option option" where
  "mvcc_get_at store k read_lsn =
    (case om_lookup store k of None \<Rightarrow> None
     | Some versions \<Rightarrow> map_option mv_value (List.find (\<lambda>v. mv_commit_lsn v \<le> read_lsn) (rev versions)))"

text \<open>The scan for the last version of the visible prefix, from index \<open>idx\<close> on.\<close>

fun last_visible :: "u64 \<Rightarrow> nat \<Rightarrow> nat option \<Rightarrow> mvcc_version list \<Rightarrow> nat option" where
  "last_visible watermark idx acc [] = acc"
| "last_visible watermark idx acc (v # vs) =
    (if mv_commit_lsn v \<le> watermark then last_visible watermark (Suc idx) (Some idx) vs else acc)"

definition gc_versions :: "u64 \<Rightarrow> mvcc_version list \<Rightarrow> mvcc_version list" where
  "gc_versions watermark versions =
    (if length versions \<le> 1 then versions
     else case last_visible watermark 0 None versions of
       Some idx \<Rightarrow> if idx > 0 then drop idx versions else versions
     | None \<Rightarrow> versions)"

fun gc_mvcc_versions :: "mvcc_store \<Rightarrow> u64 \<Rightarrow> mvcc_store \<times> nat \<times> nat" where
  "gc_mvcc_versions [] watermark = ([], 0, 0)"
| "gc_mvcc_versions ((k, versions) # store) watermark =
    (let kept = gc_versions watermark versions; removed = length versions - length kept;
         (store', touched, total) = gc_mvcc_versions store watermark in
     ((k, kept) # store', (if removed > 0 then 1 else 0) + touched, removed + total))"

section \<open>Reads\<close>

abbreviation visible :: "u64 \<Rightarrow> mvcc_version list \<Rightarrow> bytes option option" where
  "visible l versions \<equiv> map_option mv_value (List.find (\<lambda>v. mv_commit_lsn v \<le> l) (rev versions))"

text \<open>The last write of a batch to a key: the version that a read at the commit LSN sees.\<close>

definition txn_write :: "bytes \<Rightarrow> wal_record \<Rightarrow> bytes option option" where
  "txn_write k r =
    (if wr_key r = k \<and> wr_op r = WAL_OP_TXN_PUT then Some (Some (wr_value r))
     else if wr_key r = k \<and> wr_op r = WAL_OP_TXN_DEL then Some None else None)"

definition last_write :: "bytes \<Rightarrow> wal_record list \<Rightarrow> bytes option option" where
  "last_write k rs = fold (\<lambda>r acc. case txn_write k r of Some w \<Rightarrow> Some w | None \<Rightarrow> acc) rs None"

lemma find_append: "List.find P (xs @ ys) = (case List.find P xs of Some x \<Rightarrow> Some x | None \<Rightarrow> List.find P ys)"
  by (induction xs) auto

lemma visible_snoc: "visible l (vs @ [v]) = (if mv_commit_lsn v \<le> l then Some (mv_value v) else visible l vs)"
  by simp

lemma mvcc_get_push:
  "mvcc_get_at (push_version k v store) k' l =
    (if k' = k \<and> mv_commit_lsn v \<le> l then Some (mv_value v) else mvcc_get_at store k' l)"
  by (auto simp: mvcc_get_at_def push_version_def om_lookup_entry split: option.splits)

lemma mvcc_get_apply_record:
  "mvcc_get_at (apply_txn_record c r store) k l =
    (if c \<le> l then (case txn_write k r of Some w \<Rightarrow> Some w | None \<Rightarrow> mvcc_get_at store k l)
     else mvcc_get_at store k l)"
  by (auto simp: apply_txn_record_def txn_write_def mvcc_get_push)

lemma last_write_fold:
  "fold (\<lambda>r acc. case txn_write k r of Some w \<Rightarrow> Some w | None \<Rightarrow> acc) rs acc
    = (case last_write k rs of Some w \<Rightarrow> Some w | None \<Rightarrow> acc)"
  unfolding last_write_def
proof (induction rs arbitrary: acc)
  case (Cons r rs)
  show ?case
    by (cases "txn_write k r"; simp only: fold.simps comp_def option.case)
      (subst (1 2) Cons.IH, simp split: option.splits)+
qed simp

lemma mvcc_get_apply_records:
  "mvcc_get_at (fold (apply_txn_record c) rs store) k l =
    (if c \<le> l then (case last_write k rs of Some w \<Rightarrow> Some w | None \<Rightarrow> mvcc_get_at store k l)
     else mvcc_get_at store k l)"
proof (induction rs arbitrary: store)
  case (Cons r rs)
  have "last_write k (r # rs) = fold (\<lambda>r acc. case txn_write k r of Some w \<Rightarrow> Some w | None \<Rightarrow> acc) rs (txn_write k r)"
    by (cases "txn_write k r") (simp_all add: last_write_def)
  then have "last_write k (r # rs) = (case last_write k rs of Some w \<Rightarrow> Some w | None \<Rightarrow> txn_write k r)"
    by (simp only: last_write_fold)
  then show ?case
    using Cons by (auto simp: mvcc_get_apply_record split: option.splits)
qed (simp add: last_write_def)

section \<open>Garbage collection\<close>

lemma last_visible_cases:
  "last_visible w i acc vs = (let n = length (takeWhile (\<lambda>v. mv_commit_lsn v \<le> w) vs) in
     if n = 0 then acc else Some (i + n - 1))"
  by (induction w i acc vs rule: last_visible.induct) (auto simp: Let_def)

abbreviation visible_prefix :: "u64 \<Rightarrow> mvcc_version list \<Rightarrow> nat" where
  "visible_prefix w vs \<equiv> length (takeWhile (\<lambda>v. mv_commit_lsn v \<le> w) vs)"

lemma gc_versions_eq: "gc_versions w vs = drop (visible_prefix w vs - 1) vs"
proof (cases "length vs \<le> 1")
  case True
  then have "visible_prefix w vs - 1 = 0" using length_takeWhile_le [of _ vs] by (metis diff_is_0_eq le_trans)
  then show ?thesis using True by (simp add: gc_versions_def)
next
  case False
  then show ?thesis by (auto simp: gc_versions_def last_visible_cases Let_def)
qed

lemma visible_gc_versions:
  assumes "w \<le> l"
  shows "visible l (gc_versions w vs) = visible l vs"
proof (cases "visible_prefix w vs = 0")
  case False
  define n where "n = visible_prefix w vs - 1"
  have n: "n < visible_prefix w vs" using False by (simp add: n_def)
  then have c: "mv_commit_lsn (vs ! n) \<le> w"
    using nth_mem [of n "takeWhile (\<lambda>v. mv_commit_lsn v \<le> w) vs"] by (auto simp: takeWhile_nth dest: set_takeWhileD)
  have "n < length vs" using n length_takeWhile_le [of _ vs] by (rule order.strict_trans2)
  then have "vs ! n \<in> set (drop n vs)" by (metis Cons_nth_drop_Suc list.set_intros(1))
  then have "List.find (\<lambda>v. mv_commit_lsn v \<le> l) (rev (drop n vs)) \<noteq> None"
    using order.trans [OF c assms] by (auto simp: find_None_iff)
  moreover have "visible l vs = visible l (take n vs @ drop n vs)" by simp
  ultimately show ?thesis
    unfolding gc_versions_eq n_def [symmetric] by (simp only: rev_append find_append) auto
qed (simp add: gc_versions_eq)

lemma gc_mvcc_store: "fst (gc_mvcc_versions store w) = om_map_values (gc_versions w) store"
  by (induction store w rule: gc_mvcc_versions.induct) (auto simp: om_map_values_def Let_def split: prod.splits)

lemma mvcc_get_gc: "w \<le> l \<Longrightarrow> mvcc_get_at (fst (gc_mvcc_versions store w)) k l = mvcc_get_at store k l"
  by (auto simp: mvcc_get_at_def gc_mvcc_store om_lookup_map_values visible_gc_versions split: option.splits)

lemma gc_mvcc_counts:
  "snd (snd (gc_mvcc_versions store w)) + (\<Sum>(k, vs)\<leftarrow>fst (gc_mvcc_versions store w). length vs)
    = (\<Sum>(k, vs)\<leftarrow>store. length vs)"
  by (induction store w rule: gc_mvcc_versions.induct) (auto simp: Let_def gc_versions_eq split: prod.splits)

section \<open>Properties\<close>

text \<open>Applying a committed batch is atomic for snapshot reads: a read below the batch's end LSN sees
  the store as it was before, a read at or above it sees the last write of the batch to the key, or what
  it saw before when the batch does not write the key. A batch without a commit marker changes nothing.\<close>

theorem mvcc_apply_snapshot:
  "mvcc_get_at (apply_txn_batch_to_mvcc store b) k l =
    (if wb_records b \<noteq> [] \<and> wr_op (last (wb_records b)) = WAL_OP_TXN_COMMIT \<and> wb_end_lsn b \<le> l
     then (case last_write k (wb_records b) of Some w \<Rightarrow> Some w | None \<Rightarrow> mvcc_get_at store k l)
     else mvcc_get_at store k l)"
  by (simp add: apply_txn_batch_to_mvcc_def mvcc_get_apply_records)

text \<open>C18: Garbage collection at the watermark taken from the registry of active reads is safe: every
  registered snapshot, and every snapshot at or above the durable LSN, reads the same value of every key
  before and after, and the reported count is the number of versions that are gone.\<close>

theorem mvcc_gc_safe:
  assumes "ar_wf ar" and "om_lookup (ar_map ar) i = Some l \<or> durable \<le> l"
  shows "mvcc_get_at (fst (gc_mvcc_versions store (gc_watermark ar durable))) k l = mvcc_get_at store k l
    \<and> snd (snd (gc_mvcc_versions store (gc_watermark ar durable)))
      = (\<Sum>(k, vs)\<leftarrow>store. length vs)
        - (\<Sum>(k, vs)\<leftarrow>fst (gc_mvcc_versions store (gc_watermark ar durable)). length vs)"
proof -
  have "gc_watermark ar durable \<le> l"
    using assms gc_watermark_le_read gc_watermark_le_durable by (meson order.trans)
  then show ?thesis using gc_mvcc_counts [of store "gc_watermark ar durable"] by (simp add: mvcc_get_gc)
qed

theorem mvcc_gc_safe_witness:
  "let ar = snd (register 5 active_reads_new);
       store = [([1], [\<lparr>mv_commit_lsn = 2, mv_value = Some [7]\<rparr>, \<lparr>mv_commit_lsn = 4, mv_value = Some [8]\<rparr>,
                       \<lparr>mv_commit_lsn = 9, mv_value = None\<rparr>])]
   in fst (gc_mvcc_versions store (gc_watermark ar 9)) \<noteq> store
      \<and> mvcc_get_at (fst (gc_mvcc_versions store (gc_watermark ar 9))) [1] 5 = Some (Some [8])"
proof -
  have wf: "ar_wf (snd (register 5 active_reads_new))"
    by (rule ar_wf_register [OF ar_wf_new]) (simp add: active_reads_new_def)
  have "om_lookup (ar_map (snd (register 5 active_reads_new))) 1 = Some 5"
    by (simp add: register_def active_reads_new_def Let_def om_lookup_def)
  then show ?thesis
    using mvcc_gc_safe [OF wf, of 1 5 9] by (simp add: Let_def) (simp add: mvcc_get_at_def om_lookup_def gc_watermark_def
      min_read_lsn_def register_def active_reads_new_def gc_versions_def)
qed

end
