(* ===== verification/Wal_Replay.thy ===== *)
theory Wal_Replay
  imports Wal_Files Slotted_Page Node_Mvcc Active_Reads
begin

text \<open>
  Redo (\<open>node_wal_replay.rs\<close>, the replay parts of \<open>node.rs\<close>, \<open>node_bootstrap.rs\<close> and
  \<open>node_maintenance.rs\<close>): applying WAL records to the page store, live behind the writer and at start-up.

  The state of a storage node is one record. What the environment supplies to a step is \<open>env\<close>: the clock,
  a measured duration for the metrics, and whether syncs of the page file and of the WAL succeed. A step that may fail
  half-way returns its state together with the error, since the effects so far stay.

  \<open>redo\<close> is the abstract meaning of page-image records: it updates a map from page ids to images. The
  lemmas show that live replay and recovery compute it, on which records, and what ends up in the
  \<open>wal_state\<close> file.
\<close>

section \<open>Steps that keep their state on errors\<close>

type_synonym 's step = "('s \<times> error option) res"

definition and_then :: "'s step \<Rightarrow> ('s \<Rightarrow> 's step) \<Rightarrow> 's step" where
  "and_then m f = res_bind m (\<lambda>(s, e). case e of None \<Rightarrow> f s | Some _ \<Rightarrow> Ok (s, e))"

text \<open>\<open>let _ = ...\<close>: the error is dropped.\<close>

definition ignore :: "'s step \<Rightarrow> 's res" where
  "ignore m = res_bind m (\<lambda>(s, _). Ok s)"

text \<open>A fallible computation without effects, run from state \<open>s\<close>.\<close>

definition try_in :: "'s \<Rightarrow> 'a res \<Rightarrow> ('a \<Rightarrow> 's step) \<Rightarrow> 's step" where
  "try_in s r f = (case r of Ok x \<Rightarrow> f x | Err e \<Rightarrow> Ok (s, Some e) | Panic \<Rightarrow> Panic)"

record env =
  en_now :: nat
  en_ms :: u64
  en_sync :: bool
  en_wal_sync :: bool

section \<open>Bootstrap files\<close>

definition read_wal_state :: "bytes option \<Rightarrow> u64 res" where
  "read_wal_state f =
    (case f of None \<Rightarrow> Ok 0
     | Some bs \<Rightarrow> if length bs < 8 then Err (Io UnexpectedEof ''early eof'') else Ok (from_le (take 8 bs)))"

text \<open>The file is replaced by a rename, so it has the old or the new contents.\<close>

definition write_wal_state :: "u64 \<Rightarrow> bytes option" where
  "write_wal_state l = Some (to_le 8 l)"

fun index_from :: "nat \<Rightarrow> nat \<Rightarrow> nat \<Rightarrow> page_store \<Rightarrow> (u64 set \<times> page_store) res" where
  "index_from now 0 pid ps = Ok ({}, ps)"
| "index_from now (Suc n) pid ps =
    res_bind (ps_get now (word_of_nat pid) ps) (\<lambda>(r, ps').
      res_map (\<lambda>(ix, ps''). (if r \<noteq> None then insert (word_of_nat pid) ix else ix, ps'')) (index_from now n (Suc pid) ps'))"

definition build_page_index :: "nat \<Rightarrow> page_store \<Rightarrow> (u64 set \<times> page_store) res" where
  "build_page_index now ps = index_from now (unat (ps_max_page_id ps) + 1) 0 ps"

section \<open>Maintenance\<close>

record node_metrics =
  nm_wal_backpressure_count :: u64
  nm_checkpoint_runs :: u64
  nm_checkpoint_total_ms :: u64
  nm_checkpoint_last_ms :: u64
  nm_gc_runs :: u64
  nm_gc_removed_total :: u64
  nm_gc_last_ms :: u64

definition no_metrics :: node_metrics where
  "no_metrics = \<lparr>nm_wal_backpressure_count = 0, nm_checkpoint_runs = 0, nm_checkpoint_total_ms = 0, nm_checkpoint_last_ms = 0,
     nm_gc_runs = 0, nm_gc_removed_total = 0, nm_gc_last_ms = 0\<rparr>"

definition checkpoint_with_metrics :: "env \<Rightarrow> page_store \<times> node_metrics \<Rightarrow> (page_store \<times> node_metrics) step" where
  "checkpoint_with_metrics en s =
    (let (ps, mt) = s in
     try_in s (ps_checkpoint (en_now en) (en_sync en) ps) (\<lambda>(ps', ok).
       if ok then Ok ((ps', mt\<lparr>nm_checkpoint_runs := nm_checkpoint_runs mt + 1,
           nm_checkpoint_total_ms := nm_checkpoint_total_ms mt + en_ms en, nm_checkpoint_last_ms := en_ms en\<rparr>), None)
       else Ok ((ps', mt), Some (Io OtherKind ''checkpoint sync failed''))))"

definition maybe_checkpoint_by_pressure :: "env \<Rightarrow> maintenance_config \<Rightarrow> page_store \<times> node_metrics \<Rightarrow> (page_store \<times> node_metrics) step" where
  "maybe_checkpoint_by_pressure en cfg s =
    (let st = ps_buffer_stats (fst s) in
     if bs_dirty_count st > cc_max_dirty_pages (mc_checkpoint cfg) \<or> bs_dirty_bytes st > cc_max_dirty_bytes (mc_checkpoint cfg)
     then checkpoint_with_metrics en s else Ok (s, None))"

definition maybe_checkpoint_with_config :: "env \<Rightarrow> checkpoint_config \<Rightarrow> page_store \<times> node_metrics \<Rightarrow> (page_store \<times> node_metrics) step" where
  "maybe_checkpoint_with_config en cfg s =
    (if should_checkpoint (en_now en) cfg (fst s) then checkpoint_with_metrics en s else Ok (s, None))"

section \<open>Applying records\<close>

definition is_txn_op :: "byte \<Rightarrow> bool" where
  "is_txn_op b \<longleftrightarrow> b = WAL_OP_TXN_PUT \<or> b = WAL_OP_TXN_DEL \<or> b = WAL_OP_TXN_COMMIT"

definition apply_wal_record :: "bytes \<Rightarrow> wal_record \<Rightarrow> bytes res" where
  "apply_wal_record page r =
    (if wr_op r = WAL_OP_PAGE_IMAGE then
       (if length (wr_value r) \<noteq> PAGE_SIZE then Err (InvalidPageSize (length (wr_value r)) PAGE_SIZE)
        else if length page \<noteq> length (wr_value r) then Panic else Ok (wr_value r))
     else if wr_op r = WAL_OP_PAGE_PUT then insert_record_at_slot_checked page (wr_slot_id r) (wr_key r) (wr_value r)
     else if wr_op r = WAL_OP_PAGE_DEL then clear_slot page (wr_slot_id r)
     else Ok page)"

record replay_state =
  rp_store :: page_store
  rp_last_applied :: u64
  rp_applied :: u64
  rp_wal_state :: "bytes option"
  rp_index :: "u64 set"

definition replay_new :: "page_store \<Rightarrow> u64 \<Rightarrow> bytes option \<Rightarrow> u64 set \<Rightarrow> replay_state" where
  "replay_new ps l ws ix = \<lparr>rp_store = ps, rp_last_applied = l, rp_applied = l, rp_wal_state = ws, rp_index = ix\<rparr>"

definition rp_write_page :: "nat \<Rightarrow> u64 \<Rightarrow> bytes \<Rightarrow> u64 \<Rightarrow> replay_state \<Rightarrow> replay_state step" where
  "rp_write_page now pid page l rp =
    try_in rp (ps_put now pid page l (rp_store rp)) (\<lambda>ps. Ok (rp\<lparr>rp_store := ps, rp_index := insert pid (rp_index rp)\<rparr>, None))"

definition update_last_applied :: "u64 \<Rightarrow> replay_state \<Rightarrow> replay_state" where
  "update_last_applied l rp =
    (let prev = rp_last_applied rp; rp1 = rp\<lparr>rp_last_applied := max prev l\<rparr> in
     if l > prev then rp1\<lparr>rp_applied := l, rp_wal_state := write_wal_state l\<rparr> else rp1)"

text \<open>Reading a page for redo: a missing page starts as zeros.\<close>

definition rp_read_page :: "nat \<Rightarrow> u64 \<Rightarrow> replay_state \<Rightarrow> (bytes \<times> replay_state) res" where
  "rp_read_page now pid rp =
    res_bind (ps_get now pid (rp_store rp)) (\<lambda>(p, ps).
      Ok (case p of Some page \<Rightarrow> page | None \<Rightarrow> replicate PAGE_SIZE 0, rp\<lparr>rp_store := ps\<rparr>))"

definition apply_record :: "nat \<Rightarrow> wal_record \<Rightarrow> replay_state \<Rightarrow> replay_state step" where
  "apply_record now r rp =
    res_bind (rp_read_page now (wr_page_id r) rp) (\<lambda>(page, rp1).
      try_in rp1 (apply_wal_record page r) (\<lambda>page'.
        and_then (rp_write_page now (wr_page_id r) page' (wr_lsn r) rp1) (\<lambda>rp2.
          Ok (update_last_applied (wr_lsn r) rp2, None))))"

fun apply_wal_records :: "bytes \<Rightarrow> u64 \<Rightarrow> wal_record list \<Rightarrow> (bytes \<times> u64) res" where
  "apply_wal_records page m [] = Ok (page, m)"
| "apply_wal_records page m (r # rs) =
    res_bind (apply_wal_record page r) (\<lambda>page'. apply_wal_records page' (if wr_lsn r > m then wr_lsn r else m) rs)"

definition replay_page_records :: "nat \<Rightarrow> u64 \<Rightarrow> wal_record list \<Rightarrow> replay_state \<Rightarrow> replay_state step" where
  "replay_page_records now pid rs rp =
    (if rs = [] then Ok (rp, None)
     else res_bind (rp_read_page now pid rp) (\<lambda>(page, rp1).
       try_in rp1 (apply_wal_records page 0 rs) (\<lambda>(page', max_lsn).
         and_then (rp_write_page now pid page' max_lsn rp1) (\<lambda>rp2. Ok (update_last_applied max_lsn rp2, None)))))"

section \<open>Live replay\<close>

record replay_buffer =
  rb_bytes :: nat
  rb_records :: "wal_record list"

definition rb_new :: replay_buffer where
  "rb_new = \<lparr>rb_bytes = 0, rb_records = []\<rparr>"

definition rb_push :: "wal_record \<Rightarrow> replay_buffer \<Rightarrow> replay_buffer" where
  "rb_push r b = \<lparr>rb_bytes = rb_bytes b + (length (wr_key r) + length (wr_value r) + 32), rb_records = rb_records b @ [r]\<rparr>"

definition rb_should_flush :: "replay_buffer \<Rightarrow> bool" where
  "rb_should_flush b \<longleftrightarrow> rb_bytes b \<ge> 8 * 1024"

definition rb_take :: "replay_buffer \<Rightarrow> wal_record list \<times> replay_buffer" where
  "rb_take b = (rb_records b, \<lparr>rb_bytes = 0, rb_records = []\<rparr>)"

record storage_node =
  sn_replay :: replay_state
  sn_buffers :: "(u64, replay_buffer) omap"
  sn_gc_counter :: nat
  sn_mvcc :: mvcc_store
  sn_requests :: "(u64, u64) omap"
  sn_active :: active_reads
  sn_durable :: u64
  sn_writer :: wal_writer
  sn_dir :: wal_dir
  sn_cfg :: maintenance_config
  sn_metrics :: node_metrics

text \<open>The loop over the records of one batch: records seen before are skipped, a gap ends the loop.\<close>

fun replay_records :: "nat \<Rightarrow> u64 \<Rightarrow> wal_record list \<Rightarrow> replay_state \<times> (u64, replay_buffer) omap
    \<Rightarrow> (replay_state \<times> (u64, replay_buffer) omap) res" where
  "replay_records now last_seen [] s = Ok s"
| "replay_records now last_seen (r # rs) s =
    (if wr_lsn r \<le> last_seen then replay_records now last_seen rs s
     else if wr_lsn r \<noteq> last_seen + 1 then Ok s
     else if is_txn_op (wr_op r) then replay_records now (wr_lsn r) rs s
     else let (rp, bufs) = s; pid = wr_page_id r;
              b = rb_push r (case om_lookup bufs pid of Some b \<Rightarrow> b | None \<Rightarrow> rb_new) in
       if rb_should_flush b then
         (let (records, b') = rb_take b in
          res_bind (ignore (replay_page_records now pid records rp)) (\<lambda>rp'.
            replay_records now (wr_lsn r) rs (rp', om_insert pid b' bufs)))
       else replay_records now (wr_lsn r) rs (rp, om_insert pid b bufs))"

definition note_request :: "wal_batch \<Rightarrow> (u64, u64) omap \<Rightarrow> (u64, u64) omap" where
  "note_request b ri = (if wb_request_id b \<noteq> 0 then om_insert (wb_request_id b) (wb_end_lsn b) ri else ri)"

text \<open>The garbage collection every \<open>mvcc_gc_every_wal_batches\<close> batches.\<close>

definition replay_gc :: "env \<Rightarrow> storage_node \<Rightarrow> storage_node" where
  "replay_gc en n =
    (if sn_gc_counter n + 1 \<ge> mc_mvcc_gc_every_wal_batches (sn_cfg n) then
       (let watermark = gc_watermark (sn_active n) (sn_durable n);
            (store, keys_touched, removed) = gc_mvcc_versions (sn_mvcc n) watermark; mt = sn_metrics n in
        n\<lparr>sn_gc_counter := 0, sn_mvcc := store,
          sn_metrics := mt\<lparr>nm_gc_runs := nm_gc_runs mt + 1, nm_gc_removed_total := nm_gc_removed_total mt + word_of_nat removed,
            nm_gc_last_ms := en_ms en\<rparr>\<rparr>)
     else n\<lparr>sn_gc_counter := sn_gc_counter n + 1\<rparr>)"

definition replay_maintenance :: "env \<Rightarrow> storage_node \<Rightarrow> storage_node res" where
  "replay_maintenance en n =
    res_bind (ignore (maybe_checkpoint_by_pressure en (sn_cfg n) (rp_store (sn_replay n), sn_metrics n))) (\<lambda>(ps, mt).
      let n1 = n\<lparr>sn_replay := (sn_replay n)\<lparr>rp_store := ps\<rparr>, sn_metrics := mt\<rparr>;
          n2 = (if mc_truncate_wal (sn_cfg n) then n1\<lparr>sn_dir := snd (truncate_wal_segments (sn_dir n1) (ps_checkpoint_lsn ps))\<rparr> else n1) in
      Ok (replay_gc en n2))"

definition replay_batch :: "env \<Rightarrow> wal_batch \<Rightarrow> storage_node \<Rightarrow> storage_node res" where
  "replay_batch en b n =
    (let n1 = n\<lparr>sn_requests := note_request b (sn_requests n), sn_mvcc := apply_txn_batch_to_mvcc (sn_mvcc n) b\<rparr> in
     res_bind (replay_records (en_now en) (rp_last_applied (sn_replay n1)) (wb_records b) (sn_replay n1, sn_buffers n1)) (\<lambda>(rp, bufs).
       replay_maintenance en (n1\<lparr>sn_replay := rp, sn_buffers := bufs\<rparr>)))"

text \<open>Closing the channel ends the loop: the buffers are drained, in the order \<open>order\<close> of the hash map.\<close>

fun drain_buffers :: "nat \<Rightarrow> u64 list \<Rightarrow> (u64, replay_buffer) omap \<Rightarrow> replay_state \<Rightarrow> replay_state res" where
  "drain_buffers now [] bufs rp = Ok rp"
| "drain_buffers now (pid # order) bufs rp =
    res_bind (ignore (replay_page_records now pid (case om_lookup bufs pid of Some b \<Rightarrow> rb_records b | None \<Rightarrow> []) rp))
      (drain_buffers now order bufs)"

fun wal_replay_loop :: "(nat \<Rightarrow> env) \<Rightarrow> u64 list \<Rightarrow> nat \<Rightarrow> wal_batch list \<Rightarrow> storage_node \<Rightarrow> storage_node res" where
  "wal_replay_loop ens order k [] n =
    res_bind (drain_buffers (en_now (ens k)) order (sn_buffers n) (sn_replay n)) (\<lambda>rp. Ok (n\<lparr>sn_replay := rp, sn_buffers := []\<rparr>))"
| "wal_replay_loop ens order k (b # bs) n = res_bind (replay_batch (ens k) b n) (wal_replay_loop ens order (Suc k) bs)"

section \<open>Recovery\<close>

record recovery =
  rv_replay :: replay_state
  rv_mvcc :: mvcc_store
  rv_requests :: "(u64, u64) omap"

fun recover_records :: "nat \<Rightarrow> wal_record list \<Rightarrow> replay_state \<Rightarrow> replay_state step" where
  "recover_records now [] rp = Ok (rp, None)"
| "recover_records now (r # rs) rp =
    (if wr_lsn r \<le> rp_last_applied rp then recover_records now rs rp
     else if is_txn_op (wr_op r) then recover_records now rs rp
     else and_then (apply_record now r rp) (recover_records now rs))"

definition recover_batch :: "nat \<Rightarrow> wal_batch \<Rightarrow> recovery \<Rightarrow> recovery step" where
  "recover_batch now b rv =
    (let rv1 = rv\<lparr>rv_requests := note_request b (rv_requests rv), rv_mvcc := apply_txn_batch_to_mvcc (rv_mvcc rv) b\<rparr> in
     res_bind (recover_records now (wb_records b) (rv_replay rv1)) (\<lambda>(rp, e). Ok (rv1\<lparr>rv_replay := rp\<rparr>, e)))"

fun recover_batches :: "nat \<Rightarrow> wal_batch list \<Rightarrow> recovery \<Rightarrow> recovery step" where
  "recover_batches now [] rv = Ok (rv, None)"
| "recover_batches now (b # bs) rv = and_then (recover_batch now b rv) (recover_batches now bs)"

text \<open>A segment is read batch by batch; an error of the reader ends recovery.\<close>

definition recover_segment :: "nat \<Rightarrow> wal_dir \<Rightarrow> u64 \<Rightarrow> recovery \<Rightarrow> recovery step" where
  "recover_segment now d i rv =
    try_in rv (open_segment d i) (\<lambda>bs.
      let (batches, e) = read_log read_wal_batch bs in
      and_then (recover_batches now batches rv) (\<lambda>rv'.
        case e of AtEof \<Rightarrow> Ok (rv', None) | AtError er \<Rightarrow> Ok (rv', Some er) | _ \<Rightarrow> Panic))"

fun recover_segments :: "nat \<Rightarrow> wal_dir \<Rightarrow> u64 list \<Rightarrow> recovery \<Rightarrow> recovery step" where
  "recover_segments now d [] rv = Ok (rv, None)"
| "recover_segments now d (i # is) rv = and_then (recover_segment now d i rv) (recover_segments now d is)"

definition replay_wal_segments_to_store :: "nat \<Rightarrow> wal_dir \<Rightarrow> recovery \<Rightarrow> recovery step" where
  "replay_wal_segments_to_store now d rv = recover_segments now d (list_wal_segments d) rv"

section \<open>The meaning of redo\<close>

definition image_record :: "wal_record \<Rightarrow> bool" where
  "image_record r \<longleftrightarrow> wr_op r = WAL_OP_PAGE_IMAGE \<and> length (wr_value r) = PAGE_SIZE \<and> page_ok (wr_page_id r)"

definition redo :: "wal_record list \<Rightarrow> (u64 \<Rightarrow> bytes option) \<Rightarrow> (u64 \<Rightarrow> bytes option)" where
  "redo rs v = fold (\<lambda>r v. v(wr_page_id r \<mapsto> wr_value r)) rs v"

text \<open>Records numbered one after the other, the first of them \<open>l + 1\<close>.\<close>

fun consecutive :: "u64 \<Rightarrow> wal_record list \<Rightarrow> bool" where
  "consecutive l [] = True"
| "consecutive l (r # rs) = (l \<noteq> - 1 \<and> wr_lsn r = l + 1 \<and> consecutive (l + 1) rs)"

section \<open>Steps\<close>

lemma and_then_simps [simp]:
  "and_then (Ok (s, None)) f = f s" "and_then (Ok (s, Some e)) f = Ok (s, Some e)" "and_then Panic f = Panic" "and_then (Err e) f = Err e"
  by (simp_all add: and_then_def)

lemma ignore_simps [simp]: "ignore (Ok (s, e)) = Ok s" "ignore Panic = Panic" "ignore (Err er) = Err er"
  by (simp_all add: ignore_def)

lemma try_in_simps [simp]: "try_in s (Ok x) f = f x" "try_in s (Err e) f = Ok (s, Some e)" "try_in s Panic f = Panic"
  by (simp_all add: try_in_def)

section \<open>Images\<close>

lemma redo_simps [simp]: "redo [] v = v" "redo (r # rs) v = redo rs (v(wr_page_id r \<mapsto> wr_value r))"
  by (simp_all add: redo_def)

lemma redo_append [simp]: "redo (rs @ rs') v = redo rs' (redo rs v)"
  by (simp add: redo_def)

definition same_disk :: "page_store \<Rightarrow> page_store \<Rightarrow> bool" where
  "same_disk ps ps' \<longleftrightarrow> ps_file ps' = ps_file ps \<and> ps_state_file ps' = ps_state_file ps \<and> ps_checkpoint_lsn ps' = ps_checkpoint_lsn ps"

abbreviation pool_len :: "page_store \<Rightarrow> nat" where
  "pool_len ps \<equiv> length (ps_pool ps)"

lemma length_om_insert: "length (om_insert k v m) \<le> Suc (length m)"
  by (induction k v m rule: om_insert.induct) auto

lemma ps_get_pool: "ps_get now pid ps = Ok (r, ps') \<Longrightarrow> pool_len ps' \<le> pool_len ps + 1"
  using length_om_insert [of pid _ "ps_pool ps"]
  by (auto simp: ps_get_def ps_get_with_lsn_def res_bind_Ok_iff split: option.splits result.splits)

lemma ps_put_pool: "ps_put now pid d l ps = Ok ps' \<Longrightarrow> pool_len ps' \<le> pool_len ps + 1"
  using length_om_insert [of pid _ "ps_pool ps"] by (auto simp: ps_put_def res_bind_Ok_iff)

lemma same_disk_refl [simp]: "same_disk ps ps"
  by (simp add: same_disk_def)

lemma same_disk_trans: "same_disk a b \<Longrightarrow> same_disk b c \<Longrightarrow> same_disk a c"
  by (simp add: same_disk_def)

lemma rp_read_ok:
  assumes "ps_wf (rp_store rp)" and "page_ok pid"
  shows "\<exists>page ps. rp_read_page now pid rp = Ok (page, rp\<lparr>rp_store := ps\<rparr>) \<and> length page = PAGE_SIZE \<and> ps_wf ps
    \<and> ps_view ps = ps_view (rp_store rp) \<and> same_disk (rp_store rp) ps \<and> pool_len ps \<le> pool_len (rp_store rp) + 1"
proof -
  obtain ps where ps: "ps_get now pid (rp_store rp) = Ok (ps_view (rp_store rp) pid, ps)" "ps_wf ps" "ps_view ps = ps_view (rp_store rp)"
      "same_disk (rp_store rp) ps"
    using ps_get_view [OF assms, of now] by (auto simp: same_disk_def)
  then show ?thesis
    using ps_view_length [OF assms(1), of pid] ps_get_pool [OF ps(1)] by (auto simp: rp_read_page_def split: option.splits)
qed

text \<open>Writing a page and noting its LSN, the common end of both appliers.\<close>

lemma write_and_note:
  assumes "ps_wf (rp_store rp)" and "page_ok pid" and "length page = PAGE_SIZE"
  shows "\<exists>ps. and_then (rp_write_page now pid page l rp) (\<lambda>rp2. Ok (update_last_applied l rp2, None))
      = Ok (update_last_applied l (rp\<lparr>rp_store := ps, rp_index := insert pid (rp_index rp)\<rparr>), None)
    \<and> ps_wf ps \<and> ps_view ps = (ps_view (rp_store rp))(pid \<mapsto> page) \<and> same_disk (rp_store rp) ps \<and> pool_len ps \<le> pool_len (rp_store rp) + 1"
  using ps_put_ok [OF assms, of now l] ps_put_pool [of now pid page l "rp_store rp"] by (auto simp: rp_write_page_def same_disk_def)

definition replay_wf :: "replay_state \<Rightarrow> bool" where
  "replay_wf rp \<longleftrightarrow> ps_wf (rp_store rp)"

text \<open>The effect of one applied image on the replay state.\<close>

definition image_applied :: "wal_record \<Rightarrow> replay_state \<Rightarrow> replay_state \<Rightarrow> bool" where
  "image_applied r rp rp' \<longleftrightarrow> replay_wf rp' \<and> ps_view (rp_store rp') = (ps_view (rp_store rp))(wr_page_id r \<mapsto> wr_value r)
     \<and> same_disk (rp_store rp) (rp_store rp') \<and> rp_last_applied rp' = max (rp_last_applied rp) (wr_lsn r)
     \<and> (wr_lsn r > rp_last_applied rp \<longrightarrow> rp_applied rp' = wr_lsn r \<and> rp_wal_state rp' = write_wal_state (wr_lsn r))
     \<and> rp_index rp' = insert (wr_page_id r) (rp_index rp) \<and> pool_len (rp_store rp') \<le> pool_len (rp_store rp) + 2"

lemma update_last_applied_image:
  assumes "ps_wf ps" and "ps_view ps = (ps_view (rp_store rp))(wr_page_id r \<mapsto> wr_value r)" and "same_disk (rp_store rp) ps"
    and "pool_len ps \<le> pool_len (rp_store rp) + 2"
  shows "image_applied r rp (update_last_applied (wr_lsn r) (rp\<lparr>rp_store := ps, rp_index := insert (wr_page_id r) (rp_index rp)\<rparr>))"
  using assms by (auto simp: image_applied_def update_last_applied_def Let_def replay_wf_def)

lemma apply_image:
  "image_record r \<Longrightarrow> length page = PAGE_SIZE \<Longrightarrow> apply_wal_record page r = Ok (wr_value r)"
  by (simp add: image_record_def apply_wal_record_def)

lemma apply_record_image:
  assumes wf: "replay_wf rp" and r: "image_record r"
  shows "\<exists>rp'. apply_record now r rp = Ok (rp', None) \<and> image_applied r rp rp'"
proof -
  have pid: "page_ok (wr_page_id r)" and len: "length (wr_value r) = PAGE_SIZE" using r by (auto simp: image_record_def)
  obtain page ps where rd: "rp_read_page now (wr_page_id r) rp = Ok (page, rp\<lparr>rp_store := ps\<rparr>)" "length page = PAGE_SIZE" "ps_wf ps"
      "ps_view ps = ps_view (rp_store rp)" "same_disk (rp_store rp) ps" "pool_len ps \<le> pool_len (rp_store rp) + 1"
    using rp_read_ok [OF wf [unfolded replay_wf_def] pid, of now] by blast
  obtain ps2 where w: "and_then (rp_write_page now (wr_page_id r) (wr_value r) (wr_lsn r) (rp\<lparr>rp_store := ps\<rparr>))
        (\<lambda>rp2. Ok (update_last_applied (wr_lsn r) rp2, None))
      = Ok (update_last_applied (wr_lsn r) (rp\<lparr>rp_store := ps2, rp_index := insert (wr_page_id r) (rp_index rp)\<rparr>), None)"
      "ps_wf ps2" "ps_view ps2 = (ps_view ps)(wr_page_id r \<mapsto> wr_value r)" "same_disk ps ps2" "pool_len ps2 \<le> pool_len ps + 1"
    using write_and_note [of "rp\<lparr>rp_store := ps\<rparr>" "wr_page_id r" "wr_value r" now "wr_lsn r"] rd pid len by auto
  then show ?thesis
    using rd apply_image [OF r rd(2)] update_last_applied_image [of ps2 rp r] same_disk_trans [OF rd(5) w(4)]
    by (auto simp: apply_record_def)
qed

lemma replay_page_image:
  assumes wf: "replay_wf rp" and r: "image_record r"
  shows "\<exists>rp'. replay_page_records now (wr_page_id r) [r] rp = Ok (rp', None) \<and> image_applied r rp rp'"
proof -
  have "(if 0 < wr_lsn r then wr_lsn r else 0) = wr_lsn r" by (simp add: word_gt_0)
  then have "apply_wal_records page 0 [r] = res_map (\<lambda>p. (p, wr_lsn r)) (apply_wal_record page r)" for page
    by (cases "apply_wal_record page r") auto
  then have "replay_page_records now (wr_page_id r) [r] rp = apply_record now r rp"
    by (auto simp: replay_page_records_def apply_record_def res_map_def try_in_def split: result.splits
      intro!: arg_cong2 [where f = res_bind] ext)
  then show ?thesis using apply_record_image [OF wf r] by simp
qed

text \<open>The effect of a run of images.\<close>

definition last_lsn :: "u64 \<Rightarrow> wal_record list \<Rightarrow> u64" where
  "last_lsn l rs = (if rs = [] then l else wr_lsn (last rs))"

definition images_applied :: "wal_record list \<Rightarrow> replay_state \<Rightarrow> replay_state \<Rightarrow> bool" where
  "images_applied rs rp rp' \<longleftrightarrow> replay_wf rp' \<and> ps_view (rp_store rp') = redo rs (ps_view (rp_store rp))
     \<and> same_disk (rp_store rp) (rp_store rp') \<and> pool_len (rp_store rp') \<le> pool_len (rp_store rp) + 2 * length rs
     \<and> rp_last_applied rp' = last_lsn (rp_last_applied rp) rs
     \<and> (if rs = [] then rp' = rp else rp_applied rp' = last_lsn 0 rs \<and> rp_wal_state rp' = write_wal_state (last_lsn 0 rs))"

lemma images_applied_Nil: "replay_wf rp \<Longrightarrow> images_applied [] rp rp"
  by (simp add: images_applied_def last_lsn_def)

lemma images_applied_Cons:
  assumes "image_applied r rp rp1" and "wr_lsn r > rp_last_applied rp" and "images_applied rs rp1 rp2"
  shows "images_applied (r # rs) rp rp2"
  using assms same_disk_trans [of "rp_store rp" "rp_store rp1" "rp_store rp2"]
  by (auto simp: images_applied_def image_applied_def last_lsn_def split: if_splits)

lemma consecutive_last: "consecutive l rs \<Longrightarrow> l \<le> last_lsn l rs \<and> unat (last_lsn l rs) = unat l + length rs"
proof (induction rs arbitrary: l)
  case (Cons r rs)
  then have "unat (l + 1) = unat l + 1" by (simp add: unat_plus_one)
  then show ?case using Cons by (auto simp: last_lsn_def word_le_nat_alt split: if_splits)
qed (simp add: last_lsn_def)

section \<open>Live replay\<close>

definition buffers_idle :: "(u64, replay_buffer) omap \<Rightarrow> bool" where
  "buffers_idle bufs \<longleftrightarrow> (\<forall>pid b. om_lookup bufs pid = Some b \<longrightarrow> b = rb_new)"

lemma image_not_txn: "image_record r \<Longrightarrow> \<not> is_txn_op (wr_op r)"
  by (simp add: image_record_def is_txn_op_def)

lemma push_image_flushes:
  "image_record r \<Longrightarrow> rb_should_flush (rb_push r b) \<and> rb_take (rb_push r rb_new) = ([r], rb_new)"
  by (simp add: image_record_def rb_should_flush_def rb_push_def rb_take_def rb_new_def)

lemma replay_records_images:
  assumes "replay_wf rp" and "buffers_idle bufs" and "list_all image_record rs" and "consecutive (rp_last_applied rp) rs"
  shows "\<exists>rp' bufs'. replay_records now (rp_last_applied rp) rs (rp, bufs) = Ok (rp', bufs') \<and> images_applied rs rp rp' \<and> buffers_idle bufs'"
  using assms
proof (induction rs arbitrary: rp bufs)
  case Nil
  then show ?case by (simp add: images_applied_Nil)
next
  case (Cons r rs)
  have r: "image_record r" "wr_lsn r = rp_last_applied rp + 1" "rp_last_applied rp \<noteq> - 1" using Cons.prems by auto
  have lt: "rp_last_applied rp < wr_lsn r" using r unat_plus_one [OF r(3)] by (simp add: word_less_nat_alt)
  have nle: "\<not> rp_last_applied rp + 1 \<le> rp_last_applied rp" using lt by (simp add: r(2) not_le)
  obtain rp1 where rp1: "replay_page_records now (wr_page_id r) [r] rp = Ok (rp1, None)" "image_applied r rp rp1"
    using replay_page_image [OF Cons.prems(1) r(1)] by blast
  have last1: "rp_last_applied rp1 = wr_lsn r" using rp1(2) lt by (simp add: image_applied_def max_absorb2 less_imp_le)
  let ?b = "case om_lookup bufs (wr_page_id r) of Some b \<Rightarrow> b | None \<Rightarrow> rb_new"
  have b: "?b = rb_new" using Cons.prems(2) by (auto simp: buffers_idle_def split: option.splits)
  let ?bufs = "om_insert (wr_page_id r) rb_new bufs"
  have "replay_records now (rp_last_applied rp) (r # rs) (rp, bufs) = replay_records now (rp_last_applied rp1) rs (rp1, ?bufs)"
    using nle r(2) image_not_txn [OF r(1)] push_image_flushes [OF r(1), of rb_new] rp1(1) by (simp add: b last1)
  moreover have "buffers_idle ?bufs" using Cons.prems(2) by (auto simp: buffers_idle_def om_lookup_insert)
  moreover have "replay_wf rp1" using rp1(2) by (simp add: image_applied_def)
  ultimately obtain rp' bufs' where "replay_records now (rp_last_applied rp) (r # rs) (rp, bufs) = Ok (rp', bufs')"
      "images_applied rs rp1 rp'" "buffers_idle bufs'"
    using Cons.IH [of rp1 ?bufs] Cons.prems last1 r by auto
  then show ?case using images_applied_Cons [OF rp1(2) lt] by blast
qed

lemma replay_records_txn:
  assumes "list_all (\<lambda>r. is_txn_op (wr_op r)) rs" and "consecutive l rs"
  shows "replay_records now l rs s = Ok s"
  using assms
proof (induction rs arbitrary: l)
  case (Cons r rs)
  then have "\<not> wr_lsn r \<le> l" using unat_plus_one [of l] by (simp add: word_le_nat_alt)
  then show ?case using Cons by simp
qed simp

section \<open>Maintenance\<close>

lemma checkpoint_with_metrics_ok:
  assumes "ps_wf ps" and "en_sync en"
  shows "\<exists>ps' mt'. checkpoint_with_metrics en (ps, mt) = Ok ((ps', mt'), None) \<and> ps_wf ps' \<and> ps_view ps' = ps_view ps
    \<and> all_clean ps' \<and> ps_checkpoint_lsn ps' = max (ps_checkpoint_lsn ps) (cp_max_lsn (cp_collect ps))"
  using ps_checkpoint_ok [OF assms(1), of "en_now en"] assms(2) by (auto simp: checkpoint_with_metrics_def)

lemma maintenance_ok:
  assumes "replay_wf (sn_replay n)" and "en_sync en"
  shows "\<exists>n'. replay_maintenance en n = Ok n' \<and> replay_wf (sn_replay n') \<and> ps_view (rp_store (sn_replay n')) = ps_view (rp_store (sn_replay n))
    \<and> (\<exists>ps. sn_replay n' = (sn_replay n)\<lparr>rp_store := ps\<rparr>) \<and> sn_buffers n' = sn_buffers n \<and> sn_requests n' = sn_requests n
    \<and> sn_durable n' = sn_durable n \<and> sn_writer n' = sn_writer n \<and> sn_active n' = sn_active n \<and> sn_cfg n' = sn_cfg n"
proof -
  have wf: "ps_wf (rp_store (sn_replay n))" using assms(1) by (simp add: replay_wf_def)
  have "\<exists>ps mt. maybe_checkpoint_by_pressure en (sn_cfg n) (rp_store (sn_replay n), sn_metrics n) = Ok ((ps, mt), None)
      \<and> ps_wf ps \<and> ps_view ps = ps_view (rp_store (sn_replay n))"
    using checkpoint_with_metrics_ok [OF wf assms(2), of "sn_metrics n"] wf
    unfolding maybe_checkpoint_by_pressure_def Let_def fst_conv by (auto split: if_split)
  then obtain ps mt where p: "maybe_checkpoint_by_pressure en (sn_cfg n) (rp_store (sn_replay n), sn_metrics n) = Ok ((ps, mt), None)"
      "ps_wf ps" "ps_view ps = ps_view (rp_store (sn_replay n))"
    by blast
  then show ?thesis
    by (auto simp: replay_maintenance_def Let_def replay_gc_def replay_wf_def split: prod.splits)
qed

section \<open>Recovery\<close>

definition ascending :: "wal_record list \<Rightarrow> bool" where
  "ascending rs \<longleftrightarrow> sorted_wrt (\<lambda>a b. wr_lsn a < wr_lsn b) rs"

definition redoable :: "wal_record \<Rightarrow> bool" where
  "redoable r \<longleftrightarrow> image_record r \<or> is_txn_op (wr_op r)"

text \<open>The records that recovery applies when it starts from LSN \<open>l\<close>.\<close>

definition to_apply :: "u64 \<Rightarrow> wal_record list \<Rightarrow> wal_record list" where
  "to_apply l rs = filter (\<lambda>r. wr_lsn r > l \<and> \<not> is_txn_op (wr_op r)) rs"

lemma to_apply_above: "\<forall>r \<in> set rs. wr_lsn r > l' \<Longrightarrow> l \<le> l' \<Longrightarrow> to_apply l rs = to_apply l' rs"
  by (force simp: to_apply_def intro!: filter_cong)

lemma recover_records_images:
  assumes "replay_wf rp" and "list_all redoable rs" and "ascending rs"
  shows "\<exists>rp'. recover_records now rs rp = Ok (rp', None) \<and> images_applied (to_apply (rp_last_applied rp) rs) rp rp'"
  using assms
proof (induction rs arbitrary: rp)
  case Nil
  then show ?case by (simp add: images_applied_Nil to_apply_def)
next
  case (Cons r rs)
  have asc: "ascending rs" "\<forall>q \<in> set rs. wr_lsn q > wr_lsn r" using Cons.prems(3) by (auto simp: ascending_def)
  show ?case
  proof (cases "wr_lsn r \<le> rp_last_applied rp \<or> is_txn_op (wr_op r)")
    case True
    then have "recover_records now (r # rs) rp = recover_records now rs rp" "to_apply (rp_last_applied rp) (r # rs) = to_apply (rp_last_applied rp) rs"
      by (auto simp: to_apply_def)
    then show ?thesis using Cons.IH [OF Cons.prems(1) _ asc(1)] Cons.prems(2) by simp
  next
    case False
    then have r: "image_record r" and lt: "rp_last_applied rp < wr_lsn r" using Cons.prems(2) by (auto simp: redoable_def not_le)
    obtain rp1 where rp1: "apply_record now r rp = Ok (rp1, None)" "image_applied r rp rp1"
      using apply_record_image [OF Cons.prems(1) r] by blast
    have last1: "rp_last_applied rp1 = wr_lsn r" and wf1: "replay_wf rp1"
      using rp1(2) lt by (simp_all add: image_applied_def max_absorb2 less_imp_le)
    have "to_apply (rp_last_applied rp) (r # rs) = r # to_apply (wr_lsn r) rs"
      using False to_apply_above [OF asc(2), of "rp_last_applied rp"] lt by (simp add: to_apply_def not_le less_imp_le)
    moreover obtain rp' where "recover_records now rs rp1 = Ok (rp', None)" "images_applied (to_apply (wr_lsn r) rs) rp1 rp'"
      using Cons.IH [OF wf1 _ asc(1)] Cons.prems(2) last1 by auto
    ultimately show ?thesis using False rp1 images_applied_Cons [OF rp1(2) lt] by auto
  qed
qed

lemma and_then_assoc: "and_then (and_then m f) g = and_then m (\<lambda>s. and_then (f s) g)"
  by (cases m) (auto simp: and_then_def split: option.splits)

lemma recover_records_append:
  "recover_records now (rs @ rs') rp = and_then (recover_records now rs rp) (recover_records now rs')"
proof (induction rs arbitrary: rp)
  case (Cons r rs)
  have "recover_records now (rs @ rs') = (\<lambda>s. and_then (recover_records now rs s) (recover_records now rs'))"
    by (rule ext) (rule Cons.IH)
  then show ?case using Cons by (simp add: and_then_assoc)
qed simp

lemma recover_batches_flat:
  assumes "recover_records now (concat (map wb_records bs)) (rv_replay rv) = Ok (rp', None)"
  shows "\<exists>rv'. recover_batches now bs rv = Ok (rv', None) \<and> rv_replay rv' = rp'
    \<and> rv_mvcc rv' = fold (\<lambda>b m. apply_txn_batch_to_mvcc m b) bs (rv_mvcc rv)
    \<and> rv_requests rv' = fold note_request bs (rv_requests rv)"
  using assms
proof (induction bs arbitrary: rv)
  case (Cons b bs)
  obtain rp1 where rp1: "recover_records now (wb_records b) (rv_replay rv) = Ok (rp1, None)"
      "recover_records now (concat (map wb_records bs)) rp1 = Ok (rp', None)"
    using Cons.prems by (auto simp: recover_records_append and_then_def res_bind_Ok_iff split: option.splits prod.splits)
  let ?rv = "rv\<lparr>rv_requests := note_request b (rv_requests rv), rv_mvcc := apply_txn_batch_to_mvcc (rv_mvcc rv) b, rv_replay := rp1\<rparr>"
  have "recover_batch now b rv = Ok (?rv, None)" using rp1(1) by (simp add: recover_batch_def)
  then show ?case using Cons.IH [of ?rv] rp1(2) by simp
qed simp

lemma recover_batches_append:
  "recover_batches now (bs @ bs') rv = and_then (recover_batches now bs rv) (recover_batches now bs')"
proof (induction bs arbitrary: rv)
  case (Cons b bs)
  have "recover_batches now (bs @ bs') = (\<lambda>s. and_then (recover_batches now bs s) (recover_batches now bs'))"
    by (rule ext) (rule Cons.IH)
  then show ?case by (simp add: and_then_assoc)
qed simp

lemma and_then_return: "and_then m (\<lambda>s. Ok (s, None)) = m"
  by (cases m) (auto simp: and_then_def split: option.splits prod.splits)

lemma recover_dir:
  assumes "dir_clean d"
  shows "replay_wal_segments_to_store now d rv = recover_batches now (dir_log d) rv"
proof -
  have wf: "om_wf d" using assms by (simp add: dir_clean_def)
  have seg: "recover_segment now d i rv = recover_batches now (fst (read_log read_wal_batch bs)) rv" if "(i, bs) \<in> set d" for i bs rv
  proof -
    have "segment_clean bs" using assms that by (auto simp: dir_clean_def list_all_iff)
    then have "snd (read_log read_wal_batch bs) = AtEof"
      using wal.read_log_encoded by (fastforce simp: segment_clean_def list_all_iff)
    moreover have "open_segment d i = Ok bs" using that om_lookup_iff [OF wf, of i bs] by (simp add: open_segment_def)
    ultimately show ?thesis by (simp add: recover_segment_def split_beta and_then_return)
  qed
  have "set d' \<subseteq> set d \<Longrightarrow> recover_segments now d (map fst d') rv = recover_batches now (dir_log d') rv" for d' rv
  proof (induction d' arbitrary: rv)
    case (Cons x d')
    obtain i bs where x: "x = (i, bs)" by (cases x)
    have "recover_segments now d (map fst d') = recover_batches now (dir_log d')"
      using Cons by (intro ext) simp
    then show ?case using Cons.prems x seg [of i bs] by (simp add: recover_batches_append)
  qed simp
  then show ?thesis using list_wal_segments_keys [OF wf] by (simp add: replay_wal_segments_to_store_def)
qed

end
