(* ===== verification/Storage_Node.thy ===== *)
theory Storage_Node
  imports Wal_Replay
begin

text \<open>
  The storage node (\<open>node.rs\<close>): opening a data directory, admission of WAL batches, the synchronous
  append of a transaction batch, snapshot reads through handles, and the plain page operations.

  A call that hands a batch to the writer task and waits for the replay task is given as the sequence of
  the steps these tasks take for it: the writer's round on the request, the replay of the forwarded batch,
  then the wait. The wait ends when the applied LSN has reached the target; otherwise the outcome is
  \<open>Waiting\<close>. A crash keeps the files and loses everything else.

  The lemmas show that an accepted batch is durable, applied and visible, that retries are idempotent, that
  the LSNs of accepted batches have no gaps, that open snapshots are stable, when recovery restores the
  pages, and that the \<open>wal_state\<close> file makes it skip pages that were never written.
\<close>

section \<open>Opening\<close>

record disk =
  dk_pages :: bytes
  dk_checkpoint_state :: "bytes option"
  dk_wal_state :: "bytes option"
  dk_dir :: wal_dir

definition recovered_mark :: "u64 \<Rightarrow> bytes option \<Rightarrow> u64" where
  "recovered_mark dflt f = (case read_wal_state f of Ok l \<Rightarrow> l | _ \<Rightarrow> dflt)"

definition node_open :: "env \<Rightarrow> maintenance_config \<Rightarrow> disk \<Rightarrow> storage_node res" where
  "node_open en cfg dk =
    res_bind (validate_config cfg) (\<lambda>_.
      let ps = ps_open (dk_pages dk) (dk_checkpoint_state dk) (en_now en);
          last_applied = max (recovered_mark 0 (dk_wal_state dk)) (ps_checkpoint_lsn ps) in
      res_bind (replay_wal_segments_to_store (en_now en) (dk_dir dk)
          \<lparr>rv_replay = replay_new ps last_applied (dk_wal_state dk) {}, rv_mvcc = [], rv_requests = []\<rparr>) (\<lambda>(rv, e).
        case e of Some er \<Rightarrow> Err er
        | None \<Rightarrow>
            let ws = rp_wal_state (rv_replay rv); recovered = max (recovered_mark last_applied ws) last_applied in
            res_bind (build_page_index (en_now en) (rp_store (rv_replay rv))) (\<lambda>(ix, ps').
            res_bind (writer_open (dk_dir dk)) (\<lambda>(w, d).
              Ok \<lparr>sn_replay = replay_new ps' recovered ws ix, sn_buffers = [], sn_gc_counter = 0, sn_mvcc = rv_mvcc rv,
                  sn_requests = rv_requests rv, sn_active = active_reads_new, sn_durable = sat_add recovered 1,
                  sn_writer = w, sn_dir = d, sn_cfg = cfg, sn_metrics = no_metrics\<rparr>))))"

definition node_crash :: "storage_node \<Rightarrow> disk" where
  "node_crash n = (let ps = rp_store (sn_replay n) in
     \<lparr>dk_pages = ps_file ps, dk_checkpoint_state = ps_state_file ps, dk_wal_state = rp_wal_state (sn_replay n), dk_dir = sn_dir n\<rparr>)"

section \<open>Admission\<close>

fun check_lsns :: "u64 \<Rightarrow> nat \<Rightarrow> wal_record list \<Rightarrow> unit res" where
  "check_lsns start i [] = Ok ()"
| "check_lsns start i (r # rs) =
    res_bind (chk_add start (word_of_nat i)) (\<lambda>want.
      if wr_lsn r \<noteq> want
      then invalid_input (''wal record lsn mismatch: got='' @ show_nat (unat (wr_lsn r)) @ '' want='' @ show_nat (unat want))
      else check_lsns start (Suc i) rs)"

definition validate_incoming_wal_batch :: "u64 \<Rightarrow> wal_batch \<Rightarrow> unit res" where
  "validate_incoming_wal_batch durable b =
    (if wb_start_lsn b \<noteq> durable
     then invalid_input (''wal batch out of order: start_lsn='' @ show_nat (unat (wb_start_lsn b)) @ '' expected_start='' @ show_nat (unat durable))
     else if wb_end_lsn b < wb_start_lsn b then invalid_input ''wal batch invalid range''
     else let expected_len = unat (sat_sub (wb_end_lsn b) (wb_start_lsn b)) in
       if expected_len \<noteq> length (wb_records b)
       then invalid_input (''wal batch length mismatch: records='' @ show_nat (length (wb_records b)) @ '' range_len='' @ show_nat expected_len)
       else check_lsns (wb_start_lsn b) 0 (wb_records b))"

definition node_truncate_wal :: "storage_node \<Rightarrow> nat \<times> storage_node" where
  "node_truncate_wal n = (let (deleted, d) = truncate_wal_segments (sn_dir n) (ps_checkpoint_lsn (rp_store (sn_replay n))) in
     (deleted, n\<lparr>sn_dir := d\<rparr>))"

definition node_checkpoint :: "env \<Rightarrow> storage_node \<Rightarrow> storage_node step" where
  "node_checkpoint en n =
    res_bind (checkpoint_with_metrics en (rp_store (sn_replay n), sn_metrics n)) (\<lambda>((ps, mt), e).
      Ok (n\<lparr>sn_replay := (sn_replay n)\<lparr>rp_store := ps\<rparr>, sn_metrics := mt\<rparr>, e))"

definition checkpoint_and_truncate :: "env \<Rightarrow> storage_node \<Rightarrow> storage_node step" where
  "checkpoint_and_truncate en n = and_then (node_checkpoint en n) (\<lambda>n1. Ok (snd (node_truncate_wal n1), None))"

text \<open>The usage is checked again under the lock before a checkpoint is forced; no other step comes between
  the two checks here.\<close>

definition enforce_wal_limits :: "env \<Rightarrow> u64 \<Rightarrow> storage_node \<Rightarrow> storage_node step" where
  "enforce_wal_limits en incoming n =
    try_in n (wal_usage_exceeds_limits (sn_dir n) (sn_cfg n) incoming) (\<lambda>over.
      case over of None \<Rightarrow> Ok (n, None)
      | Some _ \<Rightarrow>
          and_then (node_checkpoint en n) (\<lambda>n1.
            let n2 = (if mc_truncate_wal (sn_cfg n) then snd (node_truncate_wal n1) else n1) in
            try_in n2 (wal_usage_exceeds_limits (sn_dir n2) (sn_cfg n) incoming) (\<lambda>over2.
              case over2 of None \<Rightarrow> Ok (n2, None)
              | Some (segments, used) \<Rightarrow>
                  Ok (n2\<lparr>sn_metrics := (sn_metrics n2)\<lparr>nm_wal_backpressure_count := nm_wal_backpressure_count (sn_metrics n2) + 1\<rparr>\<rparr>,
                      Some (Io WouldBlock (''wal backpressure: segments='' @ show_nat segments @ '' bytes='' @ show_nat (unat used)
                        @ '' limits=(segments:'' @ show_nat (mc_max_wal_segments (sn_cfg n)) @ '' bytes:''
                        @ show_nat (unat (mc_max_wal_bytes (sn_cfg n))) @ '')''))))))"

section \<open>Appending\<close>

datatype append_outcome = Committed u64 | Refused error | Waiting

fun replay_all :: "env \<Rightarrow> wal_batch list \<Rightarrow> storage_node \<Rightarrow> storage_node res" where
  "replay_all en [] n = Ok n"
| "replay_all en (b # bs) n = res_bind (replay_batch en b n) (replay_all en bs)"

text \<open>The writer's round on one request of this node and the replay of what it forwards.\<close>

definition write_and_replay :: "env \<Rightarrow> bool \<Rightarrow> wal_batch \<Rightarrow> storage_node \<Rightarrow> (storage_node \<times> u64 res option) res" where
  "write_and_replay en ack b n =
    res_bind (writer_round (en_wal_sync en) [\<lparr>wq_batch = b, wq_ack = ack\<rparr>] (sn_writer n, sn_dir n) (sn_durable n)) (\<lambda>r.
      let n1 = n\<lparr>sn_writer := fst (rr_writer r), sn_dir := snd (rr_writer r), sn_durable := rr_durable r\<rparr> in
      res_bind (replay_all en (rr_forwarded r) n1) (\<lambda>n2. Ok (n2, hd (rr_acks r))))"

text \<open>The target of the wait is \<open>end_lsn - 1\<close>, saturating.\<close>

definition append_wal_batch_sync :: "env \<Rightarrow> wal_batch \<Rightarrow> storage_node \<Rightarrow> (storage_node \<times> append_outcome) res" where
  "append_wal_batch_sync en b n =
    (case validate_incoming_wal_batch (sn_durable n) b of
       Err e \<Rightarrow> Ok (n, Refused e) | Panic \<Rightarrow> Panic
     | Ok _ \<Rightarrow>
         res_bind (wal_batch_encoded_len b) (\<lambda>len.
         res_bind (enforce_wal_limits en len n) (\<lambda>(n1, e).
           case e of Some er \<Rightarrow> Ok (n1, Refused er)
           | None \<Rightarrow>
               res_bind (write_and_replay en True b n1) (\<lambda>(n2, ack).
                 case ack of
                   Some (Ok durable) \<Rightarrow>
                     Ok (n2, if rp_applied (sn_replay n2) < sat_sub (wb_end_lsn b) 1 then Waiting else Committed durable)
                 | Some (Err er) \<Rightarrow> Ok (n2, Refused er)
                 | _ \<Rightarrow> Ok (n2, Refused (Io BrokenPipe ''wal ack dropped''))))))"

text \<open>\<open>append_wal_batch\<close> sends without waiting.\<close>

definition append_wal_batch :: "env \<Rightarrow> wal_batch \<Rightarrow> storage_node \<Rightarrow> storage_node step" where
  "append_wal_batch en b n =
    try_in n (validate_incoming_wal_batch (sn_durable n) b) (\<lambda>_.
      res_bind (wal_batch_encoded_len b) (\<lambda>len.
      and_then (enforce_wal_limits en len n) (\<lambda>n1. res_bind (write_and_replay en False b n1) (\<lambda>(n2, _). Ok (n2, None)))))"

fun image_records :: "u64 \<Rightarrow> nat \<Rightarrow> (u64 \<times> bytes) list \<Rightarrow> wal_record list res" where
  "image_records start i [] = Ok []"
| "image_records start i ((pid, page) # ws) =
    (if length page \<noteq> PAGE_SIZE then Err (InvalidPageSize (length page) PAGE_SIZE)
     else res_bind (chk_add start (word_of_nat i)) (\<lambda>l.
       res_map (\<lambda>rs. \<lparr>wr_lsn = l, wr_op = WAL_OP_PAGE_IMAGE, wr_page_id = pid, wr_slot_id = 0, wr_key = [], wr_value = page\<rparr> # rs)
         (image_records start (Suc i) ws)))"

definition append_txn_batch_with_lsn_sync ::
    "env \<Rightarrow> u64 \<Rightarrow> u64 \<Rightarrow> u64 \<Rightarrow> (u64 \<times> bytes) list \<Rightarrow> storage_node \<Rightarrow> (storage_node \<times> append_outcome) res" where
  "append_txn_batch_with_lsn_sync en request_id start_lsn end_lsn writes n =
    (case (if request_id \<noteq> 0 then om_lookup (sn_requests n) request_id else None) of
       Some l \<Rightarrow> Ok (n, Committed l)
     | None \<Rightarrow>
         if writes = [] then Ok (n, Refused (Io InvalidInputKind ''txn batch must be non-empty''))
         else res_bind (chk_add start_lsn (word_of_nat (length writes))) (\<lambda>expected_end.
           if end_lsn \<noteq> expected_end
           then Ok (n, Refused (Io InvalidInputKind (''txn batch end_lsn mismatch: got='' @ show_nat (unat end_lsn)
              @ '' expected='' @ show_nat (unat expected_end))))
           else case image_records start_lsn 0 writes of
             Err e \<Rightarrow> Ok (n, Refused e) | Panic \<Rightarrow> Panic
           | Ok rs \<Rightarrow>
               res_bind (append_wal_batch_sync en \<lparr>wb_request_id = request_id, wb_start_lsn = start_lsn, wb_end_lsn = end_lsn, wb_records = rs\<rparr> n)
                 (\<lambda>(n1, out).
                   case out of
                     Committed l \<Rightarrow>
                       Ok (if request_id \<noteq> 0 then n1\<lparr>sn_requests := om_insert request_id l (sn_requests n1)\<rparr> else n1, Committed l)
                   | _ \<Rightarrow> Ok (n1, out))))"

section \<open>Reads and page operations\<close>

record mvcc_read_handle =
  mh_read_lsn :: u64
  mh_started_at :: nat
  mh_timeout :: "nat option"
  mh_guard :: "u64 option"

definition begin_mvcc_ro_with_timeout :: "nat \<Rightarrow> nat option \<Rightarrow> storage_node \<Rightarrow> mvcc_read_handle \<times> storage_node" where
  "begin_mvcc_ro_with_timeout now timeout n =
    (let (i, ar) = register (sn_durable n) (sn_active n) in
     (\<lparr>mh_read_lsn = sn_durable n, mh_started_at = now, mh_timeout = timeout, mh_guard = Some i\<rparr>, n\<lparr>sn_active := ar\<rparr>))"

definition mh_is_active :: "storage_node \<Rightarrow> mvcc_read_handle \<Rightarrow> bool" where
  "mh_is_active n h = (case mh_guard h of Some i \<Rightarrow> ar_contains (sn_active n) i | None \<Rightarrow> False)"

definition mh_is_timed_out :: "nat \<Rightarrow> mvcc_read_handle \<Rightarrow> bool" where
  "mh_is_timed_out now h = (case mh_timeout h of Some t \<Rightarrow> now - mh_started_at h > t | None \<Rightarrow> False)"

text \<open>Closing drops the guard, which unregisters the snapshot.\<close>

definition mh_close :: "mvcc_read_handle \<times> storage_node \<Rightarrow> mvcc_read_handle \<times> storage_node" where
  "mh_close hn = (let (h, n) = hn in
     (h\<lparr>mh_guard := None\<rparr>, case mh_guard h of Some i \<Rightarrow> n\<lparr>sn_active := unregister i (sn_active n)\<rparr> | None \<Rightarrow> n))"

definition node_mvcc_get :: "nat \<Rightarrow> mvcc_read_handle \<times> storage_node \<Rightarrow> bytes \<Rightarrow> (mvcc_read_handle \<times> storage_node) \<times> bytes option res" where
  "node_mvcc_get now hn k =
    (if mh_is_timed_out now (fst hn) then (mh_close hn, Err TxnTimeout)
     else if \<not> mh_is_active (snd hn) (fst hn) then (hn, Err (Io Interrupted ''mvcc read handle aborted or closed''))
     else (hn, Ok (case mvcc_get_at (sn_mvcc (snd hn)) k (mh_read_lsn (fst hn)) of Some v \<Rightarrow> v | None \<Rightarrow> None)))"

definition abort_active_read :: "u64 \<Rightarrow> storage_node \<Rightarrow> bool \<times> storage_node" where
  "abort_active_read i n = (let (b, ar) = ar_abort i (sn_active n) in (b, n\<lparr>sn_active := ar\<rparr>))"

definition list_active_reads :: "storage_node \<Rightarrow> u64 list" where
  "list_active_reads n = ar_list (sn_active n)"

definition txn_get :: "storage_node \<Rightarrow> bytes \<Rightarrow> u64 \<Rightarrow> bytes option option" where
  "txn_get n k l = mvcc_get_at (sn_mvcc n) k l"

definition set_store :: "storage_node \<Rightarrow> page_store \<Rightarrow> storage_node" where
  "set_store n ps = n\<lparr>sn_replay := (sn_replay n)\<lparr>rp_store := ps\<rparr>\<rparr>"

definition get_page_latest :: "nat \<Rightarrow> u64 \<Rightarrow> storage_node \<Rightarrow> ((bytes \<times> u64) option \<times> storage_node) res" where
  "get_page_latest now pid n =
    res_map (\<lambda>(r, ps). (r, set_store n ps)) (ps_get_with_lsn now pid (rp_store (sn_replay n)))"

definition scan_pages_latest :: "nat \<Rightarrow> u64 \<Rightarrow> nat \<Rightarrow> storage_node \<Rightarrow> ((u64 \<times> u64 \<times> bytes) list \<times> storage_node) res" where
  "scan_pages_latest now start limit n =
    res_map (\<lambda>(r, ps). (r, set_store n ps)) (scan_pages_with_lsn now start limit (rp_store (sn_replay n)))"

definition node_put :: "nat \<Rightarrow> u64 \<Rightarrow> bytes \<Rightarrow> storage_node \<Rightarrow> storage_node res" where
  "node_put now pid v n =
    (case ps_put_direct now pid v (rp_store (sn_replay n)) of
       Panic \<Rightarrow> Panic
     | Ok ps \<Rightarrow> Ok (n\<lparr>sn_replay := (sn_replay n)\<lparr>rp_store := ps, rp_index := insert pid (rp_index (sn_replay n))\<rparr>\<rparr>)
     | Err _ \<Rightarrow> Ok (n\<lparr>sn_replay := (sn_replay n)\<lparr>rp_index := insert pid (rp_index (sn_replay n))\<rparr>\<rparr>))"

definition node_get :: "nat \<Rightarrow> u64 \<Rightarrow> storage_node \<Rightarrow> (bytes option \<times> storage_node) res" where
  "node_get now pid n =
    (if pid \<notin> rp_index (sn_replay n) then Ok (None, n)
     else res_map (\<lambda>(r, ps). (r, set_store n ps)) (ps_get now pid (rp_store (sn_replay n))))"

definition node_delete :: "nat \<Rightarrow> u64 \<Rightarrow> storage_node \<Rightarrow> storage_node res" where
  "node_delete now pid n =
    (case ps_put_direct now pid (replicate PAGE_SIZE 0) (rp_store (sn_replay n)) of
       Panic \<Rightarrow> Panic
     | Ok ps \<Rightarrow> Ok (n\<lparr>sn_replay := (sn_replay n)\<lparr>rp_store := ps, rp_index := rp_index (sn_replay n) - {pid}\<rparr>\<rparr>)
     | Err _ \<Rightarrow> Ok (n\<lparr>sn_replay := (sn_replay n)\<lparr>rp_index := rp_index (sn_replay n) - {pid}\<rparr>\<rparr>))"

definition node_contains :: "nat \<Rightarrow> u64 \<Rightarrow> storage_node \<Rightarrow> (bool \<times> storage_node) res" where
  "node_contains now pid n =
    (if pid \<notin> rp_index (sn_replay n) then Ok (False, n)
     else res_map (\<lambda>(r, ps). (r, set_store n ps)) (ps_contains now pid (rp_store (sn_replay n))))"

definition node_keys :: "storage_node \<Rightarrow> u64 set" where
  "node_keys n = rp_index (sn_replay n)"

definition node_len :: "storage_node \<Rightarrow> nat" where
  "node_len n = card (rp_index (sn_replay n))"

definition image_batch :: "u64 \<Rightarrow> wal_batch \<Rightarrow> bool" where
  "image_batch l b \<longleftrightarrow> list_all image_record (wb_records b) \<and> consecutive l (wb_records b) \<and> wb_records b \<noteq> []
     \<and> wb_start_lsn b = l + 1 \<and> wb_end_lsn b = last_lsn l (wb_records b) + 1 \<and> last_lsn l (wb_records b) \<noteq> - 1 \<and> wal_frame_ok b"

definition apply_writes :: "(u64 \<times> bytes) list \<Rightarrow> (u64 \<Rightarrow> bytes option) \<Rightarrow> (u64 \<Rightarrow> bytes option)" where
  "apply_writes ws v = fold (\<lambda>(pid, page) v. v(pid \<mapsto> page)) ws v"

definition dir_usable :: "wal_dir \<Rightarrow> bool" where
  "dir_usable d \<longleftrightarrow> dir_clean d \<and> (d \<noteq> [] \<longrightarrow> length (snd (last d)) < 2 ^ 26 + 2 ^ 25)"

definition empty_disk :: disk where
  "empty_disk = \<lparr>dk_pages = [], dk_checkpoint_state = None, dk_wal_state = None, dk_dir = []\<rparr>"

definition quiet_env :: env where
  "quiet_env = \<lparr>en_now = 0, en_ms = 0, en_sync = True, en_wal_sync = True\<rparr>"

definition one_page :: "(u64 \<times> bytes) list" where
  "one_page = [(7, replicate PAGE_SIZE 1)]"

definition image_disk :: disk where
  "image_disk = \<lparr>dk_pages = [], dk_checkpoint_state = None, dk_wal_state = None, dk_dir =
     [(1, wal_frame \<lparr>wb_request_id = 9, wb_start_lsn = 1, wb_end_lsn = 2, wb_records =
        [\<lparr>wr_lsn = 1, wr_op = WAL_OP_PAGE_IMAGE, wr_page_id = 7, wr_slot_id = 0, wr_key = [], wr_value = replicate PAGE_SIZE 1\<rparr>]\<rparr>)]\<rparr>"

section \<open>The WAL directory under truncation and appends\<close>

lemma truncate_loop_filter: "\<exists>P. snd (truncate_loop c is k d) = filter P d"
proof (induction "is" arbitrary: k d)
  case Nil
  show ?case by (rule exI [of _ "\<lambda>_. True"]) simp
next
  case (Cons i "is")
  obtain P where P: "snd (truncate_loop c is (k + 1) (om_remove i d)) = filter P (om_remove i d)" using Cons by blast
  obtain Q where Q: "snd (truncate_loop c is k d) = filter Q d" using Cons by blast
  have "filter P (om_remove i d) = filter (\<lambda>x. (case x of (k', _) \<Rightarrow> k' \<noteq> i) \<and> P x) d"
    by (simp add: om_remove_def)
  then show ?case using P Q by (auto simp: Let_def)
qed

lemma truncate_filter: "\<exists>P. snd (truncate_wal_segments d c) = filter P d"
proof (cases "length (list_wal_segments d) \<le> 1")
  case True
  then show ?thesis by (intro exI [of _ "\<lambda>_. True"]) (simp add: truncate_wal_segments_def Let_def)
next
  case False
  then show ?thesis using truncate_loop_filter by (simp add: truncate_wal_segments_def Let_def)
qed

abbreviation log_records :: "wal_dir \<Rightarrow> wal_record list" where
  "log_records d \<equiv> concat (map wb_records (dir_log d))"

lemma log_records_append [simp]: "log_records (d @ d') = log_records d @ log_records d'"
  by simp

lemma sorted_wrt_append_sub:
  "sorted_wrt R (a @ b) \<Longrightarrow> set b' \<subseteq> set b \<Longrightarrow> sorted_wrt R b' \<Longrightarrow> sorted_wrt R (a @ b')"
  by (auto simp: sorted_wrt_append)

lemma log_records_filter:
  "set (log_records (filter P d)) \<subseteq> set (log_records d)"
  "ascending (log_records d) \<Longrightarrow> ascending (log_records (filter P d))"
proof (induction d)
  case (Cons x d)
  have "log_records (x # e) = log_records [x] @ log_records e" for e by (cases x) simp
  note cons = this [of d] this [of "filter P d"]
  { case 1
    show ?case using Cons.IH(1) by (cases "P x") (auto simp only: filter.simps if_True if_False cons set_append) }
  { case 2
    then have d: "sorted_wrt (\<lambda>a b. wr_lsn a < wr_lsn b) (log_records [x] @ log_records d)" by (simp only: ascending_def cons(1))
    then have "ascending (log_records (filter P d))" using Cons.IH(2) by (simp only: sorted_wrt_append ascending_def)
    then show ?case
      using sorted_wrt_append_sub [OF d Cons.IH(1)] by (cases "P x") (simp_all only: filter.simps if_True if_False cons(2) ascending_def) }
qed simp_all

text \<open>Truncation keeps the segment the writer is in.\<close>

lemma truncate_writer_ok:
  assumes "writer_ok (w, d)"
  shows "writer_ok (w, snd (truncate_wal_segments d c)) \<and> last (snd (truncate_wal_segments d c)) = last d"
proof -
  obtain d0 k v where d: "d = d0 @ [(k, v)]" using writer_okE [OF assms] by (metis Pair_inject)
  have clean: "dir_clean (d0 @ [(k, v)])" and wf: "om_wf (d0 @ [(k, v)])" using assms by (auto simp: d writer_ok_snoc dir_clean_def)
  obtain m d' where t: "truncate_wal_segments d c = (m, d' @ [(k, v)])" "om_wf (d' @ [(k, v)])" "set d' \<subseteq> set d0"
    using truncate_ok [OF wf, of c] by (auto simp: d)
  have "dir_clean (d' @ [(k, v)])" using t clean by (auto simp: dir_clean_def list_all_iff)
  then show ?thesis using assms t(1) by (simp add: d writer_ok_snoc)
qed

lemma append_batch_tail:
  assumes "append_batch b st = Ok (st', None)" and "writer_ok st" and "ww_file_id (fst st) \<noteq> - 1" and "wal_frame_ok b"
  shows "b \<in> set (fst (read_log read_wal_batch (snd (last (snd st')))))"
proof -
  obtain w d k v where r: "rotate_if_needed st = Ok (w, d @ [(k, v)])" and ok': "writer_ok (w, d @ [(k, v)])"
    using rotate_ok [OF assms(2,3)] by blast
  have wf: "om_wf (d @ [(k, v)])" and seg: "segment_clean v" and k: "ww_file_id w = k"
    using ok' by (auto simp: writer_ok_snoc dir_clean_def)
  have enc: "encode_wal_batch b [] = Ok (wal_frame b)"
    using assms(4) encode_wal_batch_frame [of b "[]"] by (simp add: wal_frame_ok_def)
  have "snd st' = d @ [(k, v @ wal_frame b)]"
    using assms(1) by (auto simp: append_batch_def r enc k om_lookup_last [OF wf] om_insert_last [OF wf] res_bind_Ok_iff)
  then show ?thesis using segment_append(2) [OF seg assms(4)] by simp
qed

lemma last_segment_in_log: "d \<noteq> [] \<Longrightarrow> b \<in> set (fst (read_log read_wal_batch (snd (last d)))) \<Longrightarrow> b \<in> set (dir_log d)"
  by (cases d rule: rev_cases) auto

section \<open>The invariant of a node\<close>

text \<open>Every page record of the log is applied, the log is in LSN order, the durable LSN follows the last
  applied one, and the \<open>wal_state\<close> file names the last applied LSN.\<close>

definition node_ok :: "storage_node \<Rightarrow> bool" where
  "node_ok n \<longleftrightarrow> replay_wf (sn_replay n) \<and> buffers_idle (sn_buffers n) \<and> writer_ok (sn_writer n, sn_dir n)
     \<and> rp_applied (sn_replay n) = rp_last_applied (sn_replay n) \<and> rp_last_applied (sn_replay n) \<noteq> - 1
     \<and> sn_durable n = rp_last_applied (sn_replay n) + 1
     \<and> list_all redoable (log_records (sn_dir n)) \<and> ascending (log_records (sn_dir n))
     \<and> (\<forall>r \<in> set (log_records (sn_dir n)). wr_lsn r \<le> rp_last_applied (sn_replay n))
     \<and> recovered_mark 0 (rp_wal_state (sn_replay n)) = rp_last_applied (sn_replay n)"

lemma recovered_mark_write [simp]: "recovered_mark l (write_wal_state m) = m"
  by (simp add: recovered_mark_def write_wal_state_def read_wal_state_def)

abbreviation node_view :: "storage_node \<Rightarrow> u64 \<Rightarrow> bytes option" where
  "node_view n \<equiv> ps_view (rp_store (sn_replay n))"

text \<open>Steps that change nothing but the store, without changing its contents, and drop segments.\<close>

definition quiet_step :: "storage_node \<Rightarrow> storage_node \<Rightarrow> bool" where
  "quiet_step n n' \<longleftrightarrow> (\<exists>ps. sn_replay n' = (sn_replay n)\<lparr>rp_store := ps\<rparr>) \<and> replay_wf (sn_replay n') \<and> node_view n' = node_view n
     \<and> sn_buffers n' = sn_buffers n \<and> sn_requests n' = sn_requests n \<and> sn_durable n' = sn_durable n \<and> sn_writer n' = sn_writer n
     \<and> sn_active n' = sn_active n \<and> sn_cfg n' = sn_cfg n
     \<and> (sn_dir n' = sn_dir n \<or> (\<exists>c. sn_dir n' = snd (truncate_wal_segments (sn_dir n) c)))"

lemma quiet_step_ok:
  assumes "quiet_step n n'" and "node_ok n"
  shows "node_ok n'" and "last (sn_dir n') = last (sn_dir n)"
proof -
  obtain ps where rp: "sn_replay n' = (sn_replay n)\<lparr>rp_store := ps\<rparr>" using assms(1) by (auto simp: quiet_step_def)
  have "\<exists>P. sn_dir n' = filter P (sn_dir n)"
  proof (cases "sn_dir n' = sn_dir n")
    case True
    then show ?thesis by (intro exI [of _ "\<lambda>_. True"]) simp
  next
    case False
    then show ?thesis using assms(1) truncate_filter by (auto simp: quiet_step_def)
  qed
  then obtain P where "sn_dir n' = filter P (sn_dir n)" by blast
  then have log: "set (log_records (sn_dir n')) \<subseteq> set (log_records (sn_dir n))" "ascending (log_records (sn_dir n'))"
    using log_records_filter [where P = P and d = "sn_dir n"] assms(2) by (simp_all only: node_ok_def)
  have w: "writer_ok (sn_writer n', sn_dir n') \<and> last (sn_dir n') = last (sn_dir n)"
    using assms truncate_writer_ok [of "sn_writer n" "sn_dir n"] by (auto simp: quiet_step_def node_ok_def)
  then show "last (sn_dir n') = last (sn_dir n)" by simp
  have "list_all redoable (log_records (sn_dir n'))" "\<forall>r \<in> set (log_records (sn_dir n')). wr_lsn r \<le> rp_last_applied (sn_replay n)"
    using assms(2) log(1) unfolding node_ok_def list_all_iff by blast+
  then show "node_ok n'" using assms log(2) w rp by (simp add: node_ok_def quiet_step_def)
qed

text \<open>No checkpoint is forced while the pool is small.\<close>

definition no_pressure :: "maintenance_config \<Rightarrow> nat \<Rightarrow> bool" where
  "no_pressure cfg k \<longleftrightarrow> k \<le> cc_max_dirty_pages (mc_checkpoint cfg) \<and> k * PAGE_SIZE \<le> cc_max_dirty_bytes (mc_checkpoint cfg)"

lemma fold_grows:
  fixes g :: "'s \<Rightarrow> nat"
  assumes "\<And>x st. g (f x st) \<le> g st + c"
  shows "g (fold f xs st) \<le> g st + length xs * c"
proof (induction xs arbitrary: st)
  case (Cons x xs)
  show ?case using Cons [of "f x st"] assms [of x st] by simp
qed simp

lemma dirty_stats:
  "bs_dirty_count (ps_buffer_stats ps) \<le> pool_len ps" "bs_dirty_bytes (ps_buffer_stats ps) \<le> pool_len ps * PAGE_SIZE"
proof -
  define f where "f = (\<lambda>(_ :: u64, bp :: buffer_page) (st :: buffer_stats). let st' = (if bp_dirty bp
                 then st\<lparr>bs_dirty_count := bs_dirty_count st + 1, bs_dirty_bytes := bs_dirty_bytes st + PAGE_SIZE\<rparr>
                 else st) in if bp_lsn bp > bs_max_lsn st' then st'\<lparr>bs_max_lsn := bp_lsn bp\<rparr> else st')"
  define st0 where "st0 = \<lparr>bs_total_pages = length (ps_pool ps), bs_dirty_count = 0, bs_dirty_bytes = 0, bs_max_lsn = 0\<rparr>"
  have stats: "ps_buffer_stats ps = fold f (ps_pool ps) st0" by (simp add: ps_buffer_stats_def f_def st0_def)
  have "bs_dirty_count (f x st) \<le> bs_dirty_count st + 1" "bs_dirty_bytes (f x st) \<le> bs_dirty_bytes st + PAGE_SIZE" for x st
    by (cases x, simp add: f_def Let_def)+
  from fold_grows [of bs_dirty_count f, OF this(1), of "ps_pool ps" st0] fold_grows [of bs_dirty_bytes f, OF this(2), of "ps_pool ps" st0]
  show "bs_dirty_count (ps_buffer_stats ps) \<le> pool_len ps" "bs_dirty_bytes (ps_buffer_stats ps) \<le> pool_len ps * PAGE_SIZE"
    unfolding stats by (simp_all add: st0_def)
qed

lemma maintenance_no_pressure:
  assumes "no_pressure (sn_cfg n) (pool_len (rp_store (sn_replay n)))" and "replay_maintenance en n = Ok n'"
  shows "rp_store (sn_replay n') = rp_store (sn_replay n)"
proof -
  have "maybe_checkpoint_by_pressure en (sn_cfg n) (rp_store (sn_replay n), sn_metrics n) = Ok ((rp_store (sn_replay n), sn_metrics n), None)"
  proof -
    let ?st = "ps_buffer_stats (rp_store (sn_replay n))" and ?cc = "mc_checkpoint (sn_cfg n)"
    have "\<not> cc_max_dirty_pages ?cc < bs_dirty_count ?st" "\<not> cc_max_dirty_bytes ?cc < bs_dirty_bytes ?st"
      using assms(1) dirty_stats [of "rp_store (sn_replay n)"] unfolding no_pressure_def by linarith+
    then show ?thesis by (simp add: maybe_checkpoint_by_pressure_def Let_def)
  qed
  then show ?thesis using assms(2) by (auto simp: replay_maintenance_def Let_def replay_gc_def split: prod.splits if_splits)
qed

lemma maintenance_quiet:
  assumes "replay_wf (sn_replay n)" and "en_sync en"
  shows "\<exists>n'. replay_maintenance en n = Ok n' \<and> quiet_step n n'"
proof -
  have wf: "ps_wf (rp_store (sn_replay n))" using assms(1) by (simp add: replay_wf_def)
  have "\<exists>ps mt. maybe_checkpoint_by_pressure en (sn_cfg n) (rp_store (sn_replay n), sn_metrics n) = Ok ((ps, mt), None)
      \<and> ps_wf ps \<and> ps_view ps = node_view n"
    using checkpoint_with_metrics_ok [OF wf assms(2), of "sn_metrics n"] wf
    unfolding maybe_checkpoint_by_pressure_def Let_def fst_conv by (auto split: if_split)
  then show ?thesis
    by (auto simp: replay_maintenance_def Let_def replay_gc_def replay_wf_def quiet_step_def split: prod.splits)
qed

section \<open>Admission\<close>

lemma wal_usage_ok:
  assumes "om_wf d"
  shows "\<exists>u. wal_usage_exceeds_limits d cfg incoming = Ok u"
proof -
  have "\<exists>t. sum_lens d acc is = Ok t" if "set is \<subseteq> fst ` set d" for acc "is"
    using that
  proof (induction "is" arbitrary: acc)
    case (Cons i "is")
    then obtain bs where "(i, bs) \<in> set d" by auto
    then have "om_lookup d i = Some bs" using om_lookup_iff [OF assms] by simp
    then show ?case using Cons by (simp add: open_segment_def)
  qed simp
  then obtain t where "sum_lens d 0 (map fst d) = Ok t" by fastforce
  then show ?thesis by (simp add: wal_usage_exceeds_limits_def wal_usage_def Let_def list_wal_segments_keys [OF assms])
qed

lemma quiet_step_refl: "replay_wf (sn_replay n) \<Longrightarrow> quiet_step n n"
  by (auto simp: quiet_step_def intro!: exI [of _ "rp_store (sn_replay n)"])

lemma node_checkpoint_quiet:
  assumes "replay_wf (sn_replay n)" and "en_sync en"
  shows "\<exists>n'. node_checkpoint en n = Ok (n', None) \<and> quiet_step n n' \<and> sn_dir n' = sn_dir n \<and> all_clean (rp_store (sn_replay n'))"
proof -
  have "ps_wf (rp_store (sn_replay n))" using assms(1) by (simp add: replay_wf_def)
  then obtain ps mt where "checkpoint_with_metrics en (rp_store (sn_replay n), sn_metrics n) = Ok ((ps, mt), None)" "ps_wf ps"
      "ps_view ps = node_view n" "all_clean ps"
    using checkpoint_with_metrics_ok [OF _ assms(2)] by blast
  then show ?thesis by (auto simp: node_checkpoint_def quiet_step_def replay_wf_def)
qed

lemma enforce_quiet:
  assumes "replay_wf (sn_replay n)" and "om_wf (sn_dir n)" and "en_sync en"
  shows "\<exists>n' e. enforce_wal_limits en incoming n = Ok (n', e) \<and> quiet_step n n'
    \<and> (e = None \<or> (\<exists>msg. e = Some (Io WouldBlock msg)) \<and> wal_usage_exceeds_limits (sn_dir n) (sn_cfg n) incoming \<noteq> Ok None)"
proof -
  obtain u where u: "wal_usage_exceeds_limits (sn_dir n) (sn_cfg n) incoming = Ok u" using wal_usage_ok [OF assms(2)] by blast
  show ?thesis
  proof (cases u)
    case None
    then show ?thesis using u quiet_step_refl [OF assms(1)] by (auto simp: enforce_wal_limits_def)
  next
    case (Some x)
    obtain n1 where n1: "node_checkpoint en n = Ok (n1, None)" "quiet_step n n1" "sn_dir n1 = sn_dir n"
      using node_checkpoint_quiet [OF assms(1,3)] by blast
    define n2 where "n2 = (if mc_truncate_wal (sn_cfg n) then snd (node_truncate_wal n1) else n1)"
    have tr: "snd (node_truncate_wal n1) = n1\<lparr>sn_dir := snd (truncate_wal_segments (sn_dir n) (ps_checkpoint_lsn (rp_store (sn_replay n1))))\<rparr>"
      by (simp add: node_truncate_wal_def Let_def n1(3) split: prod.splits)
    have q2: "quiet_step n n2" using n1(2,3) by (auto simp: n2_def tr quiet_step_def)
    obtain P where "snd (truncate_wal_segments (sn_dir n) (ps_checkpoint_lsn (rp_store (sn_replay n1)))) = filter P (sn_dir n)"
      using truncate_filter by blast
    then have "om_wf (sn_dir n2)" using assms(2) n1(3) by (auto simp: n2_def tr om_wf_def sorted_wrt_map sorted_wrt_filter)
    then obtain u2 where u2: "wal_usage_exceeds_limits (sn_dir n2) (sn_cfg n) incoming = Ok u2" using wal_usage_ok by blast
    have "quiet_step n (n2\<lparr>sn_metrics := m\<rparr>)" for m using q2 by (simp add: quiet_step_def)
    then show ?thesis using u Some n1 u2 q2 by (auto simp: enforce_wal_limits_def Let_def simp flip: n2_def split: option.splits)
  qed
qed

section \<open>Appending images\<close>

lemma consecutive_bounds: "consecutive l rs \<Longrightarrow> r \<in> set rs \<Longrightarrow> l < wr_lsn r \<and> wr_lsn r \<le> last_lsn l rs"
proof (induction rs arbitrary: l)
  case (Cons q rs)
  have lt: "l < l + 1" using Cons.prems unat_plus_one [of l] by (simp add: word_less_nat_alt)
  have "l + 1 \<le> last_lsn (l + 1) rs" using Cons.prems consecutive_last [of "l + 1" rs] by simp
  moreover have "last_lsn l (q # rs) = last_lsn (l + 1) rs" using Cons.prems by (simp add: last_lsn_def)
  ultimately show ?case using Cons lt by (auto intro: order.strict_trans)
qed simp

lemma consecutive_ascending: "consecutive l rs \<Longrightarrow> ascending rs"
  unfolding ascending_def
proof (induction rs arbitrary: l)
  case (Cons r rs)
  then show ?case using consecutive_bounds [of "l + 1" rs] by auto
qed simp

lemma images_redoable: "list_all image_record rs \<Longrightarrow> list_all redoable rs"
  by (auto simp: list_all_iff redoable_def)

text \<open>Replaying a batch of images on a node whose log already has it.\<close>

lemma replay_batch_images:
  assumes "replay_wf (sn_replay n)" and "buffers_idle (sn_buffers n)" and "list_all image_record (wb_records b)"
    and "consecutive (rp_last_applied (sn_replay n)) (wb_records b)" and "en_sync en"
  shows "\<exists>rp bufs n'. replay_batch en b n = Ok n' \<and> images_applied (wb_records b) (sn_replay n) rp \<and> buffers_idle bufs
    \<and> quiet_step (n\<lparr>sn_requests := note_request b (sn_requests n), sn_mvcc := apply_txn_batch_to_mvcc (sn_mvcc n) b,
        sn_replay := rp, sn_buffers := bufs\<rparr>) n'
    \<and> (no_pressure (sn_cfg n) (pool_len (rp_store rp)) \<longrightarrow> rp_store (sn_replay n') = rp_store rp)"
proof -
  obtain rp bufs where r: "replay_records (en_now en) (rp_last_applied (sn_replay n)) (wb_records b) (sn_replay n, sn_buffers n) = Ok (rp, bufs)"
      "images_applied (wb_records b) (sn_replay n) rp" "buffers_idle bufs"
    using replay_records_images [OF assms(1-4)] by blast
  let ?n = "n\<lparr>sn_requests := note_request b (sn_requests n), sn_mvcc := apply_txn_batch_to_mvcc (sn_mvcc n) b,
        sn_replay := rp, sn_buffers := bufs\<rparr>"
  have "replay_wf (sn_replay ?n)" using r(2) by (simp add: images_applied_def)
  then obtain n' where "replay_maintenance en ?n = Ok n'" "quiet_step ?n n'" using maintenance_quiet [OF _ assms(5)] by blast
  then show ?thesis using r maintenance_no_pressure [of ?n en n'] by (auto simp: replay_batch_def Let_def)
qed

lemma writer_round_single:
  assumes "writer_ok st" and "ww_file_id (fst st) \<noteq> - 1" and "wal_frame_ok (wq_batch q)"
  shows "\<exists>st'. writer_round True [q] st durable = Ok \<lparr>rr_writer = st', rr_durable = wb_end_lsn (wq_batch q),
      rr_acks = [if wq_ack q then Some (Ok (wb_end_lsn (wq_batch q))) else None], rr_forwarded = [wq_batch q]\<rparr>
    \<and> writer_ok st' \<and> dir_log (snd st') = dir_log (snd st) @ [wq_batch q]
    \<and> wq_batch q \<in> set (fst (read_log read_wal_batch (snd (last (snd st')))))"
proof -
  obtain st' where st': "append_batch (wq_batch q) st = Ok (st', None)" "writer_ok st'" "dir_log (snd st') = dir_log (snd st) @ [wq_batch q]"
    using append_batch_ok [OF assms] by blast
  then show ?thesis using append_batch_tail [OF st'(1) assms] by (auto simp: writer_round_def max_def enumerate_simps)
qed

lemma write_and_replay_ok:
  assumes ok: "node_ok n" and b: "image_batch (rp_last_applied (sn_replay n)) b" and en: "en_sync en" "en_wal_sync en"
    and room: "ww_file_id (sn_writer n) \<noteq> - 1"
  shows "\<exists>n'. write_and_replay en ack b n = Ok (n', if ack then Some (Ok (wb_end_lsn b)) else None) \<and> node_ok n'
    \<and> node_view n' = redo (wb_records b) (node_view n) \<and> b \<in> set (dir_log (sn_dir n'))
    \<and> sn_durable n' = wb_end_lsn b \<and> sn_requests n' = note_request b (sn_requests n)
    \<and> (no_pressure (sn_cfg n) (pool_len (rp_store (sn_replay n)) + 2 * length (wb_records b))
         \<longrightarrow> same_disk (rp_store (sn_replay n)) (rp_store (sn_replay n')))"
proof -
  let ?l = "rp_last_applied (sn_replay n)" and ?rs = "wb_records b"
  note bD = b [unfolded image_batch_def]
  have w: "writer_ok (sn_writer n, sn_dir n)" using ok by (simp add: node_ok_def)
  obtain st' where st': "writer_round True [\<lparr>wq_batch = b, wq_ack = ack\<rparr>] (sn_writer n, sn_dir n) (sn_durable n)
        = Ok \<lparr>rr_writer = st', rr_durable = wb_end_lsn b, rr_acks = [if ack then Some (Ok (wb_end_lsn b)) else None], rr_forwarded = [b]\<rparr>"
      "writer_ok st'" "dir_log (snd st') = dir_log (sn_dir n) @ [b]" "b \<in> set (fst (read_log read_wal_batch (snd (last (snd st')))))"
    using writer_round_single [OF w, of "\<lparr>wq_batch = b, wq_ack = ack\<rparr>" "sn_durable n"] room bD by auto
  define n1 where "n1 = n\<lparr>sn_writer := fst st', sn_dir := snd st', sn_durable := wb_end_lsn b\<rparr>"
  have "replay_wf (sn_replay n1)" "buffers_idle (sn_buffers n1)" using ok by (auto simp: n1_def node_ok_def)
  then obtain rp bufs n' where r: "replay_batch en b n1 = Ok n'" "images_applied ?rs (sn_replay n1) rp" "buffers_idle bufs"
      "quiet_step (n1\<lparr>sn_requests := note_request b (sn_requests n1), sn_mvcc := apply_txn_batch_to_mvcc (sn_mvcc n1) b,
        sn_replay := rp, sn_buffers := bufs\<rparr>) n'"
      "no_pressure (sn_cfg n1) (pool_len (rp_store rp)) \<longrightarrow> rp_store (sn_replay n') = rp_store rp"
    using replay_batch_images [of n1 b en] bD en by (auto simp: n1_def)
  let ?n = "n1\<lparr>sn_requests := note_request b (sn_requests n1), sn_mvcc := apply_txn_batch_to_mvcc (sn_mvcc n1) b,
        sn_replay := rp, sn_buffers := bufs\<rparr>"
  have rp: "replay_wf rp" "ps_view (rp_store rp) = redo ?rs (node_view n)" "rp_last_applied rp = last_lsn ?l ?rs"
      "rp_applied rp = last_lsn ?l ?rs" "rp_wal_state rp = write_wal_state (last_lsn ?l ?rs)"
    using r(2) bD by (auto simp: images_applied_def n1_def last_lsn_def)
  have le: "?l \<le> last_lsn ?l ?rs" using consecutive_last [of ?l ?rs] bD by blast
  have log: "log_records (sn_dir ?n) = log_records (sn_dir n) @ ?rs" using st'(3) by (simp add: n1_def)
  have "ascending (log_records (sn_dir ?n))"
    using ok bD consecutive_ascending [of ?l ?rs] consecutive_bounds [of ?l ?rs] unfolding log
    by (force simp: ascending_def sorted_wrt_append node_ok_def)
  moreover have "list_all redoable (log_records (sn_dir ?n))"
    using ok bD images_redoable unfolding log by (simp add: node_ok_def)
  moreover have "\<forall>r \<in> set (log_records (sn_dir ?n)). wr_lsn r \<le> last_lsn ?l ?rs"
    using ok bD consecutive_bounds [of ?l ?rs] le unfolding log by (auto simp: node_ok_def intro: order.trans)
  ultimately have "node_ok ?n" using rp r(3) st'(2) bD by (simp add: node_ok_def n1_def)
  from quiet_step_ok [OF r(4) this] have "node_ok n'" "last (sn_dir n') = last (snd st')" by (auto simp: n1_def)
  moreover have "sn_dir n' \<noteq> []" using \<open>node_ok n'\<close> by (simp add: node_ok_def writer_ok_def)
  then have "b \<in> set (dir_log (sn_dir n'))" using last_segment_in_log st'(4) \<open>last (sn_dir n') = last (snd st')\<close> by simp
  moreover have "write_and_replay en ack b n = Ok (n', if ack then Some (Ok (wb_end_lsn b)) else None)"
    using st'(1) r(1) en by (simp add: write_and_replay_def n1_def)
  moreover have "node_view n' = redo ?rs (node_view n)" "sn_durable n' = wb_end_lsn b" "sn_requests n' = note_request b (sn_requests n)"
    using r(4) rp by (auto simp: quiet_step_def n1_def)
  moreover have "same_disk (rp_store (sn_replay n)) (rp_store (sn_replay n'))"
    if "no_pressure (sn_cfg n) (pool_len (rp_store (sn_replay n)) + 2 * length ?rs)"
  proof -
    have "pool_len (rp_store rp) \<le> pool_len (rp_store (sn_replay n)) + 2 * length ?rs" "same_disk (rp_store (sn_replay n)) (rp_store rp)"
      using r(2) by (auto simp: images_applied_def n1_def)
    moreover from this have "no_pressure (sn_cfg n1) (pool_len (rp_store rp))"
      using that by (auto simp: no_pressure_def n1_def intro: order.trans)
    ultimately show ?thesis using r(5) by simp
  qed
  ultimately show ?thesis by blast
qed

section \<open>Validation\<close>

lemma check_lsns_iff:
  assumes "unat start + i + length rs < 2 ^ 64" and "unat start + i \<ge> 1"
  shows "check_lsns start i rs = Ok () \<longleftrightarrow> consecutive (start + word_of_nat i - 1) rs"
  using assms
proof (induction rs arbitrary: i)
  case (Cons r rs)
  have i: "unat (word_of_nat i :: u64) = i" using Cons.prems by (intro unat_word_of_nat_small) simp
  have un: "unat (start + word_of_nat i) = unat start + i" using Cons.prems i by (subst unat_plus_bounded) simp_all
  then have nz: "start + word_of_nat i \<noteq> 0" using Cons.prems(2) by (metis not_one_le_zero unat_0)
  have "start + word_of_nat (Suc i) - 1 = start + word_of_nat i" by simp
  then show ?case using Cons.IH [of "Suc i"] Cons.prems i nz by (auto simp: chk_add_def invalid_input_def)
qed simp

lemma validate_image_batch:
  assumes "image_batch l b" and "l \<noteq> - 1"
  shows "validate_incoming_wal_batch (l + 1) b = Ok ()"
proof -
  note bD = assms(1) [unfolded image_batch_def]
  let ?rs = "wb_records b"
  have un: "unat (last_lsn l ?rs) = unat l + length ?rs" using consecutive_last bD by blast
  have "unat (last_lsn l ?rs + 1) = unat l + length ?rs + 1" "unat (l + 1) = unat l + 1"
    using unat_plus_one [of l] unat_plus_one [of "last_lsn l ?rs"] assms(2) bD un by auto
  moreover have "unat (last_lsn l ?rs + 1) < 2 ^ 64" using unsigned_less [where 'a = nat, of "last_lsn l ?rs + 1"] by simp
  ultimately show ?thesis
    using bD check_lsns_iff [of "l + 1" 0 ?rs]
    by (simp add: validate_incoming_wal_batch_def Let_def unat_sat_sub word_less_nat_alt)
qed

section \<open>Transaction batches\<close>

lemma redo_writes: "map (\<lambda>r. (wr_page_id r, wr_value r)) rs = ws \<Longrightarrow> redo rs v = apply_writes ws v"
proof (induction rs arbitrary: ws v)
  case (Cons r rs)
  then show ?case by (auto simp: apply_writes_def)
qed (simp add: apply_writes_def)

lemma image_records_ok:
  assumes "\<forall>(pid, page) \<in> set ws. page_ok pid \<and> length page = PAGE_SIZE" and "unat start + i + length ws < 2 ^ 64" and "unat start + i \<ge> 1"
  shows "\<exists>rs. image_records start i ws = Ok rs \<and> list_all image_record rs \<and> consecutive (start + word_of_nat i - 1) rs
    \<and> map (\<lambda>r. (wr_page_id r, wr_value r)) rs = ws \<and> (\<forall>r \<in> set rs. wr_key r = [])"
  using assms
proof (induction ws arbitrary: i)
  case (Cons w ws)
  obtain pid page where w: "w = (pid, page)" by (cases w)
  have i: "unat (word_of_nat i :: u64) = i" using Cons.prems by (intro unat_word_of_nat_small) simp
  then have un: "unat (start + word_of_nat i) = unat start + i" using Cons.prems by (subst unat_plus_bounded) simp_all
  then have nz: "start + word_of_nat i \<noteq> 0" using Cons.prems(3) by (metis not_one_le_zero unat_0)
  obtain rs where "image_records start (Suc i) ws = Ok rs" "list_all image_record rs" "consecutive (start + word_of_nat (Suc i) - 1) rs"
      "map (\<lambda>r. (wr_page_id r, wr_value r)) rs = ws" "\<forall>r \<in> set rs. wr_key r = []"
    using Cons.IH [of "Suc i"] Cons.prems by auto
  moreover have "start + word_of_nat (Suc i) - 1 = start + word_of_nat i" by simp
  moreover have "chk_add start (word_of_nat i) = Ok (start + word_of_nat i)" using Cons.prems i by (simp add: chk_add_def)
  ultimately show ?case using Cons.prems nz by (simp add: w image_record_def list_all_iff)
qed simp

lemma image_frame_length:
  assumes "list_all image_record rs" and "\<forall>r \<in> set rs. wr_key r = []"
  shows "(\<Sum>r\<leftarrow>rs. 27 + length (wr_key r) + length (wr_value r)) = length rs * 16411"
  using assms by (induction rs) (auto simp: image_record_def)

text \<open>The batch that \<open>append_txn_batch_with_lsn_sync\<close> builds is an image batch.\<close>

lemma txn_batch_built:
  assumes ws: "\<forall>(pid, page) \<in> set ws. page_ok pid \<and> length page = PAGE_SIZE" "ws \<noteq> []" "length ws \<le> 1022"
    and l: "l \<noteq> - 1" "unat l + 1 + length ws < 2 ^ 64"
  shows "\<exists>rs. image_records (l + 1) 0 ws = Ok rs \<and> map (\<lambda>r. (wr_page_id r, wr_value r)) rs = ws
    \<and> image_batch l \<lparr>wb_request_id = rid, wb_start_lsn = l + 1, wb_end_lsn = l + 1 + word_of_nat (length ws), wb_records = rs\<rparr>
    \<and> length (encode_body \<lparr>wb_request_id = rid, wb_start_lsn = l + 1, wb_end_lsn = l + 1 + word_of_nat (length ws), wb_records = rs\<rparr>) = 28 + 16411 * length ws"
proof -
  have un: "unat (l + 1) = unat l + 1" by (rule unat_plus_one [OF l(1)])
  obtain rs where rs: "image_records (l + 1) 0 ws = Ok rs" "list_all image_record rs" "consecutive l rs"
      "map (\<lambda>r. (wr_page_id r, wr_value r)) rs = ws" "\<forall>r \<in> set rs. wr_key r = []"
    using image_records_ok [OF ws(1), of "l + 1" 0] un l by auto
  have len: "length rs = length ws" using rs(4) by auto
  have ll: "unat (last_lsn l rs) = unat l + length ws" using consecutive_last [OF rs(3)] len by simp
  then have nm: "last_lsn l rs \<noteq> - 1" using l(2) by (auto simp: unat_minus_one)
  have "unat (l + 1 + word_of_nat (length ws)) = unat l + 1 + length ws"
    using l(2) un by (subst unat_plus_bounded) (simp_all add: unat_word_of_nat_small)
  moreover have "unat (last_lsn l rs + 1) = unat l + 1 + length ws" using unat_plus_one [OF nm] ll by simp
  ultimately have e: "l + 1 + word_of_nat (length ws) = last_lsn l rs + 1" by (simp add: word_unat_eq_iff)
  have "length ws * 16411 + 28 \<le> MAX_WAL_FRAME_LEN" using ws(3) by simp
  then show ?thesis
    using rs e nm ws(2) len image_frame_length [OF rs(2,5)]
    by (intro exI [of _ rs]) (auto simp: image_batch_def wal_frame_ok_def length_encode_body)
qed

lemma encoded_len_ok: "wal_frame_ok b \<Longrightarrow> wal_batch_encoded_len b = Ok (word_of_nat (4 + length (encode_body b)))"
  using add_record_lens_eq [of 32 "wb_records b"]
  by (simp add: wal_batch_encoded_len_def wal_frame_ok_def length_encode_body)

lemma append_wal_batch_sync_ok:
  assumes ok: "node_ok n" and b: "image_batch (rp_last_applied (sn_replay n)) b" and en: "en_sync en" "en_wal_sync en"
    and room: "ww_file_id (sn_writer n) \<noteq> - 1"
  shows "\<exists>n' out. append_wal_batch_sync en b n = Ok (n', out) \<and> node_ok n'
    \<and> (out = Committed (wb_end_lsn b) \<and> node_view n' = redo (wb_records b) (node_view n) \<and> b \<in> set (dir_log (sn_dir n'))
         \<and> sn_durable n' = wb_end_lsn b \<and> sn_requests n' = note_request b (sn_requests n)
         \<and> (no_pressure (sn_cfg n) (pool_len (rp_store (sn_replay n)) + 2 * length (wb_records b))
              \<and> (\<forall>len. wal_batch_encoded_len b = Ok len \<longrightarrow> wal_usage_exceeds_limits (sn_dir n) (sn_cfg n) len = Ok None)
              \<longrightarrow> same_disk (rp_store (sn_replay n)) (rp_store (sn_replay n')))
       \<or> (\<exists>msg. out = Refused (Io WouldBlock msg)) \<and> node_view n' = node_view n \<and> sn_durable n' = sn_durable n \<and> sn_requests n' = sn_requests n
         \<and> (\<forall>len. wal_batch_encoded_len b = Ok len \<longrightarrow> wal_usage_exceeds_limits (sn_dir n) (sn_cfg n) len \<noteq> Ok None))"
proof -
  let ?l = "rp_last_applied (sn_replay n)"
  have d: "sn_durable n = ?l + 1" "?l \<noteq> - 1" using ok by (auto simp: node_ok_def)
  have v: "validate_incoming_wal_batch (sn_durable n) b = Ok ()" using validate_image_batch [OF b d(2)] d(1) by simp
  obtain len where len: "wal_batch_encoded_len b = Ok len" using encoded_len_ok b by (auto simp: image_batch_def)
  have "replay_wf (sn_replay n)" "om_wf (sn_dir n)" using ok by (auto simp: node_ok_def writer_ok_def dir_clean_def)
  then obtain n1 e where n1: "enforce_wal_limits en len n = Ok (n1, e)" "quiet_step n n1"
      "e = None \<or> (\<exists>msg. e = Some (Io WouldBlock msg)) \<and> wal_usage_exceeds_limits (sn_dir n) (sn_cfg n) len \<noteq> Ok None"
    using enforce_quiet [OF _ _ en(1)] by blast
  have ok1: "node_ok n1" by (rule quiet_step_ok(1) [OF n1(2) ok])
  have same: "rp_last_applied (sn_replay n1) = ?l" "ww_file_id (sn_writer n1) \<noteq> - 1" "node_view n1 = node_view n"
      "sn_requests n1 = sn_requests n" "sn_durable n1 = sn_durable n"
    using n1(2) room by (auto simp: quiet_step_def)
  show ?thesis
  proof (cases e)
    case (Some er)
    then show ?thesis using v len n1 ok1 same by (auto simp: append_wal_batch_sync_def)
  next
    case None
    obtain n2 where n2: "write_and_replay en True b n1 = Ok (n2, Some (Ok (wb_end_lsn b)))" "node_ok n2"
        "node_view n2 = redo (wb_records b) (node_view n1)" "b \<in> set (dir_log (sn_dir n2))" "sn_durable n2 = wb_end_lsn b"
        "sn_requests n2 = note_request b (sn_requests n1)"
        "no_pressure (sn_cfg n1) (pool_len (rp_store (sn_replay n1)) + 2 * length (wb_records b))
          \<longrightarrow> same_disk (rp_store (sn_replay n1)) (rp_store (sn_replay n2))"
      using write_and_replay_ok [OF ok1 _ en same(2), of b True] b same(1) by auto
    have "n1 = n" if "wal_usage_exceeds_limits (sn_dir n) (sn_cfg n) len = Ok None"
      using that n1(1) by (simp add: enforce_wal_limits_def)
    then have disk: "same_disk (rp_store (sn_replay n)) (rp_store (sn_replay n2))"
      if "no_pressure (sn_cfg n) (pool_len (rp_store (sn_replay n)) + 2 * length (wb_records b))"
        "wal_usage_exceeds_limits (sn_dir n) (sn_cfg n) len = Ok None"
      using that n2(7) by simp
    have "rp_applied (sn_replay n2) = wb_end_lsn b - 1"
      using n2(2,5) by (metis (no_types, lifting) add_diff_cancel_right' node_ok_def)
    moreover have "\<not> wb_end_lsn b - 1 < sat_sub (wb_end_lsn b) 1" by (auto simp: sat_sub_def)
    ultimately show ?thesis using v len n1(1) None n2(1-6) same disk by (auto simp: append_wal_batch_sync_def)
  qed
qed

section \<open>Opening\<close>

lemma index_from_ok:
  assumes "ps_wf ps" and "pid + k \<le> unat (ps_max_page_id ps) + 1"
  shows "\<exists>ps'. index_from now k pid ps = Ok ({p. pid \<le> unat p \<and> unat p < pid + k \<and> ps_view ps p \<noteq> None}, ps')
    \<and> ps_wf ps' \<and> ps_view ps' = ps_view ps \<and> same_disk ps ps'"
  using assms
proof (induction k arbitrary: pid ps)
  case (Suc k)
  let ?w = "word_of_nat pid :: u64"
  have "unat (ps_max_page_id ps) < 2 ^ 64" using unsigned_less [where 'a = nat, of "ps_max_page_id ps"] by simp
  then have un: "unat ?w = pid" using Suc.prems(2) by (intro unat_word_of_nat_small) simp
  then have "?w \<le> ps_max_page_id ps" using Suc.prems(2) by (simp add: word_le_nat_alt)
  then have "page_ok ?w" using page_ok_le Suc.prems(1) by (auto simp: ps_wf_def)
  then obtain ps1 where ps1: "ps_get now ?w ps = Ok (ps_view ps ?w, ps1)" "ps_wf ps1" "ps_view ps1 = ps_view ps" "same_disk ps ps1"
      "ps_max_page_id ps1 = ps_max_page_id ps"
    using ps_get_view [OF Suc.prems(1)] by (auto simp: same_disk_def)
  have "Suc pid + k \<le> unat (ps_max_page_id ps1) + 1" using Suc.prems(2) ps1(5) by simp
  from Suc.IH [OF ps1(2) this] obtain ps' where ps': "index_from now k (Suc pid) ps1
        = Ok ({p. Suc pid \<le> unat p \<and> unat p < Suc pid + k \<and> ps_view ps p \<noteq> None}, ps')" "ps_wf ps'" "ps_view ps' = ps_view ps"
      "same_disk ps1 ps'"
    using ps1(3) by auto
  have "{p. pid \<le> unat p \<and> unat p < pid + Suc k \<and> ps_view ps p \<noteq> None}
      = (if ps_view ps ?w \<noteq> None then insert ?w {p. Suc pid \<le> unat p \<and> unat p < Suc pid + k \<and> ps_view ps p \<noteq> None}
         else {p. Suc pid \<le> unat p \<and> unat p < Suc pid + k \<and> ps_view ps p \<noteq> None})" (is "?A = ?B")
  proof -
    have "p \<in> ?A \<longleftrightarrow> p \<in> ?B" for p
    proof (cases "p = ?w")
      case True
      then show ?thesis using un by simp
    next
      case False
      then have "unat p \<noteq> pid" using un by (metis word_unat_eq_iff)
      then have "pid \<le> unat p \<longleftrightarrow> Suc pid \<le> unat p" by linarith
      then show ?thesis using False by simp
    qed
    then show ?thesis by blast
  qed
  then show ?case using ps1(1) ps' same_disk_trans [OF ps1(4) ps'(4)] by (simp only: index_from.simps res_bind.simps prod.case res_map_simps) simp
qed simp

lemma build_page_index_ok:
  assumes "ps_wf ps"
  shows "\<exists>ix ps'. build_page_index now ps = Ok (ix, ps') \<and> ps_wf ps' \<and> ps_view ps' = ps_view ps \<and> same_disk ps ps'"
  using index_from_ok [OF assms, of 0 "unat (ps_max_page_id ps) + 1" now] by (auto simp: build_page_index_def)

lemma writer_open_ok:
  assumes "dir_usable d"
  shows "\<exists>w d'. writer_open d = Ok (w, d') \<and> writer_ok (w, d') \<and> dir_log d' = dir_log d \<and> (d \<noteq> [] \<longrightarrow> d' = d)"
proof (cases d rule: rev_cases)
  case Nil
  then show ?thesis
    by (simp add: writer_open_def list_wal_segments_keys create_wal_segment_def writer_ok_def dir_clean_def om_wf_def)
next
  case (snoc d0 x)
  obtain k v where x: "x = (k, v)" by (cases x)
  have wf: "om_wf (d0 @ [(k, v)])" and clean: "dir_clean (d0 @ [(k, v)])" and len: "length v < 2 ^ 26 + 2 ^ 25"
    using assms by (auto simp: snoc x dir_usable_def dir_clean_def)
  have "unat (word_of_nat (length v) :: u64) = length v" using len by (intro unat_word_of_nat_small) simp
  then have "writer_ok (\<lparr>ww_file_id = k, ww_size = word_of_nat (length v)\<rparr>, d0 @ [(k, v)])" using clean len by (simp add: writer_ok_snoc)
  moreover have "writer_open d = Ok (\<lparr>ww_file_id = k, ww_size = word_of_nat (length v)\<rparr>, d0 @ [(k, v)])"
    by (simp add: snoc x writer_open_def list_wal_segments_keys [OF wf] open_segment_def om_lookup_last [OF wf])
  ultimately show ?thesis by (simp add: snoc x)
qed

lemma last_lsn_to_apply: "L \<le> last_lsn L (to_apply L rs)"
proof (cases "to_apply L rs = []")
  case False
  then have "last (to_apply L rs) \<in> set (to_apply L rs)" by simp
  then show ?thesis using False by (auto simp: last_lsn_def to_apply_def less_imp_le)
qed (simp add: last_lsn_def)

lemma node_open_ok:
  assumes cfg: "validate_config cfg = Ok ()" and f: "file_ok (dk_pages dk)" and dir: "dir_usable (dk_dir dk)"
    and log: "list_all redoable (log_records (dk_dir dk))" "ascending (log_records (dk_dir dk))"
    and L: "L = max (recovered_mark 0 (dk_wal_state dk)) (ps_checkpoint_lsn (ps_open (dk_pages dk) (dk_checkpoint_state dk) (en_now en)))"
  shows "\<exists>n. node_open en cfg dk = Ok n \<and> replay_wf (sn_replay n) \<and> sn_buffers n = [] \<and> writer_ok (sn_writer n, sn_dir n)
    \<and> node_view n = redo (to_apply L (log_records (dk_dir dk))) (ps_view (ps_open (dk_pages dk) (dk_checkpoint_state dk) (en_now en)))
    \<and> rp_last_applied (sn_replay n) = last_lsn L (to_apply L (log_records (dk_dir dk)))
    \<and> rp_applied (sn_replay n) = rp_last_applied (sn_replay n) \<and> sn_durable n = sat_add (rp_last_applied (sn_replay n)) 1
    \<and> (if to_apply L (log_records (dk_dir dk)) = [] then rp_wal_state (sn_replay n) = dk_wal_state dk
       else rp_wal_state (sn_replay n) = write_wal_state (rp_last_applied (sn_replay n)))
    \<and> dir_log (sn_dir n) = dir_log (dk_dir dk) \<and> sn_requests n = fold note_request (dir_log (dk_dir dk)) []
    \<and> sn_mvcc n = fold (\<lambda>b m. apply_txn_batch_to_mvcc m b) (dir_log (dk_dir dk)) []"
proof -
  define ps where "ps = ps_open (dk_pages dk) (dk_checkpoint_state dk) (en_now en)"
  define A where "A = to_apply L (log_records (dk_dir dk))"
  let ?rv = "\<lparr>rv_replay = replay_new ps L (dk_wal_state dk) {}, rv_mvcc = [], rv_requests = []\<rparr>"
  have wf: "replay_wf (replay_new ps L (dk_wal_state dk) {})" using ps_open_wf [OF f] by (simp add: replay_wf_def replay_new_def ps_def)
  obtain rp where rp: "recover_records (en_now en) (log_records (dk_dir dk)) (replay_new ps L (dk_wal_state dk) {}) = Ok (rp, None)"
      "images_applied A (replay_new ps L (dk_wal_state dk) {}) rp"
    using recover_records_images [OF wf log] by (auto simp: A_def replay_new_def)
  obtain rv where rv: "recover_batches (en_now en) (dir_log (dk_dir dk)) ?rv = Ok (rv, None)" "rv_replay rv = rp"
      "rv_mvcc rv = fold (\<lambda>b m. apply_txn_batch_to_mvcc m b) (dir_log (dk_dir dk)) []" "rv_requests rv = fold note_request (dir_log (dk_dir dk)) []"
    using recover_batches_flat [of "en_now en" "dir_log (dk_dir dk)" ?rv rp] rp(1) by auto
  have rec: "replay_wal_segments_to_store (en_now en) (dk_dir dk) ?rv = Ok (rv, None)"
    using recover_dir [of "dk_dir dk"] dir rv(1) by (simp add: dir_usable_def)
  have rp': "ps_wf (rp_store rp)" "ps_view (rp_store rp) = redo A (ps_view ps)" "rp_last_applied rp = last_lsn L A"
      "rp_wal_state rp = (if A = [] then dk_wal_state dk else write_wal_state (last_lsn L A))"
    using rp(2) by (auto simp: images_applied_def replay_new_def replay_wf_def last_lsn_def split: if_splits)
  have le: "L \<le> last_lsn L A" using last_lsn_to_apply by (simp add: A_def)
  have mark: "max (recovered_mark L (rp_wal_state rp)) L = last_lsn L A"
  proof (cases "A = []")
    case True
    have "recovered_mark L (dk_wal_state dk) \<le> L" using L by (auto simp: recovered_mark_def split: result.splits)
    then show ?thesis using True rp'(4) by (simp add: last_lsn_def max_absorb2)
  qed (use rp'(4) le in \<open>simp add: max_absorb1\<close>)
  obtain ix ps2 where ix: "build_page_index (en_now en) (rp_store rp) = Ok (ix, ps2)" "ps_wf ps2" "ps_view ps2 = ps_view (rp_store rp)"
    using build_page_index_ok [OF rp'(1)] by blast
  obtain w d where w: "writer_open (dk_dir dk) = Ok (w, d)" "writer_ok (w, d)" "dir_log d = dir_log (dk_dir dk)"
    using writer_open_ok [OF dir] by blast
  show ?thesis
    using cfg rec ix w rp' rv mark
    by (simp add: node_open_def Let_def ps_def [symmetric] L [folded ps_def, symmetric] A_def [symmetric])
      (simp add: replay_new_def replay_wf_def)
qed

lemma view_of_open: "ps_view (ps_open f st now) = (\<lambda>p. nonzero (file_page f p))"
  by (rule ext) (simp add: ps_view_def ps_open_def)

section \<open>Properties\<close>

text \<open>C1: Appending a transaction batch on a node in a regular state, with the LSNs that are next and at most 1022
  page images, ends: either it commits with the end LSN, and then the batch is in the log, all its images are
  visible in order, the durable LSN is the end LSN and a retry of the request returns the same LSN and
  changes nothing, whatever it carries; or it is refused with backpressure and the pages are as before. In
  both cases the node is in a regular state again.\<close>

theorem append_txn_batch_commits:
  assumes "node_ok n" and "en_sync en" and "en_wal_sync en" and "ww_file_id (sn_writer n) \<noteq> - 1"
    and "\<forall>(pid, page) \<in> set ws. page_ok pid \<and> length page = PAGE_SIZE" and "ws \<noteq> []" and "length ws \<le> 1022"
    and "unat (sn_durable n) + length ws < 2 ^ 64" and "rid = 0 \<or> om_lookup (sn_requests n) rid = None"
  shows "\<exists>n' out. append_txn_batch_with_lsn_sync en rid (sn_durable n) (sn_durable n + word_of_nat (length ws)) ws n = Ok (n', out) \<and> node_ok n'
    \<and> (out = Committed (sn_durable n + word_of_nat (length ws)) \<and> node_view n' = apply_writes ws (node_view n)
         \<and> sn_durable n' = sn_durable n + word_of_nat (length ws)
         \<and> (\<exists>b \<in> set (dir_log (sn_dir n')). wb_request_id b = rid \<and> map (\<lambda>r. (wr_page_id r, wr_value r)) (wb_records b) = ws)
         \<and> (rid \<noteq> 0 \<longrightarrow> (\<forall>en' s e ws'. append_txn_batch_with_lsn_sync en' rid s e ws' n' = Ok (n', out)))
       \<or> (\<exists>msg. out = Refused (Io WouldBlock msg)) \<and> node_view n' = node_view n \<and> sn_durable n' = sn_durable n
         \<and> wal_usage_exceeds_limits (sn_dir n) (sn_cfg n) (word_of_nat (32 + 16411 * length ws)) \<noteq> Ok None)"
proof -
  let ?l = "rp_last_applied (sn_replay n)" and ?e = "sn_durable n + word_of_nat (length ws)"
  have d: "sn_durable n = ?l + 1" "?l \<noteq> - 1" using assms(1) by (auto simp: node_ok_def)
  have room: "unat ?l + 1 + length ws < 2 ^ 64" using assms(8) unat_plus_one [OF d(2)] d(1) by simp
  obtain rs where rs: "image_records (sn_durable n) 0 ws = Ok rs" "map (\<lambda>r. (wr_page_id r, wr_value r)) rs = ws"
      "image_batch ?l \<lparr>wb_request_id = rid, wb_start_lsn = sn_durable n, wb_end_lsn = ?e, wb_records = rs\<rparr>"
      "length (encode_body \<lparr>wb_request_id = rid, wb_start_lsn = sn_durable n, wb_end_lsn = ?e, wb_records = rs\<rparr>) = 28 + 16411 * length ws"
    using txn_batch_built [OF assms(5-7) d(2) room, of rid] unfolding d(1) by blast
  let ?b = "\<lparr>wb_request_id = rid, wb_start_lsn = sn_durable n, wb_end_lsn = ?e, wb_records = rs\<rparr>"
  have "unat (word_of_nat (length ws) :: u64) = length ws" using assms(7) by (intro unat_word_of_nat_small) simp
  then have add: "chk_add (sn_durable n) (word_of_nat (length ws)) = Ok ?e" using assms(8) by (simp add: chk_add_def)
  have len: "wal_batch_encoded_len ?b = Ok (word_of_nat (32 + 16411 * length ws))"
  proof -
    have "wal_frame_ok ?b" using rs(3) unfolding image_batch_def by blast
    from encoded_len_ok [OF this] show ?thesis unfolding rs(4) by simp
  qed
  obtain n1 out where n1: "append_wal_batch_sync en ?b n = Ok (n1, out)" "node_ok n1"
      "out = Committed ?e \<and> node_view n1 = redo rs (node_view n) \<and> ?b \<in> set (dir_log (sn_dir n1)) \<and> sn_durable n1 = ?e
         \<and> sn_requests n1 = note_request ?b (sn_requests n)
       \<or> (\<exists>msg. out = Refused (Io WouldBlock msg)) \<and> node_view n1 = node_view n \<and> sn_durable n1 = sn_durable n \<and> sn_requests n1 = sn_requests n
         \<and> wal_usage_exceeds_limits (sn_dir n) (sn_cfg n) (word_of_nat (32 + 16411 * length ws)) \<noteq> Ok None"
    using append_wal_batch_sync_ok [OF assms(1) rs(3) assms(2-4)] len by auto
  define n2 where "n2 = (if rid \<noteq> 0 then n1\<lparr>sn_requests := om_insert rid ?e (sn_requests n1)\<rparr> else n1)"
  have ok2: "node_ok n2" using n1(2) by (simp add: n2_def node_ok_def)
  have run: "append_txn_batch_with_lsn_sync en rid (sn_durable n) ?e ws n = Ok (case out of Committed l \<Rightarrow> n2 | _ \<Rightarrow> n1, out)"
    using assms(6,9) rs(1) add n1(1,3) by (auto simp: append_txn_batch_with_lsn_sync_def n2_def)
  show ?thesis
  proof (cases "out = Committed ?e")
    case True
    have "\<forall>en' s e ws'. append_txn_batch_with_lsn_sync en' rid s e ws' n2 = Ok (n2, out)" if "rid \<noteq> 0"
      using that True by (simp add: append_txn_batch_with_lsn_sync_def n2_def om_lookup_insert)
    moreover have "node_view n2 = apply_writes ws (node_view n)" "sn_durable n2 = ?e" "?b \<in> set (dir_log (sn_dir n2))"
      using n1(3) True redo_writes [OF rs(2)] by (auto simp: n2_def)
    moreover have "\<exists>b \<in> set (dir_log (sn_dir n2)). wb_request_id b = rid \<and> map (\<lambda>r. (wr_page_id r, wr_value r)) (wb_records b) = ws"
      using rs(2) by (intro bexI [OF _ \<open>?b \<in> set (dir_log (sn_dir n2))\<close>]) simp
    moreover have "append_txn_batch_with_lsn_sync en rid (sn_durable n) ?e ws n = Ok (n2, out)" using run True by simp
    ultimately show ?thesis using True ok2 by (intro exI [of _ n2] exI [of _ out] conjI disjI1) simp_all
  next
    case False
    then show ?thesis using run n1(2,3) by (intro exI [of _ n1] exI [of _ out]) auto
  qed
qed

lemma default_config_valid: "validate_config default_maintenance_config = Ok ()"
  by (simp add: validate_config_def default_maintenance_config_def default_checkpoint_config_def)

lemma fresh_node:
  "\<exists>n. node_open quiet_env default_maintenance_config empty_disk = Ok n \<and> node_ok n \<and> node_view n = (\<lambda>_. None)
    \<and> sn_durable n = 1 \<and> sn_requests n = [] \<and> ww_file_id (sn_writer n) = 1 \<and> ps_file (rp_store (sn_replay n)) = []
    \<and> ps_state_file (rp_store (sn_replay n)) = None \<and> sn_dir n = [(1, [])] \<and> sn_cfg n = default_maintenance_config
    \<and> pool_len (rp_store (sn_replay n)) = 0"
proof -
  have view: "ps_view (ps_open [] None 0) = (\<lambda>_. None)" by (simp add: ps_view_def ps_open_def file_page_def nonzero_def fun_eq_iff)
  have rs: "replay_wal_segments_to_store 0 [] rv = Ok (rv, None)" for rv
    by (simp add: replay_wal_segments_to_store_def list_wal_segments_keys)
  have "page_ok 0" by (simp add: page_ok_def)
  then have ix: "build_page_index 0 (ps_open [] None 0) = Ok ({}, (ps_open [] None 0)\<lparr>ps_misses := 1\<rparr>)"
    by (simp add: build_page_index_def ps_open_def ps_get_def ps_get_with_lsn_def pf_read_page_def)
  have wo: "writer_open [] = Ok (\<lparr>ww_file_id = 1, ww_size = 0\<rparr>, [(1, [])])"
    by (simp add: writer_open_def list_wal_segments_keys create_wal_segment_def)
  have ok: "ps_wf ((ps_open [] None 0)\<lparr>ps_misses := 1\<rparr>)" using ps_open_wf [OF file_ok_simple(1), of None 0] by (simp add: ps_wf_def)
  have v1: "ps_view ((ps_open [] None 0)\<lparr>ps_misses := 1\<rparr>) = (\<lambda>_. None)" by (simp add: ps_view_def ps_open_def file_page_def nonzero_def fun_eq_iff)
  have c0: "ps_checkpoint_lsn (ps_open [] None 0) = 0" "rp_store (replay_new ps l w i) = ps" for ps l w i
    by (simp_all add: ps_open_def read_checkpoint_state_def replay_new_def)
  have m0: "recovered_mark 0 None = 0" by (simp add: recovered_mark_def read_wal_state_def)
  let ?n = "\<lparr>sn_replay = replay_new ((ps_open [] None 0)\<lparr>ps_misses := 1\<rparr>) 0 None {}, sn_buffers = [], sn_gc_counter = 0, sn_mvcc = [],
     sn_requests = [], sn_active = active_reads_new, sn_durable = 1, sn_writer = \<lparr>ww_file_id = 1, ww_size = 0\<rparr>, sn_dir = [(1, [])],
     sn_cfg = default_maintenance_config, sn_metrics = no_metrics\<rparr>"
  have "node_open quiet_env default_maintenance_config empty_disk = Ok ?n"
    by (simp add: node_open_def default_config_valid quiet_env_def empty_disk_def Let_def rs ix wo c0 m0 sat_add_def)
       (simp add: replay_new_def m0)
  moreover have "node_ok ?n"
    using ok m0 by (simp add: node_ok_def replay_new_def replay_wf_def buffers_idle_def writer_ok_def dir_clean_def om_wf_def ascending_def)
  moreover have "node_view ?n = (\<lambda>_. None)" using v1 by (simp add: c0)
  moreover have "ps_file (rp_store (sn_replay ?n)) = []" "ps_state_file (rp_store (sn_replay ?n)) = None" "pool_len (rp_store (sn_replay ?n)) = 0" by (simp_all add: c0) (simp_all add: ps_open_def)
  ultimately show ?thesis by (intro exI [of _ ?n]) simp
qed

lemma fresh_usage: "wal_usage_exceeds_limits [(1, [])] default_maintenance_config (word_of_nat (32 + 16411 * 1)) = Ok None"
  by (simp add: wal_usage_exceeds_limits_def wal_usage_def list_wal_segments_keys om_wf_def open_segment_def om_lookup_def
      sat_add_def default_maintenance_config_def)

theorem append_txn_batch_commits_witness:
  "\<exists>n n'. node_open quiet_env default_maintenance_config empty_disk = Ok n
    \<and> append_txn_batch_with_lsn_sync quiet_env 5 1 2 one_page n = Ok (n', Committed 2)
    \<and> node_view n' 7 = Some (replicate PAGE_SIZE 1) \<and> sn_durable n' = 2"
proof -
  obtain n where n: "node_open quiet_env default_maintenance_config empty_disk = Ok n" "node_ok n" "sn_durable n = 1" "sn_requests n = []"
      "ww_file_id (sn_writer n) = 1" "sn_dir n = [(1, [])]" "sn_cfg n = default_maintenance_config"
    using fresh_node by blast
  have p: "page_ok 7" by (simp add: page_ok_def)
  have e: "sn_durable n + word_of_nat (length one_page) = 2" using n(3) by (simp add: one_page_def)
  show ?thesis
    using append_txn_batch_commits [OF n(2), of quiet_env one_page 5] n p e fresh_usage
    by (auto simp: quiet_env_def one_page_def apply_writes_def)
qed

text \<open>C5: Recovery redoes exactly the page records past its starting point: opening a directory whose log is
  readable and in LSN order gives the pages of the page file updated, in order, by the images with an LSN
  above the larger of the \<open>wal_state\<close> and the checkpoint LSN; it also rebuilds the request index and the
  version store from the whole log and continues after the last LSN applied.\<close>

theorem node_open_redoes_log:
  assumes "validate_config cfg = Ok ()" and "file_ok (dk_pages dk)" and "dir_usable (dk_dir dk)"
    and "list_all redoable (log_records (dk_dir dk))" and "ascending (log_records (dk_dir dk))"
    and "read_checkpoint_state (dk_checkpoint_state dk) = Ok c" and "read_wal_state (dk_wal_state dk) = Ok w"
  shows "\<exists>n. node_open en cfg dk = Ok n
    \<and> node_view n = redo (to_apply (max w c) (log_records (dk_dir dk))) (\<lambda>p. nonzero (file_page (dk_pages dk) p))
    \<and> rp_last_applied (sn_replay n) = last_lsn (max w c) (to_apply (max w c) (log_records (dk_dir dk)))
    \<and> dir_log (sn_dir n) = dir_log (dk_dir dk) \<and> sn_requests n = fold note_request (dir_log (dk_dir dk)) []
    \<and> sn_mvcc n = fold (\<lambda>b m. apply_txn_batch_to_mvcc m b) (dir_log (dk_dir dk)) []"
proof -
  have "ps_view (ps_open (dk_pages dk) (dk_checkpoint_state dk) (en_now en)) = (\<lambda>p. nonzero (file_page (dk_pages dk) p))"
    by (rule view_of_open)
  moreover have "max w c = max (recovered_mark 0 (dk_wal_state dk)) (ps_checkpoint_lsn (ps_open (dk_pages dk) (dk_checkpoint_state dk) (en_now en)))"
    using assms(6,7) by (simp add: recovered_mark_def ps_open_def)
  ultimately show ?thesis using node_open_ok [OF assms(1-5), of "max w c" en] by auto
qed

lemma image_disk_log:
  "dir_usable (dk_dir image_disk) \<and> log_records (dk_dir image_disk) =
     [\<lparr>wr_lsn = 1, wr_op = WAL_OP_PAGE_IMAGE, wr_page_id = 7, wr_slot_id = 0, wr_key = [], wr_value = replicate PAGE_SIZE 1\<rparr>]"
proof -
  let ?b = "\<lparr>wb_request_id = 9, wb_start_lsn = 1, wb_end_lsn = 2, wb_records =
        [\<lparr>wr_lsn = 1, wr_op = WAL_OP_PAGE_IMAGE, wr_page_id = 7, wr_slot_id = 0, wr_key = [], wr_value = replicate PAGE_SIZE 1\<rparr>]\<rparr> :: wal_batch"
  have ok: "wal_frame_ok ?b" by (simp add: wal_frame_ok_def length_encode_body)
  have "segment_clean (wal_frame ?b)" using segment_append(1) [OF segment_clean_Nil ok] by simp
  moreover have "fst (read_log read_wal_batch (wal_frame ?b)) = [?b]" using segment_append(2) [OF segment_clean_Nil ok] by simp
  ultimately show ?thesis
    by (simp add: image_disk_def dir_usable_def dir_clean_def om_wf_def) (simp add: wal_frame_def length_encode_body)
qed

theorem node_open_redoes_log_witness:
  "\<exists>n. node_open quiet_env default_maintenance_config image_disk = Ok n \<and> node_view n 7 = Some (replicate PAGE_SIZE 1)"
proof -
  have files: "dk_pages image_disk = []" "dk_checkpoint_state image_disk = None" "dk_wal_state image_disk = None"
    by (simp_all add: image_disk_def)
  have "page_ok 7" by (simp add: page_ok_def)
  then show ?thesis
    using node_open_redoes_log [OF default_config_valid, of image_disk 0 0 quiet_env] image_disk_log file_ok_simple(1)
    by (auto simp: files read_checkpoint_state_def read_wal_state_def redoable_def image_record_def ascending_def to_apply_def is_txn_op_def)
qed

text \<open>Reopening after a crash: \<open>wal_state\<close> names the last applied LSN, so nothing of the log is redone.\<close>

lemma reopen_view:
  assumes "node_ok n" and "validate_config cfg = Ok ()"
  shows "\<exists>n'. node_open en cfg (node_crash n) = Ok n' \<and> node_view n' = (\<lambda>p. nonzero (file_page (ps_file (rp_store (sn_replay n))) p))"
proof -
  let ?dk = "node_crash n" and ?ps = "rp_store (sn_replay n)"
  have dk: "dk_pages ?dk = ps_file ?ps" "dk_dir ?dk = sn_dir n" "dk_wal_state ?dk = rp_wal_state (sn_replay n)"
    by (simp_all add: node_crash_def Let_def)
  have f: "file_ok (dk_pages ?dk)" using assms(1) by (simp add: dk node_ok_def replay_wf_def ps_wf_def)
  have dir: "dir_usable (dk_dir ?dk)" using assms(1) by (auto simp: dk node_ok_def writer_ok_def dir_usable_def)
  define rs where "rs = log_records (sn_dir n)"
  have rs: "list_all redoable rs" "ascending rs" "\<forall>r \<in> set rs. wr_lsn r \<le> rp_last_applied (sn_replay n)"
      "recovered_mark 0 (rp_wal_state (sn_replay n)) = rp_last_applied (sn_replay n)"
    using assms(1) unfolding node_ok_def rs_def [symmetric] by simp_all
  have log: "list_all redoable (log_records (dk_dir ?dk))" "ascending (log_records (dk_dir ?dk))"
    using rs(1,2) by (simp_all only: dk rs_def)
  define L where "L = max (recovered_mark 0 (dk_wal_state ?dk)) (ps_checkpoint_lsn (ps_open (dk_pages ?dk) (dk_checkpoint_state ?dk) (en_now en)))"
  have "rp_last_applied (sn_replay n) \<le> L" using rs(4) by (simp add: L_def dk le_max_iff_disj)
  then have "\<not> L < wr_lsn r" if "r \<in> set rs" for r using rs(3) that by (meson leD order.trans)
  then have "to_apply L (log_records (dk_dir ?dk)) = []" by (simp only: dk rs_def [symmetric]) (simp add: to_apply_def filter_empty_conv)
  moreover have "ps_view (ps_open (dk_pages ?dk) (dk_checkpoint_state ?dk) (en_now en)) = (\<lambda>p. nonzero (file_page (ps_file ?ps) p))"
    by (simp only: dk view_of_open)
  ultimately show ?thesis using node_open_ok [OF assms(2) f dir log L_def] by (metis redo_simps(1))
qed

text \<open>C30: A checkpoint makes recovery complete: after a successful checkpoint of a node in a regular state, a crash
  and a restart give back every page, up to pages of zero bytes reading as absent.\<close>

theorem restart_after_checkpoint:
  assumes "node_ok n" and "en_sync en" and "validate_config cfg = Ok ()"
  shows "\<exists>n1 n2. node_checkpoint en n = Ok (n1, None) \<and> node_ok n1 \<and> node_open en' cfg (node_crash n1) = Ok n2
    \<and> node_view n2 = (\<lambda>p. Option.bind (node_view n p) nonzero)"
proof -
  have "replay_wf (sn_replay n)" using assms(1) by (simp add: node_ok_def)
  then obtain n1 where n1: "node_checkpoint en n = Ok (n1, None)" "quiet_step n n1" "all_clean (rp_store (sn_replay n1))"
    using node_checkpoint_quiet [OF _ assms(2)] by blast
  have ok: "node_ok n1" by (rule quiet_step_ok(1) [OF n1(2) assms(1)])
  then have wf: "ps_wf (rp_store (sn_replay n1))" by (simp add: node_ok_def replay_wf_def)
  obtain n2 where "node_open en' cfg (node_crash n1) = Ok n2" "node_view n2 = (\<lambda>p. nonzero (file_page (ps_file (rp_store (sn_replay n1))) p))"
    using reopen_view [OF ok assms(3)] by blast
  moreover have "nonzero (file_page (ps_file (rp_store (sn_replay n1))) p) = Option.bind (node_view n p) nonzero" for p
    using crash_view [OF wf n1(3), of 0 p] n1(2) by (simp add: ps_crash_def view_of_open quiet_step_def)
  ultimately show ?thesis using n1(1) ok by auto
qed

theorem restart_after_checkpoint_witness:
  "\<exists>n n1 n2. node_open quiet_env default_maintenance_config empty_disk = Ok n \<and> node_checkpoint quiet_env n = Ok (n1, None)
    \<and> node_open quiet_env default_maintenance_config (node_crash n1) = Ok n2 \<and> node_view n2 = (\<lambda>p. None)"
proof -
  obtain n where "node_open quiet_env default_maintenance_config empty_disk = Ok n" "node_ok n" "node_view n = (\<lambda>_. None)"
    using fresh_node by blast
  then show ?thesis
    using restart_after_checkpoint [of n quiet_env default_maintenance_config quiet_env] default_config_valid
    by (fastforce simp: quiet_env_def)
qed




lemma replay_batch_mvcc:
  assumes "replay_batch en b n = Ok n'"
  shows "sn_active n' = sn_active n \<and> sn_durable n' = sn_durable n
    \<and> (sn_mvcc n' = apply_txn_batch_to_mvcc (sn_mvcc n) b
       \<or> sn_mvcc n' = fst (gc_mvcc_versions (apply_txn_batch_to_mvcc (sn_mvcc n) b) (gc_watermark (sn_active n) (sn_durable n))))"
proof -
  let ?n1 = "n\<lparr>sn_requests := note_request b (sn_requests n), sn_mvcc := apply_txn_batch_to_mvcc (sn_mvcc n) b\<rparr>"
  obtain rp bufs where m: "replay_maintenance en (?n1\<lparr>sn_replay := rp, sn_buffers := bufs\<rparr>) = Ok n'"
    using assms by (auto simp: replay_batch_def Let_def res_bind_Ok_iff split: prod.splits)
  then show ?thesis
    by (auto simp: replay_maintenance_def Let_def res_bind_Ok_iff replay_gc_def split: prod.splits if_splits)
qed

text \<open>C14: Open snapshots are stable: while a read handle is open, replaying any later batch, with the garbage
  collection it triggers, changes the result of no read through the handle.\<close>

theorem open_snapshot_stable:
  assumes "ar_wf (sn_active n)" and "mh_guard h = Some i" and "om_lookup (ar_map (sn_active n)) i = Some (mh_read_lsn h)"
    and "mh_read_lsn h < wb_end_lsn b" and "replay_batch en b n = Ok n'"
  shows "snd (node_mvcc_get now (h, n') k) = snd (node_mvcc_get now (h, n) k)"
proof -
  let ?l = "mh_read_lsn h"
  have w: "gc_watermark (sn_active n) (sn_durable n) \<le> ?l" by (rule gc_watermark_le_read [OF assms(1,3)])
  have "mvcc_get_at (apply_txn_batch_to_mvcc (sn_mvcc n) b) k ?l = mvcc_get_at (sn_mvcc n) k ?l"
    using assms(4) by (simp add: apply_txn_batch_to_mvcc_def mvcc_get_apply_records not_le)
  then have "mvcc_get_at (sn_mvcc n') k ?l = mvcc_get_at (sn_mvcc n) k ?l"
    using replay_batch_mvcc [OF assms(5)] mvcc_get_gc [OF w] by metis
  moreover have "sn_active n' = sn_active n" using replay_batch_mvcc [OF assms(5)] by simp
  ultimately show ?thesis by (simp add: node_mvcc_get_def mh_is_active_def assms(2))
qed

theorem open_snapshot_stable_witness:
  "\<exists>n h n1 n'. node_open quiet_env default_maintenance_config empty_disk = Ok n
    \<and> begin_mvcc_ro_with_timeout 0 None n = (h, n1) \<and> replay_batch quiet_env sample_batch n1 = Ok n'
    \<and> snd (node_mvcc_get 0 (h, n') [1, 2]) = snd (node_mvcc_get 0 (h, n1) [1, 2])"
proof -
  obtain n where n: "node_open quiet_env default_maintenance_config empty_disk = Ok n" "node_ok n" "sn_durable n = 1"
    using fresh_node by auto
  have act: "sn_active n = active_reads_new" using n(1)
    by (auto simp: node_open_def Let_def res_bind_Ok_iff split: prod.splits option.splits)
  let ?h = "\<lparr>mh_read_lsn = 1, mh_started_at = 0, mh_timeout = None, mh_guard = Some 1\<rparr>"
  let ?n1 = "n\<lparr>sn_active := snd (register 1 active_reads_new)\<rparr>"
  have bg: "begin_mvcc_ro_with_timeout 0 None n = (?h, ?n1)"
    using n(3) act by (simp add: begin_mvcc_ro_with_timeout_def register_def active_reads_new_def Let_def)
  have wf: "ar_wf (sn_active ?n1)" using ar_wf_register [OF ar_wf_new, of 1] by (simp add: active_reads_new_def)
  have look: "om_lookup (ar_map (sn_active ?n1)) 1 = Some 1"
    by (simp add: register_def active_reads_new_def Let_def om_lookup_def)
  have "rp_last_applied (sn_replay ?n1) = 0" using n(2,3) by (simp add: node_ok_def)
  then have rr: "replay_records (en_now quiet_env) (rp_last_applied (sn_replay n)) (wb_records sample_batch) (sn_replay n, sn_buffers n)
      = Ok (sn_replay n, sn_buffers n)"
    by (simp add: sample_batch_def)
  let ?n2 = "?n1\<lparr>sn_requests := note_request sample_batch (sn_requests n), sn_mvcc := apply_txn_batch_to_mvcc (sn_mvcc n) sample_batch,
    sn_replay := sn_replay n, sn_buffers := sn_buffers n\<rparr>"
  have "replay_wf (sn_replay ?n2)" "en_sync quiet_env" using n(2) by (auto simp: node_ok_def quiet_env_def)
  then obtain n' where "replay_maintenance quiet_env ?n2 = Ok n'" using maintenance_quiet by blast
  then have r: "replay_batch quiet_env sample_batch ?n1 = Ok n'" using rr by (simp add: replay_batch_def Let_def)
  have "snd (node_mvcc_get 0 (?h, n') [1, 2]) = snd (node_mvcc_get 0 (?h, ?n1) [1, 2])"
    by (rule open_snapshot_stable [OF wf _ _ _ r, of _ 1]) (use look in \<open>simp_all add: sample_batch_def\<close>)
  then show ?thesis using n(1) bg r by blast
qed

lemma consecutive_nth:
  "consecutive l rs \<longleftrightarrow> unat l + length rs < 2 ^ 64 \<and> (\<forall>i < length rs. unat (wr_lsn (rs ! i)) = unat l + 1 + i)"
proof (induction rs arbitrary: l)
  case Nil
  show ?case using unsigned_less [where 'a = nat, of l] by simp
next
  case (Cons r rs)
  have all: "(\<forall>i < length (r # rs). unat (wr_lsn ((r # rs) ! i)) = unat l + 1 + i) \<longleftrightarrow>
      unat (wr_lsn r) = unat l + 1 \<and> (\<forall>i < length rs. unat (wr_lsn (rs ! i)) = unat l + 1 + 1 + i)"
    by (auto simp: nth_Cons split: nat.splits)
  show ?case
  proof (cases "l = - 1")
    case True
    then show ?thesis by (simp add: unat_minus_one)
  next
    case False
    note un = unat_plus_one [OF this]
    have "wr_lsn r = l + 1 \<longleftrightarrow> unat (wr_lsn r) = unat l + 1" using un by (metis word_unat_eq_iff)
    then show ?thesis using False Cons [of "l + 1"] all un by auto
  qed
qed

lemma check_lsns_errors: "check_lsns start i rs = Ok () \<or> check_lsns start i rs = Panic \<or> (\<exists>msg. check_lsns start i rs = invalid_input msg)"
proof (induction rs arbitrary: i)
  case (Cons r rs)
  then show ?case by (cases "chk_add start (word_of_nat i)") (auto simp: chk_add_def split: if_splits)
qed simp

lemma check_lsns_no_panic:
  "unat start + i + length rs < 2 ^ 64 \<Longrightarrow> no_panic (check_lsns start i rs)"
proof (induction rs arbitrary: i)
  case (Cons r rs)
  have "unat (word_of_nat i :: u64) = i" using Cons.prems by (intro unat_word_of_nat_small) simp
  then show ?case using Cons by (simp add: chk_add_def)
qed simp

text \<open>C29: Admission is exact: a batch is admitted if and only if it starts at the durable LSN, its range has one
  LSN per record, and the records are numbered from the start without a gap; every other batch is refused
  as invalid input, and the check never panics.\<close>

theorem admission_exact:
  assumes "durable \<noteq> 0"
  shows "(validate_incoming_wal_batch durable b = Ok () \<longleftrightarrow> wb_start_lsn b = durable
      \<and> unat (wb_end_lsn b) = unat durable + length (wb_records b)
      \<and> (\<forall>i < length (wb_records b). unat (wr_lsn (wb_records b ! i)) = unat durable + i))
    \<and> (validate_incoming_wal_batch durable b \<noteq> Ok () \<longrightarrow> (\<exists>msg. validate_incoming_wal_batch durable b = invalid_input msg))"
proof (cases "wb_start_lsn b = durable \<and> \<not> wb_end_lsn b < durable \<and> unat (wb_end_lsn b) = unat durable + length (wb_records b)")
  case True
  let ?rs = "wb_records b"
  have pos: "1 \<le> unat durable" using assms by (simp add: Suc_le_eq unat_gt_0)
  have sm: "unat durable + 0 + length ?rs < 2 ^ 64" using True unsigned_less [where 'a = nat, of "wb_end_lsn b"] by simp
  have "validate_incoming_wal_batch durable b = check_lsns durable 0 ?rs"
    using True by (simp add: validate_incoming_wal_batch_def Let_def unat_sat_sub)
  moreover have "check_lsns durable 0 ?rs = Ok () \<longleftrightarrow> consecutive (durable - 1) ?rs" using check_lsns_iff [OF sm] pos by simp
  moreover have "durable - 1 \<noteq> - 1" using assms by simp
  then have "unat (durable - 1) + 1 = unat durable" using unat_plus_one [of "durable - 1"] by simp
  moreover have "check_lsns durable 0 ?rs \<noteq> Panic" using check_lsns_no_panic [OF sm] by (simp add: no_panic_def)
  ultimately show ?thesis using True consecutive_nth [of "durable - 1" ?rs] check_lsns_errors [of durable 0 ?rs] sm by auto
next
  case False
  then have "\<exists>msg. validate_incoming_wal_batch durable b = invalid_input msg"
    by (auto simp: validate_incoming_wal_batch_def Let_def unat_sat_sub word_less_nat_alt)
  then show ?thesis using False by (auto simp: invalid_input_def word_less_nat_alt)
qed

theorem admission_exact_witness:
  "validate_incoming_wal_batch 5 \<lparr>wb_request_id = 0, wb_start_lsn = 5, wb_end_lsn = 6, wb_records =
     [\<lparr>wr_lsn = 5, wr_op = WAL_OP_PAGE_IMAGE, wr_page_id = 0, wr_slot_id = 0, wr_key = [], wr_value = []\<rparr>]\<rparr> = Ok ()"
  using admission_exact [of 5 "\<lparr>wb_request_id = 0, wb_start_lsn = 5, wb_end_lsn = 6, wb_records =
     [\<lparr>wr_lsn = 5, wr_op = WAL_OP_PAGE_IMAGE, wr_page_id = 0, wr_slot_id = 0, wr_key = [], wr_value = []\<rparr>]\<rparr>"] by simp

text \<open>C39: A batch of logical transaction records stalls page replay: the replay position is moved by applied page
  records only, so after such a batch every later page batch looks like it has a gap before it, and neither
  its pages nor the applied LSN change; a caller waiting for the applied LSN would wait for ever.\<close>

theorem txn_batch_stalls_replay:
  assumes "list_all (\<lambda>r. is_txn_op (wr_op r)) rs" and "rs \<noteq> []" and "consecutive (rp_last_applied rp) (rs @ rs')" and "rs' \<noteq> []"
  shows "replay_records now (rp_last_applied rp) rs (rp, bufs) = Ok (rp, bufs)
    \<and> replay_records now (rp_last_applied rp) rs' (rp, bufs) = Ok (rp, bufs) \<and> rp_last_applied rp < wr_lsn (hd rs')"
proof -
  let ?l = "rp_last_applied rp"
  have split: "consecutive l (xs @ ys) \<Longrightarrow> consecutive l xs \<and> consecutive (last_lsn l xs) ys" for l xs ys
    by (induction xs arbitrary: l) (auto simp: last_lsn_def)
  have c: "consecutive ?l rs" "consecutive (last_lsn ?l rs) rs'" using split assms(3) by blast+
  obtain r rs2 where rs': "rs' = r # rs2" using assms(4) by (cases rs') auto
  have "unat (wr_lsn r) = unat (last_lsn ?l rs) + 1" using c(2) unat_plus_one [of "last_lsn ?l rs"] by (simp add: rs')
  moreover have "unat (last_lsn ?l rs) = unat ?l + length rs" using consecutive_last [OF c(1)] by simp
  moreover have "length rs \<ge> 1" using assms(2) by (simp add: Suc_le_eq)
  ultimately have far: "unat (wr_lsn r) \<ge> unat ?l + 2" by simp
  then have lt: "\<not> wr_lsn r \<le> ?l" by (simp add: word_le_nat_alt)
  have "wr_lsn r \<noteq> ?l + 1"
  proof
    assume "wr_lsn r = ?l + 1"
    then have "unat (wr_lsn r) \<le> unat ?l + 1" using unat_plus_one [of ?l] by (cases "?l = - 1") auto
    then show False using far by simp
  qed
  then have "replay_records now ?l rs' (rp, bufs) = Ok (rp, bufs)" using lt by (simp add: rs')
  moreover have "?l < wr_lsn (hd rs')" using lt by (simp add: rs' not_le)
  ultimately show ?thesis using replay_records_txn [OF assms(1) c(1), of now "(rp, bufs)"] by blast
qed

theorem txn_batch_stalls_replay_witness:
  "\<exists>n. node_open quiet_env default_maintenance_config empty_disk = Ok n
    \<and> replay_records 0 0 [\<lparr>wr_lsn = 2, wr_op = WAL_OP_PAGE_IMAGE, wr_page_id = 7, wr_slot_id = 0, wr_key = [], wr_value = replicate PAGE_SIZE 1\<rparr>]
        (sn_replay n, []) = Ok (sn_replay n, [])"
proof -
  obtain n where n: "node_open quiet_env default_maintenance_config empty_disk = Ok n" "node_ok n" "sn_durable n = 1"
    using fresh_node by auto
  have l: "rp_last_applied (sn_replay n) = 0" using n(2,3) by (simp add: node_ok_def)
  show ?thesis
    using txn_batch_stalls_replay [of "[\<lparr>wr_lsn = 1, wr_op = WAL_OP_TXN_COMMIT, wr_page_id = 0, wr_slot_id = 0, wr_key = [], wr_value = []\<rparr>]" "sn_replay n"
        "[\<lparr>wr_lsn = 2, wr_op = WAL_OP_PAGE_IMAGE, wr_page_id = 7, wr_slot_id = 0, wr_key = [], wr_value = replicate PAGE_SIZE 1\<rparr>]" 0 "[]"] n(1) l
    by (simp add: is_txn_op_def)
qed

end
