(* ===== verification/Txn_Codec.thy ===== *)
theory Txn_Codec
  imports Frames Ordered_Map "HOL-Library.Multiset"
begin

text \<open>
  The formats of the transactional key-value store (\<open>txn_kv.rs\<close>, \<open>txn_kv/codec.rs\<close>, \<open>txn_kv/error.rs\<close>):
  the payload of one committed write set, the checksummed frames of its log, the recovery loop over the log,
  and the snapshot file.

  Two things are parameters. \<open>crc\<close> is \<open>crc32fast::hash\<close>; nothing is assumed of it, since recovery only
  compares it with itself. \<open>it\<close> is the iteration order of the \<open>HashMap\<close> that holds a write set: it turns
  the map, kept here in key order, into the list the loop visits, and a fact that depends on it assumes that
  the list has the same entries (\<open>hash_order\<close>). The recovery loop starts a new frame at least twelve bytes
  further on, which is its termination proof.

  The lemmas: a payload decodes to the operations that were encoded; recovery of a log that ends in a torn
  frame applies exactly the frames before it and reports their length; a snapshot loads as the latest value
  of every live key.
\<close>

section \<open>Errors\<close>

datatype txn_error =
    TIo io_kind string
  | TInvalidKeySize nat nat
  | TInvalidValueSize nat nat
  | WriteWriteConflict
  | CorruptWal string
  | QuorumNotMet nat nat
  | InvalidQuorum nat nat
  | TTxnTimeout

type_synonym 'a tres = "(txn_error, 'a) result"

fun txn_category :: "txn_error \<Rightarrow> error_category" where
  "txn_category (TInvalidKeySize _ _) = InvalidInput"
| "txn_category (TInvalidValueSize _ _) = InvalidInput"
| "txn_category (InvalidQuorum _ _) = InvalidInput"
| "txn_category WriteWriteConflict = Conflict"
| "txn_category TTxnTimeout = Timeout"
| "txn_category (QuorumNotMet _ _) = Unavailable"
| "txn_category (CorruptWal _) = Internal"
| "txn_category (TIo kind _) = io_category kind"

definition txn_is_retryable :: "txn_error \<Rightarrow> bool" where
  "txn_is_retryable e = (txn_category e \<in> {Timeout, Backpressure, Unavailable, Conflict})"

section \<open>Payloads and frames\<close>

abbreviation (input) TXN_WAL_MAGIC :: u32 where "TXN_WAL_MAGIC \<equiv> 0x534B5657"
abbreviation (input) WAL_HEADER_LEN :: nat where "WAL_HEADER_LEN \<equiv> 12"
abbreviation (input) SNAPSHOT_MAGIC :: u32 where "SNAPSHOT_MAGIC \<equiv> 0x53534E50"
abbreviation (input) SNAPSHOT_VERSION :: u32 where "SNAPSHOT_VERSION \<equiv> 1"

record version =
  ve_commit_ts :: u64
  ve_value :: "bytes option"

type_synonym vstore = "(bytes, version list) omap"
type_synonym wops = "(bytes \<times> bytes option) list"

fun encode_ops :: "wops \<Rightarrow> bytes tres" where
  "encode_ops [] = Ok []"
| "encode_ops ((k, Some v) # ws) =
    (if length v > VALUE_SIZE then Err (TInvalidValueSize (length v) VALUE_SIZE)
     else res_map (\<lambda>bs. k @ 1 # to_le 4 (word_of_nat (length v) :: u32) @ v @ bs) (encode_ops ws))"
| "encode_ops ((k, None) # ws) = res_map (\<lambda>bs. k @ 0 # bs) (encode_ops ws)"

definition encode_payload :: "(wops \<Rightarrow> wops) \<Rightarrow> u64 \<Rightarrow> wops \<Rightarrow> bytes tres" where
  "encode_payload it commit_ts writes =
    (if length writes > 2 ^ 32 - 1 then Err (CorruptWal ''too many ops'')
     else res_map (\<lambda>bs. to_le 8 commit_ts @ to_le 4 (word_of_nat (length writes) :: u32) @ bs) (encode_ops (it writes)))"

fun decode_ops :: "bytes \<Rightarrow> nat \<Rightarrow> nat \<Rightarrow> (wops \<times> nat) tres" where
  "decode_ops payload c 0 = Ok ([], c)"
| "decode_ops payload c (Suc n) =
    (if c + KEY_SIZE + 1 > length payload then Err (CorruptWal ''payload truncated'')
     else res_bind (get_slice payload c (c + KEY_SIZE)) (\<lambda>k.
       res_bind (read_u8 payload (c + KEY_SIZE)) (\<lambda>op8.
         let c1 = c + KEY_SIZE + 1 in
         if op8 = 0 then res_map (\<lambda>(ops, e). ((k, None) # ops, e)) (decode_ops payload c1 n)
         else if op8 = 1 then
           (if c1 + 4 > length payload then Err (CorruptWal ''payload truncated'')
            else res_bind (read_u32 payload c1) (\<lambda>l.
              if unat l > VALUE_SIZE then Err (TInvalidValueSize (unat l) VALUE_SIZE)
              else if c1 + 4 + unat l > length payload then Err (CorruptWal ''payload truncated'')
              else res_bind (get_slice payload (c1 + 4) (c1 + 4 + unat l)) (\<lambda>v.
                res_map (\<lambda>(ops, e). ((k, Some v) # ops, e)) (decode_ops payload (c1 + 4 + unat l) n))))
         else Err (CorruptWal ''unknown op''))))"

definition decode_payload :: "bytes \<Rightarrow> (u64 \<times> wops) tres" where
  "decode_payload payload =
    (if length payload < 12 then Err (CorruptWal ''payload too short'')
     else res_bind (read_u64 payload 0) (\<lambda>commit_ts. res_bind (read_u32 payload 8) (\<lambda>num_ops.
       res_bind (decode_ops payload 12 (unat num_ops)) (\<lambda>(ops, c).
         if c \<noteq> length payload then Err (CorruptWal ''payload length mismatch'') else Ok (commit_ts, ops)))))"

text \<open>The frame that \<open>commit\<close> builds around a payload; the length is cast to 32 bits.\<close>

definition txn_record :: "(bytes \<Rightarrow> u32) \<Rightarrow> bytes \<Rightarrow> bytes" where
  "txn_record crc payload =
    to_le 4 TXN_WAL_MAGIC @ to_le 4 (word_of_nat (length payload) :: u32) @ to_le 4 (crc payload) @ payload"

definition commit_record :: "(bytes \<Rightarrow> u32) \<Rightarrow> (wops \<Rightarrow> wops) \<Rightarrow> u64 \<times> wops \<Rightarrow> bytes tres" where
  "commit_record crc it = (\<lambda>(commit_ts, writes). res_map (txn_record crc) (encode_payload it commit_ts writes))"

text \<open>One round of the recovery loop: the frame at an offset with the offset behind it, or \<open>None\<close> where
  the loop ends.\<close>

definition frame_at :: "(bytes \<Rightarrow> u32) \<Rightarrow> bytes \<Rightarrow> nat \<Rightarrow> (u64 \<times> wops \<times> nat) option tres" where
  "frame_at crc data offset =
    (if \<not> offset + WAL_HEADER_LEN \<le> length data then Ok None
     else res_bind (read_u32 data offset) (\<lambda>magic. if magic \<noteq> TXN_WAL_MAGIC then Ok None
     else res_bind (read_u32 data (offset + 4)) (\<lambda>l. res_bind (read_u32 data (offset + 8)) (\<lambda>c.
       let payload_start = offset + WAL_HEADER_LEN; payload_end = payload_start + unat l in
       if payload_end > length data then Ok None
       else res_bind (get_slice data payload_start payload_end) (\<lambda>payload.
         if crc payload \<noteq> c then Ok None
         else case decode_payload payload of
           Ok (commit_ts, ops) \<Rightarrow> Ok (Some (commit_ts, ops, payload_end))
         | Err _ \<Rightarrow> Ok None
         | Panic \<Rightarrow> Panic)))))"

definition push_op :: "u64 \<Rightarrow> bytes \<times> bytes option \<Rightarrow> vstore \<Rightarrow> vstore" where
  "push_op commit_ts = (\<lambda>(k, v). om_entry k [] (\<lambda>vs. vs @ [\<lparr>ve_commit_ts = commit_ts, ve_value = v\<rparr>]))"

definition replay_frame :: "u64 \<Rightarrow> u64 \<times> wops \<Rightarrow> vstore \<times> u64 \<Rightarrow> vstore \<times> u64" where
  "replay_frame base_ts = (\<lambda>(commit_ts, ops) (store, max_ts).
    if commit_ts > base_ts
    then (fold (push_op commit_ts) ops store, if commit_ts > max_ts then commit_ts else max_ts)
    else (store, max_ts))"

function replay_loop :: "(bytes \<Rightarrow> u32) \<Rightarrow> u64 \<Rightarrow> bytes \<Rightarrow> nat \<Rightarrow> nat \<Rightarrow> vstore \<times> u64 \<Rightarrow> (vstore \<times> u64 \<times> nat) tres" where
  "replay_loop crc base_ts data offset last_good sm =
    (case frame_at crc data offset of
       Ok (Some (commit_ts, ops, payload_end)) \<Rightarrow>
         replay_loop crc base_ts data payload_end payload_end (replay_frame base_ts (commit_ts, ops) sm)
     | Ok None \<Rightarrow> Ok (fst sm, snd sm, last_good)
     | Err e \<Rightarrow> Err e
     | Panic \<Rightarrow> Panic)"
  by pat_completeness auto
termination
  apply (relation "measure (\<lambda>(crc, base_ts, data, offset, last_good, sm). length data - offset)")
   apply simp
  apply (clarsimp simp: frame_at_def Let_def res_bind_Ok_iff split: if_splits)
  subgoal for crc data offset commit_ts ops payload_end l payload by (cases "decode_payload payload") auto
  done

definition replay_wal_with_base :: "(bytes \<Rightarrow> u32) \<Rightarrow> bytes \<Rightarrow> vstore \<Rightarrow> u64 \<Rightarrow> (vstore \<times> u64 \<times> nat) tres" where
  "replay_wal_with_base crc data store base_ts = replay_loop crc base_ts data 0 0 (store, base_ts)"

section \<open>Snapshots\<close>

definition snapshot_entries :: "vstore \<Rightarrow> (bytes \<times> bytes) list" where
  "snapshot_entries store =
    List.map_filter (\<lambda>(k, versions). if versions = [] then None else map_option (Pair k) (ve_value (last versions))) store"

fun encode_entries :: "(bytes \<times> bytes) list \<Rightarrow> bytes tres" where
  "encode_entries [] = Ok []"
| "encode_entries ((k, v) # es) =
    (if length v > VALUE_SIZE then Err (TInvalidValueSize (length v) VALUE_SIZE)
     else res_map (\<lambda>bs. k @ to_le 4 (word_of_nat (length v) :: u32) @ v @ bs) (encode_entries es))"

text \<open>The contents of the snapshot file that replaces the previous one.\<close>

definition write_snapshot_file :: "u64 \<Rightarrow> vstore \<Rightarrow> bytes tres" where
  "write_snapshot_file commit_ts store =
    (let entries = snapshot_entries store in
     if length entries > 2 ^ 32 - 1 then Err (CorruptWal ''too many snapshot entries'')
     else res_map (\<lambda>bs. to_le 4 SNAPSHOT_MAGIC @ to_le 4 SNAPSHOT_VERSION @ to_le 8 commit_ts
                     @ to_le 4 (word_of_nat (length entries) :: u32) @ bs) (encode_entries entries))"

fun load_entries :: "bytes \<Rightarrow> u64 \<Rightarrow> nat \<Rightarrow> nat \<Rightarrow> vstore \<Rightarrow> (vstore \<times> nat) tres" where
  "load_entries data commit_ts c 0 store = Ok (store, c)"
| "load_entries data commit_ts c (Suc n) store =
    (if c + KEY_SIZE + 4 > length data then Err (CorruptWal ''snapshot truncated'')
     else res_bind (get_slice data c (c + KEY_SIZE)) (\<lambda>k. res_bind (read_u32 data (c + KEY_SIZE)) (\<lambda>l.
       let c1 = c + KEY_SIZE + 4 in
       if unat l > VALUE_SIZE then Err (TInvalidValueSize (unat l) VALUE_SIZE)
       else if c1 + unat l > length data then Err (CorruptWal ''snapshot truncated'')
       else res_bind (get_slice data c1 (c1 + unat l)) (\<lambda>v.
         load_entries data commit_ts (c1 + unat l) n (push_op commit_ts (k, Some v) store)))))"

definition load_snapshot_file :: "bytes option \<Rightarrow> (vstore \<times> u64) option tres" where
  "load_snapshot_file path =
    (case path of None \<Rightarrow> Ok None
     | Some data \<Rightarrow>
       if length data < 4 + 4 + 8 + 4 then Err (CorruptWal ''snapshot too short'')
       else res_bind (read_u32 data 0) (\<lambda>magic.
         if magic \<noteq> SNAPSHOT_MAGIC then Err (CorruptWal ''invalid snapshot magic'')
         else res_bind (read_u32 data 4) (\<lambda>vers.
           if vers \<noteq> SNAPSHOT_VERSION then Err (CorruptWal ''unsupported snapshot version'')
           else res_bind (read_u64 data 8) (\<lambda>commit_ts. res_bind (read_u32 data 16) (\<lambda>num_entries.
             res_bind (load_entries data commit_ts 20 (unat num_entries) []) (\<lambda>(store, c).
               if c \<noteq> length data then Err (CorruptWal ''snapshot length mismatch'')
               else Ok (Some (store, commit_ts))))))))"

text \<open>A store is a map from keys to versions; what a reader at a timestamp sees of a key.\<close>

definition read_at_ts :: "vstore \<Rightarrow> bytes \<Rightarrow> u64 \<Rightarrow> bytes option" where
  "read_at_ts store k read_ts =
    (case om_lookup store k of None \<Rightarrow> None
     | Some versions \<Rightarrow>
       Option.bind (List.find (\<lambda>v. ve_commit_ts v \<le> read_ts) (rev versions)) ve_value)"

definition hash_order :: "(wops \<Rightarrow> wops) \<Rightarrow> bool" where
  "hash_order it \<longleftrightarrow> (\<forall>w. mset (it w) = mset w)"

text \<open>The write sets that the manager builds: a map with keys of the fixed size; four million writes of the
  largest size still fit into the 32-bit length of a frame.\<close>

definition wset_ok :: "wops \<Rightarrow> bool" where
  "wset_ok w \<longleftrightarrow> om_wf w \<and> (\<forall>(k, v) \<in> set w. length k = KEY_SIZE) \<and> length w \<le> 4000000"

definition store_ok :: "u64 \<Rightarrow> vstore \<Rightarrow> bool" where
  "store_ok commit_ts store \<longleftrightarrow> om_wf store \<and> (\<forall>(k, vs) \<in> set store. length k = KEY_SIZE
     \<and> (\<forall>v \<in> set vs. ve_commit_ts v \<le> commit_ts))"

text \<open>The bytes of one operation, and the operations that are encoded without an error.\<close>

definition op_bytes :: "bytes \<times> bytes option \<Rightarrow> bytes" where
  "op_bytes = (\<lambda>(k, v). k @ (case v of None \<Rightarrow> [0] | Some b \<Rightarrow> 1 # to_le 4 (word_of_nat (length b) :: u32) @ b))"

definition op_ok :: "bytes \<times> bytes option \<Rightarrow> bool" where
  "op_ok = (\<lambda>(k, v). length k = KEY_SIZE \<and> (case v of None \<Rightarrow> True | Some b \<Rightarrow> length b \<le> VALUE_SIZE))"

definition key_a :: bytes where "key_a = 1 # replicate 15 0"

definition key_b :: bytes where "key_b = 2 # replicate 15 0"

definition entry_ok :: "bytes \<times> bytes \<Rightarrow> bool" where
  "entry_ok = (\<lambda>(k, v). length k = KEY_SIZE \<and> length v \<le> VALUE_SIZE)"

definition entry_bytes :: "bytes \<times> bytes \<Rightarrow> bytes" where
  "entry_bytes = (\<lambda>(k, v). k @ to_le 4 (word_of_nat (length v) :: u32) @ v)"

definition latest_only :: "u64 \<Rightarrow> (bytes \<times> bytes) list \<Rightarrow> vstore" where
  "latest_only ts es = fold (\<lambda>(k, v). push_op ts (k, Some v)) es []"

section \<open>Payload round trip\<close>

lemma encode_ops_Ok_iff:
  assumes "\<forall>(k, v) \<in> set ws. length k = KEY_SIZE"
  shows "encode_ops ws = Ok bs \<longleftrightarrow> list_all op_ok ws \<and> bs = concat (map op_bytes ws)"
  using assms by (induction ws arbitrary: bs rule: encode_ops.induct) (auto simp: res_map_Ok_iff op_ok_def op_bytes_def)

lemma decode_op:
  assumes at0: "at_cursor p c (op_bytes (k, v) @ ys)" and ok: "op_ok (k, v)"
  shows "\<exists>c'. at_cursor p c' ys \<and> decode_ops p c (Suc n) = res_map (\<lambda>(ops, e). ((k, v) # ops, e)) (decode_ops p c' n)"
proof (cases v)
  case None
  have a0: "at_cursor p c (k @ 0 # ys)" using at0 None by (simp add: op_bytes_def)
  have k: "length k = 16" using ok by (simp add: op_ok_def)
  have a1: "at_cursor p (c + 16) (0 # ys)" using at_cursor_append [OF a0] k by simp
  have "read_u8 p (c + 16) = (Ok 0 :: byte tres)" using at_cursor_words(4) [OF a1] .
  moreover have "get_slice p c (c + 16) = (Ok k :: bytes tres)" using at_cursor_get_slice [OF a0] k by simp
  moreover have "length p \<ge> c + 17" using at_cursor_length [OF a1] by simp
  moreover have "at_cursor p (c + 17) ys" using at_cursor_steps(4) [OF a1] by (simp add: ac_simps)
  ultimately show ?thesis using None by (intro exI [of _ "c + 17"]) (simp add: Let_def ac_simps)
next
  case (Some b)
  let ?l = "word_of_nat (length b) :: u32"
  have a0: "at_cursor p c (k @ 1 # to_le 4 ?l @ b @ ys)" using at0 Some by (simp add: op_bytes_def)
  have k: "length k = 16" and b: "length b \<le> 1024" using ok Some by (simp_all add: op_ok_def)
  have l: "unat ?l = length b" using b by (intro unat_word_of_nat_small) simp
  have a1: "at_cursor p (c + 16) (1 # to_le 4 ?l @ b @ ys)" using at_cursor_append [OF a0] k by simp
  have a2: "at_cursor p (c + 17) (to_le 4 ?l @ b @ ys)" using at_cursor_steps(4) [OF a1] by (simp add: ac_simps)
  have a3: "at_cursor p (c + 21) (b @ ys)" using at_cursor_steps(2) [OF a2] by (simp add: ac_simps)
  have "read_u8 p (c + 16) = (Ok 1 :: byte tres)" "read_u32 p (c + 17) = (Ok ?l :: u32 tres)"
    using at_cursor_words(4) [OF a1] at_cursor_words(2) [OF a2] by simp_all
  moreover have "get_slice p c (c + 16) = (Ok k :: bytes tres)" "get_slice p (c + 21) (c + 21 + length b) = (Ok b :: bytes tres)"
    using at_cursor_get_slice [OF a0] at_cursor_get_slice [OF a3] k by simp_all
  moreover have "length p = c + 21 + length b + length ys" using at_cursor_length [OF a3] by simp
  moreover have "at_cursor p (c + 21 + length b) ys" using at_cursor_append [OF a3] .
  ultimately show ?thesis using Some l b by (intro exI [of _ "c + 21 + length b"]) (simp add: Let_def ac_simps)
qed

lemma decode_ops_encoded:
  "at_cursor p c (concat (map op_bytes ws) @ ys) \<Longrightarrow> list_all op_ok ws \<Longrightarrow>
   \<exists>e. decode_ops p c (length ws) = Ok (ws, e) \<and> at_cursor p e ys"
proof (induction ws arbitrary: c)
  case Nil
  then show ?case by auto
next
  case (Cons w ws)
  obtain k v where w: "w = (k, v)" by (cases w)
  have a: "at_cursor p c (op_bytes (k, v) @ concat (map op_bytes ws) @ ys)" and o: "op_ok (k, v)" using Cons.prems w by simp_all
  obtain c' where c': "at_cursor p c' (concat (map op_bytes ws) @ ys)"
    "decode_ops p c (Suc (length ws)) = res_map (\<lambda>(ops, e). ((k, v) # ops, e)) (decode_ops p c' (length ws))"
    using decode_op [OF a o] by blast
  obtain e where "decode_ops p c' (length ws) = Ok (ws, e)" "at_cursor p e ys" using Cons c'(1) by auto
  then show ?case using c'(2) w by auto
qed

definition payload_bytes :: "u64 \<Rightarrow> wops \<Rightarrow> bytes" where
  "payload_bytes ts ws = to_le 8 ts @ to_le 4 (word_of_nat (length ws) :: u32) @ concat (map op_bytes ws)"

lemma hash_orderD: "hash_order it \<Longrightarrow> set (it w) = set w \<and> length (it w) = length w \<and> list_all P (it w) = list_all P w"
  using mset_eq_setD [of "it w" w] mset_eq_length [of "it w" w] by (simp add: hash_order_def list_all_iff)

lemma encode_payload_Ok_iff:
  assumes it: "hash_order it" and w: "wset_ok w"
  shows "encode_payload it ts w = Ok p \<longleftrightarrow> list_all op_ok w \<and> p = payload_bytes ts (it w)"
proof -
  have "\<forall>(k, v) \<in> set (it w). length k = KEY_SIZE" using w hash_orderD [OF it, of w] by (simp add: wset_ok_def)
  from encode_ops_Ok_iff [OF this] show ?thesis
    using w hash_orderD [OF it, of w] by (auto simp: encode_payload_def payload_bytes_def res_map_Ok_iff wset_ok_def)
qed

lemma decode_payload_bytes:
  assumes "list_all op_ok ws" and "length ws < 2 ^ 32"
  shows "decode_payload (payload_bytes ts ws) = Ok (ts, ws)"
proof -
  let ?p = "payload_bytes ts ws" and ?n = "word_of_nat (length ws) :: u32"
  have a0: "at_cursor ?p 0 (to_le 8 ts @ to_le 4 ?n @ concat (map op_bytes ws) @ [])"
    using at_cursor_0 [of ?p] by (simp add: payload_bytes_def)
  have a1: "at_cursor ?p 8 (to_le 4 ?n @ concat (map op_bytes ws) @ [])" using at_cursor_steps(3) [OF a0] by simp
  have a2: "at_cursor ?p 12 (concat (map op_bytes ws) @ [])" using at_cursor_steps(2) [OF a1] by simp
  obtain e where e: "decode_ops ?p 12 (length ws) = Ok (ws, e)" "at_cursor ?p e []"
    using decode_ops_encoded [OF a2 assms(1)] by blast
  have "unat ?n = length ws" using assms(2) by (intro unat_word_of_nat_small) simp
  moreover have "read_u64 ?p 0 = (Ok ts :: u64 tres)" "read_u32 ?p 8 = (Ok ?n :: u32 tres)"
    using at_cursor_words(3) [OF a0] at_cursor_words(2) [OF a1] by simp_all
  moreover have "\<not> length ?p < 12" "e = length ?p" using at_cursor_length [OF e(2)] at_cursor_length [OF a2] by simp_all
  ultimately show ?thesis using e(1) by (simp add: decode_payload_def)
qed

lemma op_bytes_length: "op_ok w \<Longrightarrow> length (op_bytes w) \<le> 1045"
  by (auto simp: op_ok_def op_bytes_def split: prod.splits option.splits)

lemma payload_length: "list_all op_ok ws \<Longrightarrow> length (payload_bytes ts ws) \<le> 12 + 1045 * length ws"
  unfolding payload_bytes_def
proof (induction ws)
  case (Cons w ws)
  then show ?case using op_bytes_length [of w] by simp
qed simp

section \<open>Log recovery\<close>

text \<open>A frame that recovery accepts: the record of a payload whose length fits.\<close>

definition frame_ok :: "u64 \<times> wops \<Rightarrow> bool" where
  "frame_ok f \<longleftrightarrow> list_all op_ok (snd f) \<and> length (snd f) \<le> 4000000"

definition txn_frame :: "(bytes \<Rightarrow> u32) \<Rightarrow> u64 \<times> wops \<Rightarrow> bytes" where
  "txn_frame crc f = txn_record crc (payload_bytes (fst f) (snd f))"

lemma frame_payload_length: "frame_ok f \<Longrightarrow> length (payload_bytes (fst f) (snd f)) < 2 ^ 32"
  using payload_length [of "snd f" "fst f"] by (simp add: frame_ok_def)

lemma length_txn_frame: "length (txn_frame crc f) = 12 + length (payload_bytes (fst f) (snd f))"
  by (simp add: txn_frame_def txn_record_def)

lemma frame_header:
  assumes at0: "at_cursor d c (take n (txn_frame crc f) @ ys)" and n: "12 \<le> n" and ok: "frame_ok f"
  shows "read_u32 d c = (Ok TXN_WAL_MAGIC :: u32 tres) \<and> read_u32 d (c + 4) = (Ok (word_of_nat (length (payload_bytes (fst f) (snd f)))) :: u32 tres)
    \<and> read_u32 d (c + 8) = (Ok (crc (payload_bytes (fst f) (snd f))) :: u32 tres)
    \<and> at_cursor d (c + 12) (take (n - 12) (payload_bytes (fst f) (snd f)) @ ys)"
proof -
  let ?p = "payload_bytes (fst f) (snd f)"
  have "take n (txn_frame crc f) = to_le 4 TXN_WAL_MAGIC @ to_le 4 (word_of_nat (length ?p) :: u32) @ to_le 4 (crc ?p) @ take (n - 12) ?p"
    using n by (simp add: txn_frame_def txn_record_def)
  then have a0: "at_cursor d c (to_le 4 TXN_WAL_MAGIC @ to_le 4 (word_of_nat (length ?p) :: u32) @ to_le 4 (crc ?p) @ take (n - 12) ?p @ ys)"
    using at0 by simp
  have a1: "at_cursor d (c + 4) (to_le 4 (word_of_nat (length ?p) :: u32) @ to_le 4 (crc ?p) @ take (n - 12) ?p @ ys)"
    using at_cursor_steps(2) [OF a0] .
  have a2: "at_cursor d (c + 8) (to_le 4 (crc ?p) @ take (n - 12) ?p @ ys)" using at_cursor_steps(2) [OF a1] by (simp add: ac_simps)
  have a3: "at_cursor d (c + 12) (take (n - 12) ?p @ ys)" using at_cursor_steps(2) [OF a2] by (simp add: ac_simps)
  show ?thesis using at_cursor_words(2) [OF a0] at_cursor_words(2) [OF a1] at_cursor_words(2) [OF a2] a3 by simp
qed

lemma frame_at_frame:
  assumes "at_cursor d c (txn_frame crc f @ ys)" and ok: "frame_ok f"
  shows "frame_at crc d c = Ok (Some (fst f, snd f, c + length (txn_frame crc f)))"
proof -
  let ?p = "payload_bytes (fst f) (snd f)" and ?n = "length (txn_frame crc f)"
  have h: "at_cursor d c (take ?n (txn_frame crc f) @ ys)" using assms(1) by simp
  note hd = frame_header [OF h _ ok]
  have a: "at_cursor d (c + 12) (?p @ ys)" using hd length_txn_frame [of crc f] by simp
  have "unat (word_of_nat (length ?p) :: u32) = length ?p" using frame_payload_length [OF ok] by (intro unat_word_of_nat_small) simp
  moreover have "length d = c + 12 + length ?p + length ys" using at_cursor_length [OF a] by simp
  moreover have "get_slice d (c + 12) (c + 12 + length ?p) = (Ok ?p :: bytes tres)" using at_cursor_get_slice [OF a] by simp
  moreover have "decode_payload ?p = Ok (fst f, snd f)" using ok by (intro decode_payload_bytes) (simp_all add: frame_ok_def)
  ultimately show ?thesis using hd length_txn_frame [of crc f] by (simp add: frame_at_def Let_def split_beta)
qed

lemma frame_at_torn:
  assumes a: "at_cursor d c (take n (txn_frame crc f))" and n: "n < length (txn_frame crc f)" and ok: "frame_ok f"
  shows "frame_at crc d c = Ok None"
proof (cases "n < 12")
  case True
  then show ?thesis using at_cursor_length [OF a] n by (simp add: frame_at_def)
next
  case False
  let ?p = "payload_bytes (fst f) (snd f)"
  have "unat (word_of_nat (length ?p) :: u32) = length ?p" using frame_payload_length [OF ok] by (intro unat_word_of_nat_small) simp
  moreover have "length d < c + 12 + length ?p" using at_cursor_length [OF a] n False length_txn_frame [of crc f] by simp
  moreover have "at_cursor d c (take n (txn_frame crc f) @ [])" using a by simp
  ultimately show ?thesis using frame_header [of d c n crc f "[]"] False ok at_cursor_length [OF a] n
    by (simp add: frame_at_def Let_def)
qed

declare replay_loop.simps [simp del]

lemma replay_loop_frames:
  assumes "list_all frame_ok fs" and "at_cursor d c (concat (map (txn_frame crc) fs) @ take n (txn_frame crc f))"
    and "n < length (txn_frame crc f)" and "frame_ok f"
  shows "replay_loop crc base d c c sm =
    Ok (fst (fold (replay_frame base) fs sm), snd (fold (replay_frame base) fs sm), c + length (concat (map (txn_frame crc) fs)))"
  using assms(1,2)
proof (induction fs arbitrary: c sm)
  case Nil
  then show ?case using frame_at_torn [of d c n crc f] assms(3,4) by (simp add: replay_loop.simps)
next
  case (Cons g fs)
  have a: "at_cursor d c (txn_frame crc g @ concat (map (txn_frame crc) fs) @ take n (txn_frame crc f))" using Cons.prems by simp
  have "frame_at crc d c = Ok (Some (fst g, snd g, c + length (txn_frame crc g)))"
    using Cons.prems by (intro frame_at_frame [OF a]) simp
  then show ?case using Cons.IH [OF _ at_cursor_append [OF a]] Cons.prems by (simp add: replay_loop.simps [of _ _ _ c] ac_simps)
qed

lemma push_op_lookup:
  "om_lookup (push_op ts (k, v) store) k' = (if k' = k
     then Some ((case om_lookup store k of None \<Rightarrow> [] | Some vs \<Rightarrow> vs) @ [\<lparr>ve_commit_ts = ts, ve_value = v\<rparr>]) else om_lookup store k')"
  by (simp add: push_op_def om_lookup_entry)

lemma push_ops_wf: "om_wf store \<Longrightarrow> om_wf (fold (push_op ts) ops store)"
  by (induction ops arbitrary: store) (auto simp: push_op_def om_wf_entry)

lemma push_ops_lookup:
  "distinct (map fst ops) \<Longrightarrow> om_lookup (fold (push_op ts) ops store) k =
    (case map_of ops k of None \<Rightarrow> om_lookup store k
     | Some v \<Rightarrow> Some ((case om_lookup store k of None \<Rightarrow> [] | Some vs \<Rightarrow> vs) @ [\<lparr>ve_commit_ts = ts, ve_value = v\<rparr>]))"
proof (induction ops arbitrary: store)
  case (Cons w ops)
  obtain k' v where w: "w = (k', v)" by (cases w)
  then have "map_of ops k' = None" using Cons.prems by (simp add: map_of_eq_None_iff)
  then show ?case using Cons w by (auto simp: push_op_lookup split: option.splits)
qed simp

lemma wset_distinct: "wset_ok w \<Longrightarrow> distinct (map fst w)"
  by (simp add: wset_ok_def om_wf_def strict_sorted_iff)

lemma hash_order_distinct: "hash_order it \<Longrightarrow> distinct (map fst w) \<Longrightarrow> distinct (map fst (it w))"
  using mset_eq_imp_distinct_iff [of "map fst (it w)" "map fst w"] by (simp add: hash_order_def)

lemma hash_order_map_of: "hash_order it \<Longrightarrow> distinct (map fst w) \<Longrightarrow> map_of (it w) = map_of w"
  using map_of_inject_set [of "it w" w] hash_orderD [of it w] hash_order_distinct [of it w] by simp

lemma push_ops_order:
  assumes "hash_order it" and "wset_ok w" and "om_wf store"
  shows "fold (push_op ts) (it w) store = fold (push_op ts) w store"
proof (rule om_ext)
  have d: "distinct (map fst w)" "distinct (map fst (it w))"
    using wset_distinct hash_order_distinct assms(1,2) by blast+
  then show "om_lookup (fold (push_op ts) (it w) store) = om_lookup (fold (push_op ts) w store)"
    using push_ops_lookup [OF d(1)] push_ops_lookup [OF d(2)] hash_order_map_of [OF assms(1) d(1)] by (simp add: fun_eq_iff)
qed (use assms(3) push_ops_wf in auto)

lemma replay_frame_wf: "om_wf (fst sm) \<Longrightarrow> om_wf (fst (replay_frame base f sm))"
  by (cases f; cases sm) (auto simp: replay_frame_def push_ops_wf)

lemma replay_frames_order:
  assumes "hash_order it" and "list_all (\<lambda>c. wset_ok (snd c)) cs" and "om_wf (fst sm)"
  shows "fold (replay_frame base) (map (\<lambda>(ts, w). (ts, it w)) cs) sm = fold (replay_frame base) cs sm"
  using assms(2,3)
proof (induction cs arbitrary: sm)
  case (Cons c cs)
  have "replay_frame base (fst c, it (snd c)) sm = replay_frame base c sm"
    using push_ops_order [OF assms(1), of "snd c" "fst sm"] Cons.prems by (cases c; cases sm) (simp add: replay_frame_def)
  then show ?case using Cons.IH [OF _ replay_frame_wf [OF Cons.prems(2)]] Cons.prems by (simp add: split_beta)
qed simp

lemma commit_record_frame:
  assumes "hash_order it" and "wset_ok (snd c)"
  shows "commit_record crc it c = Ok r \<longleftrightarrow> frame_ok (fst c, it (snd c)) \<and> r = txn_frame crc (fst c, it (snd c))"
  using encode_payload_Ok_iff [OF assms, of "fst c"] hash_orderD [OF assms(1), of "snd c" op_ok] assms(2)
  by (auto simp: commit_record_def split_beta res_map_Ok_iff frame_ok_def txn_frame_def wset_ok_def)

lemma commit_records_frames:
  assumes "hash_order it" and "list_all (\<lambda>c. wset_ok (snd c)) cs" and "list_all2 (\<lambda>c r. commit_record crc it c = Ok r) cs recs"
  shows "list_all frame_ok (map (\<lambda>(ts, w). (ts, it w)) cs) \<and> recs = map (txn_frame crc) (map (\<lambda>(ts, w). (ts, it w)) cs)"
  using assms(3,2) by (induction rule: list_all2_induct) (auto simp: commit_record_frame [OF assms(1)])

text \<open>C17: Recovery of the transaction log is exact: on a log of committed records that ends in a torn record, whatever
  the checksum function and the iteration order of the write sets, the loop ends, applies exactly the complete
  records whose timestamp is above the base, in order, and reports their total length, at which the file is cut.\<close>

theorem txn_wal_recovers:
  assumes "hash_order it" and "list_all (\<lambda>c. wset_ok (snd c)) cs" and "list_all2 (\<lambda>c r. commit_record crc it c = Ok r) cs recs"
    and "wset_ok (snd c)" and "commit_record crc it c = Ok r" and "n < length r" and "om_wf store"
  shows "replay_wal_with_base crc (concat recs @ take n r) store base_ts =
    Ok (fst (fold (replay_frame base_ts) cs (store, base_ts)), snd (fold (replay_frame base_ts) cs (store, base_ts)), length (concat recs))"
proof -
  have f: "frame_ok (fst c, it (snd c))" "r = txn_frame crc (fst c, it (snd c))"
    using commit_record_frame [OF assms(1,4)] assms(5) by auto
  let ?fs = "map (\<lambda>(ts, w). (ts, it w)) cs"
  have fs: "list_all frame_ok ?fs" "recs = map (txn_frame crc) ?fs" using commit_records_frames [OF assms(1-3)] by auto
  have "at_cursor (concat recs @ take n r) 0 (concat (map (txn_frame crc) ?fs) @ take n (txn_frame crc (fst c, it (snd c))))"
    using at_cursor_0 fs(2) f(2) by metis
  from replay_loop_frames [OF fs(1) this _ f(1)] show ?thesis
    using replay_frames_order [OF assms(1,2), of "(store, base_ts)"] assms(6,7) fs(2) f(2) by (simp add: replay_wal_with_base_def)
qed

theorem txn_wal_recovers_witness:
  "\<exists>r1 r2. commit_record (\<lambda>p. word_of_nat (length p)) rev (1, [(key_a, Some [7]), (key_b, None)]) = Ok r1
    \<and> commit_record (\<lambda>p. word_of_nat (length p)) rev (2, [(key_a, None)]) = Ok r2
    \<and> replay_wal_with_base (\<lambda>p. word_of_nat (length p)) (r1 @ take 20 r2) [] 0 =
       Ok ([(key_a, [\<lparr>ve_commit_ts = 1, ve_value = Some [7]\<rparr>]), (key_b, [\<lparr>ve_commit_ts = 1, ve_value = None\<rparr>])], 1, length r1)"
proof -
  let ?crc = "\<lambda>p :: bytes. word_of_nat (length p) :: u32"
  let ?c1 = "(1 :: u64, [(key_a, Some [7]), (key_b, None)])" and ?c2 = "(2 :: u64, [(key_a, None)])"
  have it: "hash_order rev" by (simp add: hash_order_def)
  have w: "wset_ok (snd ?c1)" "wset_ok (snd ?c2)"
    by (simp_all add: wset_ok_def key_a_def key_b_def om_wf_def)
  obtain r1 r2 where r: "commit_record ?crc rev ?c1 = Ok r1" "commit_record ?crc rev ?c2 = Ok r2" "20 < length r2"
    by (simp add: commit_record_def encode_payload_def txn_record_def key_a_def key_b_def)
  have "replay_wal_with_base ?crc (concat [r1] @ take 20 r2) [] 0 = Ok (fst (fold (replay_frame 0) [?c1] ([], 0)),
     snd (fold (replay_frame 0) [?c1] ([], 0)), length (concat [r1]))"
    by (rule txn_wal_recovers [OF it _ _ w(2) r(2,3)]) (use w(1) r(1) in simp_all)
  then show ?thesis using r
    by (simp add: replay_frame_def push_op_def om_entry_def key_a_def key_b_def om_lookup_def)
qed

section \<open>Snapshot round trip\<close>

lemma encode_entries_Ok_iff:
  assumes "\<forall>(k, v) \<in> set es. length k = KEY_SIZE"
  shows "encode_entries es = Ok bs \<longleftrightarrow> list_all entry_ok es \<and> bs = concat (map entry_bytes es)"
  using assms by (induction es arbitrary: bs rule: encode_entries.induct) (auto simp: res_map_Ok_iff entry_ok_def entry_bytes_def)

lemma load_entry:
  assumes at0: "at_cursor d c (entry_bytes (k, v) @ ys)" and ok: "entry_ok (k, v)"
  shows "\<exists>c'. at_cursor d c' ys \<and> load_entries d ts c (Suc n) store = load_entries d ts c' n (push_op ts (k, Some v) store)"
proof -
  let ?l = "word_of_nat (length v) :: u32"
  have a0: "at_cursor d c (k @ to_le 4 ?l @ v @ ys)" using at0 by (simp add: entry_bytes_def)
  have k: "length k = 16" and v: "length v \<le> 1024" using ok by (simp_all add: entry_ok_def)
  have l: "unat ?l = length v" using v by (intro unat_word_of_nat_small) simp
  have a1: "at_cursor d (c + 16) (to_le 4 ?l @ v @ ys)" using at_cursor_append [OF a0] k by simp
  have a2: "at_cursor d (c + 20) (v @ ys)" using at_cursor_steps(2) [OF a1] by (simp add: ac_simps)
  have "get_slice d c (c + 16) = (Ok k :: bytes tres)" "read_u32 d (c + 16) = (Ok ?l :: u32 tres)"
    "get_slice d (c + 20) (c + 20 + length v) = (Ok v :: bytes tres)"
    using at_cursor_get_slice [OF a0] at_cursor_words(2) [OF a1] at_cursor_get_slice [OF a2] k by simp_all
  moreover have "length d = c + 20 + length v + length ys" using at_cursor_length [OF a2] by simp
  moreover have "at_cursor d (c + 20 + length v) ys" using at_cursor_append [OF a2] .
  ultimately show ?thesis using l v by (intro exI [of _ "c + 20 + length v"]) (simp add: Let_def ac_simps)
qed

lemma load_entries_encoded:
  "at_cursor d c (concat (map entry_bytes es) @ ys) \<Longrightarrow> list_all entry_ok es \<Longrightarrow>
   \<exists>e. load_entries d ts c (length es) store = Ok (fold (\<lambda>(k, v). push_op ts (k, Some v)) es store, e) \<and> at_cursor d e ys"
proof (induction es arbitrary: c store)
  case Nil
  then show ?case by auto
next
  case (Cons w es)
  obtain k v where w: "w = (k, v)" by (cases w)
  have a: "at_cursor d c (entry_bytes (k, v) @ concat (map entry_bytes es) @ ys)" and o: "entry_ok (k, v)" using Cons.prems w by simp_all
  obtain c' where "at_cursor d c' (concat (map entry_bytes es) @ ys)"
    "load_entries d ts c (Suc (length es)) store = load_entries d ts c' (length es) (push_op ts (k, Some v) store)"
    using load_entry [OF a o] by blast
  then show ?case using Cons.IH [of c' "push_op ts (k, Some v) store"] Cons.prems w by simp
qed

lemma snapshot_entries_lookup:
  assumes "om_wf store"
  shows "om_wf (snapshot_entries store)" and "om_lookup (snapshot_entries store) k =
    (case om_lookup store k of None \<Rightarrow> None | Some vs \<Rightarrow> if vs = [] then None else ve_value (last vs))"
proof -
  have s: "snapshot_entries (x # m) = (case x of (k, vs) \<Rightarrow> if vs = [] then [] else case ve_value (last vs) of None \<Rightarrow> [] | Some v \<Rightarrow> [(k, v)])
      @ snapshot_entries m" for x m
    by (auto simp: snapshot_entries_def List.map_filter_simps split: prod.splits option.splits)
  have sub: "fst ` set (snapshot_entries m) \<subseteq> fst ` set m" for m
  proof (induction m)
    case Nil
    show ?case by (simp add: snapshot_entries_def List.map_filter_simps)
  next
    case (Cons x m)
    then show ?case by (cases x) (auto simp: s split: option.splits if_splits)
  qed
  show "om_wf (snapshot_entries store)" using assms
  proof (induction store)
    case Nil
    show ?case by (simp add: snapshot_entries_def List.map_filter_simps)
  next
    case (Cons x m)
    then show ?case using sub [of m] by (cases x) (fastforce simp: s om_wf_def split: option.splits if_splits)
  qed
  show "om_lookup (snapshot_entries store) k =
    (case om_lookup store k of None \<Rightarrow> None | Some vs \<Rightarrow> if vs = [] then None else ve_value (last vs))" using assms
  proof (induction store)
    case Nil
    show ?case by (simp add: snapshot_entries_def List.map_filter_simps)
  next
    case (Cons x m)
    obtain k' vs where x: "x = (k', vs)" by (cases x)
    have m: "om_wf m" "k' \<notin> fst ` set m" using Cons.prems x by (auto simp: om_wf_def)
    show ?case
    proof (cases "k = k'")
      case True
      then have "map_of (snapshot_entries m) k = None" using sub [of m] m(2) by (auto simp: map_of_eq_None_iff)
      then show ?thesis using True by (simp add: x s om_lookup_def split: option.splits)
    next
      case False
      then show ?thesis using Cons.IH [OF m(1)] by (auto simp: x s om_lookup_def split: option.splits)
    qed
  qed
qed

lemma latest_only_lookup:
  assumes "om_wf es"
  shows "om_wf (latest_only ts es)" and
    "om_lookup (latest_only ts es) k = map_option (\<lambda>v. [\<lparr>ve_commit_ts = ts, ve_value = Some v\<rparr>]) (om_lookup es k)"
proof -
  have e: "latest_only ts es = fold (push_op ts) (map (\<lambda>(k, v). (k, Some v)) es) []"
    by (simp add: latest_only_def fold_map comp_def case_prod_unfold)
  show "om_wf (latest_only ts es)" unfolding e by (rule push_ops_wf) simp
  have d: "distinct (map fst (map (\<lambda>(k, v). (k, Some v)) es))"
    using assms by (simp add: om_wf_def strict_sorted_iff split_beta comp_def)
  show "om_lookup (latest_only ts es) k = map_option (\<lambda>v. [\<lparr>ve_commit_ts = ts, ve_value = Some v\<rparr>]) (om_lookup es k)"
    unfolding e push_ops_lookup [OF d] using map_of_map [of Some es] by (simp add: om_lookup_def split: option.splits)
qed

lemma load_written_snapshot:
  assumes ok: "store_ok ts store" and w: "write_snapshot_file ts store = Ok data"
  shows "load_snapshot_file (Some data) = Ok (Some (latest_only ts (snapshot_entries store), ts))"
proof -
  let ?es = "snapshot_entries store" and ?n = "word_of_nat (length (snapshot_entries store)) :: u32"
  have wf: "om_wf store" using ok by (simp add: store_ok_def)
  have "\<forall>(k, v) \<in> set ?es. length k = KEY_SIZE" using ok
    by (auto simp: snapshot_entries_def List.map_filter_def store_ok_def split: if_splits)
  from encode_entries_Ok_iff [OF this] have es: "list_all entry_ok ?es" and n: "length ?es < 2 ^ 32"
    and d: "data = to_le 4 SNAPSHOT_MAGIC @ to_le 4 SNAPSHOT_VERSION @ to_le 8 ts @ to_le 4 ?n @ concat (map entry_bytes ?es) @ []"
    using w by (auto simp: write_snapshot_file_def Let_def res_map_Ok_iff split: if_splits)
  have a0: "at_cursor data 0 (to_le 4 SNAPSHOT_MAGIC @ to_le 4 SNAPSHOT_VERSION @ to_le 8 ts @ to_le 4 ?n @ concat (map entry_bytes ?es) @ [])"
    using at_cursor_0 [of data] d by simp
  have a1: "at_cursor data 4 (to_le 4 SNAPSHOT_VERSION @ to_le 8 ts @ to_le 4 ?n @ concat (map entry_bytes ?es) @ [])"
    using at_cursor_steps(2) [OF a0] by simp
  have a2: "at_cursor data 8 (to_le 8 ts @ to_le 4 ?n @ concat (map entry_bytes ?es) @ [])" using at_cursor_steps(2) [OF a1] by simp
  have a3: "at_cursor data 16 (to_le 4 ?n @ concat (map entry_bytes ?es) @ [])" using at_cursor_steps(3) [OF a2] by simp
  have a4: "at_cursor data 20 (concat (map entry_bytes ?es) @ [])" using at_cursor_steps(2) [OF a3] by simp
  obtain e where e: "load_entries data ts 20 (length ?es) [] = Ok (latest_only ts ?es, e)" "at_cursor data e []"
    using load_entries_encoded [OF a4 es, of ts "[]"] by (auto simp: latest_only_def)
  have "read_u32 data 0 = (Ok SNAPSHOT_MAGIC :: u32 tres)" "read_u32 data 4 = (Ok SNAPSHOT_VERSION :: u32 tres)"
    "read_u64 data 8 = (Ok ts :: u64 tres)" "read_u32 data 16 = (Ok ?n :: u32 tres)"
    using at_cursor_words(2) [OF a0] at_cursor_words(2) [OF a1] at_cursor_words(3) [OF a2] at_cursor_words(2) [OF a3] by simp_all
  moreover have "\<not> length data < 20" "e = length data" using at_cursor_length [OF a4] at_cursor_length [OF e(2)] by simp_all
  moreover have "unat ?n = length ?es" using n by (intro unat_word_of_nat_small) simp
  ultimately show ?thesis using e(1) by (simp add: load_snapshot_file_def)
qed

lemma latest_only_reads:
  assumes ok: "store_ok ts store"
  shows "store_ok ts (latest_only ts (snapshot_entries store))"
    and "read_at_ts (latest_only ts (snapshot_entries store)) k r = (if ts \<le> r then read_at_ts store k ts else None)"
proof -
  let ?s = "latest_only ts (snapshot_entries store)"
  have wf: "om_wf store" using ok by (simp add: store_ok_def)
  note en = snapshot_entries_lookup [OF wf]
  note lo = latest_only_lookup [OF en(1), of ts]
  have vis: "ve_commit_ts (last vs) \<le> ts" "length k = 16" if "om_lookup store k = Some vs" "vs \<noteq> []" for k vs
    using ok om_lookup_iff [OF wf] that last_in_set by (fastforce simp: store_ok_def)+
  have look: "om_lookup ?s k = Some vs \<Longrightarrow> \<exists>v us. vs = [\<lparr>ve_commit_ts = ts, ve_value = Some v\<rparr>] \<and> om_lookup store k = Some us \<and> us \<noteq> []" for k vs
    by (auto simp: lo(2) en(2) split: option.splits if_splits)
  show "store_ok ts ?s" unfolding store_ok_def
  proof (intro conjI ballI)
    fix x assume x: "x \<in> set ?s"
    then have "om_lookup ?s (fst x) = Some (snd x)" using om_lookup_iff [OF lo(1)] by simp
    from look [OF this] show "case x of (k, vs) \<Rightarrow> length k = KEY_SIZE \<and> (\<forall>v \<in> set vs. ve_commit_ts v \<le> ts)"
      using vis by (cases x) auto
  qed (rule lo(1))
  show "read_at_ts ?s k r = (if ts \<le> r then read_at_ts store k ts else None)"
  proof (cases "om_lookup store k")
    case None
    then show ?thesis by (simp add: read_at_ts_def lo(2) en(2))
  next
    case (Some vs)
    show ?thesis
    proof (cases vs rule: rev_cases)
      case Nil
      then show ?thesis using Some by (simp add: read_at_ts_def lo(2) en(2))
    next
      case (snoc us v)
      then show ?thesis using Some vis(1) [OF Some] by (cases "ve_value v") (simp_all add: read_at_ts_def lo(2) en(2))
    qed
  qed
qed

text \<open>A snapshot keeps the state at its timestamp: the file written for a store whose versions are at most as
  new as the snapshot loads without an error, and for every key and read timestamp the loaded store gives the
  value the store had at the snapshot, or nothing when the read is older than the snapshot.\<close>

theorem snapshot_roundtrip:
  assumes ok: "store_ok ts store" and w: "write_snapshot_file ts store = Ok data"
  shows "\<exists>s. load_snapshot_file (Some data) = Ok (Some (s, ts)) \<and> store_ok ts s
    \<and> (\<forall>k r. read_at_ts s k r = (if ts \<le> r then read_at_ts store k ts else None))"
  using load_written_snapshot [OF assms] latest_only_reads [OF ok] by blast

theorem snapshot_roundtrip_witness:
  "\<exists>data s. write_snapshot_file 5 [(key_a, [\<lparr>ve_commit_ts = 2, ve_value = Some [1]\<rparr>, \<lparr>ve_commit_ts = 4, ve_value = Some [2]\<rparr>])] = Ok data
    \<and> load_snapshot_file (Some data) = Ok (Some (s, 5)) \<and> read_at_ts s key_a 9 = Some [2] \<and> read_at_ts s key_a 3 = None"
proof -
  let ?s = "[(key_a, [\<lparr>ve_commit_ts = 2, ve_value = Some [1]\<rparr>, \<lparr>ve_commit_ts = 4, ve_value = Some [2]\<rparr>])] :: vstore"
  have ok: "store_ok 5 ?s" by (simp add: store_ok_def om_wf_def key_a_def)
  obtain data where d: "write_snapshot_file 5 ?s = Ok data"
    by (simp add: write_snapshot_file_def snapshot_entries_def List.map_filter_simps Let_def)
  have "read_at_ts ?s key_a 5 = Some [2]" by (simp add: read_at_ts_def om_lookup_def)
  then show ?thesis using snapshot_roundtrip [OF ok d] d by auto
qed

end
