(* ===== verification/Txn_Storage.thy ===== *)
theory Txn_Storage
  imports Txn_Codec
begin

text \<open>
  The storage of the transactional store (\<open>txn_kv/storage.rs\<close>): a log and a snapshot file per replica, and
  the replicated storage that reports a write as done once a quorum of replicas has done it.

  The trait \<open>TxnStorage\<close> is a record of operations over a state, as its vtable is. A replica has the bytes of
  its two files and, once opened, the position of the file handle, because the log is not opened in append
  mode. The operating system is an argument: a \<open>fault\<close> says whether opening or an operation fails and how far
  it got. \<open>quorum_write\<close> starts one task per replica; the list \<open>arrival\<close> is the order in which their results
  arrive, the call returns at the quorum, and the tasks that have not reported yet stay in \<open>qs_pending\<close>. The
  sleeps between repair attempts have no effect on the state and are left out, as are the paths of the files.
\<close>

section \<open>The storage trait and one replica\<close>

record 's txn_storage =
  ts_load_snapshot :: "'s \<Rightarrow> (vstore \<times> u64) option tres \<times> 's"
  ts_write_snapshot :: "u64 \<Rightarrow> vstore \<Rightarrow> 's \<Rightarrow> unit tres \<times> 's"
  ts_replay_wal :: "vstore \<Rightarrow> u64 \<Rightarrow> 's \<Rightarrow> (vstore \<times> u64) tres \<times> 's"
  ts_append_wal_record :: "bytes \<Rightarrow> 's \<Rightarrow> unit tres \<times> 's"
  ts_truncate_wal :: "'s \<Rightarrow> unit tres \<times> 's"

record fault =
  fa_open :: "io_kind option"
  fa_load :: "(nat \<times> io_kind) option"
  fa_io :: "(nat \<times> io_kind) option"

definition no_fault :: fault where
  "no_fault = \<lparr>fa_open = None, fa_load = None, fa_io = None\<rparr>"

record replica =
  qr_wal :: bytes
  qr_snapshot :: "bytes option"
  qr_pos :: "nat option"

definition write_at :: "bytes \<Rightarrow> nat \<Rightarrow> bytes \<Rightarrow> bytes" where
  "write_at f pos bs = take pos f @ replicate (pos - length f) 0 @ bs @ drop (pos + length bs) f"

definition local_open :: "fault \<Rightarrow> replica \<Rightarrow> unit tres \<times> replica" where
  "local_open f r = (case fa_open f of Some kind \<Rightarrow> (Err (TIo kind ''open''), r) | None \<Rightarrow> (Ok (), r\<lparr>qr_pos := Some 0\<rparr>))"

definition local_load_snapshot :: "fault \<Rightarrow> replica \<Rightarrow> (vstore \<times> u64) option tres" where
  "local_load_snapshot f r =
    (case fa_load f of
       None \<Rightarrow> load_snapshot_file (qr_snapshot r)
     | Some (n, kind) \<Rightarrow> if n = 0 \<or> qr_snapshot r = None then Ok None else Err (TIo kind ''snapshot''))"

definition local_write_snapshot :: "fault \<Rightarrow> u64 \<Rightarrow> vstore \<Rightarrow> replica \<Rightarrow> unit tres \<times> replica" where
  "local_write_snapshot f commit_ts store r =
    (case write_snapshot_file commit_ts store of
       Ok data \<Rightarrow> (case fa_io f of None \<Rightarrow> (Ok (), r\<lparr>qr_snapshot := Some data\<rparr>)
                   | Some (_, kind) \<Rightarrow> (Err (TIo kind ''snapshot''), r))
     | Err e \<Rightarrow> (Err e, r)
     | Panic \<Rightarrow> (Panic, r))"

text \<open>Recovery of the log reads the whole file and cuts it at the end of the last good frame. A fault stops
  it before reading, before the cut, or before the final seek.\<close>

definition local_replay_wal :: "(bytes \<Rightarrow> u32) \<Rightarrow> fault \<Rightarrow> vstore \<Rightarrow> u64 \<Rightarrow> replica \<Rightarrow> (vstore \<times> u64) tres \<times> replica" where
  "local_replay_wal crc f base_store base_ts r =
    (let old = length (qr_wal r) in
     case replay_wal_with_base crc (qr_wal r) base_store base_ts of
       Ok (store, max_ts, valid_len) \<Rightarrow>
         (let cut = (if valid_len < old then take valid_len (qr_wal r) else qr_wal r) in
          case fa_io f of
            None \<Rightarrow> (Ok (store, max_ts), r\<lparr>qr_wal := cut, qr_pos := Some (length cut)\<rparr>)
          | Some (n, kind) \<Rightarrow> (Err (TIo kind ''replay''),
              if n = 0 then r else if n = 1 then r\<lparr>qr_pos := Some old\<rparr> else r\<lparr>qr_wal := cut, qr_pos := Some old\<rparr>))
     | Err e \<Rightarrow> (Err e, r)
     | Panic \<Rightarrow> (Panic, r))"

text \<open>Appending writes at the position of the handle; a fault leaves a part of the record in the file, all of
  it when the sync fails.\<close>

definition local_append :: "fault \<Rightarrow> bytes \<Rightarrow> replica \<Rightarrow> unit tres \<times> replica" where
  "local_append f rec r =
    (let pos = (case qr_pos r of Some p \<Rightarrow> p | None \<Rightarrow> 0);
         put = (\<lambda>bs. r\<lparr>qr_wal := write_at (qr_wal r) pos bs, qr_pos := Some (pos + length bs)\<rparr>) in
     case fa_io f of None \<Rightarrow> (Ok (), put rec) | Some (n, kind) \<Rightarrow> (Err (TIo kind ''append''), put (take n rec)))"

definition local_truncate :: "fault \<Rightarrow> replica \<Rightarrow> unit tres \<times> replica" where
  "local_truncate f r =
    (case fa_io f of
       None \<Rightarrow> (Ok (), r\<lparr>qr_wal := [], qr_pos := Some 0\<rparr>)
     | Some (n, kind) \<Rightarrow> (Err (TIo kind ''truncate''),
         if n = 0 then r else if n = 1 then r\<lparr>qr_wal := []\<rparr> else r\<lparr>qr_wal := [], qr_pos := Some 0\<rparr>))"

section \<open>Quorum writes\<close>

datatype quorum_op = Append bytes | Snapshot u64 vstore | Truncate

fun apply_op :: "fault \<Rightarrow> quorum_op \<Rightarrow> replica \<Rightarrow> unit tres \<times> replica" where
  "apply_op f (Append rec) r = local_append f rec r"
| "apply_op f (Snapshot commit_ts store) r = local_write_snapshot f commit_ts store r"
| "apply_op f Truncate r = local_truncate f r"

definition with_replica :: "fault \<Rightarrow> replica \<Rightarrow> unit tres \<times> replica" where
  "with_replica f r = (case qr_pos r of Some _ \<Rightarrow> (Ok (), r) | None \<Rightarrow> local_open f r)"

definition quorum_task :: "fault \<Rightarrow> quorum_op \<Rightarrow> replica \<Rightarrow> unit tres \<times> replica" where
  "quorum_task f op r =
    (case with_replica f r of (Ok _, r') \<Rightarrow> apply_op f op r' | (Err e, r') \<Rightarrow> (Err e, r') | (Panic, r') \<Rightarrow> (Panic, r'))"

record repair_task =
  rt_replica_index :: nat
  rt_op :: quorum_op
  rt_attempt :: nat

record quorum_storage =
  qs_replicas :: "replica list"
  qs_quorum :: nat
  qs_repair :: "repair_task list"
  qs_pending :: "(nat \<times> quorum_op) list"

definition quorum_open :: "(bytes \<times> bytes option) list \<Rightarrow> nat \<Rightarrow> quorum_storage tres" where
  "quorum_open paths quorum =
    (if quorum < 1 \<or> quorum > length paths then Err (InvalidQuorum quorum (length paths))
     else Ok \<lparr>qs_replicas = map (\<lambda>(wal, snap). \<lparr>qr_wal = wal, qr_snapshot = snap, qr_pos = None\<rparr>) paths,
              qs_quorum = quorum, qs_repair = [], qs_pending = []\<rparr>)"

definition run_task :: "fault \<Rightarrow> nat \<Rightarrow> quorum_op \<Rightarrow> quorum_storage \<Rightarrow> unit tres \<times> quorum_storage" where
  "run_task f i op qs =
    (let (res, r) = quorum_task f op (qs_replicas qs ! i); qs' = qs\<lparr>qs_replicas := (qs_replicas qs)[i := r]\<rparr> in
     case res of
       Err e \<Rightarrow> (res, qs'\<lparr>qs_repair := qs_repair qs' @ [\<lparr>rt_replica_index = i, rt_op = op, rt_attempt = 1\<rparr>]\<rparr>)
     | _ \<Rightarrow> (res, qs'))"

text \<open>The loop that receives the results. A task that panics drops its sender without a result.\<close>

fun quorum_collect :: "(nat \<Rightarrow> fault) \<Rightarrow> quorum_op \<Rightarrow> nat list \<Rightarrow> nat \<Rightarrow> txn_error option \<Rightarrow> quorum_storage \<Rightarrow> unit tres \<times> quorum_storage" where
  "quorum_collect faults op [] successes last_err qs =
    (Err (case last_err of Some e \<Rightarrow> e | None \<Rightarrow> QuorumNotMet (qs_quorum qs) successes), qs)"
| "quorum_collect faults op (i # arrival) successes last_err qs =
    (case run_task (faults i) i op qs of
       (Ok _, qs') \<Rightarrow>
         if successes + 1 \<ge> qs_quorum qs' then (Ok (), qs'\<lparr>qs_pending := qs_pending qs' @ map (\<lambda>j. (j, op)) arrival\<rparr>)
         else quorum_collect faults op arrival (successes + 1) last_err qs'
     | (Err e, qs') \<Rightarrow> quorum_collect faults op arrival successes (Some e) qs'
     | (Panic, qs') \<Rightarrow> quorum_collect faults op arrival successes last_err qs')"

definition quorum_write :: "(nat \<Rightarrow> fault) \<Rightarrow> nat list \<Rightarrow> quorum_op \<Rightarrow> quorum_storage \<Rightarrow> unit tres \<times> quorum_storage" where
  "quorum_write faults arrival op qs = quorum_collect faults op arrival 0 None qs"

section \<open>Background work\<close>

function repair_attempts :: "(nat \<Rightarrow> fault) \<Rightarrow> quorum_op \<Rightarrow> nat \<Rightarrow> replica \<Rightarrow> bool \<times> replica" where
  "repair_attempts faults op attempt r =
    (case quorum_task (faults attempt) op r of
       (Ok _, r') \<Rightarrow> (True, r')
     | (_, r') \<Rightarrow> if attempt \<ge> 5 then (False, r') else repair_attempts faults op (attempt + 1) r')"
  by pat_completeness auto
termination
  by (relation "measure (\<lambda>(faults, op, attempt, r). 5 - attempt)") auto

fun repair_worker :: "(nat \<Rightarrow> fault) \<Rightarrow> quorum_storage \<Rightarrow> quorum_storage" where
  "repair_worker faults qs =
    (case qs_repair qs of [] \<Rightarrow> qs
     | task # rest \<Rightarrow>
       let i = rt_replica_index task; r = snd (repair_attempts faults (rt_op task) (rt_attempt task) (qs_replicas qs ! i)) in
       qs\<lparr>qs_replicas := (qs_replicas qs)[i := r], qs_repair := rest\<rparr>)"

text \<open>A task that had not reported when its call returned runs to its end.\<close>

definition run_pending :: "fault \<Rightarrow> nat \<Rightarrow> quorum_storage \<Rightarrow> quorum_storage" where
  "run_pending f n qs =
    (case qs_pending qs ! n of (i, op) \<Rightarrow>
       snd (run_task f i op (qs\<lparr>qs_pending := take n (qs_pending qs) @ drop (n + 1) (qs_pending qs)\<rparr>)))"

section \<open>Recovery from the replicas\<close>

fun load_snapshots :: "(nat \<Rightarrow> fault) \<Rightarrow> nat list \<Rightarrow> (vstore \<times> u64) option \<Rightarrow> bool \<Rightarrow> txn_error option \<Rightarrow> quorum_storage
    \<Rightarrow> (vstore \<times> u64) option tres \<times> quorum_storage" where
  "load_snapshots faults [] best saw_ok last_err qs =
    (if best \<noteq> None then Ok best
     else if saw_ok then Ok None
     else Err (case last_err of Some e \<Rightarrow> e | None \<Rightarrow> QuorumNotMet (qs_quorum qs) 0), qs)"
| "load_snapshots faults (i # is) best saw_ok last_err qs =
    (let (opened, r) = with_replica (faults i) (qs_replicas qs ! i); qs' = qs\<lparr>qs_replicas := (qs_replicas qs)[i := r]\<rparr> in
     case opened of
       Ok _ \<Rightarrow> (case local_load_snapshot (faults i) r of
           Ok (Some (store, ts)) \<Rightarrow>
             load_snapshots faults is (case best of Some (_, best_ts) \<Rightarrow> if ts > best_ts then Some (store, ts) else best
               | None \<Rightarrow> Some (store, ts)) True last_err qs'
         | Ok None \<Rightarrow> load_snapshots faults is best True last_err qs'
         | Err e \<Rightarrow> load_snapshots faults is best saw_ok (Some e) qs'
         | Panic \<Rightarrow> (Panic, qs'))
     | Err e \<Rightarrow> load_snapshots faults is best saw_ok (Some e) qs'
     | Panic \<Rightarrow> (Panic, qs'))"

definition quorum_load_snapshot :: "(nat \<Rightarrow> fault) \<Rightarrow> quorum_storage \<Rightarrow> (vstore \<times> u64) option tres \<times> quorum_storage" where
  "quorum_load_snapshot faults qs = load_snapshots faults [0..<length (qs_replicas qs)] None False None qs"

text \<open>Each replica is recovered from its own snapshot; an error while loading one ends the whole recovery.\<close>

fun replay_replicas :: "(bytes \<Rightarrow> u32) \<Rightarrow> (nat \<Rightarrow> fault) \<Rightarrow> nat list \<Rightarrow> (vstore \<times> u64) option \<Rightarrow> txn_error option \<Rightarrow> quorum_storage
    \<Rightarrow> (vstore \<times> u64) tres \<times> quorum_storage" where
  "replay_replicas crc faults [] best last_err qs =
    (case best of Some b \<Rightarrow> Ok b
     | None \<Rightarrow> Err (case last_err of Some e \<Rightarrow> e | None \<Rightarrow> QuorumNotMet (qs_quorum qs) 0), qs)"
| "replay_replicas crc faults (i # is) best last_err qs =
    (let (opened, r) = with_replica (faults i) (qs_replicas qs ! i); qs' = qs\<lparr>qs_replicas := (qs_replicas qs)[i := r]\<rparr> in
     case opened of
       Ok _ \<Rightarrow> (case local_load_snapshot (faults i) r of
           Ok snapshot \<Rightarrow>
             (let (base_store, base_ts) = (case snapshot of Some b \<Rightarrow> b | None \<Rightarrow> ([], 0));
                  (res, r') = local_replay_wal crc (faults i) base_store base_ts r;
                  qs'' = qs'\<lparr>qs_replicas := (qs_replicas qs')[i := r']\<rparr> in
              case res of
                Ok (store, max_ts) \<Rightarrow>
                  replay_replicas crc faults is (case best of Some (_, best_ts) \<Rightarrow> if max_ts > best_ts then Some (store, max_ts) else best
                    | None \<Rightarrow> Some (store, max_ts)) last_err qs''
              | Err e \<Rightarrow> replay_replicas crc faults is best (Some e) qs''
              | Panic \<Rightarrow> (Panic, qs''))
         | Err e \<Rightarrow> (Err e, qs')
         | Panic \<Rightarrow> (Panic, qs'))
     | Err e \<Rightarrow> replay_replicas crc faults is best (Some e) qs'
     | Panic \<Rightarrow> (Panic, qs'))"

definition quorum_replay_wal :: "(bytes \<Rightarrow> u32) \<Rightarrow> (nat \<Rightarrow> fault) \<Rightarrow> quorum_storage \<Rightarrow> (vstore \<times> u64) tres \<times> quorum_storage" where
  "quorum_replay_wal crc faults qs = replay_replicas crc faults [0..<length (qs_replicas qs)] None None qs"

section \<open>What the properties speak about\<close>

text \<open>Whether the task of a replica succeeds does not depend on the other replicas.\<close>

definition task_ok :: "(nat \<Rightarrow> fault) \<Rightarrow> quorum_op \<Rightarrow> replica list \<Rightarrow> nat \<Rightarrow> bool" where
  "task_ok faults op rs i \<longleftrightarrow> fst (quorum_task (faults i) op (rs ! i)) = Ok ()"

text \<open>A process crash: the files stay, the handles, the outstanding tasks and the repair queue are gone.\<close>

definition quorum_crash :: "quorum_storage \<Rightarrow> quorum_storage" where
  "quorum_crash qs = qs\<lparr>qs_replicas := map (\<lambda>r. r\<lparr>qr_pos := None\<rparr>) (qs_replicas qs), qs_repair := [], qs_pending := []\<rparr>"

definition disk_full :: fault where
  "disk_full = \<lparr>fa_open = None, fa_load = None, fa_io = Some (0, OtherKind)\<rparr>"

definition empty_replica :: replica where
  "empty_replica = \<lparr>qr_wal = [], qr_snapshot = None, qr_pos = Some 0\<rparr>"

definition three_replicas :: quorum_storage where
  "three_replicas = \<lparr>qs_replicas = [empty_replica, empty_replica, empty_replica], qs_quorum = 2, qs_repair = [], qs_pending = []\<rparr>"

text \<open>The committed records of a log: write sets and the bytes that \<open>commit\<close> builds for them.\<close>

definition log_of :: "(bytes \<Rightarrow> u32) \<Rightarrow> (wops \<Rightarrow> wops) \<Rightarrow> (u64 \<times> wops) list \<Rightarrow> bytes \<Rightarrow> bool" where
  "log_of crc it cs wal \<longleftrightarrow> hash_order it \<and> list_all (\<lambda>c. wset_ok (snd c)) cs
    \<and> (\<exists>recs. list_all2 (\<lambda>c r. commit_record crc it c = Ok r) cs recs \<and> wal = concat recs)"

text \<open>The replicated storage as an implementation of the trait, when the disks work and the tasks that a write
  leaves behind end before the next call; \<open>arr\<close> is the order in which the replicas answer.\<close>

definition settle :: "quorum_storage \<Rightarrow> quorum_storage" where
  "settle qs = fold (\<lambda>(i, op) qs. snd (run_task no_fault i op qs)) (qs_pending qs) (qs\<lparr>qs_pending := []\<rparr>)"

definition calm_write :: "(nat \<Rightarrow> nat list) \<Rightarrow> quorum_op \<Rightarrow> quorum_storage \<Rightarrow> unit tres \<times> quorum_storage" where
  "calm_write arr op qs = (let (res, qs') = quorum_write (\<lambda>_. no_fault) (arr (length (qs_replicas qs))) op qs in (res, settle qs'))"

definition quorum_trait :: "(bytes \<Rightarrow> u32) \<Rightarrow> (nat \<Rightarrow> nat list) \<Rightarrow> quorum_storage txn_storage" where
  "quorum_trait crc arr = \<lparr>ts_load_snapshot = quorum_load_snapshot (\<lambda>_. no_fault),
     ts_write_snapshot = (\<lambda>commit_ts store. calm_write arr (Snapshot commit_ts store)),
     ts_replay_wal = (\<lambda>_ _. quorum_replay_wal crc (\<lambda>_. no_fault)),
     ts_append_wal_record = (\<lambda>rec. calm_write arr (Append rec)),
     ts_truncate_wal = calm_write arr Truncate\<rparr>"

definition arrival_ok :: "(nat \<Rightarrow> nat list) \<Rightarrow> bool" where
  "arrival_ok arr \<longleftrightarrow> (\<forall>n. distinct (arr n) \<and> set (arr n) = {..<n})"

definition same_files :: "bytes option \<Rightarrow> bytes \<Rightarrow> quorum_storage \<Rightarrow> bool" where
  "same_files snap wal qs \<longleftrightarrow> (\<forall>r \<in> set (qs_replicas qs). qr_snapshot r = snap \<and> qr_wal r = wal)"

definition at_end :: "quorum_storage \<Rightarrow> bool" where
  "at_end qs \<longleftrightarrow> (\<forall>r \<in> set (qs_replicas qs). qr_pos r = Some (length (qr_wal r)))"

definition base_of :: "(vstore \<times> u64) option \<Rightarrow> vstore \<times> u64" where
  "base_of b = (case b of Some b \<Rightarrow> b | None \<Rightarrow> ([], 0))"

definition in_sync :: "(bytes \<Rightarrow> u32) \<Rightarrow> (wops \<Rightarrow> wops) \<Rightarrow> (nat \<Rightarrow> nat list) \<Rightarrow> quorum_storage \<Rightarrow> vstore \<Rightarrow> u64 \<Rightarrow> bool" where
  "in_sync crc it arr qs store ts \<longleftrightarrow> arrival_ok arr \<and> 1 \<le> qs_quorum qs \<and> qs_quorum qs \<le> length (qs_replicas qs) \<and> qs_pending qs = [] \<and> at_end qs
    \<and> (\<exists>snap wal base cs. same_files snap wal qs \<and> load_snapshot_file snap = Ok base \<and> om_wf (fst (base_of base)) \<and> log_of crc it cs wal
       \<and> fold (replay_frame (snd (base_of base))) cs (base_of base) = (store, ts))"

section \<open>Quorum writes succeed at the quorum\<close>

lemma run_task_replicas:
  "qs_replicas (snd (run_task f i op qs)) = (qs_replicas qs)[i := snd (quorum_task f op (qs_replicas qs ! i))]"
  "qs_quorum (snd (run_task f i op qs)) = qs_quorum qs" "qs_pending (snd (run_task f i op qs)) = qs_pending qs"
  "fst (run_task f i op qs) = fst (quorum_task f op (qs_replicas qs ! i))"
  by (simp_all add: run_task_def Let_def split: prod.splits result.splits)

lemma quorum_collect_cong:
  "i \<notin> set is \<Longrightarrow> j \<in> set is \<Longrightarrow> rs[i := r] ! j = rs ! j"
  by (metis nth_list_update_neq)

lemma quorum_collect_steps:
  assumes "distinct arrival" and "successes < qs_quorum qs"
  shows "\<exists>k. k \<le> length arrival
    \<and> qs_quorum (snd (quorum_collect faults op arrival successes le qs)) = qs_quorum qs
    \<and> qs_replicas (snd (quorum_collect faults op arrival successes le qs))
       = fold (\<lambda>i rs. rs[i := snd (quorum_task (faults i) op (qs_replicas qs ! i))]) (take k arrival) (qs_replicas qs)
    \<and> qs_pending (snd (quorum_collect faults op arrival successes le qs)) = qs_pending qs @ map (\<lambda>j. (j, op)) (drop k arrival)
    \<and> (if fst (quorum_collect faults op arrival successes le qs) = Ok ()
       then successes + length (filter (task_ok faults op (qs_replicas qs)) (take k arrival)) = qs_quorum qs
       else k = length arrival \<and> successes + length (filter (task_ok faults op (qs_replicas qs)) arrival) < qs_quorum qs
         \<and> (\<exists>e. fst (quorum_collect faults op arrival successes le qs) = Err e))"
  using assms
proof (induction arrival arbitrary: successes le qs)
  case Nil
  then show ?case by simp
next
  case (Cons i arrival)
  define qs' where "qs' = snd (run_task (faults i) i op qs)"
  define res where "res = fst (run_task (faults i) i op qs)"
  have rt: "run_task (faults i) i op qs = (res, qs')" by (simp add: qs'_def res_def)
  have q: "qs_quorum qs' = qs_quorum qs" "qs_pending qs' = qs_pending qs"
    "qs_replicas qs' = (qs_replicas qs)[i := snd (quorum_task (faults i) op (qs_replicas qs ! i))]"
    "res = fst (quorum_task (faults i) op (qs_replicas qs ! i))"
    by (simp_all add: qs'_def res_def run_task_replicas)
  have tk: "res = Ok () \<longleftrightarrow> task_ok faults op (qs_replicas qs) i" by (simp add: q(4) task_ok_def)
  have ni: "i \<notin> set arrival" "distinct arrival" using Cons.prems by auto
  have same: "qs_replicas qs' ! j = qs_replicas qs ! j" if "j \<in> set arrival" for j
    using that ni(1) by (simp add: q(3) quorum_collect_cong [of i arrival j])
  have filt: "filter (task_ok faults op (qs_replicas qs')) xs = filter (task_ok faults op (qs_replicas qs)) xs"
    if "set xs \<subseteq> set arrival" for xs
    using that same by (intro filter_cong) (auto simp: task_ok_def)
  have fld: "fold (\<lambda>i rs. rs[i := snd (quorum_task (faults i) op (qs_replicas qs' ! i))]) xs rs
      = fold (\<lambda>i rs. rs[i := snd (quorum_task (faults i) op (qs_replicas qs ! i))]) xs rs" if "set xs \<subseteq> set arrival" for xs rs
    using that same by (intro fold_cong) auto
  have rec: "\<exists>k. k \<le> length (i # arrival)
    \<and> qs_quorum (snd r) = qs_quorum qs
    \<and> qs_replicas (snd r) = fold (\<lambda>i rs. rs[i := snd (quorum_task (faults i) op (qs_replicas qs ! i))]) (take k (i # arrival)) (qs_replicas qs)
    \<and> qs_pending (snd r) = qs_pending qs @ map (\<lambda>j. (j, op)) (drop k (i # arrival))
    \<and> (if fst r = Ok () then successes + length (filter (task_ok faults op (qs_replicas qs)) (take k (i # arrival))) = qs_quorum qs
       else k = length (i # arrival) \<and> successes + length (filter (task_ok faults op (qs_replicas qs)) (i # arrival)) < qs_quorum qs
         \<and> (\<exists>e. fst r = Err e))"
    if r: "r = quorum_collect faults op arrival s' le' qs'" and s': "s' = successes + (if res = Ok () then 1 else 0)" "s' < qs_quorum qs" for r s' le'
  proof -
    obtain k where k: "k \<le> length arrival" "qs_quorum (snd r) = qs_quorum qs"
      "qs_replicas (snd r) = fold (\<lambda>i rs. rs[i := snd (quorum_task (faults i) op (qs_replicas qs ! i))]) (take k arrival) (qs_replicas qs')"
      "qs_pending (snd r) = qs_pending qs @ map (\<lambda>j. (j, op)) (drop k arrival)"
      "if fst r = Ok () then s' + length (filter (task_ok faults op (qs_replicas qs)) (take k arrival)) = qs_quorum qs
       else k = length arrival \<and> s' + length (filter (task_ok faults op (qs_replicas qs)) arrival) < qs_quorum qs \<and> (\<exists>e. fst r = Err e)"
    proof -
      have "s' < qs_quorum qs'" using s'(2) q(1) by simp
      from Cons.IH [OF ni(2) this, of le', folded r] that show thesis
        unfolding q(1,2) fld [OF set_take_subset] filt [OF set_take_subset] filt [OF order_refl] by blast
    qed
    show ?thesis using k s'(1) tk q(3) by (intro exI [of _ "Suc k"]) (auto split: if_splits)
  qed
  show ?case
  proof (cases res)
    case (Ok u)
    show ?thesis
    proof (cases "successes + 1 \<ge> qs_quorum qs'")
      case True
      then have eq: "quorum_collect faults op (i # arrival) successes le qs = (Ok (), qs'\<lparr>qs_pending := qs_pending qs' @ map (\<lambda>j. (j, op)) arrival\<rparr>)"
        using Ok rt by simp
      have "successes + 1 = qs_quorum qs" using True Cons.prems(2) q(1) by simp
      then show ?thesis unfolding eq using q tk Ok by (intro exI [of _ 1]) simp
    next
      case False
      then have "quorum_collect faults op (i # arrival) successes le qs = quorum_collect faults op arrival (successes + 1) le qs'" using Ok rt by simp
      then show ?thesis using False q(1) Ok by (intro rec [of _ "successes + 1" le]) simp_all
    qed
  next
    case (Err e)
    then have "quorum_collect faults op (i # arrival) successes le qs = quorum_collect faults op arrival successes (Some e) qs'" using rt by simp
    then show ?thesis using Cons.prems(2) Err by (intro rec [of _ successes "Some e"]) simp_all
  next
    case Panic
    then have "quorum_collect faults op (i # arrival) successes le qs = quorum_collect faults op arrival successes le qs'" using rt by simp
    then show ?thesis using Cons.prems(2) Panic by (intro rec [of _ successes le]) simp_all
  qed
qed

lemma fold_update_nth:
  "distinct xs \<Longrightarrow> j < length rs \<Longrightarrow> fold (\<lambda>i rs. rs[i := F i]) xs rs ! j = (if j \<in> set xs then F j else rs ! j)"
proof (induction xs arbitrary: rs)
  case (Cons i xs)
  then show ?case by (cases "j = i") auto
qed simp

lemma length_filter_card:
  "distinct xs \<Longrightarrow> length (filter P xs) = card {i \<in> set xs. P i}"
  by (metis distinct_card distinct_filter set_filter)

text \<open>C24: A quorum write succeeds exactly at the quorum: whatever the order in which the replicas answer, the call returns
  success if and only if the operation succeeds on at least a quorum of the replicas, and then at least a
  quorum of them have carried it out when it returns; a failing call leaves no task behind.\<close>

theorem quorum_write_exact:
  assumes "distinct arrival" and "set arrival = {..<length (qs_replicas qs)}" and "1 \<le> qs_quorum qs"
    and "quorum_write faults arrival op qs = (res, qs')"
  shows "(res = Ok () \<longleftrightarrow> qs_quorum qs \<le> card {i. i < length (qs_replicas qs) \<and> task_ok faults op (qs_replicas qs) i})
    \<and> (res = Ok () \<longrightarrow> qs_quorum qs \<le> card {i. i < length (qs_replicas qs) \<and> task_ok faults op (qs_replicas qs) i
         \<and> qs_replicas qs' ! i = snd (quorum_task (faults i) op (qs_replicas qs ! i))})
    \<and> (res \<noteq> Ok () \<longrightarrow> qs_pending qs' = qs_pending qs)"
proof -
  let ?n = "length (qs_replicas qs)" and ?ok = "task_ok faults op (qs_replicas qs)"
  have e: "quorum_collect faults op arrival 0 None qs = (res, qs')" using assms(4) by (simp add: quorum_write_def)
  obtain k where k: "k \<le> length arrival"
    "qs_replicas qs' = fold (\<lambda>i rs. rs[i := snd (quorum_task (faults i) op (qs_replicas qs ! i))]) (take k arrival) (qs_replicas qs)"
    "qs_pending qs' = qs_pending qs @ map (\<lambda>j. (j, op)) (drop k arrival)"
    "if res = Ok () then length (filter ?ok (take k arrival)) = qs_quorum qs
     else k = length arrival \<and> length (filter ?ok arrival) < qs_quorum qs \<and> (\<exists>e. res = Err e)"
  proof -
    have "0 < qs_quorum qs" using assms(3) by simp
    from quorum_collect_steps [OF assms(1) this, of faults op None] that show thesis unfolding e fst_conv snd_conv add_0 by blast
  qed
  have all: "length (filter ?ok arrival) = card {i. i < ?n \<and> ?ok i}" using length_filter_card [OF assms(1), of ?ok] assms(2) by simp
  have nth: "qs_replicas qs' ! i = snd (quorum_task (faults i) op (qs_replicas qs ! i))" if "i \<in> set (take k arrival)" for i
  proof -
    have "i < ?n" using that assms(2) by (auto dest: in_set_takeD)
    then show ?thesis using that assms(1) by (simp add: k(2) fold_update_nth)
  qed
  have "card {i \<in> set (take k arrival). ?ok i} \<le> card {i. i < ?n \<and> ?ok i \<and> qs_replicas qs' ! i = snd (quorum_task (faults i) op (qs_replicas qs ! i))}"
    using nth assms(2) by (intro card_mono) (auto dest: in_set_takeD)
  then have "length (filter ?ok (take k arrival)) \<le> card {i. i < ?n \<and> ?ok i \<and> qs_replicas qs' ! i = snd (quorum_task (faults i) op (qs_replicas qs ! i))}"
    using length_filter_card [of "take k arrival" ?ok] assms(1) by simp
  moreover have "card {i. i < ?n \<and> ?ok i \<and> qs_replicas qs' ! i = snd (quorum_task (faults i) op (qs_replicas qs ! i))} \<le> card {i. i < ?n \<and> ?ok i}"
    by (intro card_mono) auto
  ultimately show ?thesis using k(3,4) all by (cases "res = Ok ()") auto
qed

theorem quorum_write_exact_witness:
  "\<exists>qs'. quorum_write (\<lambda>i. if i = 1 then disk_full else no_fault) [2, 1, 0] (Append [1, 2]) three_replicas = (Ok (), qs')
    \<and> 2 \<le> card {i. i < length (qs_replicas three_replicas) \<and> task_ok (\<lambda>i. if i = 1 then disk_full else no_fault) (Append [1, 2]) (qs_replicas three_replicas) i}"
proof -
  let ?f = "\<lambda>i :: nat. if i = 1 then disk_full else no_fault"
  obtain qs' where q: "quorum_write ?f [2, 1, 0] (Append [1, 2]) three_replicas = (Ok (), qs')"
    by (simp add: quorum_write_def three_replicas_def run_task_def quorum_task_def with_replica_def empty_replica_def local_append_def
        disk_full_def no_fault_def Let_def)
  have "{0, Suc 0, 2} = {..<3 :: nat}" by auto
  then show ?thesis using quorum_write_exact [of "[2, 1, 0]" three_replicas ?f "Append [1, 2]" "Ok ()" qs'] q
    by (auto simp: three_replicas_def insert_commute One_nat_def)
qed

section \<open>Recovery\<close>

lemma recover_whole_log:
  assumes "log_of crc it cs wal" and "om_wf store"
  shows "replay_wal_with_base crc wal store base_ts =
    Ok (fst (fold (replay_frame base_ts) cs (store, base_ts)), snd (fold (replay_frame base_ts) cs (store, base_ts)), length wal)"
proof -
  let ?fs = "map (\<lambda>(ts, w). (ts, it w)) cs" and ?f = "(0, []) :: u64 \<times> wops"
  obtain recs where r: "hash_order it" "list_all (\<lambda>c. wset_ok (snd c)) cs" "list_all2 (\<lambda>c r. commit_record crc it c = Ok r) cs recs"
    "wal = concat recs" using assms(1) by (auto simp: log_of_def)
  have fs: "list_all frame_ok ?fs" "recs = map (txn_frame crc) ?fs" using commit_records_frames [OF r(1-3)] by auto
  have a: "at_cursor wal 0 (concat (map (txn_frame crc) ?fs) @ take 0 (txn_frame crc ?f))"
    using at_cursor_0 [of wal] r(4) fs(2) by simp
  have "0 < length (txn_frame crc ?f)" "frame_ok ?f" by (simp_all add: length_txn_frame frame_ok_def)
  from replay_loop_frames [OF fs(1) a this] show ?thesis
    using replay_frames_order [OF r(1,2), of "(store, base_ts)"] assms(2) fs(2) r(4) by (simp add: replay_wal_with_base_def)
qed

lemma log_of_Nil: "hash_order it \<Longrightarrow> log_of crc it [] []"
  by (simp add: log_of_def)

lemma log_of_snoc:
  assumes "log_of crc it cs wal" and "commit_record crc it c = Ok r" and "wset_ok (snd c)"
  shows "log_of crc it (cs @ [c]) (wal @ r)"
proof -
  obtain recs where "list_all2 (\<lambda>c r. commit_record crc it c = Ok r) cs recs" "wal = concat recs" using assms(1) by (auto simp: log_of_def)
  then have "list_all2 (\<lambda>c r. commit_record crc it c = Ok r) (cs @ [c]) (recs @ [r])" "wal @ r = concat (recs @ [r])"
    using assms(2) by (simp_all add: list_all2_appendI)
  then show ?thesis using assms by (auto simp: log_of_def)
qed

lemma append_at_end:
  "qr_pos r = Some (length (qr_wal r)) \<Longrightarrow>
   quorum_task no_fault (Append rec) r = (Ok (), r\<lparr>qr_wal := qr_wal r @ rec, qr_pos := Some (length (qr_wal r @ rec))\<rparr>)"
  by (simp add: quorum_task_def with_replica_def local_append_def no_fault_def Let_def write_at_def)

text \<open>A replica that is first opened by a write, because opening failed during recovery, starts at the
  beginning of its log.\<close>

lemma late_open_overwrites:
  "qr_pos r = None \<Longrightarrow> quorum_task no_fault (Append rec) r =
     (Ok (), r\<lparr>qr_wal := rec @ drop (length rec) (qr_wal r), qr_pos := Some (length rec)\<rparr>)"
  by (simp add: quorum_task_def with_replica_def local_open_def local_append_def no_fault_def Let_def write_at_def)

text \<open>C37: Recovery can lose a commit that a quorum has acknowledged: of three replicas with a quorum of two, one misses
  the first append (its disk was full) and takes the second. Both calls succeed. After a crash before the repair,
  recovery takes the first replica with the highest timestamp, which is the one with the hole, and the first
  commit is gone although two replicas still have it.\<close>

theorem quorum_recovery_loses_commit:
  assumes "hash_order it" and "wset_ok w1" and "wset_ok w2"
    and "commit_record crc it (1, w1) = Ok r1" and "commit_record crc it (2, w2) = Ok r2"
  shows "\<exists>qs1 qs2. quorum_write (\<lambda>i. if i = 0 then disk_full else no_fault) [0, 1, 2] (Append r1) three_replicas = (Ok (), qs1)
    \<and> quorum_write (\<lambda>_. no_fault) [0, 1, 2] (Append r2) qs1 = (Ok (), qs2)
    \<and> map qr_wal (qs_replicas qs2) = [r2, r1 @ r2, r1]
    \<and> fst (quorum_replay_wal crc (\<lambda>_. no_fault) (quorum_crash qs2)) = Ok (fold (push_op 2) w2 [], 2)"
proof -
  let ?r = "\<lambda>wal. \<lparr>qr_wal = wal, qr_snapshot = None, qr_pos = Some (length wal)\<rparr>"
  let ?task = "\<lambda>op. \<lparr>rt_replica_index = 0, rt_op = op, rt_attempt = 1\<rparr>"
  define qs1 where "qs1 = \<lparr>qs_replicas = [?r [], ?r r1, ?r r1], qs_quorum = 2, qs_repair = [?task (Append r1)], qs_pending = []\<rparr>"
  define qs2 where "qs2 = \<lparr>qs_replicas = [?r r2, ?r (r1 @ r2), ?r r1], qs_quorum = 2, qs_repair = [?task (Append r1)], qs_pending = [(2, Append r2)]\<rparr>"
  have full: "quorum_task disk_full (Append r1) empty_replica = (Err (TIo OtherKind ''append''), empty_replica)"
    by (simp add: quorum_task_def with_replica_def local_append_def disk_full_def empty_replica_def Let_def write_at_def)
  have ok: "quorum_task no_fault (Append rec) (?r wal) = (Ok (), ?r (wal @ rec))" for rec wal
    using append_at_end [of "?r wal" rec] by simp
  have e: "empty_replica = ?r []" by (simp add: empty_replica_def)
  have w1: "quorum_write (\<lambda>i. if i = 0 then disk_full else no_fault) [0, 1, 2] (Append r1) three_replicas = (Ok (), qs1)"
    using full ok [of r1 "[]"] by (simp add: quorum_write_def three_replicas_def run_task_def e qs1_def Let_def One_nat_def numeral_2_eq_2)
  have w2: "quorum_write (\<lambda>_. no_fault) [0, 1, 2] (Append r2) qs1 = (Ok (), qs2)"
    using ok [of r2 "[]"] ok [of r2 r1] by (simp add: quorum_write_def qs1_def qs2_def run_task_def Let_def One_nat_def numeral_2_eq_2)
  have l1: "log_of crc it [(1, w1)] r1" "log_of crc it [(2, w2)] r2" "log_of crc it [(1, w1), (2, w2)] (r1 @ r2)"
    using log_of_snoc [OF log_of_Nil [OF assms(1)] assms(4)] log_of_snoc [OF log_of_Nil [OF assms(1)] assms(5)]
      log_of_snoc [OF log_of_snoc [OF log_of_Nil [OF assms(1)] assms(4)] assms(5)] assms(2,3) by simp_all
  have rec: "replay_wal_with_base crc r2 [] 0 = Ok (fold (push_op 2) w2 [], 2, length r2)"
    "replay_wal_with_base crc (r1 @ r2) [] 0 = Ok (fold (push_op 2) w2 (fold (push_op 1) w1 []), 2, length (r1 @ r2))"
    "replay_wal_with_base crc r1 [] 0 = Ok (fold (push_op 1) w1 [], 1, length r1)"
    using l1 [THEN recover_whole_log, of "[]" 0] by (simp_all add: replay_frame_def)
  have "fst (quorum_replay_wal crc (\<lambda>_. no_fault) (quorum_crash qs2)) = Ok (fold (push_op 2) w2 [], 2)"
    by (simp add: quorum_replay_wal_def quorum_crash_def qs2_def with_replica_def local_open_def no_fault_def local_load_snapshot_def
        load_snapshot_file_def local_replay_wal_def rec Let_def upt_rec [of _ "Suc (Suc (Suc 0))"] One_nat_def)
  then show ?thesis using w1 w2 by (auto simp: qs2_def)
qed

theorem quorum_recovery_loses_commit_witness:
  "\<exists>r1 r2 qs1 qs2. commit_record (\<lambda>_. 0) rev (1, [(key_a, Some [1])]) = Ok r1 \<and> commit_record (\<lambda>_. 0) rev (2, [(key_b, Some [2])]) = Ok r2
    \<and> quorum_write (\<lambda>i. if i = 0 then disk_full else no_fault) [0, 1, 2] (Append r1) three_replicas = (Ok (), qs1)
    \<and> quorum_write (\<lambda>_. no_fault) [0, 1, 2] (Append r2) qs1 = (Ok (), qs2)
    \<and> fst (quorum_replay_wal (\<lambda>_. 0) (\<lambda>_. no_fault) (quorum_crash qs2)) = Ok ([(key_b, [\<lparr>ve_commit_ts = 2, ve_value = Some [2]\<rparr>])], 2)"
proof -
  obtain r1 r2 where r: "commit_record (\<lambda>_. 0) rev (1, [(key_a, Some [1])]) = Ok r1" "commit_record (\<lambda>_. 0) rev (2, [(key_b, Some [2])]) = Ok r2"
    by (simp add: commit_record_def encode_payload_def)
  have h: "hash_order rev" "wset_ok [(key_a, Some [1])]" "wset_ok [(key_b, Some [2])]"
    by (simp_all add: hash_order_def wset_ok_def om_wf_def key_a_def key_b_def)
  have "fold (push_op 2) [(key_b, Some [2])] [] = [(key_b, [\<lparr>ve_commit_ts = 2, ve_value = Some [2]\<rparr>])]"
    by (simp add: push_op_def om_entry_def)
  then show ?thesis using quorum_recovery_loses_commit [OF h r] r by auto
qed

lemma settle_replicas:
  assumes "distinct js"
  shows "let qs' = fold (\<lambda>(i, op) qs. snd (run_task no_fault i op qs)) (map (\<lambda>j. (j, op)) js) qs in
    qs_replicas qs' = fold (\<lambda>i rs. rs[i := snd (quorum_task no_fault op (qs_replicas qs ! i))]) js (qs_replicas qs)
    \<and> qs_quorum qs' = qs_quorum qs \<and> qs_pending qs' = qs_pending qs"
  using assms
proof (induction js arbitrary: qs)
  case (Cons j js)
  let ?qs = "snd (run_task no_fault j op qs)"
  have "fold (\<lambda>i rs. rs[i := snd (quorum_task no_fault op (qs_replicas ?qs ! i))]) js (qs_replicas ?qs)
      = fold (\<lambda>i rs. rs[i := snd (quorum_task no_fault op (qs_replicas qs ! i))]) js (qs_replicas ?qs)"
    using Cons.prems by (intro fold_cong) (auto simp: run_task_replicas quorum_collect_cong [of j js])
  then show ?case using Cons.IH [of ?qs] Cons.prems by (simp add: Let_def run_task_replicas)
qed simp

lemma calm_write_steps:
  assumes "arrival_ok arr" and "1 \<le> qs_quorum qs" and "qs_pending qs = []"
  shows "let (res, qs') = calm_write arr op qs; n = length (qs_replicas qs) in
    qs_replicas qs' = map (\<lambda>r. snd (quorum_task no_fault op r)) (qs_replicas qs)
    \<and> qs_quorum qs' = qs_quorum qs \<and> qs_pending qs' = []
    \<and> (if qs_quorum qs \<le> card {i. i < n \<and> task_ok (\<lambda>_. no_fault) op (qs_replicas qs) i} then res = Ok () else \<exists>e. res = Err e)"
proof -
  let ?rs = "qs_replicas qs" and ?F = "\<lambda>i. snd (quorum_task no_fault op (qs_replicas qs ! i))" and ?ok = "task_ok (\<lambda>_. no_fault) op (qs_replicas qs)"
  define arrival where "arrival = arr (length ?rs)"
  have arr: "distinct arrival" "set arrival = {..<length ?rs}" using assms(1) by (simp_all add: arrival_ok_def arrival_def)
  obtain res qs1 where e: "quorum_collect (\<lambda>_. no_fault) op arrival 0 None qs = (res, qs1)" by (metis surj_pair)
  have q: "0 < qs_quorum qs" using assms(2) by simp
  obtain k where k: "k \<le> length arrival" "qs_quorum qs1 = qs_quorum qs" "qs_replicas qs1 = fold (\<lambda>i rs. rs[i := ?F i]) (take k arrival) ?rs"
    "qs_pending qs1 = map (\<lambda>j. (j, op)) (drop k arrival)"
    "if res = Ok () then length (filter ?ok (take k arrival)) = qs_quorum qs
     else k = length arrival \<and> length (filter ?ok arrival) < qs_quorum qs \<and> (\<exists>e. res = Err e)"
  proof -
    from quorum_collect_steps [OF arr(1) q, of "\<lambda>_. no_fault" op None] that show thesis
      unfolding e fst_conv snd_conv add_0 assms(3) append_Nil by blast
  qed
  let ?qs1 = "qs1\<lparr>qs_pending := []\<rparr>"
  have c: "calm_write arr op qs = (res, settle qs1)" using e by (simp add: calm_write_def quorum_write_def arrival_def)
  have "distinct (drop k arrival)" using arr(1) by simp
  from settle_replicas [OF this, of op ?qs1] have s: "qs_replicas (settle qs1) = fold (\<lambda>i rs. rs[i := snd (quorum_task no_fault op (qs_replicas qs1 ! i))]) (drop k arrival) (qs_replicas qs1)"
    "qs_quorum (settle qs1) = qs_quorum qs" "qs_pending (settle qs1) = []"
    by (simp_all add: settle_def k(2,4) Let_def)
  have len: "length (fold (\<lambda>i rs. rs[i := G i]) xs ys) = length ys" for G :: "nat \<Rightarrow> replica" and xs ys
    by (induction xs arbitrary: ys) auto
  have disj: "j \<notin> set (take k arrival)" if "j \<in> set (drop k arrival)" for j
    using that arr(1) by (metis IntI append_take_drop_id distinct_append empty_iff)
  have "qs_replicas (settle qs1) ! j = ?F j" if "j < length ?rs" for j
  proof (cases "j \<in> set (drop k arrival)")
    case True
    then show ?thesis using that arr(1) disj [OF True] by (simp add: s(1) k(3) fold_update_nth len)
  next
    case False
    have "j \<in> set (take k arrival)" using False that arr(2) by (metis UnE append_take_drop_id lessThan_iff set_append)
    then show ?thesis using that arr(1) False by (simp add: s(1) k(3) fold_update_nth len)
  qed
  then have reps: "qs_replicas (settle qs1) = map (\<lambda>r. snd (quorum_task no_fault op r)) ?rs"
    by (intro nth_equalityI) (simp_all add: s(1) k(3) len)
  have all: "length (filter ?ok arrival) = card {i. i < length ?rs \<and> ?ok i}" using length_filter_card [OF arr(1), of ?ok] arr(2) by simp
  have "length (filter ?ok (take k arrival)) \<le> length (filter ?ok arrival)"
    by (metis append_take_drop_id filter_append le_add1 length_append)
  then show ?thesis using c s reps all k(5) by (auto split: if_splits)
qed

lemma calm_write_ok:
  assumes "arrival_ok arr" and "1 \<le> qs_quorum qs" and "qs_quorum qs \<le> length (qs_replicas qs)" and "qs_pending qs = []"
    and "\<And>r. r \<in> set (qs_replicas qs) \<Longrightarrow> quorum_task no_fault op r = (Ok (), g r)"
  shows "\<exists>qs'. calm_write arr op qs = (Ok (), qs') \<and> qs_replicas qs' = map g (qs_replicas qs) \<and> qs_quorum qs' = qs_quorum qs \<and> qs_pending qs' = []"
proof -
  have "{i. i < length (qs_replicas qs) \<and> task_ok (\<lambda>_. no_fault) op (qs_replicas qs) i} = {..<length (qs_replicas qs)}"
    using assms(5) by (auto simp: task_ok_def)
  moreover have "map (\<lambda>r. snd (quorum_task no_fault op r)) (qs_replicas qs) = map g (qs_replicas qs)" using assms(5) by simp
  ultimately show ?thesis using calm_write_steps [OF assms(1,2,4), of op] assms(3) by (auto simp: Let_def split: prod.splits)
qed

lemma calm_write_err:
  assumes "arrival_ok arr" and "1 \<le> qs_quorum qs" and "qs_pending qs = []"
    and "\<And>r. r \<in> set (qs_replicas qs) \<Longrightarrow> quorum_task no_fault op r = (Err e, r)"
  shows "\<exists>qs' e'. calm_write arr op qs = (Err e', qs') \<and> qs_replicas qs' = qs_replicas qs \<and> qs_quorum qs' = qs_quorum qs \<and> qs_pending qs' = []"
proof -
  have "card {i. i < length (qs_replicas qs) \<and> task_ok (\<lambda>_. no_fault) op (qs_replicas qs) i} = 0"
    using assms(4) by (auto simp: task_ok_def)
  then have "\<not> qs_quorum qs \<le> card {i. i < length (qs_replicas qs) \<and> task_ok (\<lambda>_. no_fault) op (qs_replicas qs) i}" using assms(2) by linarith
  moreover have "map (\<lambda>r. snd (quorum_task no_fault op r)) (qs_replicas qs) = qs_replicas qs" using assms(4) by (simp add: map_idI)
  ultimately show ?thesis using calm_write_steps [OF assms(1-3), of op] assms(2) by (auto simp: Let_def split: prod.splits)
qed

section \<open>The contract of a durable storage\<close>

lemma replay_frames_max:
  "b \<le> snd sm \<Longrightarrow> b \<le> snd (fold (replay_frame b) cs sm) \<and> snd sm \<le> snd (fold (replay_frame b) cs sm)
    \<and> (\<forall>c \<in> set cs. fst c \<le> snd (fold (replay_frame b) cs sm))"
proof (induction cs arbitrary: sm)
  case (Cons c cs)
  have "b \<le> snd (replay_frame b c sm)" "snd sm \<le> snd (replay_frame b c sm)" "fst c \<le> snd (replay_frame b c sm)"
    using Cons.prems by (cases c; cases sm; auto simp: replay_frame_def)+
  then show ?case using Cons.IH [of "replay_frame b c sm"] by auto
qed simp

lemma replay_frames_skip: "(\<And>c. c \<in> set cs \<Longrightarrow> fst c \<le> b) \<Longrightarrow> fold (replay_frame b) cs sm = sm"
proof (induction cs arbitrary: sm)
  case (Cons c cs)
  have "replay_frame b c sm = sm" using Cons.prems [of c] leD [of "fst c" b] by (cases c; cases sm) (simp add: replay_frame_def)
  then show ?case using Cons by simp
qed simp

lemma no_panic_encode_entries: "no_panic (encode_entries es)"
  by (induction es rule: encode_entries.induct) (auto intro: no_panic_map)

lemma write_snapshot_outcomes: "(\<exists>data. write_snapshot_file ts st = Ok data) \<or> (\<exists>e. write_snapshot_file ts st = Err e)"
proof -
  have "no_panic (write_snapshot_file ts st)"
    using no_panic_encode_entries by (simp add: write_snapshot_file_def Let_def no_panic_map)
  then show ?thesis by (cases "write_snapshot_file ts st") auto
qed

lemma load_snapshots_same:
  assumes "load_snapshot_file snap = Ok base"
  shows "same_files snap wal qs \<Longrightarrow> set is \<subseteq> {..<length (qs_replicas qs)} \<Longrightarrow> best = None \<or> best = base \<Longrightarrow> is \<noteq> [] \<or> (saw \<and> best = base) \<Longrightarrow>
    \<exists>qs'. load_snapshots (\<lambda>_. no_fault) is best saw le qs = (Ok base, qs') \<and> same_files snap wal qs'
      \<and> length (qs_replicas qs') = length (qs_replicas qs) \<and> qs_quorum qs' = qs_quorum qs \<and> qs_pending qs' = qs_pending qs"
proof (induction "is" arbitrary: best saw qs)
  case Nil
  then show ?case by (cases base) auto
next
  case (Cons i js)
  define r where "r = qs_replicas qs ! i"
  have r: "r \<in> set (qs_replicas qs)" "qr_snapshot r = snap" "qr_wal r = wal" using Cons.prems(1,2) by (auto simp: r_def same_files_def)
  obtain r' where r': "with_replica no_fault r = (Ok (), r')" "qr_snapshot r' = snap" "qr_wal r' = wal"
    using r by (cases "qr_pos r") (auto simp: with_replica_def local_open_def no_fault_def)
  let ?qs = "qs\<lparr>qs_replicas := (qs_replicas qs)[i := r']\<rparr>"
  have sf: "same_files snap wal ?qs" using Cons.prems(1) r' set_update_subset_insert [of "qs_replicas qs" i r'] by (auto simp: same_files_def)
  have ld: "local_load_snapshot no_fault r' = Ok base" using r'(2) assms by (simp add: local_load_snapshot_def no_fault_def)
  have "load_snapshots (\<lambda>_. no_fault) (i # js) best saw le qs = load_snapshots (\<lambda>_. no_fault) js base True le ?qs"
    using Cons.prems(3) r'(1) ld by (cases base) (auto simp: r_def [symmetric] Let_def)
  then show ?case using Cons.IH [OF sf, of base True] Cons.prems(2) by simp
qed

lemma replay_replicas_same:
  assumes "load_snapshot_file snap = Ok base" and "replay_wal_with_base crc wal (fst (base_of base)) (snd (base_of base)) = Ok (st, ts, length wal)"
  shows "same_files snap wal qs \<Longrightarrow> set is \<subseteq> {..<length (qs_replicas qs)} \<Longrightarrow> best = None \<or> best = Some (st, ts) \<Longrightarrow> is \<noteq> [] \<or> best = Some (st, ts) \<Longrightarrow>
    \<exists>qs'. replay_replicas crc (\<lambda>_. no_fault) is best le qs = (Ok (st, ts), qs') \<and> same_files snap wal qs'
      \<and> length (qs_replicas qs') = length (qs_replicas qs) \<and> qs_quorum qs' = qs_quorum qs \<and> qs_pending qs' = qs_pending qs
      \<and> (\<forall>i < length (qs_replicas qs). i \<in> set is \<or> qr_pos (qs_replicas qs ! i) = Some (length wal) \<longrightarrow> qr_pos (qs_replicas qs' ! i) = Some (length wal))"
proof (induction "is" arbitrary: best qs)
  case Nil
  then show ?case by auto
next
  case (Cons i js)
  define r where "r = qs_replicas qs ! i"
  have r: "qr_snapshot r = snap" "qr_wal r = wal" "i < length (qs_replicas qs)" using Cons.prems(1,2) by (auto simp: r_def same_files_def)
  obtain r' where r': "with_replica no_fault r = (Ok (), r')" "qr_snapshot r' = snap" "qr_wal r' = wal"
    using r by (cases "qr_pos r") (auto simp: with_replica_def local_open_def no_fault_def)
  let ?r = "r'\<lparr>qr_wal := wal, qr_pos := Some (length wal)\<rparr>"
  let ?qs = "qs\<lparr>qs_replicas := (qs_replicas qs)[i := ?r]\<rparr>"
  have sf: "same_files snap wal ?qs" using Cons.prems(1) r' set_update_subset_insert [of "qs_replicas qs" i ?r] by (auto simp: same_files_def)
  have ld: "local_load_snapshot no_fault r' = Ok base" using r'(2) assms(1) by (simp add: local_load_snapshot_def no_fault_def)
  have rp: "local_replay_wal crc no_fault (fst (base_of base)) (snd (base_of base)) r' = (Ok (st, ts), ?r)"
    using assms(2) r'(3) by (simp add: local_replay_wal_def no_fault_def Let_def)
  have "replay_replicas crc (\<lambda>_. no_fault) (i # js) best le qs = replay_replicas crc (\<lambda>_. no_fault) js (Some (st, ts)) le ?qs"
    using Cons.prems(3) r'(1) ld rp by (cases base) (auto simp: r_def [symmetric] Let_def base_of_def split_beta)
  then show ?case using Cons.IH [OF sf, of "Some (st, ts)"] Cons.prems(2) r(3)
    by (auto simp: nth_list_update)
qed

locale durable_storage =
  fixes ops :: "'s txn_storage" and crash :: "'s \<Rightarrow> 's" and crc :: "bytes \<Rightarrow> u32" and it :: "wops \<Rightarrow> wops"
    and durable :: "'s \<Rightarrow> vstore \<Rightarrow> u64 \<Rightarrow> bool"
  assumes append_law: "durable s st ts0 \<Longrightarrow> ts0 < ts \<Longrightarrow> wset_ok w \<Longrightarrow> commit_record crc it (ts, w) = Ok rec \<Longrightarrow>
      \<exists>s'. ts_append_wal_record ops rec s = (Ok (), s') \<and> durable s' (fold (push_op ts) w st) ts"
    and snapshot_law: "durable s st0 ts0 \<Longrightarrow> ts0 \<le> ts \<Longrightarrow> store_ok ts st \<Longrightarrow> write_snapshot_file ts st = Ok data \<Longrightarrow>
      \<exists>s1 s2. ts_write_snapshot ops ts st s = (Ok (), s1) \<and> durable s1 (latest_only ts (snapshot_entries st)) ts
        \<and> ts_truncate_wal ops s1 = (Ok (), s2) \<and> durable s2 (latest_only ts (snapshot_entries st)) ts"
    and snapshot_error_law: "durable s st0 ts0 \<Longrightarrow> write_snapshot_file ts st = Err e \<Longrightarrow>
      \<exists>e' s1. ts_write_snapshot ops ts st s = (Err e', s1) \<and> durable s1 st0 ts0"
    and recover_law: "durable s st ts \<Longrightarrow> \<exists>snap s1 s2. ts_load_snapshot ops (crash s) = (Ok snap, s1)
      \<and> ts_replay_wal ops (fst (base_of snap)) (snd (base_of snap)) s1 = (Ok (st, ts), s2) \<and> durable s2 st ts"

lemma sync_append:
  assumes s: "in_sync crc it arr qs st ts0" and ts: "ts0 < ts" and w: "wset_ok w" and r: "commit_record crc it (ts, w) = Ok rec"
  shows "\<exists>qs'. calm_write arr (Append rec) qs = (Ok (), qs') \<and> in_sync crc it arr qs' (fold (push_op ts) w st) ts"
proof -
  from s obtain snap wal base cs where a: "arrival_ok arr" "1 \<le> qs_quorum qs" "qs_quorum qs \<le> length (qs_replicas qs)" "qs_pending qs = []"
    and e: "at_end qs" and f: "same_files snap wal qs" and b: "load_snapshot_file snap = Ok base" "om_wf (fst (base_of base))" and l: "log_of crc it cs wal"
    and st: "fold (replay_frame (snd (base_of base))) cs (base_of base) = (st, ts0)" by (auto simp: in_sync_def)
  let ?g = "\<lambda>r. r\<lparr>qr_wal := qr_wal r @ rec, qr_pos := Some (length (qr_wal r @ rec))\<rparr>"
  have "quorum_task no_fault (Append rec) r = (Ok (), ?g r)" if "r \<in> set (qs_replicas qs)" for r
    using e that by (intro append_at_end) (auto simp: at_end_def)
  from calm_write_ok [OF a this] obtain qs' where q: "calm_write arr (Append rec) qs = (Ok (), qs')" "qs_replicas qs' = map ?g (qs_replicas qs)"
    "qs_quorum qs' = qs_quorum qs" "qs_pending qs' = []" by blast
  have f': "same_files snap (wal @ rec) qs'" "at_end qs'" using f by (auto simp: same_files_def at_end_def q(2))
  have "snd (base_of base) \<le> ts0" using replay_frames_max [of "snd (base_of base)" "base_of base" cs] st by simp
  then have "snd (base_of base) < ts" using ts by simp
  then have "fold (replay_frame (snd (base_of base))) (cs @ [(ts, w)]) (base_of base) = (fold (push_op ts) w st, ts)"
    using st ts by (simp add: replay_frame_def)
  moreover have "log_of crc it (cs @ [(ts, w)]) (wal @ rec)" using log_of_snoc [OF l r] w by simp
  ultimately have "in_sync crc it arr qs' (fold (push_op ts) w st) ts"
    unfolding in_sync_def using a q(2-4) f' b by (intro conjI exI [of _ snap] exI [of _ "wal @ rec"] exI [of _ base] exI [of _ "cs @ [(ts, w)]"]) simp_all
  then show ?thesis using q(1) by blast
qed

lemma sync_snapshot:
  assumes s: "in_sync crc it arr qs st0 ts0" and ts: "ts0 \<le> ts" and ok: "store_ok ts st" and d: "write_snapshot_file ts st = Ok data"
  shows "\<exists>qs1 qs2. calm_write arr (Snapshot ts st) qs = (Ok (), qs1) \<and> in_sync crc it arr qs1 (latest_only ts (snapshot_entries st)) ts
    \<and> calm_write arr Truncate qs1 = (Ok (), qs2) \<and> in_sync crc it arr qs2 (latest_only ts (snapshot_entries st)) ts"
proof -
  let ?st = "latest_only ts (snapshot_entries st)"
  from s obtain snap wal base cs where a: "arrival_ok arr" "1 \<le> qs_quorum qs" "qs_quorum qs \<le> length (qs_replicas qs)" "qs_pending qs = []"
    and e: "at_end qs" and f: "same_files snap wal qs" and l: "log_of crc it cs wal"
    and st: "fold (replay_frame (snd (base_of base))) cs (base_of base) = (st0, ts0)" by (auto simp: in_sync_def)
  let ?g = "\<lambda>r. r\<lparr>qr_snapshot := Some data\<rparr>" and ?h = "\<lambda>r. r\<lparr>qr_wal := [], qr_pos := Some 0\<rparr>"
  have "quorum_task no_fault (Snapshot ts st) r = (Ok (), ?g r)" if "r \<in> set (qs_replicas qs)" for r
    using e that d by (auto simp: quorum_task_def with_replica_def at_end_def local_write_snapshot_def no_fault_def)
  from calm_write_ok [OF a this] obtain qs1 where q1: "calm_write arr (Snapshot ts st) qs = (Ok (), qs1)" "qs_replicas qs1 = map ?g (qs_replicas qs)"
    "qs_quorum qs1 = qs_quorum qs" "qs_pending qs1 = []" by blast
  have f1: "same_files (Some data) wal qs1" "at_end qs1" using f e by (auto simp: same_files_def at_end_def q1(2))
  have a1: "1 \<le> qs_quorum qs1" "qs_quorum qs1 \<le> length (qs_replicas qs1)" using a q1 by simp_all
  have "quorum_task no_fault Truncate r = (Ok (), ?h r)" if "r \<in> set (qs_replicas qs1)" for r
    using f1(2) that by (auto simp: quorum_task_def with_replica_def at_end_def local_truncate_def no_fault_def)
  from calm_write_ok [OF a(1) a1 q1(4) this] obtain qs2 where q2: "calm_write arr Truncate qs1 = (Ok (), qs2)" "qs_replicas qs2 = map ?h (qs_replicas qs1)"
    "qs_quorum qs2 = qs_quorum qs1" "qs_pending qs2 = []" by blast
  have f2: "same_files (Some data) [] qs2" "at_end qs2" using f1 by (auto simp: same_files_def at_end_def q2(2))
  have ld: "load_snapshot_file (Some data) = Ok (Some (?st, ts))" using load_written_snapshot [OF ok d] .
  have wf: "om_wf ?st" using latest_only_reads(1) [OF ok] by (simp add: store_ok_def)
  have "\<And>c. c \<in> set cs \<Longrightarrow> fst c \<le> ts"
    using replay_frames_max [of "snd (base_of base)" "base_of base" cs] st ts by fastforce
  then have skip: "fold (replay_frame ts) cs (?st, ts) = (?st, ts)" by (rule replay_frames_skip)
  have "in_sync crc it arr qs1 ?st ts"
    unfolding in_sync_def using a(1) a1 q1(4) f1 ld wf l skip
    by (intro conjI exI [of _ "Some data"] exI [of _ wal] exI [of _ "Some (?st, ts)"] exI [of _ cs]) (simp_all add: base_of_def)
  moreover have "hash_order it" using l by (simp add: log_of_def)
  then have "in_sync crc it arr qs2 ?st ts"
    unfolding in_sync_def using a(1) a1 q2 f2 ld wf log_of_Nil [of it crc]
    by (intro conjI exI [of _ "Some data"] exI [of _ "[]"] exI [of _ "Some (?st, ts)"] exI [of _ "[]"]) (simp_all add: base_of_def)
  ultimately show ?thesis using q1(1) q2(1) by blast
qed

lemma sync_snapshot_error:
  assumes s: "in_sync crc it arr qs st0 ts0" and d: "write_snapshot_file ts st = Err e"
  shows "\<exists>e' qs1. calm_write arr (Snapshot ts st) qs = (Err e', qs1) \<and> in_sync crc it arr qs1 st0 ts0"
proof -
  from s have a: "arrival_ok arr" "1 \<le> qs_quorum qs" "qs_pending qs = []" and e: "at_end qs" by (auto simp: in_sync_def)
  have "quorum_task no_fault (Snapshot ts st) r = (Err e, r)" if "r \<in> set (qs_replicas qs)" for r
    using e that d by (auto simp: quorum_task_def with_replica_def at_end_def local_write_snapshot_def)
  from calm_write_err [OF a this] obtain qs' e' where q: "calm_write arr (Snapshot ts st) qs = (Err e', qs')" "qs_replicas qs' = qs_replicas qs"
    "qs_quorum qs' = qs_quorum qs" "qs_pending qs' = []" by blast
  have "in_sync crc it arr qs' st0 ts0" using s q by (simp add: in_sync_def at_end_def same_files_def)
  then show ?thesis using q(1) by blast
qed

lemma sync_recover:
  assumes s: "in_sync crc it arr qs st ts"
  shows "\<exists>snap qs1 qs2. quorum_load_snapshot (\<lambda>_. no_fault) (quorum_crash qs) = (Ok snap, qs1)
    \<and> quorum_replay_wal crc (\<lambda>_. no_fault) qs1 = (Ok (st, ts), qs2) \<and> in_sync crc it arr qs2 st ts"
proof -
  from s obtain snap wal base cs where a: "arrival_ok arr" "1 \<le> qs_quorum qs" "qs_quorum qs \<le> length (qs_replicas qs)"
    and f: "same_files snap wal qs" and b: "load_snapshot_file snap = Ok base" "om_wf (fst (base_of base))" and l: "log_of crc it cs wal"
    and st: "fold (replay_frame (snd (base_of base))) cs (base_of base) = (st, ts)" by (auto simp: in_sync_def)
  let ?qs = "quorum_crash qs" and ?n = "length (qs_replicas qs)"
  have f0: "same_files snap wal ?qs" "length (qs_replicas ?qs) = ?n" "qs_pending ?qs = []" "qs_quorum ?qs = qs_quorum qs"
    using f by (auto simp: same_files_def quorum_crash_def)
  have n: "[0..<?n] \<noteq> []" using a by auto
  have sub: "set [0..<?n] \<subseteq> {..<length (qs_replicas ?qs)}" using f0(2) by auto
  obtain qs1 where q1: "load_snapshots (\<lambda>_. no_fault) [0..<?n] None False None ?qs = (Ok base, qs1)" "same_files snap wal qs1"
    "length (qs_replicas qs1) = length (qs_replicas ?qs)" "qs_quorum qs1 = qs_quorum ?qs" "qs_pending qs1 = qs_pending ?qs"
    using load_snapshots_same [OF b(1) f0(1) sub, of None False None] n by blast
  have n1: "length (qs_replicas qs1) = ?n" using q1(3) f0(2) by simp
  have rp: "replay_wal_with_base crc wal (fst (base_of base)) (snd (base_of base)) = Ok (st, ts, length wal)"
    using recover_whole_log [OF l b(2), of "snd (base_of base)"] st by simp
  have sub1: "set [0..<?n] \<subseteq> {..<length (qs_replicas qs1)}" using n1 by auto
  obtain qs2 where q2: "replay_replicas crc (\<lambda>_. no_fault) [0..<?n] None None qs1 = (Ok (st, ts), qs2)" "same_files snap wal qs2"
    "length (qs_replicas qs2) = length (qs_replicas qs1)" "qs_quorum qs2 = qs_quorum qs1" "qs_pending qs2 = qs_pending qs1"
    "\<forall>i < length (qs_replicas qs1). i \<in> set [0..<?n] \<or> qr_pos (qs_replicas qs1 ! i) = Some (length wal) \<longrightarrow> qr_pos (qs_replicas qs2 ! i) = Some (length wal)"
    using replay_replicas_same [OF b(1) rp q1(2) sub1, of None None] n by blast
  have n2: "length (qs_replicas qs2) = ?n" "qs_quorum qs2 = qs_quorum qs" "qs_pending qs2 = []" using q1 q2 n1 f0 by simp_all
  have pos: "qr_pos (qs_replicas qs2 ! i) = Some (length wal)" if "i < ?n" for i using q2(6) n1 that by simp
  have "at_end qs2" unfolding at_end_def
  proof
    fix r assume "r \<in> set (qs_replicas qs2)"
    then obtain i where "i < ?n" "r = qs_replicas qs2 ! i" using n2(1) by (auto simp: in_set_conv_nth)
    then show "qr_pos r = Some (length (qr_wal r))" using pos [of i] q2(2) n2(1) by (auto simp: same_files_def)
  qed
  then have "in_sync crc it arr qs2 st ts"
    unfolding in_sync_def using a n2 q2(2) b l st by (intro conjI exI [of _ snap] exI [of _ wal] exI [of _ base] exI [of _ cs]) simp_all
  moreover have "quorum_load_snapshot (\<lambda>_. no_fault) ?qs = (Ok base, qs1)" using q1(1) f0(2) by (simp add: quorum_load_snapshot_def)
  moreover have "quorum_replay_wal crc (\<lambda>_. no_fault) qs1 = (Ok (st, ts), qs2)" using q2(1) n1 by (simp add: quorum_replay_wal_def)
  ultimately show ?thesis by blast
qed

interpretation quorum: durable_storage "quorum_trait crc arr" quorum_crash crc it "in_sync crc it arr" for crc it arr
proof unfold_locales
  show "\<exists>s'. ts_append_wal_record (quorum_trait crc arr) rec s = (Ok (), s') \<and> in_sync crc it arr s' (fold (push_op ts) w st) ts"
    if "in_sync crc it arr s st ts0" "ts0 < ts" "wset_ok w" "commit_record crc it (ts, w) = Ok rec" for s st ts0 ts w rec
    using sync_append [OF that] by (simp add: quorum_trait_def)
  show "\<exists>s1 s2. ts_write_snapshot (quorum_trait crc arr) ts st s = (Ok (), s1) \<and> in_sync crc it arr s1 (latest_only ts (snapshot_entries st)) ts
      \<and> ts_truncate_wal (quorum_trait crc arr) s1 = (Ok (), s2) \<and> in_sync crc it arr s2 (latest_only ts (snapshot_entries st)) ts"
    if "in_sync crc it arr s st0 ts0" "ts0 \<le> ts" "store_ok ts st" "write_snapshot_file ts st = Ok data" for s st0 ts0 ts st data
    using sync_snapshot [OF that] by (simp add: quorum_trait_def)
  show "\<exists>e' s1. ts_write_snapshot (quorum_trait crc arr) ts st s = (Err e', s1) \<and> in_sync crc it arr s1 st0 ts0"
    if "in_sync crc it arr s st0 ts0" "write_snapshot_file ts st = Err e" for s st0 ts0 ts st e
    using sync_snapshot_error [OF that] by (simp add: quorum_trait_def)
  show "\<exists>snap s1 s2. ts_load_snapshot (quorum_trait crc arr) (quorum_crash s) = (Ok snap, s1)
      \<and> ts_replay_wal (quorum_trait crc arr) (fst (base_of snap)) (snd (base_of snap)) s1 = (Ok (st, ts), s2) \<and> in_sync crc it arr s2 st ts"
    if "in_sync crc it arr s st ts" for s st ts
    using sync_recover [OF that] by (simp add: quorum_trait_def)
qed

end
