(* ===== verification/Txn_Manager.thy ===== *)
theory Txn_Manager
  imports Txn_Storage
begin

text \<open>
  Transactions over the versioned store (\<open>txn_kv/manager.rs\<close>): snapshot reads, buffered writes, range scans,
  and commit with first-committer-wins validation.

  A manager holds the store, the commit timestamp and the state of its storage, whose operations are the
  record \<open>txn_storage\<close>. The commit lock makes commits and checkpoints exclude each other but not readers and
  new transactions, so a commit is also given by its blocks: \<open>commit_validate\<close>, \<open>commit_reserve\<close> (which
  advances the timestamp), the append, and \<open>commit_publish\<close> (which adds the versions). Time is a number of
  nanoseconds; \<open>it\<close> is the iteration order of the hash map that holds the write set.
\<close>

section \<open>Operations\<close>

record 's txn_manager =
  tm_store :: vstore
  tm_commit_ts :: u64
  tm_storage :: 's

record txn =
  tx_read_ts :: u64
  tx_started_at :: nat
  tx_timeout :: "nat option"
  tx_write_set :: wops
  tx_read_only :: bool

definition open_with_storage :: "('s, 'x) txn_storage_scheme \<Rightarrow> 's \<Rightarrow> 's txn_manager tres \<times> 's" where
  "open_with_storage ops s =
    (case ts_load_snapshot ops s of
       (Ok snapshot, s1) \<Rightarrow>
         (let (base_store, base_ts) = (case snapshot of Some b \<Rightarrow> b | None \<Rightarrow> ([], 0)) in
          case ts_replay_wal ops base_store base_ts s1 of
            (Ok (store, max_ts), s2) \<Rightarrow> (Ok \<lparr>tm_store = store, tm_commit_ts = max_ts, tm_storage = s2\<rparr>, s2)
          | (Err e, s2) \<Rightarrow> (Err e, s2)
          | (Panic, s2) \<Rightarrow> (Panic, s2))
     | (Err e, s1) \<Rightarrow> (Err e, s1)
     | (Panic, s1) \<Rightarrow> (Panic, s1))"

definition txn_checkpoint :: "('s, 'x) txn_storage_scheme \<Rightarrow> 's txn_manager \<Rightarrow> unit tres \<times> 's txn_manager" where
  "txn_checkpoint ops m =
    (case ts_write_snapshot ops (tm_commit_ts m) (tm_store m) (tm_storage m) of
       (Ok _, s1) \<Rightarrow> (case ts_truncate_wal ops s1 of (res, s2) \<Rightarrow> (res, m\<lparr>tm_storage := s2\<rparr>))
     | (Err e, s1) \<Rightarrow> (Err e, m\<lparr>tm_storage := s1\<rparr>)
     | (Panic, s1) \<Rightarrow> (Panic, m\<lparr>tm_storage := s1\<rparr>))"

definition begin_tx :: "nat \<Rightarrow> bool \<Rightarrow> nat option \<Rightarrow> 's txn_manager \<Rightarrow> txn" where
  "begin_tx now read_only timeout m =
    \<lparr>tx_read_ts = tm_commit_ts m, tx_started_at = now, tx_timeout = timeout, tx_write_set = [], tx_read_only = read_only\<rparr>"

definition begin_ro_timeout :: "nat \<Rightarrow> nat \<Rightarrow> 's txn_manager \<Rightarrow> txn" where
  "begin_ro_timeout now timeout = begin_tx now True (Some timeout)"

definition begin_rw_timeout :: "nat \<Rightarrow> nat \<Rightarrow> 's txn_manager \<Rightarrow> txn" where
  "begin_rw_timeout now timeout = begin_tx now False (Some timeout)"

definition ensure_not_timed_out :: "nat \<Rightarrow> txn \<Rightarrow> unit tres" where
  "ensure_not_timed_out now t =
    (case tx_timeout t of Some timeout \<Rightarrow> if now - tx_started_at t > timeout then Err TTxnTimeout else Ok () | None \<Rightarrow> Ok ())"

definition parse_key :: "bytes \<Rightarrow> bytes tres" where
  "parse_key k = (if length k \<noteq> KEY_SIZE then Err (TInvalidKeySize (length k) KEY_SIZE) else Ok k)"

definition tx_get :: "nat \<Rightarrow> 's txn_manager \<Rightarrow> txn \<Rightarrow> bytes \<Rightarrow> bytes option tres" where
  "tx_get now m t key =
    res_bind (ensure_not_timed_out now t) (\<lambda>_. res_bind (parse_key key) (\<lambda>k.
      case om_lookup (tx_write_set t) k of
        Some entry \<Rightarrow> Ok entry
      | None \<Rightarrow> Ok (read_at_ts (tm_store m) k (tx_read_ts t))))"

definition tx_put :: "nat \<Rightarrow> bytes \<Rightarrow> bytes \<Rightarrow> txn \<Rightarrow> txn tres" where
  "tx_put now key val t =
    res_bind (ensure_not_timed_out now t) (\<lambda>_. res_bind (parse_key key) (\<lambda>k.
      if length val > VALUE_SIZE then Err (TInvalidValueSize (length val) VALUE_SIZE)
      else Ok (t\<lparr>tx_write_set := om_insert k (Some val) (tx_write_set t)\<rparr>)))"

definition tx_delete :: "nat \<Rightarrow> bytes \<Rightarrow> txn \<Rightarrow> txn tres" where
  "tx_delete now key t =
    res_bind (ensure_not_timed_out now t) (\<lambda>_. res_bind (parse_key key) (\<lambda>k.
      Ok (t\<lparr>tx_write_set := om_insert k None (tx_write_set t)\<rparr>)))"

text \<open>\<open>BTreeMap::range\<close> panics when the start of the range is behind its end.\<close>

definition merge_store :: "u64 \<Rightarrow> vstore \<Rightarrow> (bytes, bytes) omap" where
  "merge_store read_ts part =
    fold (\<lambda>(k, versions) merged.
      case Option.bind (List.find (\<lambda>v. ve_commit_ts v \<le> read_ts) (rev versions)) ve_value of
        Some val \<Rightarrow> om_insert k val merged | None \<Rightarrow> merged) part []"

definition merge_writes :: "bytes \<Rightarrow> bytes \<Rightarrow> wops \<Rightarrow> (bytes, bytes) omap \<Rightarrow> (bytes, bytes) omap" where
  "merge_writes start end' =
    fold (\<lambda>(k, entry) merged.
      if k \<ge> start \<and> k < end' then (case entry of Some val \<Rightarrow> om_insert k val merged | None \<Rightarrow> om_remove k merged)
      else merged)"

definition tx_scan :: "(wops \<Rightarrow> wops) \<Rightarrow> nat \<Rightarrow> 's txn_manager \<Rightarrow> txn \<Rightarrow> bytes \<Rightarrow> bytes \<Rightarrow> nat \<Rightarrow> (bytes \<times> bytes) list tres" where
  "tx_scan it now m t start_inclusive end_exclusive limit =
    res_bind (ensure_not_timed_out now t) (\<lambda>_.
      if limit = 0 then Ok []
      else res_bind (parse_key start_inclusive) (\<lambda>start. res_bind (parse_key end_exclusive) (\<lambda>end'.
        if start = end' then Ok []
        else if start > end' then Panic
        else Ok (take limit (merge_writes start end' (it (tx_write_set t))
               (merge_store (tx_read_ts t) (om_range start end' (tm_store m))))))))"

section \<open>Commit\<close>

definition commit_validate :: "'s txn_manager \<Rightarrow> txn \<Rightarrow> bool" where
  "commit_validate m t =
    list_all (\<lambda>(k, _). case om_lookup (tm_store m) k of None \<Rightarrow> True
      | Some versions \<Rightarrow> versions = [] \<or> \<not> ve_commit_ts (last versions) > tx_read_ts t) (tx_write_set t)"

text \<open>\<open>fetch_add\<close> wraps, and the addition to its result overflows when the old value is the largest one.\<close>

definition commit_reserve :: "'s txn_manager \<Rightarrow> u64 tres \<times> 's txn_manager" where
  "commit_reserve m =
    (if tm_commit_ts m = - 1 then Panic else Ok (tm_commit_ts m + 1), m\<lparr>tm_commit_ts := tm_commit_ts m + 1\<rparr>)"

definition commit_publish :: "(wops \<Rightarrow> wops) \<Rightarrow> u64 \<Rightarrow> txn \<Rightarrow> 's txn_manager \<Rightarrow> 's txn_manager" where
  "commit_publish it commit_ts t m = m\<lparr>tm_store := fold (push_op commit_ts) (it (tx_write_set t)) (tm_store m)\<rparr>"

definition commit_append :: "(bytes \<Rightarrow> u32) \<Rightarrow> (wops \<Rightarrow> wops) \<Rightarrow> ('s, 'x) txn_storage_scheme \<Rightarrow> u64 \<Rightarrow> txn \<Rightarrow> 's txn_manager
    \<Rightarrow> unit tres \<times> 's txn_manager" where
  "commit_append crc it ops commit_ts t m =
    (case commit_record crc it (commit_ts, tx_write_set t) of
       Ok rec \<Rightarrow> (case ts_append_wal_record ops rec (tm_storage m) of (res, s) \<Rightarrow> (res, m\<lparr>tm_storage := s\<rparr>))
     | Err e \<Rightarrow> (Err e, m)
     | Panic \<Rightarrow> (Panic, m))"

definition tx_commit :: "(bytes \<Rightarrow> u32) \<Rightarrow> (wops \<Rightarrow> wops) \<Rightarrow> ('s, 'x) txn_storage_scheme \<Rightarrow> nat \<Rightarrow> txn \<Rightarrow> 's txn_manager
    \<Rightarrow> u64 tres \<times> 's txn_manager" where
  "tx_commit crc it ops now t m =
    (case ensure_not_timed_out now t of
       Ok _ \<Rightarrow>
         if tx_read_only t \<or> tx_write_set t = [] then (Ok (tx_read_ts t), m)
         else if \<not> commit_validate m t then (Err WriteWriteConflict, m)
         else (case commit_reserve m of
             (Ok commit_ts, m1) \<Rightarrow> (case commit_append crc it ops commit_ts t m1 of
                 (Ok _, m2) \<Rightarrow> (Ok commit_ts, commit_publish it commit_ts t m2)
               | (Err e, m2) \<Rightarrow> (Err e, m2)
               | (Panic, m2) \<Rightarrow> (Panic, m2))
           | (Err e, m1) \<Rightarrow> (Err e, m1)
           | (Panic, m1) \<Rightarrow> (Panic, m1))
     | Err e \<Rightarrow> (Err e, m)
     | Panic \<Rightarrow> (Panic, m))"

section \<open>What the properties speak about\<close>

text \<open>What a transaction sees of a key, its own writes first.\<close>

definition tx_view :: "'s txn_manager \<Rightarrow> txn \<Rightarrow> bytes \<Rightarrow> bytes option" where
  "tx_view m t k = (case om_lookup (tx_write_set t) k of Some e \<Rightarrow> e | None \<Rightarrow> read_at_ts (tm_store m) k (tx_read_ts t))"

definition txn_ok :: "txn \<Rightarrow> bool" where
  "txn_ok t \<longleftrightarrow> wset_ok (tx_write_set t)"

text \<open>What the manager does between two steps of a transaction: commits of other transactions, whatever they
  return, and checkpoints. The timestamps are assumed not to run out.\<close>

inductive mgr_step :: "(bytes \<Rightarrow> u32) \<Rightarrow> (wops \<Rightarrow> wops) \<Rightarrow> ('s, 'x) txn_storage_scheme \<Rightarrow> 's txn_manager \<Rightarrow> 's txn_manager \<Rightarrow> bool"
  for crc it ops where
  commit: "txn_ok t \<Longrightarrow> tm_commit_ts m \<noteq> - 1 \<Longrightarrow> tx_commit crc it ops now t m = (res, m') \<Longrightarrow> mgr_step crc it ops m m'"
| checkpoint: "txn_checkpoint ops m = (res, m') \<Longrightarrow> mgr_step crc it ops m m'"

definition two_version_manager :: "unit txn_manager" where
  "two_version_manager = \<lparr>tm_store = [(key_a, [\<lparr>ve_commit_ts = 1, ve_value = Some [1]\<rparr>, \<lparr>ve_commit_ts = 4, ve_value = Some [2]\<rparr>])],
     tm_commit_ts = 4, tm_storage = ()\<rparr>"

definition sink_storage :: "unit txn_storage" where
  "sink_storage = \<lparr>ts_load_snapshot = \<lambda>s. (Ok None, s), ts_write_snapshot = \<lambda>_ _ s. (Ok (), s), ts_replay_wal = \<lambda>st ts s. (Ok (st, ts), s),
     ts_append_wal_record = \<lambda>_ s. (Ok (), s), ts_truncate_wal = \<lambda>s. (Ok (), s)\<rparr>"

definition newer_version :: "bytes \<Rightarrow> u64 \<Rightarrow> 's txn_manager \<Rightarrow> bool" where
  "newer_version k r m \<longleftrightarrow> r \<le> tm_commit_ts m \<and> (\<exists>vs. om_lookup (tm_store m) k = Some vs \<and> vs \<noteq> [] \<and> r < ve_commit_ts (last vs))"

text \<open>A manager whose storage durably holds what a reader at its commit timestamp or later sees.\<close>

definition mgr_durable :: "('s \<Rightarrow> vstore \<Rightarrow> u64 \<Rightarrow> bool) \<Rightarrow> 's txn_manager \<Rightarrow> bool" where
  "mgr_durable durable m \<longleftrightarrow> store_ok (tm_commit_ts m) (tm_store m)
    \<and> (\<exists>st ts. durable (tm_storage m) st ts \<and> ts \<le> tm_commit_ts m
       \<and> (\<forall>k r. tm_commit_ts m \<le> r \<longrightarrow> read_at_ts st k r = read_at_ts (tm_store m) k r))"



section \<open>Versioned reads\<close>

lemma read_after_push:
  "distinct (map fst ws) \<Longrightarrow> read_at_ts (fold (push_op ts) ws store) k r =
    (if ts \<le> r then (case map_of ws k of Some v \<Rightarrow> v | None \<Rightarrow> read_at_ts store k r) else read_at_ts store k r)"
  by (auto simp: read_at_ts_def push_ops_lookup split: option.splits)

lemma merge_store_lookup:
  assumes "distinct (map fst part)"
  shows "om_wf (merge_store r part) \<and> om_lookup (merge_store r part) k =
    (case map_of part k of None \<Rightarrow> None
     | Some versions \<Rightarrow> Option.bind (List.find (\<lambda>v. ve_commit_ts v \<le> r) (rev versions)) ve_value)"
proof -
  let ?vis = "\<lambda>versions. Option.bind (List.find (\<lambda>v. ve_commit_ts v \<le> r) (rev versions)) ve_value"
  let ?F = "\<lambda>(k, versions) merged. case ?vis versions of Some val \<Rightarrow> om_insert k val merged | None \<Rightarrow> merged"
  have "om_wf acc \<Longrightarrow> om_wf (fold ?F part acc) \<and> om_lookup (fold ?F part acc) k =
      (case Option.bind (map_of part k) ?vis of None \<Rightarrow> om_lookup acc k | Some v \<Rightarrow> Some v)" for acc
    using assms
  proof (induction part arbitrary: acc)
    case (Cons x part)
    obtain k' vs where x: "x = (k', vs)" by (cases x)
    have n: "map_of part k' = None" using Cons.prems x by (simp add: map_of_eq_None_iff)
    define acc' where "acc' = (case ?vis vs of Some val \<Rightarrow> om_insert k' val acc | None \<Rightarrow> acc)"
    have f: "fold ?F (x # part) acc = fold ?F part acc'" by (simp add: x acc'_def)
    have wf: "om_wf acc'" using Cons.prems(1) by (simp add: acc'_def om_wf_insert split: option.splits)
    have look: "om_lookup acc' k = (if k = k' then (case ?vis vs of None \<Rightarrow> om_lookup acc k | Some v \<Rightarrow> Some v) else om_lookup acc k)"
      by (simp add: acc'_def om_lookup_insert split: option.splits)
    show ?case
    proof (cases "k = k'")
      case True
      then show ?thesis unfolding f using Cons.IH [OF wf] Cons.prems n look by (simp add: x cong: option.case_cong)
    next
      case False
      then show ?thesis unfolding f using Cons.IH [OF wf] Cons.prems look by (simp add: x cong: option.case_cong)
    qed
  qed simp
  from this [of "[]"] show ?thesis by (simp add: merge_store_def split: option.splits)
qed

lemma merge_writes_lookup:
  "om_wf acc \<Longrightarrow> distinct (map fst ws) \<Longrightarrow> om_wf (merge_writes a b ws acc) \<and> om_lookup (merge_writes a b ws acc) k =
    (if a \<le> k \<and> k < b then (case map_of ws k of Some e \<Rightarrow> e | None \<Rightarrow> om_lookup acc k) else om_lookup acc k)"
  unfolding merge_writes_def
proof (induction ws arbitrary: acc)
  case (Cons x ws)
  let ?F = "\<lambda>(k, entry) merged. if k \<ge> a \<and> k < b then (case entry of Some v \<Rightarrow> om_insert k v merged | None \<Rightarrow> om_remove k merged) else merged"
  obtain k' e where x: "x = (k', e)" by (cases x)
  have n: "map_of ws k' = None" using Cons.prems x by (simp add: map_of_eq_None_iff)
  define acc' where "acc' = (if k' \<ge> a \<and> k' < b then (case e of Some v \<Rightarrow> om_insert k' v acc | None \<Rightarrow> om_remove k' acc) else acc)"
  have f: "fold ?F (x # ws) acc = fold ?F ws acc'" by (simp add: x acc'_def)
  have wf: "om_wf acc'" using Cons.prems(1) by (simp add: acc'_def om_wf_insert om_wf_remove split: option.splits)
  have look: "om_lookup acc' k = (if k = k' \<and> a \<le> k \<and> k < b then e else om_lookup acc k)"
    by (auto simp: acc'_def om_lookup_insert om_lookup_remove split: option.splits)
  show ?case
  proof (cases "k = k'")
    case True
    then show ?thesis unfolding f using Cons.IH [OF wf] Cons.prems n look by (simp add: x cong: option.case_cong)
  next
    case False
    then show ?thesis unfolding f using Cons.IH [OF wf] Cons.prems look by (simp add: x cong: option.case_cong)
  qed
qed simp

lemma om_distinct: "om_wf m \<Longrightarrow> distinct (map fst m)"
  by (simp add: om_wf_def strict_sorted_iff)

text \<open>What a scan merges is what a get returns for each key of the range.\<close>

lemma scan_merge_lookup:
  assumes "hash_order it" and "om_wf (tm_store m)" and "om_wf (tx_write_set t)"
  shows "om_wf (merge_writes a b (it (tx_write_set t)) (merge_store (tx_read_ts t) (om_range a b (tm_store m))))"
    and "om_lookup (merge_writes a b (it (tx_write_set t)) (merge_store (tx_read_ts t) (om_range a b (tm_store m)))) k =
      (if a \<le> k \<and> k < b then tx_view m t k else None)"
proof -
  have d: "distinct (map fst (tx_write_set t))" using om_distinct [OF assms(3)] .
  note ms = merge_store_lookup [OF om_distinct [OF om_wf_range [OF assms(2), of a b]], of "tx_read_ts t"]
  note mw = merge_writes_lookup [OF conjunct1 [OF ms] hash_order_distinct [OF assms(1) d], of a b]
  show "om_wf (merge_writes a b (it (tx_write_set t)) (merge_store (tx_read_ts t) (om_range a b (tm_store m))))" using mw by simp
  have r: "map_of (om_range a b (tm_store m)) k = (if a \<le> k \<and> k < b then om_lookup (tm_store m) k else None)"
    using om_lookup_range [of a b "tm_store m" k] by (simp add: om_lookup_def)
  show "om_lookup (merge_writes a b (it (tx_write_set t)) (merge_store (tx_read_ts t) (om_range a b (tm_store m)))) k =
      (if a \<le> k \<and> k < b then tx_view m t k else None)"
    using mw [of k] ms [of k] r
    by (auto simp: tx_view_def read_at_ts_def hash_order_map_of [OF assms(1) d] om_lookup_def split: option.splits)
qed

section \<open>Scans agree with gets\<close>

text \<open>C20: A scan is the ordered list of what gets return: for a transaction that has not timed out and bounds of the
  key size it panics exactly when the range is reversed, and otherwise gives the first \<open>limit\<close> bindings, in
  strict key order, of the map that has for every key of the range the value a get of the same transaction
  returns, its own writes and deletes included.\<close>

theorem scan_agrees_with_get:
  assumes "hash_order it" and "om_wf (tm_store m)" and "om_wf (tx_write_set t)"
    and "ensure_not_timed_out now t = Ok ()" and "length a = KEY_SIZE" and "length b = KEY_SIZE"
  shows "if b < a \<and> limit \<noteq> 0 then tx_scan it now m t a b limit = Panic
    else \<exists>found. tx_scan it now m t a b limit = Ok (take limit found) \<and> sorted_wrt (<) (map fst found)
      \<and> (\<forall>k. length k = KEY_SIZE \<and> a \<le> k \<and> k < b \<longrightarrow> tx_get now m t k = Ok (map_of found k))
      \<and> (\<forall>(k, v) \<in> set found. a \<le> k \<and> k < b)"
proof -
  have sc: "tx_scan it now m t a b limit = (if limit = 0 then Ok [] else if a = b then Ok [] else if a > b then Panic
      else Ok (take limit (merge_writes a b (it (tx_write_set t)) (merge_store (tx_read_ts t) (om_range a b (tm_store m))))))"
    using assms(4-6) by (simp add: tx_scan_def parse_key_def)
  have get: "length k = KEY_SIZE \<Longrightarrow> tx_get now m t k = Ok (tx_view m t k)" for k
    using assms(4) by (simp add: tx_get_def parse_key_def tx_view_def split: option.splits)
  define found where "found = merge_writes a b (it (tx_write_set t)) (merge_store (tx_read_ts t) (om_range a b (tm_store m)))"
  have wf: "om_wf found" and look: "om_lookup found k = (if a \<le> k \<and> k < b then tx_view m t k else None)" for k
    unfolding found_def by (rule scan_merge_lookup [OF assms(1-3)])+
  have inr: "a \<le> k \<and> k < b" if "(k, v) \<in> set found" for k v
    using that om_lookup_iff [OF wf, of k v] look [of k] by (simp split: if_splits)
  have "tx_scan it now m t a b limit = Ok (take limit found)" if "\<not> (b < a \<and> limit \<noteq> 0)"
  proof (cases "limit = 0 \<or> a = b")
    case True
    have "a = b \<Longrightarrow> found = []" using inr by (cases found) (auto, fastforce)
    then show ?thesis using True by (auto simp: sc)
  next
    case False
    then show ?thesis using that by (simp add: sc found_def)
  qed
  moreover have "b < a \<and> limit \<noteq> 0 \<Longrightarrow> tx_scan it now m t a b limit = Panic" by (auto simp: sc)
  ultimately show ?thesis using wf look inr get
    by (cases "b < a \<and> limit \<noteq> 0") (auto simp: om_wf_def om_lookup_def intro!: exI [of _ found])
qed

theorem scan_agrees_with_get_witness:
  "\<exists>found. tx_scan rev 5 two_version_manager \<lparr>tx_read_ts = 3, tx_started_at = 0, tx_timeout = Some 10, tx_write_set = [(key_b, Some [9])], tx_read_only = False\<rparr>
      key_a (3 # replicate 15 0) 8 = Ok (take 8 found) \<and> map_of found key_a = Some [1] \<and> map_of found key_b = Some [9]"
proof -
  let ?t = "\<lparr>tx_read_ts = 3, tx_started_at = 0, tx_timeout = Some 10, tx_write_set = [(key_b, Some [9])], tx_read_only = False\<rparr>"
  let ?a = key_a and ?b = "3 # replicate 15 0 :: bytes"
  have lt: "?a < ?b" "?a \<le> key_a" "key_a < ?b" "?a \<le> key_b" "key_b < ?b"
    by (simp_all add: key_a_def key_b_def)
  have "\<exists>found. tx_scan rev 5 two_version_manager ?t ?a ?b 8 = Ok (take 8 found)
     \<and> (\<forall>k. length k = 16 \<and> ?a \<le> k \<and> k < ?b \<longrightarrow> tx_get 5 two_version_manager ?t k = Ok (map_of found k))"
  proof -
    have h: "hash_order rev" "om_wf (tm_store two_version_manager)" "om_wf (tx_write_set ?t)" "ensure_not_timed_out 5 ?t = Ok ()"
      "length ?a = 16" "length ?b = 16"
      by (simp_all add: hash_order_def two_version_manager_def om_wf_def ensure_not_timed_out_def key_a_def)
    have "\<not> (?b < ?a \<and> (8 :: nat) \<noteq> 0)" using lt(1) by (simp add: not_less order.strict_implies_order)
    then show ?thesis using scan_agrees_with_get [OF h, of 8] by (simp only: if_False) blast
  qed
  then obtain found where f: "tx_scan rev 5 two_version_manager ?t ?a ?b 8 = Ok (take 8 found)"
    "\<And>k. length k = 16 \<Longrightarrow> ?a \<le> k \<Longrightarrow> k < ?b \<Longrightarrow> tx_get 5 two_version_manager ?t k = Ok (map_of found k)" by blast
  have "tx_get 5 two_version_manager ?t key_a = Ok (Some [1])" "tx_get 5 two_version_manager ?t key_b = Ok (Some [9])"
    by (simp_all add: tx_get_def two_version_manager_def ensure_not_timed_out_def parse_key_def om_lookup_def read_at_ts_def key_a_def key_b_def)
  then show ?thesis using f(1) f(2) [of key_a] f(2) [of key_b] lt by (intro exI [of _ found]) (auto simp: key_a_def key_b_def)
qed

section \<open>Snapshot isolation\<close>

lemma commit_cases:
  assumes "tx_commit crc it ops now t m = (res, m')"
  shows "(tm_store m' = tm_store m \<and> (tm_commit_ts m' = tm_commit_ts m \<or> tm_commit_ts m' = tm_commit_ts m + 1))
    \<or> (res = Ok (tm_commit_ts m + 1) \<and> tm_commit_ts m \<noteq> - 1 \<and> tm_commit_ts m' = tm_commit_ts m + 1
       \<and> tm_store m' = fold (push_op (tm_commit_ts m + 1)) (it (tx_write_set t)) (tm_store m))"
  using assms
  by (auto simp: tx_commit_def commit_reserve_def commit_append_def commit_publish_def
      split: result.splits prod.splits if_splits)

lemma no_wrap_less: "c \<noteq> - 1 \<Longrightarrow> (r :: u64) \<le> c \<Longrightarrow> r < c + 1"
  using unat_plus_one [of c] by (simp add: word_less_nat_alt word_le_nat_alt)

lemma commit_keeps_reads:
  assumes "hash_order it" and "txn_ok t" and "tx_commit crc it ops now t m = (res, m')" and "r \<le> tm_commit_ts m"
  shows "read_at_ts (tm_store m') k r = read_at_ts (tm_store m) k r"
proof -
  have d: "distinct (map fst (it (tx_write_set t)))"
    using assms(1,2) wset_distinct hash_order_distinct by (simp add: txn_ok_def)
  show ?thesis using commit_cases [OF assms(3)] no_wrap_less [of "tm_commit_ts m" r] assms(4)
    by (auto simp: read_after_push [OF d])
qed

lemma mgr_step_reads:
  assumes "mgr_step crc it ops m m'" and "hash_order it" and "r \<le> tm_commit_ts m"
  shows "read_at_ts (tm_store m') k r = read_at_ts (tm_store m) k r \<and> r \<le> tm_commit_ts m'"
  using assms(1)
proof cases
  case (commit t now res)
  have "tm_commit_ts m' = tm_commit_ts m \<or> tm_commit_ts m' = tm_commit_ts m + 1" using commit_cases [OF commit(3)] by auto
  then have "r \<le> tm_commit_ts m'" using no_wrap_less [OF commit(2) assms(3)] assms(3) by auto
  then show ?thesis using commit_keeps_reads [OF assms(2) commit(1,3) assms(3)] by simp
next
  case (checkpoint res)
  then show ?thesis using assms(3) by (auto simp: txn_checkpoint_def split: result.splits prod.splits)
qed

lemma mgr_step_wf:
  assumes "mgr_step crc it ops m m'" and "om_wf (tm_store m)"
  shows "om_wf (tm_store m')"
  using assms(1)
proof cases
  case (commit t now res)
  then show ?thesis using commit_cases [OF commit(3)] push_ops_wf [OF assms(2)] assms(2) by auto
next
  case (checkpoint res)
  then show ?thesis using assms(2) by (auto simp: txn_checkpoint_def split: result.splits prod.splits)
qed

lemma mgr_steps_reads:
  assumes "(mgr_step crc it ops)\<^sup>*\<^sup>* m m'" and "hash_order it" and "r \<le> tm_commit_ts m"
  shows "(\<forall>k. read_at_ts (tm_store m') k r = read_at_ts (tm_store m) k r) \<and> r \<le> tm_commit_ts m' \<and> (om_wf (tm_store m) \<longrightarrow> om_wf (tm_store m'))"
  using assms
proof (induction rule: rtranclp_induct)
  case (step m1 m2)
  then show ?case using mgr_step_reads [OF step(2) assms(2), of r] mgr_step_wf [OF step(2)] by simp
qed simp

text \<open>C6: Transactions read from a snapshot: once a transaction has begun, no sequence of commits of other transactions and
  of checkpoints changes the result of any of its gets and scans, whether those commits succeed or fail.\<close>

theorem snapshot_isolation:
  assumes "(mgr_step crc it ops)\<^sup>*\<^sup>* m m'" and "hash_order it" and "om_wf (tm_store m)" and "om_wf (tx_write_set t)"
    and "tx_read_ts t \<le> tm_commit_ts m"
  shows "tx_get now m' t k = tx_get now m t k \<and> tx_scan it now m' t a b limit = tx_scan it now m t a b limit"
proof -
  have r: "read_at_ts (tm_store m') k (tx_read_ts t) = read_at_ts (tm_store m) k (tx_read_ts t)" for k
    using mgr_steps_reads [OF assms(1,2,5)] by blast
  have wf: "om_wf (tm_store m')" using mgr_steps_reads [OF assms(1,2,5)] assms(3) by blast
  have v: "tx_view m' t k = tx_view m t k" for k by (simp add: tx_view_def r cong: option.case_cong)
  let ?merge = "\<lambda>m. merge_writes a b (it (tx_write_set t)) (merge_store (tx_read_ts t) (om_range a b (tm_store m)))"
  have "?merge m' = ?merge m"
  proof (rule om_ext)
    show "om_lookup (?merge m') = om_lookup (?merge m)"
      using scan_merge_lookup(2) [OF assms(2) wf assms(4)] scan_merge_lookup(2) [OF assms(2-4)] v by (simp add: fun_eq_iff)
  qed (use scan_merge_lookup(1) [OF assms(2) wf assms(4)] scan_merge_lookup(1) [OF assms(2-4)] in auto)
  then have "tx_scan it now m' t a b limit = tx_scan it now m t a b limit"
    by (cases "length a = KEY_SIZE"; cases "length b = KEY_SIZE") (simp_all add: tx_scan_def parse_key_def)
  then show ?thesis by (simp add: tx_get_def r cong: option.case_cong)
qed

theorem snapshot_isolation_witness:
  "\<exists>m'. tx_commit (\<lambda>_. 0) rev sink_storage 0 \<lparr>tx_read_ts = 4, tx_started_at = 0, tx_timeout = None, tx_write_set = [(key_a, Some [3])], tx_read_only = False\<rparr>
      two_version_manager = (Ok 5, m')
    \<and> tx_get 0 m' (begin_tx 0 False None two_version_manager) key_a = Ok (Some [2])"
proof -
  let ?t1 = "\<lparr>tx_read_ts = 4, tx_started_at = 0, tx_timeout = None, tx_write_set = [(key_a, Some [3])], tx_read_only = False\<rparr>"
  let ?t = "begin_tx 0 False None two_version_manager"
  obtain m' where c: "tx_commit (\<lambda>_. 0) rev sink_storage 0 ?t1 two_version_manager = (Ok 5, m')"
    by (simp add: tx_commit_def ensure_not_timed_out_def commit_validate_def two_version_manager_def om_lookup_def commit_reserve_def
        commit_append_def commit_record_def encode_payload_def sink_storage_def)
  have "txn_ok ?t1" by (simp add: txn_ok_def wset_ok_def om_wf_def key_a_def)
  then have "mgr_step (\<lambda>_. 0) rev sink_storage two_version_manager m'"
    using c by (intro mgr_step.commit) (auto simp: two_version_manager_def)
  then have "tx_get 0 m' ?t key_a = tx_get 0 two_version_manager ?t key_a"
    using snapshot_isolation [of "\<lambda>_. 0" rev sink_storage two_version_manager m' ?t 0 key_a]
    by (auto simp: hash_order_def two_version_manager_def om_wf_def begin_tx_def)
  moreover have "tx_get 0 two_version_manager ?t key_a = Ok (Some [2])"
    by (simp add: tx_get_def two_version_manager_def ensure_not_timed_out_def parse_key_def om_lookup_def read_at_ts_def key_a_def begin_tx_def)
  ultimately show ?thesis using c by auto
qed

section \<open>Conflicts\<close>

lemma validate_fails:
  assumes "k \<in> fst ` set (tx_write_set t)" and "om_lookup (tm_store m) k = Some vs" and "vs \<noteq> []" and "tx_read_ts t < ve_commit_ts (last vs)"
  shows "\<not> commit_validate m t"
  using assms by (force simp: commit_validate_def list_all_iff)

lemma mgr_step_newer:
  assumes "mgr_step crc it ops m m'" and "hash_order it" and "newer_version k r m"
  shows "newer_version k r m'"
proof -
  have r: "r \<le> tm_commit_ts m" using assms(3) by (simp add: newer_version_def)
  have r': "r \<le> tm_commit_ts m'" using mgr_step_reads [OF assms(1,2) r] by simp
  show ?thesis using assms(1)
  proof cases
    case (commit t now res)
    have d: "distinct (map fst (it (tx_write_set t)))" using assms(2) commit(1) wset_distinct hash_order_distinct by (simp add: txn_ok_def)
    then show ?thesis using commit_cases [OF commit(3)] no_wrap_less [OF commit(2) r] r' assms(3)
      by (auto simp: newer_version_def push_ops_lookup [OF d] split: option.splits)
  next
    case (checkpoint res)
    then show ?thesis using r' assms(3) by (auto simp: newer_version_def txn_checkpoint_def split: result.splits prod.splits)
  qed
qed

lemma commit_makes_newer:
  assumes "hash_order it" and "txn_ok t" and "tx_commit crc it ops now t m = (Ok ts, m')" and "\<not> tx_read_only t"
    and "k \<in> fst ` set (tx_write_set t)" and "r \<le> tm_commit_ts m"
  shows "newer_version k r m'"
proof -
  have c: "tm_commit_ts m \<noteq> - 1" "tm_commit_ts m' = tm_commit_ts m + 1"
    "tm_store m' = fold (push_op (tm_commit_ts m + 1)) (it (tx_write_set t)) (tm_store m)"
    using assms(3-5) by (auto simp: tx_commit_def commit_reserve_def commit_append_def commit_publish_def
      split: result.splits prod.splits if_splits)
  have d: "distinct (map fst (it (tx_write_set t)))" using assms(1,2) wset_distinct hash_order_distinct by (simp add: txn_ok_def)
  have dw: "distinct (map fst (tx_write_set t))" using assms(2) wset_distinct by (simp add: txn_ok_def)
  obtain v where "map_of (tx_write_set t) k = Some v" using assms(5) by (metis map_of_eq_None_iff not_None_eq)
  then show ?thesis using no_wrap_less [OF c(1) assms(6)] c
    by (auto simp: newer_version_def push_ops_lookup [OF d] hash_order_map_of [OF assms(1) dw])
qed

text \<open>C7: The first committer wins: when a transaction has committed a write of a key, every transaction that began
  before that commit and also writes the key is refused with a conflict, however many commits and checkpoints
  lie between, and the refusal changes nothing.\<close>

theorem first_committer_wins:
  assumes "hash_order it" and "txn_ok t1" and "tx_commit crc it ops now t1 m = (Ok ts, m1)" and "\<not> tx_read_only t1"
    and "(mgr_step crc it ops)\<^sup>*\<^sup>* m1 m2"
    and "tx_read_ts t2 \<le> tm_commit_ts m" and "\<not> tx_read_only t2" and "ensure_not_timed_out now2 t2 = Ok ()"
    and "k \<in> fst ` set (tx_write_set t1) \<inter> fst ` set (tx_write_set t2)"
  shows "tx_commit crc it ops now2 t2 m2 = (Err WriteWriteConflict, m2)"
proof -
  have "newer_version k (tx_read_ts t2) m1" using commit_makes_newer [OF assms(1-4) _ assms(6)] assms(9) by blast
  with assms(5) have "newer_version k (tx_read_ts t2) m2"
    by (induction rule: rtranclp_induct) (auto intro: mgr_step_newer [OF _ assms(1)])
  then have "\<not> commit_validate m2 t2" using assms(9) validate_fails [of k t2 m2] by (auto simp: newer_version_def)
  moreover have "tx_write_set t2 \<noteq> []" using assms(9) by auto
  ultimately show ?thesis using assms(7,8) by (simp add: tx_commit_def)
qed

theorem first_committer_wins_witness:
  "\<exists>m1. tx_commit (\<lambda>_. 0) rev sink_storage 0 \<lparr>tx_read_ts = 4, tx_started_at = 0, tx_timeout = None, tx_write_set = [(key_a, Some [3])], tx_read_only = False\<rparr>
      two_version_manager = (Ok 5, m1)
    \<and> tx_commit (\<lambda>_. 0) rev sink_storage 0 \<lparr>tx_read_ts = 4, tx_started_at = 0, tx_timeout = None, tx_write_set = [(key_a, None)], tx_read_only = False\<rparr>
      m1 = (Err WriteWriteConflict, m1)"
proof -
  let ?t1 = "\<lparr>tx_read_ts = 4, tx_started_at = 0, tx_timeout = None, tx_write_set = [(key_a, Some [3])], tx_read_only = False\<rparr>"
  let ?t2 = "\<lparr>tx_read_ts = 4, tx_started_at = 0, tx_timeout = None, tx_write_set = [(key_a, None)], tx_read_only = False\<rparr>"
  obtain m1 where c: "tx_commit (\<lambda>_. 0) rev sink_storage 0 ?t1 two_version_manager = (Ok 5, m1)"
    by (simp add: tx_commit_def ensure_not_timed_out_def commit_validate_def two_version_manager_def om_lookup_def commit_reserve_def
        commit_append_def commit_record_def encode_payload_def sink_storage_def)
  have "txn_ok ?t1" by (simp add: txn_ok_def wset_ok_def om_wf_def key_a_def)
  then have "tx_commit (\<lambda>_. 0) rev sink_storage 0 ?t2 m1 = (Err WriteWriteConflict, m1)"
    using first_committer_wins [of rev ?t1 "\<lambda>_. 0" sink_storage 0 two_version_manager 5 m1 m1 ?t2 0 key_a] c
    by (simp add: hash_order_def two_version_manager_def ensure_not_timed_out_def)
  then show ?thesis using c by blast
qed

text \<open>C38: The commit timestamp is published before the versions: a transaction that begins while a commit is between
  its two blocks has a read timestamp that covers the commit, reads the old value of a key until the versions
  are added and the new one afterwards, and a write it bases on the old value passes validation.\<close>

theorem commit_window_breaks_isolation:
  assumes "hash_order it" and "txn_ok t1" and "map_of (tx_write_set t1) k = Some e" and "tm_commit_ts m \<noteq> - 1"
    and "e \<noteq> read_at_ts (tm_store m) k (tm_commit_ts m + 1)" and "commit_reserve m = (Ok ts, m1)"
  shows "tx_get now m1 (begin_tx now False None m1) k = Ok (read_at_ts (tm_store m) k (tm_commit_ts m + 1))
    \<and> tx_get now (commit_publish it ts t1 m1) (begin_tx now False None m1) k = Ok e
    \<and> commit_validate (commit_publish it ts t1 m1) ((begin_tx now False None m1)\<lparr>tx_write_set := [(k, v)]\<rparr>)"
proof -
  have m1: "ts = tm_commit_ts m + 1" "m1 = m\<lparr>tm_commit_ts := ts\<rparr>" using assms(4,6) by (auto simp: commit_reserve_def)
  have dw: "distinct (map fst (tx_write_set t1))" using assms(2) wset_distinct by (simp add: txn_ok_def)
  have d: "distinct (map fst (it (tx_write_set t1)))" using hash_order_distinct [OF assms(1) dw] .
  have k: "length k = 16" using assms(2) map_of_SomeD [OF assms(3)] by (auto simp: txn_ok_def wset_ok_def)
  have mo: "map_of (it (tx_write_set t1)) k = Some e" using hash_order_map_of [OF assms(1) dw] assms(3) by simp
  show ?thesis using m1 k
    by (simp add: tx_get_def begin_tx_def ensure_not_timed_out_def parse_key_def commit_publish_def commit_validate_def
        read_after_push [OF d] push_ops_lookup [OF d] mo)
qed

theorem commit_window_breaks_isolation_witness:
  "\<exists>m1. commit_reserve two_version_manager = (Ok 5, m1)
    \<and> tx_get 0 m1 (begin_tx 0 False None m1) key_a = Ok (Some [2])
    \<and> tx_get 0 (commit_publish rev 5 \<lparr>tx_read_ts = 4, tx_started_at = 0, tx_timeout = None, tx_write_set = [(key_a, Some [3])], tx_read_only = False\<rparr> m1)
        (begin_tx 0 False None m1) key_a = Ok (Some [3])"
proof -
  let ?t1 = "\<lparr>tx_read_ts = 4, tx_started_at = 0, tx_timeout = None, tx_write_set = [(key_a, Some [3])], tx_read_only = False\<rparr>"
  obtain m1 where m1: "commit_reserve two_version_manager = (Ok 5, m1)" by (simp add: commit_reserve_def two_version_manager_def)
  have r: "read_at_ts (tm_store two_version_manager) key_a (tm_commit_ts two_version_manager + 1) = Some [2]"
    by (simp add: two_version_manager_def read_at_ts_def om_lookup_def)
  have "txn_ok ?t1" by (simp add: txn_ok_def wset_ok_def om_wf_def key_a_def)
  then show ?thesis
    using commit_window_breaks_isolation [of rev ?t1 key_a "Some [3]" two_version_manager 5 m1 0] m1 r
    by (simp add: hash_order_def) (simp add: two_version_manager_def)
qed

section \<open>Durability\<close>

lemma read_above:
  assumes "store_ok ts store" and "ts \<le> r"
  shows "read_at_ts store k r = read_at_ts store k ts"
proof (cases "om_lookup store k")
  case (Some vs)
  have wf: "om_wf store" using assms(1) by (simp add: store_ok_def)
  have "(k, vs) \<in> set store" using Some om_lookup_iff [OF wf] by simp
  then have le: "\<forall>v \<in> set vs. ve_commit_ts v \<le> ts" using assms(1) by (auto simp: store_ok_def)
  show ?thesis
  proof (cases vs rule: rev_cases)
    case (snoc us v)
    then have "ve_commit_ts v \<le> ts" "ve_commit_ts v \<le> r" using le assms(2) by auto
    then show ?thesis using Some snoc by (simp add: read_at_ts_def)
  qed (simp add: read_at_ts_def Some)
qed (simp add: read_at_ts_def)

lemma store_ok_mono: "store_ok ts store \<Longrightarrow> ts \<le> ts' \<Longrightarrow> store_ok ts' store"
  by (fastforce simp: store_ok_def)

lemma store_ok_push:
  assumes "store_ok ts0 store" and "ts0 \<le> ts" and "distinct (map fst ws)" and "\<forall>(k, v) \<in> set ws. length k = KEY_SIZE"
  shows "store_ok ts (fold (push_op ts) ws store)"
  unfolding store_ok_def
proof (intro conjI ballI)
  have wf: "om_wf store" using assms(1) by (simp add: store_ok_def)
  show wf': "om_wf (fold (push_op ts) ws store)" using push_ops_wf [OF wf] .
  fix x assume x: "x \<in> set (fold (push_op ts) ws store)"
  obtain k vs where kv: "x = (k, vs)" by (cases x)
  have l: "om_lookup (fold (push_op ts) ws store) k = Some vs" using om_lookup_iff [OF wf'] x kv by simp
  have old: "length k = 16 \<and> (\<forall>v \<in> set us. ve_commit_ts v \<le> ts)" if "om_lookup store k = Some us" for us
    using om_lookup_iff [OF wf, of k us] that assms(1,2) by (force simp: store_ok_def)
  have new: "length k = 16" if "map_of ws k = Some v" for v using map_of_SomeD [OF that] assms(4) by auto
  show "case x of (k, vs) \<Rightarrow> length k = KEY_SIZE \<and> (\<forall>v \<in> set vs. ve_commit_ts v \<le> ts)"
    using l old new by (auto simp: kv push_ops_lookup [OF assms(3)] split: option.splits)
qed

lemma txn_keys: "txn_ok t \<Longrightarrow> \<forall>(k, v) \<in> set (tx_write_set t). length k = KEY_SIZE"
  by (simp add: txn_ok_def wset_ok_def)

context durable_storage
begin

lemma commit_durable:
  assumes d: "mgr_durable durable m" and it: "hash_order it" and t: "txn_ok t" and ts: "tm_commit_ts m \<noteq> - 1"
    and c: "tx_commit crc it ops now t m = (res, m')"
  shows "mgr_durable durable m'"
proof -
  let ?c = "tm_commit_ts m" and ?w = "tx_write_set t"
  have lt: "?c < ?c + 1" using no_wrap_less [OF ts] by simp
  obtain st ts0 where st: "store_ok ?c (tm_store m)" "durable (tm_storage m) st ts0" "ts0 \<le> ?c"
    "\<And>k r. ?c \<le> r \<Longrightarrow> read_at_ts st k r = read_at_ts (tm_store m) k r" using d by (auto simp: mgr_durable_def)
  have bumped: "mgr_durable durable (m\<lparr>tm_commit_ts := ?c + 1\<rparr>)"
    unfolding mgr_durable_def using st lt store_ok_mono [OF st(1), of "?c + 1"] by (auto intro!: exI [of _ st] exI [of _ ts0])
  have dw: "distinct (map fst ?w)" using t wset_distinct by (simp add: txn_ok_def)
  have pub: "mgr_durable durable (m\<lparr>tm_commit_ts := ?c + 1, tm_storage := s', tm_store := fold (push_op (?c + 1)) (it ?w) (tm_store m)\<rparr>)"
    if s': "durable s' (fold (push_op (?c + 1)) ?w st) (?c + 1)" for s'
  proof -
    have o: "fold (push_op (?c + 1)) (it ?w) (tm_store m) = fold (push_op (?c + 1)) ?w (tm_store m)"
      using t st(1) by (intro push_ops_order [OF it]) (simp_all add: txn_ok_def store_ok_def)
    have "store_ok (?c + 1) (fold (push_op (?c + 1)) ?w (tm_store m))" using lt by (intro store_ok_push [OF st(1) _ dw txn_keys [OF t]]) simp
    moreover have "read_at_ts (fold (push_op (?c + 1)) ?w st) k r = read_at_ts (fold (push_op (?c + 1)) ?w (tm_store m)) k r" if "?c + 1 \<le> r" for k r
    proof -
      have "?c \<le> r" using that lt by simp
      then show ?thesis using st(4) by (simp add: read_after_push [OF dw] that cong: option.case_cong)
    qed
    ultimately show ?thesis unfolding mgr_durable_def using s' by (auto simp: o intro!: exI [of _ "fold (push_op (?c + 1)) ?w st"] exI [of _ "?c + 1"])
  qed
  show ?thesis
  proof (cases "commit_record crc it (?c + 1, ?w)")
    case (Ok rec)
    have "ts0 < ?c + 1" using st(3) lt by simp
    with append_law [OF st(2) this _ Ok] obtain s' where "ts_append_wal_record ops rec (tm_storage m) = (Ok (), s')"
      "durable s' (fold (push_op (?c + 1)) ?w st) (?c + 1)" using t by (auto simp: txn_ok_def)
    then show ?thesis using c Ok d pub [of s'] ts
      by (auto simp: tx_commit_def commit_reserve_def commit_append_def commit_publish_def split: result.splits if_splits)
  qed (use c d bumped ts in \<open>auto simp: tx_commit_def commit_reserve_def commit_append_def split: result.splits if_splits\<close>)
qed

lemma checkpoint_durable_mgr:
  assumes d: "mgr_durable durable m" and c: "txn_checkpoint ops m = (res, m')"
  shows "mgr_durable durable m'"
proof -
  let ?c = "tm_commit_ts m" and ?st = "latest_only (tm_commit_ts m) (snapshot_entries (tm_store m))"
  obtain st ts0 where st: "store_ok ?c (tm_store m)" "durable (tm_storage m) st ts0" "ts0 \<le> ?c"
    "\<And>k r. ?c \<le> r \<Longrightarrow> read_at_ts st k r = read_at_ts (tm_store m) k r" using d by (auto simp: mgr_durable_def)
  have reads: "read_at_ts ?st k r = read_at_ts (tm_store m) k r" if "?c \<le> r" for k r
    using latest_only_reads(2) [OF st(1), of k r] read_above [OF st(1) that, of k] that by simp
  have snap: "mgr_durable durable (m\<lparr>tm_storage := s\<rparr>)" if "durable s ?st ?c" for s
    unfolding mgr_durable_def using that st(1) reads by (auto intro!: exI [of _ ?st] exI [of _ ?c])
  have same: "mgr_durable durable (m\<lparr>tm_storage := s\<rparr>)" if "durable s st ts0" for s
    unfolding mgr_durable_def using that st by (auto intro!: exI [of _ st] exI [of _ ts0])
  consider data where "write_snapshot_file ?c (tm_store m) = Ok data" | e where "write_snapshot_file ?c (tm_store m) = Err e"
    using write_snapshot_outcomes by blast
  then show ?thesis
  proof cases
    case 1
    from snapshot_law [OF st(2,3,1) 1] show ?thesis using c snap by (auto simp: txn_checkpoint_def)
  next
    case 2
    from snapshot_error_law [OF st(2) 2] show ?thesis using c same by (auto simp: txn_checkpoint_def)
  qed
qed

lemma step_durable: "hash_order it \<Longrightarrow> mgr_step crc it ops m m' \<Longrightarrow> mgr_durable durable m \<Longrightarrow> mgr_durable durable m'"
  by (erule mgr_step.cases) (auto intro: commit_durable checkpoint_durable_mgr)

lemma restart_reads:
  assumes "mgr_durable durable m"
  shows "\<exists>m' s'. open_with_storage ops (crash (tm_storage m)) = (Ok m', s') \<and> tm_commit_ts m' \<le> tm_commit_ts m
    \<and> (\<forall>k r. tm_commit_ts m \<le> r \<longrightarrow> read_at_ts (tm_store m') k r = read_at_ts (tm_store m) k r)"
proof -
  obtain st ts where st: "durable (tm_storage m) st ts" "ts \<le> tm_commit_ts m"
    "\<forall>k r. tm_commit_ts m \<le> r \<longrightarrow> read_at_ts st k r = read_at_ts (tm_store m) k r" using assms by (auto simp: mgr_durable_def)
  from recover_law [OF st(1)] obtain snap s1 s2 where "ts_load_snapshot ops (crash (tm_storage m)) = (Ok snap, s1)"
    "ts_replay_wal ops (fst (base_of snap)) (snd (base_of snap)) s1 = (Ok (st, ts), s2)" by blast
  then have "open_with_storage ops (crash (tm_storage m)) = (Ok \<lparr>tm_store = st, tm_commit_ts = ts, tm_storage = s2\<rparr>, s2)"
    by (auto simp: open_with_storage_def base_of_def split: option.splits prod.splits)
  then show ?thesis using st(2,3) by auto
qed

end



end
