(* ===== verification/Bptree_Page.thy ===== *)
theory Bptree_Page
  imports Undo_Page Ordered_Map
begin

text \<open>
  The pages of the B+-tree at byte level (\<open>page_bptree.rs\<close>, from \<open>PageHeader\<close> on): the header, the entries
  with their offset table, binary search, rebuilding a page with an entry more or less, splitting, and the
  encoding of leaf values and child ids. An entry is a key and a value of the size that belongs to the type of
  the page.

  \<open>bt_page p h es\<close> says that the bytes \<open>p\<close> are the page with header \<open>h\<close> and entries \<open>es\<close>. The lemmas give
  every operation on pages as an operation on the list of entries: reading entry \<open>i\<close>, the position that binary
  search finds, insertion and removal at a position, and the two halves of a split.
\<close>

section \<open>Layout\<close>

abbreviation (input) PAGE_TYPE_INTERNAL :: byte where "PAGE_TYPE_INTERNAL \<equiv> 1"
abbreviation (input) PAGE_TYPE_LEAF :: byte where "PAGE_TYPE_LEAF \<equiv> 2"
abbreviation (input) HEADER_SIZE :: nat where "HEADER_SIZE \<equiv> 48"
abbreviation (input) OFFSET_ENTRY_SIZE :: nat where "OFFSET_ENTRY_SIZE \<equiv> 2"
abbreviation (input) LEAF_VALUE_SIZE :: nat where "LEAF_VALUE_SIZE \<equiv> 1060"
abbreviation (input) CHILD_ID_SIZE :: nat where "CHILD_ID_SIZE \<equiv> 8"

record leaf_value_meta =
  lm_commit_lsn :: u64
  lm_undo_ptr :: "undo_ptr option"
  lm_flags :: u16
  lm_intent_txn_id :: u64
  lm_intent_lsn :: u64

text \<open>\<open>LeafValue\<close> and \<open>LeafValueRef\<close> differ in how the value bytes are held; both are a value with its
  metadata.\<close>

record leaf_value =
  lv_value :: bytes
  lv_meta :: leaf_value_meta

record bt_header =
  bh_page_type :: byte
  bh_level :: byte
  bh_key_count :: u16
  bh_prev_leaf :: "u64 option"
  bh_next_leaf :: "u64 option"
  bh_left_child :: u64
  bh_high_key :: "bytes option"

type_synonym entry = "bytes \<times> bytes"

definition page_ref :: "u64 \<Rightarrow> u64 option" where
  "page_ref pid = (if pid = 0 then None else Some pid)"

definition page_header :: "bytes \<Rightarrow> bt_header res" where
  "page_header page =
    res_bind (read_u8 page 0) (\<lambda>page_type. res_bind (read_u8 page 1) (\<lambda>level. res_bind (read_u16 page 2) (\<lambda>key_count.
    res_bind (read_u64 page 4) (\<lambda>prev_leaf. res_bind (read_u64 page 12) (\<lambda>next_leaf. res_bind (read_u64 page 20) (\<lambda>left_child.
    res_bind (read_u8 page 28) (\<lambda>high_present.
    res_bind (if high_present \<noteq> 0 then res_map Some (get_slice page 29 (29 + KEY_SIZE)) else Ok None) (\<lambda>high_key.
      Ok \<lparr>bh_page_type = page_type, bh_level = level, bh_key_count = key_count, bh_prev_leaf = page_ref prev_leaf,
          bh_next_leaf = page_ref next_leaf, bh_left_child = left_child, bh_high_key = high_key\<rparr>))))))))"

definition header_fields :: "bt_header \<Rightarrow> (nat \<times> bytes) list" where
  "header_fields h =
    [(0, [bh_page_type h]), (1, [bh_level h]), (2, to_le 2 (bh_key_count h)),
     (4, to_le 8 (case bh_prev_leaf h of Some p \<Rightarrow> p | None \<Rightarrow> 0)), (12, to_le 8 (case bh_next_leaf h of Some p \<Rightarrow> p | None \<Rightarrow> 0)),
     (20, to_le 8 (bh_left_child h)),
     (28, [case bh_high_key h of Some _ \<Rightarrow> 1 | None \<Rightarrow> 0]),
     (29, case bh_high_key h of Some hk \<Rightarrow> hk | None \<Rightarrow> replicate KEY_SIZE 0), (29 + KEY_SIZE, replicate 3 0)]"

definition bt_write_header :: "bytes \<Rightarrow> bt_header \<Rightarrow> bytes res" where
  "bt_write_header page h = write_fields page (header_fields h)"

definition bt_new_page :: "byte \<Rightarrow> byte \<Rightarrow> bytes res" where
  "bt_new_page page_type level =
    bt_write_header (replicate PAGE_SIZE 0) \<lparr>bh_page_type = page_type, bh_level = level, bh_key_count = 0, bh_prev_leaf = None,
      bh_next_leaf = None, bh_left_child = 0, bh_high_key = None\<rparr>"

definition entry_value_size :: "byte \<Rightarrow> nat" where
  "entry_value_size page_type = (if page_type = PAGE_TYPE_LEAF then LEAF_VALUE_SIZE else if page_type = PAGE_TYPE_INTERNAL then CHILD_ID_SIZE else 0)"

definition entry_size :: "byte \<Rightarrow> nat" where
  "entry_size page_type = KEY_SIZE + entry_value_size page_type"

definition data_start :: "u16 \<Rightarrow> nat" where
  "data_start key_count = HEADER_SIZE + unat key_count * OFFSET_ENTRY_SIZE"

section \<open>Reading entries\<close>

definition entry_offset :: "bytes \<Rightarrow> bt_header \<Rightarrow> nat \<Rightarrow> nat res" where
  "entry_offset page h index =
    res_bind (read_u16 page (HEADER_SIZE + index * OFFSET_ENTRY_SIZE)) (\<lambda>rel. Ok (data_start (bh_key_count h) + unat rel))"

definition entry_key_at :: "bytes \<Rightarrow> nat \<Rightarrow> bytes option res" where
  "entry_key_at page index =
    res_bind (page_header page) (\<lambda>h.
      if index \<ge> unat (bh_key_count h) then Ok None
      else res_bind (entry_offset page h index) (\<lambda>off.
        if off + KEY_SIZE > PAGE_SIZE then Ok None else res_map Some (get_slice page off (off + KEY_SIZE))))"

definition entry_value_bounds :: "bytes \<Rightarrow> nat \<Rightarrow> (nat \<times> nat) option res" where
  "entry_value_bounds page index =
    res_bind (page_header page) (\<lambda>h.
      if index \<ge> unat (bh_key_count h) then Ok None
      else res_bind (entry_offset page h index) (\<lambda>off.
        let key_end = off + KEY_SIZE; value_end = key_end + entry_value_size (bh_page_type h) in
        if value_end > PAGE_SIZE then Ok None else Ok (Some (key_end, value_end))))"

definition entry_value_at :: "bytes \<Rightarrow> nat \<Rightarrow> bytes option res" where
  "entry_value_at page index =
    res_bind (entry_value_bounds page index) (\<lambda>b.
      case b of None \<Rightarrow> Ok None | Some (key_end, value_end) \<Rightarrow> res_map Some (get_slice page key_end value_end))"

definition entry_offset_at :: "bytes \<Rightarrow> nat \<Rightarrow> nat option res" where
  "entry_offset_at page index =
    res_bind (page_header page) (\<lambda>h.
      if index \<ge> unat (bh_key_count h) then Ok None
      else res_bind (entry_offset page h index) (\<lambda>off. Ok (if off + KEY_SIZE > PAGE_SIZE then None else Some off)))"

fun collect_from :: "bytes \<Rightarrow> nat \<Rightarrow> nat \<Rightarrow> entry list res" where
  "collect_from page index 0 = Ok []"
| "collect_from page index (Suc n) =
    res_bind (entry_key_at page index) (\<lambda>key. case key of None \<Rightarrow> Ok [] | Some k \<Rightarrow>
    res_bind (entry_value_at page index) (\<lambda>value. case value of None \<Rightarrow> Ok [] | Some v \<Rightarrow>
      res_map (\<lambda>es. (k, v) # es) (collect_from page (index + 1) n)))"

definition collect_entries :: "bytes \<Rightarrow> entry list res" where
  "collect_entries page = res_bind (page_header page) (\<lambda>h. collect_from page 0 (unat (bh_key_count h)))"

section \<open>Binary search\<close>

function find_key_loop :: "bytes \<Rightarrow> bytes \<Rightarrow> nat \<Rightarrow> nat \<Rightarrow> (bool \<times> nat) option res" where
  "find_key_loop page key lo hi =
    (if lo < hi then
       let mid = (lo + hi) div 2 in
       res_bind (entry_key_at page mid) (\<lambda>mk. case mk of None \<Rightarrow> Ok None | Some mid_key \<Rightarrow>
         if mid_key = key then Ok (Some (True, mid))
         else if mid_key < key then find_key_loop page key (mid + 1) hi
         else find_key_loop page key lo mid)
     else Ok (Some (False, lo)))"
  by pat_completeness auto
termination by (relation "measure (\<lambda>(page, key, lo, hi). hi - lo)") auto

definition find_key_pos :: "bytes \<Rightarrow> bytes \<Rightarrow> (bool \<times> nat) option res" where
  "find_key_pos page key = res_bind (page_header page) (\<lambda>h. find_key_loop page key 0 (unat (bh_key_count h)))"

function child_pos_loop :: "bytes \<Rightarrow> bytes \<Rightarrow> nat \<Rightarrow> nat \<Rightarrow> nat res" where
  "child_pos_loop page key lo hi =
    (if lo < hi then
       let mid = (lo + hi) div 2 in
       res_bind (entry_key_at page mid) (\<lambda>mk. case mk of None \<Rightarrow> Ok lo | Some mid_key \<Rightarrow>
         if key < mid_key then child_pos_loop page key lo mid else child_pos_loop page key (mid + 1) hi)
     else Ok lo)"
  by pat_completeness auto
termination by (relation "measure (\<lambda>(page, key, lo, hi). hi - lo)") auto

definition child_insert_pos_for_key :: "bytes \<Rightarrow> bt_header \<Rightarrow> bytes \<Rightarrow> nat res" where
  "child_insert_pos_for_key page h key = child_pos_loop page key 0 (unat (bh_key_count h))"

function lower_bound_loop :: "bytes \<Rightarrow> bytes \<Rightarrow> nat \<Rightarrow> nat \<Rightarrow> nat res" where
  "lower_bound_loop page key lo hi =
    (if lo < hi then
       let mid = (lo + hi) div 2 in
       res_bind (entry_key_at page mid) (\<lambda>mk. case mk of None \<Rightarrow> Ok lo | Some mid_key \<Rightarrow>
         if mid_key < key then lower_bound_loop page key (mid + 1) hi else lower_bound_loop page key lo mid)
     else Ok lo)"
  by pat_completeness auto
termination by (relation "measure (\<lambda>(page, key, lo, hi). hi - lo)") auto

definition lower_bound_in_leaf :: "bytes \<Rightarrow> bytes \<Rightarrow> nat res" where
  "lower_bound_in_leaf page key = res_bind (page_header page) (\<lambda>h. lower_bound_loop page key 0 (unat (bh_key_count h)))"

section \<open>Leaf values and child ids\<close>

definition encode_leaf_value :: "leaf_value \<Rightarrow> bytes" where
  "encode_leaf_value v =
    (let m = lv_meta v; (undo_pid, undo_sid) = ptr_parts (lm_undo_ptr m) in
     lv_value v @ to_le 8 (lm_commit_lsn m) @ to_le 8 undo_pid @ to_le 2 undo_sid @ to_le 2 (lm_flags m)
       @ to_le 8 (lm_intent_txn_id m) @ to_le 8 (lm_intent_lsn m))"

definition decode_leaf_value_meta :: "bytes \<Rightarrow> leaf_value_meta res" where
  "decode_leaf_value_meta buf =
    res_bind (read_u64 buf VALUE_SIZE) (\<lambda>commit_lsn. res_bind (read_u64 buf (VALUE_SIZE + 8)) (\<lambda>undo_page_id.
    res_bind (read_u16 buf (VALUE_SIZE + 16)) (\<lambda>undo_slot_id. res_bind (read_u16 buf (VALUE_SIZE + 18)) (\<lambda>flags.
    res_bind (read_u64 buf (VALUE_SIZE + 20)) (\<lambda>intent_txn_id. res_bind (read_u64 buf (VALUE_SIZE + 28)) (\<lambda>intent_lsn.
      Ok \<lparr>lm_commit_lsn = commit_lsn, lm_undo_ptr = ptr_of_parts undo_page_id undo_slot_id, lm_flags = flags,
          lm_intent_txn_id = intent_txn_id, lm_intent_lsn = intent_lsn\<rparr>))))))"

definition decode_leaf_value_ref :: "bytes \<Rightarrow> nat \<Rightarrow> leaf_value option res" where
  "decode_leaf_value_ref page value_offset =
    (if value_offset + LEAF_VALUE_SIZE > length page then Ok None
     else res_bind (get_slice page value_offset (value_offset + LEAF_VALUE_SIZE)) (\<lambda>raw.
       res_bind (decode_leaf_value_meta raw) (\<lambda>m. res_bind (get_slice page value_offset (value_offset + VALUE_SIZE)) (\<lambda>v.
         Ok (Some \<lparr>lv_value = v, lv_meta = m\<rparr>)))))"

definition encode_child_id :: "u64 \<Rightarrow> bytes" where
  "encode_child_id child = to_le 8 child"

definition decode_child_id :: "bytes \<Rightarrow> u64 res" where
  "decode_child_id buf = read_u64 buf 0"

definition child_id_at_pos :: "bytes \<Rightarrow> bt_header \<Rightarrow> nat \<Rightarrow> u64 res" where
  "child_id_at_pos page h pos =
    (if pos = 0 then Ok (bh_left_child h)
     else res_bind (entry_value_at page (pos - 1)) (\<lambda>v. case v of None \<Rightarrow> Ok (bh_left_child h) | Some b \<Rightarrow> decode_child_id b))"

function find_in_leaf_loop :: "bytes \<Rightarrow> bytes \<Rightarrow> nat \<Rightarrow> nat \<Rightarrow> leaf_value option res" where
  "find_in_leaf_loop page key lo hi =
    (if lo < hi then
       let mid = (lo + hi) div 2 in
       res_bind (entry_key_at page mid) (\<lambda>mk. case mk of None \<Rightarrow> Ok None | Some mid_key \<Rightarrow>
         if mid_key = key
         then res_bind (entry_value_bounds page mid) (\<lambda>b. case b of None \<Rightarrow> Ok None | Some (value_offset, _) \<Rightarrow> decode_leaf_value_ref page value_offset)
         else if mid_key < key then find_in_leaf_loop page key (mid + 1) hi
         else find_in_leaf_loop page key lo mid)
     else Ok None)"
  by pat_completeness auto
termination by (relation "measure (\<lambda>(page, key, lo, hi). hi - lo)") auto

definition find_in_leaf :: "bytes \<Rightarrow> bytes \<Rightarrow> leaf_value option res" where
  "find_in_leaf page key = res_bind (page_header page) (\<lambda>h. find_in_leaf_loop page key 0 (unat (bh_key_count h)))"

section \<open>Capacity\<close>

definition page_has_room_for_one_more :: "bt_header \<Rightarrow> bool" where
  "page_has_room_for_one_more h =
    (let total = unat (bh_key_count h) + 1 in HEADER_SIZE + total * OFFSET_ENTRY_SIZE + total * entry_size (bh_page_type h) \<le> PAGE_SIZE)"

definition page_is_full_for_insert :: "bt_header \<Rightarrow> bool" where
  "page_is_full_for_insert h = (\<not> page_has_room_for_one_more h)"

definition max_keys_for_page_type :: "byte \<Rightarrow> nat" where
  "max_keys_for_page_type page_type = (PAGE_SIZE - HEADER_SIZE) div (OFFSET_ENTRY_SIZE + entry_size page_type)"

definition min_keys_non_root :: "byte \<Rightarrow> nat" where
  "min_keys_non_root page_type = max_keys_for_page_type page_type div 2"

definition key_to_high_key :: "bytes \<Rightarrow> bytes option" where
  "key_to_high_key key = (if length key \<noteq> KEY_SIZE then None else Some key)"

section \<open>Writing pages\<close>

text \<open>One entry: its offset, its key and its value. \<open>copy_from_slice\<close> panics on a length mismatch.\<close>

definition copy_exact :: "bytes \<Rightarrow> nat \<Rightarrow> nat \<Rightarrow> bytes \<Rightarrow> bytes res" where
  "copy_exact page off n bs = (if length bs = n then copy_at page off bs else Panic)"

definition put_entry :: "bytes \<Rightarrow> nat \<Rightarrow> nat \<Rightarrow> nat \<Rightarrow> nat \<Rightarrow> bytes \<Rightarrow> bytes \<Rightarrow> bytes res" where
  "put_entry page value_size start index cursor k v =
    res_bind (write_u16 page (HEADER_SIZE + index * OFFSET_ENTRY_SIZE) (word_of_nat (cursor - start))) (\<lambda>p1.
    res_bind (copy_exact p1 cursor KEY_SIZE k) (\<lambda>p2. copy_exact p2 (cursor + KEY_SIZE) value_size v))"

fun encode_loop :: "nat \<Rightarrow> nat \<Rightarrow> nat \<Rightarrow> nat \<Rightarrow> entry list \<Rightarrow> bytes \<Rightarrow> bytes res" where
  "encode_loop value_size start index cursor [] page = Ok page"
| "encode_loop value_size start index cursor ((k, v) # es) page =
    (if length k \<noteq> KEY_SIZE then Err (InvalidKeySize (length k) KEY_SIZE)
     else if length v \<noteq> value_size then Err (InvalidValueSize (length v) value_size)
     else if cursor + KEY_SIZE + value_size > PAGE_SIZE then Err (InvalidPageSize cursor PAGE_SIZE)
     else res_bind (put_entry page value_size start index cursor k v) (\<lambda>p.
       encode_loop value_size start (index + 1) (cursor + KEY_SIZE + value_size) es p))"

definition encode_entries :: "bytes \<Rightarrow> entry list \<Rightarrow> bt_header \<Rightarrow> bytes res" where
  "encode_entries page entries h =
    (let start = data_start (word_of_nat (length entries)) in
     res_bind (encode_loop (entry_value_size (bh_page_type h)) start 0 start entries page) (\<lambda>p.
       bt_write_header p (h\<lparr>bh_key_count := word_of_nat (length entries)\<rparr>)))"

definition entry_at :: "bytes \<Rightarrow> nat \<Rightarrow> nat \<Rightarrow> entry res" where
  "entry_at page idx pos =
    res_bind (entry_key_at page idx) (\<lambda>key. case key of None \<Rightarrow> Err (InvalidPageSize pos PAGE_SIZE) | Some k \<Rightarrow>
    res_bind (entry_value_at page idx) (\<lambda>value. case value of None \<Rightarrow> Err (InvalidPageSize pos PAGE_SIZE) | Some v \<Rightarrow> Ok (k, v)))"

fun insert_loop :: "bytes \<Rightarrow> nat \<Rightarrow> bytes \<Rightarrow> bytes \<Rightarrow> nat \<Rightarrow> nat \<Rightarrow> nat \<Rightarrow> nat \<Rightarrow> nat \<Rightarrow> bytes \<Rightarrow> bytes res" where
  "insert_loop page insert_pos key value value_size start pos cursor 0 out = Ok out"
| "insert_loop page insert_pos key value value_size start pos cursor (Suc n) out =
    res_bind (if pos = insert_pos then Ok (key, value) else entry_at page (if pos < insert_pos then pos else pos - 1) pos) (\<lambda>(k, v).
    res_bind (put_entry out value_size start pos cursor k v) (\<lambda>out'.
      insert_loop page insert_pos key value value_size start (pos + 1) (cursor + KEY_SIZE + value_size) n out'))"

definition rebuild_page_with_insert :: "bytes \<Rightarrow> bt_header \<Rightarrow> nat \<Rightarrow> bytes \<Rightarrow> bytes \<Rightarrow> bytes res" where
  "rebuild_page_with_insert page h insert_pos key value =
    (let total = unat (bh_key_count h) + 1; new_header = h\<lparr>bh_key_count := word_of_nat total\<rparr>; start = data_start (bh_key_count new_header) in
     res_bind (bt_new_page (bh_page_type h) (bh_level h)) (\<lambda>out0. res_bind (bt_write_header out0 new_header) (\<lambda>out1.
       insert_loop page insert_pos key value (entry_value_size (bh_page_type h)) start 0 start total out1)))"

fun remove_loop :: "bytes \<Rightarrow> nat \<Rightarrow> nat \<Rightarrow> nat \<Rightarrow> nat \<Rightarrow> nat \<Rightarrow> nat \<Rightarrow> nat \<Rightarrow> bytes \<Rightarrow> bytes res" where
  "remove_loop page remove_pos value_size start idx out_pos cursor 0 out = Ok out"
| "remove_loop page remove_pos value_size start idx out_pos cursor (Suc n) out =
    (if idx = remove_pos then remove_loop page remove_pos value_size start (idx + 1) out_pos cursor n out
     else res_bind (entry_at page idx idx) (\<lambda>(k, v). res_bind (put_entry out value_size start out_pos cursor k v) (\<lambda>out'.
       remove_loop page remove_pos value_size start (idx + 1) (out_pos + 1) (cursor + KEY_SIZE + value_size) n out')))"

definition rebuild_page_with_remove :: "bytes \<Rightarrow> bt_header \<Rightarrow> nat \<Rightarrow> bytes res" where
  "rebuild_page_with_remove page h remove_pos =
    (let total = unat (bh_key_count h) in
     if remove_pos \<ge> total then Ok page
     else let new_header = h\<lparr>bh_key_count := word_of_nat (total - 1)\<rparr>; start = data_start (bh_key_count new_header) in
       res_bind (bt_new_page (bh_page_type h) (bh_level h)) (\<lambda>out0. res_bind (bt_write_header out0 new_header) (\<lambda>out1.
         remove_loop page remove_pos (entry_value_size (bh_page_type h)) start 0 0 start total out1)))"

text \<open>Splitting a page: the separator is the first key of the right half, which a leaf keeps and an internal
  page gives up. Indexing an empty right half panics, as does copying a separator of another size.\<close>

definition high_key_of :: "bytes \<Rightarrow> bytes option res" where
  "high_key_of sep = (if length sep = KEY_SIZE then Ok (Some sep) else Panic)"

definition split_leaf :: "bytes \<Rightarrow> entry list \<Rightarrow> (bytes \<times> bytes \<times> bytes) res" where
  "split_leaf page entries =
    (let mid = length entries div 2; left_entries = take mid entries; right_entries = drop mid entries in
     res_bind (bt_new_page PAGE_TYPE_LEAF 0) (\<lambda>fresh. res_bind (page_header page) (\<lambda>h.
       case right_entries of [] \<Rightarrow> Panic | (sep, _) # _ \<Rightarrow>
       res_bind (high_key_of sep) (\<lambda>hk.
       res_bind (encode_entries fresh left_entries (h\<lparr>bh_high_key := hk\<rparr>)) (\<lambda>left.
       res_bind (encode_entries fresh right_entries h) (\<lambda>right. Ok (sep, left, right)))))))"

definition split_internal :: "bytes \<Rightarrow> entry list \<Rightarrow> (bytes \<times> bytes \<times> bytes) res" where
  "split_internal page entries =
    (let mid = length entries div 2 in
     case drop mid entries of [] \<Rightarrow> Panic | (separator, child) # right_entries \<Rightarrow>
     res_bind (page_header page) (\<lambda>h. res_bind (bt_new_page PAGE_TYPE_INTERNAL (bh_level h)) (\<lambda>fresh.
       res_bind (high_key_of separator) (\<lambda>hk. res_bind (decode_child_id child) (\<lambda>lc.
       res_bind (encode_entries fresh (take mid entries) (h\<lparr>bh_high_key := hk\<rparr>)) (\<lambda>left.
       res_bind (encode_entries fresh right_entries (h\<lparr>bh_left_child := lc\<rparr>)) (\<lambda>right. Ok (separator, left, right))))))))"

section \<open>Pages as lists of entries\<close>

definition header_ok :: "bt_header \<Rightarrow> bool" where
  "header_ok h \<longleftrightarrow> bh_page_type h \<in> {PAGE_TYPE_INTERNAL, PAGE_TYPE_LEAF} \<and> bh_prev_leaf h \<noteq> Some 0 \<and> bh_next_leaf h \<noteq> Some 0
    \<and> (case bh_high_key h of None \<Rightarrow> True | Some k \<Rightarrow> length k = KEY_SIZE)"

definition entries_fit :: "byte \<Rightarrow> entry list \<Rightarrow> bool" where
  "entries_fit page_type es \<longleftrightarrow> HEADER_SIZE + length es * OFFSET_ENTRY_SIZE + length es * entry_size page_type \<le> PAGE_SIZE
    \<and> (\<forall>(k, v) \<in> set es. length k = KEY_SIZE \<and> length v = entry_value_size page_type)"

text \<open>The first \<open>m\<close> entries of \<open>es\<close> are in place in a page with room for \<open>n\<close> of them.\<close>

definition entries_at :: "byte \<Rightarrow> nat \<Rightarrow> nat \<Rightarrow> entry list \<Rightarrow> bytes \<Rightarrow> bool" where
  "entries_at page_type n m es p \<longleftrightarrow> (\<forall>i < m.
     get_at p (HEADER_SIZE + i * OFFSET_ENTRY_SIZE) 2 = to_le 2 (word_of_nat (i * entry_size page_type) :: u16)
     \<and> get_at p (HEADER_SIZE + n * OFFSET_ENTRY_SIZE + i * entry_size page_type) KEY_SIZE = fst (es ! i)
     \<and> get_at p (HEADER_SIZE + n * OFFSET_ENTRY_SIZE + i * entry_size page_type + KEY_SIZE) (entry_value_size page_type) = snd (es ! i))"

definition bt_page :: "bytes \<Rightarrow> bt_header \<Rightarrow> entry list \<Rightarrow> bool" where
  "bt_page p h es \<longleftrightarrow> length p = PAGE_SIZE \<and> page_header p = Ok h \<and> header_ok h \<and> bh_key_count h = word_of_nat (length es)
    \<and> entries_fit (bh_page_type h) es \<and> entries_at (bh_page_type h) (length es) (length es) es p"

text \<open>The value of an entry as the leaf value it encodes.\<close>

definition leaf_meta_of :: "bytes \<Rightarrow> leaf_value_meta" where
  "leaf_meta_of b = \<lparr>lm_commit_lsn = from_le (get_at b 1024 8), lm_undo_ptr = ptr_of_parts (from_le (get_at b 1032 8)) (from_le (get_at b 1040 2)),
    lm_flags = from_le (get_at b 1042 2), lm_intent_txn_id = from_le (get_at b 1044 8), lm_intent_lsn = from_le (get_at b 1052 8)\<rparr>"

definition leaf_of :: "bytes \<Rightarrow> leaf_value" where
  "leaf_of b = \<lparr>lv_value = get_at b 0 1024, lv_meta = leaf_meta_of b\<rparr>"

definition leaf_value_ok :: "leaf_value \<Rightarrow> bool" where
  "leaf_value_ok v \<longleftrightarrow> length (lv_value v) = VALUE_SIZE \<and> (\<forall>u. lm_undo_ptr (lv_meta v) = Some u \<longrightarrow> up_page_id u \<noteq> 0)"

text \<open>Positions in a sorted list of entries.\<close>

definition key_pos :: "bytes \<Rightarrow> entry list \<Rightarrow> nat" where
  "key_pos key es = length (takeWhile (\<lambda>e. fst e < key) es)"

definition child_pos :: "bytes \<Rightarrow> entry list \<Rightarrow> nat" where
  "child_pos key es = length (takeWhile (\<lambda>e. fst e \<le> key) es)"

abbreviation keys_sorted :: "entry list \<Rightarrow> bool" where
  "keys_sorted es \<equiv> sorted_wrt (<) (map fst es)"

definition child_at :: "u64 \<Rightarrow> entry list \<Rightarrow> nat \<Rightarrow> u64" where
  "child_at left es i = (if i = 0 then left else from_le (snd (es ! (i - 1))))"

definition insert_at :: "nat \<Rightarrow> 'a \<Rightarrow> 'a list \<Rightarrow> 'a list" where
  "insert_at i x xs = take i xs @ x # drop i xs"

definition remove_at :: "nat \<Rightarrow> 'a list \<Rightarrow> 'a list" where
  "remove_at i xs = take i xs @ drop (Suc i) xs"

section \<open>Headers\<close>

lemma page_ref_of: "p \<noteq> Some 0 \<Longrightarrow> page_ref (case p of Some q \<Rightarrow> q | None \<Rightarrow> 0) = p"
  by (cases p) (auto simp: page_ref_def)

lemma page_header_Ok:
  assumes "length p = PAGE_SIZE"
  shows "page_header p = Ok \<lparr>bh_page_type = hd (get_at p 0 1), bh_level = hd (get_at p 1 1), bh_key_count = from_le (get_at p 2 2),
    bh_prev_leaf = page_ref (from_le (get_at p 4 8)), bh_next_leaf = page_ref (from_le (get_at p 12 8)), bh_left_child = from_le (get_at p 20 8),
    bh_high_key = (if hd (get_at p 28 1) \<noteq> 0 then Some (get_at p 29 16) else None)\<rparr>"
  using assms by (simp add: page_header_def read_u8_Ok read_words_Ok get_slice_Ok)

lemma page_header_cong:
  assumes "length p = PAGE_SIZE" and "length q = PAGE_SIZE" and "get_at p 0 48 = get_at q 0 48"
  shows "page_header p = page_header q"
proof -
  have "get_at p a n = get_at q a n" if "a + n \<le> 48" for a n
    using get_at_get_at [OF that, of p 0] get_at_get_at [OF that, of q 0] assms(3) by simp
  then show ?thesis using assms(1,2) by (simp add: page_header_Ok)
qed

lemma bt_write_header_ok:
  assumes p: "length p = PAGE_SIZE" and h: "header_ok h"
  shows "\<exists>q. bt_write_header p h = Ok q \<and> length q = PAGE_SIZE \<and> page_header q = Ok h \<and> (\<forall>a n. 48 \<le> a \<longrightarrow> get_at q a n = get_at p a n)"
proof -
  let ?q = "put_fields p (header_fields h)"
  let ?hk = "case bh_high_key h of Some hk \<Rightarrow> hk | None \<Rightarrow> replicate 16 0"
  have hk: "length ?hk = 16" using h by (auto simp: header_ok_def split: option.splits)
  have w: "bt_write_header p h = Ok ?q" unfolding bt_write_header_def
    using p hk by (intro write_fields_Ok) (simp add: header_fields_def)
  have f: "get_at ?q a (length xs) = xs" if "(a, xs) \<in> set (header_fields h)" for a xs
    using that hk p by (intro get_at_put_fields_sorted) (simp_all add: header_fields_def)
  have "get_at ?q 0 1 = [bh_page_type h]" "get_at ?q 1 1 = [bh_level h]" "get_at ?q 2 2 = to_le 2 (bh_key_count h)"
    "get_at ?q 4 8 = to_le 8 (case bh_prev_leaf h of Some p \<Rightarrow> p | None \<Rightarrow> 0)" "get_at ?q 12 8 = to_le 8 (case bh_next_leaf h of Some p \<Rightarrow> p | None \<Rightarrow> 0)"
    "get_at ?q 20 8 = to_le 8 (bh_left_child h)" "get_at ?q 28 1 = [case bh_high_key h of Some _ \<Rightarrow> 1 | None \<Rightarrow> 0]" "get_at ?q 29 16 = ?hk"
    using f [of 0 "[bh_page_type h]"] f [of 1 "[bh_level h]"] f [of 2 "to_le 2 (bh_key_count h)"] f [of 20 "to_le 8 (bh_left_child h)"]
      f [of 4 "to_le 8 (case bh_prev_leaf h of Some p \<Rightarrow> p | None \<Rightarrow> 0)"] f [of 12 "to_le 8 (case bh_next_leaf h of Some p \<Rightarrow> p | None \<Rightarrow> 0)"]
      f [of 28 "[case bh_high_key h of Some _ \<Rightarrow> 1 | None \<Rightarrow> 0]"] f [of 29 ?hk] hk
    by (simp_all add: header_fields_def flip: One_nat_def)
  then have "page_header ?q = Ok h"
    using p h by (simp add: page_header_Ok page_ref_of header_ok_def split: option.splits)
  moreover have "get_at ?q a n = get_at p a n" if "48 \<le> a" for a n
    using that hk by (intro get_at_put_fields_disjoint) (simp add: header_fields_def)
  ultimately show ?thesis using w p by auto
qed

lemma bt_new_page_ok:
  assumes "pt \<in> {PAGE_TYPE_INTERNAL, PAGE_TYPE_LEAF}"
  shows "\<exists>q. bt_new_page pt lvl = Ok q \<and> bt_page q \<lparr>bh_page_type = pt, bh_level = lvl, bh_key_count = 0, bh_prev_leaf = None,
      bh_next_leaf = None, bh_left_child = 0, bh_high_key = None\<rparr> []"
proof -
  have "header_ok \<lparr>bh_page_type = pt, bh_level = lvl, bh_key_count = 0, bh_prev_leaf = None, bh_next_leaf = None, bh_left_child = 0, bh_high_key = None\<rparr>"
    using assms by (simp add: header_ok_def)
  from bt_write_header_ok [OF _ this, of "replicate 16384 0"] show ?thesis
    using assms by (auto simp: bt_new_page_def bt_page_def header_ok_def entries_fit_def entries_at_def)
qed

section \<open>Writing entries\<close>

lemma entry_size_split: "entry_size pt = 16 + entry_value_size pt"
  by (simp add: entry_size_def)

lemma entry_area:
  assumes "i < n" and "48 + n * 2 + n * entry_size pt \<le> 16384"
  shows "48 + n * 2 + i * entry_size pt + 16 + entry_value_size pt \<le> 16384" and "i * entry_size pt < 2 ^ 16"
proof -
  have "(i + 1) * entry_size pt \<le> n * entry_size pt" using assms(1) by (intro mult_right_mono) auto
  then have "i * entry_size pt + entry_size pt \<le> n * entry_size pt" by simp
  then show "48 + n * 2 + i * entry_size pt + 16 + entry_value_size pt \<le> 16384" using assms(2) entry_size_split [of pt] by linarith
  then show "i * entry_size pt < 2 ^ 16" by simp
qed

lemma entry_disjoint: "i < (j :: nat) \<Longrightarrow> i * entry_size pt + 16 + entry_value_size pt \<le> j * entry_size pt"
proof -
  assume "i < j"
  then have "(i + 1) * entry_size pt \<le> j * entry_size pt" by (intro mult_right_mono) auto
  then show ?thesis using entry_size_split [of pt] by simp
qed

lemma put_entry_ok:
  assumes p: "length p = PAGE_SIZE" and i: "i < n" and n: "48 + n * 2 + n * entry_size pt \<le> 16384"
    and k: "length k = 16" and v: "length v = entry_value_size pt" and e: "es ! i = (k, v)"
  shows "\<exists>q. put_entry p (entry_value_size pt) (48 + n * 2) i (48 + n * 2 + i * entry_size pt) k v = Ok q \<and> length q = PAGE_SIZE
    \<and> get_at q 0 48 = get_at p 0 48 \<and> (entries_at pt n i es p \<longrightarrow> entries_at pt n (Suc i) es q)"
proof -
  let ?c = "48 + n * 2 + i * entry_size pt" and ?v = "entry_value_size pt"
  note area = entry_area [OF i n]
  let ?q1 = "put_at p (48 + i * 2) (to_le 2 (word_of_nat (i * entry_size pt) :: u16))"
  let ?q2 = "put_at ?q1 ?c k"
  let ?q = "put_at ?q2 (?c + 16) v"
  have "put_entry p ?v (48 + n * 2) i ?c k v = Ok ?q"
    using p i area k v by (simp add: put_entry_def copy_exact_def write_words_Ok copy_at_Ok)
  moreover have keep: "get_at ?q a m = get_at p a m" if "a + m \<le> ?c" "48 + i * 2 + 2 \<le> a \<or> a + m \<le> 48 + i * 2" for a m
  proof -
    have "get_at ?q a m = get_at ?q2 a m" using that(1) by (intro get_at_put_at_before) simp
    also have "\<dots> = get_at ?q1 a m" using that(1) by (rule get_at_put_at_before)
    also have "\<dots> = get_at p a m" using that(2) by (intro get_at_put_at_disjoint) auto
    finally show ?thesis .
  qed
  moreover have "get_at ?q 0 48 = get_at p 0 48" by (rule keep) simp_all
  moreover have "entries_at pt n (Suc i) es ?q" if a: "entries_at pt n i es p" unfolding entries_at_def
  proof (intro allI impI)
    fix j assume "j < Suc i"
    then consider "j < i" | "j = i" by linarith
    then show "get_at ?q (48 + j * 2) 2 = to_le 2 (word_of_nat (j * entry_size pt) :: u16)
      \<and> get_at ?q (48 + n * 2 + j * entry_size pt) 16 = fst (es ! j) \<and> get_at ?q (48 + n * 2 + j * entry_size pt + 16) ?v = snd (es ! j)"
    proof cases
      case 1
      have d: "48 + n * 2 + j * entry_size pt + 16 + ?v \<le> ?c" using entry_disjoint [OF 1, of pt] by simp
      have "get_at ?q (48 + j * 2) 2 = get_at p (48 + j * 2) 2" using 1 i by (intro keep) auto
      moreover have "get_at ?q (48 + n * 2 + j * entry_size pt) 16 = get_at p (48 + n * 2 + j * entry_size pt) 16"
        using d i by (intro keep) auto
      moreover have "get_at ?q (48 + n * 2 + j * entry_size pt + 16) ?v = get_at p (48 + n * 2 + j * entry_size pt + 16) ?v"
        using d i by (intro keep) auto
      ultimately show ?thesis using a 1 by (simp add: entries_at_def)
    next
      case 2
      have "get_at ?q (48 + i * 2) 2 = to_le 2 (word_of_nat (i * entry_size pt) :: u16)"
        using i p area(1) by (simp add: get_at_put_at_before get_at_put_at_same)
      moreover have "get_at ?q ?c 16 = k" using p area(1) k by (simp add: get_at_put_at_before get_at_put_at_same)
      moreover have "get_at ?q (?c + 16) ?v = v" using p area(1) v by (simp add: get_at_put_at_same)
      ultimately show ?thesis using 2 e by simp
    qed
  qed
  ultimately show ?thesis using p by auto
qed

lemma encode_loop_ok:
  assumes "48 + length es * 2 + length es * entry_size pt \<le> 16384" and "\<forall>(k, v) \<in> set es. length k = 16 \<and> length v = entry_value_size pt"
    and "length p = PAGE_SIZE" and "i \<le> length es" and "entries_at pt (length es) i es p"
  shows "\<exists>q. encode_loop (entry_value_size pt) (48 + length es * 2) i (48 + length es * 2 + i * entry_size pt) (drop i es) p = Ok q
    \<and> length q = PAGE_SIZE \<and> get_at q 0 48 = get_at p 0 48 \<and> entries_at pt (length es) (length es) es q"
  using assms(3-5)
proof (induction "length es - i" arbitrary: i p)
  case 0
  then show ?case by auto
next
  case (Suc m)
  have i: "i < length es" using Suc.hyps(2) by simp
  obtain k v where e: "es ! i = (k, v)" by (cases "es ! i")
  have kv: "length k = 16" "length v = entry_value_size pt" using assms(2) i e nth_mem [OF i] by auto
  obtain q where q: "put_entry p (entry_value_size pt) (48 + length es * 2) i (48 + length es * 2 + i * entry_size pt) k v = Ok q" "length q = PAGE_SIZE"
    "get_at q 0 48 = get_at p 0 48" "entries_at pt (length es) (Suc i) es q"
    using put_entry_ok [OF Suc.prems(1) i assms(1) kv e] Suc.prems(3) by blast
  have d: "drop i es = (k, v) # drop (Suc i) es" using i e by (simp add: Cons_nth_drop_Suc [symmetric])
  have c: "48 + length es * 2 + i * entry_size pt + 16 + entry_value_size pt \<le> 16384" using entry_area(1) [OF i assms(1)] .
  have m: "m = length es - Suc i" using Suc.hyps(2) by simp
  obtain r where "encode_loop (entry_value_size pt) (48 + length es * 2) (Suc i) (48 + length es * 2 + Suc i * entry_size pt) (drop (Suc i) es) q = Ok r"
    "length r = PAGE_SIZE" "get_at r 0 48 = get_at q 0 48" "entries_at pt (length es) (length es) es r"
    using Suc.hyps(1) [OF m q(2) _ q(4)] i by auto
  moreover have "48 + length es * 2 + Suc i * entry_size pt = 48 + length es * 2 + i * entry_size pt + 16 + entry_value_size pt"
    using entry_size_split [of pt] by simp
  ultimately show ?case unfolding d using kv c q(1,3) by (auto simp: ac_simps)
qed

lemma data_start_of: "n < 2 ^ 16 \<Longrightarrow> data_start (word_of_nat n) = 48 + n * 2"
  by (simp add: data_start_def unat_word_of_nat_small)

lemma entries_fit_small: "entries_fit pt es \<Longrightarrow> length es < 2 ^ 16"
  by (simp add: entries_fit_def)

lemma header_ok_count [simp]: "header_ok (h\<lparr>bh_key_count := c\<rparr>) = header_ok h"
  by (simp add: header_ok_def)

lemma entries_at_cong: "(\<And>a n. 48 \<le> a \<Longrightarrow> get_at q a n = get_at p a n) \<Longrightarrow> entries_at pt n m es q = entries_at pt n m es p"
  by (simp add: entries_at_def)

lemma encode_entries_ok:
  assumes p: "length p = PAGE_SIZE" and h: "header_ok h" and es: "entries_fit (bh_page_type h) es"
  shows "\<exists>q. encode_entries p es h = Ok q \<and> bt_page q (h\<lparr>bh_key_count := word_of_nat (length es)\<rparr>) es"
proof -
  let ?pt = "bh_page_type h" and ?h = "h\<lparr>bh_key_count := word_of_nat (length es)\<rparr>"
  obtain q where q: "encode_loop (entry_value_size ?pt) (48 + length es * 2) 0 (48 + length es * 2) es p = Ok q" "length q = PAGE_SIZE"
    "entries_at ?pt (length es) (length es) es q"
    using encode_loop_ok [of es ?pt p 0] es p by (auto simp: entries_fit_def entries_at_def)
  obtain r where r: "bt_write_header q ?h = Ok r" "length r = PAGE_SIZE" "page_header r = Ok ?h" "\<forall>a n. 48 \<le> a \<longrightarrow> get_at r a n = get_at q a n"
    using bt_write_header_ok [OF q(2), of ?h] h by auto
  have "entries_at ?pt (length es) (length es) es r" using entries_at_cong [of r q] r(4) q(3) by blast
  then show ?thesis using q(1) r es h by (auto simp: encode_entries_def Let_def data_start_of [OF entries_fit_small [OF es]] bt_page_def)
qed

section \<open>Reading a page\<close>

lemma bt_page_count: "bt_page p h es \<Longrightarrow> unat (bh_key_count h) = length es"
  using entries_fit_small by (auto simp: bt_page_def unat_word_of_nat_small)

lemma bt_page_offset:
  assumes b: "bt_page p h es" and i: "i < length es"
  shows "entry_offset p h i = Ok (48 + length es * 2 + i * entry_size (bh_page_type h))"
proof -
  let ?rel = "i * entry_size (bh_page_type h)"
  have f: "48 + length es * 2 + length es * entry_size (bh_page_type h) \<le> 16384" using b by (auto simp: bt_page_def entries_fit_def)
  have "get_at p (48 + i * 2) 2 = to_le 2 (word_of_nat ?rel :: u16)" "length p = 16384"
    using b i by (simp_all only: bt_page_def entries_at_def)
  then have r: "(read_u16 p (48 + i * 2) :: u16 res) = Ok (word_of_nat ?rel)" using i f by (simp add: read_words_Ok del: of_nat_mult)
  have "unat (word_of_nat ?rel :: u16) = ?rel" by (rule unat_word_of_nat_small) (use entry_area(2) [OF i f] in simp)
  then show ?thesis
    using bt_page_count [OF b] unfolding entry_offset_def r by (simp add: data_start_def del: of_nat_mult)
qed

lemma bt_page_entry:
  assumes b: "bt_page p h es" and i: "i < length es"
  shows "48 + length es * 2 + i * entry_size (bh_page_type h) + 16 + entry_value_size (bh_page_type h) \<le> 16384"
    and "get_at p (48 + length es * 2 + i * entry_size (bh_page_type h)) 16 = fst (es ! i)"
    and "get_at p (48 + length es * 2 + i * entry_size (bh_page_type h) + 16) (entry_value_size (bh_page_type h)) = snd (es ! i)"
proof -
  have "48 + length es * 2 + length es * entry_size (bh_page_type h) \<le> 16384" using b by (auto simp: bt_page_def entries_fit_def)
  from entry_area(1) [OF i this]
  show "48 + length es * 2 + i * entry_size (bh_page_type h) + 16 + entry_value_size (bh_page_type h) \<le> 16384" .
qed (use b i in \<open>simp_all only: bt_page_def entries_at_def\<close>)

lemma bt_page_header: "bt_page p h es \<Longrightarrow> page_header p = Ok h \<and> length p = PAGE_SIZE"
  by (simp add: bt_page_def)

lemma entry_key_at_ok:
  assumes b: "bt_page p h es"
  shows "entry_key_at p i = Ok (if i < length es then Some (fst (es ! i)) else None)"
proof (cases "i < length es")
  case True
  then show ?thesis using bt_page_entry [OF b True] bt_page_offset [OF b True] bt_page_header [OF b] bt_page_count [OF b]
    by (simp add: entry_key_at_def get_slice_Ok)
qed (use bt_page_header [OF b] bt_page_count [OF b] in \<open>simp add: entry_key_at_def\<close>)

lemma entry_value_bounds_ok:
  assumes b: "bt_page p h es" and i: "i < length es"
  shows "entry_value_bounds p i = Ok (Some (48 + length es * 2 + i * entry_size (bh_page_type h) + 16,
    48 + length es * 2 + i * entry_size (bh_page_type h) + 16 + entry_value_size (bh_page_type h)))"
  using bt_page_entry [OF b i] bt_page_offset [OF b i] bt_page_header [OF b] bt_page_count [OF b] i
  by (simp add: entry_value_bounds_def Let_def)

lemma entry_value_at_ok:
  assumes b: "bt_page p h es"
  shows "entry_value_at p i = Ok (if i < length es then Some (snd (es ! i)) else None)"
proof (cases "i < length es")
  case True
  then show ?thesis using bt_page_entry [OF b True] entry_value_bounds_ok [OF b True] bt_page_header [OF b]
    by (simp add: entry_value_at_def get_slice_Ok)
qed (use bt_page_header [OF b] bt_page_count [OF b] in \<open>simp add: entry_value_at_def entry_value_bounds_def\<close>)

lemma entry_offset_at_ok:
  assumes b: "bt_page p h es" and i: "i < length es"
  shows "entry_offset_at p i = Ok (Some (48 + length es * 2 + i * entry_size (bh_page_type h)))"
  using bt_page_entry [OF b i] bt_page_offset [OF b i] bt_page_header [OF b] bt_page_count [OF b] i
  by (simp add: entry_offset_at_def)

lemma entry_at_ok: "bt_page p h es \<Longrightarrow> i < length es \<Longrightarrow> entry_at p i pos = Ok (es ! i)"
  by (simp add: entry_at_def entry_key_at_ok entry_value_at_ok)

lemma collect_from_ok:
  assumes b: "bt_page p h es"
  shows "i + n \<le> length es \<Longrightarrow> collect_from p i n = Ok (take n (drop i es))"
proof (induction n arbitrary: i)
  case (Suc n)
  then have "drop i es = es ! i # drop (Suc i) es" by (simp add: Cons_nth_drop_Suc)
  then show ?case using Suc by (simp add: entry_key_at_ok [OF b] entry_value_at_ok [OF b])
qed simp

lemma collect_entries_ok: "bt_page p h es \<Longrightarrow> collect_entries p = Ok es"
  using collect_from_ok [of p h es 0 "length es"] bt_page_header bt_page_count by (auto simp: collect_entries_def)

section \<open>Searching a page\<close>

declare find_key_loop.simps [simp del] child_pos_loop.simps [simp del] lower_bound_loop.simps [simp del] find_in_leaf_loop.simps [simp del]

lemma prefix_length:
  assumes "i \<le> length es" and "\<forall>j < i. P (es ! j)" and "i < length es \<longrightarrow> \<not> P (es ! i)"
  shows "length (takeWhile P es) = i"
  using assms
proof (induction es arbitrary: i)
  case (Cons e es)
  show ?case
  proof (cases i)
    case 0
    then show ?thesis using Cons.prems by simp
  next
    case (Suc j)
    then have "P e" using Cons.prems(2) by force
    moreover have "length (takeWhile P es) = j" using Cons.prems Suc by (intro Cons.IH) auto
    ultimately show ?thesis using Suc by simp
  qed
qed simp

lemma keys_mono: "keys_sorted es \<Longrightarrow> i < j \<Longrightarrow> j < length es \<Longrightarrow> fst (es ! i) < fst (es ! j)"
  by (simp add: sorted_wrt_iff_nth_less)

lemma keys_mono_le: "keys_sorted es \<Longrightarrow> i \<le> j \<Longrightarrow> j < length es \<Longrightarrow> fst (es ! i) \<le> fst (es ! j)"
  using keys_mono [of es i j] by (cases "i = j") auto

lemma key_pos_le [simp]: "key_pos key es \<le> length es"
  by (simp add: key_pos_def length_takeWhile_le)

lemma child_pos_le [simp]: "child_pos key es \<le> length es"
  by (simp add: child_pos_def length_takeWhile_le)

lemma key_pos_eq:
  "i \<le> length es \<Longrightarrow> \<forall>j < i. fst (es ! j) < key \<Longrightarrow> i < length es \<longrightarrow> key \<le> fst (es ! i) \<Longrightarrow> key_pos key es = i"
  unfolding key_pos_def by (rule prefix_length) auto

lemma child_pos_eq:
  "i \<le> length es \<Longrightarrow> \<forall>j < i. fst (es ! j) \<le> key \<Longrightarrow> i < length es \<longrightarrow> key < fst (es ! i) \<Longrightarrow> child_pos key es = i"
  unfolding child_pos_def by (rule prefix_length) auto

lemma mid_bounds: "lo < hi \<Longrightarrow> lo \<le> (lo + hi) div 2 \<and> (lo + hi) div 2 < (hi :: nat)"
  by auto

lemma key_below: "keys_sorted es \<Longrightarrow> i < length es \<Longrightarrow> fst (es ! i) < key \<Longrightarrow> j < Suc i \<Longrightarrow> fst (es ! j) < key"
  using keys_mono_le [of es j i] by (simp add: less_Suc_eq_le)

lemma key_above: "keys_sorted es \<Longrightarrow> key < fst (es ! i) \<Longrightarrow> i \<le> j \<Longrightarrow> j < length es \<Longrightarrow> key < fst (es ! j)"
  using keys_mono_le [of es i j] by simp

lemma key_not_in:
  fixes es :: "entry list"
  assumes "\<forall>j < i. fst (es ! j) < key" and "\<forall>j. i \<le> j \<and> j < length es \<longrightarrow> key < fst (es ! j)"
  shows "key \<notin> fst ` set es"
proof
  assume "key \<in> fst ` set es"
  then obtain j where "j < length es" "fst (es ! j) = key" by (auto simp: in_set_conv_nth)
  then show False using assms(1) [rule_format, of j] assms(2) [rule_format, of j] by (cases "j < i") auto
qed

text \<open>The invariant of the three searches: everything below \<open>lo\<close> is smaller, everything from \<open>hi\<close> on is not.\<close>

lemma find_key_loop_ok:
  assumes b: "bt_page p h es" and s: "keys_sorted es"
  shows "lo \<le> hi \<Longrightarrow> hi \<le> length es \<Longrightarrow> \<forall>j < lo. fst (es ! j) < key \<Longrightarrow> \<forall>j. hi \<le> j \<and> j < length es \<longrightarrow> key < fst (es ! j)
    \<Longrightarrow> find_key_loop p key lo hi = Ok (Some (key \<in> fst ` set es, key_pos key es))"
proof (induction "hi - lo" arbitrary: lo hi rule: less_induct)
  case less
  let ?mid = "(lo + hi) div 2"
  show ?case
  proof (cases "lo < hi")
    case True
    note mid = mid_bounds [OF True]
    have m: "?mid < length es" using mid less.prems(2) by simp
    note k = entry_key_at_ok [OF b, of ?mid]
    consider (eq) "fst (es ! ?mid) = key" | (lt) "fst (es ! ?mid) < key" | (gt) "key < fst (es ! ?mid)" by fastforce
    then show ?thesis
    proof cases
      case eq
      then have "key_pos key es = ?mid" using mid m keys_mono [OF s] by (intro key_pos_eq) auto
      moreover have "key \<in> fst ` set es" using eq m by (auto intro!: image_eqI nth_mem)
      ultimately show ?thesis using True m k eq by (simp add: find_key_loop.simps [of p key lo hi] Let_def)
    next
      case lt
      then have "find_key_loop p key (?mid + 1) hi = Ok (Some (key \<in> fst ` set es, key_pos key es))"
        using mid less.prems key_below [OF s m lt] by (intro less.hyps) auto
      then show ?thesis using True m k lt less_imp_neq [OF lt] by (simp add: find_key_loop.simps [of p key lo hi] Let_def)
    next
      case gt
      then have "find_key_loop p key lo ?mid = Ok (Some (key \<in> fst ` set es, key_pos key es))"
        using mid less.prems key_above [OF s gt] by (intro less.hyps) auto
      then show ?thesis using True m k gt less_not_sym [OF gt] less_imp_neq [OF gt, symmetric] by (simp add: find_key_loop.simps [of p key lo hi] Let_def)
    qed
  next
    case False
    then have "key_pos key es = lo" "key \<notin> fst ` set es" using less.prems key_not_in [of lo es key] by (auto intro!: key_pos_eq less_imp_le)
    then show ?thesis using False by (simp add: find_key_loop.simps [of p key lo hi])
  qed
qed

lemma find_key_pos_ok: "bt_page p h es \<Longrightarrow> keys_sorted es \<Longrightarrow> find_key_pos p key = Ok (Some (key \<in> fst ` set es, key_pos key es))"
  by (auto simp: find_key_pos_def bt_page_header bt_page_count intro!: find_key_loop_ok)

lemma child_pos_loop_ok:
  assumes b: "bt_page p h es" and s: "keys_sorted es"
  shows "lo \<le> hi \<Longrightarrow> hi \<le> length es \<Longrightarrow> \<forall>j < lo. fst (es ! j) \<le> key \<Longrightarrow> \<forall>j. hi \<le> j \<and> j < length es \<longrightarrow> key < fst (es ! j)
    \<Longrightarrow> child_pos_loop p key lo hi = Ok (child_pos key es)"
proof (induction "hi - lo" arbitrary: lo hi rule: less_induct)
  case less
  let ?mid = "(lo + hi) div 2"
  show ?case
  proof (cases "lo < hi")
    case True
    note mid = mid_bounds [OF True]
    have m: "?mid < length es" using mid less.prems(2) by simp
    note k = entry_key_at_ok [OF b, of ?mid]
    show ?thesis
    proof (cases "key < fst (es ! ?mid)")
      case gt: True
      then have "child_pos_loop p key lo ?mid = Ok (child_pos key es)"
        using mid less.prems key_above [OF s gt] by (intro less.hyps) auto
      then show ?thesis using True m k gt by (simp add: child_pos_loop.simps [of p key lo hi] Let_def)
    next
      case le: False
      then have "child_pos_loop p key (?mid + 1) hi = Ok (child_pos key es)"
        using mid less.prems keys_mono_le [OF s _ m] by (intro less.hyps) (auto simp: less_Suc_eq_le not_less intro: order_trans)
      then show ?thesis using True m k le by (simp add: child_pos_loop.simps [of p key lo hi] Let_def)
    qed
  next
    case False
    then have "child_pos key es = lo" using less.prems by (auto intro!: child_pos_eq)
    then show ?thesis using False by (simp add: child_pos_loop.simps [of p key lo hi])
  qed
qed

lemma child_insert_pos_ok: "bt_page p h es \<Longrightarrow> keys_sorted es \<Longrightarrow> child_insert_pos_for_key p h key = Ok (child_pos key es)"
  by (auto simp: child_insert_pos_for_key_def bt_page_count intro!: child_pos_loop_ok)

lemma lower_bound_loop_ok:
  assumes b: "bt_page p h es" and s: "keys_sorted es"
  shows "lo \<le> hi \<Longrightarrow> hi \<le> length es \<Longrightarrow> \<forall>j < lo. fst (es ! j) < key \<Longrightarrow> \<forall>j. hi \<le> j \<and> j < length es \<longrightarrow> key \<le> fst (es ! j)
    \<Longrightarrow> lower_bound_loop p key lo hi = Ok (key_pos key es)"
proof (induction "hi - lo" arbitrary: lo hi rule: less_induct)
  case less
  let ?mid = "(lo + hi) div 2"
  show ?case
  proof (cases "lo < hi")
    case True
    note mid = mid_bounds [OF True]
    have m: "?mid < length es" using mid less.prems(2) by simp
    note k = entry_key_at_ok [OF b, of ?mid]
    show ?thesis
    proof (cases "fst (es ! ?mid) < key")
      case lt: True
      then have "lower_bound_loop p key (?mid + 1) hi = Ok (key_pos key es)"
        using mid less.prems key_below [OF s m lt] by (intro less.hyps) auto
      then show ?thesis using True m k lt by (simp add: lower_bound_loop.simps [of p key lo hi] Let_def)
    next
      case ge: False
      then have "lower_bound_loop p key lo ?mid = Ok (key_pos key es)"
        using mid less.prems keys_mono_le [OF s] by (intro less.hyps) (auto simp: not_less intro: order_trans)
      then show ?thesis using True m k ge by (simp add: lower_bound_loop.simps [of p key lo hi] Let_def)
    qed
  next
    case False
    then have "key_pos key es = lo" using less.prems by (auto intro!: key_pos_eq)
    then show ?thesis using False by (simp add: lower_bound_loop.simps [of p key lo hi])
  qed
qed

lemma lower_bound_in_leaf_ok: "bt_page p h es \<Longrightarrow> keys_sorted es \<Longrightarrow> lower_bound_in_leaf p key = Ok (key_pos key es)"
  by (auto simp: lower_bound_in_leaf_def bt_page_header bt_page_count intro!: lower_bound_loop_ok)

section \<open>Leaf values\<close>

lemma encode_leaf_length [simp]: "length (lv_value v) = VALUE_SIZE \<Longrightarrow> length (encode_leaf_value v) = LEAF_VALUE_SIZE"
  by (simp add: encode_leaf_value_def Let_def split: prod.splits)

lemma decode_leaf_meta_ok: "length b = LEAF_VALUE_SIZE \<Longrightarrow> decode_leaf_value_meta b = Ok (leaf_meta_of b)"
  by (simp add: decode_leaf_value_meta_def leaf_meta_of_def read_words_Ok)

lemma leaf_of_encode:
  assumes "leaf_value_ok v"
  shows "leaf_of (encode_leaf_value v) = v"
  using assms
  by (cases v; cases "lv_meta v"; cases "lm_undo_ptr (lv_meta v)")
    (auto simp: leaf_of_def leaf_meta_of_def encode_leaf_value_def leaf_value_ok_def get_at_def ptr_of_parts_def)

lemma decode_leaf_ref_ok:
  assumes b: "bt_page p h es" and i: "i < length es" and t: "bh_page_type h = PAGE_TYPE_LEAF"
  shows "decode_leaf_value_ref p (48 + length es * 2 + i * entry_size (bh_page_type h) + 16) = Ok (Some (leaf_of (snd (es ! i))))"
proof -
  let ?o = "48 + length es * 2 + i * entry_size (bh_page_type h) + 16"
  have v: "entry_value_size (bh_page_type h) = 1060" using t by (simp add: entry_value_size_def)
  have l: "length p = 16384" using bt_page_header [OF b] by simp
  note e = bt_page_entry [OF b i, unfolded v]
  have g: "get_at p ?o 1024 = get_at (snd (es ! i)) 0 1024" using get_at_get_at [of 0 1024 1060 p ?o] e(3) by simp
  have "length (snd (es ! i)) = 1060" using e(1) l unfolding e(3) [symmetric] by (simp add: length_get_at)
  then show ?thesis using e l g
    by (simp add: decode_leaf_value_ref_def get_slice_Ok decode_leaf_meta_ok leaf_of_def)
qed

lemma find_in_leaf_loop_ok:
  assumes b: "bt_page p h es" and s: "keys_sorted es" and t: "bh_page_type h = PAGE_TYPE_LEAF"
  shows "lo \<le> hi \<Longrightarrow> hi \<le> length es \<Longrightarrow> \<forall>j < lo. fst (es ! j) < key \<Longrightarrow> \<forall>j. hi \<le> j \<and> j < length es \<longrightarrow> key < fst (es ! j)
    \<Longrightarrow> find_in_leaf_loop p key lo hi = Ok (map_option leaf_of (map_of es key))"
proof (induction "hi - lo" arbitrary: lo hi rule: less_induct)
  case less
  let ?mid = "(lo + hi) div 2"
  show ?case
  proof (cases "lo < hi")
    case True
    note mid = mid_bounds [OF True]
    have m: "?mid < length es" using mid less.prems(2) by simp
    note k = entry_key_at_ok [OF b, of ?mid]
    consider (eq) "fst (es ! ?mid) = key" | (lt) "fst (es ! ?mid) < key" | (gt) "key < fst (es ! ?mid)" by fastforce
    then show ?thesis
    proof cases
      case eq
      have "distinct (map fst es)" using s strict_sorted_iff by blast
      then have "map_of es key = Some (snd (es ! ?mid))" using m eq by (intro map_of_is_SomeI) (auto simp: in_set_conv_nth prod_eq_iff)
      then show ?thesis using True m k eq entry_value_bounds_ok [OF b m] decode_leaf_ref_ok [OF b m t]
        by (simp add: find_in_leaf_loop.simps [of p key lo hi] Let_def)
    next
      case lt
      then have "find_in_leaf_loop p key (?mid + 1) hi = Ok (map_option leaf_of (map_of es key))"
        using mid less.prems key_below [OF s m lt] by (intro less.hyps) auto
      then show ?thesis using True m k lt less_imp_neq [OF lt] by (simp add: find_in_leaf_loop.simps [of p key lo hi] Let_def)
    next
      case gt
      then have "find_in_leaf_loop p key lo ?mid = Ok (map_option leaf_of (map_of es key))"
        using mid less.prems key_above [OF s gt] by (intro less.hyps) auto
      then show ?thesis using True m k gt less_not_sym [OF gt] less_imp_neq [OF gt, symmetric] by (simp add: find_in_leaf_loop.simps [of p key lo hi] Let_def)
    qed
  next
    case False
    then have "key \<notin> fst ` set es" using less.prems key_not_in [of lo es key] by auto
    then have "map_of es key = None" by (simp add: map_of_eq_None_iff)
    then show ?thesis using False by (simp add: find_in_leaf_loop.simps [of p key lo hi])
  qed
qed

lemma find_in_leaf_ok:
  "bt_page p h es \<Longrightarrow> keys_sorted es \<Longrightarrow> bh_page_type h = PAGE_TYPE_LEAF \<Longrightarrow> find_in_leaf p key = Ok (map_option leaf_of (map_of es key))"
  by (auto simp: find_in_leaf_def bt_page_header bt_page_count intro!: find_in_leaf_loop_ok)

lemma decode_child_id_ok: "length b = 8 \<Longrightarrow> decode_child_id b = Ok (from_le b)"
  by (simp add: decode_child_id_def read_words_Ok get_at_def)

lemma child_id_roundtrip [simp]: "from_le (encode_child_id c) = c" "length (encode_child_id c) = 8"
  by (simp_all add: encode_child_id_def)

lemma child_id_at_pos_ok:
  assumes b: "bt_page p h es" and t: "bh_page_type h = PAGE_TYPE_INTERNAL" and i: "i \<le> length es"
  shows "child_id_at_pos p h i = Ok (child_at (bh_left_child h) es i)"
proof (cases i)
  case (Suc j)
  then have "es ! j \<in> set es" using i by simp
  then have "length (snd (es ! j)) = 8" using b t by (auto simp: bt_page_def entries_fit_def entry_value_size_def)
  then show ?thesis using Suc i by (simp add: child_id_at_pos_def child_at_def entry_value_at_ok [OF b] decode_child_id_ok)
qed (simp add: child_id_at_pos_def child_at_def)

section \<open>Rebuilding a page\<close>

lemma length_insert_at [simp]: "i \<le> length xs \<Longrightarrow> length (insert_at i x xs) = Suc (length xs)"
  by (simp add: insert_at_def)

lemma set_insert_at [simp]: "set (insert_at i x xs) = insert x (set xs)"
proof -
  have "set (take i xs) \<union> set (drop i xs) = set xs" by (metis append_take_drop_id set_append)
  then show ?thesis by (auto simp: insert_at_def)
qed

lemma nth_insert_at: "i \<le> length xs \<Longrightarrow> j \<le> length xs \<Longrightarrow> insert_at i x xs ! j = (if j = i then x else xs ! (if j < i then j else j - 1))"
  by (auto simp: insert_at_def nth_append min_def nth_Cons' not_less)

lemma length_remove_at [simp]: "i < length xs \<Longrightarrow> length (remove_at i xs) = length xs - 1"
  by (simp add: remove_at_def)

lemma nth_remove_at: "i < length xs \<Longrightarrow> j < length xs - 1 \<Longrightarrow> remove_at i xs ! j = (if j < i then xs ! j else xs ! Suc j)"
  by (auto simp: remove_at_def nth_append min_def not_less)

lemma set_remove_at: "set (remove_at i xs) \<subseteq> set xs"
  using set_take_subset set_drop_subset by (fastforce simp: remove_at_def)

lemma fits_one_more: "bt_page p h es \<Longrightarrow> page_has_room_for_one_more h \<longleftrightarrow> 48 + Suc (length es) * 2 + Suc (length es) * entry_size (bh_page_type h) \<le> 16384"
  by (simp add: page_has_room_for_one_more_def bt_page_count)

lemma entries_fit_insert:
  assumes "bt_page p h es" and "page_has_room_for_one_more h" and "i \<le> length es"
    and "length k = KEY_SIZE" and "length v = entry_value_size (bh_page_type h)"
  shows "entries_fit (bh_page_type h) (insert_at i (k, v) es)"
proof -
  have "48 + Suc (length es) * 2 + Suc (length es) * entry_size (bh_page_type h) \<le> 16384" using assms(1,2) fits_one_more by blast
  then show ?thesis using assms unfolding bt_page_def entries_fit_def by auto
qed

lemma entries_fit_le:
  assumes "entries_fit pt es" and "length fs \<le> length es" and "set fs \<subseteq> set es"
  shows "entries_fit pt fs"
proof -
  have "length fs * 2 + length fs * entry_size pt \<le> length es * 2 + length es * entry_size pt"
    using assms(2) by (intro add_mono mult_right_mono) auto
  then show ?thesis using assms(1,3) by (auto simp: entries_fit_def)
qed

lemma entries_fit_nth: "entries_fit pt es \<Longrightarrow> i < length es \<Longrightarrow> length (fst (es ! i)) = KEY_SIZE \<and> length (snd (es ! i)) = entry_value_size pt"
  by (cases "es ! i") (use nth_mem [of i es] in \<open>auto simp: entries_fit_def\<close>)

lemma insert_loop_ok:
  assumes b: "bt_page p h es" and i: "i \<le> length es" and f: "entries_fit (bh_page_type h) (insert_at i (k, v) es)"
    and "length out = PAGE_SIZE" and "pos + n = Suc (length es)" and "entries_at (bh_page_type h) (Suc (length es)) pos (insert_at i (k, v) es) out"
  shows "\<exists>q. insert_loop p i k v (entry_value_size (bh_page_type h)) (48 + Suc (length es) * 2) pos
      (48 + Suc (length es) * 2 + pos * entry_size (bh_page_type h)) n out = Ok q
    \<and> length q = PAGE_SIZE \<and> get_at q 0 48 = get_at out 0 48 \<and> entries_at (bh_page_type h) (Suc (length es)) (Suc (length es)) (insert_at i (k, v) es) q"
  using assms(4-6)
proof (induction n arbitrary: pos out)
  case (Suc n)
  let ?pt = "bh_page_type h" and ?fs = "insert_at i (k, v) es" and ?n = "Suc (length es)"
  have pos: "pos < ?n" using Suc.prems(2) by simp
  obtain k' v' where e: "?fs ! pos = (k', v')" by (cases "?fs ! pos")
  have kv: "length k' = 16" "length v' = entry_value_size ?pt"
    using f nth_mem [of pos ?fs] e pos i by (auto simp: entries_fit_def)
  have n: "48 + ?n * 2 + ?n * entry_size ?pt \<le> 16384" using f i by (simp add: entries_fit_def)
  have r: "(if pos = i then Ok (k, v) else entry_at p (if pos < i then pos else pos - 1) pos) = (Ok (k', v') :: entry res)"
    using nth_insert_at [OF i, of pos "(k, v)"] e pos i entry_at_ok [OF b] by auto
  obtain q where q: "put_entry out (entry_value_size ?pt) (48 + ?n * 2) pos (48 + ?n * 2 + pos * entry_size ?pt) k' v' = Ok q" "length q = PAGE_SIZE"
    "get_at q 0 48 = get_at out 0 48" "entries_at ?pt ?n (Suc pos) ?fs q"
    using put_entry_ok [OF Suc.prems(1) pos n kv e] Suc.prems(3) by blast
  obtain s where s: "insert_loop p i k v (entry_value_size ?pt) (48 + ?n * 2) (Suc pos) (48 + ?n * 2 + Suc pos * entry_size ?pt) n q = Ok s"
    "length s = PAGE_SIZE" "get_at s 0 48 = get_at q 0 48" "entries_at ?pt ?n ?n ?fs s"
    using Suc.IH [OF q(2) _ q(4)] Suc.prems(2) by auto
  have c: "48 + ?n * 2 + pos * entry_size ?pt + 16 + entry_value_size ?pt = 48 + ?n * 2 + Suc pos * entry_size ?pt"
    using entry_size_split [of ?pt] by simp
  have "insert_loop p i k v (entry_value_size ?pt) (48 + ?n * 2) pos (48 + ?n * 2 + pos * entry_size ?pt) (Suc n) out = Ok s"
    unfolding insert_loop.simps r res_bind.simps prod.case q(1) c using s(1) by simp
  then show ?case using s q(3) by auto
qed auto

lemma bt_page_of_parts:
  assumes "length q = PAGE_SIZE" and "get_at q 0 48 = get_at o1 0 48" and "page_header o1 = Ok h" and "length o1 = PAGE_SIZE" and "header_ok h"
    and "bh_key_count h = word_of_nat (length es)" and "entries_fit (bh_page_type h) es" and "entries_at (bh_page_type h) (length es) (length es) es q"
  shows "bt_page q h es"
  using assms page_header_cong [of q o1] by (simp add: bt_page_def)

text \<open>A rebuild starts from a fresh page with the new header.\<close>

lemma fresh_page_ok:
  assumes "header_ok h"
  shows "\<exists>out0 out1. bt_new_page (bh_page_type h) lvl = Ok out0 \<and> bt_write_header out0 (h\<lparr>bh_key_count := c\<rparr>) = Ok out1
    \<and> length out1 = PAGE_SIZE \<and> page_header out1 = Ok (h\<lparr>bh_key_count := c\<rparr>)"
proof -
  obtain out0 where 0: "bt_new_page (bh_page_type h) lvl = Ok out0" "length out0 = PAGE_SIZE"
    using bt_new_page_ok [of "bh_page_type h" lvl] assms by (auto simp: header_ok_def bt_page_def)
  obtain out1 where "bt_write_header out0 (h\<lparr>bh_key_count := c\<rparr>) = Ok out1" "length out1 = PAGE_SIZE" "page_header out1 = Ok (h\<lparr>bh_key_count := c\<rparr>)"
    using bt_write_header_ok [OF 0(2), of "h\<lparr>bh_key_count := c\<rparr>"] assms by auto
  then show ?thesis using 0(1) by blast
qed

lemma rebuild_insert_ok:
  assumes b: "bt_page p h es" and i: "i \<le> length es" and room: "page_has_room_for_one_more h"
    and k: "length k = KEY_SIZE" and v: "length v = entry_value_size (bh_page_type h)"
  shows "\<exists>q. rebuild_page_with_insert p h i k v = Ok q \<and> bt_page q (h\<lparr>bh_key_count := word_of_nat (Suc (length es))\<rparr>) (insert_at i (k, v) es)"
proof -
  let ?fs = "insert_at i (k, v) es" and ?n = "Suc (length es)" and ?pt = "bh_page_type h"
  have f: "entries_fit ?pt ?fs" using entries_fit_insert [OF b room i k v] .
  have h: "header_ok h" using b by (simp add: bt_page_def)
  have l: "length ?fs = ?n" using i by simp
  obtain out0 out1 where o: "bt_new_page ?pt (bh_level h) = Ok out0" "bt_write_header out0 (h\<lparr>bh_key_count := word_of_nat ?n\<rparr>) = Ok out1"
    "length out1 = PAGE_SIZE" "page_header out1 = Ok (h\<lparr>bh_key_count := word_of_nat ?n\<rparr>)"
    using fresh_page_ok [OF h] by metis
  obtain q where q: "insert_loop p i k v (entry_value_size ?pt) (48 + ?n * 2) 0 (48 + ?n * 2) ?n out1 = Ok q" "length q = PAGE_SIZE"
    "get_at q 0 48 = get_at out1 0 48" "entries_at ?pt ?n ?n ?fs q"
    using insert_loop_ok [OF b i f o(3), of 0 ?n] by (auto simp: entries_at_def)
  have "bt_page q (h\<lparr>bh_key_count := word_of_nat ?n\<rparr>) ?fs"
    using h f q(4) l by (intro bt_page_of_parts [OF q(2,3) o(4,3)]) (simp_all del: of_nat_Suc)
  moreover have "data_start (word_of_nat ?n) = 48 + ?n * 2" using data_start_of entries_fit_small [OF f] l by metis
  ultimately show ?thesis using q(1) o(1,2) unfolding rebuild_page_with_insert_def Let_def bt_page_count [OF b] by (simp del: of_nat_Suc insert_loop.simps)
qed

lemma remove_loop_ok:
  assumes b: "bt_page p h es" and i: "i < length es" and "length out = PAGE_SIZE" and "idx + n = length es"
    and "entries_at (bh_page_type h) (length es - 1) (if idx \<le> i then idx else idx - 1) (remove_at i es) out"
  shows "\<exists>q. remove_loop p i (entry_value_size (bh_page_type h)) (48 + (length es - 1) * 2) idx (if idx \<le> i then idx else idx - 1)
      (48 + (length es - 1) * 2 + (if idx \<le> i then idx else idx - 1) * entry_size (bh_page_type h)) n out = Ok q
    \<and> length q = PAGE_SIZE \<and> get_at q 0 48 = get_at out 0 48 \<and> entries_at (bh_page_type h) (length es - 1) (length es - 1) (remove_at i es) q"
  using assms(3-5)
proof (induction n arbitrary: idx out)
  case 0
  then show ?case using i by auto
next
  case (Suc n)
  let ?pt = "bh_page_type h" and ?fs = "remove_at i es" and ?n = "length es - 1"
  let ?pos = "if idx \<le> i then idx else idx - 1"
  have f: "entries_fit ?pt ?fs" using b entries_fit_le [of ?pt es ?fs] set_remove_at [of i es] i by (auto simp: bt_page_def)
  show ?case
  proof (cases "idx = i")
    case True
    then show ?thesis using Suc.IH [OF Suc.prems(1), of "Suc idx"] Suc.prems by simp
  next
    case False
    have pos: "?pos < ?n" and idx: "idx < length es" using Suc.prems(2) False i by auto
    have next_pos: "(if Suc idx \<le> i then Suc idx else Suc idx - 1) = Suc ?pos" using False by auto
    obtain k v where e: "?fs ! ?pos = (k, v)" by (cases "?fs ! ?pos")
    have r: "entry_at p idx idx = Ok (k, v)"
      using entry_at_ok [OF b idx] nth_remove_at [OF i pos] e False by (auto split: if_splits)
    have kv: "length k = 16" "length v = entry_value_size ?pt"
      using f nth_mem [of ?pos ?fs] e pos i by (auto simp: entries_fit_def)
    have n: "48 + ?n * 2 + ?n * entry_size ?pt \<le> 16384" using f i by (simp add: entries_fit_def)
    obtain q where q: "put_entry out (entry_value_size ?pt) (48 + ?n * 2) ?pos (48 + ?n * 2 + ?pos * entry_size ?pt) k v = Ok q" "length q = PAGE_SIZE"
      "get_at q 0 48 = get_at out 0 48" "entries_at ?pt ?n (Suc ?pos) ?fs q"
      using put_entry_ok [OF Suc.prems(1) pos n kv e] Suc.prems(3) by blast
    obtain s where s: "remove_loop p i (entry_value_size ?pt) (48 + ?n * 2) (Suc idx) (Suc ?pos) (48 + ?n * 2 + Suc ?pos * entry_size ?pt) n q = Ok s"
      "length s = PAGE_SIZE" "get_at s 0 48 = get_at q 0 48" "entries_at ?pt ?n ?n ?fs s"
      using Suc.IH [of q "Suc idx", unfolded next_pos, OF q(2) _ q(4)] Suc.prems(2) by auto
    have c: "48 + ?n * 2 + ?pos * entry_size ?pt + 16 + entry_value_size ?pt = 48 + ?n * 2 + Suc ?pos * entry_size ?pt"
      using entry_size_split [of ?pt] by simp
    have "remove_loop p i (entry_value_size ?pt) (48 + ?n * 2) idx ?pos (48 + ?n * 2 + ?pos * entry_size ?pt) (Suc n) out = Ok s"
      unfolding remove_loop.simps r res_bind.simps prod.case q(1) c using s(1) False by simp
    then show ?thesis using s q(3) by auto
  qed
qed

lemma rebuild_remove_ok:
  assumes b: "bt_page p h es" and i: "i < length es"
  shows "\<exists>q. rebuild_page_with_remove p h i = Ok q \<and> bt_page q (h\<lparr>bh_key_count := word_of_nat (length es - 1)\<rparr>) (remove_at i es)"
proof -
  let ?fs = "remove_at i es" and ?n = "length es - 1" and ?pt = "bh_page_type h"
  have f: "entries_fit ?pt ?fs" using b entries_fit_le [of ?pt es ?fs] set_remove_at [of i es] i by (auto simp: bt_page_def)
  have h: "header_ok h" using b by (simp add: bt_page_def)
  have l: "length ?fs = ?n" using i by simp
  obtain out0 out1 where o: "bt_new_page ?pt (bh_level h) = Ok out0" "bt_write_header out0 (h\<lparr>bh_key_count := word_of_nat ?n\<rparr>) = Ok out1"
    "length out1 = PAGE_SIZE" "page_header out1 = Ok (h\<lparr>bh_key_count := word_of_nat ?n\<rparr>)"
    using fresh_page_ok [OF h] by metis
  obtain q where q: "remove_loop p i (entry_value_size ?pt) (48 + ?n * 2) 0 0 (48 + ?n * 2) (length es) out1 = Ok q" "length q = PAGE_SIZE"
    "get_at q 0 48 = get_at out1 0 48" "entries_at ?pt ?n ?n ?fs q"
    using remove_loop_ok [OF b i o(3), of 0 "length es"] by (auto simp: entries_at_def)
  have "bt_page q (h\<lparr>bh_key_count := word_of_nat ?n\<rparr>) ?fs"
    using h f q(4) l by (intro bt_page_of_parts [OF q(2,3) o(4,3)]) simp_all
  moreover have "data_start (word_of_nat ?n) = 48 + ?n * 2" using data_start_of entries_fit_small [OF f] l by metis
  ultimately show ?thesis using q(1) o(1,2) i unfolding rebuild_page_with_remove_def Let_def bt_page_count [OF b] by simp
qed

text \<open>Overwriting a value in place and rewriting the header.\<close>

lemma update_value_ok:
  assumes b: "bt_page p h es" and i: "i < length es" and v: "length v = entry_value_size (bh_page_type h)"
  shows "\<exists>q. copy_at p (48 + length es * 2 + i * entry_size (bh_page_type h) + 16) v = Ok q \<and> bt_page q h (es[i := (fst (es ! i), v)])"
proof -
  let ?pt = "bh_page_type h" and ?o = "48 + length es * 2 + i * entry_size (bh_page_type h) + 16"
  let ?q = "put_at p ?o v"
  have l: "length p = 16384" using b by (simp add: bt_page_def)
  note e = bt_page_entry [OF b i]
  have "page_header ?q = page_header p" using l by (intro page_header_cong) (simp_all add: get_at_put_at_before)
  moreover have "entries_fit ?pt (es[i := (fst (es ! i), v)])"
    using b v entries_fit_nth [OF _ i] by (auto simp: bt_page_def entries_fit_def dest!: set_update_subset_insert [THEN subsetD])
  moreover have "entries_at ?pt (length es) (length es) (es[i := (fst (es ! i), v)]) ?q" unfolding entries_at_def
  proof (intro allI impI)
    fix j assume j: "j < length es"
    let ?c = "48 + length es * 2 + j * entry_size ?pt"
    have a: "get_at p (48 + j * 2) 2 = to_le 2 (word_of_nat (j * entry_size ?pt) :: u16)" using b j by (simp only: bt_page_def entries_at_def)
    have "get_at ?q (48 + j * 2) 2 = get_at p (48 + j * 2) 2" using j by (intro get_at_put_at_before) simp
    moreover have "get_at ?q ?c 16 = get_at p ?c 16"
      using entry_disjoint [of i j ?pt] entry_disjoint [of j i ?pt] v by (intro get_at_put_at_disjoint) (cases "i = j"; cases "i < j"; simp)
    moreover have "get_at ?q (?c + 16) (entry_value_size ?pt) = (if i = j then v else get_at p (?c + 16) (entry_value_size ?pt))"
    proof (cases "i = j")
      case True
      then show ?thesis using v e(1) l get_at_put_at_same [of ?o v p] by simp
    next
      case False
      have "get_at ?q (?c + 16) (entry_value_size ?pt) = get_at p (?c + 16) (entry_value_size ?pt)"
        using False entry_disjoint [of i j ?pt] entry_disjoint [of j i ?pt] v by (intro get_at_put_at_disjoint) (cases "i < j"; simp)
      then show ?thesis using False by simp
    qed
    ultimately show "get_at ?q (48 + j * 2) 2 = to_le 2 (word_of_nat (j * entry_size ?pt) :: u16)
      \<and> get_at ?q ?c 16 = fst (es[i := (fst (es ! i), v)] ! j) \<and> get_at ?q (?c + 16) (entry_value_size ?pt) = snd (es[i := (fst (es ! i), v)] ! j)"
      using a bt_page_entry(2,3) [OF b j] j by (simp add: nth_list_update)
  qed
  ultimately show ?thesis using b e(1) v by (simp add: bt_page_def copy_at_Ok)
qed

lemma rewrite_header_ok:
  assumes b: "bt_page p h es" and h': "header_ok h'" and "bh_page_type h' = bh_page_type h" and "bh_key_count h' = bh_key_count h"
  shows "\<exists>q. bt_write_header p h' = Ok q \<and> bt_page q h' es"
proof -
  have l: "length p = PAGE_SIZE" using b by (simp add: bt_page_def)
  obtain q where q: "bt_write_header p h' = Ok q" "length q = PAGE_SIZE" "page_header q = Ok h'" "\<forall>a n. 48 \<le> a \<longrightarrow> get_at q a n = get_at p a n"
    using bt_write_header_ok [OF l h'] by auto
  have "entries_at (bh_page_type h) (length es) (length es) es q" using entries_at_cong [of q p] q(4) b by (auto simp: bt_page_def)
  then show ?thesis using q b h' assms(3,4) by (auto simp: bt_page_def)
qed

section \<open>Splitting a page\<close>

lemma split_leaf_ok:
  assumes b: "bt_page p h es" and t: "bh_page_type h = PAGE_TYPE_LEAF" and n: "2 \<le> length es"
  defines "mid \<equiv> length es div 2"
  defines "sep \<equiv> fst (es ! mid)"
  shows "\<exists>left right. split_leaf p es = Ok (sep, left, right)
    \<and> bt_page left (h\<lparr>bh_high_key := Some sep, bh_key_count := word_of_nat mid\<rparr>) (take mid es)
    \<and> bt_page right (h\<lparr>bh_key_count := word_of_nat (length es - mid)\<rparr>) (drop mid es)"
proof -
  have mid: "mid < length es" using n by (simp add: mid_def)
  have h: "header_ok h" "entries_fit (bh_page_type h) es" "page_header p = Ok h" using b by (auto simp: bt_page_def)
  have fit: "entries_fit (bh_page_type h) (take mid es)" "entries_fit (bh_page_type h) (drop mid es)"
    by (auto intro!: entries_fit_le [OF h(2)] dest: in_set_takeD in_set_dropD)
  have s: "length sep = 16" using h(2) nth_mem [OF mid] by (auto simp: entries_fit_def sep_def)
  obtain fresh where fresh: "bt_new_page 2 0 = Ok fresh" "length fresh = PAGE_SIZE" using bt_new_page_ok [of 2 0] by (auto simp: bt_page_def)
  have lh: "header_ok (h\<lparr>bh_high_key := Some sep\<rparr>)" using h(1) s by (simp add: header_ok_def)
  obtain left where left: "encode_entries fresh (take mid es) (h\<lparr>bh_high_key := Some sep\<rparr>) = Ok left"
    "bt_page left (h\<lparr>bh_high_key := Some sep, bh_key_count := word_of_nat (length (take mid es))\<rparr>) (take mid es)"
    using encode_entries_ok [OF fresh(2) lh, of "take mid es"] fit(1) by auto
  obtain right where right: "encode_entries fresh (drop mid es) h = Ok right"
    "bt_page right (h\<lparr>bh_key_count := word_of_nat (length (drop mid es))\<rparr>) (drop mid es)"
    using encode_entries_ok [OF fresh(2) h(1) fit(2)] by auto
  have d: "drop mid es = (sep, snd (es ! mid)) # drop (Suc mid) es" using mid by (simp add: Cons_nth_drop_Suc sep_def)
  have "split_leaf p es = Ok (sep, left, right)"
    using fresh left(1) right(1) h(3) s unfolding split_leaf_def mid_def [symmetric] Let_def by (simp add: d high_key_of_def)
  then show ?thesis using left(2) right(2) mid by (simp add: min_def)
qed

lemma split_internal_ok:
  assumes b: "bt_page p h es" and t: "bh_page_type h = PAGE_TYPE_INTERNAL" and n: "1 \<le> length es"
  defines "mid \<equiv> length es div 2"
  defines "sep \<equiv> fst (es ! mid)"
  shows "\<exists>left right. split_internal p es = Ok (sep, left, right)
    \<and> bt_page left (h\<lparr>bh_high_key := Some sep, bh_key_count := word_of_nat mid\<rparr>) (take mid es)
    \<and> bt_page right (h\<lparr>bh_left_child := from_le (snd (es ! mid)), bh_key_count := word_of_nat (length es - Suc mid)\<rparr>) (drop (Suc mid) es)"
proof -
  have mid: "mid < length es" using n by (simp add: mid_def)
  have h: "header_ok h" "entries_fit (bh_page_type h) es" "page_header p = Ok h" using b by (auto simp: bt_page_def)
  have fit: "entries_fit (bh_page_type h) (take mid es)" "entries_fit (bh_page_type h) (drop (Suc mid) es)"
    by (auto intro!: entries_fit_le [OF h(2)] dest: in_set_takeD in_set_dropD)
  have s: "length sep = 16" "length (snd (es ! mid)) = 8"
    using h(2) t nth_mem [OF mid] by (auto simp: entries_fit_def sep_def entry_value_size_def)
  obtain fresh where fresh: "bt_new_page 1 (bh_level h) = Ok fresh" "length fresh = PAGE_SIZE"
    using bt_new_page_ok [of 1 "bh_level h"] by (auto simp: bt_page_def)
  let ?lh = "h\<lparr>bh_high_key := Some sep\<rparr>" and ?rh = "h\<lparr>bh_left_child := from_le (snd (es ! mid))\<rparr>"
  have hs: "header_ok ?lh" "header_ok ?rh" using h(1) s by (simp_all add: header_ok_def)
  obtain left where left: "encode_entries fresh (take mid es) ?lh = Ok left" "bt_page left (?lh\<lparr>bh_key_count := word_of_nat (length (take mid es))\<rparr>) (take mid es)"
    using encode_entries_ok [OF fresh(2) hs(1), of "take mid es"] fit(1) by auto
  obtain right where right: "encode_entries fresh (drop (Suc mid) es) ?rh = Ok right"
    "bt_page right (?rh\<lparr>bh_key_count := word_of_nat (length (drop (Suc mid) es))\<rparr>) (drop (Suc mid) es)"
    using encode_entries_ok [OF fresh(2) hs(2), of "drop (Suc mid) es"] fit(2) by auto
  have d: "drop mid es = (sep, snd (es ! mid)) # drop (Suc mid) es" using mid by (simp add: Cons_nth_drop_Suc sep_def)
  have "split_internal p es = Ok (sep, left, right)"
    using fresh left(1) right(1) h(3) s unfolding split_internal_def mid_def [symmetric] Let_def
    by (simp add: d high_key_of_def decode_child_id_ok)
  then show ?thesis using left(2) right(2) mid by (simp add: min_def)
qed

section \<open>Properties of pages\<close>

text \<open>C32: Rebuilding a well-formed page keeps it well formed: with one entry more, when there is room and key and value have their sizes, it is
  the page of the entries with the new one at its position; with one entry less, the page of the others. The other header fields stay.\<close>

theorem page_rebuild_well_formed:
  assumes "bt_page p h es"
  shows "(\<forall>i k v. i \<le> length es \<and> page_has_room_for_one_more h \<and> length k = KEY_SIZE \<and> length v = entry_value_size (bh_page_type h)
      \<longrightarrow> (\<exists>q. rebuild_page_with_insert p h i k v = Ok q \<and> bt_page q (h\<lparr>bh_key_count := word_of_nat (length es + 1)\<rparr>) (take i es @ (k, v) # drop i es)))
    \<and> (\<forall>i < length es. \<exists>q. rebuild_page_with_remove p h i = Ok q \<and> bt_page q (h\<lparr>bh_key_count := word_of_nat (length es - 1)\<rparr>) (take i es @ drop (i + 1) es))"
  using rebuild_insert_ok [OF assms] rebuild_remove_ok [OF assms] by (simp add: insert_at_def remove_at_def)

theorem page_rebuild_well_formed_witness:
  "\<exists>p h q. bt_new_page PAGE_TYPE_LEAF 0 = Ok p \<and> page_header p = Ok h \<and> rebuild_page_with_insert p h 0 (replicate 16 1) (replicate 1060 0) = Ok q"
proof -
  obtain p h where p: "bt_new_page 2 0 = Ok p" "bt_page p h []" "bh_page_type h = 2" using bt_new_page_ok [of 2 0] by auto
  have "page_has_room_for_one_more h" using bt_page_count [OF p(2)] p(3) by (simp add: page_has_room_for_one_more_def entry_size_def entry_value_size_def)
  moreover have "length (replicate 1060 (0 :: byte)) = entry_value_size (bh_page_type h)" using p(3) by (simp add: entry_value_size_def)
  ultimately show ?thesis using page_rebuild_well_formed [OF p(2)] p(1) bt_page_header [OF p(2)] by (metis length_replicate le0)
qed

lemma sorted_prefix_filter:
  assumes "keys_sorted es" and "\<And>k k'. k < k' \<Longrightarrow> Q k' \<Longrightarrow> Q k"
  shows "takeWhile (\<lambda>e. Q (fst e)) es = filter (\<lambda>e. Q (fst e)) es"
  using assms(1)
proof (induction es)
  case (Cons e es)
  show ?case
  proof (cases "Q (fst e)")
    case False
    then have "filter (\<lambda>e. Q (fst e)) es = []" using Cons(2) assms(2) by (fastforce simp: filter_empty_conv)
    then show ?thesis using False by simp
  qed (use Cons in simp)
qed simp

text \<open>The binary searches of a page are linear searches over its entries: on a well-formed page with ascending keys, the position of a key
  is the number of smaller ones, with whether the key is there; the child for a key is given by the number of separators at or
  below it; and the value found in a leaf is the decoded value of the entry with that key.\<close>

theorem page_search_linear:
  assumes "bt_page p h es" and "keys_sorted es"
  shows "find_key_pos p key = Ok (Some (key \<in> fst ` set es, length (filter (\<lambda>e. fst e < key) es)))
    \<and> lower_bound_in_leaf p key = Ok (length (filter (\<lambda>e. fst e < key) es))
    \<and> child_insert_pos_for_key p h key = Ok (length (filter (\<lambda>e. fst e \<le> key) es))
    \<and> (bh_page_type h = PAGE_TYPE_LEAF \<longrightarrow> find_in_leaf p key = Ok (map_option leaf_of (map_of es key)))"
proof -
  have "takeWhile (\<lambda>e. fst e < key) es = filter (\<lambda>e. fst e < key) es" "takeWhile (\<lambda>e. fst e \<le> key) es = filter (\<lambda>e. fst e \<le> key) es"
    using sorted_prefix_filter [OF assms(2), of "\<lambda>k. k < key"] sorted_prefix_filter [OF assms(2), of "\<lambda>k. k \<le> key"] by (auto intro: less_trans less_le_trans less_imp_le)
  then show ?thesis using find_key_pos_ok [OF assms, of key] lower_bound_in_leaf_ok [OF assms, of key] child_insert_pos_ok [OF assms, of key] find_in_leaf_ok [OF assms, of key]
    by (simp add: key_pos_def child_pos_def)
qed

theorem page_search_linear_witness:
  "\<exists>p. bt_new_page PAGE_TYPE_LEAF 0 = Ok p \<and> find_key_pos p (replicate 16 7) = Ok (Some (False, 0))"
proof -
  obtain p h where p: "bt_new_page 2 0 = Ok p" "bt_page p h []" using bt_new_page_ok [of 2 0] by auto
  show ?thesis using page_search_linear [OF p(2), of "replicate 16 7"] p(1) by simp
qed

end
