(* ===== verification/Page_Provider.thy ===== *)
theory Page_Provider
  imports Bptree_Page
begin

text \<open>
  Where the B+-tree keeps its pages (\<open>page_bptree.rs\<close>): the trait \<open>AsyncPageProvider\<close> as a record of its methods,
  the in-memory provider, and the striped page latches.

  A tree operation is a program over the state of the tree. It may fail, panic, or not return at all: a program
  maps a state to \<open>None\<close> when it does not return and to a result and the state it leaves otherwise, so the writes
  made before an error are part of the outcome. The operations of one task run one after another; the latches,
  which order concurrent tasks, are modelled on their own.

  The locale \<open>page_provider\<close> is the contract the tree relies on: the pages seen through the provider form a map,
  reads do not change it, a write changes one page, and page ids are handed out in ascending order. The in-memory
  provider is shown to keep it.
\<close>

section \<open>Programs\<close>

type_synonym ('s, 'a) prog = "'s \<Rightarrow> ('a res \<times> 's) option"

definition lift :: "'a res \<Rightarrow> ('s, 'a) prog" where
  "lift r s = Some (r, s)"

abbreviation ret :: "'a \<Rightarrow> ('s, 'a) prog" where
  "ret a \<equiv> lift (Ok a)"

definition ok_or :: "error \<Rightarrow> 'a option \<Rightarrow> 'a res" where
  "ok_or e x = (case x of None \<Rightarrow> Err e | Some a \<Rightarrow> Ok a)"

definition andThen :: "('s, 'a) prog \<Rightarrow> ('a \<Rightarrow> ('s, 'b) prog) \<Rightarrow> ('s, 'b) prog" where
  "andThen m f s = Option.bind (m s) (\<lambda>(r, s'). case r of Ok a \<Rightarrow> f a s' | Err e \<Rightarrow> Some (Err e, s') | Panic \<Rightarrow> Some (Panic, s'))"

text \<open>A \<open>loop\<close> of the source: the body gives the next cursor, or nothing when the operation returns.\<close>

partial_function (option) run_loop :: "('c \<Rightarrow> ('s, 'c option) prog) \<Rightarrow> 'c \<Rightarrow> ('s, unit) prog" where
  "run_loop body c s = Option.bind (body c s) (\<lambda>(r, s'). case r of
     Ok None \<Rightarrow> Some (Ok (), s')
   | Ok (Some c') \<Rightarrow> run_loop body c' s'
   | Err e \<Rightarrow> Some (Err e, s')
   | Panic \<Rightarrow> Some (Panic, s'))"

section \<open>The provider trait\<close>

record 's provider =
  pv_read :: "'s \<Rightarrow> u64 \<Rightarrow> bytes option \<times> 's"
  pv_write :: "'s \<Rightarrow> u64 \<Rightarrow> bytes \<Rightarrow> 's"
  pv_alloc :: "'s \<Rightarrow> u64 \<times> 's"
  pv_root :: "'s \<Rightarrow> u64"
  pv_set_root :: "'s \<Rightarrow> u64 \<Rightarrow> 's"

record mem_provider =
  mp_pages :: "u64 \<rightharpoonup> bytes"
  mp_next_page_id :: u64
  mp_root :: u64

definition mem_new :: mem_provider where
  "mem_new = \<lparr>mp_pages = Map.empty, mp_next_page_id = 1, mp_root = 0\<rparr>"

definition mem_read_page :: "mem_provider \<Rightarrow> u64 \<Rightarrow> bytes option \<times> mem_provider" where
  "mem_read_page m pid = (mp_pages m pid, m)"

definition mem_write_page :: "mem_provider \<Rightarrow> u64 \<Rightarrow> bytes \<Rightarrow> mem_provider" where
  "mem_write_page m pid page = m\<lparr>mp_pages := (mp_pages m)(pid \<mapsto> page)\<rparr>"

definition mem_alloc_page_id :: "mem_provider \<Rightarrow> u64 \<times> mem_provider" where
  "mem_alloc_page_id m = (mp_next_page_id m, m\<lparr>mp_next_page_id := mp_next_page_id m + 1\<rparr>)"

definition mem_set_root_page_id :: "mem_provider \<Rightarrow> u64 \<Rightarrow> mem_provider" where
  "mem_set_root_page_id m pid = m\<lparr>mp_root := pid\<rparr>"

definition mem_provider_ops :: "mem_provider provider" where
  "mem_provider_ops = \<lparr>pv_read = mem_read_page, pv_write = mem_write_page, pv_alloc = mem_alloc_page_id, pv_root = mp_root,
     pv_set_root = mem_set_root_page_id\<rparr>"

section \<open>Page latches\<close>

text \<open>A latch table has a number of stripes, each a semaphore with \<open>LATCH_STRIPE_PERMITS\<close> permits; a table is the
  list of permits left. A reader takes one permit of the stripe of its page and a writer all of them; an acquisition that
  has to wait is \<open>None\<close>. A guard gives its permits back when it is dropped.\<close>

abbreviation (input) DEFAULT_LATCH_SHARDS :: nat where "DEFAULT_LATCH_SHARDS \<equiv> 256"
abbreviation (input) DEFAULT_LATCH_STRIPES :: nat where "DEFAULT_LATCH_STRIPES \<equiv> 32768"
abbreviation (input) LATCH_STRIPE_PERMITS :: nat where "LATCH_STRIPE_PERMITS \<equiv> 1024"
abbreviation (input) ROOT_LATCH_PAGE_ID :: u64 where "ROOT_LATCH_PAGE_ID \<equiv> 0"

type_synonym latch_table = "nat list"

definition latch_table_new :: "nat \<Rightarrow> latch_table" where
  "latch_table_new shards = replicate (max (max shards 1) DEFAULT_LATCH_STRIPES) LATCH_STRIPE_PERMITS"

definition latch_shard :: "latch_table \<Rightarrow> u64 \<Rightarrow> nat" where
  "latch_shard lt pid = unat pid mod length lt"

definition acquire :: "nat \<Rightarrow> latch_table \<Rightarrow> u64 \<Rightarrow> latch_table option" where
  "acquire permits lt pid =
    (let i = latch_shard lt pid in if permits \<le> lt ! i then Some (lt[i := lt ! i - permits]) else None)"

definition acquire_read :: "latch_table \<Rightarrow> u64 \<Rightarrow> latch_table option" where
  "acquire_read = acquire 1"

definition acquire_write :: "latch_table \<Rightarrow> u64 \<Rightarrow> latch_table option" where
  "acquire_write = acquire LATCH_STRIPE_PERMITS"

definition release :: "nat \<Rightarrow> latch_table \<Rightarrow> u64 \<Rightarrow> latch_table" where
  "release permits lt pid = (let i = latch_shard lt pid in lt[i := lt ! i + permits])"

section \<open>The contract of a provider\<close>

text \<open>\<open>ok\<close> is the invariant of the provider and \<open>view\<close> the pages seen through it; \<open>reserved\<close> are the ids of pages the
  provider keeps for itself, such as the page that persists the root id. \<open>page_reader\<close> is the part that lookups and scans rely on.\<close>

locale page_reader =
  fixes P :: "'s provider" and ok :: "'s \<Rightarrow> bool" and view :: "'s \<Rightarrow> u64 \<rightharpoonup> bytes" and next_id :: "'s \<Rightarrow> u64" and reserved :: "u64 set"
  assumes read_law: "ok s \<Longrightarrow> \<exists>s'. pv_read P s pid = (view s pid, s') \<and> ok s' \<and> view s' = view s \<and> next_id s' = next_id s \<and> pv_root P s' = pv_root P s"

locale page_provider = page_reader +
  assumes write_law: "ok s \<Longrightarrow> pid \<notin> reserved \<Longrightarrow> ok (pv_write P s pid page) \<and> view (pv_write P s pid page) = (view s)(pid \<mapsto> page)
      \<and> next_id (pv_write P s pid page) = next_id s \<and> pv_root P (pv_write P s pid page) = pv_root P s"
    and alloc_law: "ok s \<Longrightarrow> \<exists>s'. pv_alloc P s = (next_id s, s') \<and> ok s' \<and> view s' = view s \<and> next_id s' = next_id s + 1 \<and> pv_root P s' = pv_root P s"
    and set_root_law: "ok s \<Longrightarrow> ok (pv_set_root P s pid) \<and> (\<forall>q. q \<notin> reserved \<longrightarrow> view (pv_set_root P s pid) q = view s q)
      \<and> next_id (pv_set_root P s pid) = next_id s \<and> pv_root P (pv_set_root P s pid) = pid"

interpretation mem: page_provider mem_provider_ops "\<lambda>_. True" mp_pages mp_next_page_id "{}"
  by unfold_locales
    (auto simp: mem_provider_ops_def mem_read_page_def mem_write_page_def mem_alloc_page_id_def mem_set_root_page_id_def)

section \<open>Sequencing\<close>

lemma andThen_lift [simp]:
  "andThen (lift (Ok a)) f = f a" "andThen (lift (Err e)) f = lift (Err e)" "andThen (lift Panic) f = lift Panic"
  by (auto simp: andThen_def lift_def fun_eq_iff)

lemma andThen_Ok: "m s = Some (Ok a, s') \<Longrightarrow> andThen m f s = f a s'"
  by (simp add: andThen_def)

lemma andThen_Err: "m s = Some (Err e, s') \<Longrightarrow> andThen m f s = Some (Err e, s')"
  by (simp add: andThen_def)

lemma run_loop_stop: "body c s = Some (Ok None, s') \<Longrightarrow> run_loop body c s = Some (Ok (), s')"
  by (subst run_loop.simps) simp

lemma run_loop_step: "body c s = Some (Ok (Some c'), s') \<Longrightarrow> run_loop body c s = run_loop body c' s'"
  by (subst run_loop.simps) simp

section \<open>Exclusion by latches\<close>

lemma latch_shard_lt: "lt \<noteq> [] \<Longrightarrow> latch_shard lt q < length lt"
  by (simp add: latch_shard_def)

lemma acquire_Some:
  "acquire n lt q = Some lt' \<Longrightarrow> lt \<noteq> [] \<Longrightarrow> length lt' = length lt \<and> n \<le> lt ! latch_shard lt q \<and> lt' ! latch_shard lt q = lt ! latch_shard lt q - n
     \<and> (\<forall>i. i \<noteq> latch_shard lt q \<longrightarrow> lt' ! i = lt ! i)"
  using latch_shard_lt [of lt q] by (auto simp: acquire_def Let_def split: if_splits)

lemma latch_shard_cong: "length lt' = length lt \<Longrightarrow> latch_shard lt' q = latch_shard lt q"
  by (simp add: latch_shard_def)

lemma release_acquire: "acquire n lt q = Some lt' \<Longrightarrow> lt \<noteq> [] \<Longrightarrow> release n lt' q = lt"
  using latch_shard_lt [of lt q] by (auto simp: acquire_def release_def Let_def latch_shard_def split: if_splits)

text \<open>C33: In a table whose stripes have at most their full number of permits, a page write-latched by one task excludes every other latch on its stripe,
  read or write, and no latch on another stripe; giving the latch back restores the table. The stripe of a page is its id modulo
  the number of stripes, so two pages whose ids agree modulo that number cannot be write-latched at once, not even by one task.\<close>

theorem latch_exclusive:
  assumes "lt \<noteq> []" and "\<forall>n \<in> set lt. n \<le> LATCH_STRIPE_PERMITS" and "acquire_write lt a = Some lt'"
  shows "(\<forall>b. unat b mod length lt = unat a mod length lt \<longrightarrow> acquire_write lt' b = None \<and> acquire_read lt' b = None)
    \<and> (\<forall>b. unat b mod length lt \<noteq> unat a mod length lt \<longrightarrow> (acquire_write lt' b = None \<longleftrightarrow> acquire_write lt b = None) \<and> (acquire_read lt' b = None \<longleftrightarrow> acquire_read lt b = None))
    \<and> release LATCH_STRIPE_PERMITS lt' a = lt"
proof -
  note x = acquire_Some [OF assms(3) [unfolded acquire_write_def] assms(1)]
  have lt: "lt ! latch_shard lt a \<le> 1024" using assms(1,2) latch_shard_lt by simp
  have cong: "latch_shard lt' b = latch_shard lt b" for b using x by (intro latch_shard_cong) simp
  show ?thesis using x lt cong release_acquire [OF assms(3) [unfolded acquire_write_def] assms(1)]
    by (auto simp: acquire_write_def acquire_read_def acquire_def Let_def latch_shard_def)
qed

theorem latch_exclusive_witness:
  "\<exists>lt'. acquire_write (latch_table_new DEFAULT_LATCH_SHARDS) 1 = Some lt' \<and> acquire_write lt' 32769 = None"
proof -
  let ?lt = "latch_table_new 256"
  have n: "?lt \<noteq> []" "\<forall>n \<in> set ?lt. n \<le> 1024" "length ?lt = 32768" "?lt ! 1 = 1024" by (simp_all add: latch_table_new_def)
  then obtain lt' where lt': "acquire_write ?lt 1 = Some lt'" by (simp add: acquire_write_def acquire_def latch_shard_def)
  then show ?thesis using latch_exclusive [OF n(1,2) lt'] n(3) by auto
qed

end
