(* ===== verification/Bptree.thy ===== *)
theory Bptree
  imports Page_Provider
begin

text \<open>
  The B+-tree over a page provider (\<open>PageBPlusTree\<close> in \<open>page_bptree.rs\<close>): lookup, insertion with splits on the way
  down, removal with borrowing and merging on the way down, range scans along the leaf chain, and the repairs that
  follow a removal. The bounded loops of the source (retries, hops along right links, hops of a scan) keep their
  bounds; its unbounded loops are \<open>run_loop\<close>.

  \<open>bt\<close> is the tree the pages form, and \<open>rep\<close> says that they do: every leaf has the entries between its bounds in
  ascending order, its upper bound as high key and the following leaf as its next link; every internal page has the
  separators and the ids of its children. \<open>tree_inv\<close> adds that the root page is the root of the tree, that no page
  is used twice and that the ids to come are fresh. The lemmas show that lookup, insertion and scans are lookup, update
  and slice of the map from keys to values that the leaves hold.
\<close>

section \<open>State and page access\<close>

record 's tree =
  bt_pages :: 's
  bt_len :: u64

definition read_page :: "'s provider \<Rightarrow> u64 \<Rightarrow> ('s tree, bytes option) prog" where
  "read_page P pid t = (let (r, s) = pv_read P (bt_pages t) pid in Some (Ok r, t\<lparr>bt_pages := s\<rparr>))"

definition write_page :: "'s provider \<Rightarrow> u64 \<Rightarrow> bytes \<Rightarrow> ('s tree, unit) prog" where
  "write_page P pid page t = Some (Ok (), t\<lparr>bt_pages := pv_write P (bt_pages t) pid page\<rparr>)"

definition alloc_page_id :: "'s provider \<Rightarrow> ('s tree, u64) prog" where
  "alloc_page_id P t = (let (pid, s) = pv_alloc P (bt_pages t) in Some (Ok pid, t\<lparr>bt_pages := s\<rparr>))"

definition root_page_id :: "'s provider \<Rightarrow> ('s tree, u64) prog" where
  "root_page_id P t = Some (Ok (pv_root P (bt_pages t)), t)"

definition set_root_page_id :: "'s provider \<Rightarrow> u64 \<Rightarrow> ('s tree, unit) prog" where
  "set_root_page_id P pid t = Some (Ok (), t\<lparr>bt_pages := pv_set_root P (bt_pages t) pid\<rparr>)"

definition add_len :: "('s tree, unit) prog" where
  "add_len t = Some (Ok (), t\<lparr>bt_len := bt_len t + 1\<rparr>)"

definition sub_len :: "('s tree, unit) prog" where
  "sub_len t = Some (Ok (), t\<lparr>bt_len := (if bt_len t = 0 then 0 else bt_len t - 1)\<rparr>)"

definition require_page :: "'s provider \<Rightarrow> u64 \<Rightarrow> ('s tree, bytes) prog" where
  "require_page P pid = andThen (read_page P pid) (\<lambda>p. lift (ok_or (InvalidPageSize (unat pid) PAGE_SIZE) p))"

section \<open>Construction\<close>

definition tree_new :: "mem_provider tree option" where
  "tree_new =
    (case mem_alloc_page_id mem_new of (root_id, m) \<Rightarrow>
     case bt_new_page PAGE_TYPE_LEAF 0 of
       Ok page \<Rightarrow> Some \<lparr>bt_pages = mem_set_root_page_id (mem_write_page m root_id page) root_id, bt_len = 0\<rparr>
     | _ \<Rightarrow> None)"

definition new_with_provider :: "'s provider \<Rightarrow> 's \<Rightarrow> (unit res \<times> 's tree) option" where
  "new_with_provider P s =
    andThen (alloc_page_id P) (\<lambda>root_id. andThen (lift (bt_new_page PAGE_TYPE_LEAF 0)) (\<lambda>page.
    andThen (write_page P root_id page) (\<lambda>_. set_root_page_id P root_id))) \<lparr>bt_pages = s, bt_len = 0\<rparr>"

section \<open>Lookup\<close>

abbreviation (input) MAX_TRAVERSAL_RETRIES :: nat where "MAX_TRAVERSAL_RETRIES \<equiv> 8"
abbreviation (input) MAX_RIGHT_LINK_HOPS :: nat where "MAX_RIGHT_LINK_HOPS \<equiv> 256"
abbreviation (input) MAX_SCAN_LEAF_HOPS :: nat where "MAX_SCAN_LEAF_HOPS \<equiv> 8192"

text \<open>The inner loop of a traversal either returns from the whole operation or falls through to the next retry.\<close>

datatype 'a walk = Return 'a | Retry

fun descend :: "'s provider \<Rightarrow> bytes \<Rightarrow> nat \<Rightarrow> u64 \<Rightarrow> ('s tree, u64 walk) prog" where
  "descend P key 0 current = ret Retry"
| "descend P key (Suc n) current =
    andThen (read_page P current) (\<lambda>p. case p of None \<Rightarrow> ret Retry | Some page \<Rightarrow>
    andThen (lift (page_header page)) (\<lambda>h.
      if bh_page_type h = PAGE_TYPE_LEAF then ret (Return current)
      else andThen (lift (child_insert_pos_for_key page h key)) (\<lambda>pos. andThen (lift (child_id_at_pos page h pos)) (\<lambda>child.
        descend P key n child))))"

fun find_leaf_tries :: "'s provider \<Rightarrow> bytes \<Rightarrow> nat \<Rightarrow> ('s tree, u64 option) prog" where
  "find_leaf_tries P key 0 = ret None"
| "find_leaf_tries P key (Suc n) =
    andThen (root_page_id P) (\<lambda>root. andThen (descend P key MAX_SCAN_LEAF_HOPS root) (\<lambda>w.
      case w of Return pid \<Rightarrow> ret (Some pid) | Retry \<Rightarrow> find_leaf_tries P key n))"

definition find_leaf_for_read :: "'s provider \<Rightarrow> bytes \<Rightarrow> ('s tree, u64 option) prog" where
  "find_leaf_for_read P key = find_leaf_tries P key MAX_TRAVERSAL_RETRIES"

definition right_link :: "bt_header \<Rightarrow> bytes \<Rightarrow> u64 option" where
  "right_link h key = (case bh_high_key h of Some hk \<Rightarrow> if key > hk then bh_next_leaf h else None | None \<Rightarrow> None)"

fun get_hops :: "'s provider \<Rightarrow> bytes \<Rightarrow> nat \<Rightarrow> u64 \<Rightarrow> ('s tree, leaf_value option walk) prog" where
  "get_hops P key 0 leaf_id = ret Retry"
| "get_hops P key (Suc n) leaf_id =
    andThen (read_page P leaf_id) (\<lambda>p. case p of None \<Rightarrow> ret (Return None) | Some page \<Rightarrow>
    andThen (lift (page_header page)) (\<lambda>h.
      if bh_page_type h \<noteq> PAGE_TYPE_LEAF then ret Retry
      else case right_link h key of
        Some nxt \<Rightarrow> if nxt = leaf_id then ret Retry else get_hops P key n nxt
      | None \<Rightarrow> andThen (lift (find_in_leaf page key)) (\<lambda>v. ret (Return v))))"

fun get_tries :: "'s provider \<Rightarrow> bytes \<Rightarrow> nat \<Rightarrow> ('s tree, leaf_value option) prog" where
  "get_tries P key 0 = ret None"
| "get_tries P key (Suc n) =
    andThen (find_leaf_for_read P key) (\<lambda>l. case l of None \<Rightarrow> ret None | Some leaf_id \<Rightarrow>
    andThen (get_hops P key MAX_RIGHT_LINK_HOPS leaf_id) (\<lambda>w. case w of Return v \<Rightarrow> ret v | Retry \<Rightarrow> get_tries P key n))"

definition bt_get :: "'s provider \<Rightarrow> bytes \<Rightarrow> ('s tree, leaf_value option) prog" where
  "bt_get P key = get_tries P key MAX_TRAVERSAL_RETRIES"

section \<open>Insertion\<close>

definition vec_insert :: "nat \<Rightarrow> 'a \<Rightarrow> 'a list \<Rightarrow> 'a list res" where
  "vec_insert i x xs = (if i \<le> length xs then Ok (insert_at i x xs) else Panic)"

definition split_page :: "bytes \<Rightarrow> bt_header \<Rightarrow> entry list \<Rightarrow> (bytes \<times> bytes \<times> bytes) res" where
  "split_page page h entries = (if bh_page_type h = PAGE_TYPE_LEAF then split_leaf page entries else split_internal page entries)"

text \<open>The halves of a split leaf are linked to each other and to the neighbours of the old leaf.\<close>

definition link_halves :: "bytes \<Rightarrow> bt_header \<Rightarrow> u64 \<Rightarrow> u64 \<Rightarrow> bytes \<Rightarrow> bytes \<Rightarrow> (bytes \<times> bytes) res" where
  "link_halves page h left_id right_id left right =
    (if bh_page_type h = PAGE_TYPE_LEAF then
       res_bind (page_header page) (\<lambda>old. res_bind (page_header left) (\<lambda>lh.
       res_bind (bt_write_header left (lh\<lparr>bh_next_leaf := Some right_id, bh_prev_leaf := bh_prev_leaf old\<rparr>)) (\<lambda>left'.
       res_bind (page_header right) (\<lambda>rh.
       res_bind (bt_write_header right (rh\<lparr>bh_prev_leaf := Some left_id, bh_next_leaf := bh_next_leaf old\<rparr>)) (\<lambda>right'.
         Ok (left', right'))))))
     else Ok (left, right))"

definition level_succ :: "byte \<Rightarrow> byte" where
  "level_succ l = (if l = 255 then 255 else l + 1)"

definition ensure_root_not_full :: "'s provider \<Rightarrow> ('s tree, unit) prog" where
  "ensure_root_not_full P =
    andThen (root_page_id P) (\<lambda>root_id. andThen (require_page P root_id) (\<lambda>root. andThen (lift (page_header root)) (\<lambda>h.
    if \<not> page_is_full_for_insert h then ret ()
    else andThen (lift (collect_entries root)) (\<lambda>entries. andThen (alloc_page_id P) (\<lambda>right_id.
      andThen (lift (split_page root h entries)) (\<lambda>(separator, left, right).
      andThen (lift (link_halves root h root_id right_id left right)) (\<lambda>(left', right').
      andThen (write_page P root_id left') (\<lambda>_. andThen (write_page P right_id right') (\<lambda>_.
      andThen (lift (bt_new_page PAGE_TYPE_INTERNAL (level_succ (bh_level h)))) (\<lambda>new_root.
      andThen (lift (page_header new_root)) (\<lambda>nh.
      andThen (lift (encode_entries new_root [(separator, encode_child_id right_id)] (nh\<lparr>bh_left_child := root_id\<rparr>))) (\<lambda>new_root'.
      andThen (alloc_page_id P) (\<lambda>new_root_id.
      andThen (write_page P new_root_id new_root') (\<lambda>_. set_root_page_id P new_root_id))))))))))))))"

definition split_child_and_update_parent ::
  "'s provider \<Rightarrow> u64 \<Rightarrow> bytes \<Rightarrow> bt_header \<Rightarrow> u64 \<Rightarrow> bytes \<Rightarrow> bt_header \<Rightarrow> nat \<Rightarrow> ('s tree, bytes \<times> u64) prog" where
  "split_child_and_update_parent P parent_id parent_page parent_header child_id child_page child_header pos =
    andThen (lift (collect_entries child_page)) (\<lambda>entries. andThen (alloc_page_id P) (\<lambda>right_id.
    andThen (lift (split_page child_page child_header entries)) (\<lambda>(separator, left, right).
    andThen (lift (link_halves child_page child_header child_id right_id left right)) (\<lambda>(left', right').
    andThen (write_page P child_id left') (\<lambda>_. andThen (write_page P right_id right') (\<lambda>_.
    andThen (lift (collect_entries parent_page)) (\<lambda>parent_entries.
    andThen (lift (vec_insert pos (separator, encode_child_id right_id) parent_entries)) (\<lambda>parent_entries'.
    andThen (lift (encode_entries parent_page parent_entries' parent_header)) (\<lambda>parent'.
    andThen (write_page P parent_id parent') (\<lambda>_. ret (separator, right_id)))))))))))"

definition insert_into_leaf :: "'s provider \<Rightarrow> u64 \<Rightarrow> bytes \<Rightarrow> bt_header \<Rightarrow> bytes \<Rightarrow> bytes \<Rightarrow> ('s tree, unit) prog" where
  "insert_into_leaf P current_id page h key encoded =
    andThen (lift (find_key_pos page key)) (\<lambda>fp. let (found, pos) = (case fp of None \<Rightarrow> (False, 0) | Some x \<Rightarrow> x) in
    if found then
      andThen (lift (entry_offset_at page pos)) (\<lambda>off. andThen (lift (ok_or (InvalidPageSize pos PAGE_SIZE) off)) (\<lambda>offset.
      andThen (lift (copy_exact page (offset + KEY_SIZE) LEAF_VALUE_SIZE encoded)) (\<lambda>page'. write_page P current_id page')))
    else
      andThen (lift (rebuild_page_with_insert page h pos key encoded)) (\<lambda>rebuilt.
      andThen (write_page P current_id rebuilt) (\<lambda>_. add_len)))"

definition insert_step :: "'s provider \<Rightarrow> bytes \<Rightarrow> bytes \<Rightarrow> u64 \<Rightarrow> ('s tree, u64 option) prog" where
  "insert_step P key encoded current_id =
    andThen (require_page P current_id) (\<lambda>page. andThen (lift (page_header page)) (\<lambda>h.
    if bh_page_type h = PAGE_TYPE_LEAF then andThen (insert_into_leaf P current_id page h key encoded) (\<lambda>_. ret None)
    else andThen (lift (child_insert_pos_for_key page h key)) (\<lambda>pos. andThen (lift (child_id_at_pos page h pos)) (\<lambda>child_id.
      andThen (require_page P child_id) (\<lambda>child_page. andThen (lift (page_header child_page)) (\<lambda>ch.
      if page_is_full_for_insert ch then
        if \<not> page_has_room_for_one_more h then lift (Err (InvalidPageSize (unat current_id) PAGE_SIZE))
        else andThen (split_child_and_update_parent P current_id page h child_id child_page ch pos) (\<lambda>(separator, right_id).
          ret (Some (if key \<ge> separator then right_id else child_id)))
      else ret (Some child_id)))))))"

definition bt_insert :: "'s provider \<Rightarrow> bytes \<Rightarrow> leaf_value \<Rightarrow> ('s tree, unit) prog" where
  "bt_insert P key v =
    (if length key \<noteq> KEY_SIZE then lift (Err (InvalidKeySize (length key) KEY_SIZE))
     else andThen (ensure_root_not_full P) (\<lambda>_. andThen (root_page_id P) (\<lambda>root.
       run_loop (insert_step P key (encode_leaf_value v)) root)))"

section \<open>Range scans\<close>

text \<open>A visitor sees a key and a row and says whether to go on; what it remembers is the accumulator. The two scans of
  the source differ in the row they hand out: the value with its metadata, or the metadata alone.\<close>

type_synonym ('v, 'a) visitor = "bytes \<Rightarrow> 'v \<Rightarrow> 'a \<Rightarrow> bool \<times> 'a"

definition full_row :: "bytes \<Rightarrow> nat \<Rightarrow> leaf_value option res" where
  "full_row page idx =
    res_bind (entry_value_bounds page idx) (\<lambda>b. case b of None \<Rightarrow> Ok None | Some (value_offset, _) \<Rightarrow> decode_leaf_value_ref page value_offset)"

definition meta_row :: "bytes \<Rightarrow> nat \<Rightarrow> leaf_value_meta option res" where
  "meta_row page idx =
    res_bind (entry_value_at page idx) (\<lambda>v. case v of None \<Rightarrow> Ok None | Some value \<Rightarrow> res_map Some (decode_leaf_value_meta value))"

text \<open>The entries of one leaf from index \<open>idx\<close> on, \<open>n\<close> of them at most: whether the scan returns, and the accumulator.\<close>

fun visit_entries :: "(bytes \<Rightarrow> nat \<Rightarrow> 'v option res) \<Rightarrow> bytes \<Rightarrow> bytes \<Rightarrow> ('v, 'a) visitor \<Rightarrow> nat \<Rightarrow> nat \<Rightarrow> 'a \<Rightarrow> (bool \<times> 'a) res" where
  "visit_entries row page end_key f idx 0 acc = Ok (False, acc)"
| "visit_entries row page end_key f idx (Suc n) acc =
    res_bind (entry_key_at page idx) (\<lambda>k. case k of None \<Rightarrow> Ok (False, acc) | Some key \<Rightarrow>
    if key > end_key then Ok (True, acc)
    else res_bind (row page idx) (\<lambda>v. case v of None \<Rightarrow> Ok (False, acc) | Some r \<Rightarrow>
      let (go, acc') = f key r acc in if \<not> go then Ok (True, acc') else visit_entries row page end_key f (idx + 1) n acc'))"

fun scan_hops :: "'s provider \<Rightarrow> (bytes \<Rightarrow> nat \<Rightarrow> 'v option res) \<Rightarrow> bytes \<Rightarrow> bytes \<Rightarrow> ('v, 'a) visitor \<Rightarrow> nat \<Rightarrow> u64 \<Rightarrow> bool \<Rightarrow> u64 set \<Rightarrow> 'a
    \<Rightarrow> ('s tree, bool \<times> 'a) prog" where
  "scan_hops P row start end_key f 0 leaf_id first visited acc = ret (False, acc)"
| "scan_hops P row start end_key f (Suc n) leaf_id first visited acc =
    (if leaf_id \<in> visited then ret (False, acc)
     else andThen (read_page P leaf_id) (\<lambda>p. case p of None \<Rightarrow> ret (False, acc) | Some page \<Rightarrow>
     andThen (lift (page_header page)) (\<lambda>h.
       if bh_page_type h \<noteq> PAGE_TYPE_LEAF then ret (False, acc)
       else case right_link h start of
         Some nxt \<Rightarrow> if nxt = leaf_id then ret (False, acc) else scan_hops P row start end_key f n nxt first (insert leaf_id visited) acc
       | None \<Rightarrow>
         andThen (lift (if first then lower_bound_in_leaf page start else Ok 0)) (\<lambda>idx.
         andThen (lift (visit_entries row page end_key f idx (unat (bh_key_count h) - idx) acc)) (\<lambda>(returned, acc').
         if returned then ret (True, acc')
         else case bh_next_leaf h of None \<Rightarrow> ret (True, acc')
           | Some nxt \<Rightarrow> if nxt = leaf_id then ret (False, acc') else scan_hops P row start end_key f n nxt False (insert leaf_id visited) acc')))))"

fun scan_tries :: "'s provider \<Rightarrow> (bytes \<Rightarrow> nat \<Rightarrow> 'v option res) \<Rightarrow> bytes \<Rightarrow> bytes \<Rightarrow> ('v, 'a) visitor \<Rightarrow> nat \<Rightarrow> 'a \<Rightarrow> ('s tree, 'a) prog" where
  "scan_tries P row start end_key f 0 acc = ret acc"
| "scan_tries P row start end_key f (Suc n) acc =
    andThen (find_leaf_for_read P start) (\<lambda>l. case l of None \<Rightarrow> ret acc | Some leaf_id \<Rightarrow>
    andThen (scan_hops P row start end_key f MAX_SCAN_LEAF_HOPS leaf_id True {} acc) (\<lambda>(returned, acc').
      if returned then ret acc' else scan_tries P row start end_key f n acc'))"

definition range_visit :: "'s provider \<Rightarrow> bytes \<Rightarrow> bytes \<Rightarrow> (leaf_value, 'a) visitor \<Rightarrow> 'a \<Rightarrow> ('s tree, 'a) prog" where
  "range_visit P start end_key f acc = scan_tries P full_row start end_key f MAX_TRAVERSAL_RETRIES acc"

definition range_visit_meta :: "'s provider \<Rightarrow> bytes \<Rightarrow> bytes \<Rightarrow> (leaf_value_meta, 'a) visitor \<Rightarrow> 'a \<Rightarrow> ('s tree, 'a) prog" where
  "range_visit_meta P start end_key f acc = scan_tries P meta_row start end_key f MAX_TRAVERSAL_RETRIES acc"

definition push_row :: "('v, (bytes \<times> 'v) list) visitor" where
  "push_row k v out = (True, out @ [(k, v)])"

definition bt_range :: "'s provider \<Rightarrow> bytes \<Rightarrow> bytes \<Rightarrow> ('s tree, (bytes \<times> leaf_value) list) prog" where
  "bt_range P start end_key = range_visit P start end_key push_row []"

definition bt_range_meta :: "'s provider \<Rightarrow> bytes \<Rightarrow> bytes \<Rightarrow> ('s tree, (bytes \<times> leaf_value_meta) list) prog" where
  "bt_range_meta P start end_key = range_visit_meta P start end_key push_row []"

section \<open>Repairs after a removal\<close>

definition collapse_step :: "'s provider \<Rightarrow> unit \<Rightarrow> ('s tree, unit option) prog" where
  "collapse_step P _ =
    andThen (root_page_id P) (\<lambda>root_id. andThen (read_page P root_id) (\<lambda>p. case p of None \<Rightarrow> ret None | Some root \<Rightarrow>
    andThen (lift (page_header root)) (\<lambda>h.
      if bh_page_type h = PAGE_TYPE_INTERNAL \<and> bh_key_count h = 0 \<and> bh_left_child h \<noteq> 0
      then andThen (set_root_page_id P (bh_left_child h)) (\<lambda>_. ret (Some ()))
      else ret None)))"

definition maybe_collapse_root_after_delete :: "'s provider \<Rightarrow> ('s tree, unit) prog" where
  "maybe_collapse_root_after_delete P = run_loop (collapse_step P) ()"

definition vec_set_key :: "nat \<Rightarrow> bytes \<Rightarrow> entry list \<Rightarrow> entry list res" where
  "vec_set_key i k es = (if i < length es then Ok (es[i := (k, snd (es ! i))]) else Panic)"

definition set_high_key :: "'s provider \<Rightarrow> u64 \<Rightarrow> bytes \<Rightarrow> ('s tree, unit) prog" where
  "set_high_key P pid key =
    andThen (read_page P pid) (\<lambda>p. case p of None \<Rightarrow> ret () | Some page \<Rightarrow>
    andThen (lift (page_header page)) (\<lambda>h. andThen (lift (bt_write_header page (h\<lparr>bh_high_key := key_to_high_key key\<rparr>))) (\<lambda>page'.
      write_page P pid page')))"

fun find_child :: "bytes \<Rightarrow> bt_header \<Rightarrow> u64 \<Rightarrow> nat \<Rightarrow> nat \<Rightarrow> nat option res" where
  "find_child page h child idx 0 = Ok None"
| "find_child page h child idx (Suc n) =
    res_bind (child_id_at_pos page h idx) (\<lambda>c. if c = child then Ok (Some idx) else find_child page h child (idx + 1) n)"

definition locate_child :: "bytes \<Rightarrow> bt_header \<Rightarrow> nat \<Rightarrow> u64 \<Rightarrow> nat option res" where
  "locate_child page h hint_pos child =
    res_bind (if hint_pos \<le> unat (bh_key_count h) then res_map (\<lambda>c. c = child) (child_id_at_pos page h hint_pos) else Ok False) (\<lambda>hit.
      if hit then Ok (Some hint_pos) else find_child page h child 0 (unat (bh_key_count h) + 1))"

definition repair_parent_separator_after_leaf_first_key_change ::
  "'s provider \<Rightarrow> u64 \<Rightarrow> nat \<Rightarrow> u64 \<Rightarrow> bytes \<Rightarrow> ('s tree, unit) prog" where
  "repair_parent_separator_after_leaf_first_key_change P parent_id hint_pos child_id new_first_key =
    andThen (read_page P parent_id) (\<lambda>p. case p of None \<Rightarrow> ret () | Some page \<Rightarrow>
    andThen (lift (page_header page)) (\<lambda>h.
      if bh_page_type h \<noteq> PAGE_TYPE_INTERNAL \<or> bh_key_count h = 0 then ret ()
      else andThen (lift (locate_child page h hint_pos child_id)) (\<lambda>loc. case loc of None \<Rightarrow> ret () | Some pos \<Rightarrow>
        if pos = 0 then ret ()
        else andThen (lift (collect_entries page)) (\<lambda>entries. andThen (lift (vec_set_key (pos - 1) new_first_key entries)) (\<lambda>entries'.
          andThen (lift (child_id_at_pos page h (pos - 1))) (\<lambda>left_id. andThen (lift (encode_entries page entries' h)) (\<lambda>page'.
          andThen (write_page P parent_id page') (\<lambda>_. set_high_key P left_id new_first_key))))))))"

definition first_key_of :: "'s provider \<Rightarrow> u64 option \<Rightarrow> ('s tree, bytes option) prog" where
  "first_key_of P next =
    (case next of None \<Rightarrow> ret None | Some next_id \<Rightarrow>
     andThen (read_page P next_id) (\<lambda>p. case p of None \<Rightarrow> ret None | Some page \<Rightarrow> lift (entry_key_at page 0)))"

definition repair_leaf_boundary_after_delete :: "'s provider \<Rightarrow> u64 \<Rightarrow> ('s tree, unit) prog" where
  "repair_leaf_boundary_after_delete P leaf_id =
    andThen (read_page P leaf_id) (\<lambda>p. case p of None \<Rightarrow> ret () | Some leaf \<Rightarrow>
    andThen (lift (page_header leaf)) (\<lambda>h.
      if bh_page_type h \<noteq> PAGE_TYPE_LEAF then ret ()
      else andThen (lift (entry_key_at leaf 0)) (\<lambda>leaf_first. andThen (first_key_of P (bh_next_leaf h)) (\<lambda>next_first.
        andThen (lift (bt_write_header leaf (h\<lparr>bh_high_key := Option.bind next_first key_to_high_key\<rparr>))) (\<lambda>leaf'.
        andThen (write_page P leaf_id leaf') (\<lambda>_.
        case (bh_prev_leaf h, leaf_first) of
          (Some prev_id, Some first_key) \<Rightarrow>
            andThen (read_page P prev_id) (\<lambda>q. case q of None \<Rightarrow> ret () | Some prev \<Rightarrow>
            andThen (lift (page_header prev)) (\<lambda>ph.
              if bh_page_type ph = PAGE_TYPE_LEAF \<and> bh_next_leaf ph = Some leaf_id
              then andThen (lift (bt_write_header prev (ph\<lparr>bh_high_key := key_to_high_key first_key\<rparr>))) (\<lambda>prev'. write_page P prev_id prev')
              else ret ()))
        | _ \<Rightarrow> ret ()))))))"

text \<open>\<open>leftmost\<close> gives the page where the walk along left children ends, or nothing when a page is missing.\<close>

fun leftmost :: "'s provider \<Rightarrow> nat \<Rightarrow> u64 \<Rightarrow> ('s tree, u64 option) prog" where
  "leftmost P 0 current = ret (Some current)"
| "leftmost P (Suc n) current =
    andThen (read_page P current) (\<lambda>p. case p of None \<Rightarrow> ret None | Some page \<Rightarrow>
    andThen (lift (page_header page)) (\<lambda>h.
      if bh_page_type h = PAGE_TYPE_LEAF then ret (Some current) else leftmost P n (bh_left_child h)))"

fun refresh_hops :: "'s provider \<Rightarrow> nat \<Rightarrow> u64 \<Rightarrow> ('s tree, unit) prog" where
  "refresh_hops P 0 current = ret ()"
| "refresh_hops P (Suc n) current =
    andThen (read_page P current) (\<lambda>p. case p of None \<Rightarrow> ret () | Some leaf \<Rightarrow>
    andThen (lift (page_header leaf)) (\<lambda>h.
      if bh_page_type h \<noteq> PAGE_TYPE_LEAF then ret ()
      else andThen (first_key_of P (bh_next_leaf h)) (\<lambda>next_first.
        let new_hk = Option.bind next_first key_to_high_key in
        andThen (if bh_high_key h \<noteq> new_hk
                 then andThen (lift (bt_write_header leaf (h\<lparr>bh_high_key := new_hk\<rparr>))) (\<lambda>leaf'. write_page P current leaf')
                 else ret ()) (\<lambda>_.
        case bh_next_leaf h of None \<Rightarrow> ret () | Some next_id \<Rightarrow> if next_id = current then ret () else refresh_hops P n next_id))))"

definition refresh_leaf_high_keys :: "'s provider \<Rightarrow> ('s tree, unit) prog" where
  "refresh_leaf_high_keys P =
    andThen (root_page_id P) (\<lambda>root. andThen (leftmost P MAX_SCAN_LEAF_HOPS root) (\<lambda>l.
      case l of None \<Rightarrow> ret () | Some leaf \<Rightarrow> refresh_hops P MAX_SCAN_LEAF_HOPS leaf))"

section \<open>Removal\<close>

text \<open>The cursor of the loop: the current page and, once below the root, its parent with the position in it.\<close>

type_synonym cursor = "u64 \<times> (u64 \<times> nat) option"

definition vec_pop :: "error \<Rightarrow> 'a list \<Rightarrow> ('a \<times> 'a list) res" where
  "vec_pop e xs = (if xs = [] then Err e else Ok (last xs, butlast xs))"

definition vec_nth :: "nat \<Rightarrow> 'a list \<Rightarrow> 'a res" where
  "vec_nth i xs = (if i < length xs then Ok (xs ! i) else Panic)"

definition vec_remove :: "nat \<Rightarrow> 'a list \<Rightarrow> ('a \<times> 'a list) res" where
  "vec_remove i xs = (if i < length xs then Ok (xs ! i, remove_at i xs) else Panic)"

definition write_parent :: "'s provider \<Rightarrow> u64 \<Rightarrow> bytes \<Rightarrow> bt_header \<Rightarrow> entry list \<Rightarrow> ('s tree, unit) prog" where
  "write_parent P pid page h entries = andThen (lift (encode_entries page entries h)) (\<lambda>page'. write_page P pid page')"

definition remove_at_leaf :: "'s provider \<Rightarrow> bytes \<Rightarrow> u64 \<Rightarrow> bytes \<Rightarrow> bt_header \<Rightarrow> (u64 \<times> nat) option \<Rightarrow> ('s tree, unit) prog" where
  "remove_at_leaf P key current_id page h parent_hint =
    andThen (lift (find_key_pos page key)) (\<lambda>fp. let (found, pos) = (case fp of None \<Rightarrow> (False, 0) | Some x \<Rightarrow> x) in
    if found then
      andThen (lift (rebuild_page_with_remove page h pos)) (\<lambda>rebuilt.
      andThen (lift (if pos = 0 then entry_key_at rebuilt 0 else Ok None)) (\<lambda>new_first.
      andThen (write_page P current_id rebuilt) (\<lambda>_. andThen sub_len (\<lambda>_.
      andThen (case (parent_hint, new_first) of
                 (Some (parent_id, hint_pos), Some k) \<Rightarrow> repair_parent_separator_after_leaf_first_key_change P parent_id hint_pos current_id k
               | _ \<Rightarrow> ret ()) (\<lambda>_.
      andThen (repair_leaf_boundary_after_delete P current_id) (\<lambda>_. andThen (refresh_leaf_high_keys P) (\<lambda>_.
        maybe_collapse_root_after_delete P)))))))
    else maybe_collapse_root_after_delete P)"

definition borrow_left ::
  "'s provider \<Rightarrow> u64 \<Rightarrow> bytes \<Rightarrow> bt_header \<Rightarrow> entry list \<Rightarrow> nat \<Rightarrow> bytes \<Rightarrow> bt_header \<Rightarrow> u64 \<Rightarrow> bytes \<Rightarrow> ('s tree, unit) prog" where
  "borrow_left P current_id page h parent_entries pos child_page ch left_id left_page =
    andThen (lift (collect_entries left_page)) (\<lambda>left_entries. andThen (lift (collect_entries child_page)) (\<lambda>child_entries.
    if bh_page_type ch = PAGE_TYPE_LEAF then
      andThen (lift (vec_pop (InvalidPageSize (unat left_id) PAGE_SIZE) left_entries)) (\<lambda>(borrowed, left_entries').
      andThen (lift (vec_set_key (pos - 1) (fst borrowed) parent_entries)) (\<lambda>parent_entries'.
      andThen (lift (page_header left_page)) (\<lambda>lh. andThen (lift (page_header child_page)) (\<lambda>ch'.
      andThen (lift (encode_entries child_page (borrowed # child_entries) (ch'\<lparr>bh_prev_leaf := Some left_id\<rparr>))) (\<lambda>_.
      andThen (lift (encode_entries left_page left_entries' (lh\<lparr>bh_high_key := key_to_high_key (fst borrowed)\<rparr>))) (\<lambda>left'.
      andThen (write_page P left_id left') (\<lambda>_. write_parent P current_id page h parent_entries')))))))
    else
      andThen (lift (vec_nth (pos - 1) parent_entries)) (\<lambda>(parent_sep, _).
      andThen (lift (vec_pop (InvalidPageSize (unat left_id) PAGE_SIZE) left_entries)) (\<lambda>((up_key, up_right_child), left_entries').
      andThen (lift (decode_child_id up_right_child)) (\<lambda>lc.
      andThen (lift (vec_set_key (pos - 1) up_key parent_entries)) (\<lambda>parent_entries'.
      andThen (lift (page_header left_page)) (\<lambda>lh.
      andThen (lift (encode_entries left_page left_entries' (lh\<lparr>bh_high_key := key_to_high_key up_key\<rparr>))) (\<lambda>left'.
      andThen (lift (encode_entries child_page ((parent_sep, encode_child_id (bh_left_child ch)) # child_entries) (ch\<lparr>bh_left_child := lc\<rparr>))) (\<lambda>_.
      andThen (write_page P left_id left') (\<lambda>_. write_parent P current_id page h parent_entries'))))))))))"

definition borrow_right ::
  "'s provider \<Rightarrow> u64 \<Rightarrow> bytes \<Rightarrow> bt_header \<Rightarrow> entry list \<Rightarrow> nat \<Rightarrow> u64 \<Rightarrow> bytes \<Rightarrow> bt_header \<Rightarrow> u64 \<Rightarrow> bytes \<Rightarrow> bt_header \<Rightarrow> ('s tree, unit) prog" where
  "borrow_right P current_id page h parent_entries pos descend_id child_page ch right_id right_page rh =
    andThen (lift (collect_entries right_page)) (\<lambda>right_entries. andThen (lift (collect_entries child_page)) (\<lambda>child_entries.
    if bh_page_type ch = PAGE_TYPE_LEAF then
      andThen (lift (vec_remove 0 right_entries)) (\<lambda>(borrowed, right_entries').
      andThen (lift (vec_nth 0 right_entries')) (\<lambda>(new_sep, _).
      andThen (lift (vec_set_key pos new_sep parent_entries)) (\<lambda>parent_entries'.
      andThen (lift (page_header child_page)) (\<lambda>ch'. andThen (lift (page_header right_page)) (\<lambda>rh'.
      andThen (lift (encode_entries child_page (child_entries @ [borrowed]) (ch'\<lparr>bh_high_key := key_to_high_key new_sep\<rparr>))) (\<lambda>_.
      andThen (lift (encode_entries right_page right_entries' (rh'\<lparr>bh_prev_leaf := Some descend_id\<rparr>))) (\<lambda>right'.
      andThen (write_page P right_id right') (\<lambda>_. write_parent P current_id page h parent_entries'))))))))
    else
      andThen (lift (vec_nth pos parent_entries)) (\<lambda>(parent_sep, _).
      andThen (lift (vec_remove 0 right_entries)) (\<lambda>((promoted_key, promoted_child), right_entries').
      andThen (lift (decode_child_id promoted_child)) (\<lambda>lc.
      andThen (lift (vec_set_key pos promoted_key parent_entries)) (\<lambda>parent_entries'.
      andThen (lift (encode_entries right_page right_entries' (rh\<lparr>bh_left_child := lc\<rparr>))) (\<lambda>right'.
      andThen (lift (encode_entries child_page (child_entries @ [(parent_sep, encode_child_id (bh_left_child rh))])
                       (ch\<lparr>bh_high_key := key_to_high_key promoted_key\<rparr>))) (\<lambda>_.
      andThen (write_page P right_id right') (\<lambda>_. write_parent P current_id page h parent_entries')))))))))"

text \<open>Merging a page with the one to its right: \<open>left_page\<close> takes the entries of \<open>right_page\<close> and the parent loses
  the separator at \<open>sep_pos\<close>.\<close>

definition merged_page :: "byte \<Rightarrow> entry list \<Rightarrow> nat \<Rightarrow> bytes \<Rightarrow> bt_header \<Rightarrow> bytes \<Rightarrow> bt_header \<Rightarrow> bytes res" where
  "merged_page child_type parent_entries sep_pos left_page lh right_page rh =
    res_bind (collect_entries left_page) (\<lambda>left_entries. res_bind (collect_entries right_page) (\<lambda>right_entries.
    if child_type = PAGE_TYPE_LEAF
    then encode_entries left_page (left_entries @ right_entries) (lh\<lparr>bh_next_leaf := bh_next_leaf rh, bh_high_key := bh_high_key rh\<rparr>)
    else res_bind (vec_nth sep_pos parent_entries) (\<lambda>(sep, _).
      encode_entries left_page (left_entries @ (sep, encode_child_id (bh_left_child rh)) # right_entries) (lh\<lparr>bh_high_key := bh_high_key rh\<rparr>))))"

definition merge_right ::
  "'s provider \<Rightarrow> u64 \<Rightarrow> bytes \<Rightarrow> bt_header \<Rightarrow> entry list \<Rightarrow> nat \<Rightarrow> u64 \<Rightarrow> bytes \<Rightarrow> bt_header \<Rightarrow> bytes \<Rightarrow> bt_header \<Rightarrow> ('s tree, unit) prog" where
  "merge_right P current_id page h parent_entries pos descend_id child_page ch right_page rh =
    andThen (lift (merged_page (bh_page_type ch) parent_entries pos child_page ch right_page rh)) (\<lambda>child'.
    andThen (lift (vec_remove pos parent_entries)) (\<lambda>(_, parent_entries').
    andThen (write_parent P current_id page h parent_entries') (\<lambda>_. write_page P descend_id child')))"

definition merge_left ::
  "'s provider \<Rightarrow> u64 \<Rightarrow> bytes \<Rightarrow> bt_header \<Rightarrow> entry list \<Rightarrow> nat \<Rightarrow> bytes \<Rightarrow> bt_header \<Rightarrow> ('s tree, u64) prog" where
  "merge_left P current_id page h parent_entries pos child_page ch =
    andThen (lift (child_id_at_pos page h (pos - 1))) (\<lambda>left_id. andThen (require_page P left_id) (\<lambda>left_page.
    andThen (lift (page_header left_page)) (\<lambda>lh.
    andThen (lift (merged_page (bh_page_type ch) parent_entries (pos - 1) left_page lh child_page ch)) (\<lambda>left'.
    andThen (lift (vec_remove (pos - 1) parent_entries)) (\<lambda>(_, parent_entries').
    andThen (write_parent P current_id page h parent_entries') (\<lambda>_. andThen (write_page P left_id left') (\<lambda>_. ret left_id)))))))"

text \<open>Making a child with at most the minimum of keys safe before the descent. Nothing is done, and the descent goes on,
  when the child has no sibling.\<close>

definition rebalance_right ::
  "'s provider \<Rightarrow> u64 \<Rightarrow> bytes \<Rightarrow> bt_header \<Rightarrow> entry list \<Rightarrow> nat \<Rightarrow> u64 \<Rightarrow> bytes \<Rightarrow> bt_header \<Rightarrow> ('s tree, cursor option) prog" where
  "rebalance_right P current_id page h parent_entries pos descend_id child_page ch =
    (if pos < unat (bh_key_count h) then
       andThen (lift (child_id_at_pos page h (pos + 1))) (\<lambda>right_id. andThen (require_page P right_id) (\<lambda>right_page.
       andThen (lift (page_header right_page)) (\<lambda>rh.
       andThen (if unat (bh_key_count rh) > min_keys_non_root (bh_page_type ch)
                then borrow_right P current_id page h parent_entries pos descend_id child_page ch right_id right_page rh
                else merge_right P current_id page h parent_entries pos descend_id child_page ch right_page rh) (\<lambda>_.
         ret (Some (descend_id, Some (current_id, pos)))))))
     else if pos > 0 then
       andThen (merge_left P current_id page h parent_entries pos child_page ch) (\<lambda>left_id. ret (Some (left_id, Some (current_id, pos - 1))))
     else ret None)"

definition rebalance ::
  "'s provider \<Rightarrow> u64 \<Rightarrow> bytes \<Rightarrow> bt_header \<Rightarrow> nat \<Rightarrow> u64 \<Rightarrow> bytes \<Rightarrow> bt_header \<Rightarrow> ('s tree, cursor option) prog" where
  "rebalance P current_id page h pos descend_id child_page ch =
    andThen (lift (collect_entries page)) (\<lambda>parent_entries.
    if pos > 0 then
      andThen (lift (child_id_at_pos page h (pos - 1))) (\<lambda>left_id. andThen (require_page P left_id) (\<lambda>left_page.
      andThen (lift (page_header left_page)) (\<lambda>lh.
      if unat (bh_key_count lh) > min_keys_non_root (bh_page_type ch)
      then andThen (borrow_left P current_id page h parent_entries pos child_page ch left_id left_page) (\<lambda>_.
        ret (Some (descend_id, Some (current_id, pos))))
      else rebalance_right P current_id page h parent_entries pos descend_id child_page ch)))
    else rebalance_right P current_id page h parent_entries pos descend_id child_page ch)"

definition remove_from_child :: "'s provider \<Rightarrow> bytes \<Rightarrow> u64 \<Rightarrow> bytes \<Rightarrow> bt_header \<Rightarrow> nat \<Rightarrow> u64 \<Rightarrow> bytes \<Rightarrow> bt_header \<Rightarrow> ('s tree, unit) prog" where
  "remove_from_child P key current_id page h cpos descend_id child_page ch =
    andThen (lift (find_key_pos child_page key)) (\<lambda>fp. let (found, pos) = (case fp of None \<Rightarrow> (False, 0) | Some x \<Rightarrow> x) in
    if found then
      andThen (lift (rebuild_page_with_remove child_page ch pos)) (\<lambda>rebuilt.
      andThen (write_page P descend_id rebuilt) (\<lambda>_.
      andThen (lift (if cpos > 0 \<and> pos = 0 then entry_key_at rebuilt 0 else Ok None)) (\<lambda>new_first.
      andThen (case new_first of None \<Rightarrow> ret () | Some k \<Rightarrow>
                 andThen (lift (collect_entries page)) (\<lambda>parent_entries. andThen (lift (vec_set_key (cpos - 1) k parent_entries)) (\<lambda>parent_entries'.
                 andThen (write_parent P current_id page h parent_entries') (\<lambda>_.
                 andThen (lift (child_id_at_pos page h (cpos - 1))) (\<lambda>left_id. set_high_key P left_id k))))) (\<lambda>_.
      andThen sub_len (\<lambda>_.
      andThen (repair_leaf_boundary_after_delete P descend_id) (\<lambda>_. andThen (refresh_leaf_high_keys P) (\<lambda>_.
        maybe_collapse_root_after_delete P)))))))
    else maybe_collapse_root_after_delete P)"

definition remove_step :: "'s provider \<Rightarrow> bytes \<Rightarrow> cursor \<Rightarrow> ('s tree, cursor option) prog" where
  "remove_step P key c =
    (case c of (current_id, parent_hint) \<Rightarrow>
    andThen (read_page P current_id) (\<lambda>p. case p of None \<Rightarrow> ret None | Some page \<Rightarrow>
    andThen (lift (page_header page)) (\<lambda>h.
    if bh_page_type h = PAGE_TYPE_LEAF then andThen (remove_at_leaf P key current_id page h parent_hint) (\<lambda>_. ret None)
    else
      andThen (lift (child_insert_pos_for_key page h key)) (\<lambda>pos. andThen (lift (child_id_at_pos page h pos)) (\<lambda>descend_id.
      andThen (require_page P descend_id) (\<lambda>child_page. andThen (lift (page_header child_page)) (\<lambda>ch.
      andThen (if unat (bh_key_count ch) \<le> min_keys_non_root (bh_page_type ch)
               then rebalance P current_id page h pos descend_id child_page ch else ret None) (\<lambda>moved.
      case moved of Some c' \<Rightarrow> ret (Some c')
      | None \<Rightarrow> if bh_page_type ch = PAGE_TYPE_LEAF
          then andThen (remove_from_child P key current_id page h pos descend_id child_page ch) (\<lambda>_. ret None)
          else ret (Some (descend_id, Some (current_id, pos)))))))))))"

definition bt_remove :: "'s provider \<Rightarrow> bytes \<Rightarrow> ('s tree, unit) prog" where
  "bt_remove P key =
    (if length key \<noteq> KEY_SIZE then lift (Err (InvalidKeySize (length key) KEY_SIZE))
     else andThen (root_page_id P) (\<lambda>root. run_loop (remove_step P key) (root, None)))"

section \<open>Inspection\<close>

fun first_keys :: "bytes \<Rightarrow> nat \<Rightarrow> nat \<Rightarrow> bytes list res" where
  "first_keys page idx 0 = Ok []"
| "first_keys page idx (Suc n) =
    res_bind (entry_key_at page idx) (\<lambda>k. res_map (\<lambda>ks. (case k of None \<Rightarrow> [] | Some key \<Rightarrow> [key]) @ ks) (first_keys page (idx + 1) n))"

definition debug_leaf_keys :: "'s provider \<Rightarrow> bytes \<Rightarrow> nat \<Rightarrow> ('s tree, bytes list) prog" where
  "debug_leaf_keys P key limit =
    andThen (find_leaf_for_read P key) (\<lambda>l. case l of None \<Rightarrow> ret [] | Some leaf_id \<Rightarrow>
    andThen (read_page P leaf_id) (\<lambda>p. case p of None \<Rightarrow> ret [] | Some page \<Rightarrow>
    andThen (lift (page_header page)) (\<lambda>h.
      if bh_page_type h \<noteq> PAGE_TYPE_LEAF then ret [] else lift (first_keys page 0 (min (unat (bh_key_count h)) limit)))))"

definition debug_leaf_entries :: "'s provider \<Rightarrow> bytes \<Rightarrow> nat \<Rightarrow> ('s tree, entry list) prog" where
  "debug_leaf_entries P key limit =
    andThen (find_leaf_for_read P key) (\<lambda>l. case l of None \<Rightarrow> ret [] | Some leaf_id \<Rightarrow>
    andThen (read_page P leaf_id) (\<lambda>p. case p of None \<Rightarrow> ret [] | Some page \<Rightarrow>
    andThen (lift (page_header page)) (\<lambda>h.
      if bh_page_type h \<noteq> PAGE_TYPE_LEAF then ret [] else lift (collect_from page 0 (min (unat (bh_key_count h)) limit)))))"

end
