(* ===== verification/Bptree_Rep.thy ===== *)
theory Bptree_Rep
  imports Bptree
begin

text \<open>
  The tree that the pages of a B+-tree form. \<open>bt\<close> is the tree as data, \<open>rep t V lo hi nxt n\<close> says that the pages \<open>V\<close> hold it
  as a tree of height \<open>n\<close> with keys between \<open>lo\<close> and \<open>hi\<close>, followed in the leaf chain by the leaf \<open>nxt\<close>: every leaf has the entries
  between its bounds in ascending order, a high key at or above its upper bound and the following leaf as its next link;
  every internal page has the separators and the ids of its children.

  The lemmas are about trees alone: the child on the way to a key, replacing it or splitting it in two, cutting a list
  of children at a separator, and what this does to entries, page ids and bounds.
\<close>

section \<open>The tree the pages form\<close>

text \<open>A leaf has a page id and entries; an internal page has a page id and its children with the separators between them.\<close>

datatype bt = Lf u64 "entry list" | Nd u64 kids
  and kids = Last bt | Kid bt bytes kids

fun top_id :: "bt \<Rightarrow> u64" where
  "top_id (Lf p es) = p"
| "top_id (Nd p ks) = p"

fun first_kid :: "kids \<Rightarrow> bt" where
  "first_kid (Last c) = c"
| "first_kid (Kid c k ks) = c"

primrec first_leaf :: "bt \<Rightarrow> u64" and first_leaf_k :: "kids \<Rightarrow> u64" where
  "first_leaf (Lf p es) = p"
| "first_leaf (Nd p ks) = first_leaf_k ks"
| "first_leaf_k (Last c) = first_leaf c"
| "first_leaf_k (Kid c k ks) = first_leaf c"

primrec pids :: "bt \<Rightarrow> u64 list" and pids_k :: "kids \<Rightarrow> u64 list" where
  "pids (Lf p es) = [p]"
| "pids (Nd p ks) = p # pids_k ks"
| "pids_k (Last c) = pids c"
| "pids_k (Kid c k ks) = pids c @ pids_k ks"

primrec ents :: "bt \<Rightarrow> entry list" and ents_k :: "kids \<Rightarrow> entry list" where
  "ents (Lf p es) = es"
| "ents (Nd p ks) = ents_k ks"
| "ents_k (Last c) = ents c"
| "ents_k (Kid c k ks) = ents c @ ents_k ks"

primrec leaves :: "bt \<Rightarrow> (u64 \<times> entry list) list" and leaves_k :: "kids \<Rightarrow> (u64 \<times> entry list) list" where
  "leaves (Lf p es) = [(p, es)]"
| "leaves (Nd p ks) = leaves_k ks"
| "leaves_k (Last c) = leaves c"
| "leaves_k (Kid c k ks) = leaves c @ leaves_k ks"

fun kid_entries :: "kids \<Rightarrow> entry list" where
  "kid_entries (Last c) = []"
| "kid_entries (Kid c k ks) = (k, encode_child_id (top_id (first_kid ks))) # kid_entries ks"

text \<open>Bounds: a lower one that is included and an upper one that is not; \<open>None\<close> is unbounded.\<close>

definition from_lo :: "bytes option \<Rightarrow> bytes \<Rightarrow> bool" where
  "from_lo lo k \<longleftrightarrow> (case lo of None \<Rightarrow> True | Some l \<Rightarrow> l \<le> k)"

definition over_lo :: "bytes option \<Rightarrow> bytes \<Rightarrow> bool" where
  "over_lo lo k \<longleftrightarrow> (case lo of None \<Rightarrow> True | Some l \<Rightarrow> l < k)"

definition below :: "bytes \<Rightarrow> bytes option \<Rightarrow> bool" where
  "below k hi \<longleftrightarrow> (case hi of None \<Rightarrow> True | Some h \<Rightarrow> k < h)"

text \<open>The high key of a leaf is at or above its upper bound, or absent.\<close>

definition hk_ok :: "bytes option \<Rightarrow> bytes option \<Rightarrow> bool" where
  "hk_ok hk hi \<longleftrightarrow> (case hk of None \<Rightarrow> True | Some x \<Rightarrow> (case hi of None \<Rightarrow> False | Some h \<Rightarrow> h \<le> x))"

definition leaf_page :: "(u64 \<rightharpoonup> bytes) \<Rightarrow> u64 \<Rightarrow> bytes option \<Rightarrow> u64 option \<Rightarrow> entry list \<Rightarrow> bool" where
  "leaf_page V p hi nxt es \<longleftrightarrow> (\<exists>page h. V p = Some page \<and> bt_page page h es \<and> bh_page_type h = PAGE_TYPE_LEAF
     \<and> bh_next_leaf h = nxt \<and> bh_high_key h = hi)"

definition node_page :: "(u64 \<rightharpoonup> bytes) \<Rightarrow> u64 \<Rightarrow> kids \<Rightarrow> bool" where
  "node_page V p ks \<longleftrightarrow> (\<exists>page h. V p = Some page \<and> bt_page page h (kid_entries ks) \<and> bh_page_type h = PAGE_TYPE_INTERNAL
     \<and> bh_left_child h = top_id (first_kid ks))"

primrec rep :: "bt \<Rightarrow> (u64 \<rightharpoonup> bytes) \<Rightarrow> bytes option \<Rightarrow> bytes option \<Rightarrow> u64 option \<Rightarrow> nat \<Rightarrow> bool"
  and rep_k :: "kids \<Rightarrow> (u64 \<rightharpoonup> bytes) \<Rightarrow> bytes option \<Rightarrow> bytes option \<Rightarrow> u64 option \<Rightarrow> nat \<Rightarrow> bool" where
  "rep (Lf p es) V lo hi nxt n \<longleftrightarrow> n = 0 \<and> p \<noteq> 0 \<and> (\<exists>hk. hk_ok hk hi \<and> leaf_page V p hk nxt es) \<and> keys_sorted es
     \<and> (\<forall>e \<in> set es. from_lo lo (fst e) \<and> below (fst e) hi)"
| "rep (Nd p ks) V lo hi nxt n \<longleftrightarrow> (\<exists>m. n = Suc m \<and> kid_entries ks \<noteq> [] \<and> node_page V p ks \<and> rep_k ks V lo hi nxt m)"
| "rep_k (Last c) V lo hi nxt n \<longleftrightarrow> rep c V lo hi nxt n"
| "rep_k (Kid c k ks) V lo hi nxt n \<longleftrightarrow> over_lo lo k \<and> below k hi \<and> rep c V lo (Some k) (Some (first_leaf_k ks)) n \<and> rep_k ks V (Some k) hi nxt n"

text \<open>The child on the way to a key, with its bounds and its right neighbour.\<close>

fun get_kid :: "bytes \<Rightarrow> kids \<Rightarrow> bt" where
  "get_kid key (Last c) = c"
| "get_kid key (Kid c k ks) = (if key < k then c else get_kid key ks)"

fun kid_lo :: "bytes \<Rightarrow> bytes option \<Rightarrow> kids \<Rightarrow> bytes option" where
  "kid_lo key lo (Last c) = lo"
| "kid_lo key lo (Kid c k ks) = (if key < k then lo else kid_lo key (Some k) ks)"

fun kid_hi :: "bytes \<Rightarrow> bytes option \<Rightarrow> kids \<Rightarrow> bytes option" where
  "kid_hi key hi (Last c) = hi"
| "kid_hi key hi (Kid c k ks) = (if key < k then Some k else kid_hi key hi ks)"

fun kid_nxt :: "bytes \<Rightarrow> u64 option \<Rightarrow> kids \<Rightarrow> u64 option" where
  "kid_nxt key nxt (Last c) = nxt"
| "kid_nxt key nxt (Kid c k ks) = (if key < k then Some (first_leaf_k ks) else kid_nxt key nxt ks)"

text \<open>Replacing the child on the way to a key by another one, or by two with a separator.\<close>

fun upd_kid :: "bytes \<Rightarrow> bt \<Rightarrow> kids \<Rightarrow> kids" where
  "upd_kid key c' (Last c) = Last c'"
| "upd_kid key c' (Kid c k ks) = (if key < k then Kid c' k ks else Kid c k (upd_kid key c' ks))"

fun split_kid :: "bytes \<Rightarrow> bt \<Rightarrow> bytes \<Rightarrow> bt \<Rightarrow> kids \<Rightarrow> kids" where
  "split_kid key c1 s c2 (Last c) = Kid c1 s (Last c2)"
| "split_kid key c1 s c2 (Kid c k ks) = (if key < k then Kid c1 s (Kid c2 k ks) else Kid c k (split_kid key c1 s c2 ks))"

text \<open>Cutting a list of children at a separator.\<close>

fun cut_kids :: "nat \<Rightarrow> kids \<Rightarrow> kids \<times> bytes \<times> kids" where
  "cut_kids i (Last c) = (Last c, [], Last c)"
| "cut_kids 0 (Kid c k ks) = (Last c, k, ks)"
| "cut_kids (Suc i) (Kid c k ks) = (case cut_kids i ks of (l, s, r) \<Rightarrow> (Kid c k l, s, r))"

section \<open>Pages of a tree\<close>

lemma hk_ok_refl [simp]: "hk_ok hi hi"
  by (auto simp: hk_ok_def split: option.splits)

lemma hk_ok_below: "hk_ok hk hi \<Longrightarrow> below key hi \<Longrightarrow> below key hk"
  by (auto simp: hk_ok_def below_def split: option.splits)

lemma first_leaf_k_first_kid: "first_leaf_k ks = first_leaf (first_kid ks)"
  by (cases ks) auto

lemma first_leaf_in: "first_leaf t \<in> set (pids t)" "first_leaf_k ks \<in> set (pids_k ks)"
  by (induction t and ks) auto

lemma pid_in: "top_id t \<in> set (pids t)"
  by (cases t) auto

lemma pid_kid_in: "top_id (first_kid ks) \<in> set (pids_k ks)"
  using pid_in by (cases ks) auto

lemma kid_pids: "set (pids (get_kid key ks)) \<subseteq> set (pids_k ks)"
  by (induction ks rule: kid_entries.induct) auto

lemma rep_cong:
  "(\<And>p. p \<in> set (pids t) \<Longrightarrow> V p = V' p) \<Longrightarrow> rep t V lo hi nxt n = rep t V' lo hi nxt n"
  "(\<And>p. p \<in> set (pids_k ks) \<Longrightarrow> V p = V' p) \<Longrightarrow> rep_k ks V lo hi nxt n = rep_k ks V' lo hi nxt n"
  by (induction t and ks arbitrary: lo hi nxt n and lo hi nxt n) (auto simp: leaf_page_def node_page_def)

section \<open>The children of a page\<close>

lemma kids_page:
  assumes "rep_k ks V lo hi nxt n"
  shows "keys_sorted (kid_entries ks)" and "\<forall>e \<in> set (kid_entries ks). over_lo lo (fst e) \<and> below (fst e) hi"
proof -
  have "keys_sorted (kid_entries ks) \<and> (\<forall>e \<in> set (kid_entries ks). over_lo lo (fst e) \<and> below (fst e) hi)"
    using assms
  proof (induction ks arbitrary: lo rule: kid_entries.induct)
    case (2 c k ks)
    have r: "keys_sorted (kid_entries ks)" "\<forall>e \<in> set (kid_entries ks). k < fst e \<and> below (fst e) hi"
      using 2(1) [of "Some k"] 2(2) by (auto simp: over_lo_def)
    then have "\<forall>e \<in> set (kid_entries ks). over_lo lo (fst e)"
      using 2(2) by (auto simp: over_lo_def split: option.splits intro: less_trans)
    then show ?case using r 2(2) by auto
  qed simp
  then show "keys_sorted (kid_entries ks)" "\<forall>e \<in> set (kid_entries ks). over_lo lo (fst e) \<and> below (fst e) hi" by auto
qed

lemma get_kid_child:
  assumes "keys_sorted (kid_entries ks)"
  shows "child_at (top_id (first_kid ks)) (kid_entries ks) (child_pos key (kid_entries ks)) = top_id (get_kid key ks)"
  using assms
proof (induction ks rule: kid_entries.induct)
  case (2 c k ks)
  show ?case
  proof (cases "key < k")
    case True
    then show ?thesis by (auto simp: child_pos_def child_at_def)
  next
    case False
    then have p: "child_pos key (kid_entries (Kid c k ks)) = Suc (child_pos key (kid_entries ks))" by (simp add: child_pos_def)
    show ?thesis using 2 False unfolding p by (auto simp: child_at_def nth_Cons')
  qed
qed (simp add: child_pos_def child_at_def)

lemma kid_entries_upd: "top_id c' = top_id (get_kid key ks) \<Longrightarrow> kid_entries (upd_kid key c' ks) = kid_entries ks \<and> top_id (first_kid (upd_kid key c' ks)) = top_id (first_kid ks)"
  by (induction ks rule: kid_entries.induct) auto

lemma kid_entries_split:
  "top_id c1 = top_id (get_kid key ks) \<Longrightarrow> kid_entries (split_kid key c1 s c2 ks) = insert_at (child_pos key (kid_entries ks)) (s, encode_child_id (top_id c2)) (kid_entries ks)
    \<and> top_id (first_kid (split_kid key c1 s c2 ks)) = top_id (first_kid ks)"
  by (induction ks rule: kid_entries.induct) (auto simp: child_pos_def insert_at_def)

lemma first_leaf_upd: "first_leaf c' = first_leaf (get_kid key ks) \<Longrightarrow> first_leaf_k (upd_kid key c' ks) = first_leaf_k ks"
  by (cases ks) auto

lemma first_leaf_split: "first_leaf c1 = first_leaf (get_kid key ks) \<Longrightarrow> first_leaf_k (split_kid key c1 s c2 ks) = first_leaf_k ks"
  by (cases ks) auto

lemma rep_kid: "rep_k ks V lo hi nxt n \<Longrightarrow> rep (get_kid key ks) V (kid_lo key lo ks) (kid_hi key hi ks) (kid_nxt key nxt ks) n"
  by (induction ks arbitrary: lo rule: kid_entries.induct) auto

lemma kid_bounds: "from_lo lo key \<Longrightarrow> below key hi \<Longrightarrow> from_lo (kid_lo key lo ks) key \<and> below key (kid_hi key hi ks)"
  by (induction ks arbitrary: lo rule: kid_entries.induct) (auto simp: from_lo_def below_def)

lemma rep_upd_kid:
  assumes "rep_k ks V lo hi nxt n" and "rep c' V' (kid_lo key lo ks) (kid_hi key hi ks) (kid_nxt key nxt ks) n"
    and "first_leaf c' = first_leaf (get_kid key ks)" and "distinct (pids_k ks)"
    and "\<And>p. p \<in> set (pids_k ks) \<Longrightarrow> p \<notin> set (pids (get_kid key ks)) \<Longrightarrow> V' p = V p"
  shows "rep_k (upd_kid key c' ks) V' lo hi nxt n"
  using assms
proof (induction ks arbitrary: lo rule: kid_entries.induct)
  case (2 c k ks)
  show ?case
  proof (cases "key < k")
    case True
    have "rep_k ks V' (Some k) hi nxt n = rep_k ks V (Some k) hi nxt n" using 2(5,6) True by (intro rep_cong(2)) auto
    then show ?thesis using 2(2,3) True by simp
  next
    case False
    have "rep c V' lo (Some k) (Some (first_leaf_k ks)) n = rep c V lo (Some k) (Some (first_leaf_k ks)) n"
      using 2(5,6) False kid_pids [of key ks] by (intro rep_cong(1)) auto
    moreover have "rep_k (upd_kid key c' ks) V' (Some k) hi nxt n" using 2(2-6) False by (intro 2(1)) auto
    moreover have "first_leaf_k (upd_kid key c' ks) = first_leaf_k ks" using 2(4) False by (intro first_leaf_upd) simp
    ultimately show ?thesis using 2(2) False by simp
  qed
qed simp

lemma rep_split_kid:
  assumes "rep_k ks V lo hi nxt n" and "rep c1 V' (kid_lo key lo ks) (Some s) (Some (first_leaf c2)) n" and "rep c2 V' (Some s) (kid_hi key hi ks) (kid_nxt key nxt ks) n"
    and "over_lo (kid_lo key lo ks) s" and "below s (kid_hi key hi ks)"
    and "first_leaf c1 = first_leaf (get_kid key ks)" and "distinct (pids_k ks)"
    and "\<And>p. p \<in> set (pids_k ks) \<Longrightarrow> p \<notin> set (pids (get_kid key ks)) \<Longrightarrow> V' p = V p"
  shows "rep_k (split_kid key c1 s c2 ks) V' lo hi nxt n"
  using assms
proof (induction ks arbitrary: lo rule: kid_entries.induct)
  case (2 c k ks)
  show ?case
  proof (cases "key < k")
    case True
    have "rep_k ks V' (Some k) hi nxt n = rep_k ks V (Some k) hi nxt n" using 2(8,9) True by (intro rep_cong(2)) auto
    then show ?thesis using 2(2-6) True by (auto simp: below_def over_lo_def split: option.splits)
  next
    case False
    have "rep c V' lo (Some k) (Some (first_leaf_k ks)) n = rep c V lo (Some k) (Some (first_leaf_k ks)) n"
      using 2(8,9) False kid_pids [of key ks] by (intro rep_cong(1)) auto
    moreover have "rep_k (split_kid key c1 s c2 ks) V' (Some k) hi nxt n" using 2(2-9) False by (intro 2(1)) auto
    moreover have "first_leaf_k (split_kid key c1 s c2 ks) = first_leaf_k ks" using 2(7) False by (intro first_leaf_split) simp
    ultimately show ?thesis using 2(2) False by simp
  qed
qed auto

section \<open>The entries of a tree\<close>

lemma keys_sorted_append:
  "keys_sorted (xs @ ys) \<longleftrightarrow> keys_sorted xs \<and> keys_sorted ys \<and> (\<forall>x \<in> set xs. \<forall>y \<in> set ys. fst x < fst y)"
  by (auto simp: sorted_wrt_append)

lemma rep_entries:
  "rep t V lo hi nxt n \<Longrightarrow> keys_sorted (ents t) \<and> (\<forall>e \<in> set (ents t). from_lo lo (fst e) \<and> below (fst e) hi)"
  "rep_k ks V lo hi nxt n \<Longrightarrow> keys_sorted (ents_k ks) \<and> (\<forall>e \<in> set (ents_k ks). from_lo lo (fst e) \<and> below (fst e) hi)"
proof (induction t and ks arbitrary: lo hi nxt n and lo hi nxt n)
  case (Kid c k ks)
  have c: "keys_sorted (ents c)" "\<forall>e \<in> set (ents c). from_lo lo (fst e) \<and> fst e < k"
    using Kid.IH(1) [of lo "Some k"] Kid.prems by (auto simp: below_def)
  have ks: "keys_sorted (ents_k ks)" "\<forall>e \<in> set (ents_k ks). k \<le> fst e \<and> below (fst e) hi"
    using Kid.IH(2) [of "Some k"] Kid.prems by (auto simp: from_lo_def)
  have "\<forall>e \<in> set (ents_k ks). from_lo lo (fst e)" "\<forall>e \<in> set (ents c). below (fst e) hi"
    using Kid.prems c(2) ks(2) by (auto simp: from_lo_def below_def over_lo_def split: option.splits intro: less_trans order.trans)
  moreover have "\<forall>x \<in> set (ents c). \<forall>y \<in> set (ents_k ks). fst x < fst y" using c(2) ks(2) by (auto intro: less_le_trans)
  ultimately show ?case using c ks unfolding ents_k.simps keys_sorted_append by auto
next
  case (Nd p ks)
  then obtain m where "rep_k ks V lo hi nxt m" by auto
  from Nd.IH [OF this] show ?case by simp
qed auto

lemma om_insert_left: "\<forall>y \<in> set ys. k < fst y \<Longrightarrow> om_insert k v (xs @ ys) = om_insert k v xs @ ys"
  by (induction k v xs rule: om_insert.induct) (auto, cases ys, auto)

lemma om_insert_right: "\<forall>x \<in> set xs. fst x < k \<Longrightarrow> om_insert k v (xs @ ys) = xs @ om_insert k v ys"
  by (induction xs) (auto simp: less_not_sym less_imp_neq [symmetric])

lemma ents_upd_kid:
  assumes "rep_k ks V lo hi nxt n" and "ents c' = om_insert key v (ents (get_kid key ks))"
  shows "ents_k (upd_kid key c' ks) = om_insert key v (ents_k ks)"
  using assms
proof (induction ks arbitrary: lo rule: kid_entries.induct)
  case (2 c k ks)
  have c: "\<forall>e \<in> set (ents c). fst e < k" using 2(2) rep_entries(1) [of c V lo "Some k"] by (auto simp: below_def)
  have ks: "\<forall>e \<in> set (ents_k ks). k \<le> fst e" using 2(2) rep_entries(2) [of ks V "Some k"] by (auto simp: from_lo_def)
  show ?case
  proof (cases "key < k")
    case True
    have "om_insert key v (ents c @ ents_k ks) = om_insert key v (ents c) @ ents_k ks"
      using ks True by (intro om_insert_left) auto
    then show ?thesis using True 2(3) by simp
  next
    case False
    then have "om_insert key v (ents c @ ents_k ks) = ents c @ om_insert key v (ents_k ks)"
      using c by (intro om_insert_right) auto
    moreover have "ents_k (upd_kid key c' ks) = om_insert key v (ents_k ks)" using False 2(2,3) by (intro 2(1) [of "Some k"]) auto
    ultimately show ?thesis using False by simp
  qed
qed simp

lemma ents_split_kid: "ents c1 @ ents c2 = ents (get_kid key ks) \<Longrightarrow> ents_k (split_kid key c1 s c2 ks) = ents_k ks"
  by (induction ks rule: kid_entries.induct) auto

lemma get_split_kid: "get_kid key (split_kid key c1 s c2 ks) = (if key < s then c1 else c2)"
  by (induction ks rule: kid_entries.induct) auto

section \<open>Page ids\<close>

lemma pids_upd_kid:
  assumes "distinct (pids_k ks)" and "distinct (pids c')" and "set (pids c') \<subseteq> set (pids (get_kid key ks)) \<union> N" and "N \<inter> set (pids_k ks) = {}"
  shows "distinct (pids_k (upd_kid key c' ks)) \<and> set (pids_k (upd_kid key c' ks)) \<subseteq> set (pids_k ks) \<union> N"
  using assms
proof (induction ks rule: kid_entries.induct)
  case (2 c k ks)
  show ?case
  proof (cases "key < k")
    case True
    then show ?thesis using 2(2-5) by auto
  next
    case False
    then have "distinct (pids_k (upd_kid key c' ks)) \<and> set (pids_k (upd_kid key c' ks)) \<subseteq> set (pids_k ks) \<union> N" using 2 by auto
    then show ?thesis using False 2(2,5) by auto
  qed
qed auto

lemma pids_split_kid:
  assumes "distinct (pids_k ks)" and "distinct (pids c1 @ pids c2)" and "set (pids c1 @ pids c2) \<subseteq> set (pids (get_kid key ks)) \<union> N" and "N \<inter> set (pids_k ks) = {}"
  shows "distinct (pids_k (split_kid key c1 s c2 ks)) \<and> set (pids_k (split_kid key c1 s c2 ks)) \<subseteq> set (pids_k ks) \<union> N"
  using assms
proof (induction ks rule: kid_entries.induct)
  case (2 c k ks)
  show ?case
  proof (cases "key < k")
    case True
    then show ?thesis using 2(2-5) by auto
  next
    case False
    then have "distinct (pids_k (split_kid key c1 s c2 ks)) \<and> set (pids_k (split_kid key c1 s c2 ks)) \<subseteq> set (pids_k ks) \<union> N" using 2 by auto
    then show ?thesis using False 2(2,5) by auto
  qed
qed auto

text \<open>A page with a child has two of them, so the height is at most the number of bits of a page id.\<close>

lemma rep_kids_two: "rep t V lo hi nxt n \<Longrightarrow> 2 ^ n \<le> length (pids t)"
  "rep_k ks V lo hi nxt n \<Longrightarrow> 2 ^ n * Suc (length (kid_entries ks)) \<le> length (pids_k ks)"
proof (induction t and ks arbitrary: lo hi nxt n and lo hi nxt n)
  case (Nd p ks)
  then obtain m where m: "n = Suc m" "kid_entries ks \<noteq> []" "rep_k ks V lo hi nxt m" by auto
  have "2 ^ m * 2 \<le> (2 :: nat) ^ m * Suc (length (kid_entries ks))" using m(2) by (intro mult_left_mono) (cases "kid_entries ks"; simp)+
  also have "\<dots> \<le> length (pids_k ks)" using Nd.IH [OF m(3)] .
  finally show ?case using m(1) by simp
next
  case (Kid c k ks)
  then have "2 ^ n \<le> length (pids c)" "2 ^ n * Suc (length (kid_entries ks)) \<le> length (pids_k ks)" by auto
  then show ?case by simp
qed auto

lemma height_bound:
  assumes "rep t V lo hi nxt n" and "distinct (pids t)"
  shows "n \<le> 64"
proof -
  have "length (pids t) = card (set (pids t))" using assms(2) distinct_card by metis
  also have "\<dots> \<le> card (UNIV :: u64 set)" by (intro card_mono) auto
  finally have "(2 :: nat) ^ n \<le> 2 ^ 64" using rep_kids_two(1) [OF assms(1)] by (simp add: card_word)
  then show ?thesis by (rule power_le_imp_le_exp [rotated]) simp
qed

section \<open>Splitting a tree\<close>

lemma cut_kids_entries:
  assumes "i < length (kid_entries ks)" and "cut_kids i ks = (l, s, r)"
  shows "kid_entries l = take i (kid_entries ks)" and "kid_entries ks ! i = (s, encode_child_id (top_id (first_kid r)))"
    and "kid_entries r = drop (Suc i) (kid_entries ks)" and "top_id (first_kid l) = top_id (first_kid ks)"
    and "ents_k l @ ents_k r = ents_k ks" and "pids_k l @ pids_k r = pids_k ks" and "first_leaf_k l = first_leaf_k ks"
proof -
  have "kid_entries l = take i (kid_entries ks) \<and> kid_entries ks ! i = (s, encode_child_id (top_id (first_kid r)))
    \<and> kid_entries r = drop (Suc i) (kid_entries ks) \<and> top_id (first_kid l) = top_id (first_kid ks)
    \<and> ents_k l @ ents_k r = ents_k ks \<and> pids_k l @ pids_k r = pids_k ks \<and> first_leaf_k l = first_leaf_k ks"
    using assms
  proof (induction i ks arbitrary: l s r rule: cut_kids.induct)
    case (3 i c k ks)
    obtain l' where l: "cut_kids i ks = (l', s, r)" "l = Kid c k l'" using 3(3) by (auto split: prod.splits)
    show ?case using 3(1) [OF _ l(1)] 3(2) l(2) by simp
  qed auto
  then show "kid_entries l = take i (kid_entries ks)" "kid_entries ks ! i = (s, encode_child_id (top_id (first_kid r)))"
    "kid_entries r = drop (Suc i) (kid_entries ks)" "top_id (first_kid l) = top_id (first_kid ks)"
    "ents_k l @ ents_k r = ents_k ks" "pids_k l @ pids_k r = pids_k ks" "first_leaf_k l = first_leaf_k ks" by auto
qed

lemma cut_kids_rep:
  assumes "rep_k ks V lo hi nxt n" and "i < length (kid_entries ks)" and "cut_kids i ks = (l, s, r)"
  shows "rep_k l V lo (Some s) (Some (first_leaf_k r)) n" and "rep_k r V (Some s) hi nxt n" and "over_lo lo s" and "below s hi"
proof -
  have "rep_k l V lo (Some s) (Some (first_leaf_k r)) n \<and> rep_k r V (Some s) hi nxt n \<and> over_lo lo s \<and> below s hi"
    using assms
  proof (induction i ks arbitrary: l s r lo rule: cut_kids.induct)
    case (3 i c k ks)
    obtain l' where l: "cut_kids i ks = (l', s, r)" "l = Kid c k l'" using 3(4) by (auto split: prod.splits)
    have r: "rep_k l' V (Some k) (Some s) (Some (first_leaf_k r)) n" "rep_k r V (Some s) hi nxt n" "over_lo (Some k) s" "below s hi"
      using 3(1) [OF _ _ l(1), of "Some k"] 3(2,3) by auto
    have "first_leaf_k l' = first_leaf_k ks" using cut_kids_entries(7) [OF _ l(1)] 3(3) by simp
    then show ?case using 3(2) r l(2) by (auto simp: over_lo_def below_def split: option.splits)
  qed auto
  then show "rep_k l V lo (Some s) (Some (first_leaf_k r)) n" "rep_k r V (Some s) hi nxt n" "over_lo lo s" "below s hi" by auto
qed

end
