(* ===== verification/Bptree_Correct.thy ===== *)
theory Bptree_Correct
  imports Bptree_Rep
begin

text \<open>
  Lookup, insertion and scans of the B+-tree, for every provider that keeps the contract \<open>page_provider\<close>. \<open>does m v b v'\<close> says
  that the program \<open>m\<close>, run on any state that shows \<open>v\<close>, returns \<open>b\<close> in a state that shows \<open>v'\<close>; in particular it returns.

  \<open>tree_inv\<close> is the invariant: the root page is the root of a tree that the pages hold, no page is used twice, the ids to
  come are fresh, and the count is the number of entries. A new tree has it, and insertion keeps it and inserts into the
  ordered map of the entries; a lookup finds the entry of its key, and a scan hands the entries of its range to the visitor in
  ascending order. At the end these are stated for the in-memory provider.
\<close>

section \<open>What an operation sees and leaves\<close>

text \<open>What a tree operation sees of its state: the pages that are not reserved, the next page id, the root and the count.\<close>

record vis =
  v_pages :: "u64 \<rightharpoonup> bytes"
  v_next :: u64
  v_root :: u64
  v_len :: u64

text \<open>The leaf on the way to a key.\<close>

primrec leaf_for :: "bytes \<Rightarrow> bt \<Rightarrow> u64 \<times> entry list" and leaf_for_k :: "bytes \<Rightarrow> kids \<Rightarrow> u64 \<times> entry list" where
  "leaf_for key (Lf p es) = (p, es)"
| "leaf_for key (Nd p ks) = leaf_for_k key ks"
| "leaf_for_k key (Last c) = leaf_for key c"
| "leaf_for_k key (Kid c k ks) = (if key < k then leaf_for key c else leaf_for_k key ks)"

fun full :: "bt \<Rightarrow> bool" where
  "full (Lf p es) = (15 \<le> length es)"
| "full (Nd p ks) = (628 \<le> length (kid_entries ks))"

fun split_tree :: "u64 \<Rightarrow> bt \<Rightarrow> bt \<times> bytes \<times> bt" where
  "split_tree r (Lf p es) = (let m = length es div 2 in (Lf p (take m es), fst (es ! m), Lf r (drop m es)))"
| "split_tree r (Nd p ks) = (case cut_kids (length (kid_entries ks) div 2) ks of (l, s, k) \<Rightarrow> (Nd p l, s, Nd r k))"

text \<open>The two pages of a split, linked, hold the two halves of the tree, whatever else is in the store.\<close>

definition halves :: "(u64 \<rightharpoonup> bytes) \<Rightarrow> bytes option \<Rightarrow> bytes option \<Rightarrow> u64 option \<Rightarrow> nat \<Rightarrow> bt \<Rightarrow> bytes \<Rightarrow> bt \<Rightarrow> bool" where
  "halves V lo hi nxt n c1 s c2 \<longleftrightarrow> rep c1 V lo (Some s) (Some (first_leaf c2)) n \<and> rep c2 V (Some s) hi nxt n \<and> over_lo lo s \<and> below s hi
     \<and> length s = KEY_SIZE \<and> \<not> full c1 \<and> \<not> full c2"

text \<open>A tree grows when it keeps its root page and its first leaf, takes only fresh page ids and leaves other pages alone.\<close>

definition grown :: "vis \<Rightarrow> bt \<Rightarrow> vis \<Rightarrow> bt \<Rightarrow> bool" where
  "grown v t v' t' \<longleftrightarrow> top_id t' = top_id t \<and> first_leaf t' = first_leaf t \<and> distinct (pids t')
    \<and> (\<forall>q \<in> set (pids t'). q \<in> set (pids t) \<or> (unat (v_next v) \<le> unat q \<and> unat q < unat (v_next v')))
    \<and> (\<forall>q. q \<notin> set (pids t) \<and> unat q < unat (v_next v) \<longrightarrow> v_pages v' q = v_pages v q)
    \<and> v_root v' = v_root v \<and> unat (v_next v) \<le> unat (v_next v')"

definition safe :: "u64 set \<Rightarrow> vis \<Rightarrow> bt \<Rightarrow> bool" where
  "safe R v t \<longleftrightarrow> distinct (pids t) \<and> (\<forall>q \<in> set (pids t). unat q < unat (v_next v) \<and> q \<notin> R) \<and> v_next v \<noteq> 0"

text \<open>The next \<open>k\<close> page ids exist and are not reserved.\<close>

definition room :: "u64 set \<Rightarrow> vis \<Rightarrow> nat \<Rightarrow> bool" where
  "room R v k \<longleftrightarrow> unat (v_next v) + k < 2 ^ 64 \<and> (\<forall>q \<in> R. \<not> (unat (v_next v) \<le> unat q \<and> unat q < unat (v_next v) + k))"

definition tree_inv :: "u64 set \<Rightarrow> vis \<Rightarrow> bt \<Rightarrow> bool" where
  "tree_inv R v t \<longleftrightarrow> (\<exists>n. rep t (v_pages v) None None None n) \<and> safe R v t \<and> v_root v = top_id t \<and> v_len v = word_of_nat (length (ents t))"

primrec leaves_from :: "bytes \<Rightarrow> bt \<Rightarrow> (u64 \<times> entry list) list" and leaves_from_k :: "bytes \<Rightarrow> kids \<Rightarrow> (u64 \<times> entry list) list" where
  "leaves_from key (Lf p es) = [(p, es)]"
| "leaves_from key (Nd p ks) = leaves_from_k key ks"
| "leaves_from_k key (Last c) = leaves_from key c"
| "leaves_from_k key (Kid c k ks) = (if key < k then leaves_from key c @ leaves_k ks else leaves_from_k key ks)"

text \<open>Leaves linked one to the next, none of which sends a scan for \<open>key\<close> to the right.\<close>

fun chain :: "(u64 \<rightharpoonup> bytes) \<Rightarrow> bytes \<Rightarrow> u64 option \<Rightarrow> (u64 \<times> entry list) list \<Rightarrow> bool" where
  "chain V key nxt [] \<longleftrightarrow> True"
| "chain V key nxt ((p, es) # ls) \<longleftrightarrow> (\<exists>hi. leaf_page V p hi (case ls of [] \<Rightarrow> nxt | (q, _) # _ \<Rightarrow> Some q) es \<and> below key hi \<and> keys_sorted es) \<and> chain V key nxt ls"

text \<open>What a scan hands to its visitor, on the list of rows it meets.\<close>

fun visit_list :: "bytes \<Rightarrow> ('v, 'a) visitor \<Rightarrow> (bytes \<times> 'v) list \<Rightarrow> 'a \<Rightarrow> bool \<times> 'a" where
  "visit_list end_key f [] acc = (False, acc)"
| "visit_list end_key f ((k, v) # rows) acc =
    (if k > end_key then (True, acc) else let (go, acc') = f k v acc in if \<not> go then (True, acc') else visit_list end_key f rows acc')"

definition decodes :: "(bytes \<Rightarrow> nat \<Rightarrow> 'v option res) \<Rightarrow> (bytes \<Rightarrow> 'v) \<Rightarrow> bool" where
  "decodes row dec \<longleftrightarrow> (\<forall>page h es i. bt_page page h es \<longrightarrow> bh_page_type h = PAGE_TYPE_LEAF \<longrightarrow> i < length es \<longrightarrow> row page i = Ok (Some (dec (snd (es ! i)))))"

section \<open>Running programs\<close>

lemma leaf_for_get_kid: "leaf_for_k key ks = leaf_for key (get_kid key ks)"
  by (induction ks rule: kid_entries.induct) auto

lemma map_of_bounds: "\<forall>e \<in> set es. fst e \<noteq> key \<Longrightarrow> map_of es key = None"
  by (auto simp: map_of_eq_None_iff)

lemma leaf_for_rep:
  "rep t V lo hi nxt n \<Longrightarrow> below key hi \<Longrightarrow> \<exists>hi' nxt'. leaf_page V (fst (leaf_for key t)) hi' nxt' (snd (leaf_for key t))
     \<and> keys_sorted (snd (leaf_for key t)) \<and> below key hi' \<and> map_of (snd (leaf_for key t)) key = map_of (ents t) key"
  "rep_k ks V lo hi nxt n \<Longrightarrow> below key hi \<Longrightarrow> \<exists>hi' nxt'. leaf_page V (fst (leaf_for_k key ks)) hi' nxt' (snd (leaf_for_k key ks))
     \<and> keys_sorted (snd (leaf_for_k key ks)) \<and> below key hi' \<and> map_of (snd (leaf_for_k key ks)) key = map_of (ents_k ks) key"
proof (induction t and ks arbitrary: lo hi nxt n and lo hi nxt n)
  case (Nd p ks)
  then obtain m where "rep_k ks V lo hi nxt m" by auto
  from Nd.IH [OF this Nd.prems(2)] show ?case by simp
next
  case (Kid c k ks)
  have c: "\<forall>e \<in> set (ents c). fst e < k" using Kid.prems rep_entries(1) [of c V lo "Some k"] by (auto simp: below_def)
  have ks: "\<forall>e \<in> set (ents_k ks). k \<le> fst e" using Kid.prems rep_entries(2) [of ks V "Some k"] by (auto simp: from_lo_def)
  show ?case
  proof (cases "key < k")
    case True
    then have "map_of (ents_k ks) key = None" using ks by (intro map_of_bounds) auto
    then have "map_of (ents_k (Kid c k ks)) key = map_of (ents c) key" by (simp add: map_add_def split: option.splits)
    then show ?thesis using Kid.IH(1) [of lo "Some k" "Some (first_leaf_k ks)" n] Kid.prems(1) True by (auto simp: below_def)
  next
    case False
    then have "map_of (ents c) key = None" using c by (intro map_of_bounds) auto
    then have "map_of (ents_k (Kid c k ks)) key = map_of (ents_k ks) key" by (simp add: map_add_def split: option.splits)
    then show ?thesis using Kid.IH(2) [of "Some k" hi nxt n] Kid.prems False by auto
  qed
qed (auto dest: hk_ok_below)

context page_reader
begin

definition sees :: "'s tree \<Rightarrow> vis \<Rightarrow> bool" where
  "sees t v \<longleftrightarrow> ok (bt_pages t) \<and> v_pages v = view (bt_pages t) |` (- reserved) \<and> v_next v = next_id (bt_pages t)
    \<and> v_root v = pv_root P (bt_pages t) \<and> v_len v = bt_len t"

definition does :: "('s tree, 'b) prog \<Rightarrow> vis \<Rightarrow> 'b \<Rightarrow> vis \<Rightarrow> bool" where
  "does m v b v' \<longleftrightarrow> (\<forall>t. sees t v \<longrightarrow> (\<exists>t'. m t = Some (Ok b, t') \<and> sees t' v'))"

lemma does_lift: "r = Ok b \<Longrightarrow> does (lift r) v b v"
  by (auto simp: does_def lift_def)

lemma does_then: "does m v a v1 \<Longrightarrow> does (f a) v1 b v2 \<Longrightarrow> does (andThen m f) v b v2"
  unfolding does_def by (metis andThen_Ok)

lemma does_read: "v_pages v q = Some p \<Longrightarrow> does (read_page P q) v (Some p) v"
  unfolding does_def
proof (intro allI impI)
  fix t assume p: "v_pages v q = Some p" and t: "sees t v"
  then have "view (bt_pages t) q = Some p" by (auto simp: sees_def restrict_map_def split: if_splits)
  then show "\<exists>t'. read_page P q t = Some (Ok (Some p), t') \<and> sees t' v"
    using read_law [of "bt_pages t" q] t by (auto simp: sees_def read_page_def)
qed

lemma does_require: "v_pages v q = Some p \<Longrightarrow> does (require_page P q) v p v"
  unfolding require_page_def by (intro does_then [OF does_read] does_lift) (auto simp: ok_or_def)

lemma does_root: "does (root_page_id P) v (v_root v) v"
  by (auto simp: does_def sees_def root_page_id_def)

lemma does_add_len: "does add_len v () (v\<lparr>v_len := v_len v + 1\<rparr>)"
  by (auto simp: does_def sees_def add_len_def)

lemma does_loop_stop: "does (body c) v None v' \<Longrightarrow> does (run_loop body c) v () v'"
  unfolding does_def by (metis run_loop_stop)

lemma does_loop_step: "does (body c) v (Some c') v1 \<Longrightarrow> does (run_loop body c') v1 () v2 \<Longrightarrow> does (run_loop body c) v () v2"
  unfolding does_def by (metis run_loop_step)

end

context page_provider
begin

lemma does_write: "q \<notin> reserved \<Longrightarrow> does (write_page P q p) v () (v\<lparr>v_pages := (v_pages v)(q \<mapsto> p)\<rparr>)"
  using write_law by (auto simp: does_def sees_def write_page_def restrict_map_def fun_eq_iff)

lemma does_alloc: "does (alloc_page_id P) v (v_next v) (v\<lparr>v_next := v_next v + 1\<rparr>)"
  unfolding does_def
proof (intro allI impI)
  fix t assume t: "sees t v"
  then show "\<exists>t'. alloc_page_id P t = Some (Ok (v_next v), t') \<and> sees t' (v\<lparr>v_next := v_next v + 1\<rparr>)"
    using alloc_law [of "bt_pages t"] by (auto simp: sees_def alloc_page_id_def)
qed

lemma does_set_root: "does (set_root_page_id P q) v () (v\<lparr>v_root := q\<rparr>)"
  using set_root_law by (auto simp: does_def sees_def set_root_page_id_def restrict_map_def fun_eq_iff)

end

section \<open>Lookup\<close>

lemma leaf_pageE:
  assumes "leaf_page V p hi nxt es"
  obtains page h where "V p = Some page" and "bt_page page h es" and "bh_page_type h = PAGE_TYPE_LEAF" and "bh_next_leaf h = nxt" and "bh_high_key h = hi"
    and "page_header page = Ok h"
  using assms by (auto simp: leaf_page_def bt_page_def)

lemma node_pageE:
  assumes "node_page V p ks"
  obtains page h where "V p = Some page" and "bt_page page h (kid_entries ks)" and "bh_page_type h = PAGE_TYPE_INTERNAL" and "bh_left_child h = top_id (first_kid ks)"
    and "page_header page = Ok h"
  using assms by (auto simp: node_page_def bt_page_def)

lemma right_link_None: "below key hi \<Longrightarrow> bh_high_key h = hi \<Longrightarrow> right_link h key = None"
  by (auto simp: right_link_def below_def split: option.splits)

context page_reader
begin

lemma child_ok:
  assumes "bt_page page h (kid_entries ks)" and "bh_page_type h = PAGE_TYPE_INTERNAL" and "bh_left_child h = top_id (first_kid ks)"
    and "rep_k ks V lo hi nxt n"
  shows "child_insert_pos_for_key page h key = Ok (child_pos key (kid_entries ks))"
    and "child_id_at_pos page h (child_pos key (kid_entries ks)) = Ok (top_id (get_kid key ks))"
  using child_insert_pos_ok [OF assms(1)] child_id_at_pos_ok [OF assms(1,2) child_pos_le] get_kid_child kids_page(1) [OF assms(4)] assms(3) by auto

lemma descend_ok: "rep t (v_pages v) lo hi nxt n \<Longrightarrow> n < m \<Longrightarrow> does (descend P key m (top_id t)) v (Return (fst (leaf_for key t))) v"
proof (induction n arbitrary: t lo hi nxt m)
  case 0
  obtain m' where m: "m = Suc m'" using 0(2) by (cases m) auto
  obtain p es where t: "t = Lf p es" and "\<exists>hk. leaf_page (v_pages v) p hk nxt es" using 0(1) by (cases t) auto
  then obtain page h where "v_pages v p = Some page" "page_header page = Ok h" "bh_page_type h = PAGE_TYPE_LEAF" by (auto elim: leaf_pageE)
  then show ?case unfolding t m by (auto intro!: does_then [OF does_read] does_lift)
next
  case (Suc n)
  obtain m' where m: "m = Suc m'" "n < m'" using Suc(3) by (cases m) auto
  obtain p ks where t: "t = Nd p ks" and n: "node_page (v_pages v) p ks" and k: "rep_k ks (v_pages v) lo hi nxt n" using Suc(2) by (cases t) auto
  from n obtain page h where p: "v_pages v p = Some page" "bt_page page h (kid_entries ks)" "bh_page_type h = PAGE_TYPE_INTERNAL"
    "bh_left_child h = top_id (first_kid ks)" "page_header page = Ok h" by (rule node_pageE)
  have "does (descend P key m' (top_id (get_kid key ks))) v (Return (fst (leaf_for key (get_kid key ks)))) v"
    by (rule Suc.IH [OF rep_kid [OF k] m(2)])
  then show ?case unfolding t m(1) using p child_ok [OF p(2-4) k]
    by (auto intro!: does_then [OF does_read] simp: leaf_for_get_kid)
qed

lemma find_leaf_ok:
  assumes "rep t (v_pages v) lo hi nxt n" and "distinct (pids t)" and "v_root v = top_id t"
  shows "does (find_leaf_for_read P key) v (Some (fst (leaf_for key t))) v"
proof -
  have "does (descend P key 8192 (v_root v)) v (Return (fst (leaf_for key t))) v"
    using descend_ok [OF assms(1), of 8192 key] height_bound [OF assms(1,2)] assms(3) by simp
  then show ?thesis unfolding find_leaf_for_read_def numeral_eq_Suc find_leaf_tries.simps
    by (auto intro!: does_then [OF does_root] does_then does_lift simp del: descend.simps)
qed

lemma get_ok:
  assumes "rep t (v_pages v) lo None nxt n" and "distinct (pids t)" and "v_root v = top_id t"
  shows "does (bt_get P key) v (map_option leaf_of (map_of (ents t) key)) v"
proof -
  let ?p = "fst (leaf_for key t)" and ?es = "snd (leaf_for key t)"
  obtain hi' nxt' where l: "leaf_page (v_pages v) ?p hi' nxt' ?es" "keys_sorted ?es" "below key hi'" "map_of ?es key = map_of (ents t) key"
    using leaf_for_rep(1) [OF assms(1), of key] by (auto simp: below_def)
  obtain page h where p: "v_pages v ?p = Some page" "bt_page page h ?es" "bh_page_type h = PAGE_TYPE_LEAF" "bh_high_key h = hi'" "page_header page = Ok h"
    using l(1) by (rule leaf_pageE)
  have "does (get_hops P key (Suc m) ?p) v (Return (map_option leaf_of (map_of (ents t) key))) v" for m
    using p(1,3,5) right_link_None [OF l(3) p(4)] find_in_leaf_ok [OF p(2) l(2) p(3), of key] l(4)
    by (auto intro!: does_then [OF does_read] does_lift)
  from this [of 255] have "does (get_hops P key 256 ?p) v (Return (map_option leaf_of (map_of (ents t) key))) v" by (simp del: get_hops.simps)
  then have "does (get_tries P key (Suc m)) v (map_option leaf_of (map_of (ents t) key)) v" for m
    using find_leaf_ok [OF assms, of key] by (auto intro!: does_then does_lift simp del: get_hops.simps)
  from this [of 7] show ?thesis by (simp add: bt_get_def del: get_tries.simps)
qed

end

section \<open>Inserting into a leaf\<close>

lemma om_insert_new: "keys_sorted es \<Longrightarrow> key \<notin> fst ` set es \<Longrightarrow> om_insert key v es = insert_at (key_pos key es) (key, v) es"
  by (induction key v es rule: om_insert.induct) (auto simp: key_pos_def insert_at_def)

lemma om_insert_old:
  "keys_sorted es \<Longrightarrow> key \<in> fst ` set es \<Longrightarrow> key_pos key es < length es \<and> fst (es ! key_pos key es) = key \<and> om_insert key v es = es[key_pos key es := (key, v)]"
proof (induction key v es rule: om_insert.induct)
  case (2 k v k' v' m)
  show ?case
  proof (cases "k' < k")
    case True
    then have "k \<in> fst ` set m" using 2(3) by auto
    then show ?thesis using 2(1) 2(2) True by (auto simp: key_pos_def)
  next
    case False
    have "k = k'" using 2(2,3) False by auto
    then show ?thesis by (simp add: key_pos_def)
  qed
qed simp

lemma leaf_full: "bt_page page h es \<Longrightarrow> bh_page_type h = PAGE_TYPE_LEAF \<Longrightarrow> page_is_full_for_insert h \<longleftrightarrow> 15 \<le> length es"
  by (auto simp: page_is_full_for_insert_def page_has_room_for_one_more_def bt_page_count entry_size_def entry_value_size_def)

lemma node_full: "bt_page page h es \<Longrightarrow> bh_page_type h = PAGE_TYPE_INTERNAL \<Longrightarrow> page_is_full_for_insert h \<longleftrightarrow> 628 \<le> length es"
  by (auto simp: page_is_full_for_insert_def page_has_room_for_one_more_def bt_page_count entry_size_def entry_value_size_def)

context page_provider
begin

lemma insert_leaf_ok:
  assumes b: "bt_page page h es" and t: "bh_page_type h = PAGE_TYPE_LEAF" and s: "keys_sorted es" and room: "length es < 15"
    and k: "length key = KEY_SIZE" and e: "length encoded = LEAF_VALUE_SIZE" and p: "p \<notin> reserved"
  shows "\<exists>page'. does (insert_into_leaf P p page h key encoded) v ()
      (v\<lparr>v_pages := (v_pages v)(p \<mapsto> page'), v_len := v_len v + (if key \<in> fst ` set es then 0 else 1)\<rparr>)
    \<and> bt_page page' (h\<lparr>bh_key_count := word_of_nat (length (om_insert key encoded es))\<rparr>) (om_insert key encoded es)"
proof (cases "key \<in> fst ` set es")
  case True
  let ?i = "key_pos key es"
  note o = om_insert_old [OF s True, of encoded]
  have v: "length encoded = entry_value_size (bh_page_type h)" using e t by (simp add: entry_value_size_def)
  obtain page' where q: "copy_at page (48 + length es * 2 + ?i * entry_size (bh_page_type h) + 16) encoded = Ok page'"
    "bt_page page' h (es[?i := (fst (es ! ?i), encoded)])"
    using update_value_ok [OF b _ v] o by blast
  have h: "h\<lparr>bh_key_count := word_of_nat (length (om_insert key encoded es))\<rparr> = h" using b o by (simp add: bt_page_def)
  have "v\<lparr>v_pages := (v_pages v)(p \<mapsto> page'), v_len := v_len v + 0\<rparr> = v\<lparr>v_pages := (v_pages v)(p \<mapsto> page')\<rparr>" by simp
  then have "does (insert_into_leaf P p page h key encoded) v () (v\<lparr>v_pages := (v_pages v)(p \<mapsto> page'), v_len := v_len v + 0\<rparr>)"
    unfolding insert_into_leaf_def
    using find_key_pos_ok [OF b s, of key] True o entry_offset_at_ok [OF b, of ?i] q(1) e does_write [OF p, of page' v]
    by (auto simp: Let_def ok_or_def copy_exact_def)
  then show ?thesis using q(2) o True h by auto
next
  case False
  let ?i = "key_pos key es"
  note o = om_insert_new [OF s False, of encoded]
  have v: "length encoded = entry_value_size (bh_page_type h)" using e t by (simp add: entry_value_size_def)
  have r: "page_has_room_for_one_more h" using leaf_full [OF b t] room by (simp add: page_is_full_for_insert_def)
  obtain page' where q: "rebuild_page_with_insert page h ?i key encoded = Ok page'"
    "bt_page page' (h\<lparr>bh_key_count := word_of_nat (Suc (length es))\<rparr>) (insert_at ?i (key, encoded) es)"
    using rebuild_insert_ok [OF b _ r k v] key_pos_le by blast
  have "does (insert_into_leaf P p page h key encoded) v () (v\<lparr>v_pages := (v_pages v)(p \<mapsto> page'), v_len := v_len v + 1\<rparr>)"
    unfolding insert_into_leaf_def
    using find_key_pos_ok [OF b s, of key] False q(1) does_add_len [of "v\<lparr>v_pages := (v_pages v)(p \<mapsto> page')\<rparr>"]
    by (auto intro: does_then [OF does_write [OF p]])
  then show ?thesis using q(2) o False by (auto simp del: of_nat_Suc)
qed

end

section \<open>Splitting a full page\<close>

lemma split_tree_shape:
  assumes "split_tree r c = (c1, s, c2)" and "full c" and "distinct (pids c)" and "r \<notin> set (pids c)"
  shows "top_id c1 = top_id c" and "top_id c2 = r" and "ents c1 @ ents c2 = ents c" and "first_leaf c1 = first_leaf c"
    and "distinct (pids c1 @ pids c2)" and "set (pids c1 @ pids c2) = insert r (set (pids c))"
proof -
  have "top_id c1 = top_id c \<and> top_id c2 = r \<and> ents c1 @ ents c2 = ents c \<and> first_leaf c1 = first_leaf c \<and> distinct (pids c1 @ pids c2)
    \<and> set (pids c1 @ pids c2) = insert r (set (pids c))"
  proof (cases c)
    case (Lf p es)
    then show ?thesis using assms by (auto simp: Let_def)
  next
    case (Nd p ks)
    obtain l k where cut: "cut_kids (length (kid_entries ks) div 2) ks = (l, s, k)" "c1 = Nd p l" "c2 = Nd r k"
      using assms(1) Nd by (auto split: prod.splits)
    have "length (kid_entries ks) div 2 < length (kid_entries ks)" using assms(2) Nd by simp
    note e = cut_kids_entries [OF this cut(1)]
    have "distinct (p # pids_k l @ pids_k k)" "r \<notin> set (p # pids_k l @ pids_k k)" using assms(3,4) unfolding Nd pids.simps e(6) .
    moreover have "set (pids_k ks) = set (pids_k l) \<union> set (pids_k k)" unfolding e(6) [symmetric] by simp
    ultimately show ?thesis using e(5,7) cut(2,3) Nd by auto
  qed
  then show "top_id c1 = top_id c" "top_id c2 = r" "ents c1 @ ents c2 = ents c" "first_leaf c1 = first_leaf c"
    "distinct (pids c1 @ pids c2)" "set (pids c1 @ pids c2) = insert r (set (pids c))" by auto
qed

lemma split_leaf_halves:
  assumes c: "rep (Lf p es) V lo hi nxt n" and full: "full (Lf p es)" and r: "r \<noteq> 0" "r \<noteq> p" and page: "V p = Some page" "page_header page = Ok h"
    and sp: "split_tree r (Lf p es) = (c1, s, c2)"
  shows "\<exists>left right left' right'. collect_entries page = Ok es \<and> split_page page h es = Ok (s, left, right)
    \<and> link_halves page h p r left right = Ok (left', right')
    \<and> (\<forall>V'. V' p = Some left' \<longrightarrow> V' r = Some right' \<longrightarrow> halves V' lo hi nxt n c1 s c2)"
proof -
  let ?m = "length es div 2"
  obtain h' hk where b: "bt_page page h' es" "bh_page_type h' = PAGE_TYPE_LEAF" "bh_next_leaf h' = nxt" "bh_high_key h' = hk" and hk: "hk_ok hk hi"
    using c page(1) by (auto simp: leaf_page_def)
  have h: "h' = h" using b(1) page(2) by (simp add: bt_page_def)
  note b = b [unfolded h]
  have st: "keys_sorted es" "\<forall>e \<in> set es. from_lo lo (fst e) \<and> below (fst e) hi" "n = 0" "p \<noteq> 0" using c by auto
  have n: "15 \<le> length es" using full by simp
  have le: "length es \<le> 15" using b(1,2) by (simp add: bt_page_def entries_fit_def entry_size_def entry_value_size_def)
  have m: "0 < ?m" "?m < length es" using n by auto
  have s: "s = fst (es ! ?m)" "c1 = Lf p (take ?m es)" "c2 = Lf r (drop ?m es)" using sp by (auto simp: Let_def)
  obtain left right where sl: "split_leaf page es = Ok (s, left, right)" "bt_page left (h\<lparr>bh_high_key := Some s, bh_key_count := word_of_nat ?m\<rparr>) (take ?m es)"
    "bt_page right (h\<lparr>bh_key_count := word_of_nat (length es - ?m)\<rparr>) (drop ?m es)"
    using split_leaf_ok [OF b(1,2)] n s(1) by auto
  let ?lh = "h\<lparr>bh_high_key := Some s, bh_key_count := word_of_nat ?m, bh_next_leaf := Some r\<rparr>"
  let ?rh = "h\<lparr>bh_key_count := word_of_nat (length es - ?m), bh_prev_leaf := Some p\<rparr>"
  have ok: "header_ok h" "header_ok (h\<lparr>bh_high_key := Some s, bh_key_count := word_of_nat ?m\<rparr>)" using b(1) sl(2) by (auto simp: bt_page_def)
  have lh: "header_ok (?lh\<lparr>bh_prev_leaf := bh_prev_leaf h\<rparr>)" and rh: "header_ok (?rh\<lparr>bh_next_leaf := bh_next_leaf h\<rparr>)"
    using ok r(1) st(4) by (auto simp: header_ok_def)
  obtain left' where l': "bt_write_header left (?lh\<lparr>bh_prev_leaf := bh_prev_leaf h\<rparr>) = Ok left'" "bt_page left' (?lh\<lparr>bh_prev_leaf := bh_prev_leaf h\<rparr>) (take ?m es)"
    using rewrite_header_ok [OF sl(2) lh] by auto
  obtain right' where r': "bt_write_header right (?rh\<lparr>bh_next_leaf := bh_next_leaf h\<rparr>) = Ok right'" "bt_page right' (?rh\<lparr>bh_next_leaf := bh_next_leaf h\<rparr>) (drop ?m es)"
    using rewrite_header_ok [OF sl(3) rh] by auto
  have "link_halves page h p r left right = Ok (left', right')"
    unfolding link_halves_def using b(2) page(2) bt_page_header [OF sl(2)] bt_page_header [OF sl(3)] l'(1) r'(1) by simp
  moreover have "split_page page h es = Ok (s, left, right)" using sl(1) b(2) by (simp add: split_page_def)
  moreover have "halves V' lo hi nxt n c1 s c2" if V: "V' p = Some left'" "V' r = Some right'" for V'
  proof -
    have lp: "leaf_page V' p (Some s) (Some r) (take ?m es)" unfolding leaf_page_def using V(1) l'(2) b(2) by force
    then have "\<exists>hk. hk_ok hk (Some s) \<and> leaf_page V' p hk (Some r) (take ?m es)" using hk_ok_refl by blast
    moreover have "leaf_page V' r hk nxt (drop ?m es)" unfolding leaf_page_def using V(2) r'(2) b by force
    moreover have "keys_sorted (take ?m es)" "keys_sorted (drop ?m es)" using st(1) by (simp_all add: sorted_wrt_take sorted_wrt_drop take_map [symmetric] drop_map [symmetric])
    moreover have "below (fst e) (Some s)" if "e \<in> set (take ?m es)" for e
      using that keys_mono [OF st(1) _ m(2)] s(1) by (auto simp: in_set_conv_nth below_def)
    moreover have "from_lo (Some s) (fst e)" if "e \<in> set (drop ?m es)" for e
      using that keys_mono_le [OF st(1), of ?m] s(1) by (auto simp: in_set_conv_nth from_lo_def)
    moreover have "over_lo lo s" using st(2) keys_mono [OF st(1) m] nth_mem [of 0 es] m(2) s(1)
      by (fastforce simp: over_lo_def from_lo_def split: option.splits)
    moreover have "below s hi" using st(2) s(1) m(2) by simp
    moreover have "length s = 16" using entries_fit_nth m(2) b(1) s(1) by (auto simp: bt_page_def)
    ultimately show ?thesis using st(2-4) r(1) s le n hk
      by (auto simp: halves_def dest: in_set_takeD in_set_dropD)
  qed
  ultimately show ?thesis using collect_entries_ok [OF b(1)] by blast
qed

lemma split_node_halves:
  assumes c: "rep (Nd p ks) V lo hi nxt n" and full: "full (Nd p ks)" and r: "r \<notin> set (pids (Nd p ks))" and dist: "distinct (pids (Nd p ks))"
    and page: "V p = Some page" "page_header page = Ok h" and sp: "split_tree r (Nd p ks) = (c1, s, c2)"
  shows "\<exists>left right. collect_entries page = Ok (kid_entries ks) \<and> split_page page h (kid_entries ks) = Ok (s, left, right)
    \<and> link_halves page h p r left right = Ok (left, right)
    \<and> (\<forall>V'. V' p = Some left \<longrightarrow> V' r = Some right \<longrightarrow> (\<forall>q \<in> set (pids_k ks). V' q = V q) \<longrightarrow> halves V' lo hi nxt n c1 s c2)"
proof -
  let ?es = "kid_entries ks" and ?m = "length (kid_entries ks) div 2"
  obtain m where n: "n = Suc m" "node_page V p ks" "rep_k ks V lo hi nxt m" using c by auto
  obtain h' where b: "bt_page page h' ?es" "bh_page_type h' = PAGE_TYPE_INTERNAL" "bh_left_child h' = top_id (first_kid ks)"
    using n(2) page(1) by (auto simp: node_page_def)
  have h: "h' = h" using b(1) page(2) by (simp add: bt_page_def)
  note b = b [unfolded h]
  have f: "628 \<le> length ?es" using full by simp
  have le: "length ?es \<le> 628" using b(1,2) by (simp add: bt_page_def entries_fit_def entry_size_def entry_value_size_def)
  have lt: "?m < length ?es" using f by simp
  obtain l k where cut: "cut_kids ?m ks = (l, s, k)" "c1 = Nd p l" "c2 = Nd r k" using sp by (auto split: prod.splits)
  note e = cut_kids_entries [OF lt cut(1)] and cr = cut_kids_rep [OF n(3) lt cut(1)]
  obtain left right where sl: "split_internal page ?es = Ok (s, left, right)" "bt_page left (h\<lparr>bh_high_key := Some s, bh_key_count := word_of_nat ?m\<rparr>) (take ?m ?es)"
    "bt_page right (h\<lparr>bh_left_child := top_id (first_kid k), bh_key_count := word_of_nat (length ?es - Suc ?m)\<rparr>) (drop (Suc ?m) ?es)"
    using split_internal_ok [OF b(1,2)] f e(2) by auto
  have "split_page page h ?es = Ok (s, left, right)" "link_halves page h p r left right = Ok (left, right)"
    using sl(1) b(2) by (simp_all add: split_page_def link_halves_def)
  moreover have "halves V' lo hi nxt n c1 s c2" if V: "V' p = Some left" "V' r = Some right" "\<forall>q \<in> set (pids_k ks). V' q = V q" for V'
  proof -
    have sub: "set (pids_k l) \<subseteq> set (pids_k ks)" "set (pids_k k) \<subseteq> set (pids_k ks)" unfolding e(6) [symmetric] by auto
    have "rep_k l V' lo (Some s) (Some (first_leaf_k k)) m" "rep_k k V' (Some s) hi nxt m"
      using cr(1,2) rep_cong(2) [of l V' V] rep_cong(2) [of k V' V] V(3) sub by (metis subsetD)+
    moreover have "node_page V' p l" unfolding node_page_def using V(1) sl(2) b(2,3) e(1,4) by force
    moreover have "node_page V' r k" unfolding node_page_def using V(2) sl(3) b(2) e(3) by force
    moreover have "length s = 16" using entries_fit_nth [OF _ lt] b(1) e(2) by (auto simp: bt_page_def)
    ultimately show ?thesis using cr(3,4) n(1) f le e(1,3) cut(2,3) by (auto simp: halves_def)
  qed
  ultimately show ?thesis using collect_entries_ok [OF b(1)] by blast
qed

text \<open>Both kinds of page at once.\<close>

lemma split_halves:
  assumes c: "rep c V lo hi nxt n" and full: "full c" and r: "r \<noteq> 0" "r \<notin> set (pids c)" and dist: "distinct (pids c)"
    and page: "V (top_id c) = Some page" "page_header page = Ok h" and sp: "split_tree r c = (c1, s, c2)"
  shows "\<exists>es left right left' right'. collect_entries page = Ok es \<and> split_page page h es = Ok (s, left, right)
    \<and> link_halves page h (top_id c) r left right = Ok (left', right')
    \<and> (\<forall>V'. V' (top_id c) = Some left' \<longrightarrow> V' r = Some right' \<longrightarrow> (\<forall>q \<in> set (pids c). q \<noteq> top_id c \<longrightarrow> V' q = V q) \<longrightarrow> halves V' lo hi nxt n c1 s c2)"
proof (cases c)
  case (Lf p es)
  have "r \<noteq> p" using r(2) Lf by simp
  from split_leaf_halves [OF _ _ r(1) this _ page(2), of es V lo hi nxt n c1 s c2] c full page(1) sp Lf
  obtain left right left' right' where "collect_entries page = Ok es" "split_page page h es = Ok (s, left, right)"
    "link_halves page h p r left right = Ok (left', right')" "\<forall>V'. V' p = Some left' \<longrightarrow> V' r = Some right' \<longrightarrow> halves V' lo hi nxt n c1 s c2" by auto
  then show ?thesis unfolding Lf top_id.simps by blast
next
  case (Nd p ks)
  from split_node_halves [of p ks V lo hi nxt n r page h c1 s c2] c full r(2) dist page sp Nd
  obtain left right where f: "collect_entries page = Ok (kid_entries ks)" "split_page page h (kid_entries ks) = Ok (s, left, right)"
    "link_halves page h p r left right = Ok (left, right)"
    "\<forall>V'. V' p = Some left \<longrightarrow> V' r = Some right \<longrightarrow> (\<forall>q \<in> set (pids_k ks). V' q = V q) \<longrightarrow> halves V' lo hi nxt n c1 s c2" by auto
  have "\<forall>q \<in> set (pids_k ks). q \<noteq> p" using dist Nd by auto
  then have "\<forall>V'. V' p = Some left \<longrightarrow> V' r = Some right \<longrightarrow> (\<forall>q \<in> set (p # pids_k ks). q \<noteq> p \<longrightarrow> V' q = V q) \<longrightarrow> halves V' lo hi nxt n c1 s c2"
    using f(4) by auto
  then show ?thesis unfolding Nd top_id.simps pids.simps using f(1-3) by blast
qed

lemma rep_pageE:
  assumes "rep t V lo hi nxt n"
  obtains page h where "V (top_id t) = Some page" and "page_header page = Ok h" and "page_is_full_for_insert h = full t" and "length page = PAGE_SIZE"
proof (cases t)
  case (Lf p es)
  then obtain page h where p: "V p = Some page" "bt_page page h es" "bh_page_type h = PAGE_TYPE_LEAF" using assms by (auto simp: leaf_page_def)
  then show ?thesis using that [of page h] leaf_full [OF p(2,3)] Lf bt_page_header [OF p(2)] by simp
next
  case (Nd p ks)
  then obtain page h where p: "V p = Some page" "bt_page page h (kid_entries ks)" "bh_page_type h = PAGE_TYPE_INTERNAL" using assms by (auto simp: node_page_def)
  then show ?thesis using that [of page h] node_full [OF p(2,3)] Nd bt_page_header [OF p(2)] by simp
qed

section \<open>Growth\<close>

lemma grown_trans:
  assumes "grown v t v1 t1" and "grown v1 t1 v2 t2"
  shows "grown v t v2 t2"
proof -
  have "q \<in> set (pids t) \<or> (unat (v_next v) \<le> unat q \<and> unat q < unat (v_next v2))" if "q \<in> set (pids t2)" for q
    using that assms unfolding grown_def by (meson order.trans order.strict_trans2)
  moreover have "v_pages v2 q = v_pages v q" if "q \<notin> set (pids t)" "unat q < unat (v_next v)" for q
  proof -
    have "q \<notin> set (pids t1)" "unat q < unat (v_next v1)" using that assms(1) unfolding grown_def by auto
    then have "v_pages v2 q = v_pages v1 q" using assms(2) unfolding grown_def by blast
    also have "\<dots> = v_pages v q" using that assms(1) unfolding grown_def by blast
    finally show ?thesis .
  qed
  ultimately show ?thesis using assms by (auto simp: grown_def)
qed

lemma room_mono: "room R v k \<Longrightarrow> unat (v_next v) \<le> unat (v_next v') \<Longrightarrow> unat (v_next v') + k' \<le> unat (v_next v) + k \<Longrightarrow> room R v' k'"
  by (fastforce simp: room_def)

lemma room_fresh: "room R v k \<Longrightarrow> 0 < k \<Longrightarrow> v_next v \<notin> R"
  by (auto simp: room_def)

lemma safe_grown:
  assumes "safe R v t" and "grown v t v' t'" and "room R v k" and "unat (v_next v') \<le> unat (v_next v) + k"
  shows "safe R v' t'"
proof -
  have n: "unat (v_next v) \<le> unat (v_next v')" using assms(2) by (simp add: grown_def)
  have "unat q < unat (v_next v') \<and> q \<notin> R" if "q \<in> set (pids t')" for q
  proof -
    have "q \<in> set (pids t) \<or> (unat (v_next v) \<le> unat q \<and> unat q < unat (v_next v'))" using that assms(2) by (simp add: grown_def)
    then show ?thesis using assms(1,3,4) n by (fastforce simp: safe_def room_def)
  qed
  moreover have "v_next v' \<noteq> 0" using n assms(1) by (auto simp: safe_def unat_eq_zero)
  ultimately show ?thesis using assms n by (auto simp: safe_def grown_def)
qed

lemma safe_kid: "safe R v (Nd p ks) \<Longrightarrow> safe R v (get_kid key ks)"
proof -
  assume s: "safe R v (Nd p ks)"
  have "distinct (pids (get_kid key ks))" if "distinct (pids_k ks)" using that by (induction ks rule: kid_entries.induct) auto
  then show ?thesis using s kid_pids [of key ks] by (auto simp: safe_def)
qed

lemma grown_kid:
  assumes s: "safe R v (Nd p ks)" and g: "grown v (get_kid key ks) v' c'" and r: "rep (Nd p ks) (v_pages v) lo hi nxt (Suc n)"
    and c': "rep c' (v_pages v') (kid_lo key lo ks) (kid_hi key hi ks) (kid_nxt key nxt ks) n"
  shows "grown v (Nd p ks) v' (Nd p (upd_kid key c' ks))" and "rep (Nd p (upd_kid key c' ks)) (v_pages v') lo hi nxt (Suc n)"
proof -
  let ?N = "{q. unat (v_next v) \<le> unat q \<and> unat q < unat (v_next v')}"
  have d: "distinct (pids_k ks)" "p \<notin> set (pids_k ks)" "\<forall>q \<in> set (pids_k ks). unat q < unat (v_next v)" "unat p < unat (v_next v)"
    using s by (auto simp: safe_def)
  have g': "top_id c' = top_id (get_kid key ks)" "first_leaf c' = first_leaf (get_kid key ks)" "distinct (pids c')"
    "set (pids c') \<subseteq> set (pids (get_kid key ks)) \<union> ?N" "\<forall>q. q \<notin> set (pids (get_kid key ks)) \<and> unat q < unat (v_next v) \<longrightarrow> v_pages v' q = v_pages v q"
    "v_root v' = v_root v" "unat (v_next v) \<le> unat (v_next v')"
    using g by (auto simp: grown_def)
  have N: "?N \<inter> set (pids_k ks) = {}" using d(3) by (auto simp: not_less [symmetric])
  note u = pids_upd_kid [OF d(1) g'(3,4) N]
  have fl: "first_leaf_k (upd_kid key c' ks) = first_leaf_k ks" using g'(2) by (rule first_leaf_upd)
  have "p \<notin> ?N" using d(4) by simp
  then show "grown v (Nd p ks) v' (Nd p (upd_kid key c' ks))"
    using u d g'(5-7) fl kid_pids [of key ks] by (auto simp: grown_def)
  have keep: "v_pages v' q = v_pages v q" if "q = p \<or> q \<in> set (pids_k ks)" "q \<notin> set (pids (get_kid key ks))" for q
    using that g'(5) d(3,4) by blast
  have pp: "v_pages v' p = v_pages v p" using keep [of p] d(2) kid_pids [of key ks] by blast
  have k: "rep_k ks (v_pages v) lo hi nxt n" "node_page (v_pages v) p ks" "kid_entries ks \<noteq> []" using r by auto
  have "rep_k (upd_kid key c' ks) (v_pages v') lo hi nxt n"
    by (rule rep_upd_kid [OF k(1) c' g'(2) d(1)]) (use keep in auto)
  moreover note ke = kid_entries_upd [OF g'(1)]
  then have "node_page (v_pages v') p (upd_kid key c' ks)" using k(2) pp by (simp add: node_page_def)
  ultimately show "rep (Nd p (upd_kid key c' ks)) (v_pages v') lo hi nxt (Suc n)" using ke k(3) by simp
qed

section \<open>Insertion\<close>

lemma key_in_kid:
  assumes "rep_k ks V lo hi nxt n"
  shows "key \<in> fst ` set (ents (get_kid key ks)) \<longleftrightarrow> key \<in> fst ` set (ents_k ks)"
  using assms
proof (induction ks arbitrary: lo rule: kid_entries.induct)
  case (2 c k ks)
  have c: "\<forall>e \<in> set (ents c). fst e < k" using 2(2) rep_entries(1) [of c V lo "Some k"] by (auto simp: below_def)
  have ks: "\<forall>e \<in> set (ents_k ks). k \<le> fst e" using 2(2) rep_entries(2) [of ks V "Some k"] by (auto simp: from_lo_def)
  show ?case
  proof (cases "key < k")
    case True
    then have "key \<notin> fst ` set (ents_k ks)" using ks by auto
    then show ?thesis using True by (simp add: image_Un)
  next
    case False
    then have "key \<notin> fst ` set (ents c)" using c by auto
    moreover have "key \<in> fst ` set (ents (get_kid key ks)) \<longleftrightarrow> key \<in> fst ` set (ents_k ks)" using 2(2) by (intro 2(1) [of "Some k"]) simp
    ultimately show ?thesis using False by (simp add: image_Un)
  qed
qed simp

context page_provider
begin

lemma split_child_ok:
  assumes r: "rep (Nd p ks) (v_pages v) lo hi nxt (Suc n)" and s: "safe reserved v (Nd p ks)" and nf: "\<not> full (Nd p ks)"
    and full: "full (get_kid key ks)" and nx: "room reserved v 1"
    and page: "v_pages v p = Some page" "page_header page = Ok h"
    and cpage: "v_pages v (top_id (get_kid key ks)) = Some cpage" "page_header cpage = Ok ch"
  shows "\<exists>v1 ks1 sep. does (split_child_and_update_parent P p page h (top_id (get_kid key ks)) cpage ch (child_pos key (kid_entries ks))) v (sep, v_next v) v1
    \<and> grown v (Nd p ks) v1 (Nd p ks1) \<and> rep (Nd p ks1) (v_pages v1) lo hi nxt (Suc n) \<and> ents_k ks1 = ents_k ks
    \<and> top_id (get_kid key ks1) = (if key < sep then top_id (get_kid key ks) else v_next v) \<and> \<not> full (get_kid key ks1)
    \<and> v_len v1 = v_len v \<and> v_next v1 = v_next v + 1"
proof -
  let ?c = "get_kid key ks" and ?r = "v_next v" and ?es = "kid_entries ks" and ?i = "child_pos key (kid_entries ks)"
  have k: "rep_k ks (v_pages v) lo hi nxt n" "node_page (v_pages v) p ks" using r by auto
  have b: "bt_page page h ?es" "bh_page_type h = PAGE_TYPE_INTERNAL" "bh_left_child h = top_id (first_kid ks)"
    using k(2) page by (auto simp: node_page_def bt_page_def)
  have sc: "safe reserved v ?c" using s by (rule safe_kid)
  have fresh: "?r \<notin> set (pids ?c)" "?r \<notin> set (pids_k ks)" "?r \<noteq> p" "?r \<notin> reserved" "?r \<noteq> 0" using s sc room_fresh [OF nx] by (auto simp: safe_def)
  have d: "distinct (pids_k ks)" "p \<notin> set (pids_k ks)" "p \<notin> reserved" "top_id ?c \<notin> reserved" "distinct (pids ?c)"
    using s sc pid_in [of ?c] by (auto simp: safe_def)
  have pc: "p \<notin> set (pids ?c)" "top_id ?c \<noteq> p" using d(2) kid_pids [of key ks] pid_in [of ?c] by auto
  obtain c1 sep c2 where sp: "split_tree ?r ?c = (c1, sep, c2)" by (cases "split_tree ?r ?c")
  note sh = split_tree_shape [OF sp full d(5) fresh(1)]
  obtain es left right left' right' where x: "collect_entries cpage = Ok es" "split_page cpage ch es = Ok (sep, left, right)"
    "link_halves cpage ch (top_id ?c) ?r left right = Ok (left', right')"
    "\<forall>V'. V' (top_id ?c) = Some left' \<longrightarrow> V' ?r = Some right' \<longrightarrow> (\<forall>q \<in> set (pids ?c). q \<noteq> top_id ?c \<longrightarrow> V' q = v_pages v q)
       \<longrightarrow> halves V' (kid_lo key lo ks) (kid_hi key hi ks) (kid_nxt key nxt ks) n c1 sep c2"
    using split_halves [OF rep_kid [OF k(1)] full fresh(5,1) d(5) cpage sp] by blast
  let ?fs = "insert_at ?i (sep, encode_child_id ?r) ?es"
  have room: "page_has_room_for_one_more h" using node_full [OF b(1,2)] nf by (simp add: page_is_full_for_insert_def)
  have rc: "top_id ?c \<noteq> ?r" using fresh(1) pid_in [of ?c] by metis
  let ?V0 = "(v_pages v)(top_id ?c \<mapsto> left', ?r \<mapsto> right')"
  have hv0: "halves ?V0 (kid_lo key lo ks) (kid_hi key hi ks) (kid_nxt key nxt ks) n c1 sep c2"
    using fresh(1) rc by (intro x(4) [rule_format]) auto
  then have "length sep = 16" by (simp add: halves_def)
  then have fit: "entries_fit (bh_page_type h) ?fs"
    using entries_fit_insert [OF b(1) room child_pos_le] b(2) by (simp add: entry_value_size_def)
  obtain page' where pg: "encode_entries page ?fs h = Ok page'" "bt_page page' (h\<lparr>bh_key_count := word_of_nat (length ?fs)\<rparr>) ?fs"
    using encode_entries_ok [OF _ _ fit] b(1) by (auto simp: bt_page_def)
  let ?V = "?V0(p \<mapsto> page')"
  let ?v1 = "v\<lparr>v_next := ?r + 1, v_pages := ?V\<rparr>"
  let ?ks = "split_kid key c1 sep c2 ks"
  have hv: "halves ?V (kid_lo key lo ks) (kid_hi key hi ks) (kid_nxt key nxt ks) n c1 sep c2"
    using fresh(1,3) rc pc by (intro x(4) [rule_format]) auto
  note hv' = hv [unfolded halves_def]
  have "does (split_child_and_update_parent P p page h (top_id ?c) cpage ch ?i) v (sep, ?r) ?v1"
    unfolding split_child_and_update_parent_def x(1)
    using x(2,3) collect_entries_ok [OF b(1)] pg(1)
      does_then [OF does_write [OF d(4), of left' "v\<lparr>v_next := ?r + 1\<rparr>"]] does_write [OF fresh(4)] does_write [OF d(3)]
    by (auto simp: vec_insert_def intro!: does_then [OF does_alloc] does_then [OF does_write [OF d(4)]] does_then [OF does_write [OF fresh(4)]]
        does_then [OF does_write [OF d(3)]] does_lift)
  moreover have un: "unat (?r + 1) = unat ?r + 1" using nx by (simp add: unat_word_ariths room_def)
  have "{?r} \<inter> set (pids_k ks) = {}" using fresh(2) by simp
  then have u: "distinct (pids_k ?ks) \<and> set (pids_k ?ks) \<subseteq> set (pids_k ks) \<union> {?r}"
    using pids_split_kid [OF d(1) sh(5), where N = "{?r}" and key = key and s = sep] sh(6) by auto
  have "grown v (Nd p ks) ?v1 (Nd p ?ks)"
    unfolding grown_def using u d(2) un fresh(3) pc first_leaf_split [OF sh(4), of sep c2] kid_pids [of key ks] pid_in [of ?c] by auto
  moreover have "rep_k ?ks ?V lo hi nxt n"
    by (rule rep_split_kid [OF k(1)]) (use hv' sh(4) d(1,2) fresh(2) pid_in [of ?c] in auto)
  moreover note ke = kid_entries_split [OF sh(1), of sep c2]
  have "node_page ?V p ?ks" unfolding node_page_def using pg(2) b(2,3) ke sh(2) by force
  moreover have "kid_entries ?ks \<noteq> []" using ke by (simp add: insert_at_def)
  moreover have "ents_k ?ks = ents_k ks" by (rule ents_split_kid [OF sh(3)])
  ultimately show ?thesis using get_split_kid [of key c1 sep c2 ks] sh(1,2) hv' by (intro exI [of _ ?v1] exI [of _ ?ks] exI [of _ sep]) auto
qed

end

context page_provider
begin

lemma insert_step_leaf:
  assumes r: "rep (Lf p es) (v_pages v) lo hi nxt n" and s: "safe reserved v (Lf p es)" and nf: "\<not> full (Lf p es)"
    and b: "from_lo lo key" "below key hi" and k: "length key = KEY_SIZE" and e: "length encoded = LEAF_VALUE_SIZE"
  shows "\<exists>v'. does (insert_step P key encoded p) v None v' \<and> grown v (Lf p es) v' (Lf p (om_insert key encoded es))
    \<and> rep (Lf p (om_insert key encoded es)) (v_pages v') lo hi nxt n
    \<and> v_len v' = v_len v + (if key \<in> fst ` set es then 0 else 1) \<and> v_next v' = v_next v"
proof -
  obtain hk where hk: "leaf_page (v_pages v) p hk nxt es" "hk_ok hk hi" using r by auto
  have l: "leaf_page (v_pages v) p hk nxt es" "keys_sorted es" "n = 0" "p \<noteq> 0" "\<forall>e \<in> set es. from_lo lo (fst e) \<and> below (fst e) hi" using r hk(1) by auto
  obtain page h where p: "v_pages v p = Some page" "bt_page page h es" "bh_page_type h = PAGE_TYPE_LEAF" "bh_next_leaf h = nxt" "bh_high_key h = hk"
    "page_header page = Ok h" using l(1) by (rule leaf_pageE)
  have res: "p \<notin> reserved" using s by (simp add: safe_def)
  obtain page' where q: "does (insert_into_leaf P p page h key encoded) v ()
      (v\<lparr>v_pages := (v_pages v)(p \<mapsto> page'), v_len := v_len v + (if key \<in> fst ` set es then 0 else 1)\<rparr>)"
    "bt_page page' (h\<lparr>bh_key_count := word_of_nat (length (om_insert key encoded es))\<rparr>) (om_insert key encoded es)"
    using insert_leaf_ok [OF p(2,3) l(2) _ k e res] nf by fastforce
  define v' where "v' = v\<lparr>v_pages := (v_pages v)(p \<mapsto> page'), v_len := v_len v + (if key \<in> fst ` set es then 0 else 1)\<rparr>"
  have "does (insert_step P key encoded p) v None v'"
    unfolding insert_step_def using p(3,6) by (auto intro!: does_then [OF does_require [OF p(1)]] does_then [OF q(1) [folded v'_def]] does_lift)
  moreover have "leaf_page (v_pages v') p hk nxt (om_insert key encoded es)" unfolding leaf_page_def using q(2) p(3-5) by (force simp: v'_def)
  moreover have "keys_sorted (om_insert key encoded es)" using om_wf_insert [of es key encoded] l(2) by (simp add: om_wf_def)
  moreover have "from_lo lo (fst x) \<and> below (fst x) hi" if "x \<in> set (om_insert key encoded es)" for x
  proof -
    have "fst x = key \<or> fst x \<in> fst ` set es" using that fst_set_om_insert [of key encoded es] by (metis image_eqI insertE)
    then show ?thesis using b l(5) by auto
  qed
  moreover have "grown v (Lf p es) v' (Lf p (om_insert key encoded es))" by (auto simp: grown_def v'_def)
  ultimately show ?thesis using l(3,4) hk(2) by (intro exI [of _ v']) (auto simp: v'_def)
qed

lemma insert_step_node:
  assumes r: "rep (Nd p ks) (v_pages v) lo hi nxt (Suc n)" and s: "safe reserved v (Nd p ks)" and nf: "\<not> full (Nd p ks)"
    and nx: "room reserved v 1"
  shows "\<exists>v1 ks1. does (insert_step P key encoded p) v (Some (top_id (get_kid key ks1))) v1
    \<and> grown v (Nd p ks) v1 (Nd p ks1) \<and> rep (Nd p ks1) (v_pages v1) lo hi nxt (Suc n) \<and> ents_k ks1 = ents_k ks
    \<and> \<not> full (get_kid key ks1) \<and> v_len v1 = v_len v \<and> unat (v_next v1) \<le> unat (v_next v) + 1"
proof -
  have k: "rep_k ks (v_pages v) lo hi nxt n" "node_page (v_pages v) p ks" using r by auto
  obtain page h where p: "v_pages v p = Some page" "bt_page page h (kid_entries ks)" "bh_page_type h = PAGE_TYPE_INTERNAL" "bh_left_child h = top_id (first_kid ks)"
    "page_header page = Ok h" using k(2) by (rule node_pageE)
  obtain cpage ch where c: "v_pages v (top_id (get_kid key ks)) = Some cpage" "page_header cpage = Ok ch" "page_is_full_for_insert ch = full (get_kid key ks)"
    using rep_kid [OF k(1), of key] by (rule rep_pageE)
  have room: "page_has_room_for_one_more h" using node_full [OF p(2,3)] nf by (simp add: page_is_full_for_insert_def)
  note pos = child_ok [OF p(2-4) k(1), of key]
  show ?thesis
  proof (cases "full (get_kid key ks)")
    case True
    obtain v1 ks1 sep where x: "does (split_child_and_update_parent P p page h (top_id (get_kid key ks)) cpage ch (child_pos key (kid_entries ks))) v (sep, v_next v) v1"
      "grown v (Nd p ks) v1 (Nd p ks1)" "rep (Nd p ks1) (v_pages v1) lo hi nxt (Suc n)" "ents_k ks1 = ents_k ks"
      "top_id (get_kid key ks1) = (if key < sep then top_id (get_kid key ks) else v_next v)" "\<not> full (get_kid key ks1)" "v_len v1 = v_len v" "v_next v1 = v_next v + 1"
      using split_child_ok [OF r s nf True nx p(1,5) c(1,2)] by blast
    have "top_id (get_kid key ks1) = (if sep \<le> key then v_next v else top_id (get_kid key ks))" using x(5) by (cases "key < sep") (auto simp: not_le)
    then have "does (insert_step P key encoded p) v (Some (top_id (get_kid key ks1))) v1"
      unfolding insert_step_def using p(3,5) c(2,3) True room pos
      by (auto intro!: does_then [OF does_require [OF p(1)]] does_then [OF does_require [OF c(1)]] does_then [OF x(1)] does_lift)
    moreover have "unat (v_next v + 1) = unat (v_next v) + 1" using nx by (simp add: unat_word_ariths room_def)
    ultimately show ?thesis using x(2-4,6-8) by (metis order.refl)
  next
    case False
    have "does (insert_step P key encoded p) v (Some (top_id (get_kid key ks))) v"
      unfolding insert_step_def using p(3,5) c(2,3) False pos
      by (auto intro!: does_then [OF does_require [OF p(1)]] does_then [OF does_require [OF c(1)]] does_lift)
    moreover have "grown v (Nd p ks) v (Nd p ks)" using s by (auto simp: grown_def safe_def)
    ultimately show ?thesis using r False by (metis le_add1)
  qed
qed

lemma insert_run_ok:
  assumes "rep t (v_pages v) lo hi nxt n" and "safe reserved v t" and "\<not> full t" and "from_lo lo key" and "below key hi"
    and "room reserved v n" and k: "length key = KEY_SIZE" and e: "length encoded = LEAF_VALUE_SIZE"
  shows "\<exists>v' t'. does (run_loop (insert_step P key encoded) (top_id t)) v () v' \<and> grown v t v' t' \<and> rep t' (v_pages v') lo hi nxt n
    \<and> ents t' = om_insert key encoded (ents t) \<and> v_len v' = v_len v + (if key \<in> fst ` set (ents t) then 0 else 1)
    \<and> unat (v_next v') \<le> unat (v_next v) + n"
  using assms(1-6)
proof (induction n arbitrary: t v lo hi nxt)
  case 0
  obtain p es where t: "t = Lf p es" using 0(1) by (cases t) auto
  obtain v' where x: "does (insert_step P key encoded p) v None v'" "grown v (Lf p es) v' (Lf p (om_insert key encoded es))"
    "rep (Lf p (om_insert key encoded es)) (v_pages v') lo hi nxt 0" "v_len v' = v_len v + (if key \<in> fst ` set es then 0 else 1)" "v_next v' = v_next v"
    using insert_step_leaf [of p es v lo hi nxt 0 key encoded] 0 k e t by metis
  then show ?case using does_loop_stop [of "insert_step P key encoded" p v v'] x(1) t by (intro exI [of _ v'] exI [of _ "Lf p (om_insert key encoded es)"]) auto
next
  case (Suc n)
  obtain p ks where t: "t = Nd p ks" using Suc(2) by (cases t) auto
  have r1: "room reserved v 1" using room_mono [OF Suc(7), of v 1] by simp
  obtain v1 ks1 where x: "does (insert_step P key encoded p) v (Some (top_id (get_kid key ks1))) v1"
    "grown v (Nd p ks) v1 (Nd p ks1)" "rep (Nd p ks1) (v_pages v1) lo hi nxt (Suc n)" "ents_k ks1 = ents_k ks"
    "\<not> full (get_kid key ks1)" "v_len v1 = v_len v" "unat (v_next v1) \<le> unat (v_next v) + 1"
    using insert_step_node [of p ks v lo hi nxt n key encoded] Suc(2-6) r1 t by auto
  let ?c = "get_kid key ks1"
  have s1: "safe reserved v1 (Nd p ks1)" using safe_grown [OF _ x(2) r1 x(7)] Suc(3) t by blast
  have rm: "room reserved v1 n" using room_mono [OF Suc(7)] x(2,7) by (simp add: grown_def)
  have k1: "rep_k ks1 (v_pages v1) lo hi nxt n" using x(3) by simp
  obtain v' c' where y: "does (run_loop (insert_step P key encoded) (top_id ?c)) v1 () v'" "grown v1 ?c v' c'"
    "rep c' (v_pages v') (kid_lo key lo ks1) (kid_hi key hi ks1) (kid_nxt key nxt ks1) n" "ents c' = om_insert key encoded (ents ?c)"
    "v_len v' = v_len v1 + (if key \<in> fst ` set (ents ?c) then 0 else 1)" "unat (v_next v') \<le> unat (v_next v1) + n"
    using Suc.IH [OF rep_kid [OF k1, of key] safe_kid [OF s1] x(5)] kid_bounds [OF Suc(5,6), of ks1] rm by auto
  note g = grown_kid [OF s1 y(2) x(3) y(3)]
  have "does (run_loop (insert_step P key encoded) (top_id t)) v () v'" using does_loop_step [of "insert_step P key encoded" p v "top_id ?c" v1 v'] x(1) y(1) t by simp
  moreover have "grown v t v' (Nd p (upd_kid key c' ks1))" using grown_trans [OF x(2) g(1)] t by simp
  moreover have "ents (Nd p (upd_kid key c' ks1)) = om_insert key encoded (ents t)" using ents_upd_kid [OF k1 y(4)] x(4) t by simp
  moreover have "v_len v' = v_len v + (if key \<in> fst ` set (ents t) then 0 else 1)" using y(5) x(4,6) key_in_kid [OF k1, of key] t by simp
  ultimately show ?case using g(2) y(6) x(7) by (intro exI [of _ v'] exI [of _ "Nd p (upd_kid key c' ks1)"]) auto
qed

end

section \<open>The invariant of a tree\<close>

lemma om_insert_length: "keys_sorted es \<Longrightarrow> length (om_insert k v es) = length es + (if k \<in> fst ` set es then 0 else 1)"
  using om_insert_new [of es k v] om_insert_old [of es k v] by auto

lemma no_bounds [simp]: "from_lo None k" "below k None" "over_lo None k"
  by (simp_all add: from_lo_def below_def over_lo_def)

context page_provider
begin

lemma split_root_ok:
  assumes r: "rep t (v_pages v) None None None n" and s: "safe reserved v t" and root: "v_root v = top_id t" and full: "full t"
    and nx: "room reserved v 2"
  shows "\<exists>v1 t1. does (ensure_root_not_full P) v () v1 \<and> rep t1 (v_pages v1) None None None (Suc n) \<and> safe reserved v1 t1 \<and> v_root v1 = top_id t1
    \<and> \<not> full t1 \<and> ents t1 = ents t \<and> v_len v1 = v_len v \<and> unat (v_next v1) = unat (v_next v) + 2"
proof -
  let ?r = "v_next v" and ?nr = "v_next v + 1"
  obtain page h where p: "v_pages v (top_id t) = Some page" "page_header page = Ok h" "page_is_full_for_insert h = full t" using r by (rule rep_pageE)
  have un: "unat ?nr = unat ?r + 1" "unat (?nr + 1) = unat ?r + 2" using nx by (simp_all add: unat_word_ariths room_def)
  have d: "distinct (pids t)" "?r \<notin> set (pids t)" "?nr \<notin> set (pids t)" "top_id t \<notin> reserved" "?r \<notin> reserved" "?nr \<notin> reserved" "?r \<noteq> 0"
    using s pid_in [of t] un nx by (auto simp: safe_def room_def)
  have ne: "top_id t \<noteq> ?r" "top_id t \<noteq> ?nr" "?nr \<noteq> ?r" using d(2,3) pid_in [of t] un by auto
  obtain c1 sep c2 where sp: "split_tree ?r t = (c1, sep, c2)" by (cases "split_tree ?r t")
  note sh = split_tree_shape [OF sp full d(1,2)]
  obtain es left right left' right' where x: "collect_entries page = Ok es" "split_page page h es = Ok (sep, left, right)"
    "link_halves page h (top_id t) ?r left right = Ok (left', right')"
    "\<forall>V'. V' (top_id t) = Some left' \<longrightarrow> V' ?r = Some right' \<longrightarrow> (\<forall>q \<in> set (pids t). q \<noteq> top_id t \<longrightarrow> V' q = v_pages v q) \<longrightarrow> halves V' None None None n c1 sep c2"
    using split_halves [OF r full d(7,2,1) p(1,2) sp] by blast
  obtain np nh where n: "bt_new_page 1 (level_succ (bh_level h)) = Ok np" "page_header np = Ok nh" "bh_page_type nh = 1" "header_ok nh" "length np = PAGE_SIZE"
    using bt_new_page_ok [of 1 "level_succ (bh_level h)"] by (auto simp: bt_page_def)
  let ?es = "[(sep, encode_child_id ?r)]" and ?nh = "nh\<lparr>bh_left_child := top_id t\<rparr>"
  have nh: "header_ok ?nh" using n(4) by (simp add: header_ok_def)
  let ?V0 = "(v_pages v)(top_id t \<mapsto> left', ?r \<mapsto> right')"
  have "halves ?V0 None None None n c1 sep c2" using d(2) ne by (intro x(4) [rule_format]) auto
  then have "entries_fit (bh_page_type ?nh) ?es" using n(3) by (simp add: halves_def entries_fit_def entry_size_def entry_value_size_def)
  then obtain np' where np: "encode_entries np ?es ?nh = Ok np'" "bt_page np' (?nh\<lparr>bh_key_count := word_of_nat (length ?es)\<rparr>) ?es"
    using encode_entries_ok [OF n(5) nh] by blast
  define v1 where "v1 = v\<lparr>v_next := ?nr + 1, v_pages := ?V0(?nr \<mapsto> np'), v_root := ?nr\<rparr>"
  let ?t1 = "Nd ?nr (Kid c1 sep (Last c2))"
  have "halves (v_pages v1) None None None n c1 sep c2" unfolding v1_def using d(2,3) ne by (intro x(4) [rule_format]) auto
  note hv = this [unfolded halves_def]
  have "node_page (v_pages v1) ?nr (Kid c1 sep (Last c2))"
    unfolding node_page_def using np(2) n(3) sh(1,2) by (force simp: v1_def)
  then have "rep ?t1 (v_pages v1) None None None (Suc n)" using hv by simp
  moreover have "safe reserved v1 ?t1"
    using s sh(5,6) d ne un by (auto simp: safe_def v1_def unat_eq_zero [symmetric])
  moreover have "does (ensure_root_not_full P) v () v1"
    unfolding ensure_root_not_full_def v1_def using p(2,3) full x(1-3) n(1,2) np(1) root
      does_set_root [of ?nr "v\<lparr>v_next := ?nr + 1, v_pages := ?V0(?nr \<mapsto> np')\<rparr>"]
    by (auto intro!: does_then [OF does_root] does_then [OF does_require [of _ "top_id t"], of _ page] does_then [OF does_alloc]
        does_then [OF does_write [OF d(4)]] does_then [OF does_write [OF d(5)]] does_then [OF does_write [OF d(6)]] p(1))
  ultimately show ?thesis using sh(3) un by (intro exI [of _ v1] exI [of _ ?t1]) (simp add: v1_def)
qed

lemma ensure_root_ok:
  assumes r: "rep t (v_pages v) None None None n" and s: "safe reserved v t" and root: "v_root v = top_id t" and nx: "room reserved v 2"
  shows "\<exists>v1 t1 m. does (ensure_root_not_full P) v () v1 \<and> rep t1 (v_pages v1) None None None m \<and> safe reserved v1 t1 \<and> v_root v1 = top_id t1
    \<and> \<not> full t1 \<and> ents t1 = ents t \<and> v_len v1 = v_len v \<and> unat (v_next v) \<le> unat (v_next v1) \<and> unat (v_next v1) \<le> unat (v_next v) + 2"
proof (cases "full t")
  case True
  from split_root_ok [OF r s root True nx] show ?thesis by fastforce
next
  case False
  obtain page h where p: "v_pages v (top_id t) = Some page" "page_header page = Ok h" "page_is_full_for_insert h = full t" using r by (rule rep_pageE)
  have "does (ensure_root_not_full P) v () v"
    unfolding ensure_root_not_full_def using p root False
    by (auto intro!: does_then [OF does_root] does_then [OF does_require [of _ "top_id t"], of _ page] does_lift)
  then show ?thesis using assms False by (intro exI [of _ v] exI [of _ t] exI [of _ n]) simp
qed

lemma insert_ok:
  assumes inv: "tree_inv reserved v t" and k: "length key = KEY_SIZE" and lv: "length (lv_value val) = VALUE_SIZE" and nx: "room reserved v 70"
  shows "\<exists>v' t'. does (bt_insert P key val) v () v' \<and> tree_inv reserved v' t' \<and> ents t' = om_insert key (encode_leaf_value val) (ents t)
    \<and> unat (v_next v) \<le> unat (v_next v') \<and> unat (v_next v') \<le> unat (v_next v) + 66"
proof -
  obtain n where r: "rep t (v_pages v) None None None n" and s: "safe reserved v t" and root: "v_root v = top_id t" and len: "v_len v = word_of_nat (length (ents t))"
    using inv by (auto simp: tree_inv_def)
  obtain v1 t1 m where x: "does (ensure_root_not_full P) v () v1" "rep t1 (v_pages v1) None None None m" "safe reserved v1 t1" "v_root v1 = top_id t1"
    "\<not> full t1" "ents t1 = ents t" "v_len v1 = v_len v" "unat (v_next v) \<le> unat (v_next v1)" "unat (v_next v1) \<le> unat (v_next v) + 2"
    using ensure_root_ok [OF r s root] room_mono [OF nx, of v 2] by auto
  have m: "m \<le> 64" using height_bound [OF x(2)] x(3) by (simp add: safe_def)
  have rm: "room reserved v1 m" using room_mono [OF nx x(8)] x(9) m by simp
  obtain v' t' where y: "does (run_loop (insert_step P key (encode_leaf_value val)) (top_id t1)) v1 () v'" "grown v1 t1 v' t'"
    "rep t' (v_pages v') None None None m" "ents t' = om_insert key (encode_leaf_value val) (ents t1)"
    "v_len v' = v_len v1 + (if key \<in> fst ` set (ents t1) then 0 else 1)" "unat (v_next v') \<le> unat (v_next v1) + m"
    using insert_run_ok [OF x(2,3,5) _ _ rm k, of "encode_leaf_value val"] lv by auto
  have "does (bt_insert P key val) v () v'"
    unfolding bt_insert_def using k y(1) x(4) by (auto intro!: does_then [OF x(1)] does_then [OF does_root])
  moreover have "v_len v' = word_of_nat (length (ents t'))"
    using y(4,5) x(6,7) len om_insert_length [of "ents t" key "encode_leaf_value val"] rep_entries(1) [OF r] by auto
  then have "tree_inv reserved v' t'" using y(2,3) safe_grown [OF x(3) y(2) rm y(6)] x(4) by (auto simp: tree_inv_def grown_def)
  ultimately show ?thesis using y(2,4,6) x(6,8,9) m by (intro exI [of _ v'] exI [of _ t']) (auto simp: grown_def)
qed

lemma new_ok:
  assumes "room reserved v 1" and "v_next v \<noteq> 0" and "v_len v = 0"
  shows "\<exists>v'. does (\<lambda>t. new_with_provider P (bt_pages t)) v () v' \<and> tree_inv reserved v' (Lf (v_next v) [])"
proof -
  obtain page h where p: "bt_new_page 2 0 = Ok page" "bt_page page h []" "bh_page_type h = 2" "bh_next_leaf h = None" "bh_high_key h = None"
    using bt_new_page_ok [of 2 0] by force
  have res: "v_next v \<notin> reserved" using room_fresh [OF assms(1)] by simp
  define v' where "v' = v\<lparr>v_next := v_next v + 1, v_pages := (v_pages v)(v_next v \<mapsto> page), v_root := v_next v\<rparr>"
  have "does (andThen (alloc_page_id P) (\<lambda>root_id. andThen (lift (bt_new_page 2 0)) (\<lambda>page.
      andThen (write_page P root_id page) (\<lambda>_. set_root_page_id P root_id)))) v () v'"
    unfolding v'_def p(1) using does_set_root [of "v_next v" "v\<lparr>v_next := v_next v + 1, v_pages := (v_pages v)(v_next v \<mapsto> page)\<rparr>"]
    by (auto intro!: does_then [OF does_alloc] does_then [OF does_write [OF res]])
  then have "does (\<lambda>t. new_with_provider P (bt_pages t)) v () v'"
    using assms(3) by (auto simp: does_def new_with_provider_def sees_def)
  moreover have "unat (v_next v + 1) = unat (v_next v) + 1" using assms(1) by (simp add: unat_word_ariths room_def)
  moreover have "leaf_page (v_pages v') (v_next v) None None []" unfolding leaf_page_def using p(2-5) by (auto simp: v'_def)
  then have "\<exists>hk. hk_ok hk None \<and> leaf_page (v_pages v') (v_next v) hk None []" using hk_ok_refl by blast
  ultimately have "does (\<lambda>t. new_with_provider P (bt_pages t)) v () v'" "tree_inv reserved v' (Lf (v_next v) [])"
    using assms(2,3) res by (auto simp: tree_inv_def safe_def v'_def less_Suc_eq)
  then show ?thesis by blast
qed

end

section \<open>The leaf chain\<close>

lemma chain_append: "ys \<noteq> [] \<Longrightarrow> chain V key (Some (fst (hd ys))) xs \<Longrightarrow> chain V key nxt ys \<Longrightarrow> chain V key nxt (xs @ ys)"
  by (induction xs rule: chain.induct) (auto split: list.splits)

lemma leaves_hd: "leaves t \<noteq> [] \<and> fst (hd (leaves t)) = first_leaf t" "leaves_k ks \<noteq> [] \<and> fst (hd (leaves_k ks)) = first_leaf_k ks"
  by (induction t and ks) auto

lemma leaves_ents: "concat (map snd (leaves t)) = ents t" "concat (map snd (leaves_k ks)) = ents_k ks"
  by (induction t and ks) auto

lemma chain_leaves:
  "rep t V (Some l) hi nxt n \<Longrightarrow> key < l \<Longrightarrow> below key hi \<Longrightarrow> chain V key nxt (leaves t)"
  "rep_k ks V (Some l) hi nxt n \<Longrightarrow> key < l \<Longrightarrow> below key hi \<Longrightarrow> chain V key nxt (leaves_k ks)"
proof (induction t and ks arbitrary: l hi nxt n and l hi nxt n)
  case (Nd p ks)
  then show ?case by auto
next
  case (Kid c k ks)
  have k: "l < k" "key < k" using Kid.prems by (auto simp: over_lo_def)
  have "chain V key (Some (first_leaf_k ks)) (leaves c)" using Kid.IH(1) [of l "Some k"] Kid.prems k by (auto simp: below_def)
  moreover have "chain V key nxt (leaves_k ks)" using Kid.IH(2) [of k] Kid.prems k by auto
  ultimately show ?case using leaves_hd(2) [of ks] by (auto intro: chain_append)
qed (auto dest: hk_ok_below)

lemma leaves_from_hd: "leaves_from key t \<noteq> [] \<and> hd (leaves_from key t) = leaf_for key t"
  "leaves_from_k key ks \<noteq> [] \<and> hd (leaves_from_k key ks) = leaf_for_k key ks"
  by (induction t and ks) auto

lemma chain_leaves_from:
  "rep t V lo hi nxt n \<Longrightarrow> below key hi \<Longrightarrow> chain V key nxt (leaves_from key t)"
  "rep_k ks V lo hi nxt n \<Longrightarrow> below key hi \<Longrightarrow> chain V key nxt (leaves_from_k key ks)"
proof (induction t and ks arbitrary: lo hi nxt n and lo hi nxt n)
  case (Nd p ks)
  then show ?case by auto
next
  case (Kid c k ks)
  show ?case
  proof (cases "key < k")
    case True
    have "chain V key (Some (first_leaf_k ks)) (leaves_from key c)" using Kid.IH(1) [of lo "Some k"] Kid.prems True by (auto simp: below_def)
    moreover have "chain V key nxt (leaves_k ks)" using chain_leaves(2) [of ks V k hi nxt n key] Kid.prems True by auto
    ultimately show ?thesis using leaves_hd(2) [of ks] True by (auto intro: chain_append)
  next
    case False
    then show ?thesis using Kid.IH(2) [of "Some k"] Kid.prems by auto
  qed
qed (auto dest: hk_ok_below)

lemma leaves_from_suffix: "\<exists>pre. leaves t = pre @ leaves_from key t" "\<exists>pre. leaves_k ks = pre @ leaves_from_k key ks"
proof (induction t and ks)
  case (Kid c k ks)
  then obtain pre pre' where "leaves c = pre @ leaves_from key c" "leaves_k ks = pre' @ leaves_from_k key ks" by auto
  then show ?case by (cases "key < k") (auto intro: exI [of _ pre] exI [of _ "leaves c @ pre'"])
qed auto

lemma leaves_pids: "fst ` set (leaves t) \<subseteq> set (pids t)" "fst ` set (leaves_k ks) \<subseteq> set (pids_k ks)"
  by (induction t and ks) auto

lemma leaves_distinct: "distinct (pids t) \<Longrightarrow> distinct (map fst (leaves t))" "distinct (pids_k ks) \<Longrightarrow> distinct (map fst (leaves_k ks))"
proof (induction t and ks)
  case (Kid c k ks)
  then show ?case using leaves_pids(1) [of c] leaves_pids(2) [of ks] by auto
qed auto

lemma filter_none: "\<forall>x \<in> set xs. \<not> Q x \<Longrightarrow> filter Q xs = []"
  by simp

lemma leaves_from_ents:
  "rep t V lo hi nxt n \<Longrightarrow> below key hi \<Longrightarrow> filter (\<lambda>e. key \<le> fst e) (concat (map snd (leaves_from key t))) = filter (\<lambda>e. key \<le> fst e) (ents t)"
  "rep_k ks V lo hi nxt n \<Longrightarrow> below key hi \<Longrightarrow> filter (\<lambda>e. key \<le> fst e) (concat (map snd (leaves_from_k key ks))) = filter (\<lambda>e. key \<le> fst e) (ents_k ks)"
proof (induction t and ks arbitrary: lo hi nxt n and lo hi nxt n)
  case (Nd p ks)
  then show ?case by auto
next
  case (Kid c k ks)
  show ?case
  proof (cases "key < k")
    case True
    have "filter (\<lambda>e. key \<le> fst e) (concat (map snd (leaves_from key c))) = filter (\<lambda>e. key \<le> fst e) (ents c)"
      using Kid.IH(1) [of lo "Some k"] Kid.prems True by (auto simp: below_def)
    then show ?thesis using True leaves_ents(2) [of ks] by simp
  next
    case False
    have "\<forall>e \<in> set (ents c). fst e < k" using Kid.prems rep_entries(1) [of c V lo "Some k"] by (auto simp: below_def)
    then have "filter (\<lambda>e. key \<le> fst e) (ents c) = []" using False by (intro filter_none) auto
    then show ?thesis using Kid.IH(2) [of "Some k"] Kid.prems False by auto
  qed
qed auto

text \<open>After the first leaf every entry of the chain is at or above the key.\<close>

lemma leaves_from_tail:
  "rep t V lo hi nxt n \<Longrightarrow> below key hi \<Longrightarrow> \<forall>e \<in> set (concat (map snd (tl (leaves_from key t)))). key \<le> fst e"
  "rep_k ks V lo hi nxt n \<Longrightarrow> below key hi \<Longrightarrow> \<forall>e \<in> set (concat (map snd (tl (leaves_from_k key ks)))). key \<le> fst e"
proof (induction t and ks arbitrary: lo hi nxt n and lo hi nxt n)
  case (Nd p ks)
  then obtain m where "rep_k ks V lo hi nxt m" by auto
  from Nd.IH [OF this Nd.prems(2)] show ?case by simp
next
  case (Kid c k ks)
  show ?case
  proof (cases "key < k")
    case True
    have "\<forall>e \<in> set (concat (map snd (tl (leaves_from key c)))). key \<le> fst e"
      using Kid.IH(1) [of lo "Some k" "Some (first_leaf_k ks)" n] Kid.prems True by (auto simp: below_def)
    moreover have "\<forall>e \<in> set (concat (map snd (leaves_k ks))). key \<le> fst e"
      using Kid.prems rep_entries(2) [of ks V "Some k" hi nxt n] True unfolding leaves_ents(2) by (auto simp: from_lo_def)
    moreover have "tl (leaves_from_k key (Kid c k ks)) = tl (leaves_from key c) @ leaves_k ks" using True leaves_from_hd(1) [of key c] by simp
    ultimately show ?thesis unfolding \<open>tl _ = _\<close> map_append concat_append set_append by blast
  next
    case False
    then show ?thesis using Kid.IH(2) [of "Some k" hi nxt n] Kid.prems by auto
  qed
qed auto

section \<open>Scans\<close>

lemma visit_list_append:
  "visit_list end_key f (xs @ ys) acc = (case visit_list end_key f xs acc of (True, a) \<Rightarrow> (True, a) | (False, a) \<Rightarrow> visit_list end_key f ys a)"
  by (induction end_key f xs acc rule: visit_list.induct) (auto split: prod.splits)

lemma full_row_decodes: "decodes full_row leaf_of"
  unfolding decodes_def full_row_def using entry_value_bounds_ok decode_leaf_ref_ok by fastforce

lemma meta_row_decodes: "decodes meta_row leaf_meta_of"
proof -
  have "meta_row page i = Ok (Some (leaf_meta_of (snd (es ! i))))" if "bt_page page h es" "bh_page_type h = PAGE_TYPE_LEAF" "i < length es" for page h es i
  proof -
    have "length (snd (es ! i)) = 1060" using that entries_fit_nth [of _ es i] by (auto simp: bt_page_def entry_value_size_def)
    then show ?thesis using that by (simp add: meta_row_def entry_value_at_ok decode_leaf_meta_ok)
  qed
  then show ?thesis by (auto simp: decodes_def)
qed

lemma visit_entries_ok:
  assumes b: "bt_page page h es" and t: "bh_page_type h = PAGE_TYPE_LEAF" and d: "decodes row dec"
  shows "idx + n \<le> length es \<Longrightarrow> visit_entries row page end_key f idx n acc = Ok (visit_list end_key f (map (\<lambda>(k, v). (k, dec v)) (take n (drop idx es))) acc)"
proof (induction n arbitrary: idx acc)
  case (Suc n)
  have i: "idx < length es" using Suc(2) by simp
  have dr: "drop idx es = (fst (es ! idx), snd (es ! idx)) # drop (idx + 1) es" using i by (simp add: Cons_nth_drop_Suc)
  have r: "row page idx = Ok (Some (dec (snd (es ! idx))))" using d b t i by (auto simp: decodes_def)
  show ?case unfolding dr using entry_key_at_ok [OF b, of idx] i r Suc by (auto split: prod.splits)
qed simp

lemma drop_key_pos: "keys_sorted es \<Longrightarrow> drop (key_pos start es) es = filter (\<lambda>e. start \<le> fst e) es"
proof (induction es)
  case (Cons e es)
  show ?case
  proof (cases "fst e < start")
    case True
    then show ?thesis using Cons by (simp add: key_pos_def)
  next
    case False
    then have "filter (\<lambda>e. start \<le> fst e) (e # es) = e # es" using Cons(2) by (fastforce simp: filter_id_conv not_less)
    then show ?thesis using False by (simp add: key_pos_def)
  qed
qed simp

lemma visit_push:
  "sorted_wrt (<) (map fst rows) \<Longrightarrow> snd (visit_list end_key push_row rows out) = out @ filter (\<lambda>r. fst r \<le> end_key) rows"
proof (induction rows arbitrary: out)
  case (Cons r rows)
  obtain k x where r: "r = (k, x)" by (cases r)
  show ?case
  proof (cases "k > end_key")
    case True
    then have "filter (\<lambda>r. fst r \<le> end_key) (r # rows) = []" using Cons(2) r by (fastforce simp: filter_empty_conv)
    then show ?thesis using True r by simp
  next
    case False
    then show ?thesis using Cons r by (simp add: push_row_def not_less)
  qed
qed simp

context page_reader
begin

lemma scan_chain:
  assumes d: "decodes row dec"
  shows "chain (v_pages v) start None ls \<Longrightarrow> distinct (map fst ls) \<Longrightarrow> fst ` set ls \<inter> visited = {} \<Longrightarrow> length ls \<le> m \<Longrightarrow> ls \<noteq> []
    \<Longrightarrow> does (scan_hops P row start end_key f m (fst (hd ls)) first visited acc) v
      (True, snd (visit_list end_key f (map (\<lambda>(k, x). (k, dec x)) ((if first then drop (key_pos start (snd (hd ls))) (snd (hd ls)) else snd (hd ls)) @ concat (map snd (tl ls)))) acc)) v"
proof (induction ls arbitrary: m first visited acc)
  case (Cons l ls)
  obtain p es where l: "l = (p, es)" by (cases l)
  obtain m' where m: "m = Suc m'" using Cons(5) by (cases m) auto
  let ?nxt = "case ls of [] \<Rightarrow> None | (q, _) # _ \<Rightarrow> Some q"
  obtain hi where hi: "leaf_page (v_pages v) p hi ?nxt es" "below start hi" "keys_sorted es" using Cons(2) l by auto
  obtain page h where pg: "v_pages v p = Some page" "bt_page page h es" "bh_page_type h = PAGE_TYPE_LEAF" "bh_next_leaf h = ?nxt" "bh_high_key h = hi"
    "page_header page = Ok h" using hi(1) by (rule leaf_pageE)
  let ?i = "if first then key_pos start es else 0"
  let ?rows = "map (\<lambda>(k, x). (k, dec x)) (drop ?i es)"
  have ve: "visit_entries row page end_key f ?i (length es - ?i) acc = Ok (visit_list end_key f ?rows acc)"
    using visit_entries_ok [OF pg(2,3) d, of ?i "length es - ?i" end_key f acc] by simp
  have lb: "(if first then lower_bound_in_leaf page start else Ok 0) = (Ok ?i :: nat res)" using lower_bound_in_leaf_ok [OF pg(2) hi(3)] by simp
  have np: "p \<notin> visited" using Cons(4) l by auto
  obtain stop acc' where vl: "visit_list end_key f ?rows acc = (stop, acc')" by (cases "visit_list end_key f ?rows acc")
  have rest: "(if first then drop (key_pos start es) es else es) = drop ?i es" by simp
  show ?case
  proof (cases stop)
    case True
    then show ?thesis unfolding l m list.sel fst_conv snd_conv rest map_append visit_list_append vl
      using np pg(3,6) right_link_None [OF hi(2) pg(5)] lb ve vl bt_page_count [OF pg(2)]
      by (auto intro!: does_then [OF does_read [OF pg(1)]] does_lift)
  next
    case False
    show ?thesis
    proof (cases ls)
      case Nil
      then show ?thesis unfolding l m list.sel fst_conv snd_conv rest map_append visit_list_append vl
        using np pg(3,4,6) right_link_None [OF hi(2) pg(5)] lb ve vl bt_page_count [OF pg(2)] False
        by (auto intro!: does_then [OF does_read [OF pg(1)]] does_lift)
    next
      case (Cons l' ls')
      obtain q fs where q: "l' = (q, fs)" by (cases l')
      have qp: "q \<noteq> p" using Cons.prems(2) Cons l q by auto
      have "does (scan_hops P row start end_key f m' q False (insert p visited) acc') v
        (True, snd (visit_list end_key f (map (\<lambda>(k, x). (k, dec x)) (concat (map snd ls))) acc')) v"
        using Cons.IH [of "insert p visited" m' False acc'] Cons.prems l m Cons q by auto
      then show ?thesis unfolding l m list.sel fst_conv snd_conv rest map_append visit_list_append vl
        using np pg(3,4,6) right_link_None [OF hi(2) pg(5)] lb ve vl bt_page_count [OF pg(2)] False Cons q qp
        by (auto intro!: does_then [OF does_read [OF pg(1)]] does_lift)
    qed
  qed
qed simp

lemma scan_ok:
  assumes d: "decodes row dec" and inv: "tree_inv reserved v t" and n: "length (leaves t) \<le> 8192"
  shows "does (scan_tries P row start end_key f (Suc m) acc) v
    (snd (visit_list end_key f (map (\<lambda>(k, x). (k, dec x)) (filter (\<lambda>e. start \<le> fst e) (ents t))) acc)) v"
proof -
  obtain h where r: "rep t (v_pages v) None None None h" and s: "distinct (pids t)" and root: "v_root v = top_id t"
    using inv by (auto simp: tree_inv_def safe_def)
  let ?ls = "leaves_from start t"
  have ne: "?ls \<noteq> []" "hd ?ls = leaf_for start t" using leaves_from_hd(1) by auto
  have c: "chain (v_pages v) start None ?ls" using chain_leaves_from(1) [OF r, of start] by simp
  obtain pre where pre: "leaves t = pre @ ?ls" using leaves_from_suffix(1) by blast
  have ds: "distinct (map fst ?ls)" "length ?ls \<le> 8192" using leaves_distinct(1) [OF s] n unfolding pre by auto
  obtain p es where pe: "leaf_for start t = (p, es)" by (cases "leaf_for start t")
  have es: "keys_sorted es" using leaf_for_rep(1) [OF r, of start] pe by auto
  have sp: "?ls = (p, es) # tl ?ls" using ne pe by (metis list.collapse)
  have hd: "drop (key_pos start es) es = filter (\<lambda>e. start \<le> fst e) es" using drop_key_pos [OF es] .
  have "filter (\<lambda>e. start \<le> fst e) (ents t) = filter (\<lambda>e. start \<le> fst e) (concat (map snd ?ls))"
    using leaves_from_ents(1) [OF r, of start] by simp
  also have "\<dots> = filter (\<lambda>e. start \<le> fst e) es @ concat (map snd (tl ?ls))"
    using leaves_from_tail(1) [OF r, of start] by (subst sp) (simp add: filter_id_conv)
  finally have rows: "drop (key_pos start es) es @ concat (map snd (tl ?ls)) = filter (\<lambda>e. start \<le> fst e) (ents t)" using hd by simp
  have "does (scan_hops P row start end_key f 8192 (fst (leaf_for start t)) True {} acc) v
      (True, snd (visit_list end_key f (map (\<lambda>(k, x). (k, dec x)) (filter (\<lambda>e. start \<le> fst e) (ents t))) acc)) v"
    using scan_chain [OF d c ds(1) _ ds(2) ne(1), of "{}" end_key f True acc] ne(2) pe rows by simp
  then show ?thesis using find_leaf_ok [OF r s root, of start]
    by (auto intro!: does_then [where m = "find_leaf_for_read P start"] does_then [where m = "scan_hops P row start end_key f 8192 (fst (leaf_for start t)) True {} acc"]
        does_lift simp del: scan_hops.simps)
qed

end

end
