(* ===== verification/Bptree_Mem.thy ===== *)
theory Bptree_Mem
  imports Bptree_Correct
begin

text \<open>
  The B+-tree over the in-memory provider, from a new tree on. \<open>bt_holds t m\<close> says that the tree \<open>t\<close> holds the ordered map \<open>m\<close> from keys
  to encoded leaf values. Insertion, lookup and ranges refine update, lookup and slice of \<open>m\<close>. For removal, the last part shows what
  borrowing from a sibling does to the entries: the borrowed one is lost.
\<close>

section \<open>Trees and maps\<close>

definition mem_vis :: "mem_provider tree \<Rightarrow> vis" where
  "mem_vis t = \<lparr>v_pages = mp_pages (bt_pages t), v_next = mp_next_page_id (bt_pages t), v_root = mp_root (bt_pages t), v_len = bt_len t\<rparr>"



abbreviation two_leaves :: "u64 \<Rightarrow> u64 \<Rightarrow> entry list \<Rightarrow> bytes \<Rightarrow> u64 \<Rightarrow> entry list \<Rightarrow> bt" where
  "two_leaves r a es k b fs \<equiv> Nd r (Kid (Lf a es) k (Last (Lf b fs)))"

section \<open>Trees in memory\<close>

lemma mem_root [simp]: "pv_root mem_provider_ops = mp_root"
  by (simp add: mem_provider_ops_def)

lemma mem_sees: "mem.sees t v \<longleftrightarrow> v = mem_vis t"
  by (cases v) (auto simp: mem.sees_def mem_vis_def)

lemma mem_does: "mem.does m (mem_vis t) b v' \<Longrightarrow> \<exists>t'. m t = Some (Ok b, t') \<and> mem_vis t' = v'"
  by (auto simp: mem.does_def mem_sees)

lemma mem_vis_inj: "mem_vis t = mem_vis t' \<Longrightarrow> t = t'"
  by (cases t; cases t'; cases "bt_pages t"; cases "bt_pages t'") (simp add: mem_vis_def)

lemma mem_reads: "mem.does m (mem_vis t) b (mem_vis t) \<Longrightarrow> m t = Some (Ok b, t)"
  using mem_does [of m t b "mem_vis t"] mem_vis_inj by auto








section \<open>Properties\<close>







section \<open>Borrowing from the left\<close>

lemma min_keys: "min_keys_non_root PAGE_TYPE_LEAF = 7" "min_keys_non_root PAGE_TYPE_INTERNAL = 314"
  by (simp_all add: min_keys_non_root_def max_keys_for_page_type_def entry_size_def entry_value_size_def)

context page_provider
begin

lemma collapse_stop:
  assumes "v_pages v (v_root v) = Some page" and "page_header page = Ok h" and "bh_page_type h \<noteq> PAGE_TYPE_INTERNAL \<or> bh_key_count h \<noteq> 0"
  shows "does (maybe_collapse_root_after_delete P) v () v"
  unfolding maybe_collapse_root_after_delete_def
  by (rule does_loop_stop) (use assms in \<open>auto simp: collapse_step_def intro!: does_then [OF does_root] does_then [OF does_read] does_lift\<close>)

lemma two_leaves_pages:
  assumes "rep (two_leaves r a es k b fs) (v_pages v) lo hi nxt n"
  obtains page h lpage lh bpage ch where "v_pages v r = Some page" "bt_page page h [(k, encode_child_id b)]" "bh_page_type h = PAGE_TYPE_INTERNAL" "bh_left_child h = a"
    "v_pages v a = Some lpage" "bt_page lpage lh es" "bh_page_type lh = PAGE_TYPE_LEAF" "bh_next_leaf lh = Some b"
    "v_pages v b = Some bpage" "bt_page bpage ch fs" "bh_page_type ch = PAGE_TYPE_LEAF"
  using assms by (auto simp: node_page_def leaf_page_def)

lemma borrow_left_ok:
  assumes r: "rep (two_leaves r a es k b fs) (v_pages v) None None None n" and s: "safe reserved v (two_leaves r a es k b fs)"
    and es: "7 < length es" and fs: "length fs \<le> 7" and key: "k \<le> key"
  shows "\<exists>v1. does (remove_step P key (r, hint)) v (Some (b, Some (r, 1))) v1
    \<and> rep (two_leaves r a (butlast es) (fst (last es)) b fs) (v_pages v1) None None None n \<and> v_root v1 = v_root v \<and> v_len v1 = v_len v \<and> v_next v1 = v_next v"
proof -
  let ?sep = "fst (last es)"
  obtain page h lpage lh bpage ch where p: "v_pages v r = Some page" "bt_page page h [(k, encode_child_id b)]" "bh_page_type h = PAGE_TYPE_INTERNAL" "bh_left_child h = a"
    "v_pages v a = Some lpage" "bt_page lpage lh es" "bh_page_type lh = PAGE_TYPE_LEAF" "bh_next_leaf lh = Some b"
    "v_pages v b = Some bpage" "bt_page bpage ch fs" "bh_page_type ch = PAGE_TYPE_LEAF"
    using r by (rule two_leaves_pages)
  have hd: "page_header page = Ok h" "page_header lpage = Ok lh" "page_header bpage = Ok ch" "length page = PAGE_SIZE" "length lpage = PAGE_SIZE" "length bpage = PAGE_SIZE"
    "header_ok h" "header_ok lh" "header_ok ch" using p by (auto simp: bt_page_def)
  have d: "r \<noteq> a" "r \<noteq> b" "a \<noteq> b" "r \<notin> reserved" "a \<notin> reserved" using s by (auto simp: safe_def)
  have ne: "es \<noteq> []" using es by auto
  have last: "last es \<in> set es" "length (fst (last es)) = 16" "length (snd (last es)) = 1060"
    using ne p(6,7) entries_fit_nth [of 2 es "length es - 1"] by (auto simp: last_conv_nth bt_page_def entry_value_size_def)
  have rep: "keys_sorted es" "keys_sorted fs" "\<forall>e \<in> set es. fst e < k" "\<forall>e \<in> set fs. k \<le> fst e" "a \<noteq> 0" "b \<noteq> 0" "n = 1"
    using r by (auto simp: below_def from_lo_def)
  have count: "unat (bh_key_count h) = 1" "unat (bh_key_count lh) = length es" "unat (bh_key_count ch) = length fs"
    using bt_page_count [OF p(2)] bt_page_count [OF p(6)] bt_page_count [OF p(10)] by auto
  have pos: "child_insert_pos_for_key page h key = Ok 1" "child_id_at_pos page h 1 = Ok b" "child_id_at_pos page h 0 = Ok a"
    using child_insert_pos_ok [OF p(2), of key] child_id_at_pos_ok [OF p(2,3), of 1] child_id_at_pos_ok [OF p(2,3), of 0] key p(4)
    by (auto simp: child_pos_def child_at_def)
  have bl: "butlast es @ [last es] = es" using ne by simp
  have fit: "entries_fit 2 es" "entries_fit 2 fs" using p(6,7,10,11) by (auto simp: bt_page_def)
  have fitc: "entries_fit (bh_page_type (ch\<lparr>bh_prev_leaf := Some a\<rparr>)) (last es # fs)"
    using fit last fs p(11) by (simp add: entries_fit_def entry_size_def entry_value_size_def case_prod_beta)
  have fitl: "entries_fit (bh_page_type (lh\<lparr>bh_high_key := Some ?sep\<rparr>)) (butlast es)"
    using fit(1) p(7) by (auto intro!: entries_fit_le [of 2 es] dest: in_set_butlastD)
  have fitp: "entries_fit (bh_page_type h) [(?sep, encode_child_id b)]" using last p(3) by (simp add: entries_fit_def entry_size_def entry_value_size_def)
  have hs: "header_ok (ch\<lparr>bh_prev_leaf := Some a\<rparr>)" "header_ok (lh\<lparr>bh_high_key := Some ?sep\<rparr>)" using hd(8,9) rep(5) last by (auto simp: header_ok_def)
  obtain c' where c': "encode_entries bpage (last es # fs) (ch\<lparr>bh_prev_leaf := Some a\<rparr>) = Ok c'" using encode_entries_ok [OF hd(6) hs(1) fitc] by blast
  obtain l' where l': "encode_entries lpage (butlast es) (lh\<lparr>bh_high_key := Some ?sep\<rparr>) = Ok l'"
    "bt_page l' (lh\<lparr>bh_high_key := Some ?sep, bh_key_count := word_of_nat (length (butlast es))\<rparr>) (butlast es)"
    using encode_entries_ok [OF hd(5) hs(2) fitl] by blast
  obtain p' where p': "encode_entries page [(?sep, encode_child_id b)] h = Ok p'" "bt_page p' (h\<lparr>bh_key_count := word_of_nat (length [(?sep, encode_child_id b)])\<rparr>) [(?sep, encode_child_id b)]"
    using encode_entries_ok [OF hd(4,7) fitp] by blast
  define v1 where "v1 = v\<lparr>v_pages := (v_pages v)(a \<mapsto> l', r \<mapsto> p')\<rparr>"
  have bw: "does (borrow_left P r page h [(k, encode_child_id b)] 1 bpage ch a lpage) v () v1"
    unfolding borrow_left_def v1_def using collect_entries_ok [OF p(6)] collect_entries_ok [OF p(10)] p(11) hd c' l'(1) p'(1) ne last(2)
      does_write [OF d(4), of p' "v\<lparr>v_pages := (v_pages v)(a \<mapsto> l')\<rparr>"]
    by (auto simp: vec_pop_def vec_set_key_def key_to_high_key_def write_parent_def intro!: does_then [OF does_write [OF d(5)]])
  have rb: "does (rebalance P r page h 1 b bpage ch) v (Some (b, Some (r, 1))) v1"
    unfolding rebalance_def using p(3,11) hd(1-3) pos count es collect_entries_ok [OF p(2)] min_keys
    by (auto intro!: does_then [OF does_require [OF p(5)]] does_then [OF bw [simplified]] does_lift)
  have "does (remove_step P key (r, hint)) v (Some (b, Some (r, 1))) v1"
    unfolding remove_step_def using p(3,11) hd(1-3) pos count fs min_keys
    by (auto intro!: does_then [OF does_read [OF p(1)]] does_then [OF does_require [OF p(9)]] does_then [OF rb [simplified]] does_lift)
  moreover have "leaf_page (v_pages v1) a (Some ?sep) (Some b) (butlast es)"
    unfolding leaf_page_def v1_def using l'(2) p(7,8) d by force
  then have "\<exists>hk. hk_ok hk (Some ?sep) \<and> leaf_page (v_pages v1) a hk (Some b) (butlast es)" using hk_ok_refl by blast
  moreover have "node_page (v_pages v1) r (Kid (Lf a (butlast es)) ?sep (Last (Lf b fs)))"
    unfolding node_page_def v1_def using p'(2) p(3,4) by force
  moreover have "\<exists>hk. hk_ok hk None \<and> leaf_page (v_pages v1) b hk None fs" using r d by (auto simp: leaf_page_def v1_def)
  moreover have "keys_sorted (butlast es)" "\<forall>e \<in> set (butlast es). fst e < ?sep"
    using rep(1) keys_sorted_append [of "butlast es" "[last es]"] unfolding bl by auto
  moreover have "\<forall>e \<in> set fs. ?sep \<le> fst e" using rep(3,4) last(1) by (auto intro: less_imp_le less_le_trans)
  ultimately show ?thesis using rep(2,5-7) by (intro exI [of _ v1]) (auto simp: below_def from_lo_def v1_def)
qed

lemma remove_absent_leaf:
  assumes "v_pages v b = Some page" and "bt_page page h fs" and "bh_page_type h = PAGE_TYPE_LEAF" and "keys_sorted fs" and "key \<notin> fst ` set fs"
    and "does (maybe_collapse_root_after_delete P) v () v"
  shows "does (remove_step P key (b, hint)) v None v"
  unfolding remove_step_def remove_at_leaf_def
  using assms(3,6) bt_page_header [OF assms(2)] find_key_pos_ok [OF assms(2,4), of key] assms(5)
  by (auto intro!: does_then [OF does_read [OF assms(1)]] does_then [OF assms(6)] does_lift)

lemma remove_borrow_ok:
  assumes r: "rep (two_leaves r a es k b fs) (v_pages v) None None None n" and s: "safe reserved v (two_leaves r a es k b fs)"
    and root: "v_root v = r" and es: "7 < length es" and fs: "length fs \<le> 7" and key: "k \<le> key" "key \<notin> fst ` set fs" "length key = KEY_SIZE"
  shows "\<exists>v1. does (bt_remove P key) v () v1 \<and> rep (two_leaves r a (butlast es) (fst (last es)) b fs) (v_pages v1) None None None n
    \<and> v_root v1 = r \<and> v_len v1 = v_len v"
proof -
  obtain v1 where x: "does (remove_step P key (r, None)) v (Some (b, Some (r, 1))) v1"
    "rep (two_leaves r a (butlast es) (fst (last es)) b fs) (v_pages v1) None None None n" "v_root v1 = v_root v" "v_len v1 = v_len v"
    using borrow_left_ok [OF r s es fs key(1)] by blast
  obtain page h lpage lh bpage ch where p: "v_pages v1 r = Some page" "bt_page page h [(fst (last es), encode_child_id b)]" "bh_page_type h = PAGE_TYPE_INTERNAL" "bh_left_child h = a"
    "v_pages v1 a = Some lpage" "bt_page lpage lh (butlast es)" "bh_page_type lh = PAGE_TYPE_LEAF" "bh_next_leaf lh = Some b"
    "v_pages v1 b = Some bpage" "bt_page bpage ch fs" "bh_page_type ch = PAGE_TYPE_LEAF"
    using x(2) by (rule two_leaves_pages)
  have "bh_key_count h \<noteq> 0" using bt_page_count [OF p(2)] by auto
  then have "does (maybe_collapse_root_after_delete P) v1 () v1" using collapse_stop [of v1 page h] p(1) bt_page_header [OF p(2)] x(3) root by simp
  then have "does (remove_step P key (b, Some (r, 1))) v1 None v1" using remove_absent_leaf [OF p(9-11)] x(2) key(2) by simp
  then have "does (run_loop (remove_step P key) (r, None)) v () v1"
    using does_loop_step [of "remove_step P key" "(r, None)"] does_loop_stop [of "remove_step P key" "(b, Some (r, 1))"] x(1) by blast
  then have "does (bt_remove P key) v () v1" unfolding bt_remove_def using key(3) root by (auto intro!: does_then [OF does_root])
  then show ?thesis using x(2-4) root by auto
qed

end

lemma prefix_key_less: "(xs @ [a] :: bytes) < xs @ [b] \<longleftrightarrow> a < b"
  by (induction xs) auto

lemma prefix_key_le: "(xs @ [a] :: bytes) \<le> xs @ [b] \<longleftrightarrow> a \<le> b"
  using prefix_key_less [of xs b a] by (metis not_le)

lemma blank_page_with:
  assumes "header_ok h" and "entries_fit (bh_page_type h) es"
  shows "\<exists>p. bt_page p (h\<lparr>bh_key_count := word_of_nat (length es)\<rparr>) es"
  using encode_entries_ok [of "replicate 16384 0" h es] assms by auto

lemma two_leaves_exist:
  assumes "entries_fit PAGE_TYPE_LEAF es" and "entries_fit PAGE_TYPE_LEAF fs" and "keys_sorted es" and "keys_sorted fs" and "length k = KEY_SIZE"
    and "\<forall>e \<in> set es. fst e < k" and "\<forall>e \<in> set fs. k \<le> fst e"
  shows "\<exists>t. tree_inv {} (mem_vis t) (two_leaves 3 1 es k 2 fs)"
proof -
  let ?h = "\<lparr>bh_page_type = 2, bh_level = 0, bh_key_count = 0, bh_prev_leaf = None, bh_next_leaf = Some 2, bh_left_child = 0, bh_high_key = Some k\<rparr>"
  let ?g = "\<lparr>bh_page_type = 2, bh_level = 0, bh_key_count = 0, bh_prev_leaf = Some 1, bh_next_leaf = None, bh_left_child = 0, bh_high_key = None\<rparr>"
  let ?i = "\<lparr>bh_page_type = 1, bh_level = 1, bh_key_count = 0, bh_prev_leaf = None, bh_next_leaf = None, bh_left_child = 1, bh_high_key = None\<rparr>"
  obtain p1 where p1: "bt_page p1 (?h\<lparr>bh_key_count := word_of_nat (length es)\<rparr>) es"
    using blank_page_with [of ?h es] assms(1,5) by (auto simp: header_ok_def)
  obtain p2 where p2: "bt_page p2 (?g\<lparr>bh_key_count := word_of_nat (length fs)\<rparr>) fs"
    using blank_page_with [of ?g fs] assms(2) by (auto simp: header_ok_def)
  obtain p3 where p3: "bt_page p3 (?i\<lparr>bh_key_count := word_of_nat (length [(k, encode_child_id 2)])\<rparr>) [(k, encode_child_id 2)]"
    using blank_page_with [of ?i "[(k, encode_child_id 2)]"] assms(5) by (auto simp: header_ok_def entries_fit_def entry_size_def entry_value_size_def)
  define t where "t = \<lparr>bt_pages = \<lparr>mp_pages = [1 \<mapsto> p1, 2 \<mapsto> p2, 3 \<mapsto> p3], mp_next_page_id = 4, mp_root = 3\<rparr>, bt_len = word_of_nat (length es + length fs)\<rparr>"
  have "leaf_page (v_pages (mem_vis t)) 1 (Some k) (Some 2) es" unfolding leaf_page_def using p1 by (force simp: mem_vis_def t_def)
  then have 1: "\<exists>hk. hk_ok hk (Some k) \<and> leaf_page (v_pages (mem_vis t)) 1 hk (Some 2) es" using hk_ok_refl by blast
  have "leaf_page (v_pages (mem_vis t)) 2 None None fs" unfolding leaf_page_def using p2 by (force simp: mem_vis_def t_def)
  then have 2: "\<exists>hk. hk_ok hk None \<and> leaf_page (v_pages (mem_vis t)) 2 hk None fs" using hk_ok_refl by blast
  have "node_page (v_pages (mem_vis t)) 3 (Kid (Lf 1 es) k (Last (Lf 2 fs)))" unfolding node_page_def using p3 by (force simp: mem_vis_def t_def)
  then have "rep (two_leaves 3 1 es k 2 fs) (v_pages (mem_vis t)) None None None 1"
    using 1 2 assms(3,4,6,7) by (auto simp: below_def from_lo_def)
  then have "\<exists>n. rep (two_leaves 3 1 es k 2 fs) (v_pages (mem_vis t)) None None None n" by blast
  moreover have "safe {} (mem_vis t) (two_leaves 3 1 es k 2 fs)" "v_root (mem_vis t) = 3" "v_len (mem_vis t) = word_of_nat (length (es @ fs))"
    by (auto simp: safe_def mem_vis_def t_def)
  ultimately have "tree_inv {} (mem_vis t) (two_leaves 3 1 es k 2 fs)" unfolding tree_inv_def by (intro conjI) (simp_all del: rep.simps)
  then show ?thesis by blast
qed

text \<open>C36: Removing a key that is not in the tree can lose another entry. When the leaf on the way has at most the minimum of keys and its left
  sibling has more, the last entry of the sibling is taken out of it and put into the page of the leaf, but that page is never
  written: the removal succeeds, a lookup of the borrowed key found its value before and finds nothing after, and the count is
  unchanged.\<close>

theorem bptree_remove_loses_borrowed:
  assumes "tree_inv {} (mem_vis t) (two_leaves r a es k b fs)" and "min_keys_non_root PAGE_TYPE_LEAF < length es" and "length fs \<le> min_keys_non_root PAGE_TYPE_LEAF"
    and "k \<le> key" and "key \<notin> fst ` set fs" and "length key = KEY_SIZE"
  shows "\<exists>t'. bt_remove mem_provider_ops key t = Some (Ok (), t') \<and> bt_len t' = bt_len t
    \<and> bt_get mem_provider_ops (fst (last es)) t = Some (Ok (Some (leaf_of (snd (last es)))), t)
    \<and> bt_get mem_provider_ops (fst (last es)) t' = Some (Ok None, t')"
proof -
  obtain n where r: "rep (two_leaves r a es k b fs) (v_pages (mem_vis t)) None None None n" and s: "safe {} (mem_vis t) (two_leaves r a es k b fs)"
    and root: "v_root (mem_vis t) = r" using assms(1) by (auto simp: tree_inv_def simp del: rep.simps)
  have es: "7 < length es" "length fs \<le> 7" using assms(2,3) min_keys by auto
  obtain v1 where x: "mem.does (bt_remove mem_provider_ops key) (mem_vis t) () v1"
    "rep (two_leaves r a (butlast es) (fst (last es)) b fs) (v_pages v1) None None None n" "v_root v1 = r" "v_len v1 = v_len (mem_vis t)"
    using mem.remove_borrow_ok [OF r s root es assms(4-6)] by blast
  obtain t' where t': "bt_remove mem_provider_ops key t = Some (Ok (), t')" "mem_vis t' = v1" using mem_does [OF x(1)] by blast
  let ?k = "fst (last es)" and ?b = "two_leaves r a es k b fs" and ?b' = "two_leaves r a (butlast es) (fst (last es)) b fs"
  have ne: "es \<noteq> []" using es by auto
  have bl: "butlast es @ [last es] = es" using ne by simp
  have d: "distinct (pids ?b)" "distinct (pids ?b')" using s by (auto simp: safe_def)
  have so: "keys_sorted (es @ fs)" using rep_entries(1) [OF r] by simp
  have ds: "distinct (map fst (es @ fs))" using so strict_sorted_iff by blast
  have "map_of (ents ?b) ?k = Some (snd (last es))"
    using ds last_in_set [OF ne] by (intro map_of_is_SomeI) auto
  then have g1: "bt_get mem_provider_ops ?k t = Some (Ok (Some (leaf_of (snd (last es)))), t)"
    using mem.get_ok [OF r d(1), of ?k] root by (intro mem_reads) simp
  have "keys_sorted (butlast es @ [last es] @ fs)" using so bl by (metis append.assoc)
  then have "map_of (ents ?b') ?k = None" by (intro map_of_bounds) (auto simp: sorted_wrt_append)
  then have g2: "bt_get mem_provider_ops ?k t' = Some (Ok None, t')"
    using mem.get_ok [OF x(2) d(2), of ?k] x(3) t'(2) by (intro mem_reads) (simp add: map_add_def)
  have "bt_len t' = bt_len t" using x(4) unfolding t'(2) [symmetric] by (simp add: mem_vis_def)
  then show ?thesis using t'(1) g1 g2 by blast
qed

theorem bptree_remove_loses_borrowed_witness:
  "\<exists>t t'. bt_remove mem_provider_ops (replicate 15 0 @ [10]) t = Some (Ok (), t') \<and> bt_get mem_provider_ops (replicate 15 0 @ [7]) t' = Some (Ok None, t')"
proof -
  define z where "z = replicate 15 (0 :: byte)"
  have z: "length z = 15" by (simp add: z_def)
  define e where "e i = (z @ [i], replicate 1060 (0 :: byte))" for i
  let ?es = "map e [0, 1, 2, 3, 4, 5, 6, 7]" and ?fs = "map e [9]"
  have e: "length (fst (e i)) = 16" "length (snd (e i)) = 1060" "fst (e i) = z @ [i]" for i by (simp_all add: e_def z_def)
  have fit: "entries_fit 2 (map e is)" if "length is \<le> 15" for "is"
    using that e by (auto simp: entries_fit_def entry_size_def entry_value_size_def case_prod_unfold)
  obtain t where t: "tree_inv {} (mem_vis t) (two_leaves 3 1 ?es (z @ [8]) 2 ?fs)"
    using two_leaves_exist [OF fit fit, of "[0, 1, 2, 3, 4, 5, 6, 7]" "[9]" "z @ [8]"] by (auto simp: e prefix_key_less prefix_key_le z)
  have "min_keys_non_root 2 < length ?es" "length ?fs \<le> min_keys_non_root 2" by (simp_all add: min_keys)
  moreover have "z @ [8] \<le> z @ [10]" "z @ [10] \<notin> fst ` set ?fs" "length (z @ [10]) = 16" using z by (simp_all add: e prefix_key_le)
  ultimately obtain t' where "bt_remove mem_provider_ops (z @ [10]) t = Some (Ok (), t')" "bt_get mem_provider_ops (fst (last ?es)) t' = Some (Ok None, t')"
    using bptree_remove_loses_borrowed [OF t] by blast
  then show ?thesis unfolding z_def [symmetric] by (auto simp: e)
qed

end
