(* ===== verification/Secondary_Index.thy ===== *)
theory Secondary_Index
  imports Common Ordered_Map
begin

text \<open>
  The secondary indexes of the embedded engine (\<open>secondary_index.rs\<close>). An index is over a byte range of the value; for every
  secondary key it keeps, per primary key, the history of membership as versions by commit LSN.

  A name is its UTF-8 bytes. The manager is a map from names to index states; where the source iterates over its hash map, the
  states are an argument \<open>vals\<close> in whatever order the iteration gives, and \<open>iterates\<close> says that they are those of the map.
  \<open>usize\<close> additions on values that the caller chooses are checked, and so is the capacity that \<open>Vec::with_capacity\<close> reserves for
  the primary keys of a query, which panics when it exceeds \<open>isize::MAX\<close> bytes.

  The lemmas show that the postings follow the rows: after any sequence of row changes in commit order, planned and applied one
  by one, a query at an LSN gives, in ascending order, the primary keys whose row at that LSN has the secondary key.
\<close>

section \<open>State\<close>

datatype index_kind = Btree nat nat

record index_def =
  id_name :: bytes
  id_kind :: index_kind

record index_mutation =
  mu_index_name :: bytes
  mu_secondary_key :: bytes
  mu_primary_key :: bytes
  mu_present :: bool

record posting_version =
  po_commit_lsn :: u64
  po_present :: bool

type_synonym btree_state = "(bytes, (bytes, posting_version list) omap) omap"

record index_state =
  ix_def :: index_def
  ix_postings :: btree_state

type_synonym index_manager = "bytes \<rightharpoonup> index_state"

definition show_bytes :: "bytes \<Rightarrow> string" where
  "show_bytes b = map (\<lambda>x. char_of (unat x)) b"

definition usize_add :: "nat \<Rightarrow> nat \<Rightarrow> nat res" where
  "usize_add a b = (if a + b < 2 ^ 64 then Ok (a + b) else Panic)"

definition out_of_bounds :: "nat \<Rightarrow> nat \<Rightarrow> 'a res" where
  "out_of_bounds off n =
    invalid_input (''secondary index range out of bounds: offset='' @ show_nat off @ '' len='' @ show_nat n @ '' value_size='' @ show_nat VALUE_SIZE)"

definition index_new :: "index_def \<Rightarrow> index_state" where
  "index_new d = \<lparr>ix_def = d, ix_postings = []\<rparr>"

section \<open>Definitions of indexes\<close>

fun build_indexes :: "index_manager \<Rightarrow> index_def list \<Rightarrow> index_manager res" where
  "build_indexes new_map [] = Ok new_map"
| "build_indexes new_map (d # defs) =
    (if id_name d = [] then invalid_input ''index name must be non-empty''
     else if new_map (id_name d) \<noteq> None then invalid_input (''duplicate index name: '' @ show_bytes (id_name d))
     else case id_kind d of Btree value_offset value_len \<Rightarrow>
       res_bind (if value_len = 0 \<or> value_offset \<ge> VALUE_SIZE then Ok True
                 else res_bind (usize_add value_offset value_len) (\<lambda>e. Ok (e > VALUE_SIZE))) (\<lambda>bad.
       if bad then out_of_bounds value_offset value_len
       else build_indexes (new_map(id_name d \<mapsto> index_new d)) defs))"

definition replace_definitions :: "index_manager \<Rightarrow> index_def list \<Rightarrow> unit res \<times> index_manager" where
  "replace_definitions m defs =
    (case build_indexes Map.empty defs of Ok new_map \<Rightarrow> (Ok (), new_map) | Err e \<Rightarrow> (Err e, m) | Panic \<Rightarrow> (Panic, m))"

definition create_btree_index :: "index_manager \<Rightarrow> bytes \<Rightarrow> nat \<Rightarrow> nat \<Rightarrow> unit res \<times> index_manager" where
  "create_btree_index m name value_offset value_len =
    (if name = [] then (invalid_input ''index name must be non-empty'', m)
     else if value_len = 0 then (invalid_input ''value_len must be > 0'', m)
     else if value_offset \<ge> VALUE_SIZE then (out_of_bounds value_offset value_len, m)
     else case usize_add value_offset value_len of
       Ok e \<Rightarrow>
         if e > VALUE_SIZE then (out_of_bounds value_offset value_len, m)
         else if m name \<noteq> None then (Err (Io AlreadyExists (''secondary index already exists: '' @ show_bytes name)), m)
         else (Ok (), m(name \<mapsto> index_new \<lparr>id_name = name, id_kind = Btree value_offset value_len\<rparr>))
     | Err err \<Rightarrow> (Err err, m)
     | Panic \<Rightarrow> (Panic, m))"

definition drop_index :: "index_manager \<Rightarrow> bytes \<Rightarrow> bool \<times> index_manager" where
  "drop_index m name = (m name \<noteq> None, m(name := None))"

definition list_indexes :: "index_state list \<Rightarrow> index_def list" where
  "list_indexes vals = sort_key id_name (map ix_def vals)"

section \<open>Row changes\<close>

definition key_slice :: "nat \<Rightarrow> nat \<Rightarrow> bytes option \<Rightarrow> bytes option res" where
  "key_slice value_offset value_len v =
    (case v of None \<Rightarrow> Ok None | Some b \<Rightarrow> res_map Some (get_slice b value_offset (value_offset + value_len)))"

definition plan_one :: "bytes \<Rightarrow> bytes option \<Rightarrow> bytes option \<Rightarrow> index_def \<Rightarrow> index_mutation list res" where
  "plan_one pk old_value new_value d =
    (case id_kind d of Btree value_offset value_len \<Rightarrow>
     res_bind (key_slice value_offset value_len old_value) (\<lambda>old_key. res_bind (key_slice value_offset value_len new_value) (\<lambda>new_key.
     if old_key = new_key then Ok []
     else Ok ((case old_key of None \<Rightarrow> [] | Some k \<Rightarrow> [\<lparr>mu_index_name = id_name d, mu_secondary_key = k, mu_primary_key = pk, mu_present = False\<rparr>])
       @ (case new_key of None \<Rightarrow> [] | Some k \<Rightarrow> [\<lparr>mu_index_name = id_name d, mu_secondary_key = k, mu_primary_key = pk, mu_present = True\<rparr>])))))"

fun plan_mutations :: "bytes \<Rightarrow> bytes option \<Rightarrow> bytes option \<Rightarrow> index_state list \<Rightarrow> index_mutation list res" where
  "plan_mutations pk old_value new_value [] = Ok []"
| "plan_mutations pk old_value new_value (st # vals) =
    res_bind (plan_one pk old_value new_value (ix_def st)) (\<lambda>ms. res_map (\<lambda>rest. ms @ rest) (plan_mutations pk old_value new_value vals))"

definition push_version :: "u64 \<Rightarrow> bool \<Rightarrow> posting_version list \<Rightarrow> posting_version list" where
  "push_version commit_lsn present history =
    (if history \<noteq> [] \<and> po_commit_lsn (last history) = commit_lsn then butlast history @ [(last history)\<lparr>po_present := present\<rparr>]
     else history @ [\<lparr>po_commit_lsn = commit_lsn, po_present = present\<rparr>])"

definition apply_mutation :: "u64 \<Rightarrow> index_mutation \<Rightarrow> index_manager \<Rightarrow> index_manager" where
  "apply_mutation commit_lsn mu m =
    (case m (mu_index_name mu) of None \<Rightarrow> m | Some st \<Rightarrow>
     m(mu_index_name mu \<mapsto> st\<lparr>ix_postings := om_entry (mu_secondary_key mu) []
       (\<lambda>by_pk. om_entry (mu_primary_key mu) [] (push_version commit_lsn (mu_present mu)) by_pk) (ix_postings st)\<rparr>))"

definition apply_commit :: "u64 \<Rightarrow> index_mutation list \<Rightarrow> index_manager \<Rightarrow> index_manager" where
  "apply_commit commit_lsn mutations m = fold (apply_mutation commit_lsn) mutations m"

section \<open>Queries\<close>

definition partition_point :: "('a \<Rightarrow> bool) \<Rightarrow> 'a list \<Rightarrow> nat" where
  "partition_point Q xs = length (takeWhile Q xs)"

definition visible_membership :: "posting_version list \<Rightarrow> u64 \<Rightarrow> bool" where
  "visible_membership versions read_lsn =
    (if versions = [] then False
     else let idx = partition_point (\<lambda>v. po_commit_lsn v \<le> read_lsn) versions in
       if idx = 0 then False else po_present (versions ! (idx - 1)))"

definition query_equal :: "index_manager \<Rightarrow> bytes \<Rightarrow> bytes \<Rightarrow> u64 \<Rightarrow> nat \<Rightarrow> bytes list res" where
  "query_equal m index_name secondary_key read_lsn limit =
    (if limit = 0 then Ok []
     else case m index_name of
       None \<Rightarrow> Err (Io NotFound (''secondary index not found: '' @ show_bytes index_name))
     | Some st \<Rightarrow> if limit * KEY_SIZE \<ge> 2 ^ 63 then Panic else (case om_lookup (ix_postings st) secondary_key of
         None \<Rightarrow> Ok []
       | Some by_pk \<Rightarrow> Ok (take limit (map fst (filter (\<lambda>(pk, versions). visible_membership versions read_lsn) by_pk)))))"

section \<open>The rows behind an index\<close>

text \<open>The states an iteration over the map gives, in some order.\<close>

definition iterates :: "index_state list \<Rightarrow> index_manager \<Rightarrow> bool" where
  "iterates vals m \<longleftrightarrow> distinct (map (\<lambda>st. id_name (ix_def st)) vals) \<and> (\<forall>name st. m name = Some st \<longleftrightarrow> st \<in> set vals \<and> id_name (ix_def st) = name)"

text \<open>A row change: its commit LSN, the primary key and the new value, \<open>None\<close> for a deletion. \<open>row_at\<close> is the row at an LSN.\<close>

type_synonym row_change = "u64 \<times> bytes \<times> bytes option"

definition row_at :: "row_change list \<Rightarrow> u64 \<Rightarrow> bytes \<Rightarrow> bytes option" where
  "row_at evs lsn pk = fold (\<lambda>(l, p, v) r. if l \<le> lsn \<and> p = pk then v else r) evs None"

text \<open>One change after the other: planned against the current row, then applied. \<open>order\<close> gives the order of iteration.\<close>

fun change_rows :: "(index_manager \<Rightarrow> index_state list) \<Rightarrow> index_manager \<Rightarrow> (bytes \<rightharpoonup> bytes) \<Rightarrow> row_change list \<Rightarrow> index_manager res" where
  "change_rows order m rows [] = Ok m"
| "change_rows order m rows ((lsn, pk, v) # evs) =
    res_bind (plan_mutations pk (rows pk) v (order m)) (\<lambda>ms. change_rows order (apply_commit lsn ms m) (rows(pk := v)) evs)"

definition history :: "btree_state \<Rightarrow> bytes \<Rightarrow> bytes \<Rightarrow> posting_version list" where
  "history ps sk pk = (case om_lookup ps sk of None \<Rightarrow> [] | Some by_pk \<Rightarrow> (case om_lookup by_pk pk of None \<Rightarrow> [] | Some h \<Rightarrow> h))"

definition has_key :: "nat \<Rightarrow> nat \<Rightarrow> bytes \<Rightarrow> bytes option \<Rightarrow> bool" where
  "has_key off n sk v \<longleftrightarrow> map_option (\<lambda>b. get_at b off n) v = Some sk"

definition lsn_sorted :: "posting_version list \<Rightarrow> bool" where
  "lsn_sorted h \<longleftrightarrow> sorted_wrt (<) (map po_commit_lsn h)"

definition push_posting :: "u64 \<Rightarrow> bytes \<Rightarrow> bytes \<Rightarrow> bool \<Rightarrow> btree_state \<Rightarrow> btree_state" where
  "push_posting lsn sk pk p ps = om_entry sk [] (\<lambda>by_pk. om_entry pk [] (push_version lsn p) by_pk) ps"

definition postings_wf :: "btree_state \<Rightarrow> bool" where
  "postings_wf ps \<longleftrightarrow> om_wf ps \<and> (\<forall>sk by_pk. om_lookup ps sk = Some by_pk \<longrightarrow> om_wf by_pk)"

text \<open>The postings of an index over \<open>off\<close> and \<open>n\<close> follow the changes \<open>evs\<close>, all of which are at or below \<open>l\<close>.\<close>

definition tracks :: "nat \<Rightarrow> nat \<Rightarrow> btree_state \<Rightarrow> row_change list \<Rightarrow> u64 \<Rightarrow> bool" where
  "tracks off n ps evs l \<longleftrightarrow> postings_wf ps \<and> (\<forall>sk pk. lsn_sorted (history ps sk pk) \<and> (\<forall>v \<in> set (history ps sk pk). po_commit_lsn v \<le> l)
     \<and> (\<forall>lsn. visible_membership (history ps sk pk) lsn \<longleftrightarrow> has_key off n sk (row_at evs lsn pk)))"

definition push_change :: "u64 \<Rightarrow> bytes \<Rightarrow> bytes option \<Rightarrow> bytes option \<Rightarrow> btree_state \<Rightarrow> btree_state" where
  "push_change l pk old new ps =
    (if old = new then ps
     else (case new of None \<Rightarrow> id | Some k \<Rightarrow> push_posting l k pk True) ((case old of None \<Rightarrow> id | Some k \<Rightarrow> push_posting l k pk False) ps))"

text \<open>What the checks of \<open>replace_definitions\<close> and \<open>create_btree_index\<close> establish and the operations keep.\<close>

definition range_ok :: "index_kind \<Rightarrow> bool" where
  "range_ok k = (case k of Btree off n \<Rightarrow> 0 < n \<and> off + n \<le> VALUE_SIZE)"

definition index_ok :: "bytes \<Rightarrow> index_state \<Rightarrow> bool" where
  "index_ok name st \<longleftrightarrow> name \<noteq> [] \<and> id_name (ix_def st) = name \<and> range_ok (id_kind (ix_def st)) \<and> postings_wf (ix_postings st)"

definition manager_wf :: "index_manager \<Rightarrow> bool" where
  "manager_wf m \<longleftrightarrow> finite (dom m) \<and> (\<forall>name st. m name = Some st \<longrightarrow> index_ok name st)"

definition slice_of :: "index_kind \<Rightarrow> bytes option \<Rightarrow> bytes option" where
  "slice_of k v = (case k of Btree off n \<Rightarrow> map_option (\<lambda>b. get_at b off n) v)"

definition row_ok :: "bytes option \<Rightarrow> bool" where
  "row_ok v \<longleftrightarrow> (\<forall>b. v = Some b \<longrightarrow> length b = VALUE_SIZE)"

text \<open>Row changes in commit order: no LSN goes back, and every value has the size of a value.\<close>

definition in_order :: "u64 \<Rightarrow> row_change list \<Rightarrow> bool" where
  "in_order l evs \<longleftrightarrow> sorted (l # map fst evs) \<and> (\<forall>(_, _, v) \<in> set evs. row_ok v)"

definition iteration_order :: "(index_manager \<Rightarrow> index_state list) \<Rightarrow> bool" where
  "iteration_order order \<longleftrightarrow> (\<forall>m. manager_wf m \<longrightarrow> iterates (order m) m)"

definition name_order :: "index_manager \<Rightarrow> index_state list" where
  "name_order m = map (\<lambda>name. the (m name)) (sorted_list_of_set (dom m))"

section \<open>Histories\<close>

lemma membership_snoc:
  assumes "lsn_sorted (h @ [v])"
  shows "visible_membership (h @ [v]) lsn = (if po_commit_lsn v \<le> lsn then po_present v else visible_membership h lsn)"
proof (cases "po_commit_lsn v \<le> lsn")
  case True
  then have "\<forall>x \<in> set h. po_commit_lsn x \<le> lsn" using assms by (fastforce simp: lsn_sorted_def sorted_wrt_append)
  then have "takeWhile (\<lambda>v. po_commit_lsn v \<le> lsn) (h @ [v]) = h @ [v]" using True by (simp add: takeWhile_eq_all_conv)
  then show ?thesis using True by (simp add: visible_membership_def partition_point_def)
next
  case False
  have "takeWhile (\<lambda>v. po_commit_lsn v \<le> lsn) (h @ [v]) = takeWhile (\<lambda>v. po_commit_lsn v \<le> lsn) h"
    using False by (induction h) auto
  moreover have "length (takeWhile (\<lambda>v. po_commit_lsn v \<le> lsn) h) - 1 < length h" if "h \<noteq> []"
  proof -
    have "length (takeWhile (\<lambda>v. po_commit_lsn v \<le> lsn) h) \<le> length h" "0 < length h" using that by (simp_all add: length_takeWhile_le)
    then show ?thesis by linarith
  qed
  ultimately show ?thesis using False by (cases "h = []") (auto simp: visible_membership_def partition_point_def Let_def nth_append)
qed

lemma visible_push:
  assumes "lsn_sorted h" and "\<forall>v \<in> set h. po_commit_lsn v \<le> l"
  shows "lsn_sorted (push_version l p h)" and "\<forall>v \<in> set (push_version l p h). po_commit_lsn v \<le> l"
    and "visible_membership (push_version l p h) lsn = (if l \<le> lsn then p else visible_membership h lsn)"
proof -
  have "lsn_sorted (push_version l p h) \<and> (\<forall>v \<in> set (push_version l p h). po_commit_lsn v \<le> l)
    \<and> visible_membership (push_version l p h) lsn = (if l \<le> lsn then p else visible_membership h lsn)"
  proof (cases "h \<noteq> [] \<and> po_commit_lsn (last h) = l")
    case True
    let ?g = "butlast h" and ?v = "last h"
    have h: "h = ?g @ [?v]" using True by simp
    have s: "lsn_sorted (?g @ [?v])" using assms(1) h by simp
    then have s': "lsn_sorted (?g @ [?v\<lparr>po_present := p\<rparr>])" by (simp add: lsn_sorted_def)
    have "push_version l p h = ?g @ [?v\<lparr>po_present := p\<rparr>]" using True by (simp add: push_version_def)
    moreover have "visible_membership h lsn = visible_membership ?g lsn" if "\<not> l \<le> lsn" using membership_snoc [OF s, of lsn] that True h by simp
    ultimately show ?thesis using membership_snoc [OF s', of lsn] s' True assms(2) by (auto dest: in_set_butlastD)
  next
    case False
    have "\<forall>v \<in> set h. po_commit_lsn v < l"
    proof
      fix v assume v: "v \<in> set h"
      then have "h \<noteq> []" by auto
      then have h: "h = butlast h @ [last h]" by simp
      have "po_commit_lsn (last h) < l" using False assms(2) \<open>h \<noteq> []\<close> last_in_set [OF \<open>h \<noteq> []\<close>] by (auto simp: less_le)
      moreover have "po_commit_lsn v \<le> po_commit_lsn (last h)"
        using v assms(1) unfolding lsn_sorted_def by (subst (asm) (1 2) h) (auto simp: sorted_wrt_append)
      ultimately show "po_commit_lsn v < l" by simp
    qed
    then have "lsn_sorted (h @ [\<lparr>po_commit_lsn = l, po_present = p\<rparr>])" using assms(1) by (auto simp: lsn_sorted_def sorted_wrt_append)
    moreover have "push_version l p h = h @ [\<lparr>po_commit_lsn = l, po_present = p\<rparr>]" using False by (auto simp: push_version_def)
    ultimately show ?thesis using membership_snoc [of h "\<lparr>po_commit_lsn = l, po_present = p\<rparr>" lsn] assms(2) by auto
  qed
  then show "lsn_sorted (push_version l p h)" "\<forall>v \<in> set (push_version l p h). po_commit_lsn v \<le> l"
    "visible_membership (push_version l p h) lsn = (if l \<le> lsn then p else visible_membership h lsn)" by auto
qed

lemma visible_Nil [simp]: "\<not> visible_membership [] lsn"
  by (simp add: visible_membership_def)

section \<open>Postings\<close>

lemma history_push:
  "history (push_posting lsn sk pk p ps) sk' pk' = (if sk' = sk \<and> pk' = pk then push_version lsn p (history ps sk pk) else history ps sk' pk')"
  by (auto simp: history_def push_posting_def om_lookup_entry split: option.splits)

lemma postings_wf_push: "postings_wf ps \<Longrightarrow> postings_wf (push_posting lsn sk pk p ps)"
  by (auto simp: postings_wf_def push_posting_def om_lookup_entry om_wf_entry split: option.splits)

lemma row_at_snoc: "row_at (evs @ [(l, p, v)]) lsn pk = (if l \<le> lsn \<and> p = pk then v else row_at evs lsn pk)"
  by (simp add: row_at_def)

lemma row_at_top: "\<forall>(l', _, _) \<in> set evs. l' \<le> l \<Longrightarrow> l \<le> lsn \<Longrightarrow> row_at evs lsn pk = row_at evs l pk"
proof -
  assume a: "\<forall>(l', _, _) \<in> set evs. l' \<le> l" "l \<le> lsn"
  have "fold (\<lambda>(l, p, v) r. if l \<le> lsn \<and> p = pk then v else r) evs r = fold (\<lambda>(l', p, v) r. if l' \<le> l \<and> p = pk then v else r) evs r" for r
    using a by (intro List.fold_cong refl ext) (auto dest!: bspec intro: order.trans)
  then show ?thesis by (simp add: row_at_def)
qed

lemma tracks_step:
  assumes t: "tracks off n ps evs l" and le: "l \<le> l'" and evs: "\<forall>(l'', _, _) \<in> set evs. l'' \<le> l"
  shows "tracks off n (push_change l' pk (map_option (\<lambda>b. get_at b off n) (row_at evs l pk)) (map_option (\<lambda>b. get_at b off n) v) ps) (evs @ [(l', pk, v)]) l'"
proof -
  let ?old = "map_option (\<lambda>b. get_at b off n) (row_at evs l pk)" and ?new = "map_option (\<lambda>b. get_at b off n) v"
  let ?ps = "push_change l' pk ?old ?new ps"
  have h: "lsn_sorted (history ps sk q)" "\<forall>v \<in> set (history ps sk q). po_commit_lsn v \<le> l'"
    "visible_membership (history ps sk q) lsn \<longleftrightarrow> has_key off n sk (row_at evs lsn q)" for sk q lsn
    using t le by (auto simp: tracks_def intro: order.trans)
  have top: "row_at evs lsn pk = row_at evs l pk" if "l' \<le> lsn" for lsn using row_at_top [OF evs] le that by (meson order.trans)
  have hist: "history ?ps sk q = (if ?old \<noteq> ?new \<and> q = pk \<and> (?old = Some sk \<or> ?new = Some sk) then push_version l' (?new = Some sk) (history ps sk q) else history ps sk q)" for sk q
    by (auto simp: push_change_def history_push split: option.splits)
  define g where "g = map_option (\<lambda>b :: bytes. get_at b off n)"
  have "visible_membership (history ?ps sk q) lsn \<longleftrightarrow> has_key off n sk (row_at (evs @ [(l', pk, v)]) lsn q)" for sk q lsn
    unfolding hist row_at_snoc using h(3) [of sk q lsn] visible_push(3) [OF h(1) [of sk q] h(2) [of sk q], of "?new = Some sk" lsn] top [of lsn]
    unfolding has_key_def g_def [symmetric] by auto
  moreover have "lsn_sorted (history ?ps sk q)" "\<forall>v \<in> set (history ?ps sk q). po_commit_lsn v \<le> l'" for sk q
    unfolding hist using h(1,2) [of sk q] visible_push(1,2) [OF h(1) [of sk q] h(2) [of sk q]] by auto
  moreover have "postings_wf ?ps" using t by (auto simp: push_change_def tracks_def intro: postings_wf_push split: option.splits)
  ultimately show ?thesis unfolding tracks_def by blast
qed

section \<open>The invariant of the manager\<close>

lemma manager_wf_empty [simp]: "manager_wf Map.empty"
  by (simp add: manager_wf_def)

lemma index_ok_new: "name \<noteq> [] \<Longrightarrow> id_name d = name \<Longrightarrow> range_ok (id_kind d) \<Longrightarrow> index_ok name (index_new d)"
  by (simp add: index_ok_def index_new_def postings_wf_def)

lemma manager_wf_upd: "manager_wf m \<Longrightarrow> index_ok name st \<Longrightarrow> manager_wf (m(name \<mapsto> st))"
  by (auto simp: manager_wf_def)

lemma manager_wf_drop: "manager_wf m \<Longrightarrow> manager_wf (m(name := None))"
  by (auto simp: manager_wf_def dom_def intro: rev_finite_subset)

lemma build_indexes_wf: "manager_wf m \<Longrightarrow> build_indexes m defs = Ok m' \<Longrightarrow> manager_wf m'"
proof (induction m defs rule: build_indexes.induct)
  case (2 m d defs)
  show ?case
  proof (cases "id_kind d")
    case (Btree off n)
    show ?thesis
    proof (cases "off + n < 2 ^ 64")
      case True
      then have "id_name d \<noteq> []" "range_ok (id_kind d)" "build_indexes (m(id_name d \<mapsto> index_new d)) defs = Ok m'"
        using 2(3) Btree by (auto simp: usize_add_def range_ok_def out_of_bounds_def invalid_input_def split: if_splits)
      moreover from this have "manager_wf (m(id_name d \<mapsto> index_new d))" using 2(2) by (simp add: manager_wf_upd index_ok_new)
      ultimately show ?thesis using 2(1) [of off n False] 2(3) Btree True
        by (auto simp: usize_add_def out_of_bounds_def invalid_input_def fun_upd_def split: if_splits)
    next
      case False
      then show ?thesis using 2(3) Btree by (auto simp: usize_add_def out_of_bounds_def invalid_input_def split: if_splits)
    qed
  qed
qed simp

lemma create_wf: "manager_wf m \<Longrightarrow> manager_wf (snd (create_btree_index m name off n))"
  by (auto simp: create_btree_index_def usize_add_def range_ok_def intro!: manager_wf_upd index_ok_new)

lemma apply_mutation_wf: "manager_wf m \<Longrightarrow> manager_wf (apply_mutation l mu m)"
  unfolding apply_mutation_def
  by (auto simp: manager_wf_def index_ok_def push_posting_def [symmetric] intro!: postings_wf_push split: option.splits)

lemma apply_commit_wf: "manager_wf m \<Longrightarrow> manager_wf (apply_commit l ms m)"
  unfolding apply_commit_def by (induction ms arbitrary: m) (simp_all add: apply_mutation_wf)

section \<open>Planned mutations\<close>

lemma key_slice_ok: "range_ok k \<Longrightarrow> row_ok v \<Longrightarrow> (case k of Btree off n \<Rightarrow> key_slice off n v = Ok (slice_of k v))"
  by (cases v; cases k) (auto simp: range_ok_def row_ok_def key_slice_def slice_of_def get_slice_Ok)

lemma apply_plan_one:
  assumes "m (id_name (ix_def st)) = Some st" and "range_ok (id_kind (ix_def st))" and "row_ok old" and "row_ok new"
  shows "\<exists>ms. plan_one pk old new (ix_def st) = Ok ms \<and> apply_commit l ms m = m(id_name (ix_def st) \<mapsto>
    st\<lparr>ix_postings := push_change l pk (slice_of (id_kind (ix_def st)) old) (slice_of (id_kind (ix_def st)) new) (ix_postings st)\<rparr>)"
proof (cases "id_kind (ix_def st)")
  case (Btree off n)
  then show ?thesis using key_slice_ok [OF assms(2,3)] key_slice_ok [OF assms(2,4)] assms(1)
    by (auto simp: plan_one_def push_change_def apply_commit_def apply_mutation_def push_posting_def split: option.splits)
qed

lemma apply_plan:
  assumes "\<forall>st \<in> set vals. m (id_name (ix_def st)) = Some st \<and> range_ok (id_kind (ix_def st))"
    and "distinct (map (\<lambda>st. id_name (ix_def st)) vals)" and "row_ok old" and "row_ok new"
  shows "\<exists>ms. plan_mutations pk old new vals = Ok ms \<and> (\<forall>name. apply_commit l ms m name = (if name \<in> (\<lambda>st. id_name (ix_def st)) ` set vals
    then map_option (\<lambda>st. st\<lparr>ix_postings := push_change l pk (slice_of (id_kind (ix_def st)) old) (slice_of (id_kind (ix_def st)) new) (ix_postings st)\<rparr>) (m name)
    else m name))"
  using assms
proof (induction vals arbitrary: m)
  case Nil
  then show ?case by (simp add: apply_commit_def)
next
  case (Cons st vals)
  let ?u = "\<lambda>st. st\<lparr>ix_postings := push_change l pk (slice_of (id_kind (ix_def st)) old) (slice_of (id_kind (ix_def st)) new) (ix_postings st)\<rparr>"
  let ?m = "m(id_name (ix_def st) \<mapsto> ?u st)"
  have mst: "m (id_name (ix_def st)) = Some st" and rst: "range_ok (id_kind (ix_def st))" using Cons.prems(1) by (meson list.set_intros(1))+
  obtain ms where ms: "plan_one pk old new (ix_def st) = Ok ms" "apply_commit l ms m = ?m"
    using apply_plan_one [of m st, OF mst rst Cons.prems(3,4)] by blast
  have nin: "id_name (ix_def st) \<notin> (\<lambda>st. id_name (ix_def st)) ` set vals" using Cons.prems(2) by auto
  have d: "distinct (map (\<lambda>st. id_name (ix_def st)) vals)" using Cons.prems(2) by simp
  have "\<forall>st \<in> set vals. ?m (id_name (ix_def st)) = Some st \<and> range_ok (id_kind (ix_def st))"
  proof
    fix st' assume "st' \<in> set vals"
    then have "id_name (ix_def st') \<noteq> id_name (ix_def st)" "m (id_name (ix_def st')) = Some st'" "range_ok (id_kind (ix_def st'))"
      using nin Cons.prems(1) by (metis image_eqI, meson list.set_intros(2), meson list.set_intros(2))
    then show "?m (id_name (ix_def st')) = Some st' \<and> range_ok (id_kind (ix_def st'))" by simp
  qed
  then obtain ms' where ms': "plan_mutations pk old new vals = Ok ms'"
      "\<And>name. apply_commit l ms' ?m name = (if name \<in> (\<lambda>st. id_name (ix_def st)) ` set vals then map_option ?u (?m name) else ?m name)"
    using Cons.IH [of ?m, OF _ d Cons.prems(3,4)] by blast
  have "apply_commit l (ms @ ms') m = apply_commit l ms' ?m" using ms(2) by (simp add: apply_commit_def)
  moreover have "(if name \<in> (\<lambda>st. id_name (ix_def st)) ` set vals then map_option ?u (?m name) else ?m name)
    = (if name \<in> (\<lambda>st. id_name (ix_def st)) ` set (st # vals) then map_option ?u (m name) else m name)" for name
  proof (cases "name = id_name (ix_def st)")
    case True
    then show ?thesis using nin mst by simp
  qed simp
  moreover have "plan_mutations pk old new (st # vals) = Ok (ms @ ms')" using ms(1) ms'(1) by simp
  ultimately show ?case using ms'(2) by (intro exI [of _ "ms @ ms'"] conjI allI) (simp_all only:)
qed

lemma apply_plan_all:
  assumes wf: "manager_wf m" and it: "iterates vals m" and rows: "row_ok old" "row_ok new"
  shows "\<exists>ms. plan_mutations pk old new vals = Ok ms \<and> (\<forall>name. apply_commit l ms m name =
    map_option (\<lambda>st. st\<lparr>ix_postings := push_change l pk (slice_of (id_kind (ix_def st)) old) (slice_of (id_kind (ix_def st)) new) (ix_postings st)\<rparr>) (m name))"
proof -
  have v: "m name = Some st \<longleftrightarrow> st \<in> set vals \<and> id_name (ix_def st) = name" for name st using it unfolding iterates_def by blast
  have "\<forall>st \<in> set vals. m (id_name (ix_def st)) = Some st \<and> range_ok (id_kind (ix_def st))"
    using v wf unfolding manager_wf_def index_ok_def by blast
  moreover have "distinct (map (\<lambda>st. id_name (ix_def st)) vals)" using it unfolding iterates_def by blast
  ultimately obtain ms where ms: "plan_mutations pk old new vals = Ok ms"
    "\<And>name. apply_commit l ms m name = (if name \<in> (\<lambda>st. id_name (ix_def st)) ` set vals
      then map_option (\<lambda>st. st\<lparr>ix_postings := push_change l pk (slice_of (id_kind (ix_def st)) old) (slice_of (id_kind (ix_def st)) new) (ix_postings st)\<rparr>) (m name)
      else m name)"
    using apply_plan [of vals m, OF _ _ rows] by blast
  have "m name = None" if "name \<notin> (\<lambda>st. id_name (ix_def st)) ` set vals" for name
    using that v by (cases "m name") (blast dest: v [THEN iffD1])+
  then show ?thesis using ms(1) by (intro exI [of _ ms]) (simp add: ms(2))
qed

lemma row_at_ok: "\<forall>(_, _, v) \<in> set evs. row_ok v \<Longrightarrow> row_ok (row_at evs lsn pk)"
proof -
  have "\<forall>(_, _, v) \<in> set evs. row_ok v \<Longrightarrow> row_ok r \<Longrightarrow> row_ok (fold (\<lambda>(l, p, v) r. if l \<le> lsn \<and> p = pk then v else r) evs r)" for r
    by (induction evs arbitrary: r) auto
  moreover have "row_ok None" by (simp add: row_ok_def)
  ultimately show "\<forall>(_, _, v) \<in> set evs. row_ok v \<Longrightarrow> row_ok (row_at evs lsn pk)" unfolding row_at_def by blast
qed

lemma change_rows_tracks:
  assumes "manager_wf m" and "iteration_order order" and "m name = Some st" and "id_kind (ix_def st) = Btree off n"
    and "tracks off n (ix_postings st) pre l" and "\<forall>(l', _, _) \<in> set pre. l' \<le> l" and "\<forall>(_, _, v) \<in> set pre. row_ok v"
    and "rows = row_at pre l" and "in_order l evs"
  shows "\<exists>m' st' l'. change_rows order m rows evs = Ok m' \<and> m' name = Some st' \<and> tracks off n (ix_postings st') (pre @ evs) l'"
  using assms
proof (induction evs arbitrary: m st pre l rows)
  case Nil
  then show ?case by auto
next
  case (Cons ev evs)
  obtain l' pk v where ev: "ev = (l', pk, v)" by (cases ev) auto
  have le: "l \<le> l'" and v: "row_ok v" and io: "in_order l' evs" using Cons.prems(9) by (auto simp: in_order_def ev)
  have old: "row_ok (rows pk)" using Cons.prems(7,8) by (simp add: row_at_ok)
  let ?u = "\<lambda>st. st\<lparr>ix_postings := push_change l' pk (slice_of (id_kind (ix_def st)) (rows pk)) (slice_of (id_kind (ix_def st)) v) (ix_postings st)\<rparr>"
  have "iterates (order m) m" using Cons.prems(1,2) by (simp add: iteration_order_def)
  from apply_plan_all [OF Cons.prems(1) this old v, of pk l'] obtain ms
    where ms: "plan_mutations pk (rows pk) v (order m) = Ok ms" "\<And>name. apply_commit l' ms m name = map_option ?u (m name)" by blast
  have t: "tracks off n (ix_postings (?u st)) (pre @ [(l', pk, v)]) l'"
    using tracks_step [OF Cons.prems(5) le Cons.prems(6), of pk v] Cons.prems(4,8) by (simp add: slice_of_def)
  have r: "rows(pk := v) = row_at (pre @ [(l', pk, v)]) l'"
    using row_at_top [OF Cons.prems(6) le] Cons.prems(8) by (auto simp: row_at_snoc)
  have le': "\<forall>(l'', _, _) \<in> set (pre @ [(l', pk, v)]). l'' \<le> l'" using Cons.prems(6) le by (auto intro: order.trans)
  have ok: "\<forall>(_, _, v) \<in> set (pre @ [(l', pk, v)]). row_ok v" using Cons.prems(7) v by auto
  have st: "apply_commit l' ms m name = Some (?u st)" "id_kind (ix_def (?u st)) = Btree off n" using ms(2) Cons.prems(3,4) by simp_all
  have "\<exists>m' st' l''. change_rows order (apply_commit l' ms m) (rows(pk := v)) evs = Ok m' \<and> m' name = Some st'
      \<and> tracks off n (ix_postings st') ((pre @ [(l', pk, v)]) @ evs) l''"
    by (rule Cons.IH [OF apply_commit_wf [OF Cons.prems(1)] Cons.prems(2) st t le' ok r io])
  then show ?case using ms(1) by (simp add: ev)
qed

lemma tracks_Nil: "tracks off n [] [] l"
  by (simp add: tracks_def postings_wf_def history_def lsn_sorted_def row_at_def has_key_def)

lemma query_tracks:
  assumes t: "tracks off n (ix_postings st) evs l" and m: "m name = Some st" and lim: "limit * KEY_SIZE < 2 ^ 63"
  shows "query_equal m name sk lsn limit = Ok (take limit (sorted_list_of_set {pk. has_key off n sk (row_at evs lsn pk)}))"
proof -
  have vis: "has_key off n sk (row_at evs lsn pk) \<longleftrightarrow> visible_membership (history (ix_postings st) sk pk) lsn" for pk
    using t unfolding tracks_def by blast
  show ?thesis
  proof (cases "om_lookup (ix_postings st) sk")
    case None
    then show ?thesis using m lim by (simp add: query_equal_def vis history_def)
  next
    case (Some by_pk)
    then have wf: "om_wf by_pk" using t by (auto simp: tracks_def postings_wf_def)
    let ?xs = "map fst (filter (\<lambda>(pk, versions). visible_membership versions lsn) by_pk)"
    have "sorted_wrt (<) ?xs" using wf unfolding om_wf_def by (induction by_pk) auto
    then have s: "sorted ?xs" "distinct ?xs" by (simp_all add: strict_sorted_iff)
    have "visible_membership (history (ix_postings st) sk pk) lsn \<longleftrightarrow> (\<exists>h. om_lookup by_pk pk = Some h \<and> visible_membership h lsn)" for pk
      using Some by (auto simp: history_def split: option.splits)
    then have "set ?xs = {pk. visible_membership (history (ix_postings st) sk pk) lsn}"
      by (auto simp: om_lookup_iff [OF wf] image_iff)
    then have "sorted_list_of_set {pk. has_key off n sk (row_at evs lsn pk)} = ?xs"
      using s vis by (metis (no_types, lifting) Collect_cong sorted_list_of_set.idem_if_sorted_distinct)
    then show ?thesis using m lim Some by (simp add: query_equal_def)
  qed
qed

text \<open>C13: Whatever row changes are planned and applied in commit order, an equality query on a new index gives the primary keys, in
ascending order and up to the limit, of exactly the rows that have the secondary key at the LSN of the query; and no change panics.\<close>

theorem index_query_rows:
  assumes "manager_wf m" and "iteration_order order" and "m name = Some (index_new \<lparr>id_name = name, id_kind = Btree off n\<rparr>)"
    and "in_order 0 evs" and "limit * KEY_SIZE < 2 ^ 63"
  shows "\<exists>m'. change_rows order m Map.empty evs = Ok m' \<and>
    (\<forall>sk lsn. query_equal m' name sk lsn limit = Ok (take limit (sorted_list_of_set {pk. has_key off n sk (row_at evs lsn pk)})))"
proof -
  have "Map.empty = row_at [] 0" by (auto simp: row_at_def)
  then have "\<exists>m' st' l'. change_rows order m Map.empty evs = Ok m' \<and> m' name = Some st' \<and> tracks off n (ix_postings st') ([] @ evs) l'"
    using change_rows_tracks [OF assms(1-3), of off n "[]" 0 Map.empty evs] assms(4) by (simp add: index_new_def tracks_Nil)
  then show ?thesis using query_tracks assms(5) by (metis append_Nil)
qed

lemma name_order_iterates: "iteration_order name_order"
proof -
  have "iterates (name_order m) m" if wf: "manager_wf m" for m
  proof -
    have nm: "id_name (ix_def (the (m name))) = name" if "name \<in> dom m" for name using wf that by (auto simp: manager_wf_def index_ok_def)
    then have "map (\<lambda>st. id_name (ix_def st)) (name_order m) = sorted_list_of_set (dom m)"
      using wf by (auto simp: name_order_def manager_wf_def intro!: map_idI)
    moreover have "m name = Some st \<longleftrightarrow> st \<in> set (name_order m) \<and> id_name (ix_def st) = name" for name st
      using wf nm by (force simp: name_order_def manager_wf_def image_iff)
    ultimately show ?thesis by (simp add: iterates_def)
  qed
  then show ?thesis by (simp add: iteration_order_def)
qed

theorem index_query_rows_witness:
  "\<exists>m'. change_rows name_order (snd (create_btree_index Map.empty [116] 0 2)) Map.empty
      [(10, replicate 16 7, Some (replicate 1024 1)), (20, replicate 16 7, Some (replicate 1024 2))] = Ok m' \<and>
    (\<forall>sk lsn. query_equal m' [116] sk lsn 10 = Ok (take 10 (sorted_list_of_set {pk. has_key 0 2 sk
      (row_at [(10, replicate 16 7, Some (replicate 1024 1)), (20, replicate 16 7, Some (replicate 1024 2))] lsn pk)})))"
proof (rule index_query_rows [OF create_wf [OF manager_wf_empty] name_order_iterates])
  show "snd (create_btree_index Map.empty [116] 0 2) [116] = Some (index_new \<lparr>id_name = [116], id_kind = Btree 0 2\<rparr>)"
    by (simp add: create_btree_index_def usize_add_def)
qed (simp_all add: in_order_def row_ok_def)

text \<open>The checks of \<open>replace_definitions\<close> and \<open>create_btree_index\<close> establish, and every operation on the indexes keeps, that each
index is filed under its own non-empty name, covers a non-empty range inside the value and has its postings in key order; under
this invariant planning a row change never panics.\<close>

theorem index_manager_invariant:
  assumes "manager_wf m" and "iterates vals m" and "row_ok old" and "row_ok new"
  shows "manager_wf (snd (create_btree_index m name off n)) \<and> manager_wf (snd (replace_definitions m defs)) \<and> manager_wf (snd (drop_index m name))
    \<and> manager_wf (apply_commit l ms m) \<and> (\<exists>ps. plan_mutations pk old new vals = Ok ps)"
proof (intro conjI)
  show "manager_wf (snd (replace_definitions m defs))"
    using build_indexes_wf [OF manager_wf_empty, of defs] assms(1) by (simp add: replace_definitions_def split: result.splits)
  show "\<exists>ps. plan_mutations pk old new vals = Ok ps" using apply_plan_all [OF assms] by blast
qed (use assms(1) in \<open>simp_all add: create_wf drop_index_def manager_wf_drop apply_commit_wf\<close>)

theorem index_manager_invariant_witness:
  "manager_wf (snd (create_btree_index (snd (create_btree_index Map.empty [116] 0 2)) [117] 1023 1)) \<and>
    (\<exists>ps. plan_mutations [] None (Some (replicate 1024 1)) (name_order (snd (create_btree_index Map.empty [116] 0 2))) = Ok ps)"
proof -
  have wf: "manager_wf (snd (create_btree_index Map.empty [116] 0 2))" by (simp add: create_wf)
  show ?thesis
    using index_manager_invariant [OF wf, of "name_order (snd (create_btree_index Map.empty [116] 0 2))" None "Some (replicate 1024 1)" "[117]" 1023 1] name_order_iterates wf
    by (auto simp: iteration_order_def row_ok_def)
qed

end
