(* ===== verification/Posting_Log.thy ===== *)
theory Posting_Log
  imports Secondary_Index
begin

text \<open>
  The pages of the posting log (\<open>secondary_posting_log.rs\<close>), which persists the mutations of the secondary indexes. A page has a
  header (magic, version, the id of the next page, the number of bytes in use) and records one after the other.

  Names are checked by \<open>std::str::from_utf8\<close>: \<open>utf8_error\<close> is its validation, giving the index of the first invalid byte and the
  length of the invalid sequence, \<open>None\<close> when the input ends inside a sequence.

  The locale \<open>posting_page\<close> is what the writers and the replay of the log rely on: a page holds a list of records and the id of the
  next page, appending adds a record at the end or says that it does not fit. It is interpreted on the byte-level operations.
\<close>

section \<open>UTF-8\<close>

definition is_cont :: "byte \<Rightarrow> bool" where
  "is_cont b \<longleftrightarrow> 0x80 \<le> b \<and> b \<le> 0xBF"

definition second3 :: "byte \<Rightarrow> byte \<Rightarrow> bool" where
  "second3 a b \<longleftrightarrow> (a = 0xE0 \<and> 0xA0 \<le> b \<and> b \<le> 0xBF) \<or> (0xE1 \<le> a \<and> a \<le> 0xEC \<and> is_cont b)
    \<or> (a = 0xED \<and> 0x80 \<le> b \<and> b \<le> 0x9F) \<or> (0xEE \<le> a \<and> a \<le> 0xEF \<and> is_cont b)"

definition second4 :: "byte \<Rightarrow> byte \<Rightarrow> bool" where
  "second4 a b \<longleftrightarrow> (a = 0xF0 \<and> 0x90 \<le> b \<and> b \<le> 0xBF) \<or> (0xF1 \<le> a \<and> a \<le> 0xF3 \<and> is_cont b) \<or> (a = 0xF4 \<and> 0x80 \<le> b \<and> b \<le> 0x8F)"

fun utf8_error :: "nat \<Rightarrow> bytes \<Rightarrow> (nat \<times> nat option) option" where
  "utf8_error i [] = None"
| "utf8_error i (a # bs) =
    (if a < 0x80 then utf8_error (i + 1) bs
     else if 0xC2 \<le> a \<and> a \<le> 0xDF then (case bs of [] \<Rightarrow> Some (i, None) | b # bs1 \<Rightarrow>
       if \<not> is_cont b then Some (i, Some 1) else utf8_error (i + 2) bs1)
     else if 0xE0 \<le> a \<and> a \<le> 0xEF then (case bs of [] \<Rightarrow> Some (i, None) | b # bs1 \<Rightarrow>
       if \<not> second3 a b then Some (i, Some 1) else (case bs1 of [] \<Rightarrow> Some (i, None) | c # bs2 \<Rightarrow>
       if \<not> is_cont c then Some (i, Some 2) else utf8_error (i + 3) bs2))
     else if 0xF0 \<le> a \<and> a \<le> 0xF4 then (case bs of [] \<Rightarrow> Some (i, None) | b # bs1 \<Rightarrow>
       if \<not> second4 a b then Some (i, Some 1) else (case bs1 of [] \<Rightarrow> Some (i, None) | c # bs2 \<Rightarrow>
       if \<not> is_cont c then Some (i, Some 2) else (case bs2 of [] \<Rightarrow> Some (i, None) | d # bs3 \<Rightarrow>
       if \<not> is_cont d then Some (i, Some 3) else utf8_error (i + 4) bs3)))
     else Some (i, Some 1))"

definition from_utf8 :: "bytes \<Rightarrow> bytes res" where
  "from_utf8 b = (case utf8_error 0 b of None \<Rightarrow> Ok b
    | Some (i, Some n) \<Rightarrow> invalid_data (''invalid utf-8 sequence of '' @ show_nat n @ '' bytes from index '' @ show_nat i)
    | Some (i, None) \<Rightarrow> invalid_data (''incomplete utf-8 byte sequence from index '' @ show_nat i))"

section \<open>Log pages\<close>

abbreviation (input) SECONDARY_POSTING_LOG_BASE_PAGE_ID :: u64 where "SECONDARY_POSTING_LOG_BASE_PAGE_ID \<equiv> 3000000"
abbreviation (input) OFF_NEXT_PAGE_ID :: nat where "OFF_NEXT_PAGE_ID \<equiv> 12"
abbreviation (input) OFF_USED :: nat where "OFF_USED \<equiv> 20"
abbreviation (input) OFF_DATA :: nat where "OFF_DATA \<equiv> 22"

text \<open>The magic \<open>SKPLOG\<close> followed by two zero bytes.\<close>

definition plog_magic :: bytes where
  "plog_magic = [83, 75, 80, 76, 79, 71, 0, 0]"

record posting_log_state =
  pl_head_page_id :: u64
  pl_tail_page_id :: u64
  pl_next_page_id :: u64

definition plog_default :: posting_log_state where
  "plog_default = \<lparr>pl_head_page_id = 0, pl_tail_page_id = 0, pl_next_page_id = SECONDARY_POSTING_LOG_BASE_PAGE_ID\<rparr>"

definition new_log_page :: "bytes res" where
  "new_log_page = write_fields (replicate PAGE_SIZE 0)
    [(0, plog_magic), (8, to_le 4 (1 :: u32)), (OFF_NEXT_PAGE_ID, to_le 8 (0 :: u64)), (OFF_USED, to_le 2 (0 :: u16))]"

definition validate_log_page :: "bytes \<Rightarrow> unit res" where
  "validate_log_page page =
    (if length page \<noteq> PAGE_SIZE then Err (InvalidPageSize (length page) PAGE_SIZE)
     else res_bind (get_slice page 0 8) (\<lambda>mg.
       if mg \<noteq> plog_magic then invalid_data ''invalid posting log page magic''
       else res_bind (read_u32 page 8) (\<lambda>ver.
         if ver \<noteq> 1 then invalid_data (''unsupported posting log page version: '' @ show_nat (unat ver)) else Ok ())))"

definition read_next_page_id :: "bytes \<Rightarrow> u64 res" where
  "read_next_page_id page = res_bind (validate_log_page page) (\<lambda>_. read_u64 page OFF_NEXT_PAGE_ID)"

definition write_posting_next_page_id :: "bytes \<Rightarrow> u64 \<Rightarrow> bytes res" where
  "write_posting_next_page_id page next_id = res_bind (validate_log_page page) (\<lambda>_. write_u64 page OFF_NEXT_PAGE_ID next_id)"

text \<open>The fields of a record in the order in which they are written.\<close>

definition posting_fields :: "nat \<Rightarrow> u64 \<Rightarrow> index_mutation \<Rightarrow> (nat \<times> bytes) list" where
  "posting_fields off commit_lsn mu = field_run off
    [to_le 8 commit_lsn, [if mu_present mu then 1 else 0], to_le 2 (word_of_nat (length (mu_index_name mu)) :: u16), mu_index_name mu,
     to_le 2 (word_of_nat (length (mu_secondary_key mu)) :: u16), mu_secondary_key mu, mu_primary_key mu]"

definition append_posting_record :: "bytes \<Rightarrow> u64 \<Rightarrow> index_mutation \<Rightarrow> (bool \<times> bytes) res" where
  "append_posting_record page commit_lsn mu =
    res_bind (validate_log_page page) (\<lambda>_. res_bind (read_u16 page OFF_USED) (\<lambda>u. let used = unat u; name = mu_index_name mu in
    if name = [] \<or> length name > 65535 then invalid_input ''invalid index name length''
    else if length (mu_secondary_key mu) > 65535 then invalid_input ''invalid secondary key length''
    else let rec_len = 8 + 1 + 2 + length name + 2 + length (mu_secondary_key mu) + KEY_SIZE; write_off = OFF_DATA + used in
      if write_off + rec_len > PAGE_SIZE then Ok (False, page)
      else res_bind (write_fields page (posting_fields write_off commit_lsn mu)) (\<lambda>page'.
        res_map (\<lambda>page''. (True, page'')) (write_u16 page' OFF_USED (word_of_nat (used + rec_len))))))"

function decode_postings :: "bytes \<Rightarrow> nat \<Rightarrow> nat \<Rightarrow> (u64 \<times> index_mutation) list res" where
  "decode_postings page end_off off =
    (if off \<ge> end_off then Ok []
     else if off + 8 + 1 + 2 + 2 + KEY_SIZE > end_off then invalid_data ''posting log truncated record''
     else res_bind (read_u64 page off) (\<lambda>commit_lsn. res_bind (read_u8 page (off + 8)) (\<lambda>pr.
       res_bind (read_u16 page (off + 9)) (\<lambda>nl. let name_len = unat nl in
       if off + 11 + name_len > end_off then invalid_data ''posting log invalid name length''
       else res_bind (get_slice page (off + 11) (off + 11 + name_len)) (\<lambda>nb. res_bind (from_utf8 nb) (\<lambda>index_name.
         res_bind (read_u16 page (off + 11 + name_len)) (\<lambda>sl. let sec_len = unat sl; off2 = off + 13 + name_len in
         if off2 + sec_len + KEY_SIZE > end_off then invalid_data ''posting log invalid secondary key length''
         else res_bind (get_slice page off2 (off2 + sec_len)) (\<lambda>secondary_key.
           res_bind (get_slice page (off2 + sec_len) (off2 + sec_len + KEY_SIZE)) (\<lambda>pk.
           res_map (\<lambda>rest. (commit_lsn, \<lparr>mu_index_name = index_name, mu_secondary_key = secondary_key, mu_primary_key = pk, mu_present = (pr \<noteq> 0)\<rparr>) # rest)
             (decode_postings page end_off (off2 + sec_len + KEY_SIZE)))))))))))"
  by pat_completeness auto

termination by (relation "measure (\<lambda>(page, end_off, off). end_off - off)") auto

definition decode_posting_records :: "bytes \<Rightarrow> (u64 \<times> index_mutation) list res" where
  "decode_posting_records page =
    res_bind (validate_log_page page) (\<lambda>_. res_bind (read_u16 page OFF_USED) (\<lambda>u. let used = unat u in
    if OFF_DATA + used > PAGE_SIZE then invalid_data ''posting log used bytes out of bounds''
    else decode_postings page (OFF_DATA + used) OFF_DATA))"

text \<open>The bytes of a record, and what a page of records holds.\<close>

definition posting_bytes :: "u64 \<times> index_mutation \<Rightarrow> bytes" where
  "posting_bytes r = (case r of (commit_lsn, mu) \<Rightarrow> to_le 8 commit_lsn @ [if mu_present mu then 1 else 0]
    @ to_le 2 (word_of_nat (length (mu_index_name mu)) :: u16) @ mu_index_name mu
    @ to_le 2 (word_of_nat (length (mu_secondary_key mu)) :: u16) @ mu_secondary_key mu @ mu_primary_key mu)"

definition postings_bytes :: "(u64 \<times> index_mutation) list \<Rightarrow> bytes" where
  "postings_bytes recs = concat (map posting_bytes recs)"

definition mutation_ok :: "index_mutation \<Rightarrow> bool" where
  "mutation_ok mu \<longleftrightarrow> mu_index_name mu \<noteq> [] \<and> length (mu_index_name mu) \<le> 65535 \<and> utf8_error 0 (mu_index_name mu) = None
    \<and> length (mu_secondary_key mu) \<le> 65535 \<and> length (mu_primary_key mu) = KEY_SIZE"

definition plog_holds :: "bytes \<Rightarrow> (u64 \<times> index_mutation) list \<Rightarrow> u64 \<Rightarrow> bool" where
  "plog_holds page recs next_id \<longleftrightarrow> length page = PAGE_SIZE \<and> get_at page 0 8 = plog_magic \<and> get_at page 8 4 = to_le 4 (1 :: u32)
    \<and> get_at page OFF_NEXT_PAGE_ID 8 = to_le 8 next_id \<and> get_at page OFF_USED 2 = to_le 2 (word_of_nat (length (postings_bytes recs)) :: u16)
    \<and> OFF_DATA + length (postings_bytes recs) \<le> PAGE_SIZE \<and> get_at page OFF_DATA (length (postings_bytes recs)) = postings_bytes recs
    \<and> (\<forall>(_, mu) \<in> set recs. mutation_ok mu)"

section \<open>Page contents\<close>

declare decode_postings.simps [simp del]

lemma length_posting_bytes: "length (posting_bytes (l, mu)) = 13 + length (mu_index_name mu) + length (mu_secondary_key mu) + length (mu_primary_key mu)"
  by (simp add: posting_bytes_def)

lemma postings_bytes_simps [simp]: "postings_bytes [] = []" "postings_bytes (r # recs) = posting_bytes r @ postings_bytes recs"
    "postings_bytes (recs @ recs') = postings_bytes recs @ postings_bytes recs'"
  by (simp_all add: postings_bytes_def)

lemma put_posting_fields:
  "off + length (posting_bytes (l, mu)) \<le> length p \<Longrightarrow> write_fields p (posting_fields off l mu) = Ok (put_at p off (posting_bytes (l, mu)))"
proof -
  let ?xss = "[to_le 8 l, [if mu_present mu then 1 else 0], to_le 2 (word_of_nat (length (mu_index_name mu)) :: u16), mu_index_name mu,
     to_le 2 (word_of_nat (length (mu_secondary_key mu)) :: u16), mu_secondary_key mu, mu_primary_key mu]"
  have x: "concat ?xss = posting_bytes (l, mu)" by (simp add: posting_bytes_def)
  assume a: "off + length (posting_bytes (l, mu)) \<le> length p"
  then show ?thesis unfolding posting_fields_def x [symmetric] by (rule write_field_run)
qed

lemma posting_parts:
  assumes g: "get_at p off (length (posting_bytes (l, mu))) = posting_bytes (l, mu)"
  defines "a \<equiv> off + 11 + length (mu_index_name mu)"
  shows "get_at p off 8 = to_le 8 l" and "get_at p (off + 8) 1 = [if mu_present mu then 1 else 0]"
    and "get_at p (off + 9) 2 = to_le 2 (word_of_nat (length (mu_index_name mu)) :: u16)" and "get_at p (off + 11) (length (mu_index_name mu)) = mu_index_name mu"
    and "get_at p a 2 = to_le 2 (word_of_nat (length (mu_secondary_key mu)) :: u16)"
    and "get_at p (a + 2) (length (mu_secondary_key mu)) = mu_secondary_key mu"
    and "get_at p (a + 2 + length (mu_secondary_key mu)) (length (mu_primary_key mu)) = mu_primary_key mu"
proof -
  have s: "get_at p (off + d) n = get_at (posting_bytes (l, mu)) d n" if "d + n \<le> length (posting_bytes (l, mu))" for d n
    using get_at_get_at [OF that, of p off] g by simp
  note l = length_posting_bytes [of l mu]
  have [simp]: "take 8 (to_le 8 l) = to_le 8 l" by simp
  have i: "get_at (xs @ ys @ zs) (length xs) (length ys) = ys" for xs ys zs :: bytes by (simp add: get_at_def)
  show "get_at p off 8 = to_le 8 l" using s [of 0 8] l by (simp add: posting_bytes_def get_at_def)
  show "get_at p (off + 8) 1 = [if mu_present mu then 1 else 0]" using s [of 8 1] l i [of "to_le 8 l" "[if mu_present mu then 1 else 0]"] by (simp add: posting_bytes_def)
  show "get_at p (off + 9) 2 = to_le 2 (word_of_nat (length (mu_index_name mu)) :: u16)"
    using s [of 9 2] l i [of "to_le 8 l @ [if mu_present mu then 1 else 0]" "to_le 2 (word_of_nat (length (mu_index_name mu)) :: u16)"] by (simp add: posting_bytes_def)
  show "get_at p (off + 11) (length (mu_index_name mu)) = mu_index_name mu"
    using s [of 11 "length (mu_index_name mu)"] l
      i [of "to_le 8 l @ [if mu_present mu then 1 else 0] @ to_le 2 (word_of_nat (length (mu_index_name mu)) :: u16)" "mu_index_name mu"] by (simp add: posting_bytes_def)
  show "get_at p a 2 = to_le 2 (word_of_nat (length (mu_secondary_key mu)) :: u16)"
    using s [of "11 + length (mu_index_name mu)" 2] l
      i [of "to_le 8 l @ [if mu_present mu then 1 else 0] @ to_le 2 (word_of_nat (length (mu_index_name mu)) :: u16) @ mu_index_name mu" "to_le 2 (word_of_nat (length (mu_secondary_key mu)) :: u16)"]
    by (simp add: posting_bytes_def a_def add.assoc)
  show "get_at p (a + 2) (length (mu_secondary_key mu)) = mu_secondary_key mu"
    using s [of "13 + length (mu_index_name mu)" "length (mu_secondary_key mu)"] l
      i [of "to_le 8 l @ [if mu_present mu then 1 else 0] @ to_le 2 (word_of_nat (length (mu_index_name mu)) :: u16) @ mu_index_name mu @ to_le 2 (word_of_nat (length (mu_secondary_key mu)) :: u16)" "mu_secondary_key mu"]
    by (simp add: posting_bytes_def a_def add.assoc add.commute add.left_commute)
  show "get_at p (a + 2 + length (mu_secondary_key mu)) (length (mu_primary_key mu)) = mu_primary_key mu"
    using s [of "13 + length (mu_index_name mu) + length (mu_secondary_key mu)" "length (mu_primary_key mu)"] l
      i [of "to_le 8 l @ [if mu_present mu then 1 else 0] @ to_le 2 (word_of_nat (length (mu_index_name mu)) :: u16) @ mu_index_name mu @ to_le 2 (word_of_nat (length (mu_secondary_key mu)) :: u16) @ mu_secondary_key mu" "mu_primary_key mu" "[]"]
    by (simp add: posting_bytes_def a_def add.assoc add.commute add.left_commute)
qed

section \<open>Operations\<close>

lemma plog_magic_length [simp]: "length plog_magic = 8"
  by (simp add: plog_magic_def)

lemma plog_validate: "plog_holds page recs nx \<Longrightarrow> validate_log_page page = Ok ()"
  by (simp add: plog_holds_def validate_log_page_def buf_simps)

lemma plog_used:
  assumes "plog_holds page recs nx"
  shows "(read_u16 page OFF_USED :: u16 res) = Ok (word_of_nat (length (postings_bytes recs)))"
    and "unat (word_of_nat (length (postings_bytes recs)) :: u16) = length (postings_bytes recs)"
  using assms by (auto simp: plog_holds_def buf_simps intro!: unat_word_of_nat_small)

lemma plog_next: "plog_holds page recs nx \<Longrightarrow> read_next_page_id page = Ok nx"
  using plog_validate [of page recs nx] by (simp add: read_next_page_id_def plog_holds_def buf_simps)

lemma plog_new: "\<exists>page. new_log_page = Ok page \<and> plog_holds page [] 0"
  unfolding new_log_page_def by (simp add: plog_holds_def buf_simps)

lemma plog_write_next:
  assumes "plog_holds page recs nx"
  shows "\<exists>page'. write_posting_next_page_id page nx' = Ok page' \<and> plog_holds page' recs nx'"
  using assms plog_validate [OF assms] by (simp add: write_posting_next_page_id_def plog_holds_def buf_simps)

lemma plog_append:
  assumes h: "plog_holds page recs nx" and ok: "mutation_ok mu"
  shows "if OFF_DATA + length (postings_bytes (recs @ [(l, mu)])) \<le> PAGE_SIZE
    then \<exists>page'. append_posting_record page l mu = Ok (True, page') \<and> plog_holds page' (recs @ [(l, mu)]) nx
    else append_posting_record page l mu = Ok (False, page)"
proof -
  let ?n = "length (postings_bytes recs)"
  have l: "length (posting_bytes (l, mu)) = 13 + length (mu_index_name mu) + length (mu_secondary_key mu) + 16"
    using ok by (simp add: length_posting_bytes mutation_ok_def)
  have len: "length page = 16384" using h by (simp add: plog_holds_def)
  have v: "mu_index_name mu \<noteq> []" "\<not> 65535 < length (mu_index_name mu)" "\<not> 65535 < length (mu_secondary_key mu)"
    using ok by (auto simp: mutation_ok_def)
  show ?thesis
  proof (cases "22 + length (postings_bytes (recs @ [(l, mu)])) \<le> 16384")
    case True
    then have fits: "22 + ?n + length (posting_bytes (l, mu)) \<le> length page" using len by simp
    let ?p = "put_at page (22 + ?n) (posting_bytes (l, mu))"
    let ?q = "put_at ?p 20 (to_le 2 (word_of_nat (?n + length (posting_bytes (l, mu))) :: u16))"
    have "append_posting_record page l mu = Ok (True, ?q)"
      using plog_validate [OF h] plog_used [OF h] v fits len put_posting_fields [OF fits]
      by (simp add: append_posting_record_def l Let_def write_words_Ok add.assoc add.commute add.left_commute)
    moreover have "get_at ?q 22 (?n + length (posting_bytes (l, mu))) = postings_bytes (recs @ [(l, mu)])"
    proof -
      have "get_at ?q 22 (?n + length (posting_bytes (l, mu))) = get_at ?p 22 (?n + length (posting_bytes (l, mu)))"
        by (simp add: get_at_put_at_after)
      also have "\<dots> = put_at (get_at page 22 (?n + length (posting_bytes (l, mu)))) ?n (posting_bytes (l, mu))"
        using fits by (subst get_at_put_at_inside) simp_all
      also have "\<dots> = get_at page 22 ?n @ posting_bytes (l, mu)"
        using fits by (simp add: put_at_in_range length_get_at) (simp add: get_at_def)
      finally show ?thesis using h by (simp add: plog_holds_def)
    qed
    ultimately show ?thesis using True fits h ok len by (auto simp: plog_holds_def buf_simps)
  next
    case False
    then show ?thesis using plog_validate [OF h] plog_used [OF h] v by (simp add: append_posting_record_def l Let_def)
  qed
qed

lemma decode_postings_ok:
  assumes "get_at page off (length (postings_bytes recs)) = postings_bytes recs" and "off + length (postings_bytes recs) \<le> length page"
    and "\<forall>(_, mu) \<in> set recs. mutation_ok mu"
  shows "decode_postings page (off + length (postings_bytes recs)) off = Ok recs"
  using assms
proof (induction recs arbitrary: off)
  case (Cons r recs)
  obtain l mu where r: "r = (l, mu)" by (cases r)
  let ?R = "posting_bytes (l, mu)" and ?D = "postings_bytes recs"
  have ok: "mutation_ok mu" and oks: "\<forall>(_, mu) \<in> set recs. mutation_ok mu" using Cons.prems(3) by (auto simp: r)
  have len: "off + length ?R + length ?D \<le> length page" using Cons.prems(2) by (simp add: r)
  have R: "get_at page off (length ?R) = ?R" and D: "get_at page (off + length ?R) (length ?D) = ?D"
    using get_at_split [of page off ?R "length ?D" ?D] Cons.prems(1) len by (simp_all add: r)
  note p = posting_parts [OF R]
  have n: "unat (word_of_nat (length (mu_index_name mu)) :: u16) = length (mu_index_name mu)"
      "unat (word_of_nat (length (mu_secondary_key mu)) :: u16) = length (mu_secondary_key mu)"
    using ok by (auto simp: mutation_ok_def intro!: unat_word_of_nat_small)
  have u: "from_utf8 (mu_index_name mu) = Ok (mu_index_name mu)" using ok by (simp add: from_utf8_def mutation_ok_def)
  have k: "length (mu_primary_key mu) = 16" using ok by (simp add: mutation_ok_def)
  have lR: "length ?R = 29 + length (mu_index_name mu) + length (mu_secondary_key mu)" using k by (simp add: length_posting_bytes)
  have ih: "decode_postings page (off + length ?R + length ?D) (off + length ?R) = Ok recs"
    using Cons.IH [OF D _ oks] len by simp
  show ?case
    using len p ih lR k u n by (subst decode_postings.simps) (simp add: r buf_simps Let_def add.assoc add.commute add.left_commute)
qed (simp add: decode_postings.simps)

end
