(* ===== verification/Index_Catalog.thy ===== *)
theory Index_Catalog
  imports Posting_Log
begin

text \<open>
  The page that persists the index definitions and the state of the posting log (\<open>secondary_index_meta.rs\<close>). Two versions can be
  read, the second is written. The lemmas show that what is written is read back and which catalogs cannot be written.
\<close>

section \<open>Catalog page\<close>

abbreviation (input) SECONDARY_INDEX_META_PAGE_ID :: u64 where "SECONDARY_INDEX_META_PAGE_ID \<equiv> 9"
abbreviation (input) NAME_MAX :: nat where "NAME_MAX \<equiv> 48"
abbreviation (input) ENTRY_SIZE :: nat where "ENTRY_SIZE \<equiv> 59"
abbreviation (input) KIND_BTREE :: byte where "KIND_BTREE \<equiv> 1"
abbreviation (input) OFF_COUNT_V1 :: nat where "OFF_COUNT_V1 \<equiv> 12"
abbreviation (input) OFF_ENTRIES_V1 :: nat where "OFF_ENTRIES_V1 \<equiv> 14"
abbreviation (input) OFF_COUNT_V2 :: nat where "OFF_COUNT_V2 \<equiv> 12"
abbreviation (input) OFF_LOG_HEAD_V2 :: nat where "OFF_LOG_HEAD_V2 \<equiv> 14"
abbreviation (input) OFF_LOG_TAIL_V2 :: nat where "OFF_LOG_TAIL_V2 \<equiv> 22"
abbreviation (input) OFF_LOG_NEXT_V2 :: nat where "OFF_LOG_NEXT_V2 \<equiv> 30"
abbreviation (input) OFF_ENTRIES_V2 :: nat where "OFF_ENTRIES_V2 \<equiv> 38"

text \<open>The magic \<open>SKS2IDX\<close> followed by a zero byte.\<close>

definition catalog_magic :: bytes where
  "catalog_magic = [83, 75, 83, 50, 73, 68, 88, 0]"

record index_catalog =
  ic_defs :: "index_def list"
  ic_posting_log :: posting_log_state

definition catalog_header :: "index_catalog \<Rightarrow> (nat \<times> bytes) list" where
  "catalog_header c =
    [(0, catalog_magic), (8, to_le 4 (2 :: u32)), (OFF_COUNT_V2, to_le 2 (word_of_nat (length (ic_defs c)) :: u16)),
     (OFF_LOG_HEAD_V2, to_le 8 (pl_head_page_id (ic_posting_log c))), (OFF_LOG_TAIL_V2, to_le 8 (pl_tail_page_id (ic_posting_log c))),
     (OFF_LOG_NEXT_V2, to_le 8 (pl_next_page_id (ic_posting_log c)))]"

text \<open>One turn of the loop: the name is written over a zeroed field and before the range is checked.\<close>

definition encode_def :: "bytes \<Rightarrow> nat \<Rightarrow> index_def \<Rightarrow> bytes res" where
  "encode_def p off d =
    (if id_name d = [] \<or> length (id_name d) > NAME_MAX
     then invalid_input (''secondary index name len must be 1..'' @ show_nat NAME_MAX @ '': '' @ show_bytes (id_name d))
     else res_bind (write_fields p [(off, to_le 2 (word_of_nat (length (id_name d)) :: u16)), (off + 2, replicate NAME_MAX 0), (off + 2, id_name d)]) (\<lambda>p1.
     case id_kind d of Btree value_offset value_len \<Rightarrow>
       res_bind (if value_len = 0 then Ok True else res_bind (usize_add value_offset value_len) (\<lambda>e. Ok (e > VALUE_SIZE))) (\<lambda>bad.
       if bad then out_of_bounds value_offset value_len
       else write_fields p1 [(off + 50, to_le 4 (word_of_nat value_offset :: u32)), (off + 54, to_le 4 (word_of_nat value_len :: u32)), (off + 58, [KIND_BTREE])])))"

fun encode_defs :: "bytes \<Rightarrow> nat \<Rightarrow> index_def list \<Rightarrow> bytes res" where
  "encode_defs p off [] = Ok p"
| "encode_defs p off (d # defs) = res_bind (encode_def p off d) (\<lambda>p'. encode_defs p' (off + ENTRY_SIZE) defs)"

definition encode_secondary_index_catalog :: "index_catalog \<Rightarrow> bytes res" where
  "encode_secondary_index_catalog c =
    (let max_entries = (PAGE_SIZE - OFF_ENTRIES_V2) div ENTRY_SIZE in
     if length (ic_defs c) > max_entries
     then invalid_input (''too many secondary indexes: '' @ show_nat (length (ic_defs c)) @ '' (max '' @ show_nat max_entries @ '')'')
     else res_bind (write_fields (replicate PAGE_SIZE 0) (catalog_header c)) (\<lambda>p. encode_defs p OFF_ENTRIES_V2 (ic_defs c)))"

definition decode_def :: "bytes \<Rightarrow> nat \<Rightarrow> index_def res" where
  "decode_def page off =
    res_bind (read_u16 page off) (\<lambda>nl. let name_len = unat nl in
    if name_len = 0 \<or> name_len > NAME_MAX then invalid_data (''invalid secondary index name length: '' @ show_nat name_len)
    else res_bind (get_slice page (off + 2) (off + 2 + name_len)) (\<lambda>nb. res_bind (from_utf8 nb) (\<lambda>name.
      res_bind (read_u32 page (off + 50)) (\<lambda>value_offset. res_bind (read_u32 page (off + 54)) (\<lambda>value_len.
      res_bind (read_u8 page (off + 58)) (\<lambda>kind.
      if kind = KIND_BTREE then Ok \<lparr>id_name = name, id_kind = Btree (unat value_offset) (unat value_len)\<rparr>
      else invalid_data (''unsupported secondary index kind: '' @ show_nat (unat kind))))))))"

fun decode_def_list :: "bytes \<Rightarrow> nat \<Rightarrow> nat \<Rightarrow> index_def list res" where
  "decode_def_list page off 0 = Ok []"
| "decode_def_list page off (Suc n) = res_bind (decode_def page off) (\<lambda>d. res_map (\<lambda>ds. d # ds) (decode_def_list page (off + ENTRY_SIZE) n))"

definition decode_defs :: "bytes \<Rightarrow> nat \<Rightarrow> nat \<Rightarrow> index_def list res" where
  "decode_defs page off_count off_entries =
    res_bind (read_u16 page off_count) (\<lambda>c. let n = unat c in
    if n > (PAGE_SIZE - off_entries) div ENTRY_SIZE then invalid_data (''invalid secondary index count: '' @ show_nat n)
    else decode_def_list page off_entries n)"

definition catalog_decode_v1 :: "bytes \<Rightarrow> index_catalog res" where
  "catalog_decode_v1 page = res_map (\<lambda>defs. \<lparr>ic_defs = defs, ic_posting_log = plog_default\<rparr>) (decode_defs page OFF_COUNT_V1 OFF_ENTRIES_V1)"

definition catalog_decode_v2 :: "bytes \<Rightarrow> index_catalog res" where
  "catalog_decode_v2 page =
    res_bind (decode_defs page OFF_COUNT_V2 OFF_ENTRIES_V2) (\<lambda>defs.
    res_bind (read_u64 page OFF_LOG_HEAD_V2) (\<lambda>head. res_bind (read_u64 page OFF_LOG_TAIL_V2) (\<lambda>tail. res_bind (read_u64 page OFF_LOG_NEXT_V2) (\<lambda>nx.
    Ok \<lparr>ic_defs = defs, ic_posting_log = \<lparr>pl_head_page_id = head, pl_tail_page_id = tail,
      pl_next_page_id = (if nx < SECONDARY_POSTING_LOG_BASE_PAGE_ID then SECONDARY_POSTING_LOG_BASE_PAGE_ID else nx)\<rparr>\<rparr>))))"

definition decode_secondary_index_catalog :: "bytes \<Rightarrow> index_catalog res" where
  "decode_secondary_index_catalog page =
    (if length page \<noteq> PAGE_SIZE then Err (InvalidPageSize (length page) PAGE_SIZE)
     else res_bind (get_slice page 0 8) (\<lambda>mg.
       if mg \<noteq> catalog_magic then invalid_data ''invalid secondary index meta magic''
       else res_bind (read_u32 page 8) (\<lambda>ver.
         if ver = 1 then catalog_decode_v1 page else if ver = 2 then catalog_decode_v2 page
         else invalid_data (''unsupported secondary index meta version: '' @ show_nat (unat ver)))))"

text \<open>The entry of a definition, and the definitions that fit one.\<close>

definition def_bytes :: "index_def \<Rightarrow> bytes" where
  "def_bytes d = (case id_kind d of Btree value_offset value_len \<Rightarrow> to_le 2 (word_of_nat (length (id_name d)) :: u16)
    @ id_name d @ replicate (NAME_MAX - length (id_name d)) 0 @ to_le 4 (word_of_nat value_offset :: u32) @ to_le 4 (word_of_nat value_len :: u32) @ [KIND_BTREE])"

definition def_ok :: "index_def \<Rightarrow> bool" where
  "def_ok d \<longleftrightarrow> id_name d \<noteq> [] \<and> length (id_name d) \<le> NAME_MAX \<and> utf8_error 0 (id_name d) = None \<and> range_ok (id_kind d)"

section \<open>Round trip\<close>

lemma length_def_bytes: "length (id_name d) \<le> NAME_MAX \<Longrightarrow> length (def_bytes d) = ENTRY_SIZE"
  by (cases "id_kind d") (simp add: def_bytes_def)

lemma put_at_overlay: "length ys \<le> length xs \<Longrightarrow> off + length xs \<le> length p \<Longrightarrow> put_at (put_at p off xs) off ys = put_at p off (ys @ drop (length ys) xs)"
  by (simp add: put_at_in_range)

lemma encode_def_ok:
  assumes ok: "def_ok d" and len: "off + ENTRY_SIZE \<le> length p"
  shows "encode_def p off d = Ok (put_at p off (def_bytes d))"
proof (cases "id_kind d")
  case (Btree vo vl)
  let ?n = "id_name d" let ?a = "to_le 2 (word_of_nat (length ?n) :: u16)" and ?z = "replicate (48 - length ?n) 0 :: bytes"
  have n: "?n \<noteq> []" "\<not> 48 < length ?n" "length ?n \<le> 48" and r: "0 < vl" "vo + vl \<le> 1024" using ok Btree by (auto simp: def_ok_def range_ok_def)
  let ?p1 = "put_at p off (?a @ ?n @ ?z)"
  have "put_at (put_at (put_at p off ?a) (off + 2) (replicate 48 0)) (off + 2) ?n = put_at (put_at p off ?a) (off + 2) (?n @ ?z)"
    using n len by (subst put_at_overlay) simp_all
  also have "\<dots> = ?p1" using put_at_append [of off ?a "?n @ ?z" p] n len by simp
  finally have w: "write_fields p [(off, ?a), (off + 2, replicate 48 0), (off + 2, ?n)] = Ok ?p1" using n len by (subst write_fields_Ok) auto
  have "[(off + 50, to_le 4 (word_of_nat vo :: u32)), (off + 54, to_le 4 (word_of_nat vl :: u32)), (off + 58, [1 :: byte])]
      = field_run (off + 50) [to_le 4 (word_of_nat vo :: u32), to_le 4 (word_of_nat vl :: u32), [1]]" (is "?ws = _") by simp
  then have "write_fields ?p1 [(off + 50, to_le 4 (word_of_nat vo :: u32)), (off + 54, to_le 4 (word_of_nat vl :: u32)), (off + 58, [1 :: byte])]
      = Ok (put_at ?p1 (off + 50) (to_le 4 (word_of_nat vo :: u32) @ to_le 4 (word_of_nat vl :: u32) @ [1]))"
    using write_field_run [of "off + 50" "[to_le 4 (word_of_nat vo :: u32), to_le 4 (word_of_nat vl :: u32), [1]]" ?p1] len by (simp add: add.commute)
  also have "put_at ?p1 (off + 50) (to_le 4 (word_of_nat vo :: u32) @ to_le 4 (word_of_nat vl :: u32) @ [1]) = put_at p off (def_bytes d)"
    using put_at_append [of off "?a @ ?n @ ?z" "to_le 4 (word_of_nat vo :: u32) @ to_le 4 (word_of_nat vl :: u32) @ [1]" p] n len
    by (simp add: def_bytes_def Btree)
  finally show ?thesis using w n r by (simp add: encode_def_def Btree usize_add_def del: write_fields.simps)
qed

lemma length_defs_bytes: "\<forall>d \<in> set defs. def_ok d \<Longrightarrow> length (concat (map def_bytes defs)) = ENTRY_SIZE * length defs"
  by (induction defs) (auto simp: def_ok_def length_def_bytes)

lemma encode_defs_ok:
  "\<forall>d \<in> set defs. def_ok d \<Longrightarrow> off + ENTRY_SIZE * length defs \<le> length p \<Longrightarrow> encode_defs p off defs = Ok (put_at p off (concat (map def_bytes defs)))"
proof (induction defs arbitrary: off p)
  case Nil
  then show ?case by (simp add: put_at_def)
next
  case (Cons d defs)
  have l: "length (def_bytes d) = 59" using Cons.prems(1) by (intro length_def_bytes) (simp add: def_ok_def)
  have lc: "length (concat (map def_bytes defs)) = 59 * length defs" using Cons.prems(1) by (intro length_defs_bytes) simp
  show ?case using Cons encode_def_ok [of d off p] put_at_append [of off "def_bytes d" "concat (map def_bytes defs)" p] l lc by simp
qed

lemma decode_def_ok:
  assumes ok: "def_ok d" and g: "get_at page off ENTRY_SIZE = def_bytes d" and len: "off + ENTRY_SIZE \<le> length page"
  shows "decode_def page off = Ok d"
proof (cases "id_kind d")
  case (Btree vo vl)
  let ?n = "id_name d" let ?a = "to_le 2 (word_of_nat (length ?n) :: u16)" and ?z = "replicate (48 - length ?n) 0 :: bytes"
  let ?b = "to_le 4 (word_of_nat vo :: u32)" and ?c = "to_le 4 (word_of_nat vl :: u32)"
  have n: "?n \<noteq> []" "length ?n \<le> 48" and r: "0 < vl" "vo + vl \<le> 1024" and u: "from_utf8 ?n = Ok ?n"
    using ok Btree by (auto simp: def_ok_def range_ok_def from_utf8_def)
  have s: "get_at page (off + k) m = get_at (def_bytes d) k m" if "k + m \<le> 59" for k m using get_at_get_at [OF that, of page off] g by simp
  have d: "def_bytes d = ?a @ ?n @ ?z @ ?b @ ?c @ [1]" by (simp add: def_bytes_def Btree)
  have i: "get_at (xs @ ys @ zs) (length xs) (length ys) = ys" for xs ys zs :: bytes by (simp add: get_at_def)
  have "get_at page off 2 = ?a" using s [of 0 2] i [of "[]" ?a] d by simp
  moreover have "get_at page (off + 2) (length ?n) = ?n" using s [of 2 "length ?n"] i [of ?a ?n] d n by simp
  moreover have "get_at page (off + 50) 4 = ?b" using s [of 50 4] i [of "?a @ ?n @ ?z" ?b] d n by simp
  moreover have "get_at page (off + 54) 4 = ?c" using s [of 54 4] i [of "?a @ ?n @ ?z @ ?b" ?c] d n by simp
  moreover have "get_at page (off + 58) 1 = [1]" using s [of 58 1] i [of "?a @ ?n @ ?z @ ?b @ ?c" "[1]" "[]"] d n by simp
  moreover have "unat (word_of_nat (length ?n) :: u16) = length ?n" "unat (word_of_nat vo :: u32) = vo" "unat (word_of_nat vl :: u32) = vl"
    using n r by (auto intro!: unat_word_of_nat_small)
  ultimately show ?thesis using n len u by (simp add: decode_def_def buf_simps) (simp flip: Btree)
qed

lemma decode_def_list_ok:
  "\<forall>d \<in> set defs. def_ok d \<Longrightarrow> off + ENTRY_SIZE * length defs \<le> length page \<Longrightarrow> get_at page off (ENTRY_SIZE * length defs) = concat (map def_bytes defs)
    \<Longrightarrow> decode_def_list page off (length defs) = Ok defs"
proof (induction defs arbitrary: off)
  case (Cons d defs)
  have l: "length (def_bytes d) = 59" using Cons.prems(1) by (intro length_def_bytes) (simp add: def_ok_def)
  have "get_at page off 59 = def_bytes d \<and> get_at page (off + 59) (59 * length defs) = concat (map def_bytes defs)"
    using get_at_split [of page off "def_bytes d" "59 * length defs" "concat (map def_bytes defs)"] Cons.prems(2,3) l by simp
  then show ?case using Cons decode_def_ok [of d page off] by simp
qed simp

lemma catalog_written:
  assumes "\<forall>d \<in> set (ic_defs c). def_ok d" and "length (ic_defs c) \<le> 277" and "SECONDARY_POSTING_LOG_BASE_PAGE_ID \<le> pl_next_page_id (ic_posting_log c)"
  shows "\<exists>page. encode_secondary_index_catalog c = Ok page \<and> length page = PAGE_SIZE \<and> decode_secondary_index_catalog page = Ok c"
proof -
  let ?h = "put_fields (replicate 16384 0) (catalog_header c)" and ?d = "concat (map def_bytes (ic_defs c))"
  let ?p = "put_at ?h 38 ?d"
  have m: "length catalog_magic = 8" by (simp add: catalog_magic_def)
  have ld: "length ?d = 59 * length (ic_defs c)" by (rule length_defs_bytes [OF assms(1)])
  have "write_fields (replicate 16384 0) (catalog_header c) = Ok ?h" by (rule write_fields_Ok) (simp add: catalog_header_def m)
  moreover have "encode_defs ?h 38 (ic_defs c) = Ok ?p" using assms(2) by (intro encode_defs_ok [OF assms(1)]) simp
  ultimately have e: "encode_secondary_index_catalog c = Ok ?p" using assms(2) by (simp add: encode_secondary_index_catalog_def)
  have g: "get_at ?p a n = get_at ?h a n" if "a + n \<le> 38" for a n using that by (simp add: get_at_put_at_before)
  have f: "get_at ?h 0 8 = catalog_magic" "get_at ?h 8 4 = to_le 4 (2 :: u32)" "get_at ?h 12 2 = to_le 2 (word_of_nat (length (ic_defs c)) :: u16)"
      "get_at ?h 14 8 = to_le 8 (pl_head_page_id (ic_posting_log c))" "get_at ?h 22 8 = to_le 8 (pl_tail_page_id (ic_posting_log c))"
      "get_at ?h 30 8 = to_le 8 (pl_next_page_id (ic_posting_log c))"
    by (simp_all add: catalog_header_def m buf_simps)
  have c: "unat (word_of_nat (length (ic_defs c)) :: u16) = length (ic_defs c)" using assms(2) by (intro unat_word_of_nat_small) simp
  have "get_at ?p 38 (59 * length (ic_defs c)) = ?d" using ld assms(2) by (simp add: get_at_put_at_same)
  then have "decode_def_list ?p 38 (length (ic_defs c)) = Ok (ic_defs c)" using assms(1,2) by (intro decode_def_list_ok) simp_all
  then have "decode_defs ?p 12 38 = Ok (ic_defs c)" using assms(2) c by (simp add: decode_defs_def buf_simps g f)
  then have "decode_secondary_index_catalog ?p = Ok c"
    using assms(3) m by (simp add: decode_secondary_index_catalog_def catalog_decode_v2_def buf_simps g f not_less)
  then show ?thesis using e by simp
qed

text \<open>A catalog of definitions with names of one to 48 bytes of valid UTF-8 and ranges inside the value is encoded when it has at
most 277 of them, and decoding the page gives the catalog back; the next page id of the posting log must not be below its base.\<close>

theorem catalog_roundtrip:
  assumes "\<forall>d \<in> set (ic_defs c). def_ok d" and "length (ic_defs c) \<le> 277" and "SECONDARY_POSTING_LOG_BASE_PAGE_ID \<le> pl_next_page_id (ic_posting_log c)"
  shows "\<exists>page. encode_secondary_index_catalog c = Ok page \<and> length page = PAGE_SIZE \<and> decode_secondary_index_catalog page = Ok c"
  using catalog_written [OF assms] .

theorem catalog_roundtrip_witness:
  "\<exists>page. encode_secondary_index_catalog \<lparr>ic_defs = [\<lparr>id_name = [116, 97, 103], id_kind = Btree 0 2\<rparr>, \<lparr>id_name = [0xC3, 0xA9], id_kind = Btree 1020 4\<rparr>],
      ic_posting_log = plog_default\<rparr> = Ok page
    \<and> decode_secondary_index_catalog page = Ok \<lparr>ic_defs = [\<lparr>id_name = [116, 97, 103], id_kind = Btree 0 2\<rparr>, \<lparr>id_name = [0xC3, 0xA9], id_kind = Btree 1020 4\<rparr>],
      ic_posting_log = plog_default\<rparr>"
  using catalog_roundtrip [of "\<lparr>ic_defs = [\<lparr>id_name = [116, 97, 103], id_kind = Btree 0 2\<rparr>, \<lparr>id_name = [0xC3, 0xA9], id_kind = Btree 1020 4\<rparr>],
      ic_posting_log = plog_default\<rparr>"]
  by (auto simp: def_ok_def range_ok_def plog_default_def is_cont_def)

end
