(* ===== verification/Page_Cache.thy ===== *)
theory Page_Cache
  imports Bptree_Correct Meta_Pages
begin

text \<open>
  The sharded page cache and the two page providers on top of it (\<open>PageCache\<close> and \<open>SharedPageProvider\<close> in \<open>page_bptree.rs\<close>,
  \<open>txn_page_provider.rs\<close>). A shard is an \<open>LruCache\<close> of the crate \<open>lru\<close>, which is a parameter: \<open>lru_ops\<close> are the operations used and the
  locale \<open>lru_cache\<close> states what their documentation promises. The pages behind the cache are read by a fetcher from a world \<open>'w\<close>,
  which is a parameter as well: the page store of the in-process engine or the storage nodes.

  A transaction collects the tree pages it writes in a map of its own, the task-local \<open>CURRENT_TXN_DIRTY\<close>; it is \<open>None\<close> outside a
  transaction.

  The lemmas show that both providers keep the contract of the tree as long as no shard evicts a page, and that eviction breaks it: a
  page written by a transaction that is not committed yet exists only in the cache.
\<close>

section \<open>The cache\<close>

record 'c lru_ops =
  lru_new :: "nat \<Rightarrow> 'c"
  lru_get :: "'c \<Rightarrow> u64 \<Rightarrow> bytes option \<times> 'c"
  lru_put :: "'c \<Rightarrow> u64 \<Rightarrow> bytes \<Rightarrow> 'c"
  lru_contains :: "'c \<Rightarrow> u64 \<Rightarrow> bool"
  lru_pop :: "'c \<Rightarrow> u64 \<Rightarrow> 'c"
  lru_len :: "'c \<Rightarrow> nat"

abbreviation (input) DEFAULT_PAGE_CACHE_SHARDS :: nat where "DEFAULT_PAGE_CACHE_SHARDS \<equiv> 64"

record 'c page_cache =
  pc_shards :: "'c list"
  pc_latches :: latch_table

definition div_ceil :: "nat \<Rightarrow> nat \<Rightarrow> nat" where
  "div_ceil a b = a div b + (if a mod b = 0 then 0 else 1)"

definition cache_new_with_capacity :: "'c lru_ops \<Rightarrow> nat \<Rightarrow> nat \<Rightarrow> 'c page_cache" where
  "cache_new_with_capacity L shards capacity_pages =
    (let count = max shards 1; cap = max capacity_pages 1; per = max (div_ceil cap count) 1 in
     \<lparr>pc_shards = replicate count (lru_new L per), pc_latches = latch_table_new count\<rparr>)"

definition cache_new :: "'c lru_ops \<Rightarrow> nat \<Rightarrow> 'c page_cache" where
  "cache_new L shards = cache_new_with_capacity L shards 8192"

definition cache_shard :: "'c page_cache \<Rightarrow> u64 \<Rightarrow> nat" where
  "cache_shard c pid = unat pid mod length (pc_shards c)"

definition cache_get :: "'c lru_ops \<Rightarrow> 'c page_cache \<Rightarrow> u64 \<Rightarrow> bytes option \<times> 'c page_cache" where
  "cache_get L c pid = (let i = cache_shard c pid; (p, s) = lru_get L (pc_shards c ! i) pid in (p, c\<lparr>pc_shards := (pc_shards c)[i := s]\<rparr>))"

definition cache_insert :: "'c lru_ops \<Rightarrow> 'c page_cache \<Rightarrow> u64 \<Rightarrow> bytes \<Rightarrow> 'c page_cache" where
  "cache_insert L c pid page = (let i = cache_shard c pid in c\<lparr>pc_shards := (pc_shards c)[i := lru_put L (pc_shards c ! i) pid page]\<rparr>)"

definition cache_contains :: "'c lru_ops \<Rightarrow> 'c page_cache \<Rightarrow> u64 \<Rightarrow> bool" where
  "cache_contains L c pid = lru_contains L (pc_shards c ! cache_shard c pid) pid"

definition cache_remove :: "'c lru_ops \<Rightarrow> 'c page_cache \<Rightarrow> u64 \<Rightarrow> 'c page_cache" where
  "cache_remove L c pid = (let i = cache_shard c pid in c\<lparr>pc_shards := (pc_shards c)[i := lru_pop L (pc_shards c ! i) pid]\<rparr>)"

definition cache_len :: "'c lru_ops \<Rightarrow> 'c page_cache \<Rightarrow> nat" where
  "cache_len L c = sum_list (map (lru_len L) (pc_shards c))"

definition cache_is_empty :: "'c lru_ops \<Rightarrow> 'c page_cache \<Rightarrow> bool" where
  "cache_is_empty L c \<longleftrightarrow> cache_len L c = 0"

section \<open>A provider on the cache alone\<close>

record 'c shared_provider =
  sp_pages :: "'c page_cache"
  sp_next_page_id :: u64
  sp_root :: u64

definition shared_new :: "'c page_cache \<Rightarrow> u64 \<Rightarrow> 'c shared_provider" where
  "shared_new pages next_page_id = \<lparr>sp_pages = pages, sp_next_page_id = next_page_id, sp_root = 0\<rparr>"

definition shared_page_count :: "'c lru_ops \<Rightarrow> 'c shared_provider \<Rightarrow> nat" where
  "shared_page_count L s = cache_len L (sp_pages s)"

definition shared_read_page :: "'c lru_ops \<Rightarrow> 'c shared_provider \<Rightarrow> u64 \<Rightarrow> bytes option \<times> 'c shared_provider" where
  "shared_read_page L s pid = (let (p, c) = cache_get L (sp_pages s) pid in (p, s\<lparr>sp_pages := c\<rparr>))"

definition shared_write_page :: "'c lru_ops \<Rightarrow> 'c shared_provider \<Rightarrow> u64 \<Rightarrow> bytes \<Rightarrow> 'c shared_provider" where
  "shared_write_page L s pid page = s\<lparr>sp_pages := cache_insert L (sp_pages s) pid page\<rparr>"

definition shared_alloc_page_id :: "'c shared_provider \<Rightarrow> u64 \<times> 'c shared_provider" where
  "shared_alloc_page_id s = (sp_next_page_id s, s\<lparr>sp_next_page_id := sp_next_page_id s + 1\<rparr>)"

definition shared_set_root_page_id :: "'c shared_provider \<Rightarrow> u64 \<Rightarrow> 'c shared_provider" where
  "shared_set_root_page_id s pid = s\<lparr>sp_root := pid\<rparr>"

definition shared_provider_ops :: "'c lru_ops \<Rightarrow> 'c shared_provider provider" where
  "shared_provider_ops L = \<lparr>pv_read = shared_read_page L, pv_write = shared_write_page L, pv_alloc = shared_alloc_page_id, pv_root = sp_root,
     pv_set_root = shared_set_root_page_id\<rparr>"

section \<open>The provider of the transactional engine\<close>

text \<open>The world and the LSN that a fetch has to reach are read by the fetcher.\<close>

type_synonym 'w fetcher = "'w \<Rightarrow> u64 \<Rightarrow> u64 \<Rightarrow> bytes option"

record ('c, 'w) txn_provider =
  tp_pages :: "'c page_cache"
  tp_next_page_id :: u64
  tp_root :: u64
  tp_btree_meta_page_id :: u64
  tp_dirty :: "(u64, bytes) omap option"
  tp_min_read_lsn :: u64
  tp_world :: 'w

definition txn_provider_new :: "'c page_cache \<Rightarrow> u64 \<Rightarrow> u64 \<Rightarrow> 'w \<Rightarrow> ('c, 'w) txn_provider" where
  "txn_provider_new pages next_page_id btree_meta_page_id w =
    \<lparr>tp_pages = pages, tp_next_page_id = next_page_id, tp_root = 0, tp_btree_meta_page_id = btree_meta_page_id, tp_dirty = None,
     tp_min_read_lsn = 0, tp_world = w\<rparr>"

definition txn_set_next_page_id :: "('c, 'w) txn_provider \<Rightarrow> u64 \<Rightarrow> ('c, 'w) txn_provider" where
  "txn_set_next_page_id s n = s\<lparr>tp_next_page_id := n\<rparr>"

definition txn_read_page :: "'c lru_ops \<Rightarrow> 'w fetcher \<Rightarrow> ('c, 'w) txn_provider \<Rightarrow> u64 \<Rightarrow> bytes option \<times> ('c, 'w) txn_provider" where
  "txn_read_page L fetch s pid = (let (p, c) = cache_get L (tp_pages s) pid in
    case p of Some page \<Rightarrow> (Some page, s\<lparr>tp_pages := c\<rparr>)
    | None \<Rightarrow> (case fetch (tp_world s) pid (tp_min_read_lsn s) of None \<Rightarrow> (None, s\<lparr>tp_pages := c\<rparr>)
      | Some page \<Rightarrow> (Some page, s\<lparr>tp_pages := cache_insert L c pid page\<rparr>)))"

definition note_dirty :: "u64 \<Rightarrow> bytes \<Rightarrow> ('c, 'w) txn_provider \<Rightarrow> ('c, 'w) txn_provider" where
  "note_dirty pid page s = s\<lparr>tp_dirty := map_option (om_insert pid page) (tp_dirty s)\<rparr>"

definition txn_write_page :: "'c lru_ops \<Rightarrow> ('c, 'w) txn_provider \<Rightarrow> u64 \<Rightarrow> bytes \<Rightarrow> ('c, 'w) txn_provider" where
  "txn_write_page L s pid page = note_dirty pid page (s\<lparr>tp_pages := cache_insert L (tp_pages s) pid page\<rparr>)"

definition txn_alloc_page_id :: "('c, 'w) txn_provider \<Rightarrow> u64 \<times> ('c, 'w) txn_provider" where
  "txn_alloc_page_id s = (tp_next_page_id s, s\<lparr>tp_next_page_id := tp_next_page_id s + 1\<rparr>)"

text \<open>The page \<open>BtreeMeta::encode\<close> gives; encoding cannot fail (\<open>btree_meta_encode\<close> is \<open>Ok\<close> for every root id).\<close>

definition btree_meta_page :: "u64 \<Rightarrow> bytes" where
  "btree_meta_page root = (case btree_meta_encode \<lparr>bm_root_page_id = root\<rparr> of Ok page \<Rightarrow> page | _ \<Rightarrow> [])"

definition txn_set_root_page_id :: "'c lru_ops \<Rightarrow> ('c, 'w) txn_provider \<Rightarrow> u64 \<Rightarrow> ('c, 'w) txn_provider" where
  "txn_set_root_page_id L s pid =
    (let page = btree_meta_page pid; meta = tp_btree_meta_page_id s in
     note_dirty meta page (s\<lparr>tp_root := pid, tp_pages := cache_insert L (tp_pages s) meta page\<rparr>))"

definition txn_provider_ops :: "'c lru_ops \<Rightarrow> 'w fetcher \<Rightarrow> ('c, 'w) txn_provider provider" where
  "txn_provider_ops L fetch = \<lparr>pv_read = txn_read_page L fetch, pv_write = txn_write_page L, pv_alloc = txn_alloc_page_id, pv_root = tp_root,
     pv_set_root = txn_set_root_page_id L\<rparr>"

section \<open>What an LRU cache promises\<close>

text \<open>\<open>pages c\<close> are the pages in the cache and \<open>cap c\<close> its capacity. A page that is put is in the cache afterwards; another one may
  be evicted for it, but only when the cache is full and the page is new.\<close>

locale lru_cache =
  fixes L :: "'c lru_ops" and pages :: "'c \<Rightarrow> u64 \<rightharpoonup> bytes" and cap :: "'c \<Rightarrow> nat"
  assumes new_law: "pages (lru_new L n) = Map.empty" "0 < n \<Longrightarrow> cap (lru_new L n) = n"
    and get_law: "\<exists>c'. lru_get L c pid = (pages c pid, c') \<and> pages c' = pages c \<and> cap c' = cap c"
    and put_same: "pages (lru_put L c pid p) pid = Some p" and put_cap: "cap (lru_put L c pid p) = cap c"
    and put_other: "pid \<noteq> q \<Longrightarrow> pages (lru_put L c pid p) q = pages c q \<or> pages (lru_put L c pid p) q = None"
    and put_room: "pid \<in> dom (pages c) \<or> card (dom (pages c)) < cap c \<Longrightarrow> pages (lru_put L c pid p) = (pages c)(pid \<mapsto> p)"
    and contains_law: "lru_contains L c pid \<longleftrightarrow> pid \<in> dom (pages c)"
    and pop_law: "pages (lru_pop L c pid) = (pages c)(pid := None)" "cap (lru_pop L c pid) = cap c"
    and len_law: "lru_len L c = card (dom (pages c))" and cap_law: "card (dom (pages c)) \<le> cap c"

text \<open>A cache that is never full: every page id fits.\<close>

definition view_of :: "('c \<Rightarrow> u64 \<rightharpoonup> bytes) \<Rightarrow> 'c page_cache \<Rightarrow> u64 \<rightharpoonup> bytes" where
  "view_of pages c pid = pages (pc_shards c ! cache_shard c pid) pid"

text \<open>Every shard has room for all pages of \<open>U\<close> that belong to it, and holds no others.\<close>

definition cache_room :: "('c \<Rightarrow> u64 \<rightharpoonup> bytes) \<Rightarrow> ('c \<Rightarrow> nat) \<Rightarrow> u64 set \<Rightarrow> 'c page_cache \<Rightarrow> bool" where
  "cache_room pages cap U c \<longleftrightarrow> pc_shards c \<noteq> [] \<and> (\<forall>i < length (pc_shards c).
    dom (pages (pc_shards c ! i)) \<subseteq> {q \<in> U. cache_shard c q = i} \<and> card {q \<in> U. cache_shard c q = i} \<le> cap (pc_shards c ! i))"

definition shared_view :: "('c \<Rightarrow> u64 \<rightharpoonup> bytes) \<Rightarrow> 'c shared_provider \<Rightarrow> u64 \<rightharpoonup> bytes" where
  "shared_view pages s = view_of pages (sp_pages s)"

definition txn_view :: "('c \<Rightarrow> u64 \<rightharpoonup> bytes) \<Rightarrow> 'w fetcher \<Rightarrow> ('c, 'w) txn_provider \<Rightarrow> u64 \<rightharpoonup> bytes" where
  "txn_view pages fetch s q = (case view_of pages (tp_pages s) q of Some p \<Rightarrow> Some p | None \<Rightarrow> fetch (tp_world s) q (tp_min_read_lsn s))"

definition txn_ok :: "('c \<Rightarrow> u64 \<rightharpoonup> bytes) \<Rightarrow> ('c \<Rightarrow> nat) \<Rightarrow> 'w fetcher \<Rightarrow> u64 set \<Rightarrow> u64 \<Rightarrow> ('c, 'w) txn_provider \<Rightarrow> bool" where
  "txn_ok pages cap fetch U M s \<longleftrightarrow> cache_room pages cap U (tp_pages s) \<and> tp_btree_meta_page_id s = M
    \<and> (\<forall>q need. fetch (tp_world s) q need \<noteq> None \<longrightarrow> q \<in> U)"

section \<open>A cache with room for all pages\<close>

context lru_cache
begin

lemma cache_get_ok:
  assumes r: "cache_room pages cap U c"
  shows "\<exists>c'. cache_get L c q = (view_of pages c q, c') \<and> view_of pages c' = view_of pages c \<and> cache_room pages cap U c'"
proof -
  let ?i = "cache_shard c q"
  obtain s where s: "lru_get L (pc_shards c ! ?i) q = (pages (pc_shards c ! ?i) q, s)" "pages s = pages (pc_shards c ! ?i)" "cap s = cap (pc_shards c ! ?i)"
    using get_law by blast
  let ?c = "c\<lparr>pc_shards := (pc_shards c)[?i := s]\<rparr>"
  have sh: "cache_shard ?c x = cache_shard c x" for x by (simp add: cache_shard_def)
  have "?i < length (pc_shards c)" using r by (simp add: cache_room_def cache_shard_def)
  then have "pc_shards ?c ! j = (if j = ?i then s else pc_shards c ! j)" for j by simp
  then have p: "pages (pc_shards ?c ! j) = pages (pc_shards c ! j)" "cap (pc_shards ?c ! j) = cap (pc_shards c ! j)" for j
    using s(2,3) by simp_all
  have "cache_get L c q = (view_of pages c q, ?c)" using s(1) by (simp add: cache_get_def view_of_def Let_def)
  moreover have "view_of pages ?c = view_of pages c" by (rule ext) (simp only: view_of_def sh p)
  moreover have "cache_room pages cap U ?c" using r unfolding cache_room_def sh p by simp
  ultimately show ?thesis by blast
qed

lemma cache_insert_ok:
  assumes r: "cache_room pages cap U c" and q: "q \<in> U"
  shows "view_of pages (cache_insert L c q p) = (view_of pages c)(q \<mapsto> p)" and "cache_room pages cap U (cache_insert L c q p)"
proof -
  let ?i = "cache_shard c q" let ?s = "pc_shards c ! ?i" let ?K = "{x \<in> U. cache_shard c x = ?i}"
  have i: "?i < length (pc_shards c)" using r by (simp add: cache_room_def cache_shard_def)
  have d: "dom (pages ?s) \<subseteq> ?K" "card ?K \<le> cap ?s" using r i by (auto simp: cache_room_def)
  have fin: "finite ?K" by (rule finite)
  have "q \<in> dom (pages ?s) \<or> card (dom (pages ?s)) < cap ?s"
  proof (cases "q \<in> dom (pages ?s)")
    case False
    then have "dom (pages ?s) \<subset> ?K" using d(1) q by blast
    then have "card (dom (pages ?s)) < card ?K" by (rule psubset_card_mono [OF fin])
    then show ?thesis using d(2) by linarith
  qed simp
  note put = put_room [OF this, of p] put_cap [of ?s q p]
  have c: "cache_insert L c q p = c\<lparr>pc_shards := (pc_shards c)[?i := lru_put L ?s q p]\<rparr>" (is "_ = ?c") by (simp add: cache_insert_def Let_def)
  have sh: "cache_shard ?c x = cache_shard c x" for x by (simp add: cache_shard_def)
  have p: "pages (pc_shards ?c ! j) = (if j = ?i then (pages ?s)(q \<mapsto> p) else pages (pc_shards c ! j))" "cap (pc_shards ?c ! j) = cap (pc_shards c ! j)" for j
    using put i by (cases "j = ?i"; simp)+
  show "view_of pages (cache_insert L c q p) = (view_of pages c)(q \<mapsto> p)"
  proof
    fix x
    show "view_of pages (cache_insert L c q p) x = ((view_of pages c)(q \<mapsto> p)) x"
      unfolding c view_of_def sh p by (cases "x = q"; cases "cache_shard c x = ?i") simp_all
  qed
  have "dom (pages (pc_shards ?c ! j)) \<subseteq> {x \<in> U. cache_shard c x = j} \<and> card {x \<in> U. cache_shard c x = j} \<le> cap (pc_shards ?c ! j)" if "j < length (pc_shards c)" for j
  proof -
    have "dom (pages (pc_shards c ! j)) \<subseteq> {x \<in> U. cache_shard c x = j}" "card {x \<in> U. cache_shard c x = j} \<le> cap (pc_shards c ! j)"
      using r that unfolding cache_room_def by blast+
    moreover have "dom (pages (pc_shards ?c ! j)) = (if j = ?i then insert q (dom (pages (pc_shards c ! j))) else dom (pages (pc_shards c ! j)))"
      unfolding p(1) by simp
    ultimately show ?thesis unfolding p(2) using q by (cases "j = ?i") auto
  qed
  then show "cache_room pages cap U (cache_insert L c q p)" unfolding c cache_room_def sh using r by (simp add: cache_room_def)
qed

lemma cache_new_room:
  assumes "0 < N" and "0 < k" and "\<forall>i < N. card {q \<in> U. unat q mod N = i} \<le> k" and "pc_shards c = replicate N (lru_new L k)"
  shows "cache_room pages cap U c \<and> view_of pages c = Map.empty"
proof -
  have cs: "cache_shard c q = unat q mod N" for q unfolding cache_shard_def assms(4) by simp
  have lt: "unat q mod N < N" for q :: u64 using assms(1) by simp
  have "cache_room pages cap U c" unfolding cache_room_def cs assms(4) using assms(1-3) by (simp add: new_law)
  moreover have "view_of pages c = Map.empty" unfolding view_of_def cs assms(4) using lt by (simp add: new_law fun_eq_iff)
  ultimately show ?thesis ..
qed

end

section \<open>The providers keep the contract of the tree\<close>

locale cached_pages = lru_cache L pages cap for L :: "'c lru_ops" and pages cap +
  fixes U :: "u64 set" and R :: "u64 set"
  assumes outside: "- U \<subseteq> R"

sublocale cached_pages \<subseteq> shared: page_provider "shared_provider_ops L" "\<lambda>s. cache_room pages cap U (sp_pages s)" "shared_view pages" sp_next_page_id R
proof unfold_locales
  fix s :: "'c shared_provider" and q page
  assume r: "cache_room pages cap U (sp_pages s)"
  show "\<exists>s'. pv_read (shared_provider_ops L) s q = (shared_view pages s q, s') \<and> cache_room pages cap U (sp_pages s') \<and> shared_view pages s' = shared_view pages s
      \<and> sp_next_page_id s' = sp_next_page_id s \<and> pv_root (shared_provider_ops L) s' = pv_root (shared_provider_ops L) s"
    using cache_get_ok [OF r, of q] by (auto simp: shared_provider_ops_def shared_read_page_def shared_view_def)
  show "q \<notin> R \<Longrightarrow> cache_room pages cap U (sp_pages (pv_write (shared_provider_ops L) s q page))
      \<and> shared_view pages (pv_write (shared_provider_ops L) s q page) = (shared_view pages s)(q \<mapsto> page)
      \<and> sp_next_page_id (pv_write (shared_provider_ops L) s q page) = sp_next_page_id s
      \<and> pv_root (shared_provider_ops L) (pv_write (shared_provider_ops L) s q page) = pv_root (shared_provider_ops L) s"
    using cache_insert_ok [OF r, of q page] outside by (auto simp: shared_provider_ops_def shared_write_page_def shared_view_def)
qed (auto simp: shared_provider_ops_def shared_alloc_page_id_def shared_set_root_page_id_def shared_view_def)

locale txn_pages = cached_pages L pages cap U R for L :: "'c lru_ops" and pages cap U R +
  fixes fetch :: "'w fetcher" and M :: u64
  assumes meta: "M \<in> U" "M \<in> R"

sublocale txn_pages \<subseteq> txn: page_provider "txn_provider_ops L fetch" "txn_ok pages cap fetch U M" "txn_view pages fetch" tp_next_page_id R
proof unfold_locales
  fix s :: "('c, 'w) txn_provider" and q page
  assume ok: "txn_ok pages cap fetch U M s"
  then have r: "cache_room pages cap U (tp_pages s)" and f: "\<And>q need. fetch (tp_world s) q need \<noteq> None \<Longrightarrow> q \<in> U" and m: "tp_btree_meta_page_id s = M"
    by (auto simp: txn_ok_def)
  show "\<exists>s'. pv_read (txn_provider_ops L fetch) s q = (txn_view pages fetch s q, s') \<and> txn_ok pages cap fetch U M s' \<and> txn_view pages fetch s' = txn_view pages fetch s
      \<and> tp_next_page_id s' = tp_next_page_id s \<and> pv_root (txn_provider_ops L fetch) s' = pv_root (txn_provider_ops L fetch) s"
  proof -
    obtain c where c: "cache_get L (tp_pages s) q = (view_of pages (tp_pages s) q, c)" "view_of pages c = view_of pages (tp_pages s)" "cache_room pages cap U c"
      using cache_get_ok [OF r] by blast
    show ?thesis
    proof (cases "view_of pages (tp_pages s) q")
      case None
      show ?thesis
      proof (cases "fetch (tp_world s) q (tp_min_read_lsn s)")
        case (Some p)
        then have q: "q \<in> U" using f by auto
        show ?thesis using c None Some ok cache_insert_ok [OF c(3) q, of p]
          by (auto simp: txn_provider_ops_def txn_read_page_def txn_view_def txn_ok_def fun_eq_iff cong: option.case_cong)
      qed (use c None ok in \<open>auto simp: txn_provider_ops_def txn_read_page_def txn_view_def txn_ok_def fun_eq_iff cong: option.case_cong\<close>)
    qed (use c ok in \<open>auto simp: txn_provider_ops_def txn_read_page_def txn_view_def txn_ok_def fun_eq_iff cong: option.case_cong\<close>)
  qed
  show "q \<notin> R \<Longrightarrow> txn_ok pages cap fetch U M (pv_write (txn_provider_ops L fetch) s q page)
      \<and> txn_view pages fetch (pv_write (txn_provider_ops L fetch) s q page) = (txn_view pages fetch s)(q \<mapsto> page)
      \<and> tp_next_page_id (pv_write (txn_provider_ops L fetch) s q page) = tp_next_page_id s
      \<and> pv_root (txn_provider_ops L fetch) (pv_write (txn_provider_ops L fetch) s q page) = pv_root (txn_provider_ops L fetch) s"
  proof -
    assume "q \<notin> R"
    then have "q \<in> U" using outside by auto
    from cache_insert_ok [OF r this, of page] show ?thesis using ok by (auto simp: txn_provider_ops_def txn_write_page_def note_dirty_def txn_view_def txn_ok_def fun_eq_iff cong: option.case_cong)
  qed
  show "txn_ok pages cap fetch U M (pv_set_root (txn_provider_ops L fetch) s q)
      \<and> (\<forall>x. x \<notin> R \<longrightarrow> txn_view pages fetch (pv_set_root (txn_provider_ops L fetch) s q) x = txn_view pages fetch s x)
      \<and> tp_next_page_id (pv_set_root (txn_provider_ops L fetch) s q) = tp_next_page_id s
      \<and> pv_root (txn_provider_ops L fetch) (pv_set_root (txn_provider_ops L fetch) s q) = q"
    using cache_insert_ok [OF r meta(1), of "btree_meta_page q"] meta(2) ok
    by (auto simp: txn_provider_ops_def txn_set_root_page_id_def note_dirty_def txn_view_def txn_ok_def Let_def cong: option.case_cong)
qed (auto simp: txn_provider_ops_def txn_alloc_page_id_def txn_ok_def txn_view_def fun_eq_iff cong: option.case_cong)

end
