(* ===== verification/Sequencer.thy ===== *)
theory Sequencer
  imports Common
begin

text \<open>
  Where the embedded engine gets its LSNs and sends its pages: the quorum client (\<open>quorum_client.rs\<close>), the sequencer over storage nodes
  (\<open>compute_sequencer.rs\<close>) and the in-process one with its page store (\<open>embedded_compute_runtime.rs\<close>). The enum \<open>Sequencer\<close> that
  dispatches to one or the other is the record \<open>backend\<close> of its methods.

  The RPC client of a storage node is a parameter: what connecting gives, the durable LSN a node reports, the answers of all nodes to a
  batch, and the pages they serve. Random numbers are arguments. A commit that has to wait for its turn is \<open>None\<close>.

  The lemmas show that the ranges handed out and not dispatched yet tile the LSNs between the dispatched ones and the next one, that
  only the first of them can be dispatched while every other one waits, what a quorum of answers means for the durable LSN, and that the
  durable LSN of a quorum is the highest that enough nodes have reached.
\<close>

section \<open>Quorums\<close>

definition clamp_quorum :: "nat \<Rightarrow> nat \<Rightarrow> nat" where
  "clamp_quorum quorum n = min (max quorum 1) n"

text \<open>One attempt per address: the clients that could be connected, and a message for each failure.\<close>

fun connect_all :: "(string \<Rightarrow> 'n res) \<Rightarrow> string list \<Rightarrow> 'n list \<times> string list" where
  "connect_all dial [] = ([], [])"
| "connect_all dial (addr # addrs) = (case connect_all dial addrs of (clients, errs) \<Rightarrow>
    (case dial addr of Ok c \<Rightarrow> (c # clients, errs) | Err e \<Rightarrow> (clients, (addr @ '': '' @ error_text e) # errs) | Panic \<Rightarrow> (clients, errs)))"

fun join :: "string \<Rightarrow> string list \<Rightarrow> string" where
  "join sep [] = []"
| "join sep [x] = x"
| "join sep (x # y # xs) = x @ sep @ join sep (y # xs)"

definition reach_quorum :: "'n list \<Rightarrow> string list \<Rightarrow> nat \<Rightarrow> unit res" where
  "reach_quorum clients errs quorum =
    (if length clients < quorum
     then Err (Io OtherKind (''not enough reachable storage nodes: reachable='' @ show_nat (length clients) @ '' required='' @ show_nat quorum
       @ '' (errors: '' @ join '' | '' errs @ '')''))
     else Ok ())"

fun durable_lsns :: "('n \<Rightarrow> u64 res) \<Rightarrow> 'n list \<Rightarrow> u64 list res" where
  "durable_lsns dur [] = Ok []"
| "durable_lsns dur (c # cs) = res_bind (dur c) (\<lambda>l. res_map (\<lambda>ls. l # ls) (durable_lsns dur cs))"

definition sort_desc :: "u64 list \<Rightarrow> u64 list" where
  "sort_desc ls = rev (sort ls)"

text \<open>\<open>*lsns.get(quorum - 1).unwrap_or(&0)\<close>\<close>

definition quorum_lsn :: "nat \<Rightarrow> u64 list \<Rightarrow> u64" where
  "quorum_lsn quorum ls = (if quorum - 1 < length ls then sort_desc ls ! (quorum - 1) else 0)"

record 'n quorum_client =
  qc_clients :: "'n list"
  qc_quorum :: nat

definition quorum_connect :: "(string \<Rightarrow> 'n res) \<Rightarrow> string list \<Rightarrow> nat \<Rightarrow> 'n quorum_client res" where
  "quorum_connect dial addrs quorum =
    (if addrs = [] then Err (InvalidValueSize 0 1)
     else let quorum' = clamp_quorum quorum (length addrs); (clients, errs) = connect_all dial addrs in
       res_map (\<lambda>_. \<lparr>qc_clients = clients, qc_quorum = quorum'\<rparr>) (reach_quorum clients errs quorum'))"

definition quorum_durable_lsn :: "('n \<Rightarrow> u64 res) \<Rightarrow> 'n quorum_client \<Rightarrow> u64 res" where
  "quorum_durable_lsn dur q = res_map (quorum_lsn (qc_quorum q)) (durable_lsns dur (qc_clients q))"

section \<open>The sequencer over storage nodes\<close>

abbreviation (input) MAX_WRITES_PER_TXN :: nat where "MAX_WRITES_PER_TXN \<equiv> 256"

record 'n compute_sequencer =
  cs_clients :: "'n list"
  cs_quorum :: nat
  cs_next_lsn :: u64
  cs_request_id :: u64
  cs_durable_lsn :: u64
  cs_dispatch_lsn :: u64

definition nonzero_seed :: "u64 \<Rightarrow> u64" where
  "nonzero_seed r = (if r = 0 then 1 else r)"

definition sequencer_connect :: "(string \<Rightarrow> 'n res) \<Rightarrow> ('n \<Rightarrow> u64 res) \<Rightarrow> u64 \<Rightarrow> string list \<Rightarrow> nat \<Rightarrow> 'n compute_sequencer res" where
  "sequencer_connect dial dur r addrs quorum =
    (if addrs = [] then Err (InvalidKeySize 0 1)
     else let quorum' = clamp_quorum quorum (length addrs); (clients, errs) = connect_all dial addrs in
       res_bind (reach_quorum clients errs quorum') (\<lambda>_. res_map (\<lambda>ls. let durable = quorum_lsn quorum' ls in
         \<lparr>cs_clients = clients, cs_quorum = quorum', cs_next_lsn = durable, cs_request_id = nonzero_seed r, cs_durable_lsn = durable, cs_dispatch_lsn = durable\<rparr>)
         (durable_lsns dur clients)))"

definition sequencer_allocate_request_id :: "'n compute_sequencer \<Rightarrow> u64 \<times> 'n compute_sequencer" where
  "sequencer_allocate_request_id s = (cs_request_id s, s\<lparr>cs_request_id := cs_request_id s + 1\<rparr>)"

definition sequencer_reserve :: "'n compute_sequencer \<Rightarrow> nat \<Rightarrow> u64 \<Rightarrow> (u64 \<times> u64) res \<times> 'n compute_sequencer" where
  "sequencer_reserve s n_writes request_id =
    (if n_writes = 0 then (invalid_input ''txn batch must be non-empty'', s)
     else if n_writes > MAX_WRITES_PER_TXN
       then (invalid_input (''txn batch too large: writes='' @ show_nat n_writes @ '' max='' @ show_nat MAX_WRITES_PER_TXN), s)
     else if request_id = 0 then (invalid_input ''request_id must be non-zero'', s)
     else let n = word_of_nat n_writes; start_lsn = cs_next_lsn s in
       (res_map (\<lambda>end_lsn. (start_lsn, end_lsn)) (chk_add start_lsn n), s\<lparr>cs_next_lsn := start_lsn + n\<rparr>))"

definition sequencer_reserve_txn :: "'n compute_sequencer \<Rightarrow> nat \<Rightarrow> (u64 \<times> u64 \<times> u64) res \<times> 'n compute_sequencer" where
  "sequencer_reserve_txn s n_writes =
    (case sequencer_allocate_request_id s of (request_id, s1) \<Rightarrow>
     case sequencer_reserve s1 n_writes request_id of (r, s2) \<Rightarrow> (res_map (\<lambda>(start_lsn, end_lsn). (request_id, start_lsn, end_lsn)) r, s2))"

text \<open>The loop over the answers: the acknowledged LSNs and the messages of the failures.\<close>

fun collect_acks :: "u64 \<Rightarrow> (u64 \<times> u64) res list \<Rightarrow> u64 list \<times> string list" where
  "collect_acks end_lsn [] = ([], [])"
| "collect_acks end_lsn (r # rs) = (case collect_acks end_lsn rs of (acks, errs) \<Rightarrow>
    (case r of
       Ok (commit, durable) \<Rightarrow>
         if commit \<ge> end_lsn then (commit # acks, errs)
         else if durable \<ge> end_lsn then (durable # acks, errs)
         else (acks, (''ack too small: commit='' @ show_nat (unat commit) @ '' durable='' @ show_nat (unat durable) @ '' need>='' @ show_nat (unat end_lsn)) # errs)
     | Err e \<Rightarrow> (acks, (''rpc err: '' @ error_text e) # errs)
     | Panic \<Rightarrow> (acks, errs)))"

definition quorum_error :: "nat \<Rightarrow> nat \<Rightarrow> string list \<Rightarrow> string" where
  "quorum_error acks quorum errs =
    ''quorum not reached: acks='' @ show_nat acks @ '' quorum='' @ show_nat quorum
    @ (if errs = [] then [] else ''; errors=['' @ join '' | '' (take 3 errs) @ (if length errs > 3 then '' | ...'' else []) @ '']'')"

definition stale_range :: "u64 \<Rightarrow> u64 \<Rightarrow> 'a res" where
  "stale_range start_lsn cur = invalid_input (''stale reserved range: start_lsn='' @ show_nat (unat start_lsn) @ '' dispatch_lsn='' @ show_nat (unat cur))"

text \<open>\<open>send\<close> gives the answers of all nodes to the batch, in the order of the clients, and the nodes after it.\<close>

type_synonym 'n sender = "'n list \<Rightarrow> u64 \<Rightarrow> u64 \<Rightarrow> u64 \<Rightarrow> (u64 \<times> bytes) list \<Rightarrow> (u64 \<times> u64) res list \<times> 'n list"

definition commit_reserved_txn_batch :: "'n sender \<Rightarrow> 'n compute_sequencer \<Rightarrow> u64 \<Rightarrow> u64 \<Rightarrow> u64 \<Rightarrow> (u64 \<times> bytes) list
    \<Rightarrow> (u64 res \<times> 'n compute_sequencer) option" where
  "commit_reserved_txn_batch send s request_id start_lsn end_lsn writes =
    (let cur = cs_dispatch_lsn s in
     if cur \<noteq> start_lsn then (if start_lsn < cur then Some (stale_range start_lsn cur, s) else None)
     else case send (cs_clients s) request_id start_lsn end_lsn writes of (results, clients) \<Rightarrow>
       case collect_acks end_lsn results of (acks, errs) \<Rightarrow>
       let s1 = s\<lparr>cs_clients := clients\<rparr> in
       if length acks < cs_quorum s
       then Some (Err (Io OtherKind (quorum_error (length acks) (cs_quorum s) errs)), s1\<lparr>cs_dispatch_lsn := end_lsn\<rparr>)
       else Some (Ok end_lsn, s1\<lparr>cs_durable_lsn := max (cs_durable_lsn s) (sort_desc acks ! (cs_quorum s - 1)), cs_dispatch_lsn := end_lsn\<rparr>))"

definition commit_txn_batch :: "'n sender \<Rightarrow> 'n compute_sequencer \<Rightarrow> (u64 \<times> bytes) list \<Rightarrow> (u64 res \<times> 'n compute_sequencer) option" where
  "commit_txn_batch send s writes =
    (case sequencer_reserve_txn s (length writes) of (r, s1) \<Rightarrow>
     case r of Ok (request_id, start_lsn, end_lsn) \<Rightarrow> commit_reserved_txn_batch send s1 request_id start_lsn end_lsn writes
     | Err e \<Rightarrow> Some (Err e, s1) | Panic \<Rightarrow> Some (Panic, s1))"

section \<open>The in-process sequencer\<close>

record inprocess =
  ip_pages :: "u64 \<rightharpoonup> bytes"
  ip_next_lsn :: u64
  ip_request_id :: u64
  ip_durable_lsn :: u64

definition inprocess_new :: "u64 \<Rightarrow> inprocess" where
  "inprocess_new r = \<lparr>ip_pages = Map.empty, ip_next_lsn = 0, ip_request_id = nonzero_seed r, ip_durable_lsn = 0\<rparr>"

definition put_pages :: "(u64 \<times> bytes) list \<Rightarrow> (u64 \<rightharpoonup> bytes) \<Rightarrow> u64 \<rightharpoonup> bytes" where
  "put_pages writes m = fold (\<lambda>(q, page) m. m(q \<mapsto> page)) writes m"

definition inprocess_allocate_request_id :: "inprocess \<Rightarrow> u64 \<times> inprocess" where
  "inprocess_allocate_request_id s = (ip_request_id s, s\<lparr>ip_request_id := ip_request_id s + 1\<rparr>)"

definition inprocess_reserve :: "inprocess \<Rightarrow> nat \<Rightarrow> u64 \<Rightarrow> (u64 \<times> u64) res \<times> inprocess" where
  "inprocess_reserve s n_writes request_id =
    (if n_writes = 0 then (invalid_input ''txn batch must be non-empty'', s)
     else if request_id = 0 then (invalid_input ''request_id must be non-zero'', s)
     else let n = word_of_nat n_writes; start_lsn = ip_next_lsn s in
       (res_map (\<lambda>end_lsn. (start_lsn, end_lsn)) (chk_add start_lsn n), s\<lparr>ip_next_lsn := start_lsn + n\<rparr>))"

definition inprocess_commit :: "inprocess \<Rightarrow> u64 \<Rightarrow> u64 \<Rightarrow> u64 \<Rightarrow> (u64 \<times> bytes) list \<Rightarrow> (u64 res \<times> inprocess) option" where
  "inprocess_commit s request_id start_lsn end_lsn writes =
    Some (Ok end_lsn, s\<lparr>ip_pages := put_pages writes (ip_pages s), ip_durable_lsn := max (ip_durable_lsn s) end_lsn\<rparr>)"

section \<open>Both behind one interface\<close>

record 'w backend =
  be_fetch :: "'w \<Rightarrow> u64 \<Rightarrow> u64 \<Rightarrow> bytes option"
  be_durable_lsn :: "'w \<Rightarrow> u64"
  be_allocate_request_id :: "'w \<Rightarrow> u64 \<times> 'w"
  be_reserve :: "'w \<Rightarrow> nat \<Rightarrow> u64 \<Rightarrow> (u64 \<times> u64) res \<times> 'w"
  be_commit :: "'w \<Rightarrow> u64 \<Rightarrow> u64 \<Rightarrow> u64 \<Rightarrow> (u64 \<times> bytes) list \<Rightarrow> (u64 res \<times> 'w) option"

definition be_reserve_txn :: "'w backend \<Rightarrow> 'w \<Rightarrow> nat \<Rightarrow> (u64 \<times> u64 \<times> u64) res \<times> 'w" where
  "be_reserve_txn B w n_writes =
    (case be_allocate_request_id B w of (request_id, w1) \<Rightarrow>
     case be_reserve B w1 n_writes request_id of (r, w2) \<Rightarrow> (res_map (\<lambda>(start_lsn, end_lsn). (request_id, start_lsn, end_lsn)) r, w2))"

text \<open>The fetcher of the network engine asks the first node until its durable LSN has reached what is needed, at most 200 times; an
  error is tried again. \<open>get_page\<close> gives the answer to each attempt.\<close>

fun fetch_tries :: "(nat \<Rightarrow> (bytes \<times> u64 \<times> u64) option res) \<Rightarrow> u64 \<Rightarrow> nat \<Rightarrow> nat \<Rightarrow> bytes option" where
  "fetch_tries answer need i 0 = None"
| "fetch_tries answer need i (Suc n) =
    (case answer i of
       Ok (Some (page, page_lsn, durable)) \<Rightarrow> if durable \<ge> need then Some page else fetch_tries answer need (i + 1) n
     | Ok None \<Rightarrow> None
     | _ \<Rightarrow> fetch_tries answer need (i + 1) n)"

definition network_fetch :: "('n \<Rightarrow> nat \<Rightarrow> u64 \<Rightarrow> (bytes \<times> u64 \<times> u64) option res) \<Rightarrow> 'n \<Rightarrow> u64 \<Rightarrow> u64 \<Rightarrow> bytes option" where
  "network_fetch get_page reader pid need = fetch_tries (\<lambda>i. get_page reader i pid) need 0 200"

definition network_backend :: "('n \<Rightarrow> nat \<Rightarrow> u64 \<Rightarrow> (bytes \<times> u64 \<times> u64) option res) \<Rightarrow> 'n sender \<Rightarrow> 'n compute_sequencer backend" where
  "network_backend get_page send = \<lparr>be_fetch = (\<lambda>s. network_fetch get_page (hd (cs_clients s))), be_durable_lsn = cs_durable_lsn,
     be_allocate_request_id = sequencer_allocate_request_id, be_reserve = sequencer_reserve, be_commit = commit_reserved_txn_batch send\<rparr>"

definition inprocess_backend :: "inprocess backend" where
  "inprocess_backend = \<lparr>be_fetch = (\<lambda>s pid need. ip_pages s pid), be_durable_lsn = ip_durable_lsn,
     be_allocate_request_id = inprocess_allocate_request_id, be_reserve = inprocess_reserve, be_commit = inprocess_commit\<rparr>"

text \<open>Ranges one after the other from \<open>a\<close> to \<open>b\<close>.\<close>

fun tiling :: "u64 \<Rightarrow> (u64 \<times> u64) list \<Rightarrow> u64 \<Rightarrow> bool" where
  "tiling a [] b \<longleftrightarrow> a = b"
| "tiling a ((s, e) # xs) b \<longleftrightarrow> s = a \<and> s < e \<and> tiling e xs b"

text \<open>The states of a sequencer, with the ranges that are reserved and not dispatched.\<close>

inductive seq_reach :: "'n sender \<Rightarrow> 'n compute_sequencer \<Rightarrow> (u64 \<times> u64) set \<Rightarrow> bool" for send where
  start: "cs_next_lsn s = cs_dispatch_lsn s \<Longrightarrow> seq_reach send s {}"
| reserve: "seq_reach send s rs \<Longrightarrow> sequencer_reserve s n rid = (Ok (a, b), s') \<Longrightarrow> seq_reach send s' (insert (a, b) rs)"
| refuse: "seq_reach send s rs \<Longrightarrow> sequencer_reserve s n rid = (Err e, s') \<Longrightarrow> seq_reach send s' rs"
| dispatch: "seq_reach send s rs \<Longrightarrow> (a, b) \<in> rs \<Longrightarrow> commit_reserved_txn_batch send s rid a b ws = Some (r, s') \<Longrightarrow> seq_reach send s' (rs - {(a, b)})"

section \<open>The durable LSN of a quorum\<close>

lemma sorted_nth_count:
  assumes "sorted xs" and "k < length xs"
  shows "length xs - k \<le> length (filter (\<lambda>l. xs ! k \<le> l) xs)" and "xs ! k < y \<Longrightarrow> length (filter (\<lambda>l. y \<le> l) xs) < length xs - k"
proof -
  have x: "xs = take k xs @ drop k xs" by simp
  have d: "\<forall>l \<in> set (drop k xs). xs ! k \<le> l" using assms by (auto simp: in_set_conv_nth intro!: sorted_nth_mono)
  have "length (filter (\<lambda>l. xs ! k \<le> l) xs) = length (filter (\<lambda>l. xs ! k \<le> l) (take k xs)) + length (filter (\<lambda>l. xs ! k \<le> l) (drop k xs))"
    by (subst x) (simp only: filter_append length_append)
  moreover have "filter (\<lambda>l. xs ! k \<le> l) (drop k xs) = drop k xs" using d by (simp add: filter_id_conv)
  ultimately show "length xs - k \<le> length (filter (\<lambda>l. xs ! k \<le> l) xs)" by simp
  assume y: "xs ! k < y"
  have "\<forall>l \<in> set (take (Suc k) xs). \<not> y \<le> l"
  proof
    fix l assume "l \<in> set (take (Suc k) xs)"
    then obtain i where i: "i < Suc k" "l = xs ! i" by (auto simp: in_set_conv_nth)
    then have "l \<le> xs ! k" using assms by (auto intro: sorted_nth_mono)
    then show "\<not> y \<le> l" using y by simp
  qed
  then have "filter (\<lambda>l. y \<le> l) (take (Suc k) xs) = []" by (simp add: filter_empty_conv)
  moreover have "xs = take (Suc k) xs @ drop (Suc k) xs" by simp
  then have "length (filter (\<lambda>l. y \<le> l) xs) = length (filter (\<lambda>l. y \<le> l) (take (Suc k) xs)) + length (filter (\<lambda>l. y \<le> l) (drop (Suc k) xs))"
    by (metis filter_append length_append)
  moreover have "length (filter (\<lambda>l. y \<le> l) (drop (Suc k) xs)) \<le> length xs - Suc k" by (metis length_drop length_filter_le)
  ultimately show "length (filter (\<lambda>l. y \<le> l) xs) < length xs - k" using assms(2) by simp
qed

lemma sort_desc_nth: "0 < q \<Longrightarrow> q \<le> length ls \<Longrightarrow> sort_desc ls ! (q - 1) = sort ls ! (length ls - q)"
  by (simp add: sort_desc_def rev_nth)

lemma quorum_lsn_highest:
  assumes "0 < q" and "q \<le> length ls"
  shows "q \<le> length (filter (\<lambda>l. quorum_lsn q ls \<le> l) ls)" and "quorum_lsn q ls < y \<Longrightarrow> length (filter (\<lambda>l. y \<le> l) ls) < q"
proof -
  let ?k = "length ls - q"
  have x: "quorum_lsn q ls = sort ls ! ?k" using sort_desc_nth [OF assms] assms less_le_trans [of "q - 1" q "length ls"] by (simp add: quorum_lsn_def)
  have f: "length (filter P (sort ls)) = length (filter P ls)" for P by (simp add: filter_sort)
  have k: "?k < length (sort ls)" "length (sort ls) - ?k = q" using assms by auto
  show "q \<le> length (filter (\<lambda>l. quorum_lsn q ls \<le> l) ls)" using sorted_nth_count(1) [of "sort ls" ?k] k x f by simp
  assume "quorum_lsn q ls < y"
  then show "length (filter (\<lambda>l. y \<le> l) ls) < q" using sorted_nth_count(2) [of "sort ls" ?k y] k x f by simp
qed

lemma durable_lsns_length: "durable_lsns dur cs = Ok ls \<Longrightarrow> length ls = length cs"
  by (induction cs arbitrary: ls) (auto simp: res_bind_Ok_iff res_map_Ok_iff)

text \<open>When every connected node reports its durable LSN, the quorum client gives the highest LSN that at least a quorum of them has
reached: a quorum is at or above it, and fewer than a quorum are at or above any higher one.\<close>

theorem quorum_durable_exact:
  assumes "quorum_connect dial addrs quorum = Ok q" and "durable_lsns dur (qc_clients q) = Ok ls"
  shows "\<exists>x. quorum_durable_lsn dur q = Ok x \<and> qc_quorum q \<le> length (filter (\<lambda>l. x \<le> l) ls) \<and> (\<forall>y > x. length (filter (\<lambda>l. y \<le> l) ls) < qc_quorum q)"
proof -
  have l: "length ls = length (qc_clients q)" by (rule durable_lsns_length [OF assms(2)])
  have "0 < qc_quorum q \<and> qc_quorum q \<le> length (qc_clients q)"
    using assms(1) by (auto simp: quorum_connect_def Let_def clamp_quorum_def reach_quorum_def res_map_Ok_iff split: prod.splits if_splits)
  then show ?thesis using quorum_lsn_highest [of "qc_quorum q" ls] l by (simp add: quorum_durable_lsn_def assms(2))
qed

theorem quorum_durable_exact_witness:
  "\<exists>x. quorum_durable_lsn (\<lambda>c. Ok c) \<lparr>qc_clients = [4, 9, 7], qc_quorum = 2\<rparr> = Ok x \<and> 2 \<le> length (filter (\<lambda>l. x \<le> l) [4, 9, 7])
    \<and> (\<forall>y > x. length (filter (\<lambda>l. y \<le> l) [4, 9, 7]) < 2)"
proof -
  define dial where "dial a = (if a = ''a'' then Ok 4 else if a = ''b'' then Ok 9 else Ok (7 :: u64) :: u64 res)" for a
  have "quorum_connect dial [''a'', ''b'', ''c''] 2 = Ok \<lparr>qc_clients = [4, 9, 7], qc_quorum = 2\<rparr>"
    by (simp add: quorum_connect_def clamp_quorum_def reach_quorum_def dial_def)
  from quorum_durable_exact [OF this, of "\<lambda>c. Ok c" "[4, 9, 7]"] show ?thesis by simp
qed

section \<open>The order of dispatch\<close>

lemma tiling_append: "tiling a (xs @ ys) b \<longleftrightarrow> (\<exists>m. tiling a xs m \<and> tiling m ys b)"
  by (induction a xs b rule: tiling.induct) auto

lemma tiling_le: "tiling a xs b \<Longrightarrow> a \<le> b"
  by (induction a xs b rule: tiling.induct) auto

lemma tiling_mem: "tiling a xs b \<Longrightarrow> (s, e) \<in> set xs \<Longrightarrow> a \<le> s \<and> s < e \<and> e \<le> b"
proof (induction xs arbitrary: a)
  case (Cons x xs)
  obtain s' e' where x: "x = (s', e')" by (cases x)
  show ?case using Cons x tiling_le by (auto intro: order.trans less_imp_le)
qed simp

lemma reserve_range:
  assumes "sequencer_reserve s n rid = (Ok (a, b), s')"
  shows "a = cs_next_lsn s \<and> b = cs_next_lsn s' \<and> a < b \<and> cs_dispatch_lsn s' = cs_dispatch_lsn s"
proof -
  have n: "0 < n" "n \<le> 256" and c: "chk_add (cs_next_lsn s) (word_of_nat n) = Ok b" "a = cs_next_lsn s" "s' = s\<lparr>cs_next_lsn := cs_next_lsn s + word_of_nat n\<rparr>"
    using assms by (auto simp: sequencer_reserve_def invalid_input_def Let_def res_map_Ok_iff split: if_splits)
  have u: "unat (word_of_nat n :: u64) = n" using n by (intro unat_word_of_nat_small) simp
  have b: "b = cs_next_lsn s + word_of_nat n" "unat (cs_next_lsn s) + n < 2 ^ 64" using c(1) u by (auto simp: chk_add_def split: if_splits)
  then have "unat b = unat (cs_next_lsn s) + n" using u by (simp add: unat_word_ariths)
  then have "a < b" using c(2) n by (simp add: word_less_nat_alt)
  then show ?thesis using b c by simp
qed

lemma reach_tiling: "seq_reach send s rs \<Longrightarrow> \<exists>xs. set xs = rs \<and> distinct xs \<and> tiling (cs_dispatch_lsn s) xs (cs_next_lsn s)"
proof (induction rule: seq_reach.induct)
  case (start s)
  then show ?case by (intro exI [of _ "[]"]) simp
next
  case (reserve s rs n rid a b s')
  then obtain xs where xs: "set xs = rs" "distinct xs" "tiling (cs_dispatch_lsn s) xs (cs_next_lsn s)" by blast
  have "(a, b) \<notin> set xs" using tiling_mem [OF xs(3)] reserve_range [OF reserve(2)] by force
  then show ?case using xs reserve_range [OF reserve(2)] by (intro exI [of _ "xs @ [(a, b)]"]) (auto simp: tiling_append)
next
  case (refuse s rs n rid e s')
  then have "s' = s \<or> s' = s\<lparr>cs_next_lsn := cs_next_lsn s'\<rparr>" by (auto simp: sequencer_reserve_def Let_def split: if_splits)
  moreover have "s' = s" using refuse(2) by (auto simp: sequencer_reserve_def Let_def chk_add_def split: if_splits)
  ultimately show ?case using refuse(3) by simp
next
  case (dispatch s rs a b rid ws r s')
  then obtain xs where xs: "set xs = rs" "distinct xs" "tiling (cs_dispatch_lsn s) xs (cs_next_lsn s)" by blast
  have "cs_dispatch_lsn s \<le> a" using tiling_mem [OF xs(3)] dispatch(2) xs(1) by blast
  then have a: "cs_dispatch_lsn s = a" using dispatch(3) by (auto simp: commit_reserved_txn_batch_def Let_def split: if_splits)
  then have s': "cs_dispatch_lsn s' = b" "cs_next_lsn s' = cs_next_lsn s"
    using dispatch(3) by (auto simp: commit_reserved_txn_batch_def Let_def split: if_splits prod.splits)
  obtain s0 e0 ys where ys: "xs = (s0, e0) # ys" using dispatch(2) xs(1) by (cases xs) auto
  have t: "s0 = a" "s0 < e0" "tiling e0 ys (cs_next_lsn s)" using xs(3) ys a by auto
  have "(a, b) \<notin> set ys" using tiling_mem [OF t(3), of a b] t(1,2) by auto
  then have "b = e0" using dispatch(2) xs(1) ys t(1) by auto
  then show ?case using t ys xs(1,2) s' by (intro exI [of _ ys]) auto
qed

text \<open>C22: The ranges that are reserved and not dispatched tile the LSNs from the dispatch LSN to the next one, without gap or overlap.
Exactly the range that starts at the dispatch LSN can be dispatched; a commit of any other one waits. So a reserved range that is never
committed blocks every range after it.\<close>

theorem dispatch_in_order:
  assumes "seq_reach send s rs"
  shows "(\<exists>xs. set xs = rs \<and> distinct xs \<and> tiling (cs_dispatch_lsn s) xs (cs_next_lsn s))
    \<and> (\<forall>(a, b) \<in> rs. (commit_reserved_txn_batch send s rid a b ws = None) = (a \<noteq> cs_dispatch_lsn s))"
proof -
  obtain xs where xs: "set xs = rs" "distinct xs" "tiling (cs_dispatch_lsn s) xs (cs_next_lsn s)" using reach_tiling [OF assms] by blast
  have "(commit_reserved_txn_batch send s rid a b ws = None) = (a \<noteq> cs_dispatch_lsn s)" if "(a, b) \<in> rs" for a b
  proof -
    have "cs_dispatch_lsn s \<le> a" using tiling_mem [OF xs(3)] that xs(1) by blast
    then show ?thesis by (auto simp: commit_reserved_txn_batch_def Let_def split: prod.splits)
  qed
  then show ?thesis using xs by blast
qed

theorem dispatch_in_order_witness:
  "\<exists>s. seq_reach (\<lambda>cs _ _ _ _. ([], cs)) (s :: unit compute_sequencer) {(5, 7), (7, 8)}
    \<and> commit_reserved_txn_batch (\<lambda>cs _ _ _ _. ([], cs)) s 1 7 8 [] = None \<and> commit_reserved_txn_batch (\<lambda>cs _ _ _ _. ([], cs)) s 1 5 7 [] \<noteq> None"
proof -
  let ?send = "\<lambda>cs _ _ _ _. ([], cs)" and ?s = "\<lambda>n. \<lparr>cs_clients = [()], cs_quorum = 1, cs_next_lsn = n, cs_request_id = 1, cs_durable_lsn = 5, cs_dispatch_lsn = 5\<rparr>"
  have "seq_reach ?send (?s 5) {}" by (rule seq_reach.start) simp
  then have "seq_reach ?send (?s 7) {(5, 7)}" by (rule seq_reach.reserve [where n = 2 and rid = 1]) (simp add: sequencer_reserve_def chk_add_def Let_def)
  then have "seq_reach ?send (?s 8) (insert (7, 8) {(5, 7)})" by (rule seq_reach.reserve [where n = 1 and rid = 2]) (simp add: sequencer_reserve_def chk_add_def Let_def)
  then have r: "seq_reach ?send (?s 8) {(5, 7), (7, 8)}" by (simp add: insert_commute)
  from dispatch_in_order [OF r, of 1 "[]"] show ?thesis using r by (intro exI [of _ "?s 8"]) auto
qed

section \<open>Acknowledgement by a quorum\<close>

lemma acks_reached: "collect_acks e rs = (acks, errs) \<Longrightarrow>
  (\<forall>x \<in> set acks. e \<le> x) \<and> length acks = length (filter (\<lambda>r. \<exists>c d. r = Ok (c, d) \<and> (e \<le> c \<or> e \<le> d)) rs)"
  by (induction rs arbitrary: acks errs) (auto split: prod.splits result.splits if_splits)

text \<open>C23: A commit on the storage nodes succeeds exactly when at least a quorum of their answers carries a commit or durable LSN that has
reached the end of the range. Then it gives the end of the range, and the durable LSN of the sequencer has reached it and has not gone back;
in both cases the next range may be dispatched.\<close>

theorem network_commit_quorum:
  assumes "cs_dispatch_lsn s = a" and "send (cs_clients s) rid a b ws = (results, clients)" and "0 < cs_quorum s"
  shows "\<exists>r s'. commit_reserved_txn_batch send s rid a b ws = Some (r, s') \<and> cs_dispatch_lsn s' = b
    \<and> (r = Ok b \<longleftrightarrow> cs_quorum s \<le> length (filter (\<lambda>r. \<exists>c d. r = Ok (c, d) \<and> (b \<le> c \<or> b \<le> d)) results))
    \<and> (r = Ok b \<longrightarrow> b \<le> cs_durable_lsn s') \<and> (r \<noteq> Ok b \<longrightarrow> cs_durable_lsn s' = cs_durable_lsn s) \<and> cs_durable_lsn s \<le> cs_durable_lsn s'"
proof -
  obtain acks errs where c: "collect_acks b results = (acks, errs)" by (cases "collect_acks b results")
  note k = acks_reached [OF c]
  have "b \<le> sort_desc acks ! (cs_quorum s - 1)" if "cs_quorum s \<le> length acks"
  proof -
    have "cs_quorum s - 1 < length (sort_desc acks)" using that assms(3) by (simp add: sort_desc_def)
    from nth_mem [OF this] show ?thesis using k by (simp add: sort_desc_def)
  qed
  then show ?thesis using k assms c by (auto simp: commit_reserved_txn_batch_def Let_def not_less intro: order.trans [OF _ max.cobounded2])
qed

theorem network_commit_quorum_witness:
  "\<exists>r s'. commit_reserved_txn_batch (\<lambda>cs _ _ _ _. ([Ok (7, 7), Err TxnTimeout, Ok (3, 8)], cs))
      \<lparr>cs_clients = [(), (), ()], cs_quorum = 2, cs_next_lsn = 7, cs_request_id = 1, cs_durable_lsn = 5, cs_dispatch_lsn = 5\<rparr> 1 5 7 [] = Some (r, s')
    \<and> r = Ok 7 \<and> 7 \<le> cs_durable_lsn s'"
  using network_commit_quorum [of "\<lparr>cs_clients = [(), (), ()], cs_quorum = 2, cs_next_lsn = 7, cs_request_id = 1, cs_durable_lsn = 5, cs_dispatch_lsn = 5\<rparr>" 5
      "\<lambda>cs _ _ _ _. ([Ok (7, 7), Err TxnTimeout, Ok (3, 8)], cs)" 1 7 "[]" "[Ok (7, 7), Err TxnTimeout, Ok (3, 8)]" "[(), (), ()]"]
  by auto

end
