(* ===== verification/Engine.thy ===== *)
theory Engine
  imports Page_Cache Sequencer Index_Catalog Active_Reads
begin

text \<open>
  The state of the embedded engine and what its transactions share (\<open>EmbeddedCompute\<close> in \<open>embedded_compute.rs\<close>): the tree over the
  transactional page provider, the registry of pending transactions, the resolution of their intents, the page cache with its fetcher,
  commits of prepared pages, and the purging of undo segments.

  An operation is a program on the engine. The tasks of the engine run on one thread and change over only where they wait; a program is
  an operation that runs alone, and what the other tasks do while it sleeps on a pending transaction is a parameter: \<open>ee_sleep\<close> gives
  the engine after the sleep and whether the sleeper was notified or its deadline has passed. Time is a number of milliseconds in the
  state. The iteration order of the hash map of the indexes is a parameter too.
\<close>

unbundle bit_operations_syntax

section \<open>Programs\<close>

definition gets :: "('s \<Rightarrow> 'a) \<Rightarrow> ('s, 'a) prog" where
  "gets f s = Some (Ok (f s), s)"

definition modify :: "('s \<Rightarrow> 's) \<Rightarrow> ('s, unit) prog" where
  "modify f s = Some (Ok (), f s)"

definition update :: "('s \<Rightarrow> 'a \<times> 's) \<Rightarrow> ('s, 'a) prog" where
  "update f s = (case f s of (a, s') \<Rightarrow> Some (Ok a, s'))"

definition update_res :: "('s \<Rightarrow> 'a res \<times> 's) \<Rightarrow> ('s, 'a) prog" where
  "update_res f s = Some (f s)"

text \<open>The result of a call as a value, as \<open>if let Err(e)\<close> and \<open>let _\<close> take it. A panic is not caught.\<close>

definition attempt :: "('s, 'a) prog \<Rightarrow> ('s, 'a res) prog" where
  "attempt m s = Option.bind (m s) (\<lambda>(r, s'). case r of Panic \<Rightarrow> Some (Panic, s') | _ \<Rightarrow> Some (Ok r, s'))"

definition forget :: "('s, 'a) prog \<Rightarrow> ('s, unit) prog" where
  "forget m = andThen (attempt m) (\<lambda>_. ret ())"

text \<open>A \<open>for\<close> loop that may return early with an error.\<close>

fun for_each :: "('a \<Rightarrow> ('s, unit) prog) \<Rightarrow> 'a list \<Rightarrow> ('s, unit) prog" where
  "for_each f [] = ret ()"
| "for_each f (x # xs) = andThen (f x) (\<lambda>_. for_each f xs)"

text \<open>A \<open>loop\<close> whose body gives the next cursor or the value the loop ends with.\<close>

partial_function (option) loop_until :: "('c \<Rightarrow> ('s, 'c + 'a) prog) \<Rightarrow> 'c \<Rightarrow> ('s, 'a) prog" where
  "loop_until body c s = Option.bind (body c s) (\<lambda>(r, s'). case r of
     Ok (Inl c') \<Rightarrow> loop_until body c' s'
   | Ok (Inr a) \<Rightarrow> Some (Ok a, s')
   | Err e \<Rightarrow> Some (Err e, s')
   | Panic \<Rightarrow> Some (Panic, s'))"

section \<open>State\<close>

abbreviation (input) FLAG_INTENT :: u16 where "FLAG_INTENT \<equiv> 2"
abbreviation (input) ROW_TOMBSTONE :: u16 where "ROW_TOMBSTONE \<equiv> 1"
abbreviation (input) META_PAGE_ID :: u64 where "META_PAGE_ID \<equiv> 0"
abbreviation (input) BTREE_META_PAGE_ID :: u64 where "BTREE_META_PAGE_ID \<equiv> 8"
abbreviation (input) UNDO_BASE :: u64 where "UNDO_BASE \<equiv> 2000000"

record pending_txn =
  pt_deadline :: nat
  pt_write_keys :: "(bytes, unit) omap"

record ('c, 'w) engine =
  en_tree :: "('c, 'w) txn_provider tree"
  en_active_reads :: active_reads
  en_indexes :: index_manager
  en_posting_log :: posting_log_state
  en_registry :: "u64 \<rightharpoonup> pending_txn"
  en_default_rw_txn_timeout :: nat
  en_now :: nat

record ('c, 'w) engine_env =
  ee_lru :: "'c lru_ops"
  ee_backend :: "'w backend"
  ee_scan :: "('w \<Rightarrow> u64 \<Rightarrow> u32 \<Rightarrow> (u64 \<times> u64 \<times> bytes) list res) option"
  ee_order :: "index_manager \<Rightarrow> index_state list"
  ee_sleep :: "u64 \<Rightarrow> nat \<Rightarrow> ('c, 'w) engine \<Rightarrow> bool \<times> ('c, 'w) engine"

definition ee_provider :: "('c, 'w) engine_env \<Rightarrow> ('c, 'w) txn_provider provider" where
  "ee_provider G = txn_provider_ops (ee_lru G) (be_fetch (ee_backend G))"

definition en_provider :: "('c, 'w) engine \<Rightarrow> ('c, 'w) txn_provider" where
  "en_provider e = bt_pages (en_tree e)"

definition on_tree :: "(('c, 'w) txn_provider tree, 'a) prog \<Rightarrow> (('c, 'w) engine, 'a) prog" where
  "on_tree m e = map_option (\<lambda>(r, t). (r, e\<lparr>en_tree := t\<rparr>)) (m (en_tree e))"

definition on_provider :: "(('c, 'w) txn_provider \<Rightarrow> 'a \<times> ('c, 'w) txn_provider) \<Rightarrow> (('c, 'w) engine, 'a) prog" where
  "on_provider f = on_tree (\<lambda>t. case f (bt_pages t) of (a, s) \<Rightarrow> Some (Ok a, t\<lparr>bt_pages := s\<rparr>))"

definition on_cache :: "('c page_cache \<Rightarrow> 'a \<times> 'c page_cache) \<Rightarrow> (('c, 'w) engine, 'a) prog" where
  "on_cache f = on_provider (\<lambda>s. case f (tp_pages s) of (a, c) \<Rightarrow> (a, s\<lparr>tp_pages := c\<rparr>))"

definition on_world :: "('w \<Rightarrow> 'a res \<times> 'w) \<Rightarrow> (('c, 'w) engine, 'a) prog" where
  "on_world f = andThen (on_provider (\<lambda>s. case f (tp_world s) of (r, w) \<Rightarrow> (r, s\<lparr>tp_world := w\<rparr>))) lift"

section \<open>Cached pages\<close>

definition cached_page :: "('c, 'w) engine_env \<Rightarrow> u64 \<Rightarrow> (('c, 'w) engine, bytes option) prog" where
  "cached_page G pid = on_cache (\<lambda>c. cache_get (ee_lru G) c pid)"

definition cache_page :: "('c, 'w) engine_env \<Rightarrow> u64 \<Rightarrow> bytes \<Rightarrow> (('c, 'w) engine, unit) prog" where
  "cache_page G pid page = on_cache (\<lambda>c. ((), cache_insert (ee_lru G) c pid page))"

definition fetch_page :: "('c, 'w) engine_env \<Rightarrow> u64 \<Rightarrow> u64 \<Rightarrow> (('c, 'w) engine, bytes option) prog" where
  "fetch_page G pid need = gets (\<lambda>e. be_fetch (ee_backend G) (tp_world (en_provider e)) pid need)"

definition get_page :: "('c, 'w) engine_env \<Rightarrow> u64 \<Rightarrow> u64 \<Rightarrow> (('c, 'w) engine, bytes option) prog" where
  "get_page G pid need_lsn =
    andThen (cached_page G pid) (\<lambda>p. case p of Some page \<Rightarrow> ret (Some page) | None \<Rightarrow>
    andThen (fetch_page G pid need_lsn) (\<lambda>p. case p of None \<Rightarrow> ret None | Some page \<Rightarrow>
    andThen (cache_page G pid page) (\<lambda>_. ret (Some page))))"

definition need_page :: "('c, 'w) engine_env \<Rightarrow> u64 \<Rightarrow> u64 \<Rightarrow> (('c, 'w) engine, bytes) prog" where
  "need_page G pid need_lsn = andThen (get_page G pid need_lsn) (\<lambda>p. lift (ok_or (InMemoryPageMissing pid) p))"

definition warmed_pages :: "('c, 'w) engine_env \<Rightarrow> (('c, 'w) engine, nat) prog" where
  "warmed_pages G = gets (\<lambda>e. cache_len (ee_lru G) (tp_pages (en_provider e)))"

definition saturating_succ :: "u64 \<Rightarrow> u64" where
  "saturating_succ x = (if x = - 1 then x else x + 1)"

definition warmup_step :: "('c, 'w) engine_env \<Rightarrow> ('w \<Rightarrow> u64 \<Rightarrow> u32 \<Rightarrow> (u64 \<times> u64 \<times> bytes) list res) \<Rightarrow> u32 \<Rightarrow> u64 \<Rightarrow> (('c, 'w) engine, u64 option) prog" where
  "warmup_step G scan limit start =
    andThen (gets (\<lambda>e. scan (tp_world (en_provider e)) start limit)) (\<lambda>r. andThen (lift r) (\<lambda>pages.
      if pages = [] then ret None
      else andThen (for_each (\<lambda>(pid, _, page). cache_page G pid page) pages) (\<lambda>_. ret (Some (saturating_succ (fst (last pages)))))))"

definition warmup_scan_all :: "('c, 'w) engine_env \<Rightarrow> u32 \<Rightarrow> (('c, 'w) engine, nat) prog" where
  "warmup_scan_all G limit_per_batch =
    (case ee_scan G of None \<Rightarrow> warmed_pages G
     | Some scan \<Rightarrow> andThen (run_loop (warmup_step G scan (max limit_per_batch 1)) 0) (\<lambda>_. warmed_pages G))"

section \<open>Snapshots and pending transactions\<close>

definition engine_durable_lsn :: "('c, 'w) engine_env \<Rightarrow> ('c, 'w) engine \<Rightarrow> u64" where
  "engine_durable_lsn G e = be_durable_lsn (ee_backend G) (tp_world (en_provider e))"

definition begin_ro_guard :: "('c, 'w) engine_env \<Rightarrow> (('c, 'w) engine, u64 \<times> u64) prog" where
  "begin_ro_guard G = update (\<lambda>e. let read_lsn = engine_durable_lsn G e in
    case register read_lsn (en_active_reads e) of (guard, ar) \<Rightarrow> ((read_lsn, guard), e\<lparr>en_active_reads := ar\<rparr>))"

definition engine_gc_lsn :: "('c, 'w) engine_env \<Rightarrow> ('c, 'w) engine \<Rightarrow> u64" where
  "engine_gc_lsn G e = (case min_read_lsn (en_active_reads e) of Some l \<Rightarrow> l | None \<Rightarrow> engine_durable_lsn G e)"

definition register_pending_txn :: "u64 \<Rightarrow> nat \<Rightarrow> ('c, 'w) engine \<Rightarrow> ('c, 'w) engine" where
  "register_pending_txn txn_id deadline e = e\<lparr>en_registry := (en_registry e)(txn_id \<mapsto> \<lparr>pt_deadline = deadline, pt_write_keys = []\<rparr>)\<rparr>"

definition record_txn_write :: "u64 \<Rightarrow> bytes \<Rightarrow> ('c, 'w) engine \<Rightarrow> ('c, 'w) engine" where
  "record_txn_write txn_id key e =
    (case en_registry e txn_id of None \<Rightarrow> e
     | Some p \<Rightarrow> e\<lparr>en_registry := (en_registry e)(txn_id \<mapsto> p\<lparr>pt_write_keys := om_insert key () (pt_write_keys p)\<rparr>)\<rparr>)"

definition remove_pending_txn :: "u64 \<Rightarrow> ('c, 'w) engine \<Rightarrow> ('c, 'w) engine" where
  "remove_pending_txn txn_id e = e\<lparr>en_registry := (en_registry e)(txn_id := None)\<rparr>"

definition intent_timeout :: "u64 \<Rightarrow> 'a res" where
  "intent_timeout txn_id = Err (Io WouldBlock (''timed out waiting for intent txn_id='' @ show_nat (unat txn_id) @ '' deadline_with_grace_elapsed''))"

definition wait_step :: "('c, 'w) engine_env \<Rightarrow> u64 \<Rightarrow> nat \<Rightarrow> unit \<Rightarrow> (('c, 'w) engine, unit option) prog" where
  "wait_step G txn_id grace _ e =
    (case en_registry e txn_id of None \<Rightarrow> Some (Ok None, e)
     | Some p \<Rightarrow> let deadline = pt_deadline p + grace in
       if en_now e \<ge> deadline then Some (intent_timeout txn_id, e)
       else case ee_sleep G txn_id deadline e of (notified, e') \<Rightarrow> if notified then Some (Ok (Some ()), e') else Some (intent_timeout txn_id, e'))"

definition wait_on_pending_txn :: "('c, 'w) engine_env \<Rightarrow> u64 \<Rightarrow> nat \<Rightarrow> (('c, 'w) engine, unit) prog" where
  "wait_on_pending_txn G txn_id grace = run_loop (wait_step G txn_id grace) ()"

section \<open>Rolling back the intents of a transaction\<close>

definition has_flag :: "u16 \<Rightarrow> u16 \<Rightarrow> bool" where
  "has_flag flags f \<longleftrightarrow> flags AND f \<noteq> 0"

definition owns_intent :: "u64 \<Rightarrow> leaf_value \<Rightarrow> bool" where
  "owns_intent txn_id row \<longleftrightarrow> has_flag (lm_flags (lv_meta row)) FLAG_INTENT \<and> lm_intent_txn_id (lv_meta row) = txn_id"

definition restored_row :: "undo_record \<Rightarrow> leaf_value" where
  "restored_row rec = \<lparr>lv_value = ur_old_value rec, lv_meta = \<lparr>lm_commit_lsn = ur_old_commit_lsn rec, lm_undo_ptr = ur_prev rec,
     lm_flags = ur_old_flags rec AND NOT FLAG_INTENT, lm_intent_txn_id = 0, lm_intent_lsn = 0\<rparr>\<rparr>"

definition resolve_step :: "('c, 'w) engine_env \<Rightarrow> u64 \<Rightarrow> bytes \<Rightarrow> undo_ptr option \<Rightarrow> (('c, 'w) engine, undo_ptr option option) prog" where
  "resolve_step G txn_id key undo =
    (case undo of
       None \<Rightarrow> andThen (on_tree (bt_get (ee_provider G) key)) (\<lambda>latest. case latest of
         Some row \<Rightarrow> if owns_intent txn_id row \<and> lm_undo_ptr (lv_meta row) = None
           then andThen (on_tree (bt_remove (ee_provider G) key)) (\<lambda>_. ret None) else ret None
       | None \<Rightarrow> ret None)
     | Some ptr \<Rightarrow>
       andThen (cached_page G (up_page_id ptr)) (\<lambda>p. andThen (lift (ok_or (InMemoryPageMissing (up_page_id ptr)) p)) (\<lambda>upage.
       andThen (lift (read_record_ref upage (up_slot_id ptr))) (\<lambda>rec.
       if has_flag (ur_old_flags rec) FLAG_INTENT then ret (Some (ur_prev rec))
       else andThen (on_tree (bt_get (ee_provider G) key)) (\<lambda>latest.
         if ur_old_commit_lsn rec = 0 \<and> ur_prev rec = None
         then (case latest of Some row \<Rightarrow> if owns_intent txn_id row then andThen (on_tree (bt_remove (ee_provider G) key)) (\<lambda>_. ret None) else ret None
           | None \<Rightarrow> ret None)
         else (case latest of Some row \<Rightarrow> if owns_intent txn_id row
             then andThen (on_tree (bt_insert (ee_provider G) key (restored_row rec))) (\<lambda>_. ret None) else ret None
           | None \<Rightarrow> ret None))))))"

definition resolve_key :: "('c, 'w) engine_env \<Rightarrow> u64 \<Rightarrow> bytes \<Rightarrow> (('c, 'w) engine, unit) prog" where
  "resolve_key G txn_id key =
    andThen (on_tree (bt_get (ee_provider G) key)) (\<lambda>current. case current of
      None \<Rightarrow> ret ()
    | Some row \<Rightarrow> if \<not> owns_intent txn_id row then ret () else run_loop (resolve_step G txn_id key) (lm_undo_ptr (lv_meta row)))"

definition resolve_txn_intents :: "('c, 'w) engine_env \<Rightarrow> u64 \<Rightarrow> bytes list \<Rightarrow> (('c, 'w) engine, unit) prog" where
  "resolve_txn_intents G txn_id keys = for_each (resolve_key G txn_id) keys"

text \<open>One round of the reaper; \<open>ids\<close> are the ids of the registry in the order of its iteration.\<close>

definition expired :: "('c, 'w) engine \<Rightarrow> u64 \<Rightarrow> bool" where
  "expired e txn_id \<longleftrightarrow> (case en_registry e txn_id of None \<Rightarrow> False | Some p \<Rightarrow> pt_deadline p \<le> en_now e)"

definition reap_one :: "('c, 'w) engine_env \<Rightarrow> u64 \<Rightarrow> (('c, 'w) engine, unit) prog" where
  "reap_one G txn_id =
    andThen (gets (\<lambda>e. if expired e txn_id then map fst (pt_write_keys (the (en_registry e txn_id))) else [])) (\<lambda>write_keys.
    andThen (forget (resolve_txn_intents G txn_id write_keys)) (\<lambda>_. modify (remove_pending_txn txn_id)))"

definition reap :: "('c, 'w) engine_env \<Rightarrow> u64 list \<Rightarrow> (('c, 'w) engine, unit) prog" where
  "reap G ids = andThen (gets (\<lambda>e. filter (expired e) ids)) (for_each (reap_one G))"

section \<open>Committing prepared pages\<close>

definition dedup_pages :: "(u64 \<times> bytes) list \<Rightarrow> (u64, bytes) omap" where
  "dedup_pages pages = fold (\<lambda>(pid, p) m. om_insert pid p m) pages []"

fun check_page_sizes :: "(u64 \<times> bytes) list \<Rightarrow> unit res" where
  "check_page_sizes [] = Ok ()"
| "check_page_sizes ((pid, p) # ps) = (if length p \<noteq> PAGE_SIZE then Err (InvalidPageSize (length p) PAGE_SIZE) else check_page_sizes ps)"

text \<open>\<open>Sequencer::commit_pages_reserved\<close>: a commit that has to wait for its turn is \<open>None\<close>, as no other task runs.\<close>

definition sequencer_commit :: "('c, 'w) engine_env \<Rightarrow> u64 \<Rightarrow> u64 \<Rightarrow> u64 \<Rightarrow> (u64 \<times> bytes) list \<Rightarrow> (('c, 'w) engine, u64) prog" where
  "sequencer_commit G request_id start_lsn end_lsn writes e =
    Option.bind (be_commit (ee_backend G) (tp_world (en_provider e)) request_id start_lsn end_lsn writes) (\<lambda>(r, w). on_world (\<lambda>_. (r, w)) e)"

definition commit_pages_reserved :: "('c, 'w) engine_env \<Rightarrow> u64 \<Rightarrow> u64 \<Rightarrow> u64 \<Rightarrow> (u64 \<times> bytes) list \<Rightarrow> (('c, 'w) engine, u64) prog" where
  "commit_pages_reserved G request_id start_lsn end_lsn pages =
    (let writes = dedup_pages pages in
     andThen (lift (check_page_sizes writes)) (\<lambda>_. andThen (sequencer_commit G request_id start_lsn end_lsn writes) (\<lambda>commit_lsn.
     andThen (for_each (\<lambda>(pid, p). cache_page G pid p) writes) (\<lambda>_. ret commit_lsn))))"

definition reserve_txn :: "('c, 'w) engine_env \<Rightarrow> nat \<Rightarrow> (('c, 'w) engine, u64 \<times> u64 \<times> u64) prog" where
  "reserve_txn G n = on_world (\<lambda>w. be_reserve_txn (ee_backend G) w n)"

definition write_pages_direct :: "('c, 'w) engine_env \<Rightarrow> (u64 \<times> bytes) list \<Rightarrow> (('c, 'w) engine, u64) prog" where
  "write_pages_direct G pages =
    (if pages = [] then gets (engine_durable_lsn G)
     else andThen (reserve_txn G (max (length pages) 1)) (\<lambda>(request_id, start_lsn, end_lsn). commit_pages_reserved G request_id start_lsn end_lsn pages))"

section \<open>Purging undo segments\<close>

text \<open>The pages of a segment are put on the free list one after the other.\<close>

definition free_step :: "('c, 'w) engine_env \<Rightarrow> u64 \<Rightarrow> u64 \<times> meta_page \<Rightarrow> (('c, 'w) engine, u64 \<times> meta_page + meta_page) prog" where
  "free_step G gc_lsn = (\<lambda>(pid, meta).
    if pid = 0 then ret (Inr meta)
    else andThen (need_page G pid gc_lsn) (\<lambda>page. andThen (lift (page_next_id page)) (\<lambda>next_pid. ret (Inl (next_pid, push_free_undo meta pid)))))"

text \<open>The segment at the head of the history leaves it: what the metadata and the pages to write become.\<close>

definition unlink_head :: "('c, 'w) engine_env \<Rightarrow> u64 \<Rightarrow> u64 \<Rightarrow> meta_page \<Rightarrow> (u64, bytes) omap \<Rightarrow> (('c, 'w) engine, meta_page \<times> (u64, bytes) omap) prog" where
  "unlink_head G gc_lsn nxt meta dirty_pages =
    (if nxt = 0 then ret (meta\<lparr>mp_undo_history_head := 0, mp_undo_history_tail := 0\<rparr>, dirty_pages)
     else andThen (need_page G nxt gc_lsn) (\<lambda>next_page. andThen (lift (read_segment_header next_page)) (\<lambda>next_hdr.
       andThen (lift (write_segment_header next_page (next_hdr\<lparr>seg_history_prev := 0\<rparr>))) (\<lambda>page.
       ret (meta\<lparr>mp_undo_history_head := nxt\<rparr>, om_insert nxt page dirty_pages)))))"

definition purge_step :: "('c, 'w) engine_env \<Rightarrow> u64 \<Rightarrow> meta_page \<times> (u64, bytes) omap
    \<Rightarrow> (('c, 'w) engine, meta_page \<times> (u64, bytes) omap + meta_page \<times> (u64, bytes) omap) prog" where
  "purge_step G gc_lsn = (\<lambda>(meta, dirty_pages).
    let head = mp_undo_history_head meta in
    if head = 0 then ret (Inr (meta, dirty_pages))
    else andThen (need_page G head gc_lsn) (\<lambda>head_page. andThen (lift (read_segment_header head_page)) (\<lambda>head_hdr.
      if seg_state head_hdr \<noteq> SEGMENT_STATE_COMMITTED \<or> seg_commit_lsn head_hdr > gc_lsn then ret (Inr (meta, dirty_pages))
      else andThen (unlink_head G gc_lsn (seg_history_next head_hdr) meta dirty_pages) (\<lambda>(meta1, dirty1).
        andThen (loop_until (free_step G gc_lsn) (seg_first_page_id head_hdr, meta1)) (\<lambda>meta2.
        andThen (lift (write_segment_header head_page (head_hdr\<lparr>seg_state := SEGMENT_STATE_PURGED, seg_history_prev := 0, seg_history_next := 0\<rparr>)))
          (\<lambda>page. ret (Inl (meta2, om_insert head page dirty1))))))))"

definition gc_purge_undo_segments :: "('c, 'w) engine_env \<Rightarrow> u64 \<Rightarrow> (('c, 'w) engine, unit) prog" where
  "gc_purge_undo_segments G gc_lsn =
    andThen (cached_page G META_PAGE_ID) (\<lambda>p. andThen (case p of Some page \<Rightarrow> ret page | None \<Rightarrow> need_page G META_PAGE_ID gc_lsn) (\<lambda>meta_bytes.
    andThen (lift (meta_decode meta_bytes)) (\<lambda>meta. andThen (loop_until (purge_step G gc_lsn) (meta, [])) (\<lambda>(meta', dirty_pages).
      if dirty_pages = [] then ret ()
      else andThen (lift (meta_encode meta')) (\<lambda>meta_page.
        let pages = om_insert META_PAGE_ID meta_page dirty_pages in
        andThen (reserve_txn G (max (length pages) 1)) (\<lambda>(request_id, start_lsn, end_lsn).
        andThen (commit_pages_reserved G request_id start_lsn end_lsn pages) (\<lambda>_. ret ())))))))"

end
