(* ===== verification/Engine_Txn.thy ===== *)
theory Engine_Txn
  imports Engine
begin

text \<open>
  The transactions of the embedded engine (\<open>EmbeddedTxn\<close> in \<open>embedded_compute.rs\<close> and \<open>embedded_compute_visibility.rs\<close>): snapshot reads
  along the undo chain, writes as intents with an undo record, scans, abort, and the commit.

  A program of a transaction runs on the transaction and the engine. The task-local dirty map of the page provider is the map of the
  transaction while one of its tree operations runs. A transaction is consumed by its commit and its abort, and dropped at the end of
  the calls that make one for themselves; in each case its read guard is released.
\<close>

unbundle bit_operations_syntax

section \<open>State\<close>

record embedded_txn =
  tx_read_lsn :: u64
  tx_read_guard :: "u64 option"
  tx_started_at :: nat
  tx_timeout :: "nat option"
  tx_read_only :: bool
  tx_write_attempted :: bool
  tx_dirty :: "(u64, bytes) omap"
  tx_bptree_dirty :: "(u64, bytes) omap"
  tx_ro_cache :: "(u64, bytes) omap"
  tx_modified :: "(bytes, unit) omap"
  tx_secondary_mutations :: "index_mutation list"
  tx_undo_txn_id :: "u64 option"
  tx_intent_base_lsn :: u64
  tx_undo_segment_first_page_id :: "u64 option"
  tx_undo_segment_last_page_id :: "u64 option"
  tx_undo_segment_last_record :: "undo_ptr option"
  tx_undo_segment_record_count :: u32

type_synonym ('c, 'w) txn_run = "embedded_txn \<times> ('c, 'w) engine"

definition on_engine :: "(('c, 'w) engine, 'a) prog \<Rightarrow> (('c, 'w) txn_run, 'a) prog" where
  "on_engine m = (\<lambda>(x, e). map_option (\<lambda>(r, e'). (r, x, e')) (m e))"

definition on_txn :: "(embedded_txn \<Rightarrow> embedded_txn) \<Rightarrow> (('c, 'w) txn_run, unit) prog" where
  "on_txn f = modify (\<lambda>(x, e). (f x, e))"

definition of_txn :: "(embedded_txn \<Rightarrow> 'a) \<Rightarrow> (('c, 'w) txn_run, 'a) prog" where
  "of_txn f = gets (\<lambda>(x, e). f x)"

definition set_provider :: "('c, 'w) txn_provider \<Rightarrow> ('c, 'w) engine \<Rightarrow> ('c, 'w) engine" where
  "set_provider s e = e\<lparr>en_tree := (en_tree e)\<lparr>bt_pages := s\<rparr>\<rparr>"

definition take_guard :: "('c, 'w) txn_run \<Rightarrow> ('c, 'w) txn_run" where
  "take_guard = (\<lambda>(x, e). case tx_read_guard x of None \<Rightarrow> (x, e)
    | Some guard \<Rightarrow> (x\<lparr>tx_read_guard := None\<rparr>, e\<lparr>en_active_reads := unregister guard (en_active_reads e)\<rparr>))"

text \<open>A call that consumes the transaction, or at whose end it is dropped.\<close>

definition consume :: "(('c, 'w) txn_run, 'a) prog \<Rightarrow> embedded_txn \<Rightarrow> (('c, 'w) engine, 'a) prog" where
  "consume m x e = map_option (\<lambda>(r, run). (r, snd (take_guard run))) (m (x, e))"

definition engine_begin_tx :: "('c, 'w) engine_env \<Rightarrow> bool \<Rightarrow> nat option \<Rightarrow> (('c, 'w) engine, embedded_txn) prog" where
  "engine_begin_tx G read_only timeout = update (\<lambda>e.
    let read_lsn = engine_durable_lsn G e; s = en_provider e; s1 = s\<lparr>tp_min_read_lsn := max (tp_min_read_lsn s) read_lsn\<rparr>;
      (guard, ar) = register read_lsn (en_active_reads e);
      (txn_id, w) = (if read_only then (None, tp_world s1) else case be_allocate_request_id (ee_backend G) (tp_world s1) of (i, w) \<Rightarrow> (Some i, w)) in
    (\<lparr>tx_read_lsn = read_lsn, tx_read_guard = Some guard, tx_started_at = en_now e, tx_timeout = timeout, tx_read_only = read_only,
      tx_write_attempted = False, tx_dirty = [], tx_bptree_dirty = [], tx_ro_cache = [], tx_modified = [], tx_secondary_mutations = [],
      tx_undo_txn_id = txn_id, tx_intent_base_lsn = (if read_only then 0 else read_lsn), tx_undo_segment_first_page_id = None,
      tx_undo_segment_last_page_id = None, tx_undo_segment_last_record = None, tx_undo_segment_record_count = 0\<rparr>,
     set_provider (s1\<lparr>tp_world := w\<rparr>) (e\<lparr>en_active_reads := ar\<rparr>)))"

definition registry_deadline :: "nat \<Rightarrow> embedded_txn \<Rightarrow> nat" where
  "registry_deadline default_timeout x = tx_started_at x + (case tx_timeout x of Some t \<Rightarrow> t | None \<Rightarrow> default_timeout)"

definition begin_rw_with :: "('c, 'w) engine_env \<Rightarrow> nat option \<Rightarrow> (('c, 'w) engine, embedded_txn) prog" where
  "begin_rw_with G timeout =
    andThen (engine_begin_tx G False timeout) (\<lambda>x. case tx_undo_txn_id x of None \<Rightarrow> ret x
    | Some txn_id \<Rightarrow> andThen (modify (\<lambda>e. register_pending_txn txn_id (registry_deadline (en_default_rw_txn_timeout e) x) e)) (\<lambda>_. ret x))"

definition engine_begin_rw :: "('c, 'w) engine_env \<Rightarrow> (('c, 'w) engine, embedded_txn) prog" where
  "engine_begin_rw G = begin_rw_with G None"

definition engine_begin_ro_timeout :: "('c, 'w) engine_env \<Rightarrow> nat \<Rightarrow> (('c, 'w) engine, embedded_txn) prog" where
  "engine_begin_ro_timeout G timeout = engine_begin_tx G True (Some timeout)"

definition engine_begin_rw_timeout :: "('c, 'w) engine_env \<Rightarrow> nat \<Rightarrow> (('c, 'w) engine, embedded_txn) prog" where
  "engine_begin_rw_timeout G timeout = begin_rw_with G (Some timeout)"

definition ensure_not_timed_out :: "(('c, 'w) txn_run, unit) prog" where
  "ensure_not_timed_out = (\<lambda>(x, e). Some (case tx_timeout x of Some timeout \<Rightarrow> if en_now e - tx_started_at x > timeout then Err TxnTimeout else Ok ()
    | None \<Rightarrow> Ok (), x, e))"

section \<open>Pages and the tree\<close>

definition with_bptree_dirty :: "(('c, 'w) txn_provider tree, 'a) prog \<Rightarrow> (('c, 'w) txn_run, 'a) prog" where
  "with_bptree_dirty m = (\<lambda>(x, e). map_option (\<lambda>(r, e'). let s = en_provider e' in
      (r, x\<lparr>tx_bptree_dirty := (case tp_dirty s of Some d \<Rightarrow> d | None \<Rightarrow> [])\<rparr>, set_provider (s\<lparr>tp_dirty := None\<rparr>) e'))
    (on_tree m (set_provider ((en_provider e)\<lparr>tp_dirty := Some (tx_bptree_dirty x)\<rparr>) e)))"

definition merge_bptree_dirty :: "embedded_txn \<Rightarrow> embedded_txn" where
  "merge_bptree_dirty x = x\<lparr>tx_dirty := fold (\<lambda>(pid, page) m. om_insert pid page m) (tx_bptree_dirty x) (tx_dirty x)\<rparr>"

definition tree_get :: "('c, 'w) engine_env \<Rightarrow> bytes \<Rightarrow> (('c, 'w) txn_run, leaf_value option) prog" where
  "tree_get G key = with_bptree_dirty (bt_get (ee_provider G) key)"

definition tree_insert :: "('c, 'w) engine_env \<Rightarrow> bytes \<Rightarrow> leaf_value \<Rightarrow> (('c, 'w) txn_run, unit) prog" where
  "tree_insert G key v = with_bptree_dirty (bt_insert (ee_provider G) key v)"

definition tree_remove :: "('c, 'w) engine_env \<Rightarrow> bytes \<Rightarrow> (('c, 'w) txn_run, unit) prog" where
  "tree_remove G key = with_bptree_dirty (bt_remove (ee_provider G) key)"

definition tree_range :: "('c, 'w) engine_env \<Rightarrow> bytes \<Rightarrow> bytes \<Rightarrow> (('c, 'w) txn_run, (bytes \<times> leaf_value) list) prog" where
  "tree_range G start end_key = with_bptree_dirty (bt_range (ee_provider G) start end_key)"

definition tree_range_meta :: "('c, 'w) engine_env \<Rightarrow> bytes \<Rightarrow> bytes \<Rightarrow> (('c, 'w) txn_run, (bytes \<times> leaf_value_meta) list) prog" where
  "tree_range_meta G start end_key = with_bptree_dirty (bt_range_meta (ee_provider G) start end_key)"

definition txn_stage_page :: "('c, 'w) engine_env \<Rightarrow> u64 \<Rightarrow> bytes \<Rightarrow> (('c, 'w) txn_run, unit) prog" where
  "txn_stage_page G pid page = andThen (of_txn tx_read_only) (\<lambda>ro.
    if ro then on_txn (\<lambda>x. x\<lparr>tx_write_attempted := True\<rparr>)
    else andThen (on_txn (\<lambda>x. x\<lparr>tx_dirty := om_insert pid page (tx_dirty x)\<rparr>)) (\<lambda>_. on_engine (cache_page G pid page)))"

definition get_page_for_read :: "('c, 'w) engine_env \<Rightarrow> u64 \<Rightarrow> (('c, 'w) txn_run, bytes option) prog" where
  "get_page_for_read G pid =
    andThen (of_txn (\<lambda>x. (om_lookup (tx_dirty x) pid, om_lookup (tx_ro_cache x) pid))) (\<lambda>(d, c).
    case d of Some p \<Rightarrow> ret (Some p) | None \<Rightarrow> (case c of Some p \<Rightarrow> ret (Some p) | None \<Rightarrow>
    andThen (on_engine (cached_page G pid)) (\<lambda>p. case p of
      Some page \<Rightarrow> andThen (on_txn (\<lambda>x. x\<lparr>tx_ro_cache := om_insert pid page (tx_ro_cache x)\<rparr>)) (\<lambda>_. ret (Some page))
    | None \<Rightarrow> andThen (of_txn tx_read_lsn) (\<lambda>read_lsn. andThen (on_engine (fetch_page G pid read_lsn)) (\<lambda>p. case p of None \<Rightarrow> ret None
      | Some page \<Rightarrow> andThen (on_engine (cache_page G pid page)) (\<lambda>_.
          andThen (on_txn (\<lambda>x. x\<lparr>tx_ro_cache := om_insert pid page (tx_ro_cache x)\<rparr>)) (\<lambda>_. ret (Some page))))))))"

section \<open>Undo records\<close>

definition read_only_error :: "'a res" where
  "read_only_error = Err (Io OtherKind ''read-only transaction'')"

definition alloc_undo_page :: "meta_page \<Rightarrow> (u64 \<times> meta_page) res" where
  "alloc_undo_page meta = (case pop_free_undo meta of
     (Some free, meta') \<Rightarrow> Ok (free, meta')
   | (None, meta') \<Rightarrow> res_map (\<lambda>n. (mp_next_undo_page_id meta', meta'\<lparr>mp_next_undo_page_id := n\<rparr>)) (chk_add (mp_next_undo_page_id meta') 1))"

definition undo_meta :: "('c, 'w) engine_env \<Rightarrow> (('c, 'w) txn_run, meta_page) prog" where
  "undo_meta G =
    andThen (on_engine (cached_page G META_PAGE_ID)) (\<lambda>c. andThen (of_txn (\<lambda>x. om_lookup (tx_dirty x) META_PAGE_ID)) (\<lambda>d.
    andThen (lift (ok_or (InMemoryPageMissing META_PAGE_ID) (case c of Some p \<Rightarrow> Some p | None \<Rightarrow> d))) (\<lambda>meta_bytes.
    andThen (lift (meta_decode meta_bytes)) (\<lambda>meta.
    ret (if mp_next_undo_page_id meta < UNDO_BASE then meta\<lparr>mp_next_undo_page_id := UNDO_BASE\<rparr> else meta)))))"

text \<open>The page the next record goes to: the last one of the segment, or the first one of a new segment.\<close>

definition undo_segment :: "('c, 'w) engine_env \<Rightarrow> u64 \<Rightarrow> meta_page \<Rightarrow> (('c, 'w) txn_run, u64 \<times> meta_page) prog" where
  "undo_segment G txn_id meta = andThen (of_txn tx_undo_segment_last_page_id) (\<lambda>l. case l of Some pid \<Rightarrow> ret (pid, meta)
    | None \<Rightarrow> andThen (lift (alloc_undo_page meta)) (\<lambda>(pid, meta').
      andThen (on_txn (\<lambda>x. x\<lparr>tx_undo_segment_first_page_id := Some pid, tx_undo_segment_last_page_id := Some pid\<rparr>)) (\<lambda>_.
      andThen (txn_stage_page G pid (new_undo_segment_page txn_id pid)) (\<lambda>_. ret (pid, meta')))))"

definition undo_page_image :: "('c, 'w) engine_env \<Rightarrow> u64 \<Rightarrow> (('c, 'w) txn_run, bytes) prog" where
  "undo_page_image G pid =
    andThen (of_txn (\<lambda>x. (om_lookup (tx_dirty x) pid, om_lookup (tx_ro_cache x) pid))) (\<lambda>(d, c).
    case d of Some p \<Rightarrow> ret p | None \<Rightarrow>
    andThen (on_engine (cached_page G pid)) (\<lambda>p. lift (ok_or (InMemoryPageMissing pid) (case p of Some page \<Rightarrow> Some page | None \<Rightarrow> c))))"

text \<open>A record that does not fit goes to a new page behind the current one.\<close>

definition place_record :: "('c, 'w) engine_env \<Rightarrow> undo_record \<Rightarrow> u64 \<Rightarrow> bytes \<Rightarrow> meta_page \<Rightarrow> (('c, 'w) txn_run, u64 \<times> bytes \<times> u16 \<times> meta_page) prog" where
  "place_record G rec pid page meta = (case append_record page rec of
     Ok (page', slot) \<Rightarrow> ret (pid, page', slot, meta)
   | Err _ \<Rightarrow> andThen (lift (alloc_undo_page meta)) (\<lambda>(new_pid, meta'). andThen (lift (set_page_next_id page new_pid)) (\<lambda>linked.
       andThen (txn_stage_page G pid linked) (\<lambda>_. andThen (lift (append_record new_undo_page rec)) (\<lambda>(page', slot).
       ret (new_pid, page', slot, meta')))))
   | Panic \<Rightarrow> lift Panic)"

definition saturating_succ32 :: "u32 \<Rightarrow> u32" where
  "saturating_succ32 x = (if x = - 1 then x else x + 1)"

definition append_undo :: "('c, 'w) engine_env \<Rightarrow> undo_ptr option \<Rightarrow> u64 \<Rightarrow> u16 \<Rightarrow> bytes \<Rightarrow> (('c, 'w) txn_run, undo_ptr) prog" where
  "append_undo G prev old_commit_lsn old_flags old_value =
    (if length old_value \<noteq> VALUE_SIZE then lift (Err (InvalidValueSize (length old_value) VALUE_SIZE))
     else andThen (of_txn tx_undo_txn_id) (\<lambda>t. andThen (case t of Some i \<Rightarrow> ret i | None \<Rightarrow> lift read_only_error) (\<lambda>txn_id.
       andThen (undo_meta G) (\<lambda>meta. andThen (undo_segment G txn_id meta) (\<lambda>(current_id, meta1).
       andThen (undo_page_image G current_id) (\<lambda>page. andThen (of_txn tx_undo_segment_last_record) (\<lambda>last_record.
       andThen (place_record G \<lparr>ur_data_page_id = 0, ur_data_slot_id = 0, ur_prev = prev, ur_txn_id = txn_id, ur_txn_next = last_record,
           ur_old_commit_lsn = old_commit_lsn, ur_old_flags = old_flags, ur_old_value = old_value\<rparr> current_id page meta1) (\<lambda>(pid, page', slot, meta2).
       let ptr = \<lparr>up_page_id = pid, up_slot_id = slot\<rparr> in
       andThen (on_txn (\<lambda>x. x\<lparr>tx_undo_segment_last_page_id := Some pid, tx_undo_segment_last_record := Some ptr,
           tx_undo_segment_record_count := saturating_succ32 (tx_undo_segment_record_count x)\<rparr>)) (\<lambda>_.
       andThen (txn_stage_page G pid page') (\<lambda>_. andThen (lift (meta_encode meta2)) (\<lambda>meta_bytes.
       andThen (txn_stage_page G META_PAGE_ID meta_bytes) (\<lambda>_. ret ptr))))))))))))"

section \<open>Writes\<close>

definition foreign_intent :: "u64 \<Rightarrow> 'a res" where
  "foreign_intent txn_id = Err (Io WouldBlock (''encountered foreign intent txn_id='' @ show_nat (unat txn_id)))"

definition is_intent :: "leaf_value \<Rightarrow> bool" where
  "is_intent row \<longleftrightarrow> has_flag (lm_flags (lv_meta row)) FLAG_INTENT"

definition own_intent :: "embedded_txn \<Rightarrow> leaf_value \<Rightarrow> bool" where
  "own_intent x row \<longleftrightarrow> is_intent row \<and> tx_undo_txn_id x = Some (lm_intent_txn_id (lv_meta row))"

definition undo_for :: "('c, 'w) engine_env \<Rightarrow> leaf_value \<Rightarrow> (('c, 'w) txn_run, undo_ptr) prog" where
  "undo_for G old = append_undo G (lm_undo_ptr (lv_meta old)) (lm_commit_lsn (lv_meta old)) (lm_flags (lv_meta old)) (lv_value old)"

definition intent_row :: "embedded_txn \<Rightarrow> bytes \<Rightarrow> u16 \<Rightarrow> undo_ptr option \<Rightarrow> u64 \<Rightarrow> leaf_value" where
  "intent_row x v flags undo intent_lsn = \<lparr>lv_value = v, lv_meta = \<lparr>lm_commit_lsn = 0, lm_undo_ptr = undo, lm_flags = flags,
     lm_intent_txn_id = (case tx_undo_txn_id x of Some i \<Rightarrow> i | None \<Rightarrow> 0), lm_intent_lsn = intent_lsn\<rparr>\<rparr>"

definition plan_row :: "('c, 'w) engine_env \<Rightarrow> bytes \<Rightarrow> bytes option \<Rightarrow> bytes option \<Rightarrow> (('c, 'w) txn_run, index_mutation list) prog" where
  "plan_row G key old_value new_value = andThen (gets (\<lambda>(x, e). plan_mutations key old_value new_value (ee_order G (en_indexes e)))) lift"

definition note_write :: "bytes \<Rightarrow> index_mutation list \<Rightarrow> (('c, 'w) txn_run, unit) prog" where
  "note_write key planned = modify (\<lambda>(x, e).
    (x\<lparr>tx_modified := om_insert key () (tx_modified x), tx_secondary_mutations := tx_secondary_mutations x @ planned\<rparr>,
     case tx_undo_txn_id x of Some txn_id \<Rightarrow> record_txn_write txn_id key e | None \<Rightarrow> e))"

definition txn_put :: "('c, 'w) engine_env \<Rightarrow> bytes \<Rightarrow> bytes \<Rightarrow> (('c, 'w) txn_run, unit) prog" where
  "txn_put G key value =
    andThen ensure_not_timed_out (\<lambda>_. andThen (of_txn tx_read_only) (\<lambda>ro. if ro then lift read_only_error else
    andThen (tree_get G key) (\<lambda>existing.
    if length value \<noteq> VALUE_SIZE \<or> length key \<noteq> KEY_SIZE then lift Panic else
    andThen (plan_row G key (map_option lv_value existing) (Some value)) (\<lambda>planned.
    andThen (of_txn id) (\<lambda>x.
    andThen (case existing of
        None \<Rightarrow> ret (intent_row x value FLAG_INTENT None (tx_intent_base_lsn x))
      | Some old \<Rightarrow> if own_intent x old then ret (intent_row x value FLAG_INTENT (lm_undo_ptr (lv_meta old)) (lm_intent_lsn (lv_meta old)))
          else if is_intent old then lift (foreign_intent (lm_intent_txn_id (lv_meta old)))
          else andThen (undo_for G old) (\<lambda>ptr. ret (intent_row x value FLAG_INTENT (Some ptr) (tx_intent_base_lsn x)))) (\<lambda>row.
    andThen (tree_insert G key row) (\<lambda>_. note_write key planned)))))))"

definition txn_delete :: "('c, 'w) engine_env \<Rightarrow> bytes \<Rightarrow> (('c, 'w) txn_run, unit) prog" where
  "txn_delete G key =
    andThen ensure_not_timed_out (\<lambda>_. andThen (of_txn tx_read_only) (\<lambda>ro. if ro then lift read_only_error else
    andThen (tree_get G key) (\<lambda>existing. case existing of None \<Rightarrow> ret () | Some old \<Rightarrow>
    if length key \<noteq> KEY_SIZE then lift Panic else
    andThen (plan_row G key (Some (lv_value old)) None) (\<lambda>planned.
    andThen (of_txn id) (\<lambda>x.
    if is_intent old \<and> \<not> own_intent x old then lift (foreign_intent (lm_intent_txn_id (lv_meta old))) else
    andThen (if own_intent x old then ret (lm_undo_ptr (lv_meta old)) else andThen (undo_for G old) (\<lambda>ptr. ret (Some ptr))) (\<lambda>undo.
    andThen (tree_insert G key (intent_row x (lv_value old) (ROW_TOMBSTONE OR FLAG_INTENT) undo
        (if own_intent x old then lm_intent_lsn (lv_meta old) else tx_intent_base_lsn x))) (\<lambda>_. note_write key planned)))))))"

section \<open>Visible versions\<close>

definition live_value :: "u16 \<Rightarrow> bytes \<Rightarrow> bytes option" where
  "live_value flags v = (if has_flag flags ROW_TOMBSTONE then None else Some v)"

definition undo_step :: "('c, 'w) engine_env \<Rightarrow> undo_ptr option \<Rightarrow> (('c, 'w) txn_run, undo_ptr option + bytes option) prog" where
  "undo_step G undo = (case undo of None \<Rightarrow> ret (Inr None) | Some ptr \<Rightarrow>
    andThen (get_page_for_read G (up_page_id ptr)) (\<lambda>p. andThen (lift (ok_or (InMemoryPageMissing (up_page_id ptr)) p)) (\<lambda>upage.
    andThen (lift (read_record_ref upage (up_slot_id ptr))) (\<lambda>rec. andThen (of_txn tx_read_lsn) (\<lambda>read_lsn.
    if has_flag (ur_old_flags rec) FLAG_INTENT then ret (Inl (ur_prev rec))
    else if ur_old_commit_lsn rec \<le> read_lsn then ret (Inr (live_value (ur_old_flags rec) (ur_old_value rec)))
    else ret (Inl (ur_prev rec)))))))"

definition read_visible_from_undo :: "('c, 'w) engine_env \<Rightarrow> undo_ptr option \<Rightarrow> (('c, 'w) txn_run, bytes option) prog" where
  "read_visible_from_undo G undo = loop_until (undo_step G) undo"

definition undo_exists_step :: "('c, 'w) engine_env \<Rightarrow> undo_ptr option \<Rightarrow> (('c, 'w) txn_run, undo_ptr option + bool) prog" where
  "undo_exists_step G undo = (case undo of None \<Rightarrow> ret (Inr False) | Some ptr \<Rightarrow>
    andThen (get_page_for_read G (up_page_id ptr)) (\<lambda>p. andThen (lift (ok_or (InMemoryPageMissing (up_page_id ptr)) p)) (\<lambda>upage.
    andThen (lift (read_record_ref upage (up_slot_id ptr))) (\<lambda>rec. andThen (of_txn tx_read_lsn) (\<lambda>read_lsn.
    if has_flag (ur_old_flags rec) FLAG_INTENT then ret (Inl (ur_prev rec))
    else if ur_old_commit_lsn rec \<le> read_lsn then ret (Inr (\<not> has_flag (ur_old_flags rec) ROW_TOMBSTONE))
    else ret (Inl (ur_prev rec)))))))"

definition read_visible_exists_from_undo :: "('c, 'w) engine_env \<Rightarrow> undo_ptr option \<Rightarrow> (('c, 'w) txn_run, bool) prog" where
  "read_visible_exists_from_undo G undo = loop_until (undo_exists_step G) undo"

abbreviation (input) INTENT_WAIT_GRACE :: nat where "INTENT_WAIT_GRACE \<equiv> 50"

definition value_step :: "('c, 'w) engine_env \<Rightarrow> bytes \<Rightarrow> unit \<Rightarrow> (('c, 'w) txn_run, unit + bytes option) prog" where
  "value_step G key _ =
    andThen ensure_not_timed_out (\<lambda>_. andThen (tree_get G key) (\<lambda>r. case r of None \<Rightarrow> ret (Inr None) | Some row \<Rightarrow>
    let m = lv_meta row in andThen (of_txn id) (\<lambda>x.
    if is_intent row
    then if own_intent x row then ret (Inr (live_value (lm_flags m) (lv_value row)))
      else if lm_intent_lsn m > tx_read_lsn x then andThen (read_visible_from_undo G (lm_undo_ptr m)) (\<lambda>v. ret (Inr v))
      else andThen (on_engine (wait_on_pending_txn G (lm_intent_txn_id m) INTENT_WAIT_GRACE)) (\<lambda>_. ret (Inl ()))
    else if lm_commit_lsn m \<le> tx_read_lsn x then ret (Inr (live_value (lm_flags m) (lv_value row)))
    else andThen (read_visible_from_undo G (lm_undo_ptr m)) (\<lambda>v. ret (Inr v)))))"

definition read_visible_value_from_row :: "('c, 'w) engine_env \<Rightarrow> bytes \<Rightarrow> (('c, 'w) txn_run, bytes option) prog" where
  "read_visible_value_from_row G key = loop_until (value_step G key) ()"

definition exists_step :: "('c, 'w) engine_env \<Rightarrow> bytes \<Rightarrow> unit \<Rightarrow> (('c, 'w) txn_run, unit + bool) prog" where
  "exists_step G key _ =
    andThen ensure_not_timed_out (\<lambda>_. andThen (tree_get G key) (\<lambda>r. case r of None \<Rightarrow> ret (Inr False) | Some row \<Rightarrow>
    let m = lv_meta row in andThen (of_txn id) (\<lambda>x.
    if is_intent row
    then if own_intent x row then ret (Inr (\<not> has_flag (lm_flags m) ROW_TOMBSTONE))
      else if lm_intent_lsn m > tx_read_lsn x then andThen (read_visible_exists_from_undo G (lm_undo_ptr m)) (\<lambda>v. ret (Inr v))
      else andThen (on_engine (wait_on_pending_txn G (lm_intent_txn_id m) INTENT_WAIT_GRACE)) (\<lambda>_. ret (Inl ()))
    else if lm_commit_lsn m \<le> tx_read_lsn x then ret (Inr (\<not> has_flag (lm_flags m) ROW_TOMBSTONE))
    else andThen (read_visible_exists_from_undo G (lm_undo_ptr m)) (\<lambda>v. ret (Inr v)))))"

definition read_visible_exists_from_row :: "('c, 'w) engine_env \<Rightarrow> bytes \<Rightarrow> (('c, 'w) txn_run, bool) prog" where
  "read_visible_exists_from_row G key = loop_until (exists_step G key) ()"

definition read_visible_value_from_scan_entry :: "('c, 'w) engine_env \<Rightarrow> bytes \<Rightarrow> leaf_value \<Rightarrow> (('c, 'w) txn_run, bytes option) prog" where
  "read_visible_value_from_scan_entry G key row = (let m = lv_meta row in andThen (of_txn id) (\<lambda>x.
    if is_intent row
    then if own_intent x row then ret (live_value (lm_flags m) (lv_value row))
      else if lm_intent_lsn m > tx_read_lsn x then read_visible_from_undo G (lm_undo_ptr m)
      else andThen (on_engine (wait_on_pending_txn G (lm_intent_txn_id m) INTENT_WAIT_GRACE)) (\<lambda>_. read_visible_value_from_row G key)
    else if lm_commit_lsn m \<le> tx_read_lsn x then ret (live_value (lm_flags m) (lv_value row))
    else read_visible_from_undo G (lm_undo_ptr m)))"

definition read_visible_exists_from_scan_entry :: "('c, 'w) engine_env \<Rightarrow> bytes \<Rightarrow> leaf_value_meta \<Rightarrow> (('c, 'w) txn_run, bool) prog" where
  "read_visible_exists_from_scan_entry G key m = andThen (of_txn id) (\<lambda>x.
    if has_flag (lm_flags m) FLAG_INTENT
    then if tx_undo_txn_id x = Some (lm_intent_txn_id m) then ret (\<not> has_flag (lm_flags m) ROW_TOMBSTONE)
      else if lm_intent_lsn m > tx_read_lsn x then read_visible_exists_from_undo G (lm_undo_ptr m)
      else andThen (on_engine (wait_on_pending_txn G (lm_intent_txn_id m) INTENT_WAIT_GRACE)) (\<lambda>_. read_visible_exists_from_row G key)
    else if lm_commit_lsn m \<le> tx_read_lsn x then ret (\<not> has_flag (lm_flags m) ROW_TOMBSTONE)
    else read_visible_exists_from_undo G (lm_undo_ptr m))"

section \<open>Reads\<close>

definition check_key :: "bytes \<Rightarrow> ('s, unit) prog" where
  "check_key key = lift (if length key \<noteq> KEY_SIZE then Err (InvalidKeySize (length key) KEY_SIZE) else Ok ())"

definition txn_get :: "('c, 'w) engine_env \<Rightarrow> bytes \<Rightarrow> (('c, 'w) txn_run, bytes option) prog" where
  "txn_get G key = andThen ensure_not_timed_out (\<lambda>_. andThen (check_key key) (\<lambda>_. read_visible_value_from_row G key))"

definition txn_get_exists :: "('c, 'w) engine_env \<Rightarrow> bytes \<Rightarrow> (('c, 'w) txn_run, bool) prog" where
  "txn_get_exists G key = andThen ensure_not_timed_out (\<lambda>_. andThen (check_key key) (\<lambda>_. read_visible_exists_from_row G key))"

text \<open>The loop over the entries of a scan; \<open>out\<close> are the rows found so far.\<close>

fun scan_entries :: "('a \<Rightarrow> (('c, 'w) txn_run, bytes option) prog) \<Rightarrow> ('a \<Rightarrow> bytes) \<Rightarrow> nat \<Rightarrow> 'a list \<Rightarrow> (bytes \<times> bytes) list
    \<Rightarrow> (('c, 'w) txn_run, (bytes \<times> bytes) list) prog" where
  "scan_entries rd key_of limit [] out = ret out"
| "scan_entries rd key_of limit (a # as) out = andThen (rd a) (\<lambda>v. case v of None \<Rightarrow> scan_entries rd key_of limit as out
    | Some value \<Rightarrow> let out' = out @ [(key_of a, value)] in if length out' \<ge> limit then ret out' else scan_entries rd key_of limit as out')"

definition txn_scan_range :: "('c, 'w) engine_env \<Rightarrow> bytes \<Rightarrow> bytes \<Rightarrow> nat \<Rightarrow> (('c, 'w) txn_run, (bytes \<times> bytes) list) prog" where
  "txn_scan_range G start end_key limit =
    andThen ensure_not_timed_out (\<lambda>_. andThen (check_key start) (\<lambda>_. andThen (check_key end_key) (\<lambda>_.
    if limit = 0 then ret []
    else andThen (tree_range G start end_key) (\<lambda>entries. scan_entries (\<lambda>(k, row). read_visible_value_from_scan_entry G k row) fst limit entries []))))"

fun count_entries :: "('c, 'w) engine_env \<Rightarrow> nat \<Rightarrow> (bytes \<times> leaf_value_meta) list \<Rightarrow> nat \<Rightarrow> (('c, 'w) txn_run, nat) prog" where
  "count_entries G limit [] visible = ret visible"
| "count_entries G limit ((k, row) # entries) visible = andThen (read_visible_exists_from_scan_entry G k row) (\<lambda>b.
    if b then if visible + 1 \<ge> limit then ret (visible + 1) else count_entries G limit entries (visible + 1) else count_entries G limit entries visible)"

definition txn_scan_range_exists_count :: "('c, 'w) engine_env \<Rightarrow> bytes \<Rightarrow> bytes \<Rightarrow> nat \<Rightarrow> (('c, 'w) txn_run, nat) prog" where
  "txn_scan_range_exists_count G start end_key limit =
    andThen ensure_not_timed_out (\<lambda>_. andThen (check_key start) (\<lambda>_. andThen (check_key end_key) (\<lambda>_.
    if limit = 0 then ret 0 else andThen (tree_range_meta G start end_key) (\<lambda>entries. count_entries G limit entries 0))))"

definition txn_scan_secondary_index_eq :: "('c, 'w) engine_env \<Rightarrow> bytes \<Rightarrow> bytes \<Rightarrow> nat \<Rightarrow> (('c, 'w) txn_run, (bytes \<times> bytes) list) prog" where
  "txn_scan_secondary_index_eq G index_name secondary_key limit =
    andThen ensure_not_timed_out (\<lambda>_. if limit = 0 then ret []
    else andThen (gets (\<lambda>(x, e). query_equal (en_indexes e) index_name secondary_key (tx_read_lsn x) limit)) (\<lambda>r. andThen (lift r) (\<lambda>pks.
      scan_entries (read_visible_value_from_row G) id limit pks [])))"

section \<open>Abort\<close>

definition txn_abort :: "('c, 'w) engine_env \<Rightarrow> embedded_txn \<Rightarrow> (('c, 'w) engine, unit) prog" where
  "txn_abort G = consume (andThen (of_txn id) (\<lambda>x. if tx_read_only x then ret ()
    else let txn_id = (case tx_undo_txn_id x of Some i \<Rightarrow> i | None \<Rightarrow> 0) in
      andThen (attempt (on_engine (resolve_txn_intents G txn_id (map fst (tx_modified x))))) (\<lambda>out.
      andThen (on_engine (modify (remove_pending_txn txn_id))) (\<lambda>_. lift out))))"

section \<open>The posting log of a commit\<close>

text \<open>The loop that appends mutations to the tail page of the posting log and starts a new tail when one is full. The state of the
  log and the pages to write are changed on the way, also when a record cannot be appended.\<close>

record log_run =
  lr_state :: posting_log_state
  lr_pages :: "(u64, bytes) omap"
  lr_tail_page_id :: u64
  lr_tail_page :: bytes

definition log_next :: "u64 \<Rightarrow> log_run \<Rightarrow> index_mutation \<Rightarrow> unit res \<times> log_run" where
  "log_next commit_lsn lr mu =
    (let new_id = pl_next_page_id (lr_state lr); lr1 = lr\<lparr>lr_state := (lr_state lr)\<lparr>pl_next_page_id := saturating_succ new_id\<rparr>\<rparr> in
     case write_posting_next_page_id (lr_tail_page lr) new_id of
       Ok linked \<Rightarrow> let lr2 = lr1\<lparr>lr_pages := om_insert (lr_tail_page_id lr) linked (lr_pages lr)\<rparr> in
         (case res_bind new_log_page (\<lambda>page. append_posting_record page commit_lsn mu) of
            Ok (True, page) \<Rightarrow> (Ok (), lr2\<lparr>lr_tail_page := page, lr_tail_page_id := new_id, lr_state := (lr_state lr2)\<lparr>pl_tail_page_id := new_id\<rparr>\<rparr>)
          | Ok (False, _) \<Rightarrow> (invalid_input ''posting mutation record too large'', lr2)
          | Err err \<Rightarrow> (Err err, lr2)
          | Panic \<Rightarrow> (Panic, lr2))
     | Err err \<Rightarrow> (Err err, lr1)
     | Panic \<Rightarrow> (Panic, lr1))"

definition log_one :: "u64 \<Rightarrow> log_run \<Rightarrow> index_mutation \<Rightarrow> unit res \<times> log_run" where
  "log_one commit_lsn lr mu =
    (case append_posting_record (lr_tail_page lr) commit_lsn mu of
       Ok (True, page) \<Rightarrow> (Ok (), lr\<lparr>lr_tail_page := page\<rparr>)
     | Ok (False, _) \<Rightarrow> log_next commit_lsn lr mu
     | Err err \<Rightarrow> (Err err, lr)
     | Panic \<Rightarrow> (Panic, lr))"

fun log_all :: "u64 \<Rightarrow> log_run \<Rightarrow> index_mutation list \<Rightarrow> unit res \<times> log_run" where
  "log_all commit_lsn lr [] = (Ok (), lr)"
| "log_all commit_lsn lr (mu # ms) = (case log_one commit_lsn lr mu of (Ok _, lr') \<Rightarrow> log_all commit_lsn lr' ms | (r, lr') \<Rightarrow> (r, lr'))"

definition log_start :: "posting_log_state \<Rightarrow> log_run res" where
  "log_start st =
    (let new_id = pl_next_page_id st in
     res_map (\<lambda>page. \<lparr>lr_state = \<lparr>pl_head_page_id = new_id, pl_tail_page_id = new_id, pl_next_page_id = saturating_succ new_id\<rparr>, lr_pages = [],
       lr_tail_page_id = new_id, lr_tail_page = page\<rparr>) new_log_page)"

definition log_tail :: "posting_log_state \<Rightarrow> bytes \<Rightarrow> log_run" where
  "log_tail st page = \<lparr>lr_state = st, lr_pages = [], lr_tail_page_id = pl_tail_page_id st, lr_tail_page = page\<rparr>"

definition log_pages :: "log_run \<Rightarrow> (u64, bytes) omap" where
  "log_pages lr = om_insert (lr_tail_page_id lr) (lr_tail_page lr) (lr_pages lr)"

definition catalog_page :: "('c, 'w) engine_env \<Rightarrow> posting_log_state \<Rightarrow> ('c, 'w) engine \<Rightarrow> bytes res" where
  "catalog_page G st e = encode_secondary_index_catalog \<lparr>ic_defs = list_indexes (ee_order G (en_indexes e)), ic_posting_log = st\<rparr>"

definition txn_log_tail :: "('c, 'w) engine_env \<Rightarrow> posting_log_state \<Rightarrow> (('c, 'w) txn_run, log_run) prog" where
  "txn_log_tail G st = (let tail = pl_tail_page_id st in
    if tail = 0 then lift (log_start st)
    else andThen (of_txn id) (\<lambda>x. case om_lookup (tx_dirty x) tail of Some p \<Rightarrow> ret (log_tail st p) | None \<Rightarrow>
      (case om_lookup (tx_ro_cache x) tail of Some p \<Rightarrow> ret (log_tail st p) | None \<Rightarrow>
      andThen (on_engine (cached_page G tail)) (\<lambda>p. case p of Some p \<Rightarrow> ret (log_tail st p) | None \<Rightarrow>
      andThen (on_engine (need_page G tail (tx_read_lsn x))) (\<lambda>p. ret (log_tail st p))))))"

definition build_secondary_log_pages :: "('c, 'w) engine_env \<Rightarrow> u64 \<Rightarrow> posting_log_state \<Rightarrow> (('c, 'w) txn_run, (u64, bytes) omap \<times> posting_log_state) prog" where
  "build_secondary_log_pages G commit_lsn st = andThen (of_txn tx_secondary_mutations) (\<lambda>ms.
    if ms = [] then ret ([], st)
    else andThen (txn_log_tail G st) (\<lambda>lr0. case log_all commit_lsn lr0 ms of (r, lr) \<Rightarrow> andThen (lift r) (\<lambda>_.
      andThen (on_engine (gets (catalog_page G (lr_state lr)))) (\<lambda>c. andThen (lift c) (\<lambda>page.
      ret (om_insert SECONDARY_INDEX_META_PAGE_ID page (log_pages lr), lr_state lr))))))"

section \<open>Commit\<close>

definition commit_base_meta :: "('c, 'w) engine_env \<Rightarrow> (('c, 'w) txn_run, meta_page) prog" where
  "commit_base_meta G = andThen (of_txn (\<lambda>x. om_lookup (tx_dirty x) META_PAGE_ID)) (\<lambda>d. case d of Some p \<Rightarrow> lift (meta_decode p) | None \<Rightarrow>
    andThen (on_engine (cached_page G META_PAGE_ID)) (\<lambda>c. case c of Some p \<Rightarrow> lift (meta_decode p) | None \<Rightarrow>
    on_engine (gets (\<lambda>e. \<lparr>mp_root_page_id = 10, mp_next_bptree_page_id = tp_next_page_id (en_provider e), mp_next_data_page_id = 1000000,
      mp_next_undo_page_id = UNDO_BASE, mp_undo_free = [], mp_undo_history_head = 0, mp_undo_history_tail = 0\<rparr>))))"

definition page_copy :: "('c, 'w) engine_env \<Rightarrow> u64 \<Rightarrow> (('c, 'w) txn_run, bytes) prog" where
  "page_copy G pid = andThen (on_engine (cached_page G pid)) (\<lambda>p. andThen (of_txn (\<lambda>x. om_lookup (tx_ro_cache x) pid)) (\<lambda>c.
    lift (ok_or (InMemoryPageMissing pid) (case p of Some page \<Rightarrow> Some page | None \<Rightarrow> c))))"

definition stage_old_tail :: "('c, 'w) engine_env \<Rightarrow> meta_page \<Rightarrow> (('c, 'w) txn_run, unit) prog" where
  "stage_old_tail G meta = andThen (of_txn id) (\<lambda>x. let old_tail = mp_undo_history_tail meta in
    if tx_undo_segment_first_page_id x \<noteq> None \<and> old_tail \<noteq> 0 \<and> om_lookup (tx_dirty x) old_tail = None
    then andThen (page_copy G old_tail) (txn_stage_page G old_tail) else ret ())"

definition commit_request_id :: "('c, 'w) engine_env \<Rightarrow> (('c, 'w) txn_run, u64) prog" where
  "commit_request_id G = andThen (of_txn tx_undo_txn_id) (\<lambda>t. case t of Some i \<Rightarrow> ret i
    | None \<Rightarrow> on_engine (on_world (\<lambda>w. case be_allocate_request_id (ee_backend G) w of (i, w') \<Rightarrow> (Ok i, w'))))"

definition prestamp_key :: "('c, 'w) engine_env \<Rightarrow> u64 \<Rightarrow> bytes \<Rightarrow> (('c, 'w) txn_run, unit) prog" where
  "prestamp_key G request_id key = andThen (tree_get G key) (\<lambda>r. case r of
     Some row \<Rightarrow> if \<not> owns_intent request_id row then lift (Err (Io WouldBlock ''intent ownership changed before commit''))
       else tree_insert G key (row\<lparr>lv_meta := (lv_meta row)\<lparr>lm_commit_lsn := 1\<rparr>\<rparr>)
   | None \<Rightarrow> lift (Err (Io WouldBlock ''intent missing before commit'')))"

definition stamped_row :: "u64 \<Rightarrow> leaf_value \<Rightarrow> leaf_value" where
  "stamped_row commit_lsn row = row\<lparr>lv_meta := (lv_meta row)\<lparr>lm_commit_lsn := commit_lsn, lm_flags := lm_flags (lv_meta row) AND NOT FLAG_INTENT,
     lm_intent_txn_id := 0, lm_intent_lsn := 0\<rparr>\<rparr>"

definition stamp_key :: "('c, 'w) engine_env \<Rightarrow> u64 \<Rightarrow> u64 \<Rightarrow> bytes \<Rightarrow> (('c, 'w) txn_run, unit) prog" where
  "stamp_key G request_id commit_lsn key = andThen (tree_get G key) (\<lambda>r. case r of
     Some row \<Rightarrow> if \<not> owns_intent request_id row then lift (Err (Io WouldBlock ''intent ownership changed before commit''))
       else tree_insert G key (stamped_row commit_lsn row)
   | None \<Rightarrow> ret ())"

definition with_tree_ids :: "('c, 'w) engine \<Rightarrow> meta_page \<Rightarrow> meta_page" where
  "with_tree_ids e meta = meta\<lparr>mp_root_page_id := tp_root (en_provider e), mp_next_bptree_page_id := tp_next_page_id (en_provider e)\<rparr>"

definition add_copy :: "('c, 'w) engine_env \<Rightarrow> u64 \<Rightarrow> (u64, bytes) omap \<Rightarrow> (('c, 'w) txn_run, (u64, bytes) omap) prog" where
  "add_copy G pid m = (if om_lookup m pid = None then andThen (page_copy G pid) (\<lambda>p. ret (om_insert pid p m)) else ret m)"

text \<open>The pages the commit will write, as far as they are known before the LSNs are reserved.\<close>

definition commit_page_set :: "('c, 'w) engine_env \<Rightarrow> meta_page \<Rightarrow> (('c, 'w) txn_run, (u64, bytes) omap) prog" where
  "commit_page_set G base_meta = andThen (of_txn id) (\<lambda>x.
    andThen (case tx_undo_segment_first_page_id x of None \<Rightarrow> ret (tx_dirty x)
      | Some first_pid \<Rightarrow> andThen (add_copy G first_pid (tx_dirty x)) (\<lambda>m.
          if mp_undo_history_tail base_meta \<noteq> 0 then add_copy G (mp_undo_history_tail base_meta) m else ret m)) (\<lambda>m.
    andThen (on_engine (gets (\<lambda>e. meta_encode (with_tree_ids e base_meta)))) (\<lambda>c. andThen (lift c) (\<lambda>page. ret (om_insert META_PAGE_ID page m)))))"

definition commit_reserve_n :: "('c, 'w) engine_env \<Rightarrow> (u64, bytes) omap \<Rightarrow> (('c, 'w) txn_run, nat) prog" where
  "commit_reserve_n G m = andThen (of_txn tx_secondary_mutations) (\<lambda>ms.
    if ms = [] then ret (max (length m) 1)
    else andThen (on_engine (gets en_posting_log)) (\<lambda>before. andThen (build_secondary_log_pages G 0 before) (\<lambda>(probe, _).
      ret (max (length m + length probe) 1))))"

definition stamp_rows :: "('c, 'w) engine_env \<Rightarrow> u64 \<Rightarrow> u64 \<Rightarrow> (u64, bytes) omap \<Rightarrow> (('c, 'w) txn_run, (u64, bytes) omap) prog" where
  "stamp_rows G request_id commit_lsn m = andThen (of_txn (\<lambda>x. map fst (tx_modified x))) (\<lambda>keys.
    if keys = [] then ret m
    else andThen (for_each (stamp_key G request_id commit_lsn) keys) (\<lambda>_. of_txn (\<lambda>x. fold (\<lambda>(pid, page) m. om_insert pid page m) (tx_bptree_dirty x) m)))"

text \<open>The undo segment of the transaction becomes the tail of the history.\<close>

definition commit_segment :: "('c, 'w) engine_env \<Rightarrow> u64 \<Rightarrow> u64 \<Rightarrow> u64 \<Rightarrow> u64 \<Rightarrow> meta_page \<Rightarrow> (u64, bytes) omap
    \<Rightarrow> (('c, 'w) txn_run, meta_page \<times> (u64, bytes) omap) prog" where
  "commit_segment G request_id start_lsn commit_lsn old_tail meta m = andThen (of_txn id) (\<lambda>x. case tx_undo_segment_first_page_id x of
     None \<Rightarrow> ret (meta, m)
   | Some first_pid \<Rightarrow>
     andThen (case om_lookup m first_pid of Some p \<Rightarrow> ret p
       | None \<Rightarrow> andThen (on_engine (cached_page G first_pid)) (\<lambda>p. lift (ok_or (InMemoryPageMissing first_pid) p))) (\<lambda>head_page.
     andThen (lift (write_segment_header head_page \<lparr>seg_txn_id = request_id, seg_begin_lsn = start_lsn, seg_commit_lsn = commit_lsn,
       seg_state = SEGMENT_STATE_COMMITTED, seg_first_page_id = first_pid,
       seg_last_page_id = (case tx_undo_segment_last_page_id x of Some l \<Rightarrow> l | None \<Rightarrow> first_pid),
       seg_record_count = tx_undo_segment_record_count x, seg_history_prev = old_tail, seg_history_next = 0\<rparr>)) (\<lambda>head_page'.
     let m1 = om_insert first_pid head_page' m; meta1 = meta\<lparr>mp_undo_history_tail := first_pid\<rparr> in
     if old_tail = 0 then ret (meta1\<lparr>mp_undo_history_head := first_pid\<rparr>, m1)
     else andThen (case om_lookup m1 old_tail of Some p \<Rightarrow> ret p | None \<Rightarrow> page_copy G old_tail) (\<lambda>tail_page.
       andThen (lift (read_segment_header tail_page)) (\<lambda>tail_hdr.
       andThen (lift (write_segment_header tail_page (tail_hdr\<lparr>seg_history_next := first_pid\<rparr>))) (\<lambda>tail_page'.
       ret (meta1, om_insert old_tail tail_page' m1)))))))"

definition commit_log :: "('c, 'w) engine_env \<Rightarrow> u64 \<Rightarrow> (u64, bytes) omap \<Rightarrow> (('c, 'w) txn_run, (u64, bytes) omap \<times> posting_log_state) prog" where
  "commit_log G commit_lsn m = andThen (on_engine (gets en_posting_log)) (\<lambda>before. andThen (build_secondary_log_pages G commit_lsn before) (\<lambda>(pages, after).
    ret (fold (\<lambda>(pid, page) m. om_insert pid page m) pages m, after)))"

text \<open>The dispatch of the pages, and what a success changes in the engine.\<close>

definition commit_finish :: "('c, 'w) engine_env \<Rightarrow> u64 \<Rightarrow> u64 \<Rightarrow> u64 \<Rightarrow> (u64, bytes) omap \<Rightarrow> posting_log_state \<Rightarrow> (('c, 'w) txn_run, u64) prog" where
  "commit_finish G request_id start_lsn end_lsn m after =
    andThen (on_engine (commit_pages_reserved G request_id start_lsn end_lsn m)) (\<lambda>out. andThen (of_txn tx_secondary_mutations) (\<lambda>ms.
    andThen (on_engine (modify (\<lambda>e. remove_pending_txn request_id (e\<lparr>en_indexes := apply_commit end_lsn ms (en_indexes e), en_posting_log := after\<rparr>)))) (\<lambda>_.
    ret out)))"

definition commit_rw :: "('c, 'w) engine_env \<Rightarrow> (('c, 'w) txn_run, u64) prog" where
  "commit_rw G =
    andThen (commit_base_meta G) (\<lambda>base_meta. andThen (stage_old_tail G base_meta) (\<lambda>_. andThen (commit_request_id G) (\<lambda>request_id.
    andThen (of_txn (\<lambda>x. map fst (tx_modified x))) (\<lambda>keys. andThen (for_each (prestamp_key G request_id) keys) (\<lambda>_.
    andThen (on_txn merge_bptree_dirty) (\<lambda>_. andThen (commit_page_set G base_meta) (\<lambda>m0. andThen (commit_reserve_n G m0) (\<lambda>reserve_n.
    andThen (on_engine (on_world (\<lambda>w. be_reserve (ee_backend G) w reserve_n request_id))) (\<lambda>(start_lsn, end_lsn).
    andThen (stamp_rows G request_id end_lsn m0) (\<lambda>m1. andThen (on_engine (gets (\<lambda>e. with_tree_ids e base_meta))) (\<lambda>meta.
    andThen (commit_segment G request_id start_lsn end_lsn (mp_undo_history_tail base_meta) meta m1) (\<lambda>(meta', m2).
    andThen (lift (meta_encode meta')) (\<lambda>meta_bytes. andThen (commit_log G end_lsn (om_insert META_PAGE_ID meta_bytes m2)) (\<lambda>(m3, after).
    if length m3 \<noteq> reserve_n
    then lift (Err (Io WouldBlock (''commit page set changed: reserved='' @ show_nat reserve_n @ '' final='' @ show_nat (length m3))))
    else commit_finish G request_id start_lsn end_lsn m3 after))))))))))))))"

definition commit_ro :: "(('c, 'w) txn_run, u64) prog" where
  "commit_ro = andThen (of_txn id) (\<lambda>x.
    if tx_write_attempted x \<or> tx_dirty x \<noteq> [] \<or> tx_bptree_dirty x \<noteq> [] \<or> tx_modified x \<noteq> [] then lift read_only_error else ret (tx_read_lsn x))"

definition txn_commit :: "('c, 'w) engine_env \<Rightarrow> embedded_txn \<Rightarrow> (('c, 'w) engine, u64) prog" where
  "txn_commit G = consume (andThen ensure_not_timed_out (\<lambda>_. andThen (of_txn tx_read_only) (\<lambda>ro. if ro then commit_ro else commit_rw G)))"

end
