(* ===== verification/Engine_Api.thy ===== *)
theory Engine_Api
  imports Engine_Txn
begin

text \<open>
  The rest of the embedded engine: the catalog and the posting log of the secondary indexes with their recovery
  (\<open>embedded_compute_recovery.rs\<close>), the calls that make a transaction of their own, the garbage collection, and connecting
  (\<open>EmbeddedCompute\<close> in \<open>embedded_compute.rs\<close>). The values of environment variables are arguments, already parsed.
\<close>

section \<open>Calls with a transaction of their own\<close>

definition in_ro :: "('c, 'w) engine_env \<Rightarrow> (('c, 'w) txn_run, 'a) prog \<Rightarrow> (('c, 'w) engine, 'a) prog" where
  "in_ro G m = andThen (engine_begin_tx G True None) (consume m)"

text \<open>A write and the commit; an error of the write drops the transaction, which stays in the registry.\<close>

definition in_rw :: "('c, 'w) engine_env \<Rightarrow> (('c, 'w) txn_run, unit) prog \<Rightarrow> (('c, 'w) engine, u64) prog" where
  "in_rw G m = andThen (engine_begin_rw G) (\<lambda>x e. Option.bind (m (x, e)) (\<lambda>(r, x', e'). case r of
     Ok _ \<Rightarrow> txn_commit G x' e'
   | Err err \<Rightarrow> Some (Err err, snd (take_guard (x', e')))
   | Panic \<Rightarrow> Some (Panic, snd (take_guard (x', e')))))"

definition engine_write_page :: "('c, 'w) engine_env \<Rightarrow> u64 \<Rightarrow> bytes \<Rightarrow> (('c, 'w) engine, u64) prog" where
  "engine_write_page G pid page = in_rw G (txn_stage_page G pid page)"

definition engine_put :: "('c, 'w) engine_env \<Rightarrow> bytes \<Rightarrow> bytes \<Rightarrow> (('c, 'w) engine, u64) prog" where
  "engine_put G key value = andThen (check_key key) (\<lambda>_.
    if length value \<noteq> VALUE_SIZE then lift (Err (InvalidValueSize (length value) VALUE_SIZE)) else in_rw G (txn_put G key value))"

definition engine_get :: "('c, 'w) engine_env \<Rightarrow> bytes \<Rightarrow> (('c, 'w) engine, bytes option) prog" where
  "engine_get G key = andThen (check_key key) (\<lambda>_. in_ro G (txn_get G key))"

definition engine_get_exists :: "('c, 'w) engine_env \<Rightarrow> bytes \<Rightarrow> (('c, 'w) engine, bool) prog" where
  "engine_get_exists G key = andThen (check_key key) (\<lambda>_. in_ro G (txn_get_exists G key))"

definition engine_delete :: "('c, 'w) engine_env \<Rightarrow> bytes \<Rightarrow> (('c, 'w) engine, u64) prog" where
  "engine_delete G key = andThen (check_key key) (\<lambda>_. in_rw G (txn_delete G key))"

definition engine_scan_range :: "('c, 'w) engine_env \<Rightarrow> bytes \<Rightarrow> bytes \<Rightarrow> nat \<Rightarrow> (('c, 'w) engine, (bytes \<times> bytes) list) prog" where
  "engine_scan_range G start end_key limit = andThen (check_key start) (\<lambda>_. andThen (check_key end_key) (\<lambda>_.
    if limit = 0 then ret [] else in_ro G (txn_scan_range G start end_key limit)))"

definition engine_scan_range_exists_count :: "('c, 'w) engine_env \<Rightarrow> bytes \<Rightarrow> bytes \<Rightarrow> nat \<Rightarrow> (('c, 'w) engine, nat) prog" where
  "engine_scan_range_exists_count G start end_key limit = andThen (check_key start) (\<lambda>_. andThen (check_key end_key) (\<lambda>_.
    if limit = 0 then ret 0 else in_ro G (txn_scan_range_exists_count G start end_key limit)))"

definition engine_scan_secondary_index_eq :: "('c, 'w) engine_env \<Rightarrow> bytes \<Rightarrow> bytes \<Rightarrow> nat \<Rightarrow> (('c, 'w) engine, (bytes \<times> bytes) list) prog" where
  "engine_scan_secondary_index_eq G index_name secondary_key limit =
    (if limit = 0 then ret [] else in_ro G (txn_scan_secondary_index_eq G index_name secondary_key limit))"

section \<open>Catalog and posting log of the indexes\<close>

definition persist_secondary_index_catalog :: "('c, 'w) engine_env \<Rightarrow> (('c, 'w) engine, unit) prog" where
  "persist_secondary_index_catalog G = andThen (gets (\<lambda>e. catalog_page G (en_posting_log e) e)) (\<lambda>c. andThen (lift c) (\<lambda>page.
    andThen (write_pages_direct G [(SECONDARY_INDEX_META_PAGE_ID, page)]) (\<lambda>_. ret ())))"

definition engine_replace_definitions :: "index_def list \<Rightarrow> (('c, 'w) engine, unit) prog" where
  "engine_replace_definitions defs = update_res (\<lambda>e. case replace_definitions (en_indexes e) defs of (r, m) \<Rightarrow> (r, e\<lparr>en_indexes := m\<rparr>))"

definition load_secondary_index_catalog :: "('c, 'w) engine_env \<Rightarrow> (('c, 'w) engine, unit) prog" where
  "load_secondary_index_catalog G = andThen (gets (engine_durable_lsn G)) (\<lambda>lsn. andThen (get_page G SECONDARY_INDEX_META_PAGE_ID lsn) (\<lambda>p. case p of
     None \<Rightarrow> andThen (engine_replace_definitions []) (\<lambda>_. modify (\<lambda>e. e\<lparr>en_posting_log := plog_default\<rparr>))
   | Some page \<Rightarrow> andThen (lift (decode_secondary_index_catalog page)) (\<lambda>catalog. andThen (engine_replace_definitions (ic_defs catalog)) (\<lambda>_.
       modify (\<lambda>e. e\<lparr>en_posting_log := ic_posting_log catalog\<rparr>)))))"

definition engine_log_tail :: "('c, 'w) engine_env \<Rightarrow> posting_log_state \<Rightarrow> (('c, 'w) engine, log_run) prog" where
  "engine_log_tail G st = (let tail = pl_tail_page_id st in
    if tail = 0 then lift (log_start st)
    else andThen (cached_page G tail) (\<lambda>p. case p of Some page \<Rightarrow> ret (log_tail st page)
      | None \<Rightarrow> andThen (gets (engine_durable_lsn G)) (\<lambda>lsn. andThen (need_page G tail lsn) (\<lambda>page. ret (log_tail st page)))))"

definition append_secondary_posting_log :: "('c, 'w) engine_env \<Rightarrow> u64 \<Rightarrow> index_mutation list \<Rightarrow> (('c, 'w) engine, unit) prog" where
  "append_secondary_posting_log G commit_lsn mutations =
    (if mutations = [] then ret ()
     else andThen (gets en_posting_log) (\<lambda>st. andThen (engine_log_tail G st) (\<lambda>lr0. case log_all commit_lsn lr0 mutations of (r, lr) \<Rightarrow>
       andThen (modify (\<lambda>e. e\<lparr>en_posting_log := lr_state lr\<rparr>)) (\<lambda>_. andThen (lift r) (\<lambda>_.
       andThen (gets (catalog_page G (lr_state lr))) (\<lambda>c. andThen (lift c) (\<lambda>page.
       andThen (write_pages_direct G (log_pages lr @ [(SECONDARY_INDEX_META_PAGE_ID, page)])) (\<lambda>_. ret ()))))))))"

definition engine_apply_commit :: "u64 \<Rightarrow> index_mutation list \<Rightarrow> ('c, 'w) engine \<Rightarrow> ('c, 'w) engine" where
  "engine_apply_commit commit_lsn ms e = e\<lparr>en_indexes := apply_commit commit_lsn ms (en_indexes e)\<rparr>"

definition replay_step :: "('c, 'w) engine_env \<Rightarrow> u64 \<times> nat \<Rightarrow> (('c, 'w) engine, u64 \<times> nat + nat) prog" where
  "replay_step G = (\<lambda>(pid, count). if pid = 0 then ret (Inr count)
    else andThen (gets (engine_durable_lsn G)) (\<lambda>lsn. andThen (need_page G pid lsn) (\<lambda>page. andThen (lift (decode_posting_records page)) (\<lambda>records.
      andThen (modify (fold (\<lambda>(lsn, mu). engine_apply_commit lsn [mu]) records)) (\<lambda>_. andThen (lift (read_next_page_id page)) (\<lambda>nxt.
      ret (Inl (nxt, count + length records))))))))"

definition replay_secondary_posting_log :: "('c, 'w) engine_env \<Rightarrow> (('c, 'w) engine, nat) prog" where
  "replay_secondary_posting_log G = andThen (gets (\<lambda>e. pl_head_page_id (en_posting_log e))) (\<lambda>head.
    if head = 0 then ret 0 else loop_until (replay_step G) (head, 0))"

section \<open>Backfilling an index\<close>

definition flush_chunk :: "('c, 'w) engine_env \<Rightarrow> u64 \<Rightarrow> index_mutation list \<Rightarrow> (('c, 'w) txn_run, unit) prog" where
  "flush_chunk G commit_lsn chunk = andThen (on_engine (modify (engine_apply_commit commit_lsn chunk))) (\<lambda>_.
    on_engine (append_secondary_posting_log G commit_lsn chunk))"

definition backfill_plan :: "('c, 'w) engine_env \<Rightarrow> bytes \<Rightarrow> bytes \<Rightarrow> bytes \<Rightarrow> (('c, 'w) txn_run, index_mutation list) prog" where
  "backfill_plan G index_name key value =
    andThen (check_key key) (\<lambda>_. if length value \<noteq> VALUE_SIZE then lift Panic
    else andThen (plan_row G key None (Some value)) (\<lambda>ms. ret (filter (\<lambda>mu. mu_index_name mu = index_name) ms)))"

text \<open>The loop over the rows: the mutations that wait for their flush and the number of rows so far.\<close>

fun backfill_rows :: "('c, 'w) engine_env \<Rightarrow> bytes \<Rightarrow> u64 \<Rightarrow> (bytes \<times> leaf_value) list \<Rightarrow> index_mutation list \<Rightarrow> nat
    \<Rightarrow> (('c, 'w) txn_run, index_mutation list \<times> nat) prog" where
  "backfill_rows G name lsn [] chunk n = ret (chunk, n)"
| "backfill_rows G name lsn ((key, row) # entries) chunk n =
    andThen (read_visible_value_from_scan_entry G key row) (\<lambda>v. case v of None \<Rightarrow> backfill_rows G name lsn entries chunk n
    | Some value \<Rightarrow> andThen (backfill_plan G name key value) (\<lambda>ms. let chunk' = chunk @ ms in
        if length chunk' \<ge> 1024 then andThen (flush_chunk G lsn chunk') (\<lambda>_. backfill_rows G name lsn entries [] (n + 1))
        else backfill_rows G name lsn entries chunk' (n + 1)))"

definition backfill_secondary_index :: "('c, 'w) engine_env \<Rightarrow> bytes \<Rightarrow> (('c, 'w) engine, nat) prog" where
  "backfill_secondary_index G index_name = in_ro G (
    andThen (tree_range G (replicate KEY_SIZE 0) (replicate KEY_SIZE 255)) (\<lambda>entries.
    andThen (on_engine (gets (engine_durable_lsn G))) (\<lambda>commit_lsn.
    andThen (backfill_rows G index_name commit_lsn entries [] 0) (\<lambda>(chunk, n).
    andThen (if chunk = [] then ret () else flush_chunk G commit_lsn chunk) (\<lambda>_. ret n)))))"

definition backfill_all_secondary_indexes :: "('c, 'w) engine_env \<Rightarrow> (('c, 'w) engine, unit) prog" where
  "backfill_all_secondary_indexes G = andThen (gets (\<lambda>e. list_indexes (ee_order G (en_indexes e)))) (\<lambda>defs.
    for_each (\<lambda>d. andThen (backfill_secondary_index G (id_name d)) (\<lambda>_. ret ())) defs)"

definition engine_drop_index :: "bytes \<Rightarrow> (('c, 'w) engine, bool) prog" where
  "engine_drop_index name = update (\<lambda>e. case drop_index (en_indexes e) name of (b, m) \<Rightarrow> (b, e\<lparr>en_indexes := m\<rparr>))"

definition create_btree_secondary_index :: "('c, 'w) engine_env \<Rightarrow> bytes \<Rightarrow> nat \<Rightarrow> nat \<Rightarrow> (('c, 'w) engine, unit) prog" where
  "create_btree_secondary_index G name value_offset value_len =
    andThen (update_res (\<lambda>e. case create_btree_index (en_indexes e) name value_offset value_len of (r, m) \<Rightarrow> (r, e\<lparr>en_indexes := m\<rparr>))) (\<lambda>_.
    andThen (attempt (persist_secondary_index_catalog G)) (\<lambda>r. case r of Err err \<Rightarrow> andThen (engine_drop_index name) (\<lambda>_. lift (Err err)) | _ \<Rightarrow>
    andThen (attempt (backfill_secondary_index G name)) (\<lambda>r. case r of
       Err err \<Rightarrow> andThen (engine_drop_index name) (\<lambda>_. andThen (forget (persist_secondary_index_catalog G)) (\<lambda>_. lift (Err err)))
     | _ \<Rightarrow> ret ())))"

definition drop_secondary_index :: "('c, 'w) engine_env \<Rightarrow> bytes \<Rightarrow> (('c, 'w) engine, bool) prog" where
  "drop_secondary_index G name = andThen (engine_drop_index name) (\<lambda>dropped.
    andThen (if dropped then persist_secondary_index_catalog G else ret ()) (\<lambda>_. ret dropped))"

definition list_secondary_indexes :: "('c, 'w) engine_env \<Rightarrow> (('c, 'w) engine, index_def list) prog" where
  "list_secondary_indexes G = gets (\<lambda>e. list_indexes (ee_order G (en_indexes e)))"

section \<open>Garbage collection\<close>

text \<open>What one pass over the rows removes and updates; \<open>budget\<close> rows are looked at.\<close>

definition gc_removes :: "u64 \<Rightarrow> bytes \<times> leaf_value \<Rightarrow> bool" where
  "gc_removes gc_lsn = (\<lambda>(key, row). let m = lv_meta row in lm_commit_lsn m \<noteq> 0 \<and> lm_commit_lsn m \<le> gc_lsn \<and> has_flag (lm_flags m) ROW_TOMBSTONE)"

definition gc_updates :: "u64 \<Rightarrow> bytes \<times> leaf_value \<Rightarrow> bool" where
  "gc_updates gc_lsn = (\<lambda>(key, row). let m = lv_meta row in lm_commit_lsn m \<noteq> 0 \<and> lm_commit_lsn m \<le> gc_lsn \<and> \<not> has_flag (lm_flags m) ROW_TOMBSTONE
    \<and> lm_undo_ptr m \<noteq> None)"

definition without_undo :: "leaf_value \<Rightarrow> leaf_value" where
  "without_undo row = row\<lparr>lv_meta := (lv_meta row)\<lparr>lm_undo_ptr := None\<rparr>\<rparr>"

definition gc_rows :: "('c, 'w) engine_env \<Rightarrow> u64 \<Rightarrow> (bytes \<times> leaf_value) list \<Rightarrow> (('c, 'w) txn_run, unit) prog" where
  "gc_rows G gc_lsn rows =
    andThen (for_each (\<lambda>(key, row). forget (tree_remove G key)) (filter (gc_removes gc_lsn) rows)) (\<lambda>_.
    for_each (\<lambda>(key, row). tree_insert G key (without_undo row)) (filter (gc_updates gc_lsn) rows))"

text \<open>The transaction is consumed by its commit, or dropped at the end when there was nothing to do.\<close>

definition gc_once :: "('c, 'w) engine_env \<Rightarrow> nat \<Rightarrow> (('c, 'w) engine, nat) prog" where
  "gc_once G budget_pages =
    (if budget_pages = 0 then ret 0
     else andThen (gets (engine_gc_lsn G)) (\<lambda>gc_lsn. andThen (engine_begin_rw G) (\<lambda>x e.
       Option.bind (tree_range G (replicate KEY_SIZE 0) (replicate KEY_SIZE 255) (x, e)) (\<lambda>(r, x1, e1). case r of
         Ok entries \<Rightarrow>
           let rows = take budget_pages entries in
           if filter (gc_removes gc_lsn) rows = [] \<and> filter (gc_updates gc_lsn) rows = []
           then consume (andThen (on_engine (forget (gc_purge_undo_segments G gc_lsn))) (\<lambda>_. ret (length rows))) x1 e1
           else Option.bind (gc_rows G gc_lsn rows (x1, e1)) (\<lambda>(r, x2, e2). case r of
             Ok _ \<Rightarrow> andThen (txn_commit G x2) (\<lambda>_. andThen (forget (gc_purge_undo_segments G gc_lsn)) (\<lambda>_. ret (length rows))) e2
           | Err err \<Rightarrow> Some (Err err, snd (take_guard (x2, e2)))
           | Panic \<Rightarrow> Some (Panic, snd (take_guard (x2, e2))))
       | Err err \<Rightarrow> Some (Err err, snd (take_guard (x1, e1)))
       | Panic \<Rightarrow> Some (Panic, snd (take_guard (x1, e1)))))))"

section \<open>Recovery and connecting\<close>

abbreviation (input) BPTREE_ROOT_ID :: u64 where "BPTREE_ROOT_ID \<equiv> 10"

definition engine_set_root :: "('c, 'w) engine_env \<Rightarrow> u64 \<Rightarrow> (('c, 'w) engine, unit) prog" where
  "engine_set_root G pid = on_provider (\<lambda>s. ((), txn_set_root_page_id (ee_lru G) s pid))"

definition engine_set_next_page_id :: "u64 \<Rightarrow> (('c, 'w) engine, unit) prog" where
  "engine_set_next_page_id n = on_provider (\<lambda>s. ((), txn_set_next_page_id s n))"

definition recover_engine :: "('c, 'w) engine_env \<Rightarrow> bytes \<Rightarrow> (('c, 'w) engine, unit) prog" where
  "recover_engine G meta_bytes =
    andThen (lift (meta_decode meta_bytes)) (\<lambda>meta. andThen (engine_set_next_page_id (mp_next_bptree_page_id meta)) (\<lambda>_.
    andThen (if mp_next_undo_page_id meta < UNDO_BASE
      then andThen (lift (meta_encode (meta\<lparr>mp_next_undo_page_id := UNDO_BASE\<rparr>))) (\<lambda>page. forget (engine_write_page G META_PAGE_ID page)) else ret ()) (\<lambda>_.
    andThen (cached_page G BTREE_META_PAGE_ID) (\<lambda>b. andThen (case b of Some page \<Rightarrow> lift (res_map bm_root_page_id (btree_meta_decode page))
      | None \<Rightarrow> ret (mp_root_page_id meta)) (\<lambda>root.
    andThen (engine_set_root G root) (\<lambda>_. andThen (load_secondary_index_catalog G) (\<lambda>_. andThen (replay_secondary_posting_log G) (\<lambda>replayed.
    if replayed = 0 then backfill_all_secondary_indexes G else ret ()))))))))"

definition initial_meta :: meta_page where
  "initial_meta = \<lparr>mp_root_page_id = BPTREE_ROOT_ID, mp_next_bptree_page_id = BPTREE_ROOT_ID + 1, mp_next_data_page_id = 1000000,
     mp_next_undo_page_id = UNDO_BASE, mp_undo_free = [], mp_undo_history_head = 0, mp_undo_history_tail = 0\<rparr>"

definition init_pages :: "('c, 'w) engine_env \<Rightarrow> (('c, 'w) txn_run, unit) prog" where
  "init_pages G =
    andThen (on_engine (engine_set_root G BPTREE_ROOT_ID)) (\<lambda>_. andThen (on_engine (engine_set_next_page_id (BPTREE_ROOT_ID + 1))) (\<lambda>_.
    andThen (lift (bt_new_page PAGE_TYPE_LEAF 0)) (\<lambda>root_page. andThen (txn_stage_page G BPTREE_ROOT_ID root_page) (\<lambda>_.
    andThen (lift (btree_meta_encode \<lparr>bm_root_page_id = BPTREE_ROOT_ID\<rparr>)) (\<lambda>bm. andThen (txn_stage_page G BTREE_META_PAGE_ID bm) (\<lambda>_.
    andThen (lift (meta_encode initial_meta)) (\<lambda>meta. txn_stage_page G META_PAGE_ID meta)))))))"

definition init_engine :: "('c, 'w) engine_env \<Rightarrow> (('c, 'w) engine, unit) prog" where
  "init_engine G = andThen (in_rw G (init_pages G)) (\<lambda>_. andThen (engine_replace_definitions []) (\<lambda>_. persist_secondary_index_catalog G))"

definition recover_or_init :: "('c, 'w) engine_env \<Rightarrow> (('c, 'w) engine, unit) prog" where
  "recover_or_init G = andThen (forget (warmup_scan_all G 256)) (\<lambda>_. andThen (cached_page G META_PAGE_ID) (\<lambda>p. case p of
     Some meta_bytes \<Rightarrow> recover_engine G meta_bytes
   | None \<Rightarrow> init_engine G))"

definition env_or :: "nat option \<Rightarrow> nat \<Rightarrow> nat" where
  "env_or v d = (case v of Some n \<Rightarrow> if n > 0 then n else d | None \<Rightarrow> d)"

definition engine_new :: "('c, 'w) engine_env \<Rightarrow> nat option \<Rightarrow> nat option \<Rightarrow> nat \<Rightarrow> 'w \<Rightarrow> ('c, 'w) engine" where
  "engine_new G cache_pages rw_timeout now w =
    \<lparr>en_tree = \<lparr>bt_pages = txn_provider_new (cache_new_with_capacity (ee_lru G) DEFAULT_PAGE_CACHE_SHARDS (env_or cache_pages 8192)) 1 BTREE_META_PAGE_ID w,
       bt_len = 0\<rparr>,
     en_active_reads = active_reads_new, en_indexes = Map.empty, en_posting_log = plog_default, en_registry = Map.empty,
     en_default_rw_txn_timeout = env_or rw_timeout 5000, en_now = now\<rparr>"

definition connect_inprocess :: "('c, inprocess) engine_env \<Rightarrow> nat option \<Rightarrow> nat option \<Rightarrow> nat \<Rightarrow> u64 \<Rightarrow> (unit res \<times> ('c, inprocess) engine) option" where
  "connect_inprocess G cache_pages rw_timeout now r = recover_or_init G (engine_new G cache_pages rw_timeout now (inprocess_new r))"

fun connect_readers :: "(string \<Rightarrow> 'n res) \<Rightarrow> string list \<Rightarrow> 'n list res" where
  "connect_readers dial [] = Ok []"
| "connect_readers dial (addr # addrs) = res_bind (dial addr) (\<lambda>c. res_map (\<lambda>cs. c # cs) (connect_readers dial addrs))"

definition connect_network :: "(string \<Rightarrow> 'n res) \<Rightarrow> ('n \<Rightarrow> u64 res) \<Rightarrow> ('c, 'n compute_sequencer) engine_env \<Rightarrow> nat option \<Rightarrow> nat option \<Rightarrow> nat \<Rightarrow> u64
    \<Rightarrow> string list \<Rightarrow> nat \<Rightarrow> (('c, 'n compute_sequencer) engine res) option" where
  "connect_network dial dur G cache_pages rw_timeout now r addrs quorum =
    (case res_bind (sequencer_connect dial dur r addrs quorum) (\<lambda>s. res_bind (connect_readers dial addrs) (\<lambda>readers.
        if readers = [] then Err (Io OtherKind ''no readers'') else Ok s)) of
       Ok s \<Rightarrow> map_option (\<lambda>(res, e). res_map (\<lambda>_. e) res) (recover_or_init G (engine_new G cache_pages rw_timeout now s))
     | Err err \<Rightarrow> Some (Err err)
     | Panic \<Rightarrow> Some Panic)"

end
