(* ===== verification/Bptree_Plain.thy ===== *)
theory Bptree_Plain
  imports Bptree_Correct
begin

text \<open>
  An insertion that finds no full page on its way splits nothing: after reading it writes one page, the leaf of the key. A
  transaction relies on this when it commits, because the pages it writes are counted before the rows get their commit LSN.
  \<open>reads_to m v k\<close> says that the program \<open>m\<close>, on any state that shows \<open>v\<close>, only reads and then is \<open>k\<close>.
\<close>

primrec open_path :: "bytes \<Rightarrow> bt \<Rightarrow> bool" and open_path_k :: "bytes \<Rightarrow> kids \<Rightarrow> bool" where
  "open_path key (Lf p es) = (\<not> full (Lf p es))"
| "open_path key (Nd p ks) = (\<not> full (Nd p ks) \<and> open_path_k key ks)"
| "open_path_k key (Last c) = open_path key c"
| "open_path_k key (Kid c k ks) = (if key < k then open_path key c else open_path_k key ks)"

definition leaf_write :: "'s provider \<Rightarrow> u64 \<Rightarrow> bytes \<Rightarrow> u64 \<Rightarrow> ('s tree, unit) prog" where
  "leaf_write P p page n t = Some (Ok (), t\<lparr>bt_pages := pv_write P (bt_pages t) p page, bt_len := bt_len t + n\<rparr>)"

lemma open_path_kid: "open_path_k key ks = open_path key (get_kid key ks)"
  by (induction ks rule: kid_entries.induct) auto

lemma leaf_for_upd: "leaf_for_k key (upd_kid key c' ks) = leaf_for key c'"
  by (induction ks rule: kid_entries.induct) auto

lemma open_path_upd: "open_path_k key (upd_kid key c' ks) = open_path key c'"
  by (induction ks rule: kid_entries.induct) auto

lemma pids_same_upd: "pids c' = pids (get_kid key ks) \<Longrightarrow> pids_k (upd_kid key c' ks) = pids_k ks"
  by (induction ks rule: kid_entries.induct) auto

lemma open_path_full: "open_path key t \<Longrightarrow> \<not> full t"
  by (cases t) auto

lemma leaf_for_pids: "fst (leaf_for key t) \<in> set (pids t)" "fst (leaf_for_k key ks) \<in> set (pids_k ks)"
  by (induction t and ks) auto

context page_reader
begin

definition reads_to :: "('s tree, 'b) prog \<Rightarrow> vis \<Rightarrow> ('s tree, 'b) prog \<Rightarrow> bool" where
  "reads_to m v k \<longleftrightarrow> (\<forall>t. sees t v \<longrightarrow> (\<exists>t'. sees t' v \<and> m t = k t'))"

lemma reads_then: "does m v a v \<Longrightarrow> reads_to (f a) v k \<Longrightarrow> reads_to (andThen m f) v k"
  unfolding reads_to_def does_def by (metis andThen_Ok)

lemma reads_refl: "reads_to k v k"
  by (auto simp: reads_to_def)

lemma reads_loop_step: "does (body c) v (Some c') v \<Longrightarrow> reads_to (run_loop body c') v k \<Longrightarrow> reads_to (run_loop body c) v k"
  unfolding reads_to_def does_def by (metis run_loop_step)

lemma plain_leaf:
  assumes b: "bt_page page h es" and t: "bh_page_type h = PAGE_TYPE_LEAF" and s: "keys_sorted es" and room: "length es < 15"
    and k: "length key = KEY_SIZE" and e: "length encoded = LEAF_VALUE_SIZE"
  shows "\<exists>page'. insert_into_leaf P p page h key encoded = leaf_write P p page' (if key \<in> fst ` set es then 0 else 1)
    \<and> bt_page page' (h\<lparr>bh_key_count := word_of_nat (length (om_insert key encoded es))\<rparr>) (om_insert key encoded es)"
proof (cases "key \<in> fst ` set es")
  case True
  let ?i = "key_pos key es"
  note o = om_insert_old [OF s True, of encoded]
  have v: "length encoded = entry_value_size (bh_page_type h)" using e t by (simp add: entry_value_size_def)
  obtain page' where q: "copy_at page (48 + length es * 2 + ?i * entry_size (bh_page_type h) + 16) encoded = Ok page'"
    "bt_page page' h (es[?i := (fst (es ! ?i), encoded)])"
    using update_value_ok [OF b _ v] o by blast
  have h: "h\<lparr>bh_key_count := word_of_nat (length (om_insert key encoded es))\<rparr> = h" using b o by (simp add: bt_page_def)
  have "insert_into_leaf P p page h key encoded = leaf_write P p page' 0"
    unfolding insert_into_leaf_def
    using find_key_pos_ok [OF b s, of key] True o entry_offset_at_ok [OF b, of ?i] q(1) e
    by (auto simp: Let_def ok_or_def copy_exact_def write_page_def leaf_write_def fun_eq_iff)
  then show ?thesis using q(2) o True h by auto
next
  case False
  let ?i = "key_pos key es"
  note o = om_insert_new [OF s False, of encoded]
  have v: "length encoded = entry_value_size (bh_page_type h)" using e t by (simp add: entry_value_size_def)
  have r: "page_has_room_for_one_more h" using leaf_full [OF b t] room by (simp add: page_is_full_for_insert_def)
  obtain page' where q: "rebuild_page_with_insert page h ?i key encoded = Ok page'"
    "bt_page page' (h\<lparr>bh_key_count := word_of_nat (Suc (length es))\<rparr>) (insert_at ?i (key, encoded) es)"
    using rebuild_insert_ok [OF b _ r k v] key_pos_le by blast
  have "insert_into_leaf P p page h key encoded = leaf_write P p page' 1"
    unfolding insert_into_leaf_def
    using find_key_pos_ok [OF b s, of key] False q(1)
    by (auto simp: leaf_write_def write_page_def add_len_def andThen_def fun_eq_iff)
  then show ?thesis using q(2) o False by (auto simp del: of_nat_Suc)
qed

text \<open>What a plain insertion leaves: the same pages, with one leaf changed.\<close>

lemma plain_run:
  assumes "rep t (v_pages v) lo hi nxt n" and "safe R v t" and "open_path key t" and "from_lo lo key" and "below key hi"
    and k: "length key = KEY_SIZE" and e: "length encoded = LEAF_VALUE_SIZE"
  shows "\<exists>page' t'. reads_to (run_loop (insert_step P key encoded) (top_id t)) v
      (leaf_write P (fst (leaf_for key t)) page' (if key \<in> fst ` set (ents t) then 0 else 1))
    \<and> rep t' ((v_pages v)(fst (leaf_for key t) \<mapsto> page')) lo hi nxt n \<and> pids t' = pids t \<and> top_id t' = top_id t \<and> first_leaf t' = first_leaf t
    \<and> ents t' = om_insert key encoded (ents t) \<and> leaf_for key t' = (fst (leaf_for key t), om_insert key encoded (snd (leaf_for key t)))
    \<and> (length (om_insert key encoded (snd (leaf_for key t))) < 15 \<longrightarrow> open_path key t') \<and> length page' = PAGE_SIZE"
  using assms(1-5)
proof (induction n arbitrary: t lo hi nxt)
  case 0
  obtain p es where t: "t = Lf p es" using 0(1) by (cases t) auto
  obtain hk where hk: "leaf_page (v_pages v) p hk nxt es" "hk_ok hk hi" using 0(1) t by auto
  have l: "keys_sorted es" "p \<noteq> 0" "\<forall>e \<in> set es. from_lo lo (fst e) \<and> below (fst e) hi" "length es < 15" using 0(1,3) t by auto
  obtain page h where p: "v_pages v p = Some page" "bt_page page h es" "bh_page_type h = PAGE_TYPE_LEAF" "bh_next_leaf h = nxt" "bh_high_key h = hk"
    "page_header page = Ok h" using hk(1) by (rule leaf_pageE)
  obtain page' where q: "insert_into_leaf P p page h key encoded = leaf_write P p page' (if key \<in> fst ` set es then 0 else 1)"
    "bt_page page' (h\<lparr>bh_key_count := word_of_nat (length (om_insert key encoded es))\<rparr>) (om_insert key encoded es)"
    using plain_leaf [OF p(2,3) l(1,4) k e] by blast
  let ?w = "leaf_write P p page' (if key \<in> fst ` set es then 0 else 1)"
  have "\<exists>t'. sees t' v \<and> run_loop (insert_step P key encoded) p s = ?w t'" if s: "sees s v" for s
  proof -
    obtain s' where s': "require_page P p s = Some (Ok page, s')" "sees s' v" using does_require [OF p(1)] s unfolding does_def by blast
    have "insert_step P key encoded p s = andThen ?w (\<lambda>_. ret None) s'"
      unfolding insert_step_def using p(3,6) s'(1) q(1) by (simp add: andThen_Ok)
    then have "run_loop (insert_step P key encoded) p s = ?w s'" by (subst run_loop.simps) (simp add: andThen_def leaf_write_def lift_def)
    then show ?thesis using s'(2) by blast
  qed
  then have rd: "reads_to (run_loop (insert_step P key encoded) p) v ?w" by (simp add: reads_to_def)
  have "leaf_page ((v_pages v)(p \<mapsto> page')) p hk nxt (om_insert key encoded es)" unfolding leaf_page_def using q(2) p(3-5) by force
  moreover have "keys_sorted (om_insert key encoded es)" using om_wf_insert [of es key encoded] l(1) by (simp add: om_wf_def)
  moreover have "from_lo lo (fst x) \<and> below (fst x) hi" if "x \<in> set (om_insert key encoded es)" for x
  proof -
    have "fst x = key \<or> fst x \<in> fst ` set es" using that fst_set_om_insert [of key encoded es] by (metis image_eqI insertE)
    then show ?thesis using 0(4,5) l(3) by auto
  qed
  ultimately have "rep (Lf p (om_insert key encoded es)) ((v_pages v)(p \<mapsto> page')) lo hi nxt 0" using hk(2) l(2) by auto
  moreover have "leaf_for key t = (p, es)" "ents t = es" "pids t = [p]" "top_id t = p" "first_leaf t = p" using t by simp_all
  moreover have "length page' = PAGE_SIZE" using q(2) by (simp add: bt_page_def)
  ultimately show ?case using rd unfolding fst_conv snd_conv
    by (intro exI [of _ page'] exI [of _ "Lf p (om_insert key encoded es)"]) (simp only: fst_conv snd_conv ents.simps pids.simps top_id.simps first_leaf.simps
      leaf_for.simps open_path.simps full.simps not_le simp_thms)
next
  case (Suc n)
  obtain p ks where t: "t = Nd p ks" using Suc(2) by (cases t) auto
  have r: "rep (Nd p ks) (v_pages v) lo hi nxt (Suc n)" and s: "safe R v (Nd p ks)" and k1: "rep_k ks (v_pages v) lo hi nxt n" "node_page (v_pages v) p ks"
    using Suc(2,3) t by auto
  let ?c = "get_kid key ks"
  have op: "open_path key ?c" "\<not> full ?c" using Suc(4) t open_path_full by (auto simp: open_path_kid)
  obtain page' c' where y: "reads_to (run_loop (insert_step P key encoded) (top_id ?c)) v
      (leaf_write P (fst (leaf_for key ?c)) page' (if key \<in> fst ` set (ents ?c) then 0 else 1))"
    "rep c' ((v_pages v)(fst (leaf_for key ?c) \<mapsto> page')) (kid_lo key lo ks) (kid_hi key hi ks) (kid_nxt key nxt ks) n" "pids c' = pids ?c" "top_id c' = top_id ?c"
    "first_leaf c' = first_leaf ?c" "ents c' = om_insert key encoded (ents ?c)" "leaf_for key c' = (fst (leaf_for key ?c), om_insert key encoded (snd (leaf_for key ?c)))"
    "length (om_insert key encoded (snd (leaf_for key ?c))) < 15 \<longrightarrow> open_path key c'" "length page' = PAGE_SIZE"
    using Suc.IH [OF rep_kid [OF k1(1), of key] safe_kid [OF s] op(1)] kid_bounds [OF Suc(5,6), of ks] by metis
  let ?q = "fst (leaf_for key ?c)" let ?v = "v\<lparr>v_pages := (v_pages v)(?q \<mapsto> page')\<rparr>"
  have mem: "?q \<in> set (pids ?c)" by (rule leaf_for_pids)
  have "grown v ?c ?v c'" using y(3-5) mem safe_kid [OF s, of key] by (auto simp: grown_def safe_def)
  from grown_kid(2) [OF s this r] have g: "rep (Nd p (upd_kid key c' ks)) ((v_pages v)(?q \<mapsto> page')) lo hi nxt (Suc n)" using y(2) by simp
  obtain page h where pg: "v_pages v p = Some page" "bt_page page h (kid_entries ks)" "bh_page_type h = PAGE_TYPE_INTERNAL" "bh_left_child h = top_id (first_kid ks)"
    "page_header page = Ok h" using k1(2) by (rule node_pageE)
  obtain cpage ch where c: "v_pages v (top_id ?c) = Some cpage" "page_header cpage = Ok ch" "page_is_full_for_insert ch = full ?c"
    using rep_kid [OF k1(1), of key] by (rule rep_pageE)
  have "does (insert_step P key encoded p) v (Some (top_id ?c)) v"
    unfolding insert_step_def using pg(3,5) c(2,3) op(2) child_ok [OF pg(2-4) k1(1), of key]
    by (auto intro!: does_then [OF does_require [OF pg(1)]] does_then [OF does_require [OF c(1)]] does_lift)
  from reads_loop_step [where body = "insert_step P key encoded", OF this y(1)]
  have "reads_to (run_loop (insert_step P key encoded) p) v (leaf_write P ?q page' (if key \<in> fst ` set (ents_k ks) then 0 else 1))"
    using key_in_kid [OF k1(1), of key] by simp
  moreover have "\<not> full (Nd p (upd_kid key c' ks))" using Suc(4) t kid_entries_upd [OF y(4)] by simp
  moreover have "leaf_for key t = leaf_for key ?c" "ents t = ents_k ks" "pids t = p # pids_k ks" "top_id t = p" "first_leaf t = first_leaf_k ks"
    using t by (simp_all add: leaf_for_get_kid)
  moreover have "leaf_for key (Nd p (upd_kid key c' ks)) = leaf_for key c'" "open_path_k key (upd_kid key c' ks) = open_path key c'"
    by (simp_all add: leaf_for_upd open_path_upd)
  ultimately show ?case using g y(7-9) pids_same_upd [OF y(3)] first_leaf_upd [OF y(5)] ents_upd_kid [OF k1(1) y(6)]
    by (intro exI [of _ page'] exI [of _ "Nd p (upd_kid key c' ks)"])
      (simp only: ents.simps pids.simps top_id.simps first_leaf.simps open_path.simps simp_thms)
qed

lemma plain_insert:
  assumes inv: "tree_inv R v t" and op: "open_path key t" and k: "length key = KEY_SIZE" and lv: "length (lv_value val) = VALUE_SIZE"
  shows "\<exists>page' t'. reads_to (bt_insert P key val) v (leaf_write P (fst (leaf_for key t)) page' (if key \<in> fst ` set (ents t) then 0 else 1))
    \<and> tree_inv R (v\<lparr>v_pages := (v_pages v)(fst (leaf_for key t) \<mapsto> page'), v_len := v_len v + (if key \<in> fst ` set (ents t) then 0 else 1)\<rparr>) t'
    \<and> ents t' = om_insert key (encode_leaf_value val) (ents t)
    \<and> leaf_for key t' = (fst (leaf_for key t), om_insert key (encode_leaf_value val) (snd (leaf_for key t)))
    \<and> (length (om_insert key (encode_leaf_value val) (snd (leaf_for key t))) < 15 \<longrightarrow> open_path key t') \<and> length page' = PAGE_SIZE"
proof -
  obtain n where r: "rep t (v_pages v) None None None n" and s: "safe R v t" and root: "v_root v = top_id t" and len: "v_len v = word_of_nat (length (ents t))"
    using inv by (auto simp: tree_inv_def)
  let ?d = "if key \<in> fst ` set (ents t) then 0 else (1 :: u64)" let ?p = "fst (leaf_for key t)"
  obtain page' t' where x: "reads_to (run_loop (insert_step P key (encode_leaf_value val)) (top_id t)) v (leaf_write P ?p page' ?d)"
    "rep t' ((v_pages v)(?p \<mapsto> page')) None None None n" "pids t' = pids t" "top_id t' = top_id t" "ents t' = om_insert key (encode_leaf_value val) (ents t)"
    "leaf_for key t' = (?p, om_insert key (encode_leaf_value val) (snd (leaf_for key t)))"
    "length (om_insert key (encode_leaf_value val) (snd (leaf_for key t))) < 15 \<longrightarrow> open_path key t'" "length page' = PAGE_SIZE"
    using plain_run [OF r s op _ _ k, of "encode_leaf_value val"] lv by auto
  obtain page h where p: "v_pages v (top_id t) = Some page" "page_header page = Ok h" "page_is_full_for_insert h = full t" using r by (rule rep_pageE)
  have "does (ensure_root_not_full P) v () v"
    unfolding ensure_root_not_full_def using p root open_path_full [OF op]
    by (auto intro!: does_then [OF does_root] does_then [OF does_require [of _ "top_id t"], of _ page] does_lift)
  then have "reads_to (bt_insert P key val) v (leaf_write P ?p page' ?d)"
    unfolding bt_insert_def by (subst if_not_P, use k in simp) (rule reads_then, assumption, rule reads_then [OF does_root], use x(1) root in simp)
  moreover have "length (ents t') = length (ents t) + (if key \<in> fst ` set (ents t) then 0 else 1)"
    using om_insert_length [of "ents t" key "encode_leaf_value val"] rep_entries(1) [OF r] x(5) by auto
  then have "tree_inv R (v\<lparr>v_pages := (v_pages v)(?p \<mapsto> page'), v_len := v_len v + ?d\<rparr>) t'"
    using x(2-4) s root len unfolding tree_inv_def safe_def by auto
  ultimately show ?thesis using x(5-8) by blast
qed

end

end
