(* ===== verification/Engine_Run.thy ===== *)
theory Engine_Run
  imports Engine_Api Bptree_Plain
begin

text \<open>
  How programs of the in-process engine run while no page is evicted. \<open>shows e k V\<close> says that the engine \<open>e\<close> has the pages \<open>V\<close> in
  its cache and is \<open>k\<close> otherwise (\<open>k\<close> is the engine without its cache). \<open>runs m k V a k' V'\<close> says that the program \<open>m\<close> returns \<open>a\<close> on
  every engine that shows \<open>k\<close> and \<open>V\<close>, in an engine that shows \<open>k'\<close> and \<open>V'\<close>; \<open>truns\<close> is the same for a program of a transaction.
  The rules take a program apart step by step; those for the tree rest on the contract of its provider.
\<close>

definition no_cache :: "'c page_cache" where
  "no_cache = \<lparr>pc_shards = [], pc_latches = []\<rparr>"

definition with_cache :: "'c page_cache \<Rightarrow> ('c, 'w) engine \<Rightarrow> ('c, 'w) engine" where
  "with_cache c e = set_provider ((en_provider e)\<lparr>tp_pages := c\<rparr>) e"

definition en_cache :: "('c, 'w) engine \<Rightarrow> 'c page_cache" where
  "en_cache e = tp_pages (en_provider e)"

text \<open>What the tree sees of the engine.\<close>

definition vis_of :: "u64 set \<Rightarrow> ('c, 'w) engine \<Rightarrow> (u64 \<rightharpoonup> bytes) \<Rightarrow> vis" where
  "vis_of R k V = \<lparr>v_pages = V |` (- R), v_next = tp_next_page_id (en_provider k), v_root = tp_root (en_provider k), v_len = bt_len (en_tree k)\<rparr>"

text \<open>Outside a transaction's tree operation, with every stored page in the cache.\<close>

definition calm :: "('c, inprocess) engine \<Rightarrow> (u64 \<rightharpoonup> bytes) \<Rightarrow> bool" where
  "calm k V \<longleftrightarrow> tp_dirty (en_provider k) = None \<and> tp_pages (en_provider k) = no_cache \<and> dom (ip_pages (tp_world (en_provider k))) \<subseteq> dom V"

definition add_len_of :: "u64 \<Rightarrow> ('c, 'w) engine \<Rightarrow> ('c, 'w) engine" where
  "add_len_of n e = e\<lparr>en_tree := (en_tree e)\<lparr>bt_len := bt_len (en_tree e) + n\<rparr>\<rparr>"

lemma with_cache_simps [simp]:
  "with_cache c (with_cache c' e) = with_cache c e" "en_cache (with_cache c e) = c" "with_cache (en_cache e) e = e"
  "en_indexes (with_cache c e) = en_indexes e" "en_now (with_cache c e) = en_now e" "en_registry (with_cache c e) = en_registry e"
  "en_posting_log (with_cache c e) = en_posting_log e" "en_active_reads (with_cache c e) = en_active_reads e"
  "en_default_rw_txn_timeout (with_cache c e) = en_default_rw_txn_timeout e"
  "tp_world (en_provider (with_cache c e)) = tp_world (en_provider e)" "tp_dirty (en_provider (with_cache c e)) = tp_dirty (en_provider e)"
  "tp_next_page_id (en_provider (with_cache c e)) = tp_next_page_id (en_provider e)" "tp_root (en_provider (with_cache c e)) = tp_root (en_provider e)"
  "tp_min_read_lsn (en_provider (with_cache c e)) = tp_min_read_lsn (en_provider e)" "bt_len (en_tree (with_cache c e)) = bt_len (en_tree e)"
  "tp_btree_meta_page_id (en_provider (with_cache c e)) = tp_btree_meta_page_id (en_provider e)" "tp_pages (en_provider (with_cache c e)) = c"
  by (simp_all add: with_cache_def set_provider_def en_provider_def en_cache_def)

lemma en_provider_set [simp]: "en_provider (set_provider s e) = s" "set_provider s (set_provider s' e) = set_provider s e" "set_provider (en_provider e) e = e"
  by (simp_all add: en_provider_def set_provider_def)

locale engine_pages = lru_cache L pages cap for L :: "'c lru_ops" and pages cap +
  fixes U R :: "u64 set" and G :: "('c, inprocess) engine_env"
  assumes lru: "ee_lru G = L" and store: "ee_backend G = inprocess_backend" and outside: "- U \<subseteq> R" and fixed_ids: "{0, 8, 9} \<subseteq> U \<inter> R"
    and undo_ids: "UNDO_BASE \<le> q \<Longrightarrow> q \<in> R"
begin

definition shows_as :: "('c, inprocess) engine \<Rightarrow> ('c, inprocess) engine \<Rightarrow> (u64 \<rightharpoonup> bytes) \<Rightarrow> bool" where
  "shows_as e k V \<longleftrightarrow> cache_room pages cap U (en_cache e) \<and> view_of pages (en_cache e) = V \<and> with_cache no_cache e = k"

definition runs :: "(('c, inprocess) engine, 'a) prog \<Rightarrow> ('c, inprocess) engine \<Rightarrow> (u64 \<rightharpoonup> bytes) \<Rightarrow> 'a \<Rightarrow> ('c, inprocess) engine \<Rightarrow> (u64 \<rightharpoonup> bytes) \<Rightarrow> bool" where
  "runs m k V a k' V' \<longleftrightarrow> (\<forall>e. shows_as e k V \<longrightarrow> (\<exists>e'. m e = Some (Ok a, e') \<and> shows_as e' k' V'))"

definition truns :: "(('c, inprocess) txn_run, 'a) prog \<Rightarrow> embedded_txn \<Rightarrow> ('c, inprocess) engine \<Rightarrow> (u64 \<rightharpoonup> bytes) \<Rightarrow> 'a
    \<Rightarrow> embedded_txn \<Rightarrow> ('c, inprocess) engine \<Rightarrow> (u64 \<rightharpoonup> bytes) \<Rightarrow> bool" where
  "truns m x k V a x' k' V' \<longleftrightarrow> (\<forall>e. shows_as e k V \<longrightarrow> (\<exists>e'. m (x, e) = Some (Ok a, x', e') \<and> shows_as e' k' V'))"

lemma runs_ret: "runs (ret a) k V a k V"
  by (simp add: runs_def lift_def)

lemma runs_then: "runs m k V a k1 V1 \<Longrightarrow> runs (f a) k1 V1 b k2 V2 \<Longrightarrow> runs (andThen m f) k V b k2 V2"
  unfolding runs_def by (metis andThen_Ok)

lemma truns_ret: "truns (ret a) x k V a x k V"
  by (simp add: truns_def lift_def)

lemma truns_lift: "r = Ok a \<Longrightarrow> truns (lift r) x k V a x k V"
  by (simp add: truns_def lift_def)

lemma truns_then: "truns m x k V a x1 k1 V1 \<Longrightarrow> truns (f a) x1 k1 V1 b x2 k2 V2 \<Longrightarrow> truns (andThen m f) x k V b x2 k2 V2"
  unfolding truns_def by (metis andThen_Ok)

lemma truns_engine: "runs m k V a k' V' \<Longrightarrow> truns (on_engine m) x k V a x k' V'"
  unfolding truns_def runs_def on_engine_def by fastforce

lemma truns_of_txn: "f x = a \<Longrightarrow> truns (of_txn f) x k V a x k V"
  by (simp add: truns_def of_txn_def gets_def)

lemma truns_on_txn: "truns (on_txn f) x k V () (f x) k V"
  by (simp add: truns_def on_txn_def modify_def)

lemma runs_gets: "(\<And>e. with_cache no_cache e = k \<Longrightarrow> f e = a) \<Longrightarrow> runs (gets f) k V a k V"
  by (auto simp: runs_def gets_def shows_as_def)

lemma runs_modify: "(\<And>e. en_cache (f e) = en_cache e \<and> with_cache no_cache (f e) = f (with_cache no_cache e)) \<Longrightarrow> runs (modify f) k V () (f k) V"
  by (auto simp: runs_def modify_def shows_as_def)

lemma on_cache_run: "on_cache f e = (case f (en_cache e) of (a, c) \<Rightarrow> Some (Ok a, with_cache c e))"
  by (cases "f (en_cache e)") (simp add: on_cache_def on_provider_def on_tree_def with_cache_def set_provider_def en_provider_def en_cache_def)

lemma runs_cached: "V q = p \<Longrightarrow> runs (cached_page G q) k V p k V"
  unfolding runs_def shows_as_def cached_page_def lru
proof (intro allI impI)
  fix e assume p: "V q = p" and e: "cache_room pages cap U (en_cache e) \<and> view_of pages (en_cache e) = V \<and> with_cache no_cache e = k"
  then obtain c' where "cache_get L (en_cache e) q = (p, c')" "view_of pages c' = V" "cache_room pages cap U c'" using cache_get_ok [of U "en_cache e" q] by auto
  then show "\<exists>e'. on_cache (\<lambda>c. cache_get L c q) e = Some (Ok p, e') \<and> cache_room pages cap U (en_cache e') \<and> view_of pages (en_cache e') = V \<and> with_cache no_cache e' = k"
    using e by (simp add: on_cache_run)
qed

lemma runs_cache: "q \<in> U \<Longrightarrow> runs (cache_page G q p) k V () k (V(q \<mapsto> p))"
  unfolding runs_def shows_as_def cache_page_def lru
  using cache_insert_ok [where U = U and q = q and p = p] by (auto simp: on_cache_run)

lemma runs_get_page: "V q = Some p \<Longrightarrow> runs (get_page G q need) k V (Some p) k V"
  unfolding get_page_def by (rule runs_then [OF runs_cached]) (auto intro: runs_ret)

lemma runs_need_page: "V q = Some p \<Longrightarrow> runs (need_page G q need) k V p k V"
  unfolding need_page_def by (rule runs_then [OF runs_get_page]) (auto simp: ok_or_def intro: runs_ret)

section \<open>Tree operations\<close>

definition rd_ok :: "('c, inprocess) txn_provider \<Rightarrow> (u64 \<rightharpoonup> bytes) \<Rightarrow> ('c, inprocess) txn_provider \<Rightarrow> bool" where
  "rd_ok s0 V s \<longleftrightarrow> cache_room pages cap U (tp_pages s) \<and> view_of pages (tp_pages s) = V \<and> s\<lparr>tp_pages := no_cache\<rparr> = s0"

abbreviation cview :: "('c, inprocess) txn_provider \<Rightarrow> u64 \<rightharpoonup> bytes" where
  "cview s \<equiv> view_of pages (tp_pages s)"

lemma provider_ops: "pv_read (ee_provider G) = txn_read_page L (\<lambda>s q need. ip_pages s q)" "pv_write (ee_provider G) = txn_write_page L" "pv_root (ee_provider G) = tp_root"
  by (simp_all add: ee_provider_def txn_provider_ops_def lru store inprocess_backend_def)

lemma reader:
  assumes "dom (ip_pages (tp_world s0)) \<subseteq> dom V"
  shows "page_reader (ee_provider G) (rd_ok s0 V) cview tp_next_page_id"
proof
  fix s :: "('c, inprocess) txn_provider" and q
  assume ok: "rd_ok s0 V s"
  then obtain c where c: "cache_get L (tp_pages s) q = (V q, c)" "view_of pages c = V" "cache_room pages cap U c"
    using cache_get_ok [of U "tp_pages s" q] by (auto simp: rd_ok_def)
  have "tp_world s = tp_world s0" using ok by (auto simp: rd_ok_def)
  then have "ip_pages (tp_world s) q = None" if "V q = None" using that assms by auto
  then show "\<exists>s'. pv_read (ee_provider G) s q = (cview s q, s') \<and> rd_ok s0 V s' \<and> cview s' = cview s \<and> tp_next_page_id s' = tp_next_page_id s
      \<and> pv_root (ee_provider G) s' = pv_root (ee_provider G) s"
    using c ok by (cases "V q") (auto simp: provider_ops txn_read_page_def rd_ok_def)
qed

abbreviation tree_state :: "embedded_txn \<Rightarrow> ('c, inprocess) engine \<Rightarrow> ('c, inprocess) txn_provider" where
  "tree_state x k \<equiv> (en_provider k)\<lparr>tp_dirty := Some (tx_bptree_dirty x)\<rparr>"

lemma enter_tree:
  assumes "calm k V" and "shows_as e k V"
  shows "page_reader.sees (ee_provider G) (rd_ok (tree_state x k) V) cview tp_next_page_id R
    (en_tree (set_provider ((en_provider e)\<lparr>tp_dirty := Some (tx_bptree_dirty x)\<rparr>) e)) (vis_of R k V)"
proof -
  have "page_reader (ee_provider G) (rd_ok (tree_state x k) V) cview tp_next_page_id" using assms by (intro reader) (simp add: calm_def)
  then show ?thesis using assms
    by (auto simp: page_reader.sees_def shows_as_def rd_ok_def vis_of_def with_cache_def set_provider_def en_provider_def en_cache_def provider_ops)
qed

lemma leave_tree:
  assumes k: "calm k V" and e: "shows_as e k V"
    and t: "page_reader.sees (ee_provider G) (rd_ok (tree_state x k) V) cview tp_next_page_id R t (vis_of R k V)"
  shows "shows_as (set_provider ((bt_pages t)\<lparr>tp_dirty := None\<rparr>) (e\<lparr>en_tree := t\<rparr>)) k V \<and> tp_dirty (bt_pages t) = Some (tx_bptree_dirty x)"
proof -
  have pr: "page_reader (ee_provider G) (rd_ok (tree_state x k) V) cview tp_next_page_id" using k by (intro reader) (simp add: calm_def)
  have s: "rd_ok (tree_state x k) V (bt_pages t)" "bt_len t = bt_len (en_tree k)" using t by (auto simp: page_reader.sees_def [OF pr] vis_of_def)
  have "tp_dirty ((bt_pages t)\<lparr>tp_pages := no_cache\<rparr>) = tp_dirty (tree_state x k)" using s(1) unfolding rd_ok_def by metis
  then have d: "tp_dirty (bt_pages t) = Some (tx_bptree_dirty x)" by simp
  have "(bt_pages t)\<lparr>tp_dirty := None, tp_pages := no_cache\<rparr> = en_provider k"
  proof -
    have "(bt_pages t)\<lparr>tp_pages := no_cache\<rparr> = tree_state x k" using s(1) by (simp add: rd_ok_def)
    then have "((bt_pages t)\<lparr>tp_pages := no_cache\<rparr>)\<lparr>tp_dirty := None\<rparr> = (tree_state x k)\<lparr>tp_dirty := None\<rparr>" by simp
    moreover have "(tree_state x k)\<lparr>tp_dirty := None\<rparr> = en_provider k" using k by (simp add: calm_def)
    moreover have "(bt_pages t)\<lparr>tp_dirty := None, tp_pages := no_cache\<rparr> = ((bt_pages t)\<lparr>tp_pages := no_cache\<rparr>)\<lparr>tp_dirty := None\<rparr>" by (cases "bt_pages t") simp
    ultimately show ?thesis by (simp only:)
  qed
  then have "with_cache no_cache (set_provider ((bt_pages t)\<lparr>tp_dirty := None\<rparr>) (e\<lparr>en_tree := t\<rparr>)) = k"
    using e s(2) by (auto simp: shows_as_def with_cache_def set_provider_def en_provider_def)
  then show ?thesis using d s(1) by (auto simp: shows_as_def en_cache_def rd_ok_def)
qed

lemma truns_tree:
  assumes k: "calm k V" and m: "page_reader.does (ee_provider G) (rd_ok (tree_state x k) V) cview tp_next_page_id R m (vis_of R k V) a (vis_of R k V)"
  shows "truns (with_bptree_dirty m) x k V a x k V"
  unfolding truns_def
proof (intro allI impI)
  fix e assume e: "shows_as e k V"
  let ?e = "set_provider ((en_provider e)\<lparr>tp_dirty := Some (tx_bptree_dirty x)\<rparr>) e"
  have pr: "page_reader (ee_provider G) (rd_ok (tree_state x k) V) cview tp_next_page_id" using k by (intro reader) (simp add: calm_def)
  obtain t where t: "m (en_tree ?e) = Some (Ok a, t)" "page_reader.sees (ee_provider G) (rd_ok (tree_state x k) V) cview tp_next_page_id R t (vis_of R k V)"
    using m enter_tree [OF k e, of x] unfolding page_reader.does_def [OF pr] by blast
  have "with_bptree_dirty m (x, e) = Some (Ok a, x, set_provider ((bt_pages t)\<lparr>tp_dirty := None\<rparr>) (e\<lparr>en_tree := t\<rparr>))"
    using t(1) leave_tree [OF k e t(2)] by (simp add: with_bptree_dirty_def on_tree_def Let_def en_provider_def set_provider_def)
  then show "\<exists>e'. with_bptree_dirty m (x, e) = Some (Ok a, x, e') \<and> shows_as e' k V" using leave_tree [OF k e t(2)] by blast
qed

lemma truns_tree_get:
  assumes k: "calm k V" and b: "tree_inv R (vis_of R k V) b"
  shows "truns (tree_get G key) x k V (map_option leaf_of (om_lookup (ents b) key)) x k V"
proof -
  have pr: "page_reader (ee_provider G) (rd_ok (tree_state x k) V) cview tp_next_page_id" using k by (intro reader) (simp add: calm_def)
  obtain n where "rep b (v_pages (vis_of R k V)) None None None n" "distinct (pids b)" "v_root (vis_of R k V) = top_id b"
    using b by (auto simp: tree_inv_def safe_def)
  from page_reader.get_ok [OF pr this] show ?thesis unfolding tree_get_def by (intro truns_tree [OF k]) (simp add: om_lookup_def)
qed

lemma truns_tree_write:
  assumes k: "calm k V" and p: "p \<notin> R"
    and m: "page_reader.reads_to (ee_provider G) (rd_ok (tree_state x k) V) cview tp_next_page_id R m (vis_of R k V) (leaf_write (ee_provider G) p page n)"
  shows "truns (with_bptree_dirty m) x k V () (x\<lparr>tx_bptree_dirty := om_insert p page (tx_bptree_dirty x)\<rparr>) (add_len_of n k) (V(p \<mapsto> page))"
  unfolding truns_def
proof (intro allI impI)
  fix e assume e: "shows_as e k V"
  let ?e = "set_provider ((en_provider e)\<lparr>tp_dirty := Some (tx_bptree_dirty x)\<rparr>) e"
  have pr: "page_reader (ee_provider G) (rd_ok (tree_state x k) V) cview tp_next_page_id" using k by (intro reader) (simp add: calm_def)
  obtain t where t: "m (en_tree ?e) = leaf_write (ee_provider G) p page n t"
    "page_reader.sees (ee_provider G) (rd_ok (tree_state x k) V) cview tp_next_page_id R t (vis_of R k V)"
    using m enter_tree [OF k e, of x] unfolding page_reader.reads_to_def [OF pr] by blast
  let ?e1 = "set_provider ((bt_pages t)\<lparr>tp_dirty := None\<rparr>) (e\<lparr>en_tree := t\<rparr>)"
  note l = leave_tree [OF k e t(2)]
  let ?s = "(bt_pages t)\<lparr>tp_pages := cache_insert L (tp_pages (bt_pages t)) p page, tp_dirty := None\<rparr>"
  let ?e2 = "set_provider ?s (e\<lparr>en_tree := t\<lparr>bt_len := bt_len t + n\<rparr>\<rparr>)"
  have "with_bptree_dirty m (x, e) = Some (Ok (), x\<lparr>tx_bptree_dirty := om_insert p page (tx_bptree_dirty x)\<rparr>, ?e2)"
    using t(1) l by (simp add: with_bptree_dirty_def on_tree_def Let_def en_provider_def set_provider_def leaf_write_def provider_ops txn_write_page_def note_dirty_def)
  moreover have "?e2 = add_len_of n (with_cache (cache_insert L (en_cache ?e1) p page) ?e1)"
    by (simp add: add_len_of_def with_cache_def set_provider_def en_provider_def en_cache_def)
  moreover have "cache_room pages cap U (en_cache ?e1)" "view_of pages (en_cache ?e1) = V" using l by (simp_all add: shows_as_def)
  then have "shows_as (add_len_of n (with_cache (cache_insert L (en_cache ?e1) p page) ?e1)) (add_len_of n k) (V(p \<mapsto> page))"
    using cache_insert_ok [of U "en_cache ?e1" p page] p outside l
    by (auto simp: shows_as_def add_len_of_def with_cache_def set_provider_def en_provider_def en_cache_def)
  ultimately show "\<exists>e'. with_bptree_dirty m (x, e) = Some (Ok (), x\<lparr>tx_bptree_dirty := om_insert p page (tx_bptree_dirty x)\<rparr>, e')
      \<and> shows_as e' (add_len_of n k) (V(p \<mapsto> page))" by (metis (no_types, lifting))
qed

lemma add_len_simps [simp]:
  "en_provider (add_len_of n k) = en_provider k" "bt_len (en_tree (add_len_of n k)) = bt_len (en_tree k) + n" "en_now (add_len_of n k) = en_now k"
  "en_indexes (add_len_of n k) = en_indexes k" "en_registry (add_len_of n k) = en_registry k" "en_posting_log (add_len_of n k) = en_posting_log k"
  "en_active_reads (add_len_of n k) = en_active_reads k" "en_default_rw_txn_timeout (add_len_of n k) = en_default_rw_txn_timeout k"
  by (simp_all add: add_len_of_def en_provider_def)

text \<open>A plain insertion of a transaction: one page of the tree changes, and the transaction notes it.\<close>

lemma truns_tree_insert:
  assumes k: "calm k V" and b: "tree_inv R (vis_of R k V) b" and op: "open_path key b" and key: "length key = KEY_SIZE" and lv: "length (lv_value row) = VALUE_SIZE"
  shows "\<exists>page b' n. truns (tree_insert G key row) x k V () (x\<lparr>tx_bptree_dirty := om_insert (fst (leaf_for key b)) page (tx_bptree_dirty x)\<rparr>)
      (add_len_of n k) (V(fst (leaf_for key b) \<mapsto> page))
    \<and> tree_inv R (vis_of R (add_len_of n k) (V(fst (leaf_for key b) \<mapsto> page))) b' \<and> ents b' = om_insert key (encode_leaf_value row) (ents b)
    \<and> leaf_for key b' = (fst (leaf_for key b), om_insert key (encode_leaf_value row) (snd (leaf_for key b)))
    \<and> (length (om_insert key (encode_leaf_value row) (snd (leaf_for key b))) < 15 \<longrightarrow> open_path key b') \<and> length page = PAGE_SIZE
    \<and> fst (leaf_for key b) \<notin> R \<and> calm (add_len_of n k) (V(fst (leaf_for key b) \<mapsto> page))"
proof -
  let ?p = "fst (leaf_for key b)"
  have pr: "page_reader (ee_provider G) (rd_ok (tree_state x k) V) cview tp_next_page_id" using k by (intro reader) (simp add: calm_def)
  have p: "?p \<notin> R" using b leaf_for_pids(1) [of key b] by (auto simp: tree_inv_def safe_def)
  let ?n = "if key \<in> fst ` set (ents b) then 0 else (1 :: u64)"
  obtain page b' where w: "page_reader.reads_to (ee_provider G) (rd_ok (tree_state x k) V) cview tp_next_page_id R (bt_insert (ee_provider G) key row) (vis_of R k V)
      (leaf_write (ee_provider G) ?p page ?n)"
    "tree_inv R ((vis_of R k V)\<lparr>v_pages := (v_pages (vis_of R k V))(?p \<mapsto> page), v_len := v_len (vis_of R k V) + ?n\<rparr>) b'"
    "ents b' = om_insert key (encode_leaf_value row) (ents b)" "leaf_for key b' = (?p, om_insert key (encode_leaf_value row) (snd (leaf_for key b)))"
    "length (om_insert key (encode_leaf_value row) (snd (leaf_for key b))) < 15 \<longrightarrow> open_path key b'" "length page = PAGE_SIZE"
    using page_reader.plain_insert [OF pr b op key lv] by metis
  have "(vis_of R k V)\<lparr>v_pages := (v_pages (vis_of R k V))(?p \<mapsto> page), v_len := v_len (vis_of R k V) + ?n\<rparr> = vis_of R (add_len_of ?n k) (V(?p \<mapsto> page))"
    using p by (auto simp: vis_of_def fun_eq_iff restrict_map_def)
  moreover have "calm (add_len_of ?n k) (V(?p \<mapsto> page))" using k by (auto simp: calm_def)
  ultimately show ?thesis using truns_tree_write [OF k p w(1)] w(2-6) p unfolding tree_insert_def by metis
qed

end

end
