(* ===== verification/Engine_Mvcc.thy ===== *)
theory Engine_Mvcc
  imports Engine_Run
begin

text \<open>
  The versions of a row in the in-process engine: the row in the tree is the newest one, and the undo chain holds the older ones. A
  snapshot read gives the newest version at or below its LSN, and a write prepends a version and keeps the others. \<open>engine_inv\<close> is the
  invariant of an engine without open writes: the tree holds the rows of the history, every page is stored, and the undo pages that the
  chains use are neither free nor yet to be allocated.
\<close>

section \<open>Histories\<close>

type_synonym row_versions = "(u64 \<times> bytes option) list"

inductive undo_history :: "(u64 \<rightharpoonup> bytes) \<Rightarrow> u64 set \<Rightarrow> undo_ptr option \<Rightarrow> row_versions \<Rightarrow> bool" for V A where
  chain_end: "undo_history V A None []"
| chain_step: "up_page_id p \<in> A \<Longrightarrow> V (up_page_id p) = Some page \<Longrightarrow> undo_wf page \<Longrightarrow> unat (up_slot_id p) < undo_count_of page
    \<Longrightarrow> rec = undo_records page ! unat (up_slot_id p) \<Longrightarrow> \<not> has_flag (ur_old_flags rec) FLAG_INTENT \<Longrightarrow> undo_history V A (ur_prev rec) hs
    \<Longrightarrow> undo_history V A (Some p) ((ur_old_commit_lsn rec, live_value (ur_old_flags rec) (ur_old_value rec)) # hs)"

definition row_history :: "(u64 \<rightharpoonup> bytes) \<Rightarrow> u64 set \<Rightarrow> leaf_value \<Rightarrow> row_versions \<Rightarrow> bool" where
  "row_history V A row hs \<longleftrightarrow> \<not> is_intent row
    \<and> (\<exists>hs'. undo_history V A (lm_undo_ptr (lv_meta row)) hs' \<and> hs = (lm_commit_lsn (lv_meta row), live_value (lm_flags (lv_meta row)) (lv_value row)) # hs')"

text \<open>The newest version at or below an LSN.\<close>

fun visible_at :: "u64 \<Rightarrow> row_versions \<Rightarrow> bytes option" where
  "visible_at r [] = None"
| "visible_at r ((l, v) # hs) = (if l \<le> r then v else visible_at r hs)"

text \<open>The pages a transaction holds of its own are those of the cache.\<close>

definition clean :: "embedded_txn \<Rightarrow> (u64 \<rightharpoonup> bytes) \<Rightarrow> bool" where
  "clean x V \<longleftrightarrow> (\<forall>q p. om_lookup (tx_dirty x) q = Some p \<longrightarrow> V q = Some p) \<and> (\<forall>q p. om_lookup (tx_ro_cache x) q = Some p \<longrightarrow> V q = Some p)"

definition in_time :: "embedded_txn \<Rightarrow> ('c, 'w) engine \<Rightarrow> bool" where
  "in_time x k \<longleftrightarrow> (case tx_timeout x of Some timeout \<Rightarrow> en_now k - tx_started_at x \<le> timeout | None \<Rightarrow> True)"

text \<open>The undo records of the pages in \<open>A\<close> are still there.\<close>

definition keeps_undo :: "u64 set \<Rightarrow> (u64 \<rightharpoonup> bytes) \<Rightarrow> (u64 \<rightharpoonup> bytes) \<Rightarrow> bool" where
  "keeps_undo A V V' \<longleftrightarrow> (\<forall>q \<in> A. \<forall>page. V q = Some page \<longrightarrow> undo_wf page
    \<longrightarrow> (\<exists>page' rs. V' q = Some page' \<and> undo_wf page' \<and> undo_records page' = undo_records page @ rs))"

section \<open>The invariant\<close>

definition seg_page :: "bytes \<Rightarrow> bool" where
  "seg_page page \<longleftrightarrow> undo_wf page \<and> hd (get_at page 0 1) = 2"

definition en_world :: "('c, inprocess) engine \<Rightarrow> inprocess" where
  "en_world k = tp_world (en_provider k)"

text \<open>\<open>A\<close> are the undo pages in use.\<close>

definition meta_ok :: "u64 set \<Rightarrow> (u64 \<rightharpoonup> bytes) \<Rightarrow> meta_page \<Rightarrow> bool" where
  "meta_ok A V m \<longleftrightarrow> UNDO_BASE \<le> mp_next_undo_page_id m \<and> length (mp_undo_free m) \<le> UNDO_FREE_CAP \<and> distinct (mp_undo_free m)
    \<and> (\<forall>q \<in> set (mp_undo_free m). UNDO_BASE \<le> q \<and> q < mp_next_undo_page_id m \<and> q \<notin> A)
    \<and> (\<forall>q \<in> A. UNDO_BASE \<le> q \<and> q < mp_next_undo_page_id m)
    \<and> (mp_undo_history_tail m \<noteq> 0 \<longrightarrow> mp_undo_history_tail m \<in> A \<and> (\<exists>page. V (mp_undo_history_tail m) = Some page \<and> seg_page page))"

definition holds_rows :: "(u64 \<rightharpoonup> bytes) \<Rightarrow> u64 set \<Rightarrow> bt \<Rightarrow> (bytes \<rightharpoonup> row_versions) \<Rightarrow> u64 \<Rightarrow> bool" where
  "holds_rows V A b H lsn \<longleftrightarrow> (\<forall>key. case om_lookup (ents b) key of None \<Rightarrow> H key = None
    | Some enc \<Rightarrow> length (lv_value (leaf_of enc)) = VALUE_SIZE \<and> (\<exists>hs. H key = Some hs \<and> row_history V A (leaf_of enc) hs \<and> (\<forall>h \<in> set hs. fst h \<le> lsn)))"

definition engine_inv :: "u64 set \<Rightarrow> ('c, inprocess) engine \<Rightarrow> (u64 \<rightharpoonup> bytes) \<Rightarrow> bt \<Rightarrow> (bytes \<rightharpoonup> row_versions) \<Rightarrow> bool" where
  "engine_inv R k V b H \<longleftrightarrow> calm k V \<and> tree_inv R (vis_of R k V) b \<and> ip_pages (en_world k) = V \<and> ip_durable_lsn (en_world k) = ip_next_lsn (en_world k)
    \<and> (\<exists>A meta page. V META_PAGE_ID = Some page \<and> meta_decode page = Ok meta \<and> meta_ok A V meta \<and> holds_rows V A b H (ip_durable_lsn (en_world k)))"

text \<open>An engine with its cache, as a state that the invariant describes.\<close>

definition engine_holds :: "('c \<Rightarrow> u64 \<rightharpoonup> bytes) \<Rightarrow> ('c \<Rightarrow> nat) \<Rightarrow> u64 set \<Rightarrow> u64 set \<Rightarrow> ('c, inprocess) engine \<Rightarrow> bt \<Rightarrow> (bytes \<rightharpoonup> row_versions) \<Rightarrow> bool" where
  "engine_holds pages cap U R e b H \<longleftrightarrow> cache_room pages cap U (en_cache e) \<and> engine_inv R (with_cache no_cache e) (view_of pages (en_cache e)) b H"

text \<open>What \<open>begin_rw\<close> makes: the transaction and the engine.\<close>

definition new_txn :: "bool \<Rightarrow> ('c, inprocess) engine \<Rightarrow> embedded_txn" where
  "new_txn ro k =
    \<lparr>tx_read_lsn = ip_durable_lsn (en_world k), tx_read_guard = Some (fst (register (ip_durable_lsn (en_world k)) (en_active_reads k))), tx_started_at = en_now k,
     tx_timeout = None, tx_read_only = ro, tx_write_attempted = False, tx_dirty = [], tx_bptree_dirty = [], tx_ro_cache = [], tx_modified = [],
     tx_secondary_mutations = [], tx_undo_txn_id = (if ro then None else Some (ip_request_id (en_world k))),
     tx_intent_base_lsn = (if ro then 0 else ip_durable_lsn (en_world k)), tx_undo_segment_first_page_id = None, tx_undo_segment_last_page_id = None,
     tx_undo_segment_last_record = None, tx_undo_segment_record_count = 0\<rparr>"

definition begun :: "bool \<Rightarrow> ('c, inprocess) engine \<Rightarrow> ('c, inprocess) engine" where
  "begun ro k = (let s = en_provider k; w = tp_world s; lsn = ip_durable_lsn w in
     set_provider (s\<lparr>tp_min_read_lsn := max (tp_min_read_lsn s) lsn, tp_world := (if ro then w else w\<lparr>ip_request_id := ip_request_id w + 1\<rparr>)\<rparr>)
       (k\<lparr>en_active_reads := snd (register lsn (en_active_reads k)),
          en_registry := (if ro then en_registry k
            else (en_registry k)(ip_request_id w \<mapsto> \<lparr>pt_deadline = en_now k + en_default_rw_txn_timeout k, pt_write_keys = []\<rparr>))\<rparr>))"

section \<open>Reading along the undo chain\<close>

lemma read_record_ref_eq: "read_record_ref page slot = read_record page slot"
  by (simp add: read_record_ref_def read_record_def)

lemma undo_history_keeps: "undo_history V A p hs \<Longrightarrow> keeps_undo A V V' \<Longrightarrow> A \<subseteq> A' \<Longrightarrow> undo_history V' A' p hs"
proof (induction rule: undo_history.induct)
  case (chain_step p page rec hs)
  obtain page' rs where p': "V' (up_page_id p) = Some page'" "undo_wf page'" "undo_records page' = undo_records page @ rs"
    using chain_step(1-3) chain_step.prems(1) unfolding keeps_undo_def by blast
  have "undo_count_of page' = undo_count_of page + length rs" using arg_cong [OF p'(3), of length] by simp
  moreover have "undo_records page' ! unat (up_slot_id p) = rec" using p'(3) chain_step(4,5) by (simp add: nth_append)
  ultimately show ?case using chain_step p' by (intro undo_history.chain_step [where page = page']) auto
qed (rule undo_history.chain_end)

lemma row_history_keeps: "row_history V A row hs \<Longrightarrow> keeps_undo A V V' \<Longrightarrow> A \<subseteq> A' \<Longrightarrow> row_history V' A' row hs"
  unfolding row_history_def using undo_history_keeps by blast

lemma keeps_same: "(\<And>q. q \<in> A \<Longrightarrow> V' q = V q) \<Longrightarrow> keeps_undo A V V'"
  by (auto simp: keeps_undo_def)

context engine_pages
begin

lemma truns_loop_stop: "truns (body c) x k V (Inr a) x' k' V' \<Longrightarrow> truns (loop_until body c) x k V a x' k' V'"
  unfolding truns_def by (subst loop_until.simps) fastforce

lemma truns_loop_step: "truns (body c) x k V (Inl c') x1 k1 V1 \<Longrightarrow> truns (loop_until body c') x1 k1 V1 a x' k' V' \<Longrightarrow> truns (loop_until body c) x k V a x' k' V'"
  unfolding truns_def by (subst loop_until.simps) fastforce

lemma truns_in_time: "in_time x k \<Longrightarrow> truns ensure_not_timed_out x k V () x k V"
  unfolding truns_def ensure_not_timed_out_def shows_as_def in_time_def by (auto split: option.splits)

lemma truns_page_read:
  assumes "V q = Some p" and "clean x V"
  shows "\<exists>ro. truns (get_page_for_read G q) x k V (Some p) (x\<lparr>tx_ro_cache := ro\<rparr>) k V \<and> clean (x\<lparr>tx_ro_cache := ro\<rparr>) V"
proof -
  let ?n = "om_insert q p (tx_ro_cache x)"
  let ?hit = "om_lookup (tx_dirty x) q \<noteq> None \<or> om_lookup (tx_ro_cache x) q \<noteq> None"
  show ?thesis
  proof (cases ?hit)
    case True
    have "truns (get_page_for_read G q) x k V (Some p) x k V"
      unfolding get_page_for_read_def
      using True assms by (intro truns_then [OF truns_of_txn [OF refl]]) (auto simp: clean_def split: option.splits intro!: truns_ret)
    then show ?thesis using assms(2) by (intro exI [of _ "tx_ro_cache x"]) simp
  next
    case False
    have "truns (get_page_for_read G q) x k V (Some p) (x\<lparr>tx_ro_cache := ?n\<rparr>) k V"
      unfolding get_page_for_read_def
      using False assms truns_on_txn [of "\<lambda>x. x\<lparr>tx_ro_cache := om_insert q p (tx_ro_cache x)\<rparr>" x k V]
      by (intro truns_then [OF truns_of_txn [OF refl]]) (auto intro!: truns_then [OF truns_engine [OF runs_cached]] truns_then [where f = "\<lambda>_. ret (Some p)"] truns_ret)
    moreover have "clean (x\<lparr>tx_ro_cache := ?n\<rparr>) V" using assms by (auto simp: clean_def om_lookup_insert split: if_splits)
    ultimately show ?thesis by blast
  qed
qed

lemma truns_undo_read:
  "undo_history V A p hs \<Longrightarrow> clean x V \<Longrightarrow> \<exists>ro. truns (read_visible_from_undo G p) x k V (visible_at (tx_read_lsn x) hs) (x\<lparr>tx_ro_cache := ro\<rparr>) k V
    \<and> clean (x\<lparr>tx_ro_cache := ro\<rparr>) V"
  unfolding read_visible_from_undo_def
proof (induction arbitrary: x rule: undo_history.induct)
  case chain_end
  then show ?case by (intro exI [of _ "tx_ro_cache x"]) (auto simp: undo_step_def intro!: truns_loop_stop truns_ret)
next
  case (chain_step p page rec hs)
  obtain ro where ro: "truns (get_page_for_read G (up_page_id p)) x k V (Some page) (x\<lparr>tx_ro_cache := ro\<rparr>) k V" "clean (x\<lparr>tx_ro_cache := ro\<rparr>) V"
    using truns_page_read [OF chain_step(2) chain_step.prems] by blast
  have r: "read_record_ref page (up_slot_id p) = Ok rec" using read_record_nth [OF chain_step(3,4)] chain_step(5) by (simp add: read_record_ref_eq)
  let ?a = "if ur_old_commit_lsn rec \<le> tx_read_lsn x then Inr (live_value (ur_old_flags rec) (ur_old_value rec)) else Inl (ur_prev rec)"
  have s: "truns (undo_step G (Some p)) x k V ?a (x\<lparr>tx_ro_cache := ro\<rparr>) k V"
    unfolding undo_step_def using chain_step(6) r
    by (auto simp: ok_or_def intro!: truns_then [OF ro(1)] truns_then [OF truns_of_txn [OF refl]] truns_ret)
  show ?case
  proof (cases "ur_old_commit_lsn rec \<le> tx_read_lsn x")
    case True
    then show ?thesis using s ro(2) by (intro exI [of _ ro] conjI truns_loop_stop) simp_all
  next
    case False
    obtain ro' where "truns (loop_until (undo_step G) (ur_prev rec)) (x\<lparr>tx_ro_cache := ro\<rparr>) k V (visible_at (tx_read_lsn x) hs) (x\<lparr>tx_ro_cache := ro'\<rparr>) k V"
      "clean (x\<lparr>tx_ro_cache := ro'\<rparr>) V" using chain_step.IH [OF ro(2)] by auto
    then show ?thesis using False truns_loop_step [where body = "undo_step G"] s by (intro exI [of _ ro'] conjI) auto
  qed
qed

text \<open>A read of a committed row gives what its history says, and a row that is not in the tree reads as absent.\<close>

lemma truns_value:
  assumes k: "calm k V" and b: "tree_inv R (vis_of R k V) b" and t: "in_time x k" and c: "clean x V"
    and h: "case om_lookup (ents b) key of None \<Rightarrow> hs = [] | Some enc \<Rightarrow> row_history V A (leaf_of enc) hs"
  shows "\<exists>ro. truns (read_visible_value_from_row G key) x k V (visible_at (tx_read_lsn x) hs) (x\<lparr>tx_ro_cache := ro\<rparr>) k V \<and> clean (x\<lparr>tx_ro_cache := ro\<rparr>) V"
proof -
  have "\<exists>ro. truns (value_step G key ()) x k V (Inr (visible_at (tx_read_lsn x) hs)) (x\<lparr>tx_ro_cache := ro\<rparr>) k V \<and> clean (x\<lparr>tx_ro_cache := ro\<rparr>) V"
  proof (cases "om_lookup (ents b) key")
    case None
    then show ?thesis using c h truns_tree_get [OF k b, of key x] unfolding value_step_def
      by (intro exI [of _ "tx_ro_cache x"]) (auto intro!: truns_then [OF truns_in_time [OF t]] truns_ret elim!: truns_then)
  next
    case (Some enc)
    let ?row = "leaf_of enc" let ?m = "lv_meta ?row"
    have ni: "\<not> is_intent ?row" using h Some by (simp add: row_history_def)
    obtain hs' where u: "undo_history V A (lm_undo_ptr ?m) hs'" and hs: "hs = (lm_commit_lsn ?m, live_value (lm_flags ?m) (lv_value ?row)) # hs'"
      using h Some by (auto simp: row_history_def)
    obtain ro where ro: "truns (read_visible_from_undo G (lm_undo_ptr ?m)) x k V (visible_at (tx_read_lsn x) hs') (x\<lparr>tx_ro_cache := ro\<rparr>) k V"
      "clean (x\<lparr>tx_ro_cache := ro\<rparr>) V" using truns_undo_read [OF u c] by blast
    have g: "truns (tree_get G key) x k V (Some ?row) x k V" using truns_tree_get [OF k b, of key x] Some by simp
    show ?thesis
    proof (cases "lm_commit_lsn ?m \<le> tx_read_lsn x")
      case True
      then show ?thesis using c ni hs unfolding value_step_def
        by (intro exI [of _ "tx_ro_cache x"])
          (auto simp: Let_def intro!: truns_then [OF truns_in_time [OF t]] truns_then [OF g] truns_then [OF truns_of_txn [OF refl]] truns_ret)
    next
      case False
      then have "truns (value_step G key ()) x k V (Inr (visible_at (tx_read_lsn x) hs)) (x\<lparr>tx_ro_cache := ro\<rparr>) k V"
        using ni hs unfolding value_step_def
        by (auto simp: Let_def intro!: truns_then [OF truns_in_time [OF t]] truns_then [OF g] truns_then [OF truns_of_txn [OF refl]] truns_then [OF ro(1)] truns_ret)
      then show ?thesis using ro(2) by blast
    qed
  qed
  then show ?thesis unfolding read_visible_value_from_row_def using truns_loop_stop [where body = "value_step G key"] by blast
qed

lemma begin_run:
  assumes "shows_as e k V"
  shows "engine_begin_tx G True None e = Some (Ok (new_txn True k), begun True e)"
    and "engine_begin_rw G e = Some (Ok (new_txn False k), begun False e)"
  using assms
  by (auto simp: shows_as_def engine_begin_tx_def engine_begin_rw_def begin_rw_with_def update_def Let_def new_txn_def begun_def engine_durable_lsn_def store
      inprocess_backend_def en_world_def andThen_def modify_def lift_def register_pending_txn_def registry_deadline_def inprocess_allocate_request_id_def
      set_provider_def en_provider_def with_cache_def split: prod.splits)

lemma begun_shows: "shows_as e k V \<Longrightarrow> shows_as (begun ro e) (begun ro k) V"
  by (auto simp: shows_as_def begun_def Let_def with_cache_def set_provider_def en_provider_def en_cache_def)

lemma begun_simps [simp]:
  "ip_pages (en_world (begun ro k)) = ip_pages (en_world k)" "ip_durable_lsn (en_world (begun ro k)) = ip_durable_lsn (en_world k)"
  "ip_next_lsn (en_world (begun ro k)) = ip_next_lsn (en_world k)" "vis_of R (begun ro k) V = vis_of R k V" "en_now (begun ro k) = en_now k"
  "en_indexes (begun ro k) = en_indexes k" "calm (begun ro k) V = calm k V"
  by (auto simp: begun_def Let_def set_provider_def en_provider_def en_world_def vis_of_def calm_def)

lemma new_txn_simps [simp]: "tx_read_lsn (new_txn ro k) = ip_durable_lsn (en_world k)" "clean (new_txn ro k) V" "in_time (new_txn ro k) k'"
  by (simp_all add: new_txn_def clean_def in_time_def)

lemma holds_rowsD:
  assumes "holds_rows V A b H lsn"
  shows "case om_lookup (ents b) key of None \<Rightarrow> (case H key of Some hs \<Rightarrow> hs | None \<Rightarrow> []) = []
    | Some enc \<Rightarrow> row_history V A (leaf_of enc) (case H key of Some hs \<Rightarrow> hs | None \<Rightarrow> [])"
  using assms [unfolded holds_rows_def, rule_format, of key] by (auto split: option.splits)

end

lemma visible_all: "\<forall>h \<in> set hs. fst h \<le> lsn \<Longrightarrow> visible_at lsn hs = (case hs of [] \<Rightarrow> None | (l, v) # _ \<Rightarrow> v)"
  by (cases hs) (auto split: prod.splits)

end
