(* ===== verification/Engine_Put.thy ===== *)
theory Engine_Put
  imports Engine_Mvcc
begin

text \<open>
  A write of the in-process engine up to its intent in the tree, when the leaf of the key has room and no page on the way to it is full:
  the undo record of the old row opens the segment of the transaction, and the intent points to it.
\<close>

declare fun_upd_apply [simp del] fun_upd_same [simp] fun_upd_other [simp]

section \<open>States of a write\<close>

text \<open>A transaction that has written one row: what it has staged, and its undo segment if it has one.\<close>

definition wrote_one :: "embedded_txn \<Rightarrow> (u64 \<rightharpoonup> bytes) \<Rightarrow> u64 set \<Rightarrow> bool" where
  "wrote_one x V A \<longleftrightarrow> \<not> tx_read_only x \<and> tx_timeout x = None \<and> tx_secondary_mutations x = [] \<and> tx_ro_cache x = []
    \<and> (case tx_undo_segment_first_page_id x of None \<Rightarrow> tx_dirty x = []
       | Some pid \<Rightarrow> pid \<in> A \<and> (\<exists>mpage upage. tx_dirty x = [(0, mpage), (pid, upage)] \<and> V 0 = Some mpage \<and> V pid = Some upage \<and> seg_page upage))"

definition roomy :: "bytes \<Rightarrow> bt \<Rightarrow> bool" where
  "roomy key b \<longleftrightarrow> open_path key b \<and> length (snd (leaf_for key b)) < 14"

definition undo_room :: "u64 set \<Rightarrow> (u64 \<rightharpoonup> bytes) \<Rightarrow> bool" where
  "undo_room U V \<longleftrightarrow> (\<forall>page meta. V META_PAGE_ID = Some page \<longrightarrow> meta_decode page = Ok meta \<longrightarrow>
    (if mp_undo_free meta = [] then unat (mp_next_undo_page_id meta) + 1 < 2 ^ 64 \<and> mp_next_undo_page_id meta \<in> U else last (mp_undo_free meta) \<in> U))"

text \<open>The engine in the middle of a commit: an intent of the transaction \<open>t\<close> in a leaf with room, the pages the transaction has
  written, and the history the row had before.\<close>

definition one_intent :: "u64 set \<Rightarrow> bytes \<Rightarrow> u64 \<Rightarrow> row_versions \<Rightarrow> leaf_value \<Rightarrow> embedded_txn \<Rightarrow> ('c, inprocess) engine \<Rightarrow> (u64 \<rightharpoonup> bytes) \<Rightarrow> bt \<Rightarrow> u64 set \<Rightarrow> bool" where
  "one_intent R key t hs row x k V b A \<longleftrightarrow> calm k V \<and> tree_inv R (vis_of R k V) b \<and> open_path key b
    \<and> om_lookup (ents b) key = Some (encode_leaf_value row) \<and> leaf_value_ok row \<and> owns_intent t row \<and> undo_history V A (lm_undo_ptr (lv_meta row)) hs
    \<and> wrote_one x V A \<and> tx_modified x = [(key, ())] \<and> tx_undo_txn_id x = Some t
    \<and> (\<exists>page. tx_bptree_dirty x = [(fst (leaf_for key b), page)] \<and> V (fst (leaf_for key b)) = Some page \<and> length page = PAGE_SIZE)
    \<and> (\<exists>page meta. V META_PAGE_ID = Some page \<and> meta_decode page = Ok meta \<and> meta_ok A V meta
        \<and> (\<forall>pid. tx_undo_segment_first_page_id x = Some pid \<longrightarrow> pid \<noteq> mp_undo_history_tail meta))"

section \<open>Undo pages\<close>

lemma segment_type: "read_segment_header page = Ok h \<Longrightarrow> length page = PAGE_SIZE \<and> hd (get_at page 0 1) = 2"
  by (auto simp: read_segment_header_def invalid_input_def buf_simps res_bind_Ok_iff split: if_splits)

lemma seg_page_header:
  assumes "seg_page p"
  shows "\<exists>q. write_segment_header p hdr = Ok q \<and> seg_page q \<and> undo_records q = undo_records p \<and> read_segment_header q = Ok hdr"
  using write_segment_header_ok [of p hdr] assms segment_type by (auto simp: seg_page_def)

lemma alloc_undo_ok:
  assumes m: "meta_ok A V m" and nx: "mp_undo_free m = [] \<longrightarrow> unat (mp_next_undo_page_id m) + 1 < 2 ^ 64"
  shows "\<exists>pid m'. alloc_undo_page m = Ok (pid, m') \<and> pid = (if mp_undo_free m = [] then mp_next_undo_page_id m else last (mp_undo_free m))
    \<and> UNDO_BASE \<le> pid \<and> pid \<notin> A \<and> meta_ok (insert pid A) V m' \<and> mp_undo_history_tail m' = mp_undo_history_tail m"
proof (cases "mp_undo_free m = []")
  case True
  let ?n = "mp_next_undo_page_id m"
  have s: "unat (?n + 1) = unat ?n + 1" using nx True by (simp add: unat_word_ariths)
  then have lt: "q \<le> ?n \<longleftrightarrow> q < ?n + 1" for q by (auto simp: word_less_nat_alt word_le_nat_alt)
  have ge: "UNDO_BASE \<le> ?n + 1" using m order.strict_implies_order [of ?n "?n + 1"] lt [of ?n] by (auto simp: meta_ok_def intro: order.trans)
  have "alloc_undo_page m = Ok (?n, m\<lparr>mp_next_undo_page_id := ?n + 1\<rparr>)"
    using True nx by (auto simp: alloc_undo_page_def pop_free_undo_def chk_add_def)
  moreover have "meta_ok (insert ?n A) V (m\<lparr>mp_next_undo_page_id := ?n + 1\<rparr>)"
    using m True ge by (auto simp: meta_ok_def simp flip: lt)
  moreover have "?n \<notin> A" using m by (auto simp: meta_ok_def)
  ultimately show ?thesis using True m by (auto simp: meta_ok_def)
next
  case False
  let ?p = "last (mp_undo_free m)"
  have p: "?p \<in> set (mp_undo_free m)" using False by simp
  have "distinct (butlast (mp_undo_free m) @ [?p])" using m False by (simp add: meta_ok_def)
  then have nb: "?p \<notin> set (butlast (mp_undo_free m))" by simp
  have "alloc_undo_page m = Ok (?p, m\<lparr>mp_undo_free := butlast (mp_undo_free m)\<rparr>)" using False by (simp add: alloc_undo_page_def pop_free_undo_def)
  moreover have "meta_ok (insert ?p A) V (m\<lparr>mp_undo_free := butlast (mp_undo_free m)\<rparr>)"
    using m p nb in_set_butlastD [of _ "mp_undo_free m"] by (auto simp: meta_ok_def distinct_butlast)
  ultimately show ?thesis using False m p by (auto simp: meta_ok_def)
qed

lemma meta_ok_encode:
  assumes "meta_ok A V m"
  shows "\<exists>page. meta_encode m = Ok page \<and> meta_decode page = Ok m \<and> length page = PAGE_SIZE"
proof -
  have "0 \<notin> set (mp_undo_free m)" using assms by (auto simp: meta_ok_def)
  then have "res_bind (meta_encode m) meta_decode = Ok m" using meta_decode_encode [of m] assms filter_id_conv [of "\<lambda>pid. pid \<noteq> 0" "mp_undo_free m"]
    by (auto simp: meta_ok_def)
  then obtain page where "meta_encode m = Ok page" "meta_decode page = Ok m" by (auto simp: res_bind_Ok_iff)
  moreover have "length page = PAGE_SIZE" using calculation(2) by (auto simp: meta_decode_def split: if_splits)
  ultimately show ?thesis by blast
qed

lemma meta_ok_cong: "meta_ok A V m \<Longrightarrow> (mp_undo_history_tail m \<noteq> 0 \<Longrightarrow> \<exists>page. V' (mp_undo_history_tail m) = Some page \<and> seg_page page) \<Longrightarrow> meta_ok A V' m"
  by (auto simp: meta_ok_def)

context engine_pages
begin

lemma truns_stage: "\<not> tx_read_only x \<Longrightarrow> q \<in> U \<Longrightarrow> truns (txn_stage_page G q p) x k V () (x\<lparr>tx_dirty := om_insert q p (tx_dirty x)\<rparr>) k (V(q \<mapsto> p))"
  unfolding txn_stage_page_def
  by (rule truns_then [OF truns_of_txn [OF refl]])
    (auto intro!: truns_then [OF truns_on_txn [of "\<lambda>x. x\<lparr>tx_dirty := om_insert q p (tx_dirty x)\<rparr>" x k V]] truns_engine runs_cache)

lemma truns_cached: "truns (on_engine (cached_page G q)) x k V (V q) x k V"
  by (intro truns_engine runs_cached) simp

lemma truns_get: "truns (of_txn f) x k V (f x) x k V"
  by (rule truns_of_txn) simp

lemma truns_undo_meta:
  assumes "V 0 = Some page" and "meta_decode page = Ok meta" and "UNDO_BASE \<le> mp_next_undo_page_id meta"
  shows "truns (undo_meta G) x k V meta x k V"
  unfolding undo_meta_def
  by (rule truns_then [OF truns_cached], rule truns_then [OF truns_get]) (use assms in \<open>auto simp: ok_or_def intro!: truns_ret\<close>)

text \<open>The first undo record of a transaction opens its segment.\<close>

lemma truns_append_undo:
  assumes mp: "V 0 = Some page" "meta_decode page = Ok meta" and m: "meta_ok A V meta" and nx: "mp_undo_free meta = [] \<longrightarrow> unat (mp_next_undo_page_id meta) + 1 < 2 ^ 64"
    and u: "(if mp_undo_free meta = [] then mp_next_undo_page_id meta else last (mp_undo_free meta)) \<in> U"
    and x: "tx_undo_segment_last_page_id x = None" "tx_undo_segment_last_record x = None" "\<not> tx_read_only x" "tx_undo_txn_id x = Some t" "tx_dirty x = []"
    and v: "length old_value = VALUE_SIZE"
  shows "\<exists>pid upage mpage meta' x'. truns (append_undo G prev lsn flags old_value) x k V \<lparr>up_page_id = pid, up_slot_id = 0\<rparr> x' k (V(pid \<mapsto> upage, 0 \<mapsto> mpage))
    \<and> UNDO_BASE \<le> pid \<and> pid \<in> U \<and> pid \<notin> A \<and> seg_page upage
    \<and> undo_records upage = [undo_norm \<lparr>ur_data_page_id = 0, ur_data_slot_id = 0, ur_prev = prev, ur_txn_id = t, ur_txn_next = None,
        ur_old_commit_lsn = lsn, ur_old_flags = flags, ur_old_value = old_value\<rparr>]
    \<and> meta_decode mpage = Ok meta' \<and> meta_ok (insert pid A) V meta' \<and> mp_undo_history_tail meta' = mp_undo_history_tail meta
    \<and> x' = x\<lparr>tx_dirty := [(0, mpage), (pid, upage)], tx_undo_segment_first_page_id := Some pid, tx_undo_segment_last_page_id := Some pid,
        tx_undo_segment_last_record := Some \<lparr>up_page_id = pid, up_slot_id = 0\<rparr>,
        tx_undo_segment_record_count := saturating_succ32 (tx_undo_segment_record_count x)\<rparr>"
proof -
  obtain pid meta' where a: "alloc_undo_page meta = Ok (pid, meta')" "pid = (if mp_undo_free meta = [] then mp_next_undo_page_id meta else last (mp_undo_free meta))"
    "UNDO_BASE \<le> pid" "pid \<notin> A" "meta_ok (insert pid A) V meta'" "mp_undo_history_tail meta' = mp_undo_history_tail meta"
    using alloc_undo_ok [OF m nx] by blast
  have pu: "pid \<in> U" using a(2) u by simp
  have p0: "0 < pid" "pid \<noteq> 0" using a(3) by (auto simp: word_less_nat_alt word_le_nat_alt)
  obtain mpage where mp': "meta_encode meta' = Ok mpage" "meta_decode mpage = Ok meta'" using meta_ok_encode [OF a(5)] by blast
  let ?s = "new_undo_segment_page t pid"
  define r where "r = \<lparr>ur_data_page_id = 0, ur_data_slot_id = 0, ur_prev = prev, ur_txn_id = t, ur_txn_next = None,
        ur_old_commit_lsn = lsn, ur_old_flags = flags, ur_old_value = old_value\<rparr>"
  have c0: "undo_count_of ?s = 0" using new_undo_segment_page_wf(2) [of t pid] length_undo_records [of ?s] by simp
  obtain upage where up: "append_record ?s r = Ok (upage, 0)" "undo_wf upage" "undo_records upage = [undo_norm r]" "get_at upage 0 1 = get_at ?s 0 1"
    using append_record_ok [OF new_undo_segment_page_wf(1), of t pid r] c0 v new_undo_segment_page_wf(2) [of t pid] by (auto simp: r_def)
  have ty: "hd (get_at upage 0 1) = 2" using up(4) new_undo_segment_page_type [of t pid] by simp
  let ?x1 = "x\<lparr>tx_undo_segment_first_page_id := Some pid, tx_undo_segment_last_page_id := Some pid\<rparr>"
  let ?x2 = "?x1\<lparr>tx_dirty := [(pid, ?s)]\<rparr>"
  have seg: "truns (undo_segment G t meta) x k V (pid, meta') ?x2 k (V(pid \<mapsto> ?s))"
    unfolding undo_segment_def using x a(1) truns_on_txn [of "\<lambda>x. x\<lparr>tx_undo_segment_first_page_id := Some pid, tx_undo_segment_last_page_id := Some pid\<rparr>" x k V]
      truns_stage [of ?x1 pid ?s k V] pu
    by (intro truns_then [OF truns_of_txn [OF refl]]) (auto elim!: truns_then intro!: truns_ret)
  define x2 V1 where "x2 = x\<lparr>tx_undo_segment_first_page_id := Some pid, tx_undo_segment_last_page_id := Some pid, tx_dirty := [(pid, ?s)]\<rparr>"
    and "V1 = V(pid \<mapsto> ?s)"
  note seg = seg [folded V1_def] and x2 = x2_def
  have um: "truns (undo_meta G) x k V meta x k V" using truns_undo_meta [of V page meta x k] mp m by (simp add: meta_ok_def)
  have img: "truns (undo_page_image G pid) x2 k V1 ?s x2 k V1"
    unfolding undo_page_image_def by (rule truns_then [OF truns_get]) (auto simp: om_lookup_def x2 intro!: truns_ret)
  have place: "truns (place_record G r pid ?s meta') x2 k V1 (pid, upage, 0, meta') x2 k V1" unfolding place_record_def using up(1) by (simp add: truns_ret)
  have lr: "tx_undo_segment_last_record x2 = None" using x(2) by (simp add: x2)
  let ?ptr = "\<lparr>up_page_id = pid, up_slot_id = 0\<rparr>"
  let ?f = "\<lambda>x. x\<lparr>tx_undo_segment_last_page_id := Some pid, tx_undo_segment_last_record := Some ?ptr,
      tx_undo_segment_record_count := saturating_succ32 (tx_undo_segment_record_count x)\<rparr>"
  define x4 where "x4 = (?f x2)\<lparr>tx_dirty := [(pid, upage)]\<rparr>"
  have x4d: "(?f x2)\<lparr>tx_dirty := om_insert pid upage (tx_dirty (?f x2))\<rparr> = x4" by (simp add: x4_def x2)
  have st1: "truns (txn_stage_page G pid upage) (?f x2) k V1 () x4 k (V1(pid \<mapsto> upage))"
    using truns_stage [of "?f x2" pid upage k V1] x(3) pu unfolding x4d by (simp add: x2)
  have st2: "truns (txn_stage_page G 0 mpage) x4 k (V1(pid \<mapsto> upage)) () (x4\<lparr>tx_dirty := [(0, mpage), (pid, upage)]\<rparr>) k (V(pid \<mapsto> upage, 0 \<mapsto> mpage))"
    using truns_stage [of x4 0 mpage k "V1(pid \<mapsto> upage)"] x(3) fixed_ids p0 by (simp add: x4_def x2 V1_def)
  have "truns (append_undo G prev lsn flags old_value) x k V ?ptr (x4\<lparr>tx_dirty := [(0, mpage), (pid, upage)]\<rparr>) k (V(pid \<mapsto> upage, 0 \<mapsto> mpage))"
    unfolding append_undo_def
    apply (subst if_not_P, use v in simp)
    apply (rule truns_then [OF truns_get], unfold x(4) option.case, rule truns_then [OF truns_ret])
    apply (rule truns_then [OF um])
    apply (rule truns_then [OF seg [folded x2]], unfold prod.case, rule truns_then [OF img])
    apply (rule truns_then [OF truns_get], unfold lr, rule truns_then [OF place [unfolded r_def]])
    apply (unfold prod.case Let_def, rule truns_then [OF truns_on_txn], rule truns_then [OF st1], rule truns_then [OF truns_lift [OF mp'(1)]])
    apply (rule truns_then [OF st2 truns_ret])
    done
  moreover have "x4\<lparr>tx_dirty := [(0, mpage), (pid, upage)]\<rparr> = x\<lparr>tx_dirty := [(0, mpage), (pid, upage)], tx_undo_segment_first_page_id := Some pid,
      tx_undo_segment_last_page_id := Some pid, tx_undo_segment_last_record := Some ?ptr, tx_undo_segment_record_count := saturating_succ32 (tx_undo_segment_record_count x)\<rparr>"
    by (simp add: x4_def x2)
  ultimately show ?thesis using a(3-6) pu up(2,3) ty mp'(2) unfolding r_def seg_page_def by (metis (no_types, lifting))
qed

text \<open>The row a write puts into the tree: an intent whose undo chain is the history of the old row.\<close>

lemma truns_put_row:
  assumes x: "x = new_txn False k0" and t: "t = ip_request_id (en_world k0)" and lsn: "lsn = ip_durable_lsn (en_world k0)"
    and mp: "V 0 = Some page" "meta_decode page = Ok meta" and m: "meta_ok A V meta"
    and nx: "mp_undo_free meta = [] \<longrightarrow> unat (mp_next_undo_page_id meta) + 1 < 2 ^ 64"
    and u: "(if mp_undo_free meta = [] then mp_next_undo_page_id meta else last (mp_undo_free meta)) \<in> U"
    and old: "case existing of None \<Rightarrow> hs = [] | Some row \<Rightarrow> length (lv_value row) = VALUE_SIZE \<and> row_history V A row hs"
  shows "\<exists>ptr x1 V1 A1 meta1 page1. truns (case existing of
        None \<Rightarrow> ret (intent_row x value FLAG_INTENT None (tx_intent_base_lsn x))
      | Some old \<Rightarrow> if own_intent x old then ret (intent_row x value FLAG_INTENT (lm_undo_ptr (lv_meta old)) (lm_intent_lsn (lv_meta old)))
          else if is_intent old then lift (foreign_intent (lm_intent_txn_id (lv_meta old)))
          else andThen (undo_for G old) (\<lambda>ptr. ret (intent_row x value FLAG_INTENT (Some ptr) (tx_intent_base_lsn x))))
      x k V (intent_row x value FLAG_INTENT ptr lsn) x1 k V1
    \<and> undo_history V1 A1 ptr hs \<and> (\<forall>p. ptr = Some p \<longrightarrow> up_page_id p \<noteq> 0) \<and> wrote_one x1 V1 A1
    \<and> V1 0 = Some page1 \<and> meta_decode page1 = Ok meta1 \<and> meta_ok A1 V1 meta1 \<and> mp_undo_history_tail meta1 = mp_undo_history_tail meta
    \<and> A \<subseteq> A1 \<and> keeps_undo A V V1 \<and> (\<forall>q. q \<notin> dom (map_of (tx_dirty x1)) \<longrightarrow> V1 q = V q) \<and> (\<forall>q. V1 q \<noteq> V q \<longrightarrow> q \<in> R)
    \<and> (\<forall>pid. tx_undo_segment_first_page_id x1 = Some pid \<longrightarrow> pid \<notin> A)
    \<and> tx_bptree_dirty x1 = [] \<and> tx_modified x1 = [] \<and> tx_undo_txn_id x1 = Some t \<and> dom V \<subseteq> dom V1"
proof (cases existing)
  case None
  then have "undo_history V A None hs" using old by (simp add: undo_history.chain_end)
  moreover have "wrote_one x V A" by (simp add: wrote_one_def x new_txn_def)
  moreover have "truns (ret (intent_row x value FLAG_INTENT None (tx_intent_base_lsn x))) x k V (intent_row x value FLAG_INTENT None lsn) x k V"
    using x lsn by (simp add: truns_ret new_txn_def)
  moreover have "keeps_undo A V V" by (rule keeps_same) simp
  ultimately show ?thesis using None mp m x t
    by (intro exI [of _ "None"] exI [of _ x] exI [of _ V] exI [of _ A] exI [of _ meta] exI [of _ page]) (simp add: new_txn_def)
next
  case (Some row)
  let ?m = "lv_meta row"
  have v: "length (lv_value row) = VALUE_SIZE" and rh: "row_history V A row hs" using old Some by auto
  have xs: "tx_undo_segment_last_page_id x = None" "tx_undo_segment_last_record x = None" "\<not> tx_read_only x" "tx_undo_txn_id x = Some t" "tx_dirty x = []"
    using x t by (simp_all add: new_txn_def)
  obtain pid upage mpage meta' x' where a: "truns (undo_for G row) x k V \<lparr>up_page_id = pid, up_slot_id = 0\<rparr> x' k (V(pid \<mapsto> upage, 0 \<mapsto> mpage))"
    "UNDO_BASE \<le> pid" "pid \<in> U" "pid \<notin> A" "seg_page upage"
    "undo_records upage = [undo_norm \<lparr>ur_data_page_id = 0, ur_data_slot_id = 0, ur_prev = lm_undo_ptr ?m, ur_txn_id = t, ur_txn_next = None,
        ur_old_commit_lsn = lm_commit_lsn ?m, ur_old_flags = lm_flags ?m, ur_old_value = lv_value row\<rparr>]"
    "meta_decode mpage = Ok meta'" "meta_ok (insert pid A) V meta'" "mp_undo_history_tail meta' = mp_undo_history_tail meta"
    "x' = x\<lparr>tx_dirty := [(0, mpage), (pid, upage)], tx_undo_segment_first_page_id := Some pid, tx_undo_segment_last_page_id := Some pid,
        tx_undo_segment_last_record := Some \<lparr>up_page_id = pid, up_slot_id = 0\<rparr>,
        tx_undo_segment_record_count := saturating_succ32 (tx_undo_segment_record_count x)\<rparr>"
    using truns_append_undo [OF mp m nx u xs v, of "lm_undo_ptr ?m" "lm_commit_lsn ?m" "lm_flags ?m" k] unfolding undo_for_def by blast
  have base: "tx_intent_base_lsn x = lsn" using x lsn by (simp add: new_txn_def)
  let ?V = "V(pid \<mapsto> upage, 0 \<mapsto> mpage)" and ?p = "\<lparr>up_page_id = pid, up_slot_id = 0\<rparr> :: undo_ptr"
  have p0: "pid \<noteq> 0" using a(2) by (auto simp: word_le_nat_alt)
  have A0: "q \<noteq> 0 \<and> q \<noteq> pid" if "q \<in> A" for q using that m a(4) by (auto simp: meta_ok_def word_le_nat_alt)
  have keep: "keeps_undo A V ?V" by (rule keeps_same) (use A0 in \<open>simp add: fun_upd_apply\<close>)
  obtain hs' where h: "undo_history V A (lm_undo_ptr ?m) hs'" "hs = (lm_commit_lsn ?m, live_value (lm_flags ?m) (lv_value row)) # hs'" "\<not> is_intent row"
    using rh by (auto simp: row_history_def)
  have "up_page_id p \<noteq> 0" if "lm_undo_ptr ?m = Some p" for p using h(1) that A0 by (cases rule: undo_history.cases) auto
  then have pr: "case_prod ptr_of_parts (ptr_parts (lm_undo_ptr ?m)) = lm_undo_ptr ?m" by (cases "lm_undo_ptr ?m") (auto simp: ptr_of_parts_def)
  have "undo_count_of upage = 1" using arg_cong [OF a(6), of length] by simp
  then have c1: "undo_history ?V (insert pid A) (Some ?p) hs"
    using undo_history.chain_step [of ?p "insert pid A" ?V upage "undo_records upage ! 0" hs'] a(5,6) p0 pr h undo_history_keeps [OF h(1) keep, of "insert pid A"]
    by (auto simp: undo_norm_def seg_page_def is_intent_def fun_upd_other)
  have c2: "wrote_one x' ?V (insert pid A)" using a(5,10) p0 by (auto simp: wrote_one_def x new_txn_def fun_upd_other)
  have c3: "truns (case existing of
        None \<Rightarrow> ret (intent_row x value FLAG_INTENT None (tx_intent_base_lsn x))
      | Some old \<Rightarrow> if own_intent x old then ret (intent_row x value FLAG_INTENT (lm_undo_ptr (lv_meta old)) (lm_intent_lsn (lv_meta old)))
          else if is_intent old then lift (foreign_intent (lm_intent_txn_id (lv_meta old)))
          else andThen (undo_for G old) (\<lambda>ptr. ret (intent_row x value FLAG_INTENT (Some ptr) (tx_intent_base_lsn x))))
      x k V (intent_row x value FLAG_INTENT (Some ?p) lsn) x' k ?V"
    unfolding Some option.case own_intent_def base using h(3) by (simp, intro truns_then [OF a(1)] truns_ret)
  have c4: "meta_ok (insert pid A) ?V meta'"
    by (rule meta_ok_cong [OF a(8)]) (use m a(9) A0 in \<open>auto simp: meta_ok_def fun_upd_apply\<close>)
  have d: "dom (map_of (tx_dirty x')) = {0, pid}" using a(10) by auto
  have c5: "tx_bptree_dirty x' = []" "tx_modified x' = []" "tx_undo_txn_id x' = Some t" "tx_undo_segment_first_page_id x' = Some pid"
    using a(10) x t by (simp_all add: new_txn_def)
  have "{0, pid} \<subseteq> R" using fixed_ids undo_ids a(2) by auto
  then have c6: "\<forall>q. ?V q \<noteq> V q \<longrightarrow> q \<in> R" by (simp add: fun_upd_apply)
  have c7: "\<forall>q. q \<notin> dom (map_of (tx_dirty x')) \<longrightarrow> ?V q = V q" unfolding d by (simp add: fun_upd_apply)
  have c8: "\<forall>q. tx_undo_segment_first_page_id x' = Some q \<longrightarrow> q \<notin> A" using c5(4) a(4) by simp
  have c9: "?V 0 = Some mpage" "A \<subseteq> insert pid A" "dom V \<subseteq> dom ?V" "\<forall>p. Some ?p = Some p \<longrightarrow> up_page_id p \<noteq> 0" using p0 by (auto simp: fun_upd_apply)
  show ?thesis by (rule exI conjI c1 c2 c3 c4 c5(1-3) c6 c7 c8 c9 keep a(7,9))+
qed

lemma calm_mono: "calm k V \<Longrightarrow> dom V \<subseteq> dom V' \<Longrightarrow> calm k V'"
  unfolding calm_def by blast

lemma om_insert_length_le: "length (om_insert k v m) \<le> length m + 1"
  by (induction k v m rule: om_insert.induct) auto

lemma vis_of_cong: "(\<forall>q. V' q \<noteq> V q \<longrightarrow> q \<in> R) \<Longrightarrow> vis_of R k V' = vis_of R k V"
  by (auto simp: vis_of_def fun_eq_iff restrict_map_def)

lemma used_reserved: "meta_ok A V meta \<Longrightarrow> A \<subseteq> R"
  using undo_ids by (auto simp: meta_ok_def)

lemma truns_plan: "plan_mutations key old new (ee_order G (en_indexes k)) = Ok ms \<Longrightarrow> truns (plan_row G key old new) x k V ms x k V"
  unfolding plan_row_def by (auto simp: truns_def andThen_def gets_def lift_def shows_as_def)

lemma truns_note_write:
  assumes "tx_undo_txn_id x = Some t"
  shows "truns (note_write key ms) x k V () (x\<lparr>tx_modified := om_insert key () (tx_modified x), tx_secondary_mutations := tx_secondary_mutations x @ ms\<rparr>)
    (record_txn_write t key k) V"
  unfolding truns_def
proof (intro allI impI)
  fix e assume "shows_as e k V"
  then have "shows_as (record_txn_write t key e) (record_txn_write t key k) V"
    by (auto simp: shows_as_def record_txn_write_def with_cache_def set_provider_def en_provider_def en_cache_def split: option.splits)
  then show "\<exists>e'. note_write key ms (x, e) = Some (Ok (), x\<lparr>tx_modified := om_insert key () (tx_modified x), tx_secondary_mutations := tx_secondary_mutations x @ ms\<rparr>, e')
      \<and> shows_as e' (record_txn_write t key k) V" using assms by (simp add: note_write_def modify_def)
qed

lemma record_write_simps [simp]:
  "calm (record_txn_write t key k) V = calm k V" "vis_of R (record_txn_write t key k) V = vis_of R k V" "en_world (record_txn_write t key k) = en_world k"
  "en_posting_log (record_txn_write t key k) = en_posting_log k" "en_now (record_txn_write t key k) = en_now k"
  by (auto simp: record_txn_write_def calm_def vis_of_def en_provider_def en_world_def split: option.splits)

lemma truns_put:
  assumes inv: "engine_inv R k0 V b H" and k: "k = begun False k0" and x: "x = new_txn False k0" and t: "t = ip_request_id (en_world k0)"
    and key: "length key = KEY_SIZE" and val: "length value = VALUE_SIZE" and room: "roomy key b" and ur: "undo_room U V"
    and plan: "plan_mutations key (map_option (\<lambda>enc. lv_value (leaf_of enc)) (om_lookup (ents b) key)) (Some value) (ee_order G (en_indexes k)) = Ok []"
  shows "\<exists>row x' k' V' b' A A'. truns (txn_put G key value) x k V () x' k' V' \<and> one_intent R key t (case H key of Some hs \<Rightarrow> hs | None \<Rightarrow> []) row x' k' V' b' A'
    \<and> lv_value row = value \<and> lm_flags (lv_meta row) = FLAG_INTENT \<and> lm_intent_lsn (lv_meta row) = ip_durable_lsn (en_world k0)
    \<and> (\<forall>j. om_lookup (ents b') j = (if j = key then Some (encode_leaf_value row) else om_lookup (ents b) j))
    \<and> en_world k' = en_world k \<and> A \<subseteq> A' \<and> keeps_undo A V V' \<and> holds_rows V A b H (ip_durable_lsn (en_world k0))
    \<and> (\<forall>q. q \<notin> dom (map_of (tx_dirty x')) \<longrightarrow> q \<noteq> fst (leaf_for key b') \<longrightarrow> V' q = V q) \<and> dom V \<subseteq> dom V'"
proof -
  let ?hs = "case H key of Some hs \<Rightarrow> hs | None \<Rightarrow> []" let ?ex = "map_option leaf_of (om_lookup (ents b) key)" let ?l = "fst (leaf_for key b)"
  obtain A meta page where a: "V 0 = Some page" "meta_decode page = Ok meta" "meta_ok A V meta" "holds_rows V A b H (ip_durable_lsn (en_world k0))"
    and c: "calm k0 V" "tree_inv R (vis_of R k0 V) b" using inv by (auto simp: engine_inv_def)
  have k1: "calm k V" "tree_inv R (vis_of R k V) b" using c by (simp_all add: k)
  have old: "case ?ex of None \<Rightarrow> ?hs = [] | Some row \<Rightarrow> length (lv_value row) = VALUE_SIZE \<and> row_history V A row ?hs"
    using a(4) [unfolded holds_rows_def, rule_format, of key] by (auto split: option.splits)
  have nu: "mp_undo_free meta = [] \<longrightarrow> unat (mp_next_undo_page_id meta) + 1 < 2 ^ 64"
    "(if mp_undo_free meta = [] then mp_next_undo_page_id meta else last (mp_undo_free meta)) \<in> U" using ur a(1,2) by (auto simp: undo_room_def split: if_splits)
  obtain ptr x1 V1 A1 meta1 page1 where r: "truns (case ?ex of
        None \<Rightarrow> ret (intent_row x value FLAG_INTENT None (tx_intent_base_lsn x))
      | Some old \<Rightarrow> if own_intent x old then ret (intent_row x value FLAG_INTENT (lm_undo_ptr (lv_meta old)) (lm_intent_lsn (lv_meta old)))
          else if is_intent old then lift (foreign_intent (lm_intent_txn_id (lv_meta old)))
          else andThen (undo_for G old) (\<lambda>ptr. ret (intent_row x value FLAG_INTENT (Some ptr) (tx_intent_base_lsn x))))
      x k V (intent_row x value FLAG_INTENT ptr (ip_durable_lsn (en_world k0))) x1 k V1"
    "undo_history V1 A1 ptr ?hs" "\<forall>p. ptr = Some p \<longrightarrow> up_page_id p \<noteq> 0" "wrote_one x1 V1 A1"
    "V1 0 = Some page1" "meta_decode page1 = Ok meta1" "meta_ok A1 V1 meta1" "mp_undo_history_tail meta1 = mp_undo_history_tail meta"
    "A \<subseteq> A1" "keeps_undo A V V1" "\<forall>q. q \<notin> dom (map_of (tx_dirty x1)) \<longrightarrow> V1 q = V q" "\<forall>q. V1 q \<noteq> V q \<longrightarrow> q \<in> R"
    "\<forall>pid. tx_undo_segment_first_page_id x1 = Some pid \<longrightarrow> pid \<notin> A"
    "tx_bptree_dirty x1 = []" "tx_modified x1 = []" "tx_undo_txn_id x1 = Some t" "dom V \<subseteq> dom V1"
    using truns_put_row [OF x t refl a(1-3) nu old, of "value" k] by blast
  define row where "row = intent_row x value FLAG_INTENT ptr (ip_durable_lsn (en_world k0))"
  have rw: "lv_value row = value" "lm_flags (lv_meta row) = FLAG_INTENT" "lm_intent_lsn (lv_meta row) = ip_durable_lsn (en_world k0)" "lm_undo_ptr (lv_meta row) = ptr"
    "owns_intent t row" "leaf_value_ok row"
    using r(3) val x t by (simp_all add: row_def intent_row_def owns_intent_def has_flag_def leaf_value_ok_def new_txn_def)
  have k2: "calm k V1" "tree_inv R (vis_of R k V1) b" using k1 calm_mono [OF k1(1) r(17)] vis_of_cong [OF r(12), of k] by simp_all
  have op: "open_path key b" using room by (simp add: roomy_def)
  obtain lpage b' n where i: "truns (tree_insert G key row) x1 k V1 () (x1\<lparr>tx_bptree_dirty := om_insert ?l lpage (tx_bptree_dirty x1)\<rparr>) (add_len_of n k) (V1(?l \<mapsto> lpage))"
    "tree_inv R (vis_of R (add_len_of n k) (V1(?l \<mapsto> lpage))) b'" "ents b' = om_insert key (encode_leaf_value row) (ents b)"
    "leaf_for key b' = (?l, om_insert key (encode_leaf_value row) (snd (leaf_for key b)))"
    "length (om_insert key (encode_leaf_value row) (snd (leaf_for key b))) < 15 \<longrightarrow> open_path key b'" "length lpage = PAGE_SIZE" "?l \<notin> R"
    "calm (add_len_of n k) (V1(?l \<mapsto> lpage))"
    using truns_tree_insert [OF k2 op key, of row x1] rw(1) val by metis
  let ?V = "V1(?l \<mapsto> lpage)" and ?k = "record_txn_write t key (add_len_of n k)"
  define x2 where "x2 = x1\<lparr>tx_bptree_dirty := [(?l, lpage)]\<rparr>"
  define x3 where "x3 = x2\<lparr>tx_modified := [(key, ())], tx_secondary_mutations := []\<rparr>"
  have l0: "?l \<noteq> 0" "?l \<notin> A1" using i(7) fixed_ids used_reserved [OF r(7)] by auto
  have ro: "tx_read_only x = False" using x by (simp add: new_txn_def)
  have it: "in_time x k" using x by simp
  have w1: "tx_secondary_mutations x1 = []" using r(4) by (simp add: wrote_one_def)
  have nw: "truns (note_write key []) x2 (add_len_of n k) ?V () x3 ?k ?V"
    using truns_note_write [of x2 t key "[]" "add_len_of n k" ?V] r(15,16) w1 by (simp add: x2_def x3_def)
  have ins: "truns (tree_insert G key row) x1 k V1 () x2 (add_len_of n k) ?V" using i(1) r(14) by (simp add: x2_def)
  have pl: "truns (plan_row G key (map_option lv_value ?ex) (Some value)) x k V [] x k V" using truns_plan plan by (simp add: option.map_comp comp_def)
  have c1: "truns (txn_put G key value) x k V () x3 ?k ?V"
    unfolding txn_put_def
    apply (rule truns_then [OF truns_in_time [OF it]], rule truns_then [OF truns_get], unfold ro, simp only: if_False)
    apply (rule truns_then [OF truns_tree_get [OF k1]], subst if_not_P, use key val in simp)
    apply (rule truns_then [OF pl], rule truns_then [OF truns_get], unfold id_apply)
    apply (rule truns_then [OF r(1) [folded row_def]], rule truns_then [OF ins nw])
    done
  have "length (om_insert key (encode_leaf_value row) (snd (leaf_for key b))) \<le> length (snd (leaf_for key b)) + 1" by (rule om_insert_length_le)
  then have op': "open_path key b'" using i(5) room by (simp add: roomy_def)
  have keep: "keeps_undo A1 V1 ?V" by (rule keeps_same) (use l0 in \<open>auto simp: fun_upd_apply\<close>)
  have lk: "om_lookup (ents b') key = Some (encode_leaf_value row)" using i(3) by (simp add: om_lookup_insert)
  have uh: "undo_history ?V A1 (lm_undo_ptr (lv_meta row)) ?hs" using undo_history_keeps [OF r(2) keep] rw(4) by simp
  have wr: "wrote_one x3 ?V A1" using r(4) l0 by (auto simp: wrote_one_def x3_def x2_def fun_upd_apply split: option.splits)
  have tail: "meta_ok A1 ?V meta1" by (rule meta_ok_cong [OF r(7)]) (use r(7) l0 in \<open>auto simp: meta_ok_def fun_upd_apply\<close>)
  have tl': "pid \<noteq> mp_undo_history_tail meta1" if "tx_undo_segment_first_page_id x3 = Some pid" for pid
    using that r(8,13) a(3) r(4) l0(2) r(7) by (auto simp: x3_def x2_def meta_ok_def wrote_one_def word_le_nat_alt)
  have "one_intent R key t ?hs row x3 ?k ?V b' A1"
    unfolding one_intent_def using i(2,4,6,8) op' lk rw(5,6) uh wr r(5,6,16) tail tl' l0(1)
    by (auto simp: x3_def x2_def fun_upd_other)
  moreover have "\<forall>q. q \<notin> dom (map_of (tx_dirty x3)) \<longrightarrow> q \<noteq> fst (leaf_for key b') \<longrightarrow> ?V q = V q" using r(11) i(4) by (auto simp: x3_def x2_def fun_upd_apply)
  moreover have "keeps_undo A V ?V" using r(9,10) l0(2) by (fastforce simp: keeps_undo_def fun_upd_apply)
  moreover have "en_world ?k = en_world k" by (simp add: en_world_def [of k] en_world_def [of "add_len_of n k"])
  moreover have "\<forall>j. om_lookup (ents b') j = (if j = key then Some (encode_leaf_value row) else om_lookup (ents b) j)"
    using i(3) by (simp add: om_lookup_insert fun_upd_apply)
  moreover have "dom V \<subseteq> dom ?V" using r(17) by (auto simp: fun_upd_apply)
  ultimately show ?thesis using c1 rw(1-3) r(9) a(4) by blast
qed

end

end
