(* ===== verification/Engine_Commit.thy ===== *)
theory Engine_Commit
  imports Engine_Put
begin

text \<open>
  The commit of a transaction that has written one row: the row gets its commit LSN, the undo segment becomes the tail of the history,
  and exactly the pages that were counted when the LSNs were reserved are written, so that the store holds what the cache shows.
\<close>

unbundle bit_operations_syntax

definition with_world :: "inprocess \<Rightarrow> ('c, inprocess) engine \<Rightarrow> ('c, inprocess) engine" where
  "with_world w k = set_provider ((en_provider k)\<lparr>tp_world := w\<rparr>) k"

text \<open>The pages a commit of one row writes: the metadata, the leaf, and with an undo segment its head and the tail before it.\<close>

definition segment_pages :: "u64 option \<Rightarrow> u64 \<Rightarrow> u64 set" where
  "segment_pages first tail = (case first of None \<Rightarrow> {} | Some pid \<Rightarrow> {0, pid} \<union> (if tail = 0 then {} else {tail}))"

text \<open>The row of a key is overwritten in its leaf.\<close>

definition overwritten :: "u64 set \<Rightarrow> bytes \<Rightarrow> leaf_value \<Rightarrow> embedded_txn \<Rightarrow> ('c, inprocess) engine \<Rightarrow> (u64 \<rightharpoonup> bytes) \<Rightarrow> bt
    \<Rightarrow> embedded_txn \<Rightarrow> ('c, inprocess) engine \<Rightarrow> (u64 \<rightharpoonup> bytes) \<Rightarrow> bt \<Rightarrow> bool" where
  "overwritten R key row x k V b x' k' V' b' \<longleftrightarrow> (\<exists>page n. x' = x\<lparr>tx_bptree_dirty := [(fst (leaf_for key b), page)]\<rparr> \<and> k' = add_len_of n k
    \<and> V' = V(fst (leaf_for key b) \<mapsto> page) \<and> length page = PAGE_SIZE)
    \<and> tree_inv R (vis_of R k' V') b' \<and> om_lookup (ents b') = (om_lookup (ents b))(key \<mapsto> encode_leaf_value row)
    \<and> fst (leaf_for key b') = fst (leaf_for key b) \<and> open_path key b' \<and> fst (leaf_for key b) \<notin> R \<and> calm k' V'"

text \<open>The commit before its LSNs are reserved: \<open>m\<close> has the pages it will write, and the undo pages among them are those of the cache.\<close>

definition prepared :: "u64 set \<Rightarrow> bytes \<Rightarrow> u64 \<Rightarrow> leaf_value \<Rightarrow> meta_page \<Rightarrow> (u64, bytes) omap \<Rightarrow> embedded_txn \<Rightarrow> ('c, inprocess) engine \<Rightarrow> (u64 \<rightharpoonup> bytes) \<Rightarrow> bt \<Rightarrow> u64 set \<Rightarrow> bool" where
  "prepared R key t row meta m x k V b A \<longleftrightarrow> calm k V \<and> tree_inv R (vis_of R k V) b \<and> open_path key b
    \<and> om_lookup (ents b) key = Some (encode_leaf_value row) \<and> leaf_value_ok row \<and> owns_intent t row
    \<and> tx_modified x = [(key, ())] \<and> tx_secondary_mutations x = [] \<and> (\<exists>page. tx_bptree_dirty x = [(fst (leaf_for key b), page)]) \<and> fst (leaf_for key b) \<notin> R
    \<and> om_wf m \<and> dom (om_lookup m) = {0, fst (leaf_for key b)} \<union> segment_pages (tx_undo_segment_first_page_id x) (mp_undo_history_tail meta)
    \<and> (\<forall>q \<in> segment_pages (tx_undo_segment_first_page_id x) (mp_undo_history_tail meta) - {0}. \<exists>p. om_lookup m q = Some p \<and> V q = Some p \<and> seg_page p \<and> q \<in> A)
    \<and> dom (om_lookup m) \<subseteq> dom V \<and> meta_ok A V meta \<and> (\<forall>pid. tx_undo_segment_first_page_id x = Some pid \<longrightarrow> pid \<noteq> mp_undo_history_tail meta \<and> pid \<noteq> 0)"

section \<open>Lists of pages\<close>

lemma om_length: "om_wf m \<Longrightarrow> length m = card (dom (om_lookup m))"
proof -
  assume "om_wf m"
  then have "distinct (map fst m)" by (simp add: om_wf_def strict_sorted_iff)
  moreover have "dom (om_lookup m) = set (map fst m)" using dom_map_of_conv_image_fst [of m] by (simp add: om_lookup_def dom_def)
  ultimately show ?thesis by (metis distinct_card length_map)
qed

lemma om_lookup_map_of: "om_lookup m = map_of m"
  by (simp add: om_lookup_def fun_eq_iff)

lemma fold_om_insert: "om_lookup (fold (\<lambda>(q, p) m. om_insert q p m) ps m) = om_lookup m ++ map_of (rev ps)"
  by (induction ps arbitrary: m) (auto simp: om_lookup_insert)

lemma fold_om_wf: "om_wf m \<Longrightarrow> om_wf (fold (\<lambda>(q, p) m. om_insert q p m) ps m)"
  by (induction ps arbitrary: m) (auto simp: om_wf_insert)

lemma om_rev: "om_wf m \<Longrightarrow> map_of (rev m) = om_lookup m"
  using map_of_inject_set [of "rev m" m] by (simp add: om_wf_def strict_sorted_iff om_lookup_map_of flip: rev_map)

lemma dedup_wf: "om_wf m \<Longrightarrow> dedup_pages m = m"
  unfolding dedup_pages_def by (rule om_ext) (auto simp: fold_om_wf fold_om_insert om_rev fun_eq_iff map_add_def split: option.splits)

lemma put_pages_add: "put_pages ws m = m ++ map_of (rev ws)"
  unfolding put_pages_def by (induction ws arbitrary: m) auto

lemma check_sizes: "\<forall>(q, p) \<in> set ws. length p = PAGE_SIZE \<Longrightarrow> check_page_sizes ws = Ok ()"
  by (induction ws) auto

lemma seg_page_read: "seg_page p \<Longrightarrow> \<exists>h. read_segment_header p = Ok h"
  by (auto simp: seg_page_def undo_wf_def read_segment_header_def res_bind_Ok_iff buf_simps)

lemma seg_page_length: "seg_page p \<Longrightarrow> length p = PAGE_SIZE"
  by (simp add: seg_page_def undo_wf_def)

section \<open>Overwriting a row\<close>

lemma open_path_leaf: "open_path key t \<Longrightarrow> length (snd (leaf_for key t)) < 15" "open_path_k key ks \<Longrightarrow> length (snd (leaf_for_k key ks)) < 15"
  by (induction t and ks) (auto split: if_splits)

lemma leaf_overwrite:
  assumes b: "tree_inv R v b" and op: "open_path key b" and k: "om_lookup (ents b) key \<noteq> None"
  shows "length (om_insert key e (snd (leaf_for key b))) < 15"
proof -
  let ?es = "snd (leaf_for key b)"
  obtain n where "rep b (v_pages v) None None None n" using b by (auto simp: tree_inv_def)
  then have es: "keys_sorted ?es" "map_of ?es key = map_of (ents b) key" using leaf_for_rep(1) [of b "v_pages v" None None None n key] by auto
  have "map_of ?es key \<noteq> None" using k es(2) by (simp add: om_lookup_def)
  then have "key \<in> fst ` set ?es" unfolding map_of_eq_None_iff by simp
  then show ?thesis using om_insert_length [OF es(1), of key e] open_path_leaf(1) [OF op] by simp
qed

lemma with_world_simps [simp]:
  "en_world (with_world w k) = w" "vis_of R (with_world w k) V = vis_of R k V" "en_posting_log (with_world w k) = en_posting_log k"
  "en_indexes (with_world w k) = en_indexes k" "tp_root (en_provider (with_world w k)) = tp_root (en_provider k)"
  "tp_next_page_id (en_provider (with_world w k)) = tp_next_page_id (en_provider k)" "with_world w (with_world w' k) = with_world w k"
  "with_tree_ids (with_world w k) m = with_tree_ids k m"
  by (simp_all add: with_world_def en_world_def vis_of_def set_provider_def en_provider_def with_tree_ids_def)

lemma calm_world: "calm (with_world w k) V \<longleftrightarrow> tp_dirty (en_provider k) = None \<and> tp_pages (en_provider k) = no_cache \<and> dom (ip_pages w) \<subseteq> dom V"
  by (simp add: calm_def with_world_def)

context engine_pages
begin

lemma shows_dom: "shows_as e k V \<Longrightarrow> V q \<noteq> None \<Longrightarrow> q \<in> U"
proof -
  assume e: "shows_as e k V" and q: "V q \<noteq> None"
  let ?i = "cache_shard (en_cache e) q"
  have "?i < length (pc_shards (en_cache e))" using e by (simp add: shows_as_def cache_room_def cache_shard_def)
  then have "dom (pages (pc_shards (en_cache e) ! ?i)) \<subseteq> U" using e by (auto simp: shows_as_def cache_room_def)
  then show "q \<in> U" using e q by (auto simp: shows_as_def view_of_def)
qed

lemma truns_overwrite:
  assumes k: "calm k V" and b: "tree_inv R (vis_of R k V) b" and op: "open_path key b" and key: "length key = KEY_SIZE" and ok: "leaf_value_ok row'"
    and old: "om_lookup (ents b) key \<noteq> None" and x: "tx_bptree_dirty x = [(fst (leaf_for key b), p)]"
  shows "\<exists>x' k' V' b'. truns (tree_insert G key row') x k V () x' k' V' \<and> overwritten R key row' x k V b x' k' V' b'"
proof -
  let ?l = "fst (leaf_for key b)"
  obtain page b' n where i: "truns (tree_insert G key row') x k V () (x\<lparr>tx_bptree_dirty := om_insert ?l page (tx_bptree_dirty x)\<rparr>) (add_len_of n k) (V(?l \<mapsto> page))"
    "tree_inv R (vis_of R (add_len_of n k) (V(?l \<mapsto> page))) b'" "ents b' = om_insert key (encode_leaf_value row') (ents b)"
    "leaf_for key b' = (?l, om_insert key (encode_leaf_value row') (snd (leaf_for key b)))"
    "length (om_insert key (encode_leaf_value row') (snd (leaf_for key b))) < 15 \<longrightarrow> open_path key b'" "length page = PAGE_SIZE" "?l \<notin> R"
    "calm (add_len_of n k) (V(?l \<mapsto> page))"
    using truns_tree_insert [OF k b op key, of row' x] ok by (auto simp: leaf_value_ok_def)
  have "truns (tree_insert G key row') x k V () (x\<lparr>tx_bptree_dirty := [(?l, page)]\<rparr>) (add_len_of n k) (V(?l \<mapsto> page))" using i(1) x by simp
  moreover have "overwritten R key row' x k V b (x\<lparr>tx_bptree_dirty := [(?l, page)]\<rparr>) (add_len_of n k) (V(?l \<mapsto> page)) b'"
    unfolding overwritten_def using i(2-8) leaf_overwrite [OF b op old, of "encode_leaf_value row'"] by (auto simp: om_lookup_insert)
  ultimately show ?thesis by blast
qed

text \<open>Both passes over the modified keys rewrite the transaction's own intent.\<close>

lemma truns_prestamp:
  assumes a: "calm k V" "tree_inv R (vis_of R k V) b" "open_path key b" "length key = KEY_SIZE" and r: "leaf_value_ok row" "owns_intent t row"
    "om_lookup (ents b) key = Some (encode_leaf_value row)" and x: "tx_bptree_dirty x = [(fst (leaf_for key b), p)]"
  shows "\<exists>x' k' V' b'. truns (for_each (prestamp_key G t) [key]) x k V () x' k' V'
    \<and> overwritten R key (row\<lparr>lv_meta := (lv_meta row)\<lparr>lm_commit_lsn := 1\<rparr>\<rparr>) x k V b x' k' V' b'"
proof -
  let ?r = "row\<lparr>lv_meta := (lv_meta row)\<lparr>lm_commit_lsn := 1\<rparr>\<rparr>"
  have ok: "leaf_value_ok ?r" using r(1) by (simp add: leaf_value_ok_def)
  obtain x' k' V' b' where i: "truns (tree_insert G key ?r) x k V () x' k' V'" "overwritten R key ?r x k V b x' k' V' b'"
    using truns_overwrite [OF a ok _ x] r(3) by auto
  have g: "truns (tree_get G key) x k V (Some row) x k V" using truns_tree_get [OF a(1,2), of key x] r(1,3) by (simp add: leaf_of_encode)
  have "truns (prestamp_key G t key) x k V () x' k' V'"
    unfolding prestamp_key_def by (rule truns_then [OF g], unfold option.case, subst if_not_P, use r(2) in simp) (rule i(1))
  then have "truns (for_each (prestamp_key G t) [key]) x k V () x' k' V'" unfolding for_each.simps by (rule truns_then) (rule truns_ret)
  then show ?thesis using i(2) by blast
qed

lemma truns_stamp:
  assumes a: "calm k V" "tree_inv R (vis_of R k V) b" "open_path key b" "length key = KEY_SIZE" and r: "leaf_value_ok row" "owns_intent t row"
    "om_lookup (ents b) key = Some (encode_leaf_value row)" and x: "tx_bptree_dirty x = [(fst (leaf_for key b), p)]" "tx_modified x = [(key, ())]"
  shows "\<exists>x' k' V' b' page. truns (stamp_rows G t c m) x k V (om_insert (fst (leaf_for key b)) page m) x' k' V' \<and> V' (fst (leaf_for key b)) = Some page
    \<and> overwritten R key (stamped_row c row) x k V b x' k' V' b'"
proof -
  let ?r = "stamped_row c row" let ?l = "fst (leaf_for key b)"
  have ok: "leaf_value_ok ?r" using r(1) by (simp add: leaf_value_ok_def stamped_row_def)
  obtain x' k' V' b' where i: "truns (tree_insert G key ?r) x k V () x' k' V'" "overwritten R key ?r x k V b x' k' V' b'"
    using truns_overwrite [OF a ok _ x(1)] r(3) by auto
  obtain page where page: "tx_bptree_dirty x' = [(?l, page)]" "V' ?l = Some page" using i(2) by (auto simp: overwritten_def)
  have g: "truns (tree_get G key) x k V (Some row) x k V" using truns_tree_get [OF a(1,2), of key x] r(1,3) by (simp add: leaf_of_encode)
  have "truns (stamp_key G t c key) x k V () x' k' V'"
    unfolding stamp_key_def by (rule truns_then [OF g], unfold option.case, subst if_not_P, use r(2) in simp) (rule i(1))
  then have s: "truns (for_each (stamp_key G t c) [key]) x k V () x' k' V'" unfolding for_each.simps by (rule truns_then) (rule truns_ret)
  have "truns (stamp_rows G t c m) x k V (om_insert ?l page m) x' k' V'"
    unfolding stamp_rows_def
    by (rule truns_then [OF truns_get], unfold x(2), subst if_not_P, simp, unfold list.map fst_conv, rule truns_then [OF s], rule truns_of_txn) (simp add: page(1))
  then show ?thesis using i(2) page(2) by blast
qed

text \<open>The metadata the commit starts from, and the copy of the old tail it changes.\<close>

lemma truns_base_meta:
  assumes "wrote_one x V A" and "V 0 = Some page" and "meta_decode page = Ok meta"
  shows "truns (commit_base_meta G) x k V meta x k V"
proof (cases "om_lookup (tx_dirty x) 0")
  case None
  show ?thesis unfolding commit_base_meta_def
    by (rule truns_then [OF truns_get], unfold None option.case, rule truns_then [OF truns_cached]) (use assms in \<open>simp add: truns_ret\<close>)
next
  case (Some p)
  then have "p = page" using assms by (auto simp: wrote_one_def om_lookup_def split: option.splits)
  then show ?thesis unfolding commit_base_meta_def
    by (intro truns_then [OF truns_get]) (use Some assms in \<open>simp add: truns_ret\<close>)
qed

lemma truns_restage:
  assumes "\<not> tx_read_only x" and "V q = Some p"
  shows "truns (txn_stage_page G q p) x k V () (x\<lparr>tx_dirty := om_insert q p (tx_dirty x)\<rparr>) k V"
proof -
  have "truns (txn_stage_page G q p) x k V () (x\<lparr>tx_dirty := om_insert q p (tx_dirty x)\<rparr>) k (V(q \<mapsto> p))" if "q \<in> U"
    using truns_stage [OF assms(1) that] .
  moreover have "V(q \<mapsto> p) = V" using assms(2) by (auto simp: fun_eq_iff fun_upd_apply)
  ultimately show ?thesis using shows_dom [of _ k V q] assms(2) unfolding truns_def by (metis option.distinct(1))
qed

lemma truns_page_copy: "V q = Some p \<Longrightarrow> truns (page_copy G q) x k V p x k V"
  unfolding page_copy_def by (rule truns_then [OF truns_cached], rule truns_then [OF truns_get]) (simp add: ok_or_def truns_ret)

lemma truns_old_tail:
  assumes w: "wrote_one x V A" and m: "meta_ok A V meta"
  shows "\<exists>D. truns (stage_old_tail G meta) x k V () (x\<lparr>tx_dirty := D\<rparr>) k V \<and> om_wf D \<and> (\<forall>q p. om_lookup D q = Some p \<longrightarrow> V q = Some p)
    \<and> dom (om_lookup D) = segment_pages (tx_undo_segment_first_page_id x) (mp_undo_history_tail meta)"
proof -
  let ?t = "mp_undo_history_tail meta" let ?f = "tx_undo_segment_first_page_id x" let ?c = "?f \<noteq> None \<and> ?t \<noteq> 0 \<and> om_lookup (tx_dirty x) ?t = None"
  have d: "om_wf (tx_dirty x)" "\<forall>q p. om_lookup (tx_dirty x) q = Some p \<longrightarrow> V q = Some p" "dom (om_lookup (tx_dirty x)) = segment_pages ?f 0"
    using w m by (auto simp: wrote_one_def meta_ok_def om_wf_def om_lookup_map_of segment_pages_def word_le_nat_alt word_less_nat_alt fun_upd_apply
        split: option.splits if_splits)
  show ?thesis
  proof (cases ?c)
    case True
    obtain p where p: "V ?t = Some p" using m True by (auto simp: meta_ok_def)
    have "truns (stage_old_tail G meta) x k V () (x\<lparr>tx_dirty := om_insert ?t p (tx_dirty x)\<rparr>) k V"
      unfolding stage_old_tail_def
      apply (rule truns_then [OF truns_get], unfold id_apply Let_def, subst if_P, use True in blast)
      apply (rule truns_then, rule truns_page_copy, rule p, rule truns_restage [of x V ?t p, OF _ p], use w in \<open>simp add: wrote_one_def\<close>)
      done
    moreover have "dom (om_lookup (om_insert ?t p (tx_dirty x))) = segment_pages ?f ?t" using d(3) True by (auto simp: om_lookup_insert segment_pages_def)
    ultimately show ?thesis using d(1,2) p om_wf_insert [OF d(1)]
      by (intro exI [of _ "om_insert ?t p (tx_dirty x)"]) (auto simp: om_lookup_insert fun_upd_apply)
  next
    case False
    have "truns (stage_old_tail G meta) x k V () x k V"
      unfolding stage_old_tail_def
      by (rule truns_then [OF truns_get], unfold id_apply Let_def, subst if_not_P, use False in blast) (rule truns_ret)
    moreover have "segment_pages ?f ?t = segment_pages ?f 0" using False d(3) by (auto simp: segment_pages_def split: option.splits)
    ultimately show ?thesis using d by (intro exI [of _ "tx_dirty x"]) auto
  qed
qed

text \<open>Every page of the undo segment is already staged, so only the metadata is added.\<close>

lemma truns_gets: "(\<And>e. with_cache no_cache e = k \<Longrightarrow> f e = f k) \<Longrightarrow> truns (on_engine (gets f)) x k V (f k) x k V"
  by (intro truns_engine runs_gets) auto

lemma tree_ids_meta [simp]: "meta_ok A V (with_tree_ids k m) = meta_ok A V m" "mp_undo_history_tail (with_tree_ids k m) = mp_undo_history_tail m"
  by (simp_all add: meta_ok_def with_tree_ids_def)

lemma tree_ids_no_cache: "with_cache no_cache e = k \<Longrightarrow> with_tree_ids e m = with_tree_ids k m"
  by (auto simp: with_tree_ids_def)

lemma add_copy_known: "om_lookup m q \<noteq> None \<Longrightarrow> add_copy G q m = ret m"
  by (auto simp: add_copy_def)

lemma truns_page_set:
  assumes m: "meta_ok A V meta" and d: "segment_pages (tx_undo_segment_first_page_id x) (mp_undo_history_tail meta) \<subseteq> dom (om_lookup (tx_dirty x))"
  shows "\<exists>page. truns (commit_page_set G meta) x k V (om_insert 0 page (tx_dirty x)) x k V"
proof -
  let ?m = "with_tree_ids k meta"
  obtain page where page: "meta_encode ?m = Ok page" using meta_ok_encode [of A V ?m] m by auto
  have en: "truns (on_engine (gets (\<lambda>e. meta_encode (with_tree_ids e meta)))) x k V (meta_encode ?m) x k V"
    by (rule truns_gets) (metis tree_ids_no_cache)
  have seg: "truns (case tx_undo_segment_first_page_id x of None \<Rightarrow> ret (tx_dirty x)
      | Some first_pid \<Rightarrow> andThen (add_copy G first_pid (tx_dirty x)) (\<lambda>m.
          if mp_undo_history_tail meta \<noteq> 0 then add_copy G (mp_undo_history_tail meta) m else ret m)) x k V (tx_dirty x) x k V"
  proof (cases "tx_undo_segment_first_page_id x")
    case None
    then show ?thesis by (simp add: truns_ret)
  next
    case (Some pid)
    then have "om_lookup (tx_dirty x) pid \<noteq> None" "mp_undo_history_tail meta \<noteq> 0 \<longrightarrow> om_lookup (tx_dirty x) (mp_undo_history_tail meta) \<noteq> None"
      using d by (auto simp: segment_pages_def split: if_splits)
    then have a: "add_copy G pid (tx_dirty x) = ret (tx_dirty x)"
      "(if mp_undo_history_tail meta \<noteq> 0 then add_copy G (mp_undo_history_tail meta) (tx_dirty x) else ret (tx_dirty x)) = ret (tx_dirty x)"
      by (auto simp: add_copy_known)
    show ?thesis unfolding Some option.case a(1) by (rule truns_then [OF truns_ret], unfold a(2), rule truns_ret)
  qed
  have "truns (commit_page_set G meta) x k V (om_insert 0 page (tx_dirty x)) x k V"
    unfolding commit_page_set_def
    apply (rule truns_then [OF truns_get], unfold id_apply, rule truns_then [OF seg], rule truns_then [OF en])
    apply (rule truns_then [OF truns_lift [OF page] truns_ret])
    done
  then show ?thesis ..
qed

text \<open>The undo segment is linked behind the old tail.\<close>

lemma truns_segment:
  assumes wf: "om_wf m" and seg: "case tx_undo_segment_first_page_id x of None \<Rightarrow> True
      | Some pid \<Rightarrow> pid \<noteq> tail \<and> pid \<noteq> 0 \<and> (\<exists>p. om_lookup m pid = Some p \<and> seg_page p) \<and> (tail \<noteq> 0 \<longrightarrow> (\<exists>p. om_lookup m tail = Some p \<and> seg_page p))"
  shows "\<exists>meta' m'. truns (commit_segment G t a c tail meta m) x k V (meta', m') x k V \<and> om_wf m' \<and> dom (om_lookup m') = dom (om_lookup m)
    \<and> mp_undo_free meta' = mp_undo_free meta \<and> mp_next_undo_page_id meta' = mp_next_undo_page_id meta
    \<and> (case tx_undo_segment_first_page_id x of None \<Rightarrow> meta' = meta \<and> m' = m
       | Some pid \<Rightarrow> mp_undo_history_tail meta' = pid
         \<and> (\<forall>q \<in> segment_pages (Some pid) tail - {0}. \<exists>p p'. om_lookup m q = Some p \<and> om_lookup m' q = Some p' \<and> seg_page p \<and> seg_page p' \<and> undo_records p' = undo_records p)
         \<and> (\<forall>q. q \<notin> segment_pages (Some pid) tail - {0} \<longrightarrow> om_lookup m' q = om_lookup m q))"
proof (cases "tx_undo_segment_first_page_id x")
  case None
  have "truns (commit_segment G t a c tail meta m) x k V (meta, m) x k V"
    unfolding commit_segment_def by (rule truns_then [OF truns_get]) (simp add: None truns_ret)
  then show ?thesis using wf None by (intro exI [of _ meta] exI [of _ m]) simp
next
  case (Some pid)
  obtain p where p: "om_lookup m pid = Some p" "seg_page p" and ne: "pid \<noteq> tail" "pid \<noteq> 0" using seg Some by auto
  let ?h = "\<lparr>seg_txn_id = t, seg_begin_lsn = a, seg_commit_lsn = c,
       seg_state = SEGMENT_STATE_COMMITTED, seg_first_page_id = pid,
       seg_last_page_id = (case tx_undo_segment_last_page_id x of Some l \<Rightarrow> l | None \<Rightarrow> pid),
       seg_record_count = tx_undo_segment_record_count x, seg_history_prev = tail, seg_history_next = 0\<rparr>"
  obtain p' where p': "write_segment_header p ?h = Ok p'" "seg_page p'" "undo_records p' = undo_records p" using seg_page_header [OF p(2)] by blast
  let ?m1 = "om_insert pid p' m" and ?meta1 = "meta\<lparr>mp_undo_history_tail := pid\<rparr>"
  have d1: "dom (om_lookup ?m1) = dom (om_lookup m)" using p(1) by (auto simp: om_lookup_insert)
  show ?thesis
  proof (cases "tail = 0")
    case True
    have "truns (commit_segment G t a c tail meta m) x k V (?meta1\<lparr>mp_undo_history_head := pid\<rparr>, ?m1) x k V"
      unfolding commit_segment_def
      apply (rule truns_then [OF truns_get], unfold id_apply Some p(1) option.case, rule truns_then [OF truns_ret])
      apply (rule truns_then [OF truns_lift [OF p'(1) [unfolded Some]]], unfold Let_def, subst if_P [OF True], rule truns_ret)
      done
    moreover have "segment_pages (Some pid) tail - {0} = {pid}" using True ne by (auto simp: segment_pages_def)
    ultimately show ?thesis using wf d1 p p'(2,3) Some
      by (intro exI [of _ "?meta1\<lparr>mp_undo_history_head := pid\<rparr>"] exI [of _ ?m1]) (simp add: om_wf_insert om_lookup_insert fun_upd_apply)
  next
    case False
    obtain q where q: "om_lookup m tail = Some q" "seg_page q" using seg Some False by auto
    have q1: "om_lookup ?m1 tail = Some q" using q(1) ne(1) by (simp add: om_lookup_insert)
    obtain h where h: "read_segment_header q = Ok h" using seg_page_read [OF q(2)] by blast
    obtain q' where q': "write_segment_header q (h\<lparr>seg_history_next := pid\<rparr>) = Ok q'" "seg_page q'" "undo_records q' = undo_records q"
      using seg_page_header [OF q(2)] by blast
    let ?m2 = "om_insert tail q' ?m1"
    have "truns (commit_segment G t a c tail meta m) x k V (?meta1, ?m2) x k V"
      unfolding commit_segment_def
      apply (rule truns_then [OF truns_get], unfold id_apply Some p(1) option.case, rule truns_then [OF truns_ret])
      apply (rule truns_then [OF truns_lift [OF p'(1) [unfolded Some]]], unfold Let_def, subst if_not_P [OF False], unfold q1 option.case)
      apply (rule truns_then [OF truns_ret], rule truns_then [OF truns_lift [OF h]], rule truns_then [OF truns_lift [OF q'(1)] truns_ret])
      done
    moreover have "dom (om_lookup ?m2) = dom (om_lookup m)" using p(1) q(1) by (auto simp: om_lookup_insert)
    moreover have "segment_pages (Some pid) tail - {0} = {pid, tail}" using False ne by (auto simp: segment_pages_def)
    ultimately show ?thesis using wf p p'(2,3) q q'(2,3) Some ne(1)
      by (intro exI [of _ ?meta1] exI [of _ ?m2]) (simp add: om_wf_insert om_lookup_insert fun_upd_apply)
  qed
qed

section \<open>The sequencer and the cache\<close>

lemma truns_reserve:
  assumes "0 < n" and "t \<noteq> 0" and "unat (ip_next_lsn (en_world k)) + n < 2 ^ 64"
  shows "truns (on_engine (on_world (\<lambda>w. be_reserve (ee_backend G) w n t))) x k V (ip_next_lsn (en_world k), ip_next_lsn (en_world k) + word_of_nat n) x
    (with_world ((en_world k)\<lparr>ip_next_lsn := ip_next_lsn (en_world k) + word_of_nat n\<rparr>) k) V"
proof -
  have u: "unat (word_of_nat n :: u64) = n" using assms(3) by (simp add: unat_of_nat)
  show ?thesis
    unfolding truns_def using assms u
    by (auto simp: on_engine_def on_world_def on_provider_def on_tree_def andThen_def lift_def store inprocess_backend_def inprocess_reserve_def chk_add_def Let_def
        shows_as_def with_world_def with_cache_def set_provider_def en_provider_def en_cache_def en_world_def split: prod.splits)
qed

lemma runs_cache_all:
  "\<forall>q \<in> fst ` set ws. V q \<noteq> None \<or> q \<in> U \<Longrightarrow> runs (for_each (\<lambda>(q, p). cache_page G q p) ws) k V () k (V ++ map_of (rev ws))"
proof (induction ws arbitrary: V)
  case Nil
  then show ?case by (simp add: runs_ret)
next
  case (Cons w ws)
  obtain q p where w: "w = (q, p)" by (cases w)
  have "runs (cache_page G q p) k V () k (V(q \<mapsto> p))"
    using runs_cache [of q p k V] shows_dom [of _ k V q] Cons.prems w unfolding runs_def by auto
  moreover have "runs (for_each (\<lambda>(q, p). cache_page G q p) ws) k (V(q \<mapsto> p)) () k (V(q \<mapsto> p) ++ map_of (rev ws))"
    using Cons.prems by (intro Cons.IH) (auto simp: fun_upd_apply)
  ultimately show ?case using w by (simp add: runs_then)
qed

lemma runs_commit_reserved:
  assumes m: "om_wf m" "\<forall>q p. om_lookup m q = Some p \<longrightarrow> length p = PAGE_SIZE \<and> (V q \<noteq> None \<or> q \<in> U)"
    and w: "w = (en_world k)\<lparr>ip_pages := ip_pages (en_world k) ++ om_lookup m, ip_durable_lsn := max (ip_durable_lsn (en_world k)) c\<rparr>"
  shows "runs (commit_pages_reserved G t a c m) k V c (with_world w k) (V ++ om_lookup m)"
proof -
  have sz: "check_page_sizes m = Ok ()" using m om_lookup_iff [OF m(1)] by (intro check_sizes) auto
  have dm: "\<forall>q \<in> fst ` set m. V q \<noteq> None \<or> q \<in> U" using m(2) om_lookup_iff [OF m(1)] by fastforce
  have seq: "runs (sequencer_commit G t a c m) k V c (with_world w k) V"
    unfolding runs_def
    by (auto simp: sequencer_commit_def on_world_def on_provider_def on_tree_def andThen_def lift_def store inprocess_backend_def inprocess_commit_def w put_pages_add om_rev [OF m(1)]
        shows_as_def with_world_def with_cache_def set_provider_def en_provider_def en_cache_def en_world_def)
  have ca: "runs (for_each (\<lambda>(q, p). cache_page G q p) m) (with_world w k) V () (with_world w k) (V ++ om_lookup m)"
    using runs_cache_all [OF dm, of "with_world w k"] om_rev [OF m(1)] by simp
  show ?thesis
    unfolding commit_pages_reserved_def dedup_wf [OF m(1)] Let_def sz
    by (rule runs_then [OF runs_ret], rule runs_then [OF seq], rule runs_then [OF ca runs_ret])
qed

lemma truns_finish:
  assumes m: "om_wf m" "\<forall>q p. om_lookup m q = Some p \<longrightarrow> length p = PAGE_SIZE \<and> V q \<noteq> None" and x: "tx_secondary_mutations x = []"
    and w: "w = (en_world k)\<lparr>ip_pages := ip_pages (en_world k) ++ om_lookup m, ip_durable_lsn := max (ip_durable_lsn (en_world k)) c\<rparr>"
  shows "truns (commit_finish G t a c m (en_posting_log k)) x k V c x (remove_pending_txn t (with_world w k)) (V ++ om_lookup m)"
proof -
  have "runs (commit_pages_reserved G t a c m) k V c (with_world w k) (V ++ om_lookup m)" using m by (intro runs_commit_reserved [OF m(1) _ w]) auto
  note cp = truns_engine [OF this]
  let ?f = "\<lambda>e. remove_pending_txn t (e\<lparr>en_indexes := apply_commit c [] (en_indexes e), en_posting_log := en_posting_log k\<rparr>)"
  have f: "?f (with_world w k) = remove_pending_txn t (with_world w k)"
    by (simp add: remove_pending_txn_def apply_commit_def with_world_def set_provider_def)
  have "runs (modify ?f) (with_world w k) (V ++ om_lookup m) () (?f (with_world w k)) (V ++ om_lookup m)"
    by (rule runs_modify) (simp add: remove_pending_txn_def with_cache_def set_provider_def en_provider_def en_cache_def apply_commit_def)
  note md = truns_engine [OF this, unfolded f]
  show ?thesis unfolding commit_finish_def
    by (rule truns_then [OF cp], rule truns_then [OF truns_get], unfold x, rule truns_then [OF md truns_ret])
qed

section \<open>The commit\<close>

lemma truns_prepare:
  assumes o: "one_intent R key t hs row x k V b A" and key: "length key = KEY_SIZE"
  shows "\<exists>meta m x' k' V' b'. prepared R key t (row\<lparr>lv_meta := (lv_meta row)\<lparr>lm_commit_lsn := 1\<rparr>\<rparr>) meta m x' k' V' b' A
    \<and> (\<forall>rest (c :: u64) x2 k2 V2. truns (rest meta t m) x' k' V' c x2 k2 V2 \<longrightarrow> truns (andThen (commit_base_meta G) (\<lambda>base_meta. andThen (stage_old_tail G base_meta) (\<lambda>_.
        andThen (commit_request_id G) (\<lambda>request_id. andThen (of_txn (\<lambda>x. map fst (tx_modified x))) (\<lambda>keys. andThen (for_each (prestamp_key G request_id) keys) (\<lambda>_.
        andThen (on_txn merge_bptree_dirty) (\<lambda>_. andThen (commit_page_set G base_meta) (rest base_meta request_id)))))))) x k V c x2 k2 V2)
    \<and> om_lookup (ents b') = (om_lookup (ents b))(key \<mapsto> encode_leaf_value (row\<lparr>lv_meta := (lv_meta row)\<lparr>lm_commit_lsn := 1\<rparr>\<rparr>))
    \<and> fst (leaf_for key b') = fst (leaf_for key b) \<and> (\<forall>q. q \<noteq> fst (leaf_for key b) \<longrightarrow> V' q = V q) \<and> en_world k' = en_world k
    \<and> tx_read_guard x' = tx_read_guard x \<and> tx_undo_segment_first_page_id x' = tx_undo_segment_first_page_id x"
proof -
  let ?l = "fst (leaf_for key b)" let ?r = "row\<lparr>lv_meta := (lv_meta row)\<lparr>lm_commit_lsn := 1\<rparr>\<rparr>" let ?f = "tx_undo_segment_first_page_id x"
  obtain page meta lp where a: "calm k V" "tree_inv R (vis_of R k V) b" "open_path key b" "om_lookup (ents b) key = Some (encode_leaf_value row)" "leaf_value_ok row"
    "owns_intent t row" "wrote_one x V A" "tx_modified x = [(key, ())]" "tx_undo_txn_id x = Some t" "tx_bptree_dirty x = [(?l, lp)]"
    "V 0 = Some page" "meta_decode page = Ok meta" "meta_ok A V meta" "\<forall>pid. ?f = Some pid \<longrightarrow> pid \<noteq> mp_undo_history_tail meta"
    using o unfolding one_intent_def by blast
  let ?t = "mp_undo_history_tail meta" let ?S = "segment_pages ?f ?t"
  obtain D where D: "truns (stage_old_tail G meta) x k V () (x\<lparr>tx_dirty := D\<rparr>) k V" "om_wf D" "\<forall>q p. om_lookup D q = Some p \<longrightarrow> V q = Some p" "dom (om_lookup D) = ?S"
    using truns_old_tail [OF a(7,13)] by blast
  define x1 where "x1 = x\<lparr>tx_dirty := D\<rparr>"
  have x1: "tx_bptree_dirty x1 = [(?l, lp)]" "tx_modified x1 = [(key, ())]" "tx_undo_txn_id x1 = Some t" using a(8-10) by (simp_all add: x1_def)
  obtain x2 k2 V2 b2 where p: "truns (for_each (prestamp_key G t) [key]) x1 k V () x2 k2 V2" "overwritten R key ?r x1 k V b x2 k2 V2 b2"
    using truns_prestamp [OF a(1-3) key a(5,6,4) x1(1)] by blast
  obtain p1 n where w: "x2 = x1\<lparr>tx_bptree_dirty := [(?l, p1)]\<rparr>" "k2 = add_len_of n k" "V2 = V(?l \<mapsto> p1)" and w': "tree_inv R (vis_of R k2 V2) b2"
    "om_lookup (ents b2) = (om_lookup (ents b))(key \<mapsto> encode_leaf_value ?r)" "fst (leaf_for key b2) = ?l" "open_path key b2" "?l \<notin> R" "calm k2 V2"
    using p(2) by (auto simp: overwritten_def)
  define x3 where "x3 = x2\<lparr>tx_dirty := om_insert ?l p1 D\<rparr>"
  have mg: "merge_bptree_dirty x2 = x3" by (simp add: merge_bptree_dirty_def w(1) x1_def x3_def)
  have x3: "tx_dirty x3 = om_insert ?l p1 D" "tx_modified x3 = [(key, ())]" "tx_bptree_dirty x3 = [(?l, p1)]" "tx_undo_segment_first_page_id x3 = ?f"
    "tx_secondary_mutations x3 = []" "tx_read_guard x3 = tx_read_guard x"
    using a(7,8) by (simp_all add: x3_def w(1) x1_def wrote_one_def)
  have AR: "q \<noteq> ?l \<and> q \<noteq> 0" if "q \<in> A" for q using that used_reserved [OF a(13)] w'(5) a(13) by (auto simp: meta_ok_def word_le_nat_alt)
  have m2: "meta_ok A V2 meta" by (rule meta_ok_cong [OF a(13)]) (use a(13) AR w(3) in \<open>auto simp: meta_ok_def fun_upd_apply\<close>)
  have d3: "?S \<subseteq> dom (om_lookup (tx_dirty x3))" using D(4) by (auto simp: x3 om_lookup_insert)
  obtain mp where ps: "truns (commit_page_set G meta) x3 k2 V2 (om_insert 0 mp (om_insert ?l p1 D)) x3 k2 V2"
    using truns_page_set [OF m2, of x3 k2] d3 x3(1,4) by auto
  let ?m = "om_insert 0 mp (om_insert ?l p1 D)"
  have seg: "\<exists>p. om_lookup ?m q = Some p \<and> V2 q = Some p \<and> seg_page p \<and> q \<in> A" if q: "q \<in> ?S - {0}" for q
  proof -
    have qA: "q \<in> A" "\<exists>p. V q = Some p \<and> seg_page p" using q a(7,13) by (auto simp: segment_pages_def wrote_one_def meta_ok_def split: option.splits if_splits)
    moreover have "om_lookup D q \<noteq> None" using q D(4) by auto
    ultimately show ?thesis using AR [OF qA(1)] D(3) w(3) by (auto simp: om_lookup_insert fun_upd_apply)
  qed
  have v0: "V2 0 \<noteq> None" "V2 ?l \<noteq> None" using a(11) w(3) by (auto simp: fun_upd_apply)
  have dm: "dom (om_lookup ?m) = {0, ?l} \<union> ?S" using D(4) by (auto simp: om_lookup_insert)
  have dV: "dom (om_lookup ?m) \<subseteq> dom V2" using dm v0 seg by auto
  have pz: "pid \<noteq> ?t \<and> pid \<noteq> 0" if "?f = Some pid" for pid using that a(7,14) AR by (auto simp: wrote_one_def)
  have wf: "om_wf ?m" using D(2) by (simp add: om_wf_insert)
  have "prepared R key t ?r meta ?m x3 k2 V2 b2 A"
    unfolding prepared_def w'(3) x3(4)
    using w'(1,4-6) a(5,6) wf dm seg dV m2 pz x3(2,3,5) by (auto simp: w'(2) leaf_value_ok_def owns_intent_def)
  moreover have "truns (andThen (commit_base_meta G) (\<lambda>base_meta. andThen (stage_old_tail G base_meta) (\<lambda>_.
        andThen (commit_request_id G) (\<lambda>request_id. andThen (of_txn (\<lambda>x. map fst (tx_modified x))) (\<lambda>keys. andThen (for_each (prestamp_key G request_id) keys) (\<lambda>_.
        andThen (on_txn merge_bptree_dirty) (\<lambda>_. andThen (commit_page_set G base_meta) (rest base_meta request_id)))))))) x k V c x' k' V'"
    if r: "truns (rest meta t ?m) x3 k2 V2 c x' k' V'" for rest and c :: u64 and x' k' V'
  proof -
    have id: "truns (commit_request_id G) x1 k V t x1 k V"
      unfolding commit_request_id_def by (rule truns_then [OF truns_get], unfold x1(3) option.case, rule truns_ret)
    have ks: "truns (of_txn (\<lambda>x. map fst (tx_modified x))) x1 k V [key] x1 k V" by (rule truns_of_txn) (simp add: x1)
    have mr: "truns (on_txn merge_bptree_dirty) x2 k2 V2 () x3 k2 V2" using truns_on_txn [of merge_bptree_dirty x2 k2 V2] mg by simp
    show ?thesis
      by (rule truns_then [OF truns_base_meta [OF a(7,11,12)]], rule truns_then [OF D(1) [folded x1_def]], rule truns_then [OF id], rule truns_then [OF ks],
          rule truns_then [OF p(1)], rule truns_then [OF mr], rule truns_then [OF ps], rule r)
  qed
  moreover have "en_world k2 = en_world k" by (simp add: w(2) en_world_def)
  ultimately show ?thesis using w'(2,3) w(3) x3(4,6)
    by (intro exI [of _ meta] exI [of _ ?m] exI [of _ x3] exI [of _ k2] exI [of _ V2] exI [of _ b2]) (auto simp: fun_upd_apply)
qed

lemma truns_log:
  assumes "tx_secondary_mutations x = []"
  shows "truns (commit_log G c m) x k V (m, en_posting_log k) x k V"
proof -
  have g: "truns (on_engine (gets en_posting_log)) x k V (en_posting_log k) x k V" by (rule truns_gets) auto
  have b: "truns (build_secondary_log_pages G c (en_posting_log k)) x k V ([], en_posting_log k) x k V"
    unfolding build_secondary_log_pages_def by (rule truns_then [OF truns_get], subst if_P [OF assms], rule truns_ret)
  show ?thesis unfolding commit_log_def by (rule truns_then [OF g], rule truns_then [OF b]) (simp add: truns_ret)
qed

lemma segment_card: "card ({0, l} \<union> segment_pages f t) \<le> 4" "0 < card ({0, l} \<union> segment_pages f t)"
proof -
  let ?ps = "[0, l, (case f of Some p \<Rightarrow> p | None \<Rightarrow> 0), t]"
  have "{0, l} \<union> segment_pages f t \<subseteq> set ?ps" by (auto simp: segment_pages_def split: option.splits if_splits)
  then have "card ({0, l} \<union> segment_pages f t) \<le> card (set ?ps)" by (rule card_mono [OF finite_set])
  also have "\<dots> \<le> length ?ps" by (rule card_length)
  finally show "card ({0, l} \<union> segment_pages f t) \<le> 4" by simp
  show "0 < card ({0, l} \<union> segment_pages f t)" by (simp add: card_gt_0_iff segment_pages_def split: option.splits)
qed

lemma remove_pending_simps [simp]:
  "calm (remove_pending_txn t k) V = calm k V" "vis_of R (remove_pending_txn t k) V = vis_of R k V" "en_world (remove_pending_txn t k) = en_world k"
  by (simp_all add: remove_pending_txn_def calm_def vis_of_def en_world_def en_provider_def)

text \<open>After the reservation: the stamped row, the linked segment, and the pages in the store.\<close>

lemma truns_seal:
  assumes pr: "prepared R key t row meta m x k V b A" and key: "length key = KEY_SIZE" and t: "t \<noteq> 0" and lsn: "unat (ip_next_lsn (en_world k)) + 4 < 2 ^ 64"
    and du: "ip_durable_lsn (en_world k) = ip_next_lsn (en_world k)"
  shows "\<exists>c x' k' V' b'. truns (andThen (commit_reserve_n G m) (\<lambda>reserve_n.
      andThen (on_engine (on_world (\<lambda>w. be_reserve (ee_backend G) w reserve_n t))) (\<lambda>(start_lsn, end_lsn).
      andThen (stamp_rows G t end_lsn m) (\<lambda>m1. andThen (on_engine (gets (\<lambda>e. with_tree_ids e meta))) (\<lambda>meta1.
      andThen (commit_segment G t start_lsn end_lsn (mp_undo_history_tail meta) meta1 m1) (\<lambda>(meta', m2).
      andThen (lift (meta_encode meta')) (\<lambda>meta_bytes. andThen (commit_log G end_lsn (om_insert META_PAGE_ID meta_bytes m2)) (\<lambda>(m3, after).
      if length m3 \<noteq> reserve_n
      then lift (Err (Io WouldBlock (''commit page set changed: reserved='' @ show_nat reserve_n @ '' final='' @ show_nat (length m3))))
      else commit_finish G t start_lsn end_lsn m3 after)))))))) x k V c x' k' V'
    \<and> calm k' V' \<and> tree_inv R (vis_of R k' V') b' \<and> om_lookup (ents b') = (om_lookup (ents b))(key \<mapsto> encode_leaf_value (stamped_row c row))
    \<and> ip_next_lsn (en_world k) < c \<and> ip_next_lsn (en_world k') = c \<and> ip_durable_lsn (en_world k') = c
    \<and> (\<forall>q. ip_pages (en_world k') q = (if q \<in> dom (om_lookup m) then V' q else ip_pages (en_world k) q)) \<and> (\<forall>q. q \<notin> dom (om_lookup m) \<longrightarrow> V' q = V q)
    \<and> keeps_undo A V V' \<and> (\<exists>page meta. V' META_PAGE_ID = Some page \<and> meta_decode page = Ok meta \<and> meta_ok A V' meta) \<and> tx_read_guard x' = tx_read_guard x"
proof -
  let ?l = "fst (leaf_for key b)" let ?f = "tx_undo_segment_first_page_id x" let ?t = "mp_undo_history_tail meta" let ?S = "segment_pages ?f ?t"
  obtain lp where a: "calm k V" "tree_inv R (vis_of R k V) b" "open_path key b" "om_lookup (ents b) key = Some (encode_leaf_value row)" "leaf_value_ok row" "owns_intent t row"
    "tx_modified x = [(key, ())]" "tx_secondary_mutations x = []" "tx_bptree_dirty x = [(?l, lp)]" "?l \<notin> R" "om_wf m" "dom (om_lookup m) = {0, ?l} \<union> ?S"
    "\<forall>q \<in> ?S - {0}. \<exists>p. om_lookup m q = Some p \<and> V q = Some p \<and> seg_page p \<and> q \<in> A" "dom (om_lookup m) \<subseteq> dom V" "meta_ok A V meta"
    "\<forall>pid. ?f = Some pid \<longrightarrow> pid \<noteq> ?t \<and> pid \<noteq> 0"
    using pr unfolding prepared_def by blast
  define n where "n = length m"
  have n: "n \<le> 4" "0 < n" using om_length [OF a(11)] a(12) segment_card by (simp_all add: n_def)
  define w0 where "w0 = en_world k"
  define c where "c = ip_next_lsn w0 + word_of_nat n"
  have c: "ip_next_lsn w0 < c" using n lsn by (simp add: c_def w0_def word_less_nat_alt unat_word_ariths unat_of_nat)
  define k3 where "k3 = with_world (w0\<lparr>ip_next_lsn := c\<rparr>) k"
  have rv: "truns (on_engine (on_world (\<lambda>w. be_reserve (ee_backend G) w n t))) x k V (ip_next_lsn w0, c) x k3 V"
    using truns_reserve [OF n(2) t, of k x V] n(1) lsn by (simp add: c_def w0_def k3_def)
  have rn: "truns (commit_reserve_n G m) x k V n x k V"
  proof -
    have mx: "max (length m) 1 = n" using n(2) unfolding n_def by (intro max.absorb1) linarith
    show ?thesis unfolding commit_reserve_n_def by (rule truns_then [OF truns_get], subst if_P [OF a(8)], unfold mx, rule truns_ret)
  qed
  have k3: "calm k3 V" "tree_inv R (vis_of R k3 V) b" using a(1,2) by (simp_all add: k3_def calm_world) (simp_all add: calm_def w0_def en_world_def)
  obtain x4 k4 V4 b4 lp2 where st: "truns (stamp_rows G t c m) x k3 V (om_insert ?l lp2 m) x4 k4 V4" "V4 ?l = Some lp2"
    "overwritten R key (stamped_row c row) x k3 V b x4 k4 V4 b4"
    using truns_stamp [OF k3 a(3) key a(5,6,4,9,7)] by blast
  obtain n4 where w: "x4 = x\<lparr>tx_bptree_dirty := [(?l, lp2)]\<rparr>" "k4 = add_len_of n4 k3" "V4 = V(?l \<mapsto> lp2)" "length lp2 = PAGE_SIZE" and w': "tree_inv R (vis_of R k4 V4) b4"
    "om_lookup (ents b4) = (om_lookup (ents b))(key \<mapsto> encode_leaf_value (stamped_row c row))" "calm k4 V4"
    using st(2,3) by (auto simp: overwritten_def)
  let ?m1 = "om_insert ?l lp2 m"
  have x4: "tx_undo_segment_first_page_id x4 = ?f" "tx_secondary_mutations x4 = []" "tx_read_guard x4 = tx_read_guard x" using a(8) by (simp_all add: w(1))
  have wk: "en_world k4 = w0\<lparr>ip_next_lsn := c\<rparr>" "en_posting_log k4 = en_posting_log k" 
    using with_world_simps(1,3) [of "w0\<lparr>ip_next_lsn := c\<rparr>" k] by (simp_all add: w(2) en_world_def k3_def)
  have AR: "q \<noteq> ?l \<and> q \<noteq> 0" if "q \<in> A" for q using that used_reserved [OF a(15)] a(10,15) by (auto simp: meta_ok_def word_le_nat_alt)
  let ?S' = "?S - {0}"
  have sg: "case tx_undo_segment_first_page_id x4 of None \<Rightarrow> True | Some pid \<Rightarrow> pid \<noteq> ?t \<and> pid \<noteq> 0
      \<and> (\<exists>p. om_lookup ?m1 pid = Some p \<and> seg_page p) \<and> (?t \<noteq> 0 \<longrightarrow> (\<exists>p. om_lookup ?m1 ?t = Some p \<and> seg_page p))"
  proof (cases ?f)
    case (Some pid)
    have "\<exists>p. om_lookup ?m1 q = Some p \<and> seg_page p" if "q \<in> ?S'" for q using a(13) that AR by (fastforce simp: om_lookup_insert fun_upd_apply)
    then show ?thesis using Some a(16) by (auto simp: x4 segment_pages_def)
  qed (simp add: x4)
  have wf1: "om_wf ?m1" by (rule om_wf_insert [OF a(11)])
  obtain meta' m2 where se: "truns (commit_segment G t (ip_next_lsn w0) c ?t (with_tree_ids k4 meta) ?m1) x4 k4 V4 (meta', m2) x4 k4 V4" "om_wf m2"
    "dom (om_lookup m2) = dom (om_lookup ?m1)" "mp_undo_free meta' = mp_undo_free meta" "mp_next_undo_page_id meta' = mp_next_undo_page_id meta"
    and sc: "case tx_undo_segment_first_page_id x4 of None \<Rightarrow> meta' = with_tree_ids k4 meta \<and> m2 = ?m1
       | Some pid \<Rightarrow> mp_undo_history_tail meta' = pid
         \<and> (\<forall>q \<in> segment_pages (Some pid) ?t - {0}. \<exists>p p'. om_lookup ?m1 q = Some p \<and> om_lookup m2 q = Some p' \<and> seg_page p \<and> seg_page p' \<and> undo_records p' = undo_records p)
         \<and> (\<forall>q. q \<notin> segment_pages (Some pid) ?t - {0} \<longrightarrow> om_lookup m2 q = om_lookup ?m1 q)"
    using truns_segment [OF wf1 sg, of t "ip_next_lsn w0" c "with_tree_ids k4 meta" k4 V4] by (auto simp: with_tree_ids_def)
  have dm: "dom (om_lookup m2) = dom (om_lookup m)" using se(3) a(12) by (auto simp: om_lookup_insert)
  have s1: "\<exists>p p'. V q = Some p \<and> om_lookup m2 q = Some p' \<and> seg_page p \<and> seg_page p' \<and> undo_records p' = undo_records p \<and> q \<in> A" if q: "q \<in> ?S'" for q
  proof -
    obtain pid where pid: "?f = Some pid" using q by (auto simp: segment_pages_def split: option.splits)
    obtain p where p: "om_lookup m q = Some p" "V q = Some p" "seg_page p" "q \<in> A" using a(13) q by blast
    have "om_lookup ?m1 q = Some p" using AR [OF p(4)] p(1) by (simp add: om_lookup_insert)
    moreover obtain p1 p' where "om_lookup ?m1 q = Some p1" "om_lookup m2 q = Some p'" "seg_page p'" "undo_records p' = undo_records p1"
      using sc q unfolding x4(1) pid option.case by blast
    ultimately show ?thesis using p by auto
  qed
  have s2: "om_lookup m2 q = om_lookup ?m1 q" if "q \<notin> ?S'" for q using that sc by (auto simp: x4 split: option.splits)
  define V5 where "V5 = V4 ++ om_lookup m2"
  have v5: "V5 q = (if q \<in> ?S' then om_lookup m2 q else V q)" if "q \<in> A" for q
  proof (cases "q \<in> ?S'")
    case True
    then show ?thesis using s1 [of q] by (auto simp: V5_def map_add_def)
  next
    case False
    then have "om_lookup m2 q = None" using dm a(12) AR [OF that] by (auto simp: dom_def)
    then show ?thesis using False AR [OF that] by (auto simp: V5_def map_add_def w(3) split: option.splits)
  qed
  have ta: "mp_undo_history_tail meta' \<noteq> 0 \<Longrightarrow> mp_undo_history_tail meta' \<in> A \<and> (\<exists>p. V5 (mp_undo_history_tail meta') = Some p \<and> seg_page p)"
  proof (cases ?f)
    case None
    assume "mp_undo_history_tail meta' \<noteq> 0"
    then show ?thesis using None sc a(15) v5 [of ?t] by (auto simp: x4 meta_ok_def segment_pages_def)
  next
    case (Some pid)
    then have "pid \<in> ?S'" "mp_undo_history_tail meta' = pid" using a(16) sc by (auto simp: segment_pages_def x4)
    then show ?thesis using s1 [of pid] v5 [of pid] by auto
  qed
  have m5: "meta_ok A V5 meta'" using a(15) ta se(4,5) by (simp add: meta_ok_def)
  obtain mpg where mpg: "meta_encode meta' = Ok mpg" "meta_decode mpg = Ok meta'" "length mpg = PAGE_SIZE" using meta_ok_encode [OF m5] by blast
  define m3 where "m3 = om_insert 0 mpg m2"
  have wf3: "om_wf m3" using se(2) by (simp add: m3_def om_wf_insert)
  have d3: "dom (om_lookup m3) = dom (om_lookup m)" using dm a(12) by (auto simp: m3_def om_lookup_insert)
  have len3: "length m3 = n" using om_length [OF wf3] om_length [OF a(11)] d3 by (simp add: n_def)
  have l3: "om_lookup m3 ?l = Some lp2" "om_lookup m3 0 = Some mpg"
    using s2 [of ?l] a(10,13) fixed_ids used_reserved [OF a(15)] by (auto simp: m3_def om_lookup_insert fun_upd_apply)
  have lg: "truns (commit_log G c m3) x4 k4 V4 (m3, en_posting_log k4) x4 k4 V4" using truns_log x4(2) by blast
  define w5 where "w5 = (en_world k4)\<lparr>ip_pages := ip_pages (en_world k4) ++ om_lookup m3, ip_durable_lsn := max (ip_durable_lsn (en_world k4)) c\<rparr>"
  have sz: "\<forall>q p. om_lookup m3 q = Some p \<longrightarrow> length p = PAGE_SIZE \<and> V4 q \<noteq> None"
  proof (intro allI impI)
    fix q p assume q: "om_lookup m3 q = Some p"
    then have d: "q \<in> {0, ?l} \<union> ?S" using d3 a(12) by auto
    have "V4 q \<noteq> None" using d a(12,14) by (auto simp: w(3) fun_upd_apply)
    moreover have "length p = PAGE_SIZE"
    proof (cases "q \<in> ?S'")
      case True
      then have "om_lookup m2 q = Some p" using q by (simp add: m3_def om_lookup_insert)
      then show ?thesis using s1 [OF True] seg_page_length by auto
    next
      case False
      then have "q = 0 \<or> q = ?l" using d by auto
      then show ?thesis using l3 q mpg(3) w(4) by auto
    qed
    ultimately show "length p = PAGE_SIZE \<and> V4 q \<noteq> None" by simp
  qed
  define V' k' where "V' = V4 ++ om_lookup m3" and "k' = remove_pending_txn t (with_world w5 k4)"
  have fin: "truns (commit_finish G t (ip_next_lsn w0) c m3 (en_posting_log k4)) x4 k4 V4 c x4 k' V'"
    using truns_finish [OF wf3 sz x4(2) w5_def] by (simp add: V'_def k'_def)
  have v': "V' q = (if q \<in> dom (om_lookup m) then om_lookup m3 q else V4 q)" for q using d3 by (auto simp: V'_def map_add_def split: option.splits)
  have vA: "V' q = V5 q" if "q \<in> A" for q using AR [OF that] by (auto simp: V'_def V5_def m3_def om_lookup_insert map_add_def)
  have c1: "truns (andThen (commit_reserve_n G m) (\<lambda>reserve_n.
      andThen (on_engine (on_world (\<lambda>w. be_reserve (ee_backend G) w reserve_n t))) (\<lambda>(start_lsn, end_lsn).
      andThen (stamp_rows G t end_lsn m) (\<lambda>m1. andThen (on_engine (gets (\<lambda>e. with_tree_ids e meta))) (\<lambda>meta1.
      andThen (commit_segment G t start_lsn end_lsn (mp_undo_history_tail meta) meta1 m1) (\<lambda>(meta', m2).
      andThen (lift (meta_encode meta')) (\<lambda>meta_bytes. andThen (commit_log G end_lsn (om_insert META_PAGE_ID meta_bytes m2)) (\<lambda>(m3, after).
      if length m3 \<noteq> reserve_n
      then lift (Err (Io WouldBlock (''commit page set changed: reserved='' @ show_nat reserve_n @ '' final='' @ show_nat (length m3))))
      else commit_finish G t start_lsn end_lsn m3 after)))))))) x k V c x4 k' V'"
    apply (rule truns_then [OF rn], rule truns_then [OF rv], unfold prod.case, rule truns_then [OF st(1)])
    apply (rule truns_then [OF truns_gets], metis tree_ids_no_cache)
    apply (rule truns_then [OF se(1)], unfold prod.case, rule truns_then [OF truns_lift [OF mpg(1)]])
    apply (unfold m3_def [symmetric], rule truns_then [OF lg], unfold prod.case len3, subst if_not_P, simp, rule fin)
    done
  have "\<forall>q. V' q \<noteq> V4 q \<longrightarrow> q \<in> R"
  proof (intro allI impI)
    fix q assume q: "V' q \<noteq> V4 q"
    then have "q \<in> {0, ?l} \<union> ?S" "q \<noteq> ?l" using v' [of q] a(12) l3(1) by (auto simp: w(3) split: if_splits)
    then show "q \<in> R" using fixed_ids s1 [of q] used_reserved [OF a(15)] by (cases "q = 0") auto
  qed
  then have c2: "tree_inv R (vis_of R k' V') b4" using w'(1) vis_of_cong [of V' V4 k4] by (simp add: k'_def)
  have wp: "ip_pages w5 = ip_pages w0 ++ om_lookup m3" "ip_durable_lsn w5 = c" "ip_next_lsn w5 = c" using c du by (simp_all add: w5_def wk w0_def less_imp_le max.absorb2)
  have "tp_dirty (en_provider k4) = None \<and> tp_pages (en_provider k4) = no_cache \<and> dom (ip_pages w0) \<subseteq> dom V4"
    using w'(3) wk(1) by (auto simp: calm_def en_world_def)
  then have c3: "calm k' V'" unfolding k'_def remove_pending_simps(1) calm_world wp(1) by (auto simp: V'_def)
  have c4: "\<forall>q. ip_pages (en_world k') q = (if q \<in> dom (om_lookup m) then V' q else ip_pages (en_world k) q)"
    using d3 v' by (auto simp: k'_def wp w0_def map_add_def split: option.splits)
  have c5: "\<forall>q. q \<notin> dom (om_lookup m) \<longrightarrow> V' q = V q" using v' a(12) by (auto simp: w(3) fun_upd_apply)
  have c6: "keeps_undo A V V'"
    unfolding keeps_undo_def
  proof (intro ballI allI impI)
    fix q page assume q: "q \<in> A" "V q = Some page" "undo_wf page"
    then show "\<exists>page' rs. V' q = Some page' \<and> undo_wf page' \<and> undo_records page' = undo_records page @ rs"
      using vA [OF q(1)] v5 [OF q(1)] s1 [of q] by (cases "q \<in> ?S'") (auto simp: seg_page_def)
  qed
  have "meta_ok A V' meta'" by (rule meta_ok_cong [OF m5]) (use ta vA in auto)
  then have c7: "\<exists>page meta. V' META_PAGE_ID = Some page \<and> meta_decode page = Ok meta \<and> meta_ok A V' meta" using mpg(2) l3(2) v' [of 0] a(12) by auto
  have c8: "ip_next_lsn (en_world k) < c" "ip_next_lsn (en_world k') = c" "ip_durable_lsn (en_world k') = c" using c wp by (simp_all add: k'_def w0_def)
  show ?thesis by (rule exI conjI c1 c2 c3 c4 c5 c6 c7 c8 w'(2) x4(3))+
qed

lemma truns_commit:
  assumes o: "one_intent R key t hs row x k V b A" and key: "length key = KEY_SIZE" and t: "t \<noteq> 0" and lsn: "unat (ip_next_lsn (en_world k)) + 4 < 2 ^ 64"
    and du: "ip_durable_lsn (en_world k) = ip_next_lsn (en_world k)"
    and st: "\<forall>q. q \<notin> dom (map_of (tx_dirty x)) \<longrightarrow> q \<noteq> fst (leaf_for key b) \<longrightarrow> ip_pages (en_world k) q = V q"
  shows "\<exists>c x' k' V' b'. truns (commit_rw G) x k V c x' k' V' \<and> calm k' V' \<and> tree_inv R (vis_of R k' V') b'
    \<and> om_lookup (ents b') = (om_lookup (ents b))(key \<mapsto> encode_leaf_value (stamped_row c row))
    \<and> ip_next_lsn (en_world k) < c \<and> ip_next_lsn (en_world k') = c \<and> ip_durable_lsn (en_world k') = c \<and> ip_pages (en_world k') = V'
    \<and> keeps_undo A V V' \<and> (\<exists>page meta. V' META_PAGE_ID = Some page \<and> meta_decode page = Ok meta \<and> meta_ok A V' meta) \<and> tx_read_guard x' = tx_read_guard x"
proof -
  let ?r = "row\<lparr>lv_meta := (lv_meta row)\<lparr>lm_commit_lsn := 1\<rparr>\<rparr>" let ?l = "fst (leaf_for key b)"
  let ?rest = "\<lambda>meta t m. andThen (commit_reserve_n G m) (\<lambda>reserve_n.
      andThen (on_engine (on_world (\<lambda>w. be_reserve (ee_backend G) w reserve_n t))) (\<lambda>(start_lsn, end_lsn).
      andThen (stamp_rows G t end_lsn m) (\<lambda>m1. andThen (on_engine (gets (\<lambda>e. with_tree_ids e meta))) (\<lambda>meta1.
      andThen (commit_segment G t start_lsn end_lsn (mp_undo_history_tail meta) meta1 m1) (\<lambda>(meta', m2).
      andThen (lift (meta_encode meta')) (\<lambda>meta_bytes. andThen (commit_log G end_lsn (om_insert META_PAGE_ID meta_bytes m2)) (\<lambda>(m3, after).
      if length m3 \<noteq> reserve_n
      then lift (Err (Io WouldBlock (''commit page set changed: reserved='' @ show_nat reserve_n @ '' final='' @ show_nat (length m3))))
      else commit_finish G t start_lsn end_lsn m3 after)))))))"
  obtain meta m x1 k1 V1 b1 where p: "prepared R key t ?r meta m x1 k1 V1 b1 A"
    and go: "\<forall>rest (c :: u64) x2 k2 V2. truns (rest meta t m) x1 k1 V1 c x2 k2 V2 \<longrightarrow> truns (andThen (commit_base_meta G) (\<lambda>base_meta. andThen (stage_old_tail G base_meta) (\<lambda>_.
        andThen (commit_request_id G) (\<lambda>request_id. andThen (of_txn (\<lambda>x. map fst (tx_modified x))) (\<lambda>keys. andThen (for_each (prestamp_key G request_id) keys) (\<lambda>_.
        andThen (on_txn merge_bptree_dirty) (\<lambda>_. andThen (commit_page_set G base_meta) (rest base_meta request_id)))))))) x k V c x2 k2 V2"
    and q: "om_lookup (ents b1) = (om_lookup (ents b))(key \<mapsto> encode_leaf_value ?r)" "fst (leaf_for key b1) = ?l" "\<forall>q. q \<noteq> ?l \<longrightarrow> V1 q = V q"
      "en_world k1 = en_world k" "tx_read_guard x1 = tx_read_guard x" "tx_undo_segment_first_page_id x1 = tx_undo_segment_first_page_id x"
    using truns_prepare [OF o key] by (elim exE conjE) (rule that; assumption)
  obtain c x' k' V' b' where s: "truns (?rest meta t m) x1 k1 V1 c x' k' V'" "calm k' V'" "tree_inv R (vis_of R k' V') b'"
    "om_lookup (ents b') = (om_lookup (ents b1))(key \<mapsto> encode_leaf_value (stamped_row c ?r))"
    "ip_next_lsn (en_world k1) < c" "ip_next_lsn (en_world k') = c" "ip_durable_lsn (en_world k') = c"
    "\<forall>q. ip_pages (en_world k') q = (if q \<in> dom (om_lookup m) then V' q else ip_pages (en_world k1) q)" "\<forall>q. q \<notin> dom (om_lookup m) \<longrightarrow> V' q = V1 q"
    "keeps_undo A V1 V'" "\<exists>page meta. V' META_PAGE_ID = Some page \<and> meta_decode page = Ok meta \<and> meta_ok A V' meta" "tx_read_guard x' = tx_read_guard x1"
    using truns_seal [OF p key t lsn [folded q(4)] du [folded q(4)]] by (elim exE conjE) (rule that; (assumption | (intro exI conjI; assumption)))
  have c1: "truns (commit_rw G) x k V c x' k' V'" unfolding commit_rw_def using go [rule_format, of ?rest, OF s(1)] .
  have "stamped_row c ?r = stamped_row c row" by (simp add: stamped_row_def)
  then have c2: "om_lookup (ents b') = (om_lookup (ents b))(key \<mapsto> encode_leaf_value (stamped_row c row))" using s(4) q(1) by simp
  have d: "dom (om_lookup m) = {0, ?l} \<union> segment_pages (tx_undo_segment_first_page_id x) (mp_undo_history_tail meta)" "?l \<notin> R" "meta_ok A V1 meta"
    using p q(2,6) by (auto simp: prepared_def)
  have sub: "dom (map_of (tx_dirty x)) \<subseteq> dom (om_lookup m)"
    using o d(1) by (auto simp: one_intent_def wrote_one_def segment_pages_def split: option.splits)
  have "ip_pages (en_world k') j = V' j" for j
  proof (cases "j \<in> dom (om_lookup m)")
    case False
    then have j: "j \<notin> dom (map_of (tx_dirty x))" "j \<noteq> ?l" using sub d(1) by blast+
    then have "ip_pages (en_world k) j = V j" using st by blast
    then show ?thesis using False j(2) s(8) [rule_format, of j] s(9) [rule_format, of j] q(3,4) by simp
  qed (use s(8) in simp)
  then have c3: "ip_pages (en_world k') = V'" by blast
  have c4: "keeps_undo A V V'" using s(10) q(3) d(2) used_reserved [OF d(3)] unfolding keeps_undo_def by (metis subsetD)
  have c5: "ip_next_lsn (en_world k) < c" "tx_read_guard x' = tx_read_guard x" using s(5,12) q(4,5) by simp_all
  show ?thesis by (rule exI conjI c1 c2 c3 c4 c5 s(2,3,6,7,11))+
qed

end

end
