(* ===== verification/Lru_List.thy ===== *)
theory Lru_List
  imports Page_Cache
begin

text \<open>
  A list of pages in the order of their last use keeps the contract that \<open>lru_cache\<close> asks of the crate \<open>lru\<close>; it is the instance on
  which the properties that take such a cache are shown to be applicable. The last part is about eviction.
\<close>

section \<open>A list as an LRU cache\<close>

text \<open>The pages in the order of their last use, with the capacity.\<close>

typedef ('k, 'v) list_lru = "{(n, xs :: ('k \<times> 'v) list). 0 < n \<and> distinct (map fst xs) \<and> length xs \<le> (n :: nat)}"
  by (rule exI [of _ "(1, [])"]) simp

lemma filter_shorter: "(q, p) \<in> set xs \<Longrightarrow> length xs \<le> n \<Longrightarrow> length (filter (\<lambda>x. fst x \<noteq> q) xs) < n"
  using length_filter_less [of "(q, p)" xs "\<lambda>x. fst x \<noteq> q"] by simp

setup_lifting type_definition_list_lru

lift_definition ll_new :: "nat \<Rightarrow> ('k, 'v) list_lru" is "\<lambda>n. (max n 1, [])"
  by simp

lift_definition ll_cap :: "('k, 'v) list_lru \<Rightarrow> nat" is fst .

lift_definition ll_pages :: "('k, 'v) list_lru \<Rightarrow> 'k \<rightharpoonup> 'v" is "\<lambda>(n, xs). map_of xs" .

lift_definition ll_touch :: "('k, 'v) list_lru \<Rightarrow> 'k \<Rightarrow> ('k, 'v) list_lru" is
  "\<lambda>(n, xs) q. (n, case map_of xs q of None \<Rightarrow> xs | Some p \<Rightarrow> (q, p) # filter (\<lambda>x. fst x \<noteq> q) xs)"
  by (auto simp: distinct_map_filter Suc_le_eq split: option.splits intro: filter_shorter)

lift_definition ll_put :: "('k, 'v) list_lru \<Rightarrow> 'k \<Rightarrow> 'v \<Rightarrow> ('k, 'v) list_lru" is
  "\<lambda>(n, xs) q p. (n, take n ((q, p) # filter (\<lambda>x. fst x \<noteq> q) xs))"
  by (auto simp: distinct_map_filter take_Cons' intro!: distinct_take simp flip: take_map dest!: in_set_takeD)

lift_definition ll_pop :: "('k, 'v) list_lru \<Rightarrow> 'k \<Rightarrow> ('k, 'v) list_lru" is "\<lambda>(n, xs) q. (n, filter (\<lambda>x. fst x \<noteq> q) xs)"
  by (auto simp: distinct_map_filter intro: order.trans [OF length_filter_le])

lift_definition ll_len :: "('k, 'v) list_lru \<Rightarrow> nat" is "\<lambda>(n, xs). length xs" .

definition list_lru_ops :: "(u64, bytes) list_lru lru_ops" where
  "list_lru_ops = \<lparr>lru_new = ll_new, lru_get = (\<lambda>c q. (ll_pages c q, ll_touch c q)), lru_put = ll_put,
     lru_contains = (\<lambda>c q. ll_pages c q \<noteq> None), lru_pop = ll_pop, lru_len = ll_len\<rparr>"

definition one_page_provider :: "((u64, bytes) list_lru, unit) txn_provider" where
  "one_page_provider = txn_provider_new (cache_new_with_capacity list_lru_ops 64 1) 11 8 ()"

lemma map_of_filter_key: "map_of (filter (\<lambda>x. fst x \<noteq> q) xs) = (map_of xs)(q := None)"
  by (induction xs) auto

lemma ll_touch_pages: "ll_pages (ll_touch c q) = ll_pages c"
  by transfer (auto simp: map_of_filter_key split: option.splits)

lemma ll_put_same: "ll_pages (ll_put c q p) q = Some p"
  by transfer (auto simp: take_Cons')

lemma map_of_take: "distinct (map fst xs) \<Longrightarrow> map_of (take n xs) k = map_of xs k \<or> map_of (take n xs) k = None"
proof (induction xs arbitrary: n)
  case (Cons x xs)
  then show ?case by (cases n; cases x) auto
qed simp

lemma map_of_take_put:
  "distinct (map fst xs) \<Longrightarrow> q \<noteq> k \<Longrightarrow> map_of (take n ((q, p) # filter (\<lambda>x. fst x \<noteq> q) xs)) k = map_of xs k \<or> map_of (take n ((q, p) # filter (\<lambda>x. fst x \<noteq> q) xs)) k = None"
proof -
  let ?ys = "(q, p) # filter (\<lambda>x. fst x \<noteq> q) xs"
  assume a: "distinct (map fst xs)" "q \<noteq> k"
  then have "distinct (map fst ?ys)" by (auto simp: distinct_map_filter)
  from map_of_take [OF this, of n k] show ?thesis using a(2) map_of_filter_key [of q xs] by (metis fun_upd_other map_of_Cons_code(2))
qed

lemma ll_put_other: "q \<noteq> k \<Longrightarrow> ll_pages (ll_put c q p) k = ll_pages c k \<or> ll_pages (ll_put c q p) k = None"
  apply transfer
  subgoal for q k c p by (cases c) (use map_of_take_put [of "snd c" q k "fst c" p] in simp)
  done

lemma card_dom_map_of: "distinct (map fst xs) \<Longrightarrow> card (dom (map_of xs)) = length xs"
  by (simp add: dom_map_of_conv_image_fst distinct_card flip: set_map)

lemma map_of_put_room:
  assumes d: "distinct (map fst xs)" "length xs \<le> n" and r: "q \<in> dom (map_of xs) \<or> card (dom (map_of xs)) < n"
  shows "map_of (take n ((q, p) # filter (\<lambda>x. fst x \<noteq> q) xs)) = (map_of xs)(q \<mapsto> p)"
proof -
  have "length (filter (\<lambda>x. fst x \<noteq> q) xs) < n"
  proof (cases "q \<in> dom (map_of xs)")
    case True
    then obtain v where "map_of xs q = Some v" by auto
    then show ?thesis using map_of_SomeD filter_shorter d(2) by metis
  next
    case False
    then have "length xs < n" using r card_dom_map_of [OF d(1)] by simp
    then show ?thesis by (rule le_less_trans [OF length_filter_le])
  qed
  then show ?thesis by (simp add: map_of_filter_key)
qed

lemma ll_put_room: "q \<in> dom (ll_pages c) \<or> card (dom (ll_pages c)) < ll_cap c \<Longrightarrow> ll_pages (ll_put c q p) = (ll_pages c)(q \<mapsto> p)"
  apply transfer
  subgoal for q c p by (cases c) (use map_of_put_room [of "snd c" "fst c" q p] in simp)
  done

lemma ll_caps: "0 < n \<Longrightarrow> ll_cap (ll_new n) = n" "ll_pages (ll_new n) = Map.empty" "ll_cap (ll_touch c q) = ll_cap c" "ll_cap (ll_put c q p) = ll_cap c"
  "ll_cap (ll_pop c q) = ll_cap c" "ll_pages (ll_pop c q) = (ll_pages c)(q := None)"
  by (transfer; auto simp: map_of_filter_key max_def)+

lemma ll_len_card: "ll_len c = card (dom (ll_pages c))"
  by transfer (auto simp: card_dom_map_of)

lemma ll_len_cap: "card (dom (ll_pages c)) \<le> ll_cap c"
  unfolding ll_len_card [symmetric] by transfer auto

interpretation ll: lru_cache list_lru_ops ll_pages ll_cap
  by unfold_locales (auto simp: list_lru_ops_def ll_caps ll_touch_pages ll_put_same ll_put_room ll_len_card ll_len_cap dest: ll_put_other)

text \<open>So the providers of the tree keep its contract over LRU lists, for any pages \<open>W\<close> of the tree that fit into the cache.\<close>

interpretation lt: txn_pages list_lru_ops ll_pages ll_cap "insert 8 W" "insert 8 (- W)" fetch 8 for W fetch
  by unfold_locales auto

section \<open>Eviction\<close>

text \<open>C40: When a shard is full, the cache evicts pages that a transaction has written and not committed, and nothing else has them: with
room for one page per shard, reading another page of the shard makes a written page read back as the storage has it.\<close>

theorem eviction_loses_write:
  assumes "lru_cache L pages cap" and "pc_shards (tp_pages s) \<noteq> []" and "cap (pc_shards (tp_pages s) ! cache_shard (tp_pages s) a) = 1"
    and "cache_shard (tp_pages s) b = cache_shard (tp_pages s) a" and "a \<noteq> b" and "fetch (tp_world s) b (tp_min_read_lsn s) = Some other"
  shows "fst (txn_read_page L fetch (snd (txn_read_page L fetch (txn_write_page L s a page) b)) a) = fetch (tp_world s) a (tp_min_read_lsn s)"
proof -
  let ?c = "tp_pages s" let ?i = "cache_shard ?c a" let ?s0 = "pc_shards ?c ! ?i"
  have i: "?i < length (pc_shards ?c)" using assms(2) by (simp add: cache_shard_def)
  let ?s1 = "lru_put L ?s0 a page"
  have only: "pages sh y = None" if "pages sh x \<noteq> None" "cap sh = 1" "x \<noteq> y" for sh x y
  proof (rule ccontr)
    assume "pages sh y \<noteq> None"
    then have "{x, y} \<subseteq> dom (pages sh)" using that(1) by auto
    then have "card {x, y} \<le> card (dom (pages sh))" by (intro card_mono finite) auto
    then show False using lru_cache.cap_law [OF assms(1), of sh] that(2,3) by simp
  qed
  have p1: "pages ?s1 a = Some page" "cap ?s1 = 1" using lru_cache.put_same [OF assms(1)] lru_cache.put_cap [OF assms(1)] assms(3) by simp_all
  have n1: "pages ?s1 b = None" using only [of ?s1 a b] p1 assms(5) by simp
  obtain s2 where s2: "lru_get L ?s1 b = (None, s2)" "cap s2 = 1" using lru_cache.get_law [OF assms(1), of ?s1 b] n1 p1(2) by auto
  let ?s3 = "lru_put L s2 b other"
  have "pages ?s3 b = Some other" "cap ?s3 = 1" using lru_cache.put_same [OF assms(1)] lru_cache.put_cap [OF assms(1)] s2(2) by simp_all
  then have n3: "pages ?s3 a = None" using only [of ?s3 b a] assms(5) by simp
  obtain s4 where s4: "lru_get L ?s3 a = (None, s4)" using lru_cache.get_law [OF assms(1), of ?s3 a] n3 by auto
  have sh: "cache_shard (?c\<lparr>pc_shards := (pc_shards ?c)[?i := x]\<rparr>) q = cache_shard ?c q" for x q by (simp add: cache_shard_def)
  have w: "txn_write_page L s a page = note_dirty a page (s\<lparr>tp_pages := ?c\<lparr>pc_shards := (pc_shards ?c)[?i := ?s1]\<rparr>\<rparr>)"
    by (simp add: txn_write_page_def cache_insert_def Let_def)
  have r: "snd (txn_read_page L fetch (txn_write_page L s a page) b) = note_dirty a page (s\<lparr>tp_pages := ?c\<lparr>pc_shards := (pc_shards ?c)[?i := ?s3]\<rparr>\<rparr>)"
    unfolding w using i s2(1) assms(4,6) by (simp add: txn_read_page_def cache_get_def cache_insert_def sh Let_def note_dirty_def)
  show ?thesis unfolding r using i s4 by (simp add: txn_read_page_def cache_get_def sh Let_def note_dirty_def split: option.splits)
qed

theorem eviction_loses_write_witness:
  "fst (txn_read_page list_lru_ops (\<lambda>_ _ _. Some [7]) (snd (txn_read_page list_lru_ops (\<lambda>_ _ _. Some [7]) (txn_write_page list_lru_ops one_page_provider 10 [9]) 74)) 10) = Some [7]"
proof -
  have sh: "pc_shards (tp_pages one_page_provider) = replicate 64 (ll_new 1)"
    by (simp add: one_page_provider_def txn_provider_new_def cache_new_with_capacity_def div_ceil_def list_lru_ops_def)
  have "cache_shard (tp_pages one_page_provider) q = unat q mod 64" for q unfolding cache_shard_def sh by simp
  then show ?thesis using eviction_loses_write [OF ll.lru_cache_axioms, of one_page_provider 10 74 "\<lambda>_ _ _. Some [7]" "[7]" "[9]"]
    by (simp add: sh ll_caps)
qed

end
