(* ===== verification/Engine_Correct.thy ===== *)
theory Engine_Correct
  imports Engine_Commit Lru_List
begin

text \<open>
  What the calls of the in-process engine promise, over the histories of its rows: a read gives the newest version, a write adds a
  version with an LSN above all others and leaves every page of the cache in the store, and a snapshot does not see later writes.
  All of it is under the contract \<open>engine_pages\<close>.
\<close>

unbundle bit_operations_syntax

lemma stamped_history:
  assumes "undo_history V A (lm_undo_ptr (lv_meta row)) hs"
  shows "row_history V A (stamped_row c row) ((c, live_value (lm_flags (lv_meta row)) (lv_value row)) # hs)"
proof -
  have "(f AND NOT 2) AND 2 = (0 :: u16)" "(f AND NOT 2) AND 1 = f AND 1" for f
    by (rule bit_eqI, auto simp: bit_simps)+
  then show ?thesis using assms by (simp add: row_history_def stamped_row_def is_intent_def has_flag_def live_value_def)
qed

context engine_pages
begin

lemma shows_guard: "shows_as e k V \<Longrightarrow> shows_as (e\<lparr>en_active_reads := r\<rparr>) (k\<lparr>en_active_reads := r\<rparr>) V"
  by (auto simp: shows_as_def with_cache_def set_provider_def en_provider_def en_cache_def)

lemma guard_inv: "engine_inv R (k\<lparr>en_active_reads := r\<rparr>) V b H = engine_inv R k V b H"
  by (simp add: engine_inv_def calm_def vis_of_def en_world_def en_provider_def)

lemma begun_inv: "engine_inv R (begun ro k) V b H = engine_inv R k V b H"
  by (simp add: engine_inv_def)

lemma take_guard_shows: "shows_as e k V \<Longrightarrow> engine_inv R k V b H \<Longrightarrow> \<exists>k'. shows_as (snd (take_guard (x, e))) k' V \<and> engine_inv R k' V b H"
proof (cases "tx_read_guard x")
  case (Some g)
  assume "shows_as e k V" and "engine_inv R k V b H"
  then show ?thesis using shows_guard [of e k V "unregister g (en_active_reads e)"] Some
    by (intro exI [of _ "k\<lparr>en_active_reads := unregister g (en_active_reads e)\<rparr>"]) (simp add: take_guard_def guard_inv)
qed (auto simp: take_guard_def)

lemma holds_shows: "engine_holds pages cap U R e b H \<longleftrightarrow> (\<exists>k V. shows_as e k V \<and> engine_inv R k V b H)"
  by (auto simp: engine_holds_def shows_as_def)

text \<open>A snapshot read of a transaction that has written nothing.\<close>

lemma snapshot_get:
  assumes "engine_holds pages cap U R e b H" and "length key = KEY_SIZE" and "tx_timeout x = None" and "tx_dirty x = []" and "tx_ro_cache x = []"
  shows "\<exists>x' e'. txn_get G key (x, e) = Some (Ok (visible_at (tx_read_lsn x) (case H key of Some hs \<Rightarrow> hs | None \<Rightarrow> [])), x', e') \<and> engine_holds pages cap U R e' b H"
proof -
  obtain k V where s: "shows_as e k V" "engine_inv R k V b H" using assms(1) by (auto simp: holds_shows)
  then obtain A where a: "calm k V" "tree_inv R (vis_of R k V) b" "holds_rows V A b H (ip_durable_lsn (en_world k))" by (auto simp: engine_inv_def)
  have x: "in_time x k" "clean x V" using assms(3-5) by (simp_all add: in_time_def clean_def)
  obtain ro where r: "truns (read_visible_value_from_row G key) x k V (visible_at (tx_read_lsn x) (case H key of Some hs \<Rightarrow> hs | None \<Rightarrow> [])) (x\<lparr>tx_ro_cache := ro\<rparr>) k V"
    using truns_value [OF a(1,2) x holds_rowsD [OF a(3)]] by blast
  have "truns (txn_get G key) x k V (visible_at (tx_read_lsn x) (case H key of Some hs \<Rightarrow> hs | None \<Rightarrow> [])) (x\<lparr>tx_ro_cache := ro\<rparr>) k V"
    unfolding txn_get_def check_key_def using assms(2)
    by (intro truns_then [OF truns_in_time [OF x(1)]]) (auto intro!: truns_then [OF truns_ret] r)
  then show ?thesis using s unfolding truns_def holds_shows by blast
qed

lemma get_newest:
  assumes h: "engine_holds pages cap U R e b H" and key: "length key = KEY_SIZE"
  shows "\<exists>e'. engine_get G key e = Some (Ok (case H key of Some ((l, v) # _) \<Rightarrow> v | _ \<Rightarrow> None), e') \<and> engine_holds pages cap U R e' b H"
proof -
  obtain k V where s: "shows_as e k V" "engine_inv R k V b H" using h by (auto simp: holds_shows)
  let ?hs = "case H key of Some hs \<Rightarrow> hs | None \<Rightarrow> []" let ?lsn = "ip_durable_lsn (en_world k)"
  obtain A where a: "holds_rows V A b H ?lsn" using s(2) by (auto simp: engine_inv_def)
  then have "\<forall>h \<in> set ?hs. fst h \<le> ?lsn" using a [unfolded holds_rows_def, rule_format, of key] by (fastforce split: option.splits)
  then have v: "visible_at ?lsn ?hs = (case H key of Some ((l, v) # _) \<Rightarrow> v | _ \<Rightarrow> None)" using visible_all [of ?hs] by (auto split: option.splits list.splits)
  have b: "engine_holds pages cap U R (begun True e) b H" unfolding holds_shows using begun_shows [OF s(1), of True] s(2) begun_inv by blast
  let ?x = "new_txn True k"
  obtain x' e1 where g: "txn_get G key (?x, begun True e) = Some (Ok (visible_at ?lsn ?hs), x', e1)" "engine_holds pages cap U R e1 b H"
    using snapshot_get [OF b key, of ?x] by (auto simp: new_txn_def)
  obtain k1 V1 where s1: "shows_as e1 k1 V1" "engine_inv R k1 V1 b H" using g(2) by (auto simp: holds_shows)
  have "engine_get G key e = Some (Ok (visible_at ?lsn ?hs), snd (take_guard (x', e1)))"
    using key begin_run(1) [OF s(1)] g(1) by (simp add: engine_get_def check_key_def in_ro_def andThen_def lift_def consume_def)
  then show ?thesis using take_guard_shows [OF s1, of x'] unfolding v holds_shows by blast
qed

text \<open>A write whose leaf has room, with an undo page for the old row, and with no index to change.\<close>

lemma put_version:
  assumes h: "engine_holds pages cap U R e b H" and key: "length key = KEY_SIZE" and val: "length value = VALUE_SIZE" and room: "roomy key b"
    and ur: "undo_room U (view_of pages (en_cache e))" and lsn: "unat (ip_next_lsn (en_world e)) + 4 < 2 ^ 64" and id: "ip_request_id (en_world e) \<noteq> 0"
    and plan: "plan_mutations key (map_option (\<lambda>enc. lv_value (leaf_of enc)) (om_lookup (ents b) key)) (Some value) (ee_order G (en_indexes e)) = Ok []"
  shows "\<exists>c e' b'. engine_put G key value e = Some (Ok c, e') \<and> ip_durable_lsn (en_world e) < c
    \<and> engine_holds pages cap U R e' b' (H(key \<mapsto> (c, Some value) # (case H key of Some hs \<Rightarrow> hs | None \<Rightarrow> [])))"
proof -
  define k V where "k = with_cache no_cache e" and "V = view_of pages (en_cache e)"
  let ?hs = "case H key of Some hs \<Rightarrow> hs | None \<Rightarrow> []" let ?k0 = "begun False k" let ?x0 = "new_txn False k"
  have s: "shows_as e k V" "engine_inv R k V b H" using h by (simp_all add: engine_holds_def shows_as_def k_def V_def)
  have w: "en_world k = en_world e" "en_indexes k = en_indexes e" by (simp_all add: k_def en_world_def)
  obtain row x1 k1 V1 b1 A A1 where p: "truns (txn_put G key value) ?x0 ?k0 V () x1 k1 V1" "one_intent R key (ip_request_id (en_world k)) ?hs row x1 k1 V1 b1 A1"
    "lv_value row = value" "lm_flags (lv_meta row) = FLAG_INTENT"
    "\<forall>j. om_lookup (ents b1) j = (if j = key then Some (encode_leaf_value row) else om_lookup (ents b) j)" "en_world k1 = en_world ?k0" "A \<subseteq> A1" "keeps_undo A V V1"
    "holds_rows V A b H (ip_durable_lsn (en_world k))" "\<forall>q. q \<notin> dom (map_of (tx_dirty x1)) \<longrightarrow> q \<noteq> fst (leaf_for key b1) \<longrightarrow> V1 q = V q"
    using truns_put [OF s(2) refl refl refl key val room ur [folded V_def]] plan w(2) by auto
  have st: "\<forall>q. q \<notin> dom (map_of (tx_dirty x1)) \<longrightarrow> q \<noteq> fst (leaf_for key b1) \<longrightarrow> ip_pages (en_world k1) q = V1 q"
    using p(6,10) s(2) by (simp add: engine_inv_def)
  have du: "ip_durable_lsn (en_world k1) = ip_next_lsn (en_world k1)" "ip_next_lsn (en_world k1) = ip_next_lsn (en_world e)"
    using p(6) s(2) w(1) by (simp_all add: engine_inv_def)
  obtain c x2 k2 V2 b2 where c: "truns (commit_rw G) x1 k1 V1 c x2 k2 V2" "calm k2 V2" "tree_inv R (vis_of R k2 V2) b2"
    "om_lookup (ents b2) = (om_lookup (ents b1))(key \<mapsto> encode_leaf_value (stamped_row c row))"
    "ip_next_lsn (en_world k1) < c" "ip_next_lsn (en_world k2) = c" "ip_durable_lsn (en_world k2) = c" "ip_pages (en_world k2) = V2" "keeps_undo A1 V1 V2"
    "\<exists>page meta. V2 META_PAGE_ID = Some page \<and> meta_decode page = Ok meta \<and> meta_ok A1 V2 meta"
    using truns_commit [OF p(2) key _ _ du(1) st] id lsn du(2) w(1) by (metis (no_types, lifting))
  have ok: "leaf_value_ok row" "undo_history V1 A1 (lm_undo_ptr (lv_meta row)) ?hs" "tx_timeout x1 = None" "\<not> tx_read_only x1"
    using p(2) by (simp_all add: one_intent_def wrote_one_def)
  let ?H = "H(key \<mapsto> (c, Some value) # ?hs)"
  have lt: "ip_durable_lsn (en_world k) < c" using c(5) du p(6) by simp
  have rows: "holds_rows V2 A1 b2 ?H c"
    unfolding holds_rows_def
  proof
    fix j
    note old = p(9) [unfolded holds_rows_def, rule_format, of j]
    have le: "l \<le> c" if "l \<le> ip_durable_lsn (en_world k)" for l using that lt by (meson order.trans less_imp_le)
    show "case om_lookup (ents b2) j of None \<Rightarrow> ?H j = None | Some enc \<Rightarrow> length (lv_value (leaf_of enc)) = VALUE_SIZE
      \<and> (\<exists>hs. ?H j = Some hs \<and> row_history V2 A1 (leaf_of enc) hs \<and> (\<forall>h \<in> set hs. fst h \<le> c))"
    proof (cases "j = key")
      case True
      have "leaf_of (encode_leaf_value (stamped_row c row)) = stamped_row c row" using ok(1) by (intro leaf_of_encode) (simp add: leaf_value_ok_def stamped_row_def)
      moreover have "row_history V2 A1 (stamped_row c row) ((c, Some value) # ?hs)"
        using stamped_history [OF undo_history_keeps [OF ok(2) c(9)], of A1 c] p(3,4) by (simp add: live_value_def has_flag_def)
      moreover have "\<forall>h \<in> set ?hs. fst h \<le> c" using old True le by (auto split: option.splits) fastforce
      ultimately show ?thesis using True c(4) p(3) val by (simp add: stamped_row_def)
    next
      case False
      have "row_history V A row' hs \<Longrightarrow> row_history V2 A1 row' hs" for row' hs
        using row_history_keeps [OF row_history_keeps [OF _ p(8,7)] c(9)] by blast
      then show ?thesis using False c(4) p(5) old le by (fastforce split: option.splits simp: fun_upd_apply)
    qed
  qed
  have inv: "engine_inv R k2 V2 b2 ?H" using c(2,3,6-8,10) rows by (auto simp: engine_inv_def)
  obtain e1 where e1: "txn_put G key value (?x0, begun False e) = Some (Ok (), x1, e1)" "shows_as e1 k1 V1"
    using p(1) begun_shows [OF s(1), of False] unfolding truns_def by blast
  obtain e2 where e2: "commit_rw G (x1, e1) = Some (Ok c, x2, e2)" "shows_as e2 k2 V2" using c(1) e1(2) unfolding truns_def by blast
  have "txn_commit G x1 e1 = Some (Ok c, snd (take_guard (x2, e2)))"
    using ok(3,4) e2(1) by (simp add: txn_commit_def consume_def andThen_def ensure_not_timed_out_def of_txn_def gets_def lift_def)
  then have "engine_put G key value e = Some (Ok c, snd (take_guard (x2, e2)))"
    using key val begin_run(2) [OF s(1)] e1(1) by (simp add: engine_put_def check_key_def in_rw_def andThen_def lift_def)
  then show ?thesis using take_guard_shows [OF e2(2) inv, of x2] lt w(1) unfolding holds_shows by auto
qed

end

end
