(* ===== verification/Engine_Init.thy ===== *)
theory Engine_Init
  imports Engine_Correct
begin

text \<open>
  The start of the in-process engine: on an empty store it makes the first pages, commits them and writes the catalog, and is then an
  engine without rows. The commit of pages that belong to no row is shown on the way.
\<close>

text \<open>The environment of the in-process engine over LRU lists; the order of the indexes and what happens in a sleep are left open.\<close>

definition inprocess_env :: "(index_manager \<Rightarrow> index_state list) \<Rightarrow> (u64 \<Rightarrow> nat \<Rightarrow> ((u64, bytes) list_lru, inprocess) engine \<Rightarrow> bool \<times> ((u64, bytes) list_lru, inprocess) engine)
    \<Rightarrow> ((u64, bytes) list_lru, inprocess) engine_env" where
  "inprocess_env order sleep = \<lparr>ee_lru = list_lru_ops, ee_backend = inprocess_backend, ee_scan = None, ee_order = order, ee_sleep = sleep\<rparr>"

definition sample_env :: "((u64, bytes) list_lru, inprocess) engine_env" where
  "sample_env = inprocess_env name_order (\<lambda>_ _ e. (False, e))"

definition sample_pages :: "u64 set" where
  "sample_pages = {0, 8, 9} \<union> {10, UNDO_BASE}"

definition sample_reserved :: "u64 set" where
  "sample_reserved = {0, 8, 9} \<union> - {10, UNDO_BASE} \<union> {q. UNDO_BASE \<le> q}"

context engine_pages
begin

text \<open>A commit of staged pages alone adds the metadata page to them.\<close>

lemma truns_commit_pages:
  assumes k: "calm k V" and D: "om_wf (tx_dirty x)" "\<forall>q p. om_lookup (tx_dirty x) q = Some p \<longrightarrow> V q = Some p \<and> length p = PAGE_SIZE"
    and mp: "V 0 = Some page" "meta_decode page = Ok meta" "meta_ok A V meta"
    and x: "tx_bptree_dirty x = []" "tx_modified x = []" "tx_secondary_mutations x = []" "tx_undo_segment_first_page_id x = None" "tx_undo_txn_id x = Some t" "t \<noteq> 0"
    and lsn: "unat (ip_next_lsn (en_world k)) + length (tx_dirty x) + 1 < 2 ^ 64"
  shows "\<exists>page' m c. truns (commit_rw G) x k V c x
      (remove_pending_txn t (with_world ((en_world k)\<lparr>ip_next_lsn := c, ip_pages := ip_pages (en_world k) ++ om_lookup m,
        ip_durable_lsn := max (ip_durable_lsn (en_world k)) c\<rparr>) k)) (V(0 \<mapsto> page'))
    \<and> m = om_insert 0 page' (tx_dirty x) \<and> c = ip_next_lsn (en_world k) + word_of_nat (length m) \<and> meta_decode page' = Ok (with_tree_ids k meta)"
proof -
  let ?m = "with_tree_ids k meta"
  obtain page' where p: "meta_encode ?m = Ok page'" "meta_decode page' = Ok ?m" "length page' = PAGE_SIZE" using meta_ok_encode [of A V ?m] mp(3) by auto
  define m where "m = om_insert 0 page' (tx_dirty x)"
  define n where "n = length m"
  have wf: "om_wf m" using D(1) by (simp add: m_def om_wf_insert)
  have "m \<noteq> []" using fst_set_om_insert [of 0 page' "tx_dirty x"] by (auto simp: m_def)
  then have n: "0 < n" "n \<le> length (tx_dirty x) + 1" using om_insert_length_le [of 0 page' "tx_dirty x"] by (auto simp: n_def m_def)
  define w0 where "w0 = en_world k"
  define c where "c = ip_next_lsn w0 + word_of_nat n"
  define k1 where "k1 = with_world (w0\<lparr>ip_next_lsn := c\<rparr>) k"
  have bm: "truns (commit_base_meta G) x k V meta x k V"
  proof (cases "om_lookup (tx_dirty x) 0")
    case None
    show ?thesis unfolding commit_base_meta_def
      by (rule truns_then [OF truns_get], unfold None option.case, rule truns_then [OF truns_cached]) (simp add: mp truns_ret)
  next
    case (Some q)
    then have "q = page" using D(2) mp(1) by auto
    then show ?thesis unfolding commit_base_meta_def by (intro truns_then [OF truns_get]) (simp add: Some mp(2) truns_ret)
  qed
  have ot: "truns (stage_old_tail G meta) x k V () x k V"
    unfolding stage_old_tail_def by (rule truns_then [OF truns_get], unfold id_apply Let_def, subst if_not_P, use x(4) in blast) (rule truns_ret)
  have id: "truns (commit_request_id G) x k V t x k V"
    unfolding commit_request_id_def by (rule truns_then [OF truns_get], unfold x(5) option.case, rule truns_ret)
  have ks: "truns (of_txn (\<lambda>x. map fst (tx_modified x))) x k V [] x k V" by (rule truns_of_txn) (simp add: x)
  have fe: "truns (for_each (prestamp_key G t) []) x k V () x k V" by (simp add: truns_ret)
  have mg: "truns (on_txn merge_bptree_dirty) x k V () x k V"
    using truns_on_txn [of merge_bptree_dirty x k V] x(1) by (simp add: merge_bptree_dirty_def)
  have en: "truns (on_engine (gets (\<lambda>e. meta_encode (with_tree_ids e meta)))) x k V (Ok page') x k V"
    using truns_gets [of k "\<lambda>e. meta_encode (with_tree_ids e meta)" x V] tree_ids_no_cache p(1) by metis
  have ps: "truns (commit_page_set G meta) x k V m x k V"
    unfolding commit_page_set_def m_def
    by (rule truns_then [OF truns_get], unfold id_apply x(4) option.case, rule truns_then [OF truns_ret], rule truns_then [OF en],
        rule truns_then [OF truns_ret], rule truns_ret)
  have rn: "truns (commit_reserve_n G m) x k V n x k V"
  proof -
    have mx: "max (length m) 1 = n" using n(1) unfolding n_def by (intro max.absorb1) linarith
    show ?thesis unfolding commit_reserve_n_def by (rule truns_then [OF truns_get], subst if_P [OF x(3)], unfold mx, rule truns_ret)
  qed
  have rv: "truns (on_engine (on_world (\<lambda>w. be_reserve (ee_backend G) w n t))) x k V (ip_next_lsn w0, c) x k1 V"
    using truns_reserve [OF n(1) x(6), of k x V] n(2) lsn by (simp add: c_def w0_def k1_def)
  have st: "truns (stamp_rows G t c m) x k1 V m x k1 V"
    unfolding stamp_rows_def by (rule truns_then [OF truns_get]) (simp add: x(2) truns_ret)
  have ti: "with_tree_ids k1 meta = ?m" by (simp add: k1_def)
  have mt: "truns (on_engine (gets (\<lambda>e. with_tree_ids e meta))) x k1 V ?m x k1 V"
    using truns_gets [of k1 "\<lambda>e. with_tree_ids e meta" x V] tree_ids_no_cache ti by metis
  have sg: "truns (commit_segment G t (ip_next_lsn w0) c (mp_undo_history_tail meta) ?m m) x k1 V (?m, m) x k1 V"
    unfolding commit_segment_def by (rule truns_then [OF truns_get]) (simp add: x(4) truns_ret)
  have m0: "om_insert 0 page' m = m"
    by (rule om_ext) (auto simp: m_def om_wf_insert D(1) om_lookup_insert)
  have lg: "truns (commit_log G c (om_insert 0 page' m)) x k1 V (m, en_posting_log k1) x k1 V" unfolding m0 by (rule truns_log [OF x(3)])
  have w1: "en_world k1 = w0\<lparr>ip_next_lsn := c\<rparr>" by (simp add: k1_def)
  define w where "w = (en_world k1)\<lparr>ip_pages := ip_pages (en_world k1) ++ om_lookup m, ip_durable_lsn := max (ip_durable_lsn (en_world k1)) c\<rparr>"
  have sz: "\<forall>q p. om_lookup m q = Some p \<longrightarrow> length p = PAGE_SIZE \<and> V q \<noteq> None"
    using D(2) p(3) mp(1) by (auto simp: m_def om_lookup_insert fun_upd_apply)
  note fin = truns_finish [OF wf sz x(3) w_def, of t "ip_next_lsn w0"]
  have "V ++ om_lookup m = V(0 \<mapsto> page')" using D(2) by (auto simp: m_def om_lookup_insert fun_eq_iff map_add_def fun_upd_apply split: option.splits)
  note fin = fin [unfolded this]
  have "truns (commit_rw G) x k V c x (remove_pending_txn t (with_world w k1)) (V(0 \<mapsto> page'))"
    unfolding commit_rw_def
    apply (rule truns_then [OF bm], rule truns_then [OF ot], rule truns_then [OF id], rule truns_then [OF ks], rule truns_then [OF fe], rule truns_then [OF mg])
    apply (rule truns_then [OF ps], rule truns_then [OF rn], rule truns_then [OF rv], unfold prod.case, rule truns_then [OF st], rule truns_then [OF mt])
    apply (rule truns_then [OF sg], unfold prod.case, rule truns_then [OF truns_lift [OF p(1)]], rule truns_then [OF lg], unfold prod.case n_def [symmetric])
    apply (subst if_not_P, simp, rule fin)
    done
  moreover have "with_world w k1 = with_world (w0\<lparr>ip_next_lsn := c, ip_pages := ip_pages w0 ++ om_lookup m, ip_durable_lsn := max (ip_durable_lsn w0) c\<rparr>) k"
    by (simp add: w_def w1 k1_def)
  ultimately show ?thesis using p(2) unfolding w0_def m_def n_def c_def by auto
qed

section \<open>The first pages\<close>

lemma runs_set_root:
  assumes "tp_dirty (en_provider k) = None" and "tp_btree_meta_page_id (en_provider k) = 8"
  shows "runs (engine_set_root G pid) k V () (set_provider ((en_provider k)\<lparr>tp_root := pid\<rparr>) k) (V(8 \<mapsto> btree_meta_page pid))"
  unfolding runs_def
proof (intro allI impI)
  fix e assume e: "shows_as e k V"
  have s: "tp_dirty (en_provider e) = None" "tp_btree_meta_page_id (en_provider e) = 8" using e assms by (auto simp: shows_as_def)
  let ?c = "cache_insert L (en_cache e) 8 (btree_meta_page pid)"
  have c: "view_of pages ?c = V(8 \<mapsto> btree_meta_page pid)" "cache_room pages cap U ?c"
    using cache_insert_ok [of U "en_cache e" 8 "btree_meta_page pid"] e fixed_ids by (auto simp: shows_as_def)
  have "engine_set_root G pid e = Some (Ok (), set_provider ((en_provider e)\<lparr>tp_root := pid, tp_pages := ?c\<rparr>) e)"
    using s by (simp add: engine_set_root_def on_provider_def on_tree_def txn_set_root_page_id_def note_dirty_def lru Let_def set_provider_def en_provider_def en_cache_def)
  moreover have "shows_as (set_provider ((en_provider e)\<lparr>tp_root := pid, tp_pages := ?c\<rparr>) e) (set_provider ((en_provider k)\<lparr>tp_root := pid\<rparr>) k) (V(8 \<mapsto> btree_meta_page pid))"
    using c e by (auto simp: shows_as_def with_cache_def set_provider_def en_provider_def en_cache_def)
  ultimately show "\<exists>e'. engine_set_root G pid e = Some (Ok (), e') \<and> shows_as e' (set_provider ((en_provider k)\<lparr>tp_root := pid\<rparr>) k) (V(8 \<mapsto> btree_meta_page pid))"
    by blast
qed

lemma runs_set_next: "runs (engine_set_next_page_id n) k V () (set_provider ((en_provider k)\<lparr>tp_next_page_id := n\<rparr>) k) V"
  unfolding runs_def
  by (auto simp: engine_set_next_page_id_def on_provider_def on_tree_def txn_set_next_page_id_def shows_as_def with_cache_def set_provider_def en_provider_def en_cache_def)

lemma initial_meta_ok: "meta_ok {} V initial_meta"
  by (simp add: meta_ok_def initial_meta_def)

lemma truns_init_pages:
  assumes k: "tp_dirty (en_provider k) = None" "tp_btree_meta_page_id (en_provider k) = 8" and x: "\<not> tx_read_only x" "tx_dirty x = []" and u: "10 \<in> U"
  shows "\<exists>mp bm rp. truns (init_pages G) x k Map.empty () (x\<lparr>tx_dirty := [(0, mp), (8, bm), (10, rp)]\<rparr>)
      (set_provider ((en_provider k)\<lparr>tp_root := 10, tp_next_page_id := 11\<rparr>) k) [0 \<mapsto> mp, 8 \<mapsto> bm, 10 \<mapsto> rp]
    \<and> meta_decode mp = Ok initial_meta \<and> length mp = PAGE_SIZE \<and> length bm = PAGE_SIZE \<and> bt_new_page PAGE_TYPE_LEAF 0 = Ok rp \<and> length rp = PAGE_SIZE"
proof -
  obtain mp where mp: "meta_encode initial_meta = Ok mp" "meta_decode mp = Ok initial_meta" "length mp = PAGE_SIZE" using meta_ok_encode [OF initial_meta_ok] by blast
  obtain rp where rp: "bt_new_page PAGE_TYPE_LEAF 0 = Ok rp" "length rp = PAGE_SIZE" using bt_new_page_ok [of 2 0] by (auto simp: bt_page_def)
  obtain bm where bm: "btree_meta_encode \<lparr>bm_root_page_id = 10\<rparr> = Ok bm" "length bm = PAGE_SIZE"
    using btree_meta_decode_encode [of "\<lparr>bm_root_page_id = 10\<rparr>"] by (auto simp: res_bind_Ok_iff btree_meta_decode_def split: if_splits)
  define k1 where "k1 = set_provider ((en_provider k)\<lparr>tp_root := 10\<rparr>) k"
  define k2 where "k2 = set_provider ((en_provider k1)\<lparr>tp_next_page_id := 11\<rparr>) k1"
  define V1 :: "u64 \<rightharpoonup> bytes" where "V1 = [8 \<mapsto> btree_meta_page 10]"
  define x1 x2 x3 where "x1 = x\<lparr>tx_dirty := [(10, rp)]\<rparr>" and "x2 = x\<lparr>tx_dirty := [(8, bm), (10, rp)]\<rparr>" and "x3 = x\<lparr>tx_dirty := [(0, mp), (8, bm), (10, rp)]\<rparr>"
  have a: "truns (on_engine (engine_set_root G 10)) x k Map.empty () x k1 V1" unfolding k1_def V1_def by (rule truns_engine [OF runs_set_root [OF k]])
  have b: "truns (on_engine (engine_set_next_page_id 11)) x k1 V1 () x k2 V1" unfolding k2_def by (rule truns_engine [OF runs_set_next])
  have c: "truns (txn_stage_page G 10 rp) x k2 V1 () x1 k2 (V1(10 \<mapsto> rp))" using truns_stage [OF x(1) u, of rp k2 V1] x(2) by (simp add: x1_def)
  have d: "truns (txn_stage_page G 8 bm) x1 k2 (V1(10 \<mapsto> rp)) () x2 k2 (V1(10 \<mapsto> rp, 8 \<mapsto> bm))"
    using truns_stage [of x1 8 bm k2 "V1(10 \<mapsto> rp)"] x(1) fixed_ids by (simp add: x1_def x2_def)
  have e: "truns (txn_stage_page G 0 mp) x2 k2 (V1(10 \<mapsto> rp, 8 \<mapsto> bm)) () x3 k2 (V1(10 \<mapsto> rp, 8 \<mapsto> bm, 0 \<mapsto> mp))"
    using truns_stage [of x2 0 mp k2 "V1(10 \<mapsto> rp, 8 \<mapsto> bm)"] x(1) fixed_ids by (simp add: x2_def x3_def)
  have eleven: "(10 :: u64) + 1 = 11" by simp
  have "truns (init_pages G) x k Map.empty () x3 k2 (V1(10 \<mapsto> rp, 8 \<mapsto> bm, 0 \<mapsto> mp))"
    unfolding init_pages_def eleven
    by (rule truns_then [OF a], rule truns_then [OF b], rule truns_then [OF truns_lift [OF rp(1)]], rule truns_then [OF c],
        rule truns_then [OF truns_lift [OF bm(1)]], rule truns_then [OF d], rule truns_then [OF truns_lift [OF mp(1)]], rule e)
  moreover have "V1(10 \<mapsto> rp, 8 \<mapsto> bm, 0 \<mapsto> mp) = [0 \<mapsto> mp, 8 \<mapsto> bm, 10 \<mapsto> rp]" by (auto simp: V1_def fun_eq_iff fun_upd_apply)
  moreover have "k2 = set_provider ((en_provider k)\<lparr>tp_root := 10, tp_next_page_id := 11\<rparr>) k" by (simp add: k2_def k1_def)
  ultimately show ?thesis using mp(2,3) bm(2) rp unfolding x3_def by metis
qed

section \<open>Calls as a whole\<close>

lemma take_guard_runs: "shows_as e k V \<Longrightarrow> shows_as (snd (take_guard (x, e))) (snd (take_guard (x, k))) V"
proof -
  assume e: "shows_as e k V"
  then have "en_active_reads e = en_active_reads k" by (auto simp: shows_as_def)
  then show ?thesis using shows_guard [OF e] e by (auto simp: take_guard_def split: option.splits)
qed

lemma runs_in_rw:
  assumes "truns m (new_txn False k) (begun False k) V () x1 k1 V1" and "truns (commit_rw G) x1 k1 V1 c x2 k2 V2" and "tx_timeout x1 = None" and "\<not> tx_read_only x1"
  shows "runs (in_rw G m) k V c (snd (take_guard (x2, k2))) V2"
  unfolding runs_def
proof (intro allI impI)
  fix e assume e: "shows_as e k V"
  obtain e1 where e1: "m (new_txn False k, begun False e) = Some (Ok (), x1, e1)" "shows_as e1 k1 V1"
    using assms(1) begun_shows [OF e, of False] unfolding truns_def by blast
  obtain e2 where e2: "commit_rw G (x1, e1) = Some (Ok c, x2, e2)" "shows_as e2 k2 V2" using assms(2) e1(2) unfolding truns_def by blast
  have "txn_commit G x1 e1 = Some (Ok c, snd (take_guard (x2, e2)))"
    using assms(3,4) e2(1) by (simp add: txn_commit_def consume_def andThen_def ensure_not_timed_out_def of_txn_def gets_def lift_def)
  then have "in_rw G m e = Some (Ok c, snd (take_guard (x2, e2)))" using begin_run(2) [OF e] e1(1) by (simp add: in_rw_def andThen_def)
  then show "\<exists>e'. in_rw G m e = Some (Ok c, e') \<and> shows_as e' (snd (take_guard (x2, k2))) V2" using take_guard_runs [OF e2(2), of x2] by blast
qed

lemma runs_write_direct:
  assumes "p \<in> U" and "length page = PAGE_SIZE" and "ip_request_id (en_world k) \<noteq> 0" and "unat (ip_next_lsn (en_world k)) + 1 < 2 ^ 64"
  shows "runs (write_pages_direct G [(p, page)]) k V (ip_next_lsn (en_world k) + 1)
    (with_world \<lparr>ip_pages = (ip_pages (en_world k))(p \<mapsto> page), ip_next_lsn = ip_next_lsn (en_world k) + 1, ip_request_id = ip_request_id (en_world k) + 1,
       ip_durable_lsn = max (ip_durable_lsn (en_world k)) (ip_next_lsn (en_world k) + 1)\<rparr> k) (V(p \<mapsto> page))"
proof -
  let ?w = "en_world k" let ?c = "ip_next_lsn ?w + 1"
  define k1 where "k1 = with_world (?w\<lparr>ip_request_id := ip_request_id ?w + 1, ip_next_lsn := ?c\<rparr>) k"
  have rs: "runs (reserve_txn G 1) k V (ip_request_id ?w, ip_next_lsn ?w, ?c) k1 V"
    unfolding runs_def k1_def using assms(3,4)
    by (auto simp: reserve_txn_def on_world_def on_provider_def on_tree_def andThen_def lift_def store inprocess_backend_def inprocess_reserve_def chk_add_def Let_def
        be_reserve_txn_def inprocess_allocate_request_id_def
        shows_as_def with_world_def with_cache_def set_provider_def en_provider_def en_cache_def en_world_def split: prod.splits)
  have w1: "en_world k1 = ?w\<lparr>ip_request_id := ip_request_id ?w + 1, ip_next_lsn := ?c\<rparr>" by (simp add: k1_def)
  define w where "w = (en_world k1)\<lparr>ip_pages := ip_pages (en_world k1) ++ om_lookup [(p, page)], ip_durable_lsn := max (ip_durable_lsn (en_world k1)) ?c\<rparr>"
  have lk: "om_lookup [(p, page)] = [p \<mapsto> page]" by (simp add: om_lookup_map_of)
  have cm: "runs (commit_pages_reserved G (ip_request_id ?w) (ip_next_lsn ?w) ?c [(p, page)]) k1 V ?c (with_world w k1) (V(p \<mapsto> page))"
    using runs_commit_reserved [of "[(p, page)]" V w k1 ?c "ip_request_id ?w" "ip_next_lsn ?w"] assms(1,2) by (simp add: lk w_def om_wf_def fun_upd_apply)
  have "runs (write_pages_direct G [(p, page)]) k V ?c (with_world w k1) (V(p \<mapsto> page))"
    unfolding write_pages_direct_def by (subst if_not_P, simp, rule runs_then, use rs in simp) (use cm in simp)
  moreover have "with_world w k1 = with_world \<lparr>ip_pages = (ip_pages ?w)(p \<mapsto> page), ip_next_lsn = ?c, ip_request_id = ip_request_id ?w + 1,
      ip_durable_lsn = max (ip_durable_lsn ?w) ?c\<rparr> k"
  proof -
    have "w = \<lparr>ip_pages = (ip_pages ?w)(p \<mapsto> page), ip_next_lsn = ?c, ip_request_id = ip_request_id ?w + 1, ip_durable_lsn = max (ip_durable_lsn ?w) ?c\<rparr>"
      unfolding w_def w1 lk by simp
    then show ?thesis by (simp add: k1_def)
  qed
  ultimately show ?thesis by simp
qed

section \<open>An empty engine\<close>

lemma empty_leaf:
  assumes "bt_new_page PAGE_TYPE_LEAF 0 = Ok rp" and "V 10 = Some rp" and "10 \<notin> R" and "tp_root (en_provider k) = 10" and "tp_next_page_id (en_provider k) = 11" and "bt_len (en_tree k) = 0"
  shows "tree_inv R (vis_of R k V) (Lf 10 [])"
proof -
  obtain h where p: "bt_page rp h []" "bh_page_type h = 2" "bh_next_leaf h = None" "bh_high_key h = None" using bt_new_page_ok [of 2 0] assms(1) by force
  have "leaf_page (V |` (- R)) 10 None None []" unfolding leaf_page_def using p assms(2,3) by auto
  then have "\<exists>hk. hk_ok hk None \<and> leaf_page (V |` (- R)) 10 hk None []" using hk_ok_refl by blast
  then show ?thesis using assms(3-6) by (auto simp: tree_inv_def safe_def vis_of_def)
qed

lemma empty_inv:
  assumes "calm k V" and "tree_inv R (vis_of R k V) (Lf 10 [])" and "ip_pages (en_world k) = V" and "ip_durable_lsn (en_world k) = ip_next_lsn (en_world k)"
    and "V 0 = Some page" and "meta_decode page = Ok initial_meta"
  shows "engine_inv R k V (Lf 10 []) Map.empty"
  unfolding engine_inv_def using assms initial_meta_ok by (auto simp: holds_rows_def)

lemma new_engine_shows:
  assumes "\<forall>i < 64. card {q \<in> U. unat q mod 64 = i} \<le> max (div_ceil (max (env_or cp 8192) 1) 64) 1"
  shows "\<exists>k. shows_as (engine_new G cp rt now w) k Map.empty \<and> en_world k = w \<and> tp_dirty (en_provider k) = None \<and> tp_pages (en_provider k) = no_cache
    \<and> tp_btree_meta_page_id (en_provider k) = 8 \<and> en_indexes k = Map.empty \<and> en_posting_log k = plog_default \<and> bt_len (en_tree k) = 0"
proof -
  let ?e = "engine_new G cp rt now w" let ?n = "max (div_ceil (max (env_or cp 8192) 1) 64) 1"
  have "pc_shards (en_cache ?e) = replicate 64 (lru_new L ?n)"
    by (simp add: engine_new_def en_cache_def en_provider_def txn_provider_new_def cache_new_with_capacity_def lru)
  then have "cache_room pages cap U (en_cache ?e) \<and> view_of pages (en_cache ?e) = Map.empty"
    using cache_new_room [of 64 ?n U "en_cache ?e"] assms by auto
  then have "shows_as ?e (with_cache no_cache ?e) Map.empty" by (simp add: shows_as_def)
  moreover have "en_world (with_cache no_cache ?e) = w" "tp_dirty (en_provider (with_cache no_cache ?e)) = None" "tp_btree_meta_page_id (en_provider (with_cache no_cache ?e)) = 8"
    "en_indexes (with_cache no_cache ?e) = Map.empty" "en_posting_log (with_cache no_cache ?e) = plog_default" "bt_len (en_tree (with_cache no_cache ?e)) = 0"
    by (simp_all add: en_world_def) (simp_all add: engine_new_def en_provider_def txn_provider_new_def)
  ultimately show ?thesis by (intro exI [of _ "with_cache no_cache ?e"]) simp
qed

lemma runs_persist_empty:
  assumes "ee_order G Map.empty = []" and "en_indexes k = Map.empty" and "en_posting_log k = plog_default"
    and "ip_request_id (en_world k) \<noteq> 0" and "unat (ip_next_lsn (en_world k)) + 1 < 2 ^ 64"
  shows "\<exists>page. runs (persist_secondary_index_catalog G) k V ()
    (with_world \<lparr>ip_pages = (ip_pages (en_world k))(9 \<mapsto> page), ip_next_lsn = ip_next_lsn (en_world k) + 1, ip_request_id = ip_request_id (en_world k) + 1,
       ip_durable_lsn = max (ip_durable_lsn (en_world k)) (ip_next_lsn (en_world k) + 1)\<rparr> k) (V(9 \<mapsto> page))"
proof -
  obtain page where p: "encode_secondary_index_catalog \<lparr>ic_defs = [], ic_posting_log = plog_default\<rparr> = Ok page" "length page = PAGE_SIZE"
    using catalog_written [of "\<lparr>ic_defs = [], ic_posting_log = plog_default\<rparr>"] by (auto simp: plog_default_def)
  have g: "runs (gets (\<lambda>e. catalog_page G (en_posting_log e) e)) k V (Ok page) k V"
    using assms(1-3) p(1) by (intro runs_gets) (auto simp: catalog_page_def list_indexes_def)
  have "9 \<in> U" using fixed_ids by simp
  note w = runs_write_direct [OF this p(2) assms(4,5), of V]
  show ?thesis unfolding persist_secondary_index_catalog_def
    by (rule exI [of _ page], rule runs_then [OF g], rule runs_then [OF runs_ret], rule runs_then [OF w], rule runs_ret)
qed

lemma runs_init:
  assumes k: "en_world k = inprocess_new r" "tp_dirty (en_provider k) = None" "tp_pages (en_provider k) = no_cache" "tp_btree_meta_page_id (en_provider k) = 8"
      "en_indexes k = Map.empty" "en_posting_log k = plog_default" "bt_len (en_tree k) = 0"
    and o: "ee_order G Map.empty = []" and u: "10 \<in> U" "10 \<notin> R" and r: "r \<noteq> - 1"
  shows "\<exists>k' V page. runs (init_engine G) k Map.empty () k' V \<and> engine_inv R k' V (Lf 10 []) Map.empty \<and> V 0 = Some page \<and> meta_decode page = Ok initial_meta
    \<and> en_indexes k' = Map.empty \<and> ip_next_lsn (en_world k') = 4 \<and> ip_request_id (en_world k') = nonzero_seed r + 2"
proof -
  let ?x = "new_txn False k" let ?b = "begun False k" let ?t = "nonzero_seed r"
  have t: "?t \<noteq> 0" "?t + 1 \<noteq> 0" using r by (auto simp: nonzero_seed_def eq_neg_iff_add_eq_0)
  have b: "tp_dirty (en_provider ?b) = None" "tp_btree_meta_page_id (en_provider ?b) = 8" "tp_pages (en_provider ?b) = no_cache"
    "en_world ?b = (inprocess_new r)\<lparr>ip_request_id := ?t + 1\<rparr>" "bt_len (en_tree ?b) = 0" "en_indexes ?b = Map.empty" "en_posting_log ?b = plog_default"
    using k by (simp_all add: begun_def Let_def set_provider_def en_provider_def en_world_def inprocess_new_def)
  have x: "\<not> tx_read_only ?x" "tx_dirty ?x = []" by (simp_all add: new_txn_def)
  obtain mp bm rp where i: "truns (init_pages G) ?x ?b Map.empty () (?x\<lparr>tx_dirty := [(0, mp), (8, bm), (10, rp)]\<rparr>)
      (set_provider ((en_provider ?b)\<lparr>tp_root := 10, tp_next_page_id := 11\<rparr>) ?b) [0 \<mapsto> mp, 8 \<mapsto> bm, 10 \<mapsto> rp]"
    "meta_decode mp = Ok initial_meta" "length mp = PAGE_SIZE" "length bm = PAGE_SIZE" "bt_new_page PAGE_TYPE_LEAF 0 = Ok rp" "length rp = PAGE_SIZE"
    using truns_init_pages [OF b(1,2) x u(1)] by blast
  define x1 k1 where "x1 = ?x\<lparr>tx_dirty := [(0, mp), (8, bm), (10, rp)]\<rparr>" and "k1 = set_provider ((en_provider ?b)\<lparr>tp_root := 10, tp_next_page_id := 11\<rparr>) ?b"
  define V1 :: "u64 \<rightharpoonup> bytes" where "V1 = [0 \<mapsto> mp, 8 \<mapsto> bm, 10 \<mapsto> rp]"
  have k1: "en_world k1 = (inprocess_new r)\<lparr>ip_request_id := ?t + 1\<rparr>" "en_indexes k1 = Map.empty" "en_posting_log k1 = plog_default" "bt_len (en_tree k1) = 0"
    "tp_root (en_provider k1) = 10" "tp_next_page_id (en_provider k1) = 11" "tp_dirty (en_provider k1) = None" "tp_pages (en_provider k1) = no_cache"
    using b by (simp_all add: k1_def set_provider_def en_provider_def en_world_def)
  have c1: "calm k1 V1" using k1(1,7,8) by (simp add: calm_def en_world_def inprocess_new_def)
  have x1: "tx_dirty x1 = [(0, mp), (8, bm), (10, rp)]" "tx_bptree_dirty x1 = []" "tx_modified x1 = []" "tx_secondary_mutations x1 = []"
    "tx_undo_segment_first_page_id x1 = None" "tx_undo_txn_id x1 = Some ?t" "tx_timeout x1 = None" "\<not> tx_read_only x1"
    using k(1) by (simp_all add: x1_def new_txn_def inprocess_new_def)
  have D: "om_wf (tx_dirty x1)" "\<forall>q p. om_lookup (tx_dirty x1) q = Some p \<longrightarrow> V1 q = Some p \<and> length p = PAGE_SIZE"
    using i(3,4,6) by (auto simp: x1(1) V1_def om_wf_def om_lookup_def fun_upd_apply split: if_splits)
  have lsn: "unat (ip_next_lsn (en_world k1)) + length (tx_dirty x1) + 1 < 2 ^ 64" by (simp add: k1(1) x1(1) inprocess_new_def)
  have V10: "V1 0 = Some mp" by (simp add: V1_def fun_upd_apply)
  obtain page m c where p: "truns (commit_rw G) x1 k1 V1 c x1
      (remove_pending_txn ?t (with_world ((en_world k1)\<lparr>ip_next_lsn := c, ip_pages := ip_pages (en_world k1) ++ om_lookup m,
        ip_durable_lsn := max (ip_durable_lsn (en_world k1)) c\<rparr>) k1)) (V1(0 \<mapsto> page))"
    "m = om_insert 0 page (tx_dirty x1)" "c = ip_next_lsn (en_world k1) + word_of_nat (length m)" "meta_decode page = Ok (with_tree_ids k1 initial_meta)"
    using truns_commit_pages [OF c1 D V10 i(2) initial_meta_ok x1(2-6) t(1) lsn] by blast
  have m: "om_lookup m = [0 \<mapsto> page, 8 \<mapsto> bm, 10 \<mapsto> rp]" "c = 3"
    using p(3) by (simp_all add: p(2) x1(1) k1(1) inprocess_new_def om_lookup_map_of) (auto simp: fun_eq_iff fun_upd_apply)
  define w2 where "w2 = \<lparr>ip_pages = [0 \<mapsto> page, 8 \<mapsto> bm, 10 \<mapsto> rp], ip_next_lsn = 3, ip_request_id = ?t + 1, ip_durable_lsn = 3\<rparr>"
  have w2: "(en_world k1)\<lparr>ip_next_lsn := c, ip_pages := ip_pages (en_world k1) ++ om_lookup m, ip_durable_lsn := max (ip_durable_lsn (en_world k1)) c\<rparr> = w2"
    by (simp add: k1(1) m inprocess_new_def w2_def)
  have V2: "V1(0 \<mapsto> page) = [0 \<mapsto> page, 8 \<mapsto> bm, 10 \<mapsto> rp]" by (auto simp: V1_def fun_eq_iff fun_upd_apply)
  define k2 where "k2 = snd (take_guard (x1, remove_pending_txn ?t (with_world w2 k1)))"
  have rw: "runs (in_rw G (init_pages G)) k Map.empty c k2 [0 \<mapsto> page, 8 \<mapsto> bm, 10 \<mapsto> rp]"
    using runs_in_rw [OF i(1) [folded x1_def k1_def V1_def] p(1) x1(7,8)] unfolding w2 V2 k2_def .
  have k2: "en_world k2 = w2" "en_posting_log k2 = plog_default" "bt_len (en_tree k2) = 0" "tp_root (en_provider k2) = 10" "tp_next_page_id (en_provider k2) = 11"
    "tp_dirty (en_provider k2) = None" "tp_pages (en_provider k2) = no_cache"
    using k1(2-8) by (auto simp: k2_def take_guard_def remove_pending_txn_def with_world_def set_provider_def en_provider_def en_world_def split: option.splits)
  define k3 where "k3 = k2\<lparr>en_indexes := Map.empty\<rparr>"
  have k3: "en_world k3 = w2" "en_posting_log k3 = plog_default" "en_indexes k3 = Map.empty" using k2(1,2) by (simp_all add: k3_def en_world_def en_provider_def)
  let ?V2 = "[0 \<mapsto> page, 8 \<mapsto> bm, 10 \<mapsto> rp] :: u64 \<rightharpoonup> bytes"
  have rd: "runs (engine_replace_definitions []) k2 ?V2 () k3 ?V2"
    by (auto simp: runs_def engine_replace_definitions_def update_res_def replace_definitions_def k3_def shows_as_def with_cache_def set_provider_def en_provider_def en_cache_def)
  have "ip_request_id (en_world k3) \<noteq> 0" "unat (ip_next_lsn (en_world k3)) + 1 < 2 ^ 64" using t(2) by (simp_all add: k3(1) w2_def)
  from runs_persist_empty [OF o k3(3,2) this, of ?V2] obtain cp where pe: "runs (persist_secondary_index_catalog G) k3 ?V2 ()
    (with_world \<lparr>ip_pages = (ip_pages w2)(9 \<mapsto> cp), ip_next_lsn = ip_next_lsn w2 + 1, ip_request_id = ip_request_id w2 + 1,
       ip_durable_lsn = max (ip_durable_lsn w2) (ip_next_lsn w2 + 1)\<rparr> k3) (?V2(9 \<mapsto> cp))" unfolding k3(1) by blast
  define k4 where "k4 = with_world \<lparr>ip_pages = ?V2(9 \<mapsto> cp), ip_next_lsn = 4, ip_request_id = ?t + 2, ip_durable_lsn = 4\<rparr> k3"
  have "runs (persist_secondary_index_catalog G) k3 ?V2 () k4 (?V2(9 \<mapsto> cp))" using pe by (simp add: w2_def k4_def add.assoc)
  then have run: "runs (init_engine G) k Map.empty () k4 (?V2(9 \<mapsto> cp))"
    unfolding init_engine_def by (rule runs_then [OF rw runs_then [OF rd]])
  have k4: "tp_root (en_provider k4) = 10" "tp_next_page_id (en_provider k4) = 11" "bt_len (en_tree k4) = 0"
    using k2(3-5) by (simp_all add: k4_def k3_def with_world_def set_provider_def en_provider_def)
  have q: "(?V2(9 \<mapsto> cp)) 0 = Some page" "(?V2(9 \<mapsto> cp)) 10 = Some rp" by (simp_all add: fun_upd_apply)
  have cm: "calm k4 (?V2(9 \<mapsto> cp))" using k2(6,7) by (simp add: k4_def calm_world k3_def en_provider_def)
  have md: "meta_decode page = Ok initial_meta" using p(4) k1(5,6) by (simp add: with_tree_ids_def initial_meta_def)
  have "engine_inv R k4 (?V2(9 \<mapsto> cp)) (Lf 10 []) Map.empty"
    by (rule empty_inv [OF cm empty_leaf [where rp = rp]]) (use i(5) q u(2) k4 md in \<open>simp_all add: k4_def\<close>)
  moreover have "en_indexes k4 = Map.empty" "ip_next_lsn (en_world k4) = 4" "ip_request_id (en_world k4) = ?t + 2" using k3(3) by (simp_all add: k4_def)
  ultimately show ?thesis using run q(1) md by blast
qed

lemma connect_empty:
  assumes room: "\<forall>i < 64. card {q \<in> U. unat q mod 64 = i} \<le> max (div_ceil (max (env_or cp 8192) 1) 64) 1"
    and o: "ee_order G Map.empty = []" and sc: "ee_scan G = None" and u: "10 \<in> U" "10 \<notin> R" and r: "r \<noteq> - 1"
  shows "\<exists>e page. connect_inprocess G cp rt now r = Some (Ok (), e) \<and> engine_holds pages cap U R e (Lf 10 []) Map.empty
    \<and> view_of pages (en_cache e) 0 = Some page \<and> meta_decode page = Ok initial_meta
    \<and> en_indexes e = Map.empty \<and> ip_next_lsn (en_world e) = 4 \<and> ip_request_id (en_world e) = nonzero_seed r + 2"
proof -
  let ?e = "engine_new G cp rt now (inprocess_new r)"
  obtain k where k: "shows_as ?e k Map.empty" "en_world k = inprocess_new r" "tp_dirty (en_provider k) = None" "tp_pages (en_provider k) = no_cache"
    "tp_btree_meta_page_id (en_provider k) = 8" "en_indexes k = Map.empty" "en_posting_log k = plog_default" "bt_len (en_tree k) = 0"
    using new_engine_shows [OF room] by blast
  obtain k' V page where i: "runs (init_engine G) k Map.empty () k' V" "engine_inv R k' V (Lf 10 []) Map.empty" "V 0 = Some page" "meta_decode page = Ok initial_meta"
    "en_indexes k' = Map.empty" "ip_next_lsn (en_world k') = 4" "ip_request_id (en_world k') = nonzero_seed r + 2"
    using runs_init [OF k(2-8) o u r] by blast
  have wu: "runs (forget (warmup_scan_all G 256)) k Map.empty () k Map.empty"
    by (auto simp: runs_def warmup_scan_all_def sc warmed_pages_def forget_def attempt_def gets_def andThen_def lift_def)
  have "runs (recover_or_init G) k Map.empty () k' V"
    unfolding recover_or_init_def by (rule runs_then [OF wu], rule runs_then, rule runs_cached, rule refl) (use i(1) in simp)
  then obtain e where e: "connect_inprocess G cp rt now r = Some (Ok (), e)" "shows_as e k' V" using k(1) unfolding runs_def connect_inprocess_def by blast
  have "engine_holds pages cap U R e (Lf 10 []) Map.empty" using e(2) i(2) by (auto simp: holds_shows)
  moreover have "view_of pages (en_cache e) = V" "en_indexes e = en_indexes k'" "en_world e = en_world k'" using e(2) by (auto simp: shows_as_def en_world_def)
  ultimately show ?thesis using e(1) i(3-7) by auto
qed

text \<open>A snapshot that was taken before a write does not see it.\<close>

lemma snapshot_before_put:
  assumes h: "engine_holds pages cap U R e b H" and key: "length key = KEY_SIZE" and val: "length value = VALUE_SIZE" and room: "roomy key b"
    and ur: "undo_room U (view_of pages (en_cache e))" and lsn: "unat (ip_next_lsn (en_world e)) + 4 < 2 ^ 64" and id: "ip_request_id (en_world e) \<noteq> 0"
    and plan: "plan_mutations key (map_option (\<lambda>enc. lv_value (leaf_of enc)) (om_lookup (ents b) key)) (Some value) (ee_order G (en_indexes e)) = Ok []"
  shows "\<exists>x e1 lsn e2 x' e3. engine_begin_tx G True None e = Some (Ok x, e1) \<and> engine_put G key value e1 = Some (Ok lsn, e2)
    \<and> txn_get G key (x, e2) = Some (Ok (case H key of Some ((l, v) # _) \<Rightarrow> v | _ \<Rightarrow> None), x', e3)"
proof -
  obtain k V where s: "shows_as e k V" "engine_inv R k V b H" using h by (auto simp: holds_shows)
  let ?e = "begun True e" let ?x = "new_txn True k" let ?hs = "case H key of Some hs \<Rightarrow> hs | None \<Rightarrow> []" let ?r = "ip_durable_lsn (en_world k)"
  have w: "en_world e = en_world k" using s(1) by (auto simp: shows_as_def en_world_def)
  have b: "engine_holds pages cap U R ?e b H" unfolding holds_shows using begun_shows [OF s(1), of True] s(2) begun_inv by blast
  have e: "en_cache ?e = en_cache e" "en_indexes ?e = en_indexes e" "ip_next_lsn (en_world ?e) = ip_next_lsn (en_world e)"
    "ip_request_id (en_world ?e) = ip_request_id (en_world e)" "ip_durable_lsn (en_world ?e) = ?r" using w
    by (simp_all add: begun_def Let_def set_provider_def en_provider_def en_cache_def en_world_def)
  obtain c e2 b2 where p: "engine_put G key value ?e = Some (Ok c, e2)" "?r < c" "engine_holds pages cap U R e2 b2 (H(key \<mapsto> (c, Some value) # ?hs))"
    using put_version [OF b key val room, unfolded e] ur lsn id plan by blast
  have x: "tx_timeout ?x = None" "tx_dirty ?x = []" "tx_ro_cache ?x = []" by (simp_all add: new_txn_def)
  obtain x' e3 where g: "txn_get G key (?x, e2) = Some (Ok (visible_at ?r ((c, Some value) # ?hs)), x', e3)"
    using snapshot_get [OF p(3) key x] by auto
  obtain A where a: "holds_rows V A b H ?r" using s(2) by (auto simp: engine_inv_def)
  have "\<forall>h \<in> set ?hs. fst h \<le> ?r" using a [unfolded holds_rows_def, rule_format, of key] by (fastforce split: option.splits)
  then have "visible_at ?r ((c, Some value) # ?hs) = (case H key of Some ((l, v) # _) \<Rightarrow> v | _ \<Rightarrow> None)"
    using visible_all [of ?hs] p(2) by (auto split: option.splits list.splits)
  then show ?thesis using begin_run(1) [OF s(1)] p(1) g by auto
qed

end

section \<open>The engine over LRU lists\<close>

interpretation ie: engine_pages list_lru_ops ll_pages ll_cap "{0, 8, 9} \<union> W" "{0, 8, 9} \<union> - W \<union> {q. UNDO_BASE \<le> q}" "inprocess_env order sleep" for W order sleep
  by unfold_locales (auto simp: inprocess_env_def)

lemma sample_engine: "engine_pages list_lru_ops ll_pages ll_cap sample_pages sample_reserved sample_env"
  unfolding sample_pages_def sample_reserved_def sample_env_def by (rule ie.engine_pages_axioms)

lemma sample_room: "\<forall>i < 64. card {q \<in> sample_pages. unat q mod 64 = i} \<le> max (div_ceil (max (env_or None 8192) 1) 64) 1"
proof (intro allI impI)
  fix i :: nat
  have "card {q \<in> sample_pages. unat q mod 64 = i} \<le> card sample_pages" by (rule card_mono) (auto simp: sample_pages_def)
  also have "\<dots> \<le> 5" using card_length [of "[0, 8, 9, 10, UNDO_BASE]"] by (simp add: sample_pages_def)
  finally show "card {q \<in> sample_pages. unat q mod 64 = i} \<le> max (div_ceil (max (env_or None 8192) 1) 64) 1" by (simp add: env_or_def div_ceil_def)
qed

lemma sample_hyps: "ee_order sample_env Map.empty = []" "ee_scan sample_env = None" "10 \<in> sample_pages" "10 \<notin> sample_reserved" "(7 :: u64) \<noteq> - 1"
  by (simp_all add: sample_env_def inprocess_env_def name_order_def sample_pages_def sample_reserved_def)

text \<open>A started engine, with what a write asks for.\<close>

lemma sample_start:
  "\<exists>e. connect_inprocess sample_env None None 0 7 = Some (Ok (), e) \<and> engine_holds ll_pages ll_cap sample_pages sample_reserved e (Lf 10 []) Map.empty
    \<and> undo_room sample_pages (view_of ll_pages (en_cache e)) \<and> unat (ip_next_lsn (en_world e)) + 4 < 2 ^ 64 \<and> ip_request_id (en_world e) \<noteq> 0
    \<and> plan_mutations key (map_option (\<lambda>enc. lv_value (leaf_of enc)) (om_lookup (ents (Lf 10 [])) key)) (Some v) (ee_order sample_env (en_indexes e)) = Ok []"
proof -
  obtain e page where e: "connect_inprocess sample_env None None 0 7 = Some (Ok (), e)" "engine_holds ll_pages ll_cap sample_pages sample_reserved e (Lf 10 []) Map.empty"
    "view_of ll_pages (en_cache e) 0 = Some page" "meta_decode page = Ok initial_meta" "en_indexes e = Map.empty" "ip_next_lsn (en_world e) = 4"
    "ip_request_id (en_world e) = nonzero_seed 7 + 2"
    using engine_pages.connect_empty [OF sample_engine sample_room sample_hyps, of None 0] by blast
  have "undo_room sample_pages (view_of ll_pages (en_cache e))" using e(3,4) by (auto simp: undo_room_def initial_meta_def sample_pages_def)
  then show ?thesis using e(1,2,5-7) sample_hyps(1) by (auto simp: nonzero_seed_def)
qed

section \<open>Properties\<close>

text \<open>C9: Connecting the in-process engine to an empty store succeeds and gives an engine without rows: the metadata page, the page of the
B+-tree root, an empty root leaf and the catalog of the indexes are in the cache and in the store, when the cache has room for the pages in
use and the random seed of the request ids is not the largest number.\<close>

theorem connect_starts_empty:
  assumes "engine_pages L pages cap U R G" and "\<forall>i < 64. card {q \<in> U. unat q mod 64 = i} \<le> max (div_ceil (max (env_or cp 8192) 1) 64) 1"
    and "ee_order G Map.empty = []" and "ee_scan G = None" and "10 \<in> U" and "10 \<notin> R" and "r \<noteq> - 1"
  shows "\<exists>e. connect_inprocess G cp rt now r = Some (Ok (), e) \<and> engine_holds pages cap U R e (Lf 10 []) Map.empty \<and> ip_durable_lsn (en_world e) = 4"
proof -
  obtain e where "connect_inprocess G cp rt now r = Some (Ok (), e)" "engine_holds pages cap U R e (Lf 10 []) Map.empty" "ip_next_lsn (en_world e) = 4"
    using engine_pages.connect_empty [OF assms] by blast
  then show ?thesis by (auto simp: engine_holds_def engine_inv_def en_world_def)
qed

theorem connect_starts_empty_witness:
  "\<exists>e. connect_inprocess sample_env None (Some 100) 5 7 = Some (Ok (), e) \<and> engine_holds ll_pages ll_cap sample_pages sample_reserved e (Lf 10 []) Map.empty
    \<and> ip_durable_lsn (en_world e) = 4"
  by (rule connect_starts_empty [OF sample_engine sample_room sample_hyps])

text \<open>C8: A read of the in-process engine returns, and gives the newest committed version of the row (absent when there is none, or when it is
a deletion); the rows stay as they are.\<close>

theorem engine_get_newest:
  assumes "engine_pages L pages cap U R G" and "engine_holds pages cap U R e b H" and "length key = KEY_SIZE"
  shows "\<exists>e'. engine_get G key e = Some (Ok (case H key of Some ((l, v) # _) \<Rightarrow> v | _ \<Rightarrow> None), e') \<and> engine_holds pages cap U R e' b H"
  using engine_pages.get_newest [OF assms] .

theorem engine_get_newest_witness:
  "\<exists>e e1 lsn e2. connect_inprocess sample_env None None 0 7 = Some (Ok (), e) \<and> engine_put sample_env (replicate KEY_SIZE 1) (replicate VALUE_SIZE 2) e = Some (Ok lsn, e1)
    \<and> engine_get sample_env (replicate KEY_SIZE 1) e1 = Some (Ok (Some (replicate VALUE_SIZE 2)), e2)"
proof -
  let ?k = "replicate KEY_SIZE 1 :: bytes" let ?v = "replicate VALUE_SIZE 2 :: bytes"
  obtain e where e: "connect_inprocess sample_env None None 0 7 = Some (Ok (), e)" "engine_holds ll_pages ll_cap sample_pages sample_reserved e (Lf 10 []) Map.empty"
    "undo_room sample_pages (view_of ll_pages (en_cache e))" "unat (ip_next_lsn (en_world e)) + 4 < 2 ^ 64" "ip_request_id (en_world e) \<noteq> 0"
    "plan_mutations ?k (map_option (\<lambda>enc. lv_value (leaf_of enc)) (om_lookup (ents (Lf 10 [])) ?k)) (Some ?v) (ee_order sample_env (en_indexes e)) = Ok []"
    using sample_start [of ?k ?v] by blast
  obtain lsn e1 b where p: "engine_put sample_env ?k ?v e = Some (Ok lsn, e1)" "engine_holds ll_pages ll_cap sample_pages sample_reserved e1 b [?k \<mapsto> [(lsn, Some ?v)]]"
    using engine_pages.put_version [OF sample_engine e(2) _ _ _ e(3-6)] by (auto simp: roomy_def)
  have "\<exists>e2. engine_get sample_env ?k e1 = Some (Ok (Some ?v), e2)" using engine_get_newest [OF sample_engine p(2), of ?k] by auto
  then show ?thesis using e(1) p(1) by blast
qed

text \<open>C2: A write of the in-process engine to a leaf with room, with an undo page for the old row and no index to change, returns the LSN of its
commit. That LSN is above all earlier ones, the value is the newest version of the row with the old versions behind it, the other rows are as
before, and every page of the cache is in the store.\<close>

theorem engine_put_version:
  assumes "engine_pages L pages cap U R G" and "engine_holds pages cap U R e b H" and "length key = KEY_SIZE" and "length value = VALUE_SIZE" and "roomy key b"
    and "undo_room U (view_of pages (en_cache e))" and "unat (ip_next_lsn (en_world e)) + 4 < 2 ^ 64" and "ip_request_id (en_world e) \<noteq> 0"
    and "plan_mutations key (map_option (\<lambda>enc. lv_value (leaf_of enc)) (om_lookup (ents b) key)) (Some value) (ee_order G (en_indexes e)) = Ok []"
  shows "\<exists>lsn e' b'. engine_put G key value e = Some (Ok lsn, e') \<and> ip_durable_lsn (en_world e) < lsn
    \<and> engine_holds pages cap U R e' b' (H(key \<mapsto> (lsn, Some value) # (case H key of Some hs \<Rightarrow> hs | None \<Rightarrow> [])))"
  using engine_pages.put_version [OF assms] .

theorem engine_put_version_witness:
  "\<exists>e lsn e' b'. connect_inprocess sample_env None None 0 7 = Some (Ok (), e) \<and> engine_put sample_env (replicate KEY_SIZE 1) (replicate VALUE_SIZE 2) e = Some (Ok lsn, e')
    \<and> engine_holds ll_pages ll_cap sample_pages sample_reserved e' b' [replicate KEY_SIZE 1 \<mapsto> [(lsn, Some (replicate VALUE_SIZE 2))]]"
proof -
  let ?k = "replicate KEY_SIZE 1 :: bytes" let ?v = "replicate VALUE_SIZE 2 :: bytes"
  obtain e where e: "connect_inprocess sample_env None None 0 7 = Some (Ok (), e)" "engine_holds ll_pages ll_cap sample_pages sample_reserved e (Lf 10 []) Map.empty"
    "undo_room sample_pages (view_of ll_pages (en_cache e))" "unat (ip_next_lsn (en_world e)) + 4 < 2 ^ 64" "ip_request_id (en_world e) \<noteq> 0"
    "plan_mutations ?k (map_option (\<lambda>enc. lv_value (leaf_of enc)) (om_lookup (ents (Lf 10 [])) ?k)) (Some ?v) (ee_order sample_env (en_indexes e)) = Ok []"
    using sample_start [of ?k ?v] by blast
  have "\<exists>lsn e' b'. engine_put sample_env ?k ?v e = Some (Ok lsn, e') \<and> engine_holds ll_pages ll_cap sample_pages sample_reserved e' b' [?k \<mapsto> [(lsn, Some ?v)]]"
    using engine_put_version [OF sample_engine e(2) _ _ _ e(3-6)] by (auto simp: roomy_def)
  then show ?thesis using e(1) by blast
qed

text \<open>C3: Snapshot isolation of reads: a read-only transaction that began before a write commits reads the version from before the write,
although the row in the tree has the new one.\<close>

theorem engine_snapshot_stable:
  assumes "engine_pages L pages cap U R G" and "engine_holds pages cap U R e b H" and "length key = KEY_SIZE" and "length value = VALUE_SIZE" and "roomy key b"
    and "undo_room U (view_of pages (en_cache e))" and "unat (ip_next_lsn (en_world e)) + 4 < 2 ^ 64" and "ip_request_id (en_world e) \<noteq> 0"
    and "plan_mutations key (map_option (\<lambda>enc. lv_value (leaf_of enc)) (om_lookup (ents b) key)) (Some value) (ee_order G (en_indexes e)) = Ok []"
  shows "\<exists>x e1 lsn e2 x' e3. engine_begin_tx G True None e = Some (Ok x, e1) \<and> engine_put G key value e1 = Some (Ok lsn, e2)
    \<and> txn_get G key (x, e2) = Some (Ok (case H key of Some ((l, v) # _) \<Rightarrow> v | _ \<Rightarrow> None), x', e3)"
  using engine_pages.snapshot_before_put [OF assms] .

theorem engine_snapshot_stable_witness:
  "\<exists>e x e1 lsn e2 x' e3. connect_inprocess sample_env None None 0 7 = Some (Ok (), e) \<and> engine_begin_tx sample_env True None e = Some (Ok x, e1)
    \<and> engine_put sample_env (replicate KEY_SIZE 1) (replicate VALUE_SIZE 2) e1 = Some (Ok lsn, e2) \<and> txn_get sample_env (replicate KEY_SIZE 1) (x, e2) = Some (Ok None, x', e3)"
proof -
  let ?k = "replicate KEY_SIZE 1 :: bytes" let ?v = "replicate VALUE_SIZE 2 :: bytes"
  obtain e where e: "connect_inprocess sample_env None None 0 7 = Some (Ok (), e)" "engine_holds ll_pages ll_cap sample_pages sample_reserved e (Lf 10 []) Map.empty"
    "undo_room sample_pages (view_of ll_pages (en_cache e))" "unat (ip_next_lsn (en_world e)) + 4 < 2 ^ 64" "ip_request_id (en_world e) \<noteq> 0"
    "plan_mutations ?k (map_option (\<lambda>enc. lv_value (leaf_of enc)) (om_lookup (ents (Lf 10 [])) ?k)) (Some ?v) (ee_order sample_env (en_indexes e)) = Ok []"
    using sample_start [of ?k ?v] by blast
  have "\<exists>x e1 lsn e2 x' e3. engine_begin_tx sample_env True None e = Some (Ok x, e1) \<and> engine_put sample_env ?k ?v e1 = Some (Ok lsn, e2)
      \<and> txn_get sample_env ?k (x, e2) = Some (Ok None, x', e3)"
    using engine_snapshot_stable [OF sample_engine e(2) _ _ _ e(3-6)] by (simp add: roomy_def)
  then show ?thesis using e(1) by blast
qed

end
