(* ===== verification/Spec2Isabelle.thy ===== *)
theory Spec2Isabelle
  imports Slotted_Page Undo_Page Meta_Pages Storage_Node Txn_Manager Bptree_Mem Index_Catalog Engine_Init
begin

text \<open>
  A verification development for scale-kv, a key-value store whose compute side (an engine with a page cache) is separate from its
  storage nodes. All paths are under \<open>src/src\<close>.

  \<^bold>\<open>The program.\<close> The embedded engine (\<open>embedded_compute*.rs\<close>) keeps rows of fixed-size keys and values in a B+-tree
  (\<open>page_bptree.rs\<close>) whose pages live in a sharded cache (\<open>PageCache\<close>, \<open>txn_page_provider.rs\<close>). A write puts an intent into the
  tree and the old row into an undo page (\<open>undo_pg.rs\<close>). A commit reserves a range of log sequence numbers (LSNs) at a sequencer,
  stamps the rows, and sends full page images either to a map in the process or to storage nodes, of which a quorum has to answer
  (\<open>quorum_client.rs\<close>, \<open>compute_sequencer.rs\<close>, \<open>embedded_compute_runtime.rs\<close>). Secondary indexes are kept in memory and persisted
  in a catalog page and a posting log (\<open>secondary_*.rs\<close>). A storage node (\<open>node*.rs\<close>) appends the images to a write-ahead log (WAL)
  in segments, replays them into a page store with a buffer pool (\<open>page_store.rs\<close>), writes checkpoints and truncates the log. Apart
  from these, \<open>txn_kv/\<close> is a transactional store of its own, with its log and snapshots on a quorum of replica directories.

  \<^bold>\<open>Conventions.\<close> Fixed-width integers are words of their width and \<open>usize\<close> is \<^typ>\<open>nat\<close> or a 64 bit word where it may wrap.
  A page is a list of bytes. Fallible code gives a value of the type \<open>res\<close> of \<open>Prelude\<close>: \<open>Ok\<close>, \<open>Err\<close> with the error of
  \<open>common.rs\<close>, or \<open>Panic\<close>. Stateful code passes its state, a record with the fields of the struct. The code of the tree and of the
  engine is a program of the type \<open>prog\<close>, from a state to an optional result and state; there \<^term>\<open>None\<close> means that a loop does
  not end. Asynchronous calls run to their end, and where the interleaving matters the call is also given by the blocks between which
  others may run (checkpoints and eviction in \<open>Page_Store\<close>, commit in \<open>Txn_Manager\<close>, quorum writes in \<open>Txn_Storage\<close>, dispatch in
  \<open>Sequencer\<close>).

  \<^bold>\<open>Theories.\<close>
  \<^item> \<open>Prelude\<close>, \<open>Ordered_Map\<close>, \<open>Frames\<close>: integers, byte buffers and results; \<open>BTreeMap\<close> with its contract \<open>map_spec\<close>; reading
    loops over framed logs with the contract \<open>frame_codec\<close>. \<open>Common\<close>: \<open>common.rs\<close>.
  \<^item> \<open>Slotted_Page\<close>, \<open>Undo_Page\<close>, \<open>Meta_Pages\<close>: the page formats of \<open>slotted_page.rs\<close>, \<open>undo_pg.rs\<close>, \<open>meta_page.rs\<close> and
    \<open>btree_meta.rs\<close> at byte level. Well-formedness is kept, inserting, overwriting, appending and defragmenting refine the abstract
    rows or records (contract \<open>row_store\<close>), and the headers can be read back.
  \<^item> \<open>Wal_Codec\<close>, \<open>Wal_Files\<close>, \<open>Wal_Replay\<close>, \<open>Page_Store\<close>, \<open>Node_Mvcc\<close>, \<open>Active_Reads\<close>, \<open>Storage_Node\<close>: the storage node, in
    the files \<open>node_wal_codec.rs\<close>, \<open>node_wal_files.rs\<close> and \<open>node_wal_writer.rs\<close>, \<open>node_wal_replay.rs\<close> and \<open>node_bootstrap.rs\<close>,
    \<open>page_store.rs\<close>, \<open>node_mvcc.rs\<close>, \<open>active_reads.rs\<close>, \<open>node.rs\<close> and \<open>node_maintenance.rs\<close>. Logs read back, group commit appends,
    truncation keeps what is not checkpointed, checkpoints and eviction keep the pages, opening redoes the log, an appended batch is
    durable and visible, open snapshots survive garbage collection, and the admission guards are exact.
  \<^item> \<open>Txn_Codec\<close>, \<open>Txn_Storage\<close>, \<open>Txn_Manager\<close>: \<open>txn_kv.rs\<close> with \<open>txn_kv/codec.rs\<close>, \<open>storage.rs\<close> and \<open>manager.rs\<close>. The manager
    is verified over any storage with the contract \<open>durable_storage\<close>, which the replicated storage keeps: snapshot isolation, the first
    committer wins, scans agree with reads, and commits survive a restart.
  \<^item> \<open>Page_Provider\<close>, \<open>Bptree_Page\<close>, \<open>Bptree\<close>, \<open>Bptree_Rep\<close>, \<open>Bptree_Correct\<close>, \<open>Bptree_Plain\<close>, \<open>Bptree_Mem\<close>: the trait of
    page providers with its contracts \<open>page_reader\<close> and \<open>page_provider\<close>, the tree's pages at byte level, its operations as programs
    over any provider, the tree that a set of pages forms, lookup, insertion and scans against an ordered map for every provider that
    keeps the contract, insertions that split nothing, and the tree over the in-memory provider.
  \<^item> \<open>Page_Cache\<close>, \<open>Lru_List\<close>: the sharded cache over an LRU cache with the contract \<open>lru_cache\<close>, the two providers over it, and
    lists in the order of use as an instance.
  \<^item> \<open>Secondary_Index\<close>, \<open>Posting_Log\<close>, \<open>Index_Catalog\<close>: \<open>secondary_index.rs\<close>, \<open>secondary_posting_log.rs\<close> and
    \<open>secondary_index_meta.rs\<close>. A query gives the rows that have the key at the LSN of the query, and the pages can be read back.
  \<^item> \<open>Sequencer\<close>: the quorum client and both sequencers. Reserved ranges are dispatched in order, and a commit succeeds when a quorum
    has reached its end.
  \<^item> \<open>Engine\<close>, \<open>Engine_Txn\<close>, \<open>Engine_Api\<close>: the embedded engine. \<open>Engine\<close> has \<open>EmbeddedCompute\<close> with the registry of pending
    transactions, the rollback of intents, one round of the reaper, the commit of pages and the purge of undo segments; \<open>Engine_Txn\<close>
    has \<open>EmbeddedTxn\<close> and \<open>embedded_compute_visibility.rs\<close>; \<open>Engine_Api\<close> has the calls that make their own transaction,
    \<open>embedded_compute_recovery.rs\<close>, the garbage collection and connecting.
  \<^item> \<open>Engine_Run\<close>, \<open>Engine_Mvcc\<close>, \<open>Engine_Put\<close>, \<open>Engine_Commit\<close>, \<open>Engine_Correct\<close>, \<open>Engine_Init\<close>: what the in-process engine
    promises. \<open>engine_pages\<close> is the contract between the engine and its cache while no page is evicted, and \<open>engine_holds\<close> says that an
    engine holds a history of versions for every row: the tree has the newest version, the undo chain the older ones, the store has
    every page of the cache. Connecting to an empty store gives an engine without rows, a read gives the newest version, a write adds
    one version and keeps the others, and a snapshot does not see later writes.

  \<^bold>\<open>Parameters.\<close> Code outside the repository is an argument with named hypotheses: the LRU cache (crate \<open>lru\<close>), the checksum (crate
  \<open>crc32fast\<close>), the iteration order of hash maps, the answers of storage nodes over RPC, the clock and what other tasks do while one
  sleeps, faults of files. Each has an instance on which the properties are applied.

  \<^bold>\<open>Bounds and fuel.\<close> The reading loop of \<open>Frames\<close> has as fuel the length of its input plus one, which is enough because every frame
  takes a byte (\<open>read_log_never_out_of_fuel\<close>). A number is printed with its successor as fuel, which is above its count of digits. The binary searches, the decoding
  of postings, the log replay and the repair attempts terminate by a measure. The retries of the tree are bounded as in the source, and
  its other loops and those of the engine are partial functions; the properties on them state that a result is returned. The
  properties of the engine need room in the cache for the pages it uses, a leaf with room for the row, an undo page to be had, and LSNs
  that do not wrap; \<open>Lru_List.eviction_loses_write\<close> shows why the first is needed.

  \<^bold>\<open>Not modelled.\<close> The Cap'n Proto client and server (\<open>client.rs\<close>, \<open>server.rs\<close>), which move fields between calls of the node and
  messages of generated types over TCP; the crate root and the generated bindings (\<open>lib.rs\<close>, \<open>storage_capnp.rs\<close>); the command line
  programs (\<open>bin/\<close>), which parse arguments and measure time; the text of metrics in \<open>node.rs\<close>; debug output, the validator that only
  the tests use, and the tests. Modelled without a property of their own are deletions, garbage collection, the reaper, recovery and the
  index operations of the engine, removals from the tree (apart from the entry they lose, \<open>Bptree_Mem.bptree_remove_loses_borrowed\<close>),
  and the engine over storage nodes: only its sequencer and its fetching of pages are verified.
\<close>

end
